(* ===== verification/Prelude.thy ===== *)
theory Prelude
  imports Complex_Main "HOL-Library.Word" "HOL-Library.Monad_Syntax" "HOL-Library.List_Lexorder"
    "HOL-Library.Char_ord"
begin

text \<open>
  Shared vocabulary of the development. A Go \<open>string\<close> is the list of its bytes, a Go \<open>map\<close> is
  a partial function, \<open>time.Time\<close> and \<open>time.Duration\<close> are integers (nanoseconds) and a
  computation that can end in a run-time panic (a nil dereference, an index out of range, an
  assignment into a nil map) is a computation in the option monad whose \<open>None\<close> is the panic.
  Go does not fix the order in which \<open>range\<close> visits a map, so every such loop takes the order
  as an argument and the theorems quantify over all of them. The theory also holds the pieces
  of the standard library the sources use: \<open>sort.Search\<close> as the binary search it is,
  \<open>strconv.Itoa\<close>, and the generic lemmas on loops, maps and sorted lists that the components
  share.
\<close>

named_theorems go_simps \<open>equations of the Go primitives and of the small helper operations\<close>

type_synonym go_time = int
type_synonym duration = int

abbreviation (input) panic :: "'a option" where "panic \<equiv> None"

section \<open>Loops that can panic\<close>

text \<open>A \<open>for ... range\<close> loop over a list of values, with the loop state passed along.\<close>

fun foldM :: "('a \<Rightarrow> 's \<Rightarrow> 's option) \<Rightarrow> 'a list \<Rightarrow> 's \<Rightarrow> 's option" where
  "foldM f [] s = Some s"
| "foldM f (x # xs) s = Option.bind (f x s) (foldM f xs)"

lemma foldM_append [simp]:
  "foldM f (xs @ ys) s = Option.bind (foldM f xs s) (foldM f ys)"
  by (induction xs arbitrary: s) (auto split: bind_splits)

text \<open>
  The loop rule: when the body keeps an invariant and never panics on a state that satisfies it,
  the loop returns and its result satisfies the invariant. The invariant sees the visited prefix.
\<close>

lemma foldM_rule:
  assumes "I [] s"
    and "\<And>ys x zs t. \<lbrakk> xs = ys @ x # zs; I ys t \<rbrakk> \<Longrightarrow> \<exists>t'. f x t = Some t' \<and> I (ys @ [x]) t'"
  shows "\<exists>t. foldM f xs s = Some t \<and> I xs t"
  using assms
proof (induction xs arbitrary: s I)
  case Nil
  then show ?case by simp
next
  case (Cons a xs)
  obtain t where t: "f a s = Some t" "I [a] t"
    using Cons.prems(2) [of "[]" a xs s] Cons.prems(1) by auto
  have "\<exists>u. foldM f xs t = Some u \<and> (\<lambda>ys. I (a # ys)) xs u"
  proof (rule Cons.IH)
    show "I [a] t" by (fact t(2))
  next
    fix ys x zs u
    assume "xs = ys @ x # zs" and "I (a # ys) u"
    then show "\<exists>t'. f x u = Some t' \<and> I (a # (ys @ [x])) t'"
      using Cons.prems(2) [of "a # ys" x zs u] by simp
  qed
  with t(1) show ?case by auto
qed

corollary foldM_inv:
  assumes "I s" and "\<And>x t. \<lbrakk> x \<in> set xs; I t \<rbrakk> \<Longrightarrow> \<exists>t'. f x t = Some t' \<and> I t'"
  shows "\<exists>t. foldM f xs s = Some t \<and> I t"
  by (rule foldM_rule [where I = "\<lambda>_. I"]) (use assms in auto)

text \<open>The loop rule for bodies that may panic: what every returning step keeps, a returning loop keeps.\<close>

lemma foldM_partial:
  assumes "foldM f xs s = Some t" "I s" and "\<And>x u v. I u \<Longrightarrow> f x u = Some v \<Longrightarrow> I v"
  shows "I t"
  using assms(1,2)
proof (induction xs arbitrary: s)
  case (Cons x xs)
  then obtain u where "f x s = Some u" "foldM f xs u = Some t" by (auto split: bind_splits)
  with Cons assms(3) show ?case by blast
qed simp

text \<open>Simulation of a loop: a body that refines a pure step makes the loop refine the fold.\<close>

lemma foldM_refines:
  assumes "R s a"
    and "\<And>x t b. \<lbrakk> x \<in> set xs; R t b \<rbrakk> \<Longrightarrow> \<exists>t'. f x t = Some t' \<and> R t' (g x b)"
  shows "\<exists>t. foldM f xs s = Some t \<and> R t (fold g xs a)"
  using assms
proof (induction xs arbitrary: s a)
  case (Cons x xs)
  obtain t where "f x s = Some t" "R t (g x a)"
    using Cons.prems(2) [of x s a] Cons.prems(1) by auto
  with Cons.IH [of t "g x a"] Cons.prems(2) show ?case by auto
qed simp

section \<open>Iteration order of maps\<close>

definition is_order :: "('k \<rightharpoonup> 'v) \<Rightarrow> 'k list \<Rightarrow> bool" where
  "is_order m ks \<longleftrightarrow> distinct ks \<and> set ks = dom m"

text \<open>
  Where the map that a loop ranges over is computed on the way, the order is an oracle: a function
  from the map to an order of its keys. \<open>fair_order\<close> is what Go promises of it: every key is
  visited exactly once.
\<close>

definition fair_order :: "(('k \<rightharpoonup> 'v) \<Rightarrow> 'k list) \<Rightarrow> bool" where
  "fair_order ord \<longleftrightarrow> (\<forall>m. finite (dom m) \<longrightarrow> is_order m (ord m))"

text \<open>One such oracle, used by the concrete instances: ascending order of the keys.\<close>

definition ascending :: "('k::linorder \<rightharpoonup> 'v) \<Rightarrow> 'k list" where
  "ascending m = sorted_list_of_set (dom m)"

lemma fair_ascending: "fair_order ascending"
  by (simp add: fair_order_def is_order_def ascending_def)

lemma is_orderD:
  assumes "is_order m ks"
  shows "distinct ks" "set ks = dom m"
  using assms by (auto simp: is_order_def)

lemma fair_orderD: "fair_order ord \<Longrightarrow> finite (dom m) \<Longrightarrow> is_order m (ord m)"
  by (simp add: fair_order_def)

lemma is_order_length: "is_order m ks \<Longrightarrow> length ks = card (dom m)"
  by (metis distinct_card is_order_def)

text \<open>\<open>len\<close> of a map.\<close>

definition map_len :: "('k \<rightharpoonup> 'v) \<Rightarrow> int" where
  "map_len m = int (card (dom m))"

section \<open>\<open>sort.Search\<close>\<close>

text \<open>
  \<open>sort.Search(n, f)\<close>: binary search for the smallest index in \<open>[0, n)\<close> at which \<open>f\<close> is true,
  \<open>n\<close> when there is none; \<open>f\<close> must be false on a prefix and true on the rest.
\<close>

function search_loop :: "(nat \<Rightarrow> bool) \<Rightarrow> nat \<Rightarrow> nat \<Rightarrow> nat" where
  "search_loop f i j =
     (if i < j
      then let h = (i + j) div 2
           in if \<not> f h then search_loop f (h + 1) j else search_loop f i h
      else i)"
  by pat_completeness auto
termination
  by (relation "measure (\<lambda>(f, i, j). j - i)") auto

declare search_loop.simps [simp del]

definition sort_Search :: "nat \<Rightarrow> (nat \<Rightarrow> bool) \<Rightarrow> nat" where
  "sort_Search n f = search_loop f 0 n"

lemma search_loop_correct:
  assumes "i \<le> j" and "\<And>a b. a \<le> b \<Longrightarrow> b < n \<Longrightarrow> f a \<Longrightarrow> f b" and "j \<le> n"
    and "\<And>a. a < i \<Longrightarrow> \<not> f a" and "j < n \<Longrightarrow> f j"
  shows "search_loop f i j \<le> n \<and> (\<forall>a < search_loop f i j. \<not> f a) \<and>
    (search_loop f i j < n \<longrightarrow> f (search_loop f i j))"
  using assms
proof (induction f i j rule: search_loop.induct)
  case (1 f i j)
  let ?h = "(i + j) div 2"
  show ?case
  proof (cases "i < j")
    case False
    with "1.prems" show ?thesis
      by (subst (1 2 3 4) search_loop.simps) auto
  next
    case ij: True
    then have h: "i \<le> ?h" "?h < j" by auto
    show ?thesis
    proof (cases "f ?h")
      case True
      then have "search_loop f i j = search_loop f i ?h"
        using ij by (simp add: search_loop.simps [of f i j])
      moreover have "search_loop f i ?h \<le> n \<and> (\<forall>a < search_loop f i ?h. \<not> f a) \<and>
          (search_loop f i ?h < n \<longrightarrow> f (search_loop f i ?h))"
        using "1.prems" h True
        by (intro "1.IH"(2) [OF ij refl]) auto
      ultimately show ?thesis by simp
    next
      case False
      then have eq: "search_loop f i j = search_loop f (?h + 1) j"
        using ij by (simp add: search_loop.simps [of f i j])
      have "\<not> f a" if "a < ?h + 1" for a
        using that False "1.prems"(2) [of a ?h] "1.prems"(3) h by auto
      then have "search_loop f (?h + 1) j \<le> n \<and> (\<forall>a < search_loop f (?h + 1) j. \<not> f a) \<and>
          (search_loop f (?h + 1) j < n \<longrightarrow> f (search_loop f (?h + 1) j))"
        using "1.prems" h False
        by (intro "1.IH"(1) [OF ij refl]) auto
      then show ?thesis by (simp add: eq)
    qed
  qed
qed

text \<open>On an ascending list the search finds the first element that is not below the key.\<close>

lemma sort_Search_sorted:
  fixes xs :: "'a::linorder list"
  assumes "sorted xs"
  shows "sort_Search (length xs) (\<lambda>i. x \<le> xs ! i) = length (takeWhile (\<lambda>y. y < x) xs)"
proof -
  let ?f = "\<lambda>i. x \<le> xs ! i"
  let ?r = "sort_Search (length xs) ?f"
  let ?t = "length (takeWhile (\<lambda>y. y < x) xs)"
  have r: "?r \<le> length xs \<and> (\<forall>a < ?r. \<not> ?f a) \<and> (?r < length xs \<longrightarrow> ?f ?r)"
    unfolding sort_Search_def
    by (rule search_loop_correct) (use assms in \<open>auto dest: sorted_nth_mono order_trans\<close>)
  have "?t \<le> length xs" by (rule length_takeWhile_le)
  have below: "\<not> ?f a" if "a < ?t" for a
    using that by (metis nth_mem not_le set_takeWhileD takeWhile_nth)
  have at: "?f ?t" if "?t < length xs"
    using that nth_length_takeWhile by fastforce
  show ?thesis
    using r below at \<open>?t \<le> length xs\<close> by (metis nat_neq_iff order_less_le_trans)
qed

text \<open>The values of a map in visiting order.\<close>

lemma map_filter_dom:
  assumes "is_order m ks"
  shows "length (List.map_filter m ks) = card (dom m)"
    "length (filter P (List.map_filter m ks)) = card {k. \<exists>v. m k = Some v \<and> P v}"
proof -
  have "filter (\<lambda>x. \<exists>y. m x = Some y) ks = ks"
    using assms by (intro filter_True) (auto simp: is_order_def)
  then have mf: "List.map_filter m ks = map (the \<circ> m) ks"
    by (simp add: List.map_filter_def)
  then show "length (List.map_filter m ks) = card (dom m)"
    using assms by (simp add: is_order_length)
  have "filter P (map (the \<circ> m) ks) = map (the \<circ> m) (filter (P \<circ> (the \<circ> m)) ks)"
    by (simp add: filter_map)
  then have "length (filter P (List.map_filter m ks)) = length (filter (P \<circ> (the \<circ> m)) ks)"
    by (simp add: mf)
  also have "\<dots> = card (set (filter (P \<circ> (the \<circ> m)) ks))"
    using assms by (intro distinct_card [symmetric]) (simp add: is_order_def)
  also have "set (filter (P \<circ> (the \<circ> m)) ks) = {k. \<exists>v. m k = Some v \<and> P v}"
    using assms by (force simp: is_order_def)
  finally show "length (filter P (List.map_filter m ks)) = card {k. \<exists>v. m k = Some v \<and> P v}" .
qed

section \<open>\<open>strconv.Itoa\<close> on non-negative numbers\<close>

fun digits :: "nat \<Rightarrow> string" where
  "digits n = (if n < 10 then [char_of (48 + n)] else digits (n div 10) @ [char_of (48 + n mod 10)])"

declare digits.simps [simp del]

definition Itoa :: "nat \<Rightarrow> string" where
  "Itoa n = digits n"

text \<open>The digits can be read back, so different numbers have different texts.\<close>

definition digits_val :: "string \<Rightarrow> nat" where
  "digits_val s = foldl (\<lambda>a c. 10 * a + (of_char c - 48)) 0 s"

lemma digits_val_digits: "digits_val (digits n) = n"
proof (induction n rule: digits.induct)
  case (1 n)
  have d: "(of_char (char_of (48 + m) :: char) :: nat) = 48 + m" if "m < 10" for m :: nat
    using that by simp
  show ?case
  proof (cases "n < 10")
    case True
    then show ?thesis using d [OF True] by (subst digits.simps) (simp add: digits_val_def)
  next
    case False
    then show ?thesis using 1 d [of "n mod 10"] by (subst digits.simps) (simp add: digits_val_def)
  qed
qed

lemma Itoa_inj [simp]: "Itoa m = Itoa n \<longleftrightarrow> m = n"
  unfolding Itoa_def using digits_val_digits by metis

section \<open>Sorted lists and least elements\<close>

lemma sorted_takeWhile_less:
  fixes xs :: "'a::linorder list"
  shows "sorted xs \<Longrightarrow> dropWhile (\<lambda>y. y < x) xs = filter (\<lambda>y. x \<le> y) xs"
  by (induction xs) (auto simp: not_less intro!: filter_True [symmetric] intro: order_trans)

lemma nth_length_takeWhile_eq:
  "length (takeWhile P xs) < length xs \<Longrightarrow> xs ! length (takeWhile P xs) = hd (dropWhile P xs)"
  by (metis dropWhile_eq_drop hd_drop_conv_nth)

lemma hd_sorted_Min: "sorted xs \<Longrightarrow> xs \<noteq> [] \<Longrightarrow> hd xs = Min (set xs)"
  by (cases xs) (auto intro: Min_eqI [symmetric])

section \<open>Maps\<close>

lemma dom_fun_upd_None [simp]: "dom (m(k := None)) = dom m - {k}"
  by auto

lemma finite_dom_updI [simp]: "finite (dom m) \<Longrightarrow> finite (dom (m(k := x)))"
  by (cases x) auto

lemma card_dom_del: "finite (dom m) \<Longrightarrow> m k \<noteq> None \<Longrightarrow> card (dom (m(k := None))) = card (dom m) - 1"
  by (simp add: domI card_Diff_singleton domIff)

lemma bind_Some_iff: "Option.bind x f = Some y \<longleftrightarrow> (\<exists>a. x = Some a \<and> f a = Some y)"
  by (cases x) auto

end
