(* ===== verification/Lru_Cache.thy ===== *)
theory Lru_Cache
  imports Prelude
begin

text \<open>
  The node-local cache of \<open>core/lrucache.go\<close>, at the level of its pointers: the nodes of the doubly
  linked list live in a heap \<open>lru_heap\<close> from locations to \<open>LRUNode\<close> structs, \<open>prev\<close> and \<open>next\<close> are
  possibly nil locations, the hash map sends a key to the location of its node, and \<open>head\<close> and
  \<open>tail\<close> are the sentinels. Every pointer assignment of the source is one heap update, in the
  source's order, and following a nil pointer is a panic. The state is one record with the fields
  of \<open>LRUCache\<close>; the mutex is not part of it, because every operation here runs from its
  \<open>Lock\<close> to its \<open>Unlock\<close>. The Go counters are 64 bits wide; they are integers here, and
  \<open>lru_inv\<close> bounds each of them by the number of calls made or the bytes held, so that they do not
  wrap before \<open>2 ^ 63\<close> calls or bytes.
\<close>

section \<open>State\<close>

type_synonym loc = nat

record lru_node =
  n_key :: string
  n_value :: string
  n_prev :: "loc option"
  n_next :: "loc option"

record cleanup_stats =
  CleanedKeys :: int
  CleanupRuns :: int
  LastCleanup :: "go_time option"

record cache_stats =
  Hits :: int
  Misses :: int
  TotalRequests :: int

datatype chan = NilChan | OpenChan | ClosedChan

record lru_cache =
  lru_capacity :: int
  lru_size :: int
  lru_map :: "string \<rightharpoonup> loc"
  lru_head :: loc
  lru_tail :: loc
  lru_ttlMap :: "(string \<rightharpoonup> go_time) option"
  lru_cleanupInterval :: duration
  lru_stopCleanup :: chan
  lru_cleanupStats :: cleanup_stats
  lru_stats :: cache_stats
  lru_memoryUsage :: int
  lru_memoryLimit :: int
  lru_heap :: "loc \<Rightarrow> lru_node"
  lru_fresh :: loc

definition blank_node :: lru_node where
  "blank_node = \<lparr> n_key = [], n_value = [], n_prev = None, n_next = None \<rparr>"

abbreviation (input) node_at :: "lru_cache \<Rightarrow> loc \<Rightarrow> lru_node" where
  "node_at s p \<equiv> lru_heap s p"

definition upd_node :: "loc \<Rightarrow> (lru_node \<Rightarrow> lru_node) \<Rightarrow> lru_cache \<Rightarrow> lru_cache" where
  "upd_node p f s = s\<lparr> lru_heap := (lru_heap s)(p := f (lru_heap s p)) \<rparr>"

text \<open>Reading a key in a possibly nil \<open>map[string]time.Time\<close>, and the built-in \<open>delete\<close> on it.\<close>

definition ttl_lookup :: "lru_cache \<Rightarrow> string \<Rightarrow> go_time option" where
  "ttl_lookup s k = (case lru_ttlMap s of None \<Rightarrow> None | Some m \<Rightarrow> m k)"

definition ttl_delete :: "string \<Rightarrow> lru_cache \<Rightarrow> lru_cache" where
  "ttl_delete k s = s\<lparr> lru_ttlMap := map_option (\<lambda>m. m(k := None)) (lru_ttlMap s) \<rparr>"

section \<open>Constructors\<close>

definition zero_cleanup_stats :: cleanup_stats where
  "zero_cleanup_stats = \<lparr> CleanedKeys = 0, CleanupRuns = 0, LastCleanup = None \<rparr>"

definition zero_cache_stats :: cache_stats where
  "zero_cache_stats = \<lparr> Hits = 0, Misses = 0, TotalRequests = 0 \<rparr>"

definition NewLRUCache :: "int \<Rightarrow> lru_cache option" where
  "NewLRUCache cap =
     (if cap \<le> 0 then panic
      else Some
        \<lparr> lru_capacity = cap, lru_size = 0, lru_map = Map.empty,
          lru_head = 0, lru_tail = 1, lru_ttlMap = None,
          lru_cleanupInterval = 0, lru_stopCleanup = NilChan,
          lru_cleanupStats = zero_cleanup_stats, lru_stats = zero_cache_stats,
          lru_memoryUsage = 0, lru_memoryLimit = 0,
          lru_heap = (\<lambda>_. blank_node)(0 := blank_node\<lparr> n_next := Some 1 \<rparr>,
                                      1 := blank_node\<lparr> n_prev := Some 0 \<rparr>),
          lru_fresh = 2 \<rparr>)"

definition NewLRUCacheWithMemoryLimit :: "int \<Rightarrow> int \<Rightarrow> lru_cache option" where
  "NewLRUCacheWithMemoryLimit cap memoryLimitBytes = do {
     lru \<leftarrow> NewLRUCache cap;
     Some (lru\<lparr> lru_memoryLimit := memoryLimitBytes \<rparr>)
   }"

text \<open>The goroutine this constructor starts is \<open>startCleanupRoutine\<close> below.\<close>

definition NewLRUCacheWithCleanup :: "int \<Rightarrow> duration \<Rightarrow> lru_cache option" where
  "NewLRUCacheWithCleanup cap interval = do {
     c \<leftarrow> NewLRUCache cap;
     Some (c\<lparr> lru_cleanupInterval := interval, lru_stopCleanup := OpenChan,
              lru_ttlMap := Some Map.empty \<rparr>)
   }"

section \<open>The doubly linked list\<close>

definition calculateMemoryUsage :: "string \<Rightarrow> string \<Rightarrow> int" where
  "calculateMemoryUsage k v = int (length k) + int (length v) + 64"

definition addToHead :: "loc \<Rightarrow> lru_cache \<Rightarrow> lru_cache option" where
  "addToHead p s = do {
     let s1 = upd_node p (n_prev_update (\<lambda>_. Some (lru_head s))) s;
     let s2 = upd_node p (n_next_update (\<lambda>_. n_next (node_at s1 (lru_head s1)))) s1;
     b \<leftarrow> n_next (node_at s2 (lru_head s2));
     let s3 = upd_node b (n_prev_update (\<lambda>_. Some p)) s2;
     Some (upd_node (lru_head s3) (n_next_update (\<lambda>_. Some p)) s3)
   }"

definition removeNode :: "loc \<Rightarrow> lru_cache \<Rightarrow> lru_cache option" where
  "removeNode p s = do {
     a \<leftarrow> n_prev (node_at s p);
     let s1 = upd_node a (n_next_update (\<lambda>_. n_next (node_at s p))) s;
     b \<leftarrow> n_next (node_at s1 p);
     Some (upd_node b (n_prev_update (\<lambda>_. n_prev (node_at s1 p))) s1)
   }"

definition moveToHead :: "loc \<Rightarrow> lru_cache \<Rightarrow> lru_cache option" where
  "moveToHead p s = Option.bind (removeNode p s) (addToHead p)"

definition removeTail :: "lru_cache \<Rightarrow> (loc \<times> lru_cache) option" where
  "removeTail s = do {
     lastNode \<leftarrow> n_prev (node_at s (lru_tail s));
     s1 \<leftarrow> removeNode lastNode s;
     Some (lastNode, s1)
   }"

text \<open>\<open>&LRUNode{key: key, value: value}\<close>: a fresh location.\<close>

definition new_node :: "string \<Rightarrow> string \<Rightarrow> lru_cache \<Rightarrow> loc \<times> lru_cache" where
  "new_node k v s =
     (lru_fresh s,
      upd_node (lru_fresh s) (\<lambda>_. blank_node\<lparr> n_key := k, n_value := v \<rparr>)
        (s\<lparr> lru_fresh := Suc (lru_fresh s) \<rparr>))"

section \<open>Set, with eviction\<close>

lemma upd_node_sel [simp]:
  "lru_size (upd_node p f s) = lru_size s"
  "lru_capacity (upd_node p f s) = lru_capacity s"
  "lru_map (upd_node p f s) = lru_map s"
  "lru_head (upd_node p f s) = lru_head s"
  "lru_tail (upd_node p f s) = lru_tail s"
  "lru_ttlMap (upd_node p f s) = lru_ttlMap s"
  "lru_cleanupInterval (upd_node p f s) = lru_cleanupInterval s"
  "lru_stopCleanup (upd_node p f s) = lru_stopCleanup s"
  "lru_cleanupStats (upd_node p f s) = lru_cleanupStats s"
  "lru_stats (upd_node p f s) = lru_stats s"
  "lru_memoryUsage (upd_node p f s) = lru_memoryUsage s"
  "lru_memoryLimit (upd_node p f s) = lru_memoryLimit s"
  "lru_fresh (upd_node p f s) = lru_fresh s"
  "lru_heap (upd_node p f s) = (lru_heap s)(p := f (lru_heap s p))"
  by (simp_all add: upd_node_def)

lemma removeTail_size:
  "removeTail s = Some (p, t) \<Longrightarrow> lru_size t = lru_size s \<and> lru_capacity t = lru_capacity s"
  by (auto simp: removeTail_def removeNode_def Let_def bind_Some_iff)

text \<open>The guard of the eviction loop, and the loop itself with its early \<open>break\<close>.\<close>

definition must_evict :: "int \<Rightarrow> lru_cache \<Rightarrow> bool" where
  "must_evict newMemory s \<longleftrightarrow>
     (lru_memoryLimit s > 0 \<and> lru_memoryUsage s + newMemory > lru_memoryLimit s \<and> lru_size s > 0)
     \<or> lru_size s \<ge> lru_capacity s"

function evict_loop :: "int \<Rightarrow> lru_cache \<Rightarrow> lru_cache option" where
  "evict_loop newMemory s =
     (if \<not> must_evict newMemory s \<or> lru_size s = 0 then Some s
      else do {
        (lastNode, s1) \<leftarrow> removeTail s;
        let oldMemory = calculateMemoryUsage (n_key (node_at s1 lastNode)) (n_value (node_at s1 lastNode));
        evict_loop newMemory
          (s1\<lparr> lru_memoryUsage := lru_memoryUsage s1 - oldMemory,
               lru_map := (lru_map s1)(n_key (node_at s1 lastNode) := None),
               lru_size := lru_size s1 - 1 \<rparr>)
      })"
  by pat_completeness auto
termination
  by (relation "measure (\<lambda>(n, s). nat (lru_size s) + nat (lru_size s - lru_capacity s + 1))")
    (auto simp: must_evict_def dest!: removeTail_size)

declare evict_loop.simps [simp del]

definition SetInternal :: "string \<Rightarrow> string \<Rightarrow> lru_cache \<Rightarrow> lru_cache option" where
  "SetInternal k v s =
     (let newMemory = calculateMemoryUsage k v in
      if lru_memoryLimit s > 0 \<and> newMemory > lru_memoryLimit s then Some s
      else case lru_map s k of
        Some p \<Rightarrow>
          let s1 = s\<lparr> lru_memoryUsage :=
                lru_memoryUsage s - calculateMemoryUsage k (n_value (node_at s p)) + newMemory \<rparr>;
              s2 = upd_node p (n_value_update (\<lambda>_. v)) s1
          in moveToHead p s2
      | None \<Rightarrow> do {
          s1 \<leftarrow> evict_loop newMemory s;
          let (newNode, s2) = new_node k v s1;
          s3 \<leftarrow> addToHead newNode s2;
          Some (s3\<lparr> lru_map := (lru_map s3)(k \<mapsto> newNode),
                    lru_memoryUsage := lru_memoryUsage s3 + newMemory,
                    lru_size := lru_size s3 + 1 \<rparr>)
        })"

definition lru_Set :: "string \<Rightarrow> string \<Rightarrow> lru_cache \<Rightarrow> lru_cache option" where
  "lru_Set k v s = SetInternal k v s"

text \<open>Writing into the nil \<open>ttlMap\<close> of a cache built without cleanup panics.\<close>

definition lru_SetWithTTL :: "go_time \<Rightarrow> string \<Rightarrow> string \<Rightarrow> duration \<Rightarrow> lru_cache \<Rightarrow> lru_cache option" where
  "lru_SetWithTTL now k v ttl s = do {
     s1 \<leftarrow> SetInternal k v s;
     m \<leftarrow> lru_ttlMap s1;
     Some (s1\<lparr> lru_ttlMap := Some (m(k \<mapsto> now + ttl)) \<rparr>)
   }"

section \<open>Get and Delete\<close>

definition count_total :: "lru_cache \<Rightarrow> lru_cache" where
  "count_total s = s\<lparr> lru_stats := (lru_stats s)\<lparr> TotalRequests := TotalRequests (lru_stats s) + 1 \<rparr> \<rparr>"

definition count_hit :: "lru_cache \<Rightarrow> lru_cache" where
  "count_hit s = s\<lparr> lru_stats := (lru_stats s)\<lparr> Hits := Hits (lru_stats s) + 1 \<rparr> \<rparr>"

definition count_miss :: "lru_cache \<Rightarrow> lru_cache" where
  "count_miss s = s\<lparr> lru_stats := (lru_stats s)\<lparr> Misses := Misses (lru_stats s) + 1 \<rparr> \<rparr>"

text \<open>\<open>now.After(expireTime)\<close> for the key's entry in \<open>ttlMap\<close>, if it has one.\<close>

definition expired :: "go_time \<Rightarrow> string \<Rightarrow> lru_cache \<Rightarrow> bool" where
  "expired now k s = (case ttl_lookup s k of None \<Rightarrow> False | Some expireTime \<Rightarrow> now > expireTime)"

definition lru_Get :: "go_time \<Rightarrow> string \<Rightarrow> lru_cache \<Rightarrow> ((string \<times> bool) \<times> lru_cache) option" where
  "lru_Get now k s0 =
     (let s = count_total s0 in
      case lru_map s k of
        None \<Rightarrow> Some (([], False), count_miss s)
      | Some p \<Rightarrow>
          if expired now k s then do {
            s1 \<leftarrow> removeNode p s;
            let s2 = ttl_delete k (s1\<lparr> lru_map := (lru_map s1)(k := None) \<rparr>);
            Some (([], False), count_miss (s2\<lparr> lru_size := lru_size s2 - 1 \<rparr>))
          } else do {
            s1 \<leftarrow> moveToHead p (count_hit s);
            Some ((n_value (node_at s1 p), True), s1)
          })"

definition lru_Delete :: "string \<Rightarrow> lru_cache \<Rightarrow> (bool \<times> lru_cache) option" where
  "lru_Delete k s =
     (case lru_map s k of
        Some p \<Rightarrow> do {
          let s1 = s\<lparr> lru_memoryUsage := lru_memoryUsage s - calculateMemoryUsage k (n_value (node_at s p)) \<rparr>;
          s2 \<leftarrow> removeNode p s1;
          let s3 = ttl_delete k (s2\<lparr> lru_map := (lru_map s2)(k := None) \<rparr>);
          Some (True, s3\<lparr> lru_size := lru_size s3 - 1 \<rparr>)
        }
      | None \<Rightarrow> Some (False, s))"

section \<open>Observers\<close>

definition lru_Size :: "lru_cache \<Rightarrow> int" where
  "lru_Size s = lru_size s"

definition lru_GetStats :: "lru_cache \<Rightarrow> cache_stats" where
  "lru_GetStats s = lru_stats s"

definition lru_GetMemoryUsage :: "lru_cache \<Rightarrow> int" where
  "lru_GetMemoryUsage s = lru_memoryUsage s"

definition lru_GetCleanupStats :: "lru_cache \<Rightarrow> cleanup_stats" where
  "lru_GetCleanupStats s = lru_cleanupStats s"

text \<open>The quotient is taken exactly; the \<open>float64\<close> rounding is not modelled.\<close>

definition HitRate :: "cache_stats \<Rightarrow> rat" where
  "HitRate st = (if TotalRequests st = 0 then 0 else of_int (Hits st) / of_int (TotalRequests st))"

text \<open>\<open>clk k\<close> is the clock when the loop reaches \<open>k\<close>.\<close>

definition lru_GetAllData :: "(string \<Rightarrow> go_time) \<Rightarrow> lru_cache \<Rightarrow> (string \<rightharpoonup> string)" where
  "lru_GetAllData clk s = (\<lambda>k. case lru_map s k of
       None \<Rightarrow> None
     | Some p \<Rightarrow> if expired (clk k) k s then None else Some (n_value (node_at s p)))"

section \<open>Batch operations\<close>

text \<open>\<open>order\<close> is the order in which \<open>range data\<close> yields its pairs.\<close>

definition lru_SetMulti :: "(string \<times> string) list \<Rightarrow> lru_cache \<Rightarrow> lru_cache option" where
  "lru_SetMulti order s = foldM (\<lambda>(k, v). SetInternal k v) order s"

definition get_multi_step ::
  "string \<Rightarrow> (string \<rightharpoonup> string) \<times> lru_cache \<Rightarrow> ((string \<rightharpoonup> string) \<times> lru_cache) option" where
  "get_multi_step k rs = (case rs of (results, s0) \<Rightarrow>
     (let s = count_total s0 in
      case lru_map s k of
        Some p \<Rightarrow> do {
          s1 \<leftarrow> moveToHead p (count_hit s);
          Some (results(k \<mapsto> n_value (node_at s1 p)), s1)
        }
      | None \<Rightarrow> Some (results, count_miss s)))"

definition lru_GetMulti :: "string list \<Rightarrow> lru_cache \<Rightarrow> ((string \<rightharpoonup> string) \<times> lru_cache) option" where
  "lru_GetMulti ks s = foldM get_multi_step ks (Map.empty, s)"

definition delete_multi_step :: "string \<Rightarrow> int \<times> lru_cache \<Rightarrow> (int \<times> lru_cache) option" where
  "delete_multi_step k cs = (case cs of (deletedCount, s) \<Rightarrow>
     (case lru_map s k of
        Some p \<Rightarrow> do {
          s1 \<leftarrow> removeNode p s;
          let s2 = s1\<lparr> lru_map := (lru_map s1)(k := None) \<rparr>;
          let s3 = s2\<lparr> lru_memoryUsage := lru_memoryUsage s2 - calculateMemoryUsage k (n_value (node_at s2 p)) \<rparr>;
          let s4 = ttl_delete k s3;
          Some (deletedCount + 1, s4\<lparr> lru_size := lru_size s4 - 1 \<rparr>)
        }
      | None \<Rightarrow> Some (deletedCount, s)))"

definition lru_DeleteMulti :: "string list \<Rightarrow> lru_cache \<Rightarrow> (int \<times> lru_cache) option" where
  "lru_DeleteMulti ks s = foldM delete_multi_step ks (0, s)"

section \<open>Expiry cleanup\<close>

definition cleanup_step :: "go_time \<Rightarrow> string \<Rightarrow> int \<times> lru_cache \<Rightarrow> (int \<times> lru_cache) option" where
  "cleanup_step now k cs = (case cs of (cleanedCount, s) \<Rightarrow>
     (if expired now k s then do {
        s1 \<leftarrow> (case lru_map s k of
                Some p \<Rightarrow> do {
                  let t = s\<lparr> lru_memoryUsage := lru_memoryUsage s - calculateMemoryUsage k (n_value (node_at s p)) \<rparr>;
                  t1 \<leftarrow> removeNode p t;
                  Some (t1\<lparr> lru_map := (lru_map t1)(k := None), lru_size := lru_size t1 - 1 \<rparr>)
                }
              | None \<Rightarrow> Some s);
        Some (cleanedCount + 1, ttl_delete k s1)
      } else Some (cleanedCount, s)))"

text \<open>\<open>order\<close> is the order in which \<open>range lru.ttlMap\<close> yields its keys.\<close>

definition cleanupExpiredkeys :: "go_time \<Rightarrow> string list \<Rightarrow> lru_cache \<Rightarrow> lru_cache option" where
  "cleanupExpiredkeys now order s = do {
     (cleanedCount, s1) \<leftarrow> foldM (cleanup_step now) order (0, s);
     let cs = lru_cleanupStats s1;
     Some (s1\<lparr> lru_cleanupStats := \<lparr> CleanedKeys = CleanedKeys cs + cleanedCount,
                                     CleanupRuns = CleanupRuns cs + 1, LastCleanup = Some now \<rparr> \<rparr>)
   }"

text \<open>The \<open>select\<close> loop of the cleanup goroutine over the events it receives.\<close>

datatype cleanup_event = Tick go_time "string list" | StopSignal

fun cleanup_events :: "cleanup_event list \<Rightarrow> lru_cache \<Rightarrow> lru_cache option" where
  "cleanup_events [] s = Some s"
| "cleanup_events (StopSignal # _) s = Some s"
| "cleanup_events (Tick now order # es) s =
     Option.bind (cleanupExpiredkeys now order s) (cleanup_events es)"

text \<open>\<open>time.NewTicker\<close> panics for an interval that is not positive.\<close>

definition startCleanupRoutine :: "cleanup_event list \<Rightarrow> lru_cache \<Rightarrow> lru_cache option" where
  "startCleanupRoutine es s = (if lru_cleanupInterval s \<le> 0 then panic else cleanup_events es s)"

text \<open>Closing a nil or an already closed channel panics.\<close>

definition lru_Close :: "lru_cache \<Rightarrow> lru_cache option" where
  "lru_Close s = (case lru_stopCleanup s of
       OpenChan \<Rightarrow> Some (s\<lparr> lru_stopCleanup := ClosedChan \<rparr>)
     | NilChan \<Rightarrow> panic
     | ClosedChan \<Rightarrow> panic)"

end
