(* ===== verification/Lru_List.thy ===== *)
theory Lru_List
  imports Lru_Cache
begin

text \<open>
  The list abstraction of the pointer structure. \<open>lru_rep s ps\<close> says that the nodes between the
  sentinels of \<open>s\<close> are the locations \<open>ps\<close>, most recently used first, that the links in both
  directions agree, and that the hash map indexes exactly these nodes. The lemmas show how every
  list operation of the source acts on \<open>ps\<close>; \<open>lru_inv\<close> and \<open>entries\<close> are what the rest of the
  development uses.
\<close>

section \<open>Linked segments\<close>

fun linked :: "(loc \<Rightarrow> lru_node) \<Rightarrow> loc list \<Rightarrow> bool" where
  "linked h (a # b # l) \<longleftrightarrow> n_next (h a) = Some b \<and> n_prev (h b) = Some a \<and> linked h (b # l)"
| "linked h _ \<longleftrightarrow> True"

lemma linked_append:
  "linked h (xs @ a # ys) \<longleftrightarrow> linked h (xs @ [a]) \<and> linked h (a # ys)"
proof (induction xs)
  case (Cons x xs)
  then show ?case by (cases xs) auto
qed simp

lemma linked_split2:
  "linked h (xs @ a # b # ys) \<longleftrightarrow>
     linked h (xs @ [a]) \<and> n_next (h a) = Some b \<and> n_prev (h b) = Some a \<and> linked h (b # ys)"
  by (subst linked_append) simp

lemma in_set_tlD: "x \<in> set (tl l) \<Longrightarrow> x \<in> set l"
  by (cases l) auto

text \<open>A heap update is invisible to a segment that does not read the changed field.\<close>

lemma linked_cong:
  assumes "\<And>a. a \<in> set (butlast l) \<Longrightarrow> n_next (h' a) = n_next (h a)"
    and "\<And>a. a \<in> set (tl l) \<Longrightarrow> n_prev (h' a) = n_prev (h a)"
  shows "linked h' l \<longleftrightarrow> linked h l"
  using assms
proof (induction h l rule: linked.induct)
  case (1 h a b l)
  have "linked h' (b # l) \<longleftrightarrow> linked h (b # l)"
    using "1.prems" by (intro "1.IH") (auto split: if_splits dest: in_set_butlastD list.set_sel(2))
  with "1.prems" show ?case by simp
qed simp_all

section \<open>The representation relation\<close>

definition lru_ring :: "lru_cache \<Rightarrow> loc list \<Rightarrow> loc list" where
  "lru_ring s ps = lru_head s # ps @ [lru_tail s]"

definition lru_rep :: "lru_cache \<Rightarrow> loc list \<Rightarrow> bool" where
  "lru_rep s ps \<longleftrightarrow>
     distinct (lru_ring s ps) \<and> linked (lru_heap s) (lru_ring s ps) \<and>
     (\<forall>p \<in> set (lru_ring s ps). p < lru_fresh s) \<and>
     (\<forall>k p. lru_map s k = Some p \<longleftrightarrow> p \<in> set ps \<and> n_key (lru_heap s p) = k) \<and>
     lru_size s = int (length ps)"

definition entry_at :: "lru_cache \<Rightarrow> loc \<Rightarrow> string \<times> string" where
  "entry_at s p = (n_key (lru_heap s p), n_value (lru_heap s p))"

text \<open>The entries of a cache, most recently used first, read by following \<open>next\<close> from \<open>head\<close>.\<close>

fun walk :: "nat \<Rightarrow> (loc \<Rightarrow> lru_node) \<Rightarrow> loc option \<Rightarrow> loc list" where
  "walk 0 h p = []"
| "walk (Suc n) h None = []"
| "walk (Suc n) h (Some p) = p # walk n h (n_next (h p))"

definition lru_locs :: "lru_cache \<Rightarrow> loc list" where
  "lru_locs s = walk (nat (lru_size s)) (lru_heap s) (n_next (lru_heap s (lru_head s)))"

definition entries :: "lru_cache \<Rightarrow> (string \<times> string) list" where
  "entries s = map (entry_at s) (lru_locs s)"

lemma walk_linked:
  "linked h (a # ps @ [t]) \<Longrightarrow> walk (length ps) h (n_next (h a)) = ps"
proof (induction ps arbitrary: a)
  case (Cons p ps)
  then show ?case by (cases ps) auto
qed simp

lemma rep_locs: "lru_rep s ps \<Longrightarrow> lru_locs s = ps"
  using walk_linked [of "lru_heap s" "lru_head s" ps "lru_tail s"]
  by (simp add: lru_rep_def lru_ring_def lru_locs_def)

lemma rep_entries: "lru_rep s ps \<Longrightarrow> entries s = map (entry_at s) ps"
  by (simp add: entries_def rep_locs)

lemma rep_map_key:
  "lru_rep s ps \<Longrightarrow> lru_map s k = Some p \<Longrightarrow> p \<in> set ps \<and> n_key (lru_heap s p) = k"
  by (simp add: lru_rep_def)

lemma rep_key_map:
  "lru_rep s ps \<Longrightarrow> p \<in> set ps \<Longrightarrow> lru_map s (n_key (lru_heap s p)) = Some p"
  by (simp add: lru_rep_def)

lemma rep_distinct_keys:
  assumes "lru_rep s ps"
  shows "distinct (map fst (map (entry_at s) ps))"
proof -
  have "inj_on (\<lambda>p. n_key (lru_heap s p)) (set ps)"
    using assms by (intro inj_onI) (metis lru_rep_def option.inject)
  then show ?thesis
    using assms by (simp add: lru_rep_def lru_ring_def distinct_map entry_at_def comp_def)
qed

lemma rep_lookup:
  assumes "lru_rep s ps"
  shows "map_of (map (entry_at s) ps) k = map_option (\<lambda>p. n_value (lru_heap s p)) (lru_map s k)"
proof (cases "lru_map s k")
  case None
  then have "k \<notin> fst ` set (map (entry_at s) ps)"
    by (auto simp: entry_at_def dest!: rep_key_map [OF assms])
  with None show ?thesis by (simp add: map_of_eq_None_iff)
next
  case (Some p)
  then have "(k, n_value (lru_heap s p)) \<in> set (map (entry_at s) ps)"
    using rep_map_key [OF assms Some] by (auto simp: entry_at_def)
  with Some rep_distinct_keys [OF assms] show ?thesis by simp
qed

section \<open>The list operations of the source\<close>

text \<open>
  A state that only differs in the fields the representation does not read represents the same
  list.
\<close>

lemma rep_cong:
  assumes "lru_rep s ps"
    and "lru_head t = lru_head s" "lru_tail t = lru_tail s" "lru_heap t = lru_heap s"
    and "lru_fresh t = lru_fresh s" "lru_map t = lru_map s" "lru_size t = lru_size s"
  shows "lru_rep t ps"
  using assms by (simp add: lru_rep_def lru_ring_def)

text \<open>
  Unlinking: the location \<open>p\<close> leaves the ring; keys and values of all nodes stay.
\<close>

definition same_payload :: "lru_cache \<Rightarrow> lru_cache \<Rightarrow> bool" where
  "same_payload s t \<longleftrightarrow>
     (\<forall>q. n_key (lru_heap t q) = n_key (lru_heap s q) \<and> n_value (lru_heap t q) = n_value (lru_heap s q))
     \<and> lru_cache.truncate (t\<lparr> lru_heap := lru_heap s \<rparr>) = lru_cache.truncate s"

lemma same_payload_trans: "same_payload s t \<Longrightarrow> same_payload t u \<Longrightarrow> same_payload s u"
  by (auto simp: same_payload_def lru_cache.defs)

lemma same_payload_heap: 
  assumes "\<And>q. n_key (h q) = n_key (lru_heap s q)" "\<And>q. n_value (h q) = n_value (lru_heap s q)"
  shows "same_payload s (s\<lparr> lru_heap := h \<rparr>)"
  using assms by (simp add: same_payload_def lru_cache.defs)

lemma same_payload_sel:
  assumes "same_payload s t"
  shows "n_key (lru_heap t q) = n_key (lru_heap s q)" "n_value (lru_heap t q) = n_value (lru_heap s q)"
    "lru_capacity t = lru_capacity s" "lru_size t = lru_size s" "lru_map t = lru_map s"
    "lru_head t = lru_head s" "lru_tail t = lru_tail s" "lru_ttlMap t = lru_ttlMap s"
    "lru_cleanupInterval t = lru_cleanupInterval s" "lru_stopCleanup t = lru_stopCleanup s"
    "lru_cleanupStats t = lru_cleanupStats s" "lru_stats t = lru_stats s"
    "lru_memoryUsage t = lru_memoryUsage s" "lru_memoryLimit t = lru_memoryLimit s"
    "lru_fresh t = lru_fresh s"
  using assms by (auto simp: same_payload_def lru_cache.defs)

definition ring_ok :: "lru_cache \<Rightarrow> loc list \<Rightarrow> bool" where
  "ring_ok s l \<longleftrightarrow> distinct l \<and> linked (lru_heap s) l"

lemma removeNode_ring:
  assumes ok: "ring_ok s (xs @ a # p # b # ys)"
  shows "\<exists>t. removeNode p s = Some t \<and> same_payload s t \<and> ring_ok t (xs @ a # b # ys)"
proof -
  let ?h = "lru_heap s"
  have links: "linked ?h (xs @ [a])" "n_next (?h a) = Some p" "n_prev (?h p) = Some a"
    "n_next (?h p) = Some b" "n_prev (?h b) = Some p" "linked ?h (b # ys)"
    using ok by (auto simp: ring_ok_def linked_split2)
  have dist: "distinct (xs @ a # p # b # ys)" using ok by (simp add: ring_ok_def)
  define h1 where "h1 = ?h(a := (?h a)\<lparr> n_next := Some b \<rparr>)"
  define h2 where "h2 = h1(b := (h1 b)\<lparr> n_prev := Some a \<rparr>)"
  let ?t = "s\<lparr> lru_heap := h2 \<rparr>"
  have run: "removeNode p s = Some ?t"
    using links dist by (simp add: removeNode_def upd_node_def h1_def h2_def Let_def)
  have "same_payload s ?t"
    by (rule same_payload_heap) (auto simp: h1_def h2_def)
  moreover have "linked h2 (xs @ [a])"
    using links(1) dist by (subst linked_cong [where h = ?h]) (auto simp: h1_def h2_def dest!: in_set_tlD)
  moreover have "linked h2 (b # ys)"
    using links(6) dist
    by (subst linked_cong [where h = ?h]) (auto simp: h1_def h2_def split: if_splits dest: in_set_butlastD)
  moreover have "n_next (h2 a) = Some b" "n_prev (h2 b) = Some a"
    using dist by (auto simp: h1_def h2_def)
  ultimately show ?thesis
    using run dist by (auto simp: ring_ok_def linked_split2)
qed

lemma addToHead_ring:
  assumes ok: "ring_ok s (lru_head s # b # ys)" and p: "p \<notin> set (lru_head s # b # ys)"
  shows "\<exists>t. addToHead p s = Some t \<and> same_payload s t \<and> ring_ok t (lru_head s # p # b # ys)"
proof -
  let ?h = "lru_heap s" and ?a = "lru_head s"
  have links: "n_next (?h ?a) = Some b" "n_prev (?h b) = Some ?a" "linked ?h (b # ys)"
    using ok by (auto simp: ring_ok_def)
  have dist: "distinct (?a # p # b # ys)" using ok p by (auto simp: ring_ok_def)
  define h1 where "h1 = ?h(p := (?h p)\<lparr> n_prev := Some ?a, n_next := Some b \<rparr>)"
  define h2 where "h2 = h1(b := (h1 b)\<lparr> n_prev := Some p \<rparr>)"
  define h3 where "h3 = h2(?a := (h2 ?a)\<lparr> n_next := Some p \<rparr>)"
  let ?t = "s\<lparr> lru_heap := h3 \<rparr>"
  have run: "addToHead p s = Some ?t"
    using links dist by (simp add: addToHead_def upd_node_def h1_def h2_def h3_def Let_def)
  have "same_payload s ?t"
    by (rule same_payload_heap) (auto simp: h1_def h2_def h3_def)
  moreover have "linked h3 (b # ys)"
    using links(3) dist
    by (subst linked_cong [where h = ?h]) (auto simp: h1_def h2_def h3_def split: if_splits dest: in_set_butlastD)
  moreover have "n_next (h3 ?a) = Some p" "n_prev (h3 p) = Some ?a" "n_next (h3 p) = Some b"
    "n_prev (h3 b) = Some p"
    using dist by (auto simp: h1_def h2_def h3_def)
  ultimately show ?thesis
    using run dist by (auto simp: ring_ok_def)
qed

section \<open>Operations on represented caches\<close>

lemma rep_ring_ok: "lru_rep s ps \<Longrightarrow> ring_ok s (lru_ring s ps)"
  by (simp add: lru_rep_def ring_ok_def)

text \<open>What is left of the representation once the ring is known.\<close>

lemma repI:
  assumes "ring_ok t (lru_ring t ps)" and "\<forall>p \<in> set (lru_ring t ps). p < lru_fresh t"
    and "\<And>k p. lru_map t k = Some p \<longleftrightarrow> p \<in> set ps \<and> n_key (lru_heap t p) = k"
    and "lru_size t = int (length ps)"
  shows "lru_rep t ps"
  using assms by (simp add: lru_rep_def ring_ok_def)

lemma ring_around:
  obtains xs a b ys where "lru_ring s (as @ p # bs) = xs @ a # p # b # ys"
    and "lru_ring s (as @ bs) = xs @ a # b # ys"
proof -
  have "\<exists>xs a. lru_head s # as = xs @ [a]" by (metis list.distinct(1) rev_exhaust)
  moreover have "\<exists>b ys. bs @ [lru_tail s] = b # ys" by (cases bs) auto
  ultimately obtain xs a b ys where e: "lru_head s # as = xs @ [a]" "bs @ [lru_tail s] = b # ys"
    by blast
  have "lru_ring s (as @ p # bs) = (lru_head s # as) @ p # (bs @ [lru_tail s])"
    and "lru_ring s (as @ bs) = (lru_head s # as) @ (bs @ [lru_tail s])"
    by (simp_all add: lru_ring_def)
  then show thesis using that e by simp
qed

lemma removeNode_rep:
  assumes "lru_rep s (as @ p # bs)"
  shows "\<exists>t. removeNode p s = Some t \<and> same_payload s t \<and> ring_ok t (lru_ring t (as @ bs))"
proof -
  obtain xs a b ys where r: "lru_ring s (as @ p # bs) = xs @ a # p # b # ys"
    "lru_ring s (as @ bs) = xs @ a # b # ys"
    by (rule ring_around)
  have "ring_ok s (xs @ a # p # b # ys)"
    using rep_ring_ok [OF assms] r by simp
  from removeNode_ring [OF this] obtain t where t: "removeNode p s = Some t" "same_payload s t"
    "ring_ok t (xs @ a # b # ys)" by blast
  moreover have "lru_ring t (as @ bs) = lru_ring s (as @ bs)"
    using same_payload_sel [OF t(2)] by (simp add: lru_ring_def)
  ultimately show ?thesis using r by auto
qed

text \<open>Unlinking a node, unindexing its key and counting it off: the node leaves the list.\<close>

lemma rep_drop:
  assumes rep: "lru_rep s (as @ p # bs)"
    and t: "same_payload s t" "ring_ok t (lru_ring t (as @ bs))"
    and u: "lru_heap u = lru_heap t" "lru_head u = lru_head t" "lru_tail u = lru_tail t"
      "lru_fresh u = lru_fresh t" "lru_map u = (lru_map t)(n_key (lru_heap s p) := None)"
      "lru_size u = lru_size t - 1"
  shows "lru_rep u (as @ bs)"
proof (rule repI)
  note sel = same_payload_sel [OF t(1)]
  show "ring_ok u (lru_ring u (as @ bs))"
    using t u by (simp add: ring_ok_def lru_ring_def)
  show "\<forall>q \<in> set (lru_ring u (as @ bs)). q < lru_fresh u"
    using rep u sel by (auto simp: lru_rep_def lru_ring_def)
  show "lru_size u = int (length (as @ bs))"
    using rep u sel by (simp add: lru_rep_def)
  have dist: "distinct (as @ p # bs)" using rep by (simp add: lru_rep_def lru_ring_def)
  have same: "q = p" if "q \<in> set (as @ p # bs)" "n_key (lru_heap s q) = n_key (lru_heap s p)" for q
    using rep_key_map [OF rep, of p] rep_key_map [OF rep that(1)] that(2) by simp
  fix k q
  have "lru_map u k = Some q \<longleftrightarrow> k \<noteq> n_key (lru_heap s p) \<and> lru_map s k = Some q"
    using u sel by simp
  also have "\<dots> \<longleftrightarrow> k \<noteq> n_key (lru_heap s p) \<and> q \<in> set (as @ p # bs) \<and> n_key (lru_heap s q) = k"
    using rep by (auto simp: lru_rep_def)
  also have "\<dots> \<longleftrightarrow> q \<in> set (as @ bs) \<and> n_key (lru_heap s q) = k"
    using dist same by auto
  finally show "lru_map u k = Some q \<longleftrightarrow> q \<in> set (as @ bs) \<and> n_key (lru_heap u q) = k"
    using u sel by simp
qed

lemma moveToHead_rep:
  assumes rep: "lru_rep s (as @ p # bs)"
  shows "\<exists>t. moveToHead p s = Some t \<and> same_payload s t \<and> lru_rep t (p # as @ bs)"
proof -
  obtain t where t: "removeNode p s = Some t" "same_payload s t" "ring_ok t (lru_ring t (as @ bs))"
    using removeNode_rep [OF rep] by blast
  note sel = same_payload_sel [OF t(2)]
  obtain b ys where b: "as @ bs @ [lru_tail t] = b # ys" by (cases "as @ bs @ [lru_tail t]") auto
  have ring: "lru_ring t (as @ bs) = lru_head t # b # ys"
    using b by (simp add: lru_ring_def)
  have "p \<notin> set (lru_ring t (as @ bs))"
    using rep sel by (auto simp: lru_rep_def lru_ring_def)
  then obtain u where u: "addToHead p t = Some u" "same_payload t u"
    "ring_ok u (lru_head t # p # b # ys)"
    using addToHead_ring [of t b ys p] t(3) ring by auto
  note sel' = same_payload_sel [OF u(2)]
  have "lru_rep u (p # as @ bs)"
  proof (rule repI)
    show "ring_ok u (lru_ring u (p # as @ bs))"
      using u(3) b sel' by (simp add: lru_ring_def)
  qed (use rep sel sel' in \<open>auto simp: lru_rep_def lru_ring_def\<close>)
  then show ?thesis
    using t u by (auto simp: moveToHead_def intro: same_payload_trans)
qed

lemma removeTail_rep:
  assumes rep: "lru_rep s (as @ [p])"
  shows "\<exists>t. removeTail s = Some (p, t) \<and> same_payload s t \<and> ring_ok t (lru_ring t as)"
proof -
  have "linked (lru_heap s) ((lru_head s # as) @ p # [lru_tail s])"
    using rep by (simp add: lru_rep_def lru_ring_def)
  then have "n_prev (lru_heap s (lru_tail s)) = Some p"
    by (simp only: linked_split2)
  moreover obtain t where "removeNode p s = Some t" "same_payload s t" "ring_ok t (lru_ring t as)"
    using removeNode_rep [of s as p "[]"] rep by auto
  ultimately show ?thesis by (auto simp: removeTail_def)
qed

lemma insert_rep:
  assumes rep: "lru_rep s ps" and k: "lru_map s k = None"
    and nw: "new_node k v s = (p, s1)"
  shows "\<exists>t. addToHead p s1 = Some t \<and> same_payload s1 t \<and>
    lru_rep (t\<lparr> lru_map := (lru_map t)(k \<mapsto> p), lru_memoryUsage := m, lru_size := lru_size t + 1 \<rparr>) (p # ps)"
proof -
  have p: "p = lru_fresh s" and s1: "s1 = upd_node p (\<lambda>_. blank_node\<lparr> n_key := k, n_value := v \<rparr>)
      (s\<lparr> lru_fresh := Suc (lru_fresh s) \<rparr>)"
    using nw by (auto simp: new_node_def)
  have fresh: "p \<notin> set (lru_ring s ps)"
    using rep p by (auto simp: lru_rep_def)
  obtain b ys where b: "ps @ [lru_tail s] = b # ys" by (cases "ps @ [lru_tail s]") auto
  have ring: "lru_ring s ps = lru_head s # b # ys"
    using b by (simp add: lru_ring_def)
  have "linked (lru_heap s1) (lru_ring s ps) = linked (lru_heap s) (lru_ring s ps)"
    using fresh s1 by (intro linked_cong) (auto dest: in_set_butlastD in_set_tlD)
  then have "ring_ok s1 (lru_head s1 # b # ys)"
    using rep_ring_ok [OF rep] ring s1 by (simp add: ring_ok_def)
  then obtain t where t: "addToHead p s1 = Some t" "same_payload s1 t"
    "ring_ok t (lru_head s1 # p # b # ys)"
    using addToHead_ring [of s1 b ys p] fresh ring s1 by auto
  note sel = same_payload_sel [OF t(2)]
  let ?u = "t\<lparr> lru_map := (lru_map t)(k \<mapsto> p), lru_memoryUsage := m, lru_size := lru_size t + 1 \<rparr>"
  have "lru_rep ?u (p # ps)"
  proof (rule repI)
    show "ring_ok ?u (lru_ring ?u (p # ps))"
      using t(3) b sel s1 by (simp add: lru_ring_def ring_ok_def)
    show "\<forall>q \<in> set (lru_ring ?u (p # ps)). q < lru_fresh ?u"
      using rep p sel s1 by (auto simp: lru_rep_def lru_ring_def less_SucI)
    show "lru_size ?u = int (length (p # ps))"
      using rep sel s1 by (simp add: lru_rep_def)
    fix k' q
    have "k' \<noteq> k" if "q \<in> set ps" "n_key (lru_heap s q) = k'"
      using rep_key_map [OF rep that(1)] that(2) k by auto
    then show "lru_map ?u k' = Some q \<longleftrightarrow> q \<in> set (p # ps) \<and> n_key (lru_heap ?u q) = k'"
      using rep fresh sel s1 by (auto simp: lru_rep_def lru_ring_def blank_node_def)
  qed
  then show ?thesis using t by auto
qed

end
