(* ===== verification/Lru_Spec.thy ===== *)
theory Lru_Spec
  imports Lru_List
begin

text \<open>
  What an LRU cache is, without pointers: a list of key/value pairs, most recently used first,
  with the expiry map, the counters and the memory account. Each operation of
  \<open>core/lrucache.go\<close> has its counterpart here, and each refinement lemma says that the pointer
  program started in a good state returns (no panic), ends in a good state and has on the abstract
  view exactly the effect of its counterpart.
\<close>

section \<open>The abstract cache\<close>

record lru_view =
  v_entries :: "(string \<times> string) list"
  v_capacity :: int
  v_ttl :: "(string \<rightharpoonup> go_time) option"
  v_stats :: cache_stats
  v_memory :: int
  v_limit :: int

definition view :: "lru_cache \<Rightarrow> lru_view" where
  "view s = \<lparr> v_entries = entries s, v_capacity = lru_capacity s, v_ttl = lru_ttlMap s,
     v_stats = lru_stats s, v_memory = lru_memoryUsage s, v_limit = lru_memoryLimit s \<rparr>"

definition del_key :: "string \<Rightarrow> (string \<times> string) list \<Rightarrow> (string \<times> string) list" where
  "del_key k es = filter (\<lambda>e. fst e \<noteq> k) es"

definition mem_sum :: "(string \<times> string) list \<Rightarrow> int" where
  "mem_sum es = (\<Sum>(k, v)\<leftarrow>es. calculateMemoryUsage k v)"

definition spec_expired :: "go_time \<Rightarrow> string \<Rightarrow> lru_view \<Rightarrow> bool" where
  "spec_expired now k a = (case v_ttl a of None \<Rightarrow> False | Some m \<Rightarrow>
     (case m k of None \<Rightarrow> False | Some e \<Rightarrow> now > e))"

definition spec_full :: "int \<Rightarrow> lru_view \<Rightarrow> bool" where
  "spec_full m a \<longleftrightarrow> (v_limit a > 0 \<and> v_memory a + m > v_limit a) \<or> int (length (v_entries a)) \<ge> v_capacity a"

function spec_evict :: "int \<Rightarrow> lru_view \<Rightarrow> lru_view" where
  "spec_evict m a =
     (if v_entries a = [] \<or> \<not> spec_full m a then a
      else spec_evict m (a\<lparr> v_entries := butlast (v_entries a),
             v_memory := v_memory a - (case last (v_entries a) of (k, v) \<Rightarrow> calculateMemoryUsage k v) \<rparr>))"
  by pat_completeness auto
termination by (relation "measure (\<lambda>(m, a). length (v_entries a))") auto

declare spec_evict.simps [simp del]

definition spec_set :: "string \<Rightarrow> string \<Rightarrow> lru_view \<Rightarrow> lru_view" where
  "spec_set k v a =
     (let m = calculateMemoryUsage k v in
      if v_limit a > 0 \<and> m > v_limit a then a
      else case map_of (v_entries a) k of
        Some old \<Rightarrow> a\<lparr> v_entries := (k, v) # del_key k (v_entries a),
                      v_memory := v_memory a - calculateMemoryUsage k old + m \<rparr>
      | None \<Rightarrow> (let b = spec_evict m a in
                b\<lparr> v_entries := (k, v) # v_entries b, v_memory := v_memory b + m \<rparr>))"

definition spec_ttl_del :: "string \<Rightarrow> lru_view \<Rightarrow> lru_view" where
  "spec_ttl_del k a = a\<lparr> v_ttl := map_option (\<lambda>m. m(k := None)) (v_ttl a) \<rparr>"

definition bump :: "(cache_stats \<Rightarrow> cache_stats) \<Rightarrow> lru_view \<Rightarrow> lru_view" where
  "bump f a = a\<lparr> v_stats := f (v_stats a) \<rparr>"

definition hit :: "cache_stats \<Rightarrow> cache_stats" where
  "hit st = st\<lparr> TotalRequests := TotalRequests st + 1, Hits := Hits st + 1 \<rparr>"

definition miss :: "cache_stats \<Rightarrow> cache_stats" where
  "miss st = st\<lparr> TotalRequests := TotalRequests st + 1, Misses := Misses st + 1 \<rparr>"

definition spec_touch :: "string \<Rightarrow> string \<Rightarrow> lru_view \<Rightarrow> lru_view" where
  "spec_touch k v a = a\<lparr> v_entries := (k, v) # del_key k (v_entries a) \<rparr>"

definition spec_drop :: "string \<Rightarrow> lru_view \<Rightarrow> lru_view" where
  "spec_drop k a = spec_ttl_del k (a\<lparr> v_entries := del_key k (v_entries a) \<rparr>)"

text \<open>An expired entry is dropped without giving its bytes back to the memory account.\<close>

definition spec_get :: "go_time \<Rightarrow> string \<Rightarrow> lru_view \<Rightarrow> (string \<times> bool) \<times> lru_view" where
  "spec_get now k a =
     (case map_of (v_entries a) k of
        None \<Rightarrow> (([], False), bump miss a)
      | Some v \<Rightarrow> if spec_expired now k a then (([], False), bump miss (spec_drop k a))
                  else ((v, True), bump hit (spec_touch k v a)))"

definition spec_delete :: "string \<Rightarrow> lru_view \<Rightarrow> bool \<times> lru_view" where
  "spec_delete k a =
     (case map_of (v_entries a) k of
        None \<Rightarrow> (False, a)
      | Some v \<Rightarrow> (True, (spec_drop k a)\<lparr> v_memory := v_memory a - calculateMemoryUsage k v \<rparr>))"

section \<open>The invariant\<close>

definition view_ok :: "lru_view \<Rightarrow> bool" where
  "view_ok a \<longleftrightarrow>
     distinct (map fst (v_entries a)) \<and> 0 < v_capacity a \<and>
     int (length (v_entries a)) \<le> v_capacity a \<and>
     Hits (v_stats a) + Misses (v_stats a) = TotalRequests (v_stats a) \<and>
     0 \<le> Hits (v_stats a) \<and> 0 \<le> Misses (v_stats a) \<and>
     mem_sum (v_entries a) \<le> v_memory a \<and>
     (v_ttl a = None \<longrightarrow> v_memory a = mem_sum (v_entries a))"

definition lru_inv :: "lru_cache \<Rightarrow> bool" where
  "lru_inv s \<longleftrightarrow> (\<exists>ps. lru_rep s ps) \<and> view_ok (view s)"

section \<open>Lists of entries\<close>

lemma mem_sum_simps [simp]:
  "mem_sum [] = 0"
  "mem_sum ((k, v) # es) = calculateMemoryUsage k v + mem_sum es"
  "mem_sum (es @ fs) = mem_sum es + mem_sum fs"
  by (simp_all add: mem_sum_def)

lemma calculateMemoryUsage_pos: "0 < calculateMemoryUsage k v"
  by (simp add: calculateMemoryUsage_def)

lemma mem_sum_nonneg [simp]: "0 \<le> mem_sum es"
  proof (induction es)
  case (Cons e es)
  then show ?case
    by (cases e) (use calculateMemoryUsage_pos [of "fst e" "snd e"] in simp)
qed simp

lemma del_key_simps [simp]:
  "del_key k [] = []"
  "del_key k ((k', v) # es) = (if k = k' then del_key k es else (k', v) # del_key k es)"
  "del_key k (es @ fs) = del_key k es @ del_key k fs"
  "set (del_key k es) = {e \<in> set es. fst e \<noteq> k}"
  by (auto simp: del_key_def)

lemma del_key_absent [simp]: "k \<notin> fst ` set es \<Longrightarrow> del_key k es = es"
  by (auto simp: del_key_def intro!: filter_True)

lemma map_of_del_key [simp]: "map_of (del_key k es) = (map_of es)(k := None)"
  by (induction es) (auto simp: fun_eq_iff)

lemma distinct_del_key [simp]: "distinct (map fst es) \<Longrightarrow> distinct (map fst (del_key k es))"
  by (simp add: del_key_def distinct_map_filter)

lemma length_del_key_le: "length (del_key k es) \<le> length es"
  by (simp add: del_key_def)

lemma del_key_mid:
  "distinct (map fst (as @ (k, v) # bs)) \<Longrightarrow> del_key k (as @ (k, v) # bs) = as @ bs"
  by (auto simp: image_iff)

lemma split_entry:
  assumes "distinct (map fst es)" "map_of es k = Some v"
  obtains as bs where "es = as @ (k, v) # bs" "del_key k es = as @ bs"
proof -
  obtain as bs where "es = as @ (k, v) # bs"
    using map_of_SomeD [OF assms(2)] by (auto simp: in_set_conv_decomp)
  moreover from this assms(1) have "del_key k es = as @ bs" by (simp add: del_key_mid del: del_key_simps)
  ultimately show thesis by (rule that)
qed

lemma length_del_key:
  "distinct (map fst es) \<Longrightarrow> map_of es k = Some v \<Longrightarrow> length (del_key k es) = length es - 1"
  by (elim split_entry) auto

lemma mem_sum_del_key:
  "distinct (map fst es) \<Longrightarrow> map_of es k = Some v \<Longrightarrow>
   mem_sum (del_key k es) = mem_sum es - calculateMemoryUsage k v"
  by (elim split_entry) auto

section \<open>The abstract operations keep the invariant\<close>

lemma spec_evict_ok:
  "view_ok a \<Longrightarrow> view_ok (spec_evict m a)"
proof (induction m a rule: spec_evict.induct)
  case (1 m a)
  show ?case
  proof (cases "v_entries a = [] \<or> \<not> spec_full m a")
    case False
    then obtain es k v where es: "v_entries a = es @ [(k, v)]"
      by (metis rev_exhaust surj_pair)
    have "view_ok (a\<lparr> v_entries := butlast (v_entries a),
        v_memory := v_memory a - (case last (v_entries a) of (k, v) \<Rightarrow> calculateMemoryUsage k v) \<rparr>)"
      using "1.prems" es calculateMemoryUsage_pos [of k v] by (auto simp: view_ok_def)
    with "1.IH" [OF False] False show ?thesis by (subst spec_evict.simps) simp
  qed (use "1.prems" in \<open>subst spec_evict.simps, simp\<close>)
qed

lemma spec_evict_frame:
  "v_capacity (spec_evict m a) = v_capacity a \<and> v_ttl (spec_evict m a) = v_ttl a \<and>
   v_stats (spec_evict m a) = v_stats a \<and> v_limit (spec_evict m a) = v_limit a"
  by (induction m a rule: spec_evict.induct) (subst (1 2 3 4) spec_evict.simps, simp)

text \<open>Eviction keeps a prefix: it only removes least recently used entries.\<close>

lemma spec_evict_prefix: "\<exists>n. v_entries (spec_evict m a) = take n (v_entries a)"
proof (induction m a rule: spec_evict.induct)
  case (1 m a)
  show ?case
  proof (cases "v_entries a = [] \<or> \<not> spec_full m a")
    case True
    then show ?thesis
      by (subst spec_evict.simps) (auto intro: exI [where x = "length (v_entries a)"])
  next
    case False
    with "1.IH" obtain n where "v_entries (spec_evict m a) = take n (butlast (v_entries a))"
      by (auto simp: spec_evict.simps [of m a])
    then show ?thesis
      by (auto simp: butlast_conv_take intro: exI [where x = "min n (length (v_entries a) - 1)"])
  qed
qed

lemma spec_evict_room: "v_entries (spec_evict m a) = [] \<or> \<not> spec_full m (spec_evict m a)"
  by (induction m a rule: spec_evict.induct) (subst (1 2) spec_evict.simps, simp)

lemma spec_evict_id: "\<not> spec_full m a \<Longrightarrow> spec_evict m a = a"
  by (subst spec_evict.simps) simp

lemmas view_ok_simps = view_ok_def spec_ttl_del_def spec_drop_def spec_touch_def bump_def
  hit_def miss_def

lemma mem_sum_mono: "mem_sum (take n es) \<le> mem_sum es"
  using mem_sum_simps(3) [of "take n es" "drop n es"] mem_sum_nonneg [of "drop n es"] by simp

lemma spec_set_ok:
  assumes ok: "view_ok a"
  shows "view_ok (spec_set k v a)"
proof -
  let ?m = "calculateMemoryUsage k v" and ?es = "v_entries a"
  consider (reject) "v_limit a > 0 \<and> ?m > v_limit a"
    | (update) old where "\<not> (v_limit a > 0 \<and> ?m > v_limit a)" "map_of ?es k = Some old"
    | (insert) "\<not> (v_limit a > 0 \<and> ?m > v_limit a)" "map_of ?es k = None"
    by blast
  then show ?thesis
  proof cases
    case reject
    then show ?thesis using ok by (simp add: spec_set_def)
  next
    case update
    have d: "distinct (map fst ?es)" using ok by (simp add: view_ok_def)
    note m = mem_sum_del_key [OF d update(2)] and l = length_del_key [OF d update(2)]
    have "?es \<noteq> []" using update(2) by auto
    then have l: "length (del_key k ?es) + 1 = length ?es" using l by (cases ?es) auto
    show ?thesis
      using ok update m l by (simp add: spec_set_def view_ok_def Let_def) auto
  next
    case insert
    define b where "b = spec_evict ?m a"
    have b: "view_ok b" using ok by (simp add: b_def spec_evict_ok)
    obtain n where n: "v_entries b = take n ?es" using spec_evict_prefix b_def by blast
    have "k \<notin> fst ` set (v_entries b)"
      using insert(2) n by (auto simp: map_of_eq_None_iff dest!: in_set_takeD)
    moreover have "int (length (v_entries b)) < v_capacity b"
      using spec_evict_room [of ?m a] b by (auto simp: b_def [symmetric] view_ok_def spec_full_def)
    ultimately have "view_ok (b\<lparr> v_entries := (k, v) # v_entries b, v_memory := v_memory b + ?m \<rparr>)"
      using b by (simp add: view_ok_def)
    moreover have "spec_set k v a = b\<lparr> v_entries := (k, v) # v_entries b, v_memory := v_memory b + ?m \<rparr>"
      using insert by (auto simp: spec_set_def Let_def b_def)
    ultimately show ?thesis by simp
  qed
qed

lemma spec_drop_entries [simp]: "v_entries (spec_drop k a) = del_key k (v_entries a)"
  by (simp add: spec_drop_def spec_ttl_del_def)

lemma spec_get_ok:
  assumes ok: "view_ok a"
  shows "view_ok (snd (spec_get now k a))"
proof (cases "map_of (v_entries a) k")
  case None
  then show ?thesis using ok by (simp add: spec_get_def view_ok_simps)
next
  case (Some v)
  have d: "distinct (map fst (v_entries a))" using ok by (simp add: view_ok_def)
  note m = mem_sum_del_key [OF d Some] and l = length_del_key [OF d Some]
  have "v_entries a \<noteq> []" using Some by auto
  then have l: "length (del_key k (v_entries a)) + 1 = length (v_entries a)"
    using l by (cases "v_entries a") auto
  show ?thesis
  proof (cases "spec_expired now k a")
    case True
    then have "v_ttl a \<noteq> None" by (auto simp: spec_expired_def split: option.splits)
    with True ok Some m l calculateMemoryUsage_pos [of k v] show ?thesis
      by (simp add: spec_get_def view_ok_simps)
  next
    case False
    with ok Some m l show ?thesis by (simp add: spec_get_def view_ok_simps) auto
  qed
qed

lemma spec_delete_ok:
  assumes ok: "view_ok a"
  shows "view_ok (snd (spec_delete k a))"
proof (cases "map_of (v_entries a) k")
  case None
  then show ?thesis using ok by (simp add: spec_delete_def)
next
  case (Some v)
  have d: "distinct (map fst (v_entries a))" using ok by (simp add: view_ok_def)
  show ?thesis
    using ok Some mem_sum_del_key [OF d Some] length_del_key_le [of k "v_entries a"]
    by (simp add: spec_delete_def view_ok_simps)
qed

end
