(* ===== verification/Lru_Refine.thy ===== *)
theory Lru_Refine
  imports Lru_Spec
begin

text \<open>
  The pointer programs of \<open>core/lrucache.go\<close> refine their abstract counterparts: from a state that
  satisfies \<open>lru_inv\<close> every operation returns without a panic, keeps \<open>lru_inv\<close> and commutes with
  \<open>view\<close>.
\<close>

section \<open>The view of represented states\<close>

lemma lru_invE:
  assumes "lru_inv s"
  obtains ps where "lru_rep s ps" "entries s = map (entry_at s) ps" "view_ok (view s)"
  using assms rep_entries by (auto simp: lru_inv_def)

lemma lru_invI: "lru_rep s ps \<Longrightarrow> view_ok (view s) \<Longrightarrow> lru_inv s"
  by (auto simp: lru_inv_def)

lemma inv_distinct: "lru_inv s \<Longrightarrow> distinct (map fst (entries s))"
  by (auto simp: lru_inv_def view_ok_def view_def)

lemma inv_lookup:
  assumes "lru_inv s"
  shows "map_of (entries s) k = map_option (\<lambda>p. n_value (lru_heap s p)) (lru_map s k)"
  using assms by (elim lru_invE) (simp add: rep_lookup)

lemma inv_size: "lru_inv s \<Longrightarrow> lru_size s = int (length (entries s))"
  by (elim lru_invE) (auto simp: lru_rep_def)

text \<open>The node of an indexed key, and the list around it.\<close>

lemma inv_node:
  assumes inv: "lru_inv s" and k: "lru_map s k = Some p"
  obtains as bs where "lru_rep s (as @ p # bs)" "n_key (lru_heap s p) = k"
    "map_of (entries s) k = Some (n_value (lru_heap s p))"
    "del_key k (entries s) = map (entry_at s) (as @ bs)"
    "entries s = map (entry_at s) (as @ p # bs)"
proof -
  obtain ps where rep: "lru_rep s ps" using inv by (rule lru_invE)
  have "p \<in> set ps" and key: "n_key (lru_heap s p) = k" using rep_map_key [OF rep k] by auto
  then obtain as bs where ps: "ps = as @ p # bs" by (auto simp: in_set_conv_decomp)
  have es: "entries s = map (entry_at s) as @ (k, n_value (lru_heap s p)) # map (entry_at s) bs"
    using rep_entries [OF rep] ps key by (simp add: entry_at_def)
  have "del_key k (entries s) = map (entry_at s) (as @ bs)"
    using inv_distinct [OF inv] by (simp only: es del_key_mid map_append)
  moreover have "map_of (entries s) k = Some (n_value (lru_heap s p))"
    using inv_lookup [OF inv, of k] k by simp
  ultimately show thesis
    using rep ps key es by (intro that) (simp_all add: entry_at_def)
qed

lemma view_eqI:
  assumes "entries t = v_entries a" "lru_capacity t = v_capacity a" "lru_ttlMap t = v_ttl a"
    "lru_stats t = v_stats a" "lru_memoryUsage t = v_memory a" "lru_memoryLimit t = v_limit a"
  shows "view t = a"
  using assms by (simp add: view_def)

lemma view_sel [simp]:
  "v_entries (view s) = entries s" "v_capacity (view s) = lru_capacity s"
  "v_ttl (view s) = lru_ttlMap s" "v_stats (view s) = lru_stats s"
  "v_memory (view s) = lru_memoryUsage s" "v_limit (view s) = lru_memoryLimit s"
  by (simp_all add: view_def)

lemma expired_view [simp]: "expired now k s = spec_expired now k (view s)"
  by (simp add: expired_def spec_expired_def ttl_lookup_def split: option.splits)

text \<open>Entries only depend on keys and values of the represented locations.\<close>

lemma entries_payload:
  "same_payload s t \<Longrightarrow> lru_rep u ps \<Longrightarrow> lru_heap u = lru_heap t \<Longrightarrow>
   entries u = map (entry_at s) ps"
  by (simp add: rep_entries entry_at_def same_payload_sel)

section \<open>Constructors\<close>

definition empty_view :: "int \<Rightarrow> (string \<rightharpoonup> go_time) option \<Rightarrow> int \<Rightarrow> lru_view" where
  "empty_view cap ttl limit = \<lparr> v_entries = [], v_capacity = cap, v_ttl = ttl,
     v_stats = zero_cache_stats, v_memory = 0, v_limit = limit \<rparr>"

lemma new_rep:
  assumes "NewLRUCache cap = Some s"
    and "lru_head t = lru_head s" "lru_tail t = lru_tail s" "lru_heap t = lru_heap s"
      "lru_fresh t = lru_fresh s" "lru_map t = lru_map s" "lru_size t = lru_size s"
  shows "lru_rep t []"
  by (rule rep_cong [where s = s])
    (use assms in \<open>auto simp: NewLRUCache_def lru_rep_def lru_ring_def blank_node_def split: if_splits\<close>)

lemma NewLRUCache_refines:
  assumes "0 < cap"
  shows "\<exists>s. NewLRUCache cap = Some s \<and> lru_inv s \<and> view s = empty_view cap None 0"
proof -
  obtain s where s: "NewLRUCache cap = Some s"
    using assms by (auto simp: NewLRUCache_def)
  have rep: "lru_rep s []" by (rule new_rep [OF s]) simp_all
  have v: "view s = empty_view cap None 0"
    using s assms rep_entries [OF rep] by (auto simp: view_def empty_view_def NewLRUCache_def)
  have "view_ok (view s)"
    unfolding v using assms by (simp add: view_ok_def empty_view_def zero_cache_stats_def)
  with s rep v show ?thesis by (auto intro: lru_invI)
qed

lemma NewLRUCacheWithMemoryLimit_refines:
  assumes "0 < cap"
  shows "\<exists>s. NewLRUCacheWithMemoryLimit cap limit = Some s \<and> lru_inv s \<and> view s = empty_view cap None limit"
proof -
  obtain c where c: "NewLRUCache cap = Some c" "view c = empty_view cap None 0"
    using NewLRUCache_refines [OF assms] by auto
  let ?s = "c\<lparr> lru_memoryLimit := limit \<rparr>"
  have rep: "lru_rep ?s []" by (rule new_rep [OF c(1)]) simp_all
  have v: "view ?s = empty_view cap None limit"
    using c rep_entries [OF rep] by (auto simp: view_def empty_view_def)
  have "view_ok (view ?s)"
    unfolding v using assms by (simp add: view_ok_def empty_view_def zero_cache_stats_def)
  with c rep v show ?thesis by (auto simp: NewLRUCacheWithMemoryLimit_def intro: lru_invI)
qed

lemma NewLRUCacheWithCleanup_refines:
  assumes "0 < cap"
  shows "\<exists>s. NewLRUCacheWithCleanup cap iv = Some s \<and> lru_inv s \<and>
    view s = empty_view cap (Some Map.empty) 0 \<and> lru_stopCleanup s = OpenChan"
proof -
  obtain c where c: "NewLRUCache cap = Some c" "view c = empty_view cap None 0"
    using NewLRUCache_refines [OF assms] by auto
  let ?s = "c\<lparr> lru_cleanupInterval := iv, lru_stopCleanup := OpenChan, lru_ttlMap := Some Map.empty \<rparr>"
  have rep: "lru_rep ?s []" by (rule new_rep [OF c(1)]) simp_all
  have v: "view ?s = empty_view cap (Some Map.empty) 0"
    using c rep_entries [OF rep] by (auto simp: view_def empty_view_def)
  have "view_ok (view ?s)"
    unfolding v using assms by (simp add: view_ok_def empty_view_def zero_cache_stats_def)
  with c rep v show ?thesis by (auto simp: NewLRUCacheWithCleanup_def intro: lru_invI)
qed

section \<open>Set\<close>

lemma evict_loop_refines:
  assumes "lru_inv s" and "0 < m"
  shows "\<exists>t. evict_loop m s = Some t \<and> lru_inv t \<and> view t = spec_evict m (view s) \<and>
    (\<exists>n. entries t = take n (entries s)) \<and> lru_stopCleanup t = lru_stopCleanup s"
  using assms
proof (induction m s rule: evict_loop.induct)
  case (1 m s)
  obtain ps where rep: "lru_rep s ps" and es: "entries s = map (entry_at s) ps"
    using "1.prems"(1) by (rule lru_invE)
  have size: "lru_size s = int (length ps)" using rep by (simp add: lru_rep_def)
  have full: "must_evict m s \<and> lru_size s \<noteq> 0 \<longleftrightarrow> spec_full m (view s) \<and> ps \<noteq> []"
    using size es by (auto simp: must_evict_def spec_full_def)
  show ?case
  proof (cases "must_evict m s \<and> lru_size s \<noteq> 0")
    case False
    then have "evict_loop m s = Some s" by (subst evict_loop.simps) auto
    moreover have "spec_evict m (view s) = view s"
      using False full es by (subst spec_evict.simps) auto
    ultimately show ?thesis
      using "1.prems"(1) by (auto intro: exI [where x = "length (entries s)"])
  next
    case True
    then obtain as p where ps: "ps = as @ [p]" using full rev_exhaust by blast
    obtain t where t: "removeTail s = Some (p, t)" "same_payload s t" "ring_ok t (lru_ring t as)"
      using removeTail_rep rep ps by blast
    note sel = same_payload_sel [OF t(2)]
    define u where "u = t\<lparr> lru_memoryUsage := lru_memoryUsage t -
            calculateMemoryUsage (n_key (lru_heap t p)) (n_value (lru_heap t p)),
          lru_map := (lru_map t)(n_key (lru_heap t p) := None), lru_size := lru_size t - 1 \<rparr>"
    have step: "evict_loop m s = evict_loop m u"
      using True t by (subst evict_loop.simps) (simp add: u_def Let_def)
    have "lru_rep u (as @ [])"
      by (rule rep_drop [of s as p "[]" t]) (use rep ps t sel in \<open>simp_all add: u_def\<close>)
    then have repu: "lru_rep u as" by simp
    have esu: "entries u = map (entry_at s) as"
      by (rule entries_payload [OF t(2) repu]) (simp add: u_def)
    let ?a = "(view s)\<lparr> v_entries := butlast (v_entries (view s)),
             v_memory := v_memory (view s) - (case last (v_entries (view s)) of (k, v) \<Rightarrow> calculateMemoryUsage k v) \<rparr>"
    have vu: "view u = ?a"
      by (rule view_eqI) (use esu es ps sel in \<open>simp_all add: u_def entry_at_def\<close>)
    have spec: "spec_evict m (view s) = spec_evict m (view u)"
      using True full es by (subst spec_evict.simps) (simp add: vu)
    have "view_ok (view u)"
    proof -
      have "view_ok (view s)" using "1.prems"(1) by (simp add: lru_inv_def)
      then show ?thesis
        using es ps calculateMemoryUsage_pos [of "n_key (lru_heap s p)" "n_value (lru_heap s p)"]
        by (simp add: vu view_ok_def entry_at_def)
    qed
    with repu have invu: "lru_inv u" by (rule lru_invI)
    have ih: "\<exists>t. evict_loop m u = Some t \<and> lru_inv t \<and> view t = spec_evict m (view u) \<and>
        (\<exists>n. entries t = take n (entries u)) \<and> lru_stopCleanup t = lru_stopCleanup u"
      by (rule "1.IH" [OF _ t(1) refl refl, folded u_def]) (use True invu "1.prems"(2) in auto)
    have "\<exists>n'. take n (entries u) = take n' (entries s)" for n
      using es esu ps by (auto simp: min_def intro: exI [where x = "min n (length as)"])
    moreover have "lru_stopCleanup u = lru_stopCleanup s" using sel by (simp add: u_def)
    ultimately show ?thesis using ih step spec by (metis (no_types, lifting))
  qed
qed


lemma SetInternal_update:
  assumes "\<not> (lru_memoryLimit s > 0 \<and> calculateMemoryUsage k v > lru_memoryLimit s)"
    and "lru_map s k = Some p"
  shows "SetInternal k v s = moveToHead p (upd_node p (n_value_update (\<lambda>_. v)) (s\<lparr> lru_memoryUsage :=
    lru_memoryUsage s - calculateMemoryUsage k (n_value (lru_heap s p)) + calculateMemoryUsage k v \<rparr>))"
  unfolding SetInternal_def Let_def if_not_P [OF assms(1)] by (simp only: assms(2) option.simps)

lemma SetInternal_insert:
  assumes "\<not> (lru_memoryLimit s > 0 \<and> calculateMemoryUsage k v > lru_memoryLimit s)"
    and "lru_map s k = None"
  shows "SetInternal k v s = do {
      s1 \<leftarrow> evict_loop (calculateMemoryUsage k v) s;
      case new_node k v s1 of (newNode, s2) \<Rightarrow> do {
        s3 \<leftarrow> addToHead newNode s2;
        Some (s3\<lparr> lru_map := (lru_map s3)(k \<mapsto> newNode),
          lru_memoryUsage := lru_memoryUsage s3 + calculateMemoryUsage k v, lru_size := lru_size s3 + 1 \<rparr>)
      }
    }"
  unfolding SetInternal_def Let_def if_not_P [OF assms(1)] by (simp only: assms(2) option.simps)

lemma SetInternal_refines:
  assumes inv: "lru_inv s"
  shows "\<exists>t. SetInternal k v s = Some t \<and> lru_inv t \<and> view t = spec_set k v (view s) \<and>
    lru_stopCleanup t = lru_stopCleanup s"
proof -
  let ?m = "calculateMemoryUsage k v"
  have ok: "view_ok (spec_set k v (view s))"
    using inv by (intro spec_set_ok) (simp add: lru_inv_def)
  consider (reject) "lru_memoryLimit s > 0 \<and> ?m > lru_memoryLimit s"
    | (update) p where "\<not> (lru_memoryLimit s > 0 \<and> ?m > lru_memoryLimit s)" "lru_map s k = Some p"
    | (insert) "\<not> (lru_memoryLimit s > 0 \<and> ?m > lru_memoryLimit s)" "lru_map s k = None"
    by blast
  then show ?thesis
  proof cases
    case reject
    then show ?thesis using inv by (simp add: SetInternal_def spec_set_def)
  next
    case update
    obtain as bs where n: "lru_rep s (as @ p # bs)" "n_key (lru_heap s p) = k"
      "map_of (entries s) k = Some (n_value (lru_heap s p))"
      "del_key k (entries s) = map (entry_at s) (as @ bs)"
      using inv_node [OF inv update(2)] by metis
    define s2 where "s2 = upd_node p (n_value_update (\<lambda>_. v)) (s\<lparr> lru_memoryUsage :=
        lru_memoryUsage s - calculateMemoryUsage k (n_value (lru_heap s p)) + ?m \<rparr>)"
    have link: "linked (lru_heap s2) l = linked (lru_heap s) l" for l
      by (rule linked_cong) (auto simp: s2_def)
    have rep2: "lru_rep s2 (as @ p # bs)"
      using n(1) link [of "lru_ring s (as @ p # bs)"]
      by (auto simp: lru_rep_def lru_ring_def s2_def)
    obtain t where t: "moveToHead p s2 = Some t" "same_payload s2 t" "lru_rep t (p # as @ bs)"
      using moveToHead_rep [OF rep2] by blast
    note sel = same_payload_sel [OF t(2)]
    have dist: "p \<notin> set (as @ bs)" using n(1) by (auto simp: lru_rep_def lru_ring_def)
    have "entries t = map (entry_at s2) (p # as @ bs)"
      by (rule entries_payload [OF t(2,3)]) simp
    also have "\<dots> = (k, v) # del_key k (entries s)"
      using n dist by (auto simp: s2_def entry_at_def)
    finally have es: "entries t = (k, v) # del_key k (entries s)" .
    have "spec_set k v (view s) = (view s)\<lparr> v_entries := (k, v) # del_key k (entries s),
        v_memory := lru_memoryUsage s - calculateMemoryUsage k (n_value (lru_heap s p)) + ?m \<rparr>"
      using update n(3) unfolding spec_set_def Let_def by (simp only: view_sel if_False option.simps)
    then have "view t = spec_set k v (view s)"
      using es by (intro view_eqI) (simp_all add: sel s2_def)
    with ok t(3) have "lru_inv t" by (auto intro: lru_invI)
    moreover have stop: "lru_stopCleanup t = lru_stopCleanup s" by (simp add: sel s2_def)
    moreover have "SetInternal k v s = Some t"
      using SetInternal_update [OF update] t(1) by (simp only: s2_def)
    ultimately show ?thesis
      using \<open>view t = _\<close> by (intro exI [of _ t] conjI)
  next
    case insert
    obtain s1 where s1: "evict_loop ?m s = Some s1" "lru_inv s1" "view s1 = spec_evict ?m (view s)"
      "lru_stopCleanup s1 = lru_stopCleanup s" "\<exists>n. entries s1 = take n (entries s)"
      using evict_loop_refines [OF inv calculateMemoryUsage_pos] by metis
    have "map_of (entries s) k = None" using inv_lookup [OF inv, of k] insert by simp
    then have none: "map_of (entries s1) k = None"
      using s1(5) by (auto simp: map_of_eq_None_iff dest!: in_set_takeD)
    then have "lru_map s1 k = None" using inv_lookup [OF s1(2), of k] by simp
    obtain ps where rep: "lru_rep s1 ps" "entries s1 = map (entry_at s1) ps"
      using s1(2) by (rule lru_invE)
    obtain p s2 where nw: "new_node k v s1 = (p, s2)" by fastforce
    obtain t where t0: "addToHead p s2 = Some t" "same_payload s2 t"
      "lru_rep (t\<lparr> lru_map := (lru_map t)(k \<mapsto> p), lru_memoryUsage := lru_memoryUsage s2 + ?m,
         lru_size := lru_size t + 1 \<rparr>) (p # ps)"
      using insert_rep [OF rep(1) \<open>lru_map s1 k = None\<close> nw] by blast
    have t: "addToHead p s2 = Some t" "same_payload s2 t"
      "lru_rep (t\<lparr> lru_map := (lru_map t)(k \<mapsto> p), lru_memoryUsage := lru_memoryUsage t + ?m,
         lru_size := lru_size t + 1 \<rparr>) (p # ps)"
      using t0 by (simp_all add: same_payload_sel [OF t0(2)])
    let ?t = "t\<lparr> lru_map := (lru_map t)(k \<mapsto> p), lru_memoryUsage := lru_memoryUsage t + ?m,
         lru_size := lru_size t + 1 \<rparr>"
    note sel = same_payload_sel [OF t(2)]
    have p: "p \<notin> set ps" using rep(1) nw by (auto simp: lru_rep_def lru_ring_def new_node_def)
    have "entries ?t = map (entry_at s2) (p # ps)"
      by (rule entries_payload [OF t(2,3)]) simp
    also have "\<dots> = (k, v) # entries s1"
      using nw p rep(2) by (auto simp: new_node_def entry_at_def blank_node_def)
    finally have es: "entries ?t = (k, v) # entries s1" .
    have s2: "lru_capacity s2 = lru_capacity s1" "lru_ttlMap s2 = lru_ttlMap s1"
      "lru_stats s2 = lru_stats s1" "lru_memoryUsage s2 = lru_memoryUsage s1"
      "lru_memoryLimit s2 = lru_memoryLimit s1" "lru_stopCleanup s2 = lru_stopCleanup s1"
      using nw by (auto simp: new_node_def)
    have "spec_set k v (view s) = (view s1)\<lparr> v_entries := (k, v) # entries s1,
        v_memory := lru_memoryUsage s1 + ?m \<rparr>"
      unfolding spec_set_def Let_def
      by (simp only: insert \<open>map_of (entries s) k = None\<close> view_sel if_False option.simps flip: s1(3))
    with es have v: "view ?t = spec_set k v (view s)"
      by (intro view_eqI) (simp_all add: sel s2)
    have inv': "lru_inv ?t" by (rule lru_invI [OF t(3)]) (simp only: v ok)
    have eq: "SetInternal k v s = Some ?t"
      using s1(1) nw t(1)
      by (simp only: SetInternal_insert [OF insert] bind.bind_lunit case_prod_conv)
    have stop: "lru_stopCleanup ?t = lru_stopCleanup s" by (simp add: sel s2 s1)
    show ?thesis by (intro exI [of _ ?t] conjI inv' eq v stop)
  qed
qed

corollary lru_Set_refines:
  "lru_inv s \<Longrightarrow> \<exists>t. lru_Set k v s = Some t \<and> lru_inv t \<and> view t = spec_set k v (view s) \<and>
    lru_stopCleanup t = lru_stopCleanup s"
  by (simp add: lru_Set_def SetInternal_refines)

section \<open>Removing and touching a node\<close>

text \<open>
  The common part of \<open>Get\<close> on an expired key, \<open>Delete\<close>, \<open>DeleteMulti\<close> and the cleanup: once the
  node is unlinked, any state with its heap, without the key in the index and with the size counted
  down has the remaining entries.
\<close>

lemma drop_entries:
  assumes inv: "lru_inv s" and k: "lru_map s k = Some p"
    and s': "lru_heap s' = lru_heap s" "lru_head s' = lru_head s" "lru_tail s' = lru_tail s"
      "lru_fresh s' = lru_fresh s" "lru_map s' = lru_map s" "lru_size s' = lru_size s"
  shows "\<exists>t. removeNode p s' = Some t \<and> same_payload s' t \<and>
    (\<forall>u. lru_heap u = lru_heap t \<and> lru_head u = lru_head t \<and> lru_tail u = lru_tail t \<and>
        lru_fresh u = lru_fresh t \<and> lru_map u = (lru_map t)(k := None) \<and> lru_size u = lru_size t - 1 \<longrightarrow>
        (\<exists>ps. lru_rep u ps) \<and> entries u = del_key k (entries s))"
proof -
  obtain as bs where n: "lru_rep s (as @ p # bs)" "n_key (lru_heap s p) = k"
    "del_key k (entries s) = map (entry_at s) (as @ bs)"
    using inv_node [OF inv k] by metis
  have rep': "lru_rep s' (as @ p # bs)"
    by (rule rep_cong [OF n(1)]) (simp_all add: s')
  obtain t where t: "removeNode p s' = Some t" "same_payload s' t" "ring_ok t (lru_ring t (as @ bs))"
    using removeNode_rep [OF rep'] by blast
  have "(\<exists>ps. lru_rep u ps) \<and> entries u = del_key k (entries s)"
    if u: "lru_heap u = lru_heap t" "lru_head u = lru_head t" "lru_tail u = lru_tail t"
        "lru_fresh u = lru_fresh t" "lru_map u = (lru_map t)(k := None)" "lru_size u = lru_size t - 1" for u
  proof -
    have rep: "lru_rep u (as @ bs)"
      by (rule rep_drop [OF rep' t(2,3)]) (use u n s' in simp_all)
    have "entries u = map (entry_at s') (as @ bs)"
      by (rule entries_payload [OF t(2) rep u(1)])
    also have "\<dots> = map (entry_at s) (as @ bs)" using s' by (simp add: entry_at_def)
    finally show ?thesis using rep n(3) by auto
  qed
  with t show ?thesis by auto
qed

lemma touch_entries:
  assumes inv: "lru_inv s" and k: "lru_map s k = Some p"
    and s': "lru_heap s' = lru_heap s" "lru_head s' = lru_head s" "lru_tail s' = lru_tail s"
      "lru_fresh s' = lru_fresh s" "lru_map s' = lru_map s" "lru_size s' = lru_size s"
  shows "\<exists>t v. moveToHead p s' = Some t \<and> same_payload s' t \<and> (\<exists>ps. lru_rep t ps) \<and>
     map_of (entries s) k = Some v \<and> n_value (lru_heap t p) = v \<and>
     entries t = (k, v) # del_key k (entries s)"
proof -
  obtain as bs where n: "lru_rep s (as @ p # bs)" "n_key (lru_heap s p) = k"
    "map_of (entries s) k = Some (n_value (lru_heap s p))"
    "del_key k (entries s) = map (entry_at s) (as @ bs)"
    using inv_node [OF inv k] by metis
  have rep': "lru_rep s' (as @ p # bs)"
    by (rule rep_cong [OF n(1)]) (simp_all add: s')
  obtain t where t: "moveToHead p s' = Some t" "same_payload s' t" "lru_rep t (p # as @ bs)"
    using moveToHead_rep [OF rep'] by blast
  have "entries t = map (entry_at s') (p # as @ bs)"
    by (rule entries_payload [OF t(2,3)]) simp
  also have "\<dots> = map (entry_at s) (p # as @ bs)" using s' by (simp add: entry_at_def)
  finally show ?thesis
    using t n s' same_payload_sel [OF t(2)] by (auto simp: entry_at_def)
qed


section \<open>Get and Delete\<close>

lemma lru_Get_refines:
  assumes inv: "lru_inv s"
  shows "\<exists>r t. lru_Get now k s = Some (r, t) \<and> lru_inv t \<and> (r, view t) = spec_get now k (view s) \<and>
    lru_stopCleanup t = lru_stopCleanup s"
proof -
  have ok: "view_ok (snd (spec_get now k (view s)))"
    using inv by (intro spec_get_ok) (simp add: lru_inv_def)
  have exp: "expired now k (count_total s) = spec_expired now k (view s)"
    by (simp add: count_total_def spec_expired_def)
  consider (absent) "lru_map s k = None"
    | (stale) p where "lru_map s k = Some p" "spec_expired now k (view s)"
    | (live) p where "lru_map s k = Some p" "\<not> spec_expired now k (view s)"
    by fastforce
  then show ?thesis
  proof cases
    case absent
    obtain ps where rep: "lru_rep s ps" "entries s = map (entry_at s) ps" using inv by (rule lru_invE)
    let ?t = "count_miss (count_total s)"
    have rep': "lru_rep ?t ps"
      by (rule rep_cong [OF rep(1)]) (simp_all add: count_miss_def count_total_def)
    have none: "map_of (entries s) k = None" using inv_lookup [OF inv, of k] absent by simp
    have v: "view ?t = snd (spec_get now k (view s))"
      using rep none rep_entries [OF rep']
      by (intro view_eqI) (simp_all add: spec_get_def bump_def miss_def count_miss_def count_total_def entry_at_def)
    show ?thesis
      using absent none ok rep' v
      by (auto simp: lru_Get_def Let_def spec_get_def count_total_def count_miss_def intro!: lru_invI)
  next
    case stale
    obtain t where t: "removeNode p (count_total s) = Some t" "same_payload (count_total s) t"
      "\<And>u. lru_heap u = lru_heap t \<and> lru_head u = lru_head t \<and> lru_tail u = lru_tail t \<and>
        lru_fresh u = lru_fresh t \<and> lru_map u = (lru_map t)(k := None) \<and> lru_size u = lru_size t - 1 \<Longrightarrow>
        (\<exists>ps. lru_rep u ps) \<and> entries u = del_key k (entries s)"
      using drop_entries [OF inv stale(1), of "count_total s"] by (auto simp: count_total_def)
    note sel = same_payload_sel [OF t(2)]
    define u where "u = (let s2 = ttl_delete k (t\<lparr> lru_map := (lru_map t)(k := None) \<rparr>)
      in count_miss (s2\<lparr> lru_size := lru_size s2 - 1 \<rparr>))"
    have u: "(\<exists>ps. lru_rep u ps) \<and> entries u = del_key k (entries s)"
      by (rule t(3)) (simp add: u_def Let_def ttl_delete_def count_miss_def)
    obtain v where v: "map_of (entries s) k = Some v" using inv_lookup [OF inv, of k] stale by simp
    have vu: "view u = snd (spec_get now k (view s))"
      using u v stale(2) sel
      by (intro view_eqI) (simp_all add: spec_get_def u_def Let_def ttl_delete_def count_miss_def
        count_total_def bump_def miss_def spec_drop_def spec_ttl_del_def)
    have "lru_Get now k s = Some (([], False), u)"
      using stale t(1) exp by (simp add: lru_Get_def Let_def u_def count_total_def)
    then show ?thesis
      using u vu ok v stale(2) sel
      by (auto simp: spec_get_def u_def Let_def ttl_delete_def count_miss_def count_total_def
        intro!: lru_invI)
  next
    case live
    obtain t v where t: "moveToHead p (count_hit (count_total s)) = Some t"
      "same_payload (count_hit (count_total s)) t" "\<exists>ps. lru_rep t ps"
      "map_of (entries s) k = Some v" "n_value (lru_heap t p) = v"
      "entries t = (k, v) # del_key k (entries s)"
      using touch_entries [OF inv live(1), of "count_hit (count_total s)"]
      by (auto simp: count_total_def count_hit_def)
    note sel = same_payload_sel [OF t(2)]
    have v: "view t = snd (spec_get now k (view s))"
      using t live(2) sel
      by (intro view_eqI) (simp_all add: spec_get_def count_hit_def count_total_def bump_def hit_def
        spec_touch_def)
    have "lru_Get now k s = Some ((v, True), t)"
      using live t(1,5) exp by (simp add: lru_Get_def Let_def count_total_def)
    then show ?thesis
      using v ok t live(2) sel
      by (auto simp: spec_get_def count_total_def count_hit_def intro!: lru_invI)
  qed
qed

lemma lru_Delete_refines:
  assumes inv: "lru_inv s"
  shows "\<exists>r t. lru_Delete k s = Some (r, t) \<and> lru_inv t \<and> (r, view t) = spec_delete k (view s) \<and>
    lru_stopCleanup t = lru_stopCleanup s"
proof (cases "lru_map s k")
  case None
  then show ?thesis
    using inv inv_lookup [OF inv, of k]
    by (intro exI [of _ False] exI [of _ s]) (simp add: lru_Delete_def spec_delete_def)
next
  case (Some p)
  let ?s' = "s\<lparr> lru_memoryUsage := lru_memoryUsage s - calculateMemoryUsage k (n_value (lru_heap s p)) \<rparr>"
  have ok: "view_ok (snd (spec_delete k (view s)))"
    using inv by (intro spec_delete_ok) (simp add: lru_inv_def)
  obtain t where t: "removeNode p ?s' = Some t" "same_payload ?s' t"
      "\<And>u. lru_heap u = lru_heap t \<and> lru_head u = lru_head t \<and> lru_tail u = lru_tail t \<and>
        lru_fresh u = lru_fresh t \<and> lru_map u = (lru_map t)(k := None) \<and> lru_size u = lru_size t - 1 \<Longrightarrow>
        (\<exists>ps. lru_rep u ps) \<and> entries u = del_key k (entries s)"
    using drop_entries [OF inv Some, of ?s'] by auto
  note sel = same_payload_sel [OF t(2)]
  define u where "u = (let s3 = ttl_delete k (t\<lparr> lru_map := (lru_map t)(k := None) \<rparr>)
      in s3\<lparr> lru_size := lru_size s3 - 1 \<rparr>)"
  have u: "(\<exists>ps. lru_rep u ps) \<and> entries u = del_key k (entries s)"
    by (rule t(3)) (simp add: u_def Let_def ttl_delete_def)
  have v: "map_of (entries s) k = Some (n_value (lru_heap s p))"
    using inv_lookup [OF inv, of k] Some by simp
  have vu: "view u = snd (spec_delete k (view s))"
    using u v sel
    by (intro view_eqI) (simp_all add: spec_delete_def u_def Let_def ttl_delete_def
      spec_drop_def spec_ttl_del_def)
  have "lru_Delete k s = Some (True, u)"
    using Some t(1) by (simp add: lru_Delete_def Let_def u_def)
  then show ?thesis
    using u vu ok v sel
    by (auto simp: spec_delete_def u_def Let_def ttl_delete_def intro!: lru_invI)
qed

end
