(* ===== verification/Lru_Ops.thy ===== *)
theory Lru_Ops
  imports Lru_Refine
begin

text \<open>
  The remaining operations of \<open>core/lrucache.go\<close> (expiry times, the batch operations, the cleanup
  pass, the snapshot \<open>GetAllData\<close>) and their abstract counterparts, and the operations as one type
  of calls, so that what a cache promises can be said of every sequence of calls.
\<close>

section \<open>Abstract counterparts\<close>

definition spec_set_ttl :: "go_time \<Rightarrow> string \<Rightarrow> string \<Rightarrow> duration \<Rightarrow> lru_view \<Rightarrow> lru_view" where
  "spec_set_ttl now k v ttl a =
     (let b = spec_set k v a in b\<lparr> v_ttl := map_option (\<lambda>m. m(k \<mapsto> now + ttl)) (v_ttl b) \<rparr>)"

definition spec_get_multi_step ::
  "string \<Rightarrow> (string \<rightharpoonup> string) \<times> lru_view \<Rightarrow> (string \<rightharpoonup> string) \<times> lru_view" where
  "spec_get_multi_step k ra = (case ra of (r, a) \<Rightarrow>
     (case map_of (v_entries a) k of
        None \<Rightarrow> (r, bump miss a)
      | Some v \<Rightarrow> (r(k \<mapsto> v), bump hit (spec_touch k v a))))"

definition spec_delete_multi_step :: "string \<Rightarrow> int \<times> lru_view \<Rightarrow> int \<times> lru_view" where
  "spec_delete_multi_step k ca = (case ca of (c, a) \<Rightarrow>
     (case spec_delete k a of (b, a') \<Rightarrow> (if b then c + 1 else c, a')))"

definition spec_cleanup_step :: "go_time \<Rightarrow> string \<Rightarrow> int \<times> lru_view \<Rightarrow> int \<times> lru_view" where
  "spec_cleanup_step now k ca = (case ca of (c, a) \<Rightarrow>
     (if spec_expired now k a then (c + 1, spec_ttl_del k (snd (spec_delete k a))) else (c, a)))"

lemma spec_set_ttl_ok: "view_ok a \<Longrightarrow> view_ok (spec_set_ttl now k v ttl a)"
  using spec_set_ok [of a k v] by (auto simp: spec_set_ttl_def Let_def view_ok_def)

lemma spec_ttl_del_ok: "view_ok a \<Longrightarrow> view_ok (spec_ttl_del k a)"
  by (simp add: view_ok_def spec_ttl_del_def)

lemma view_ok_touch:
  assumes ok: "view_ok a" and k: "map_of (v_entries a) k = Some v"
  shows "view_ok (bump hit (spec_touch k v a))"
proof -
  have "\<not> spec_expired now k (a\<lparr> v_ttl := None \<rparr>)" for now by (simp add: spec_expired_def)
  define now where "now = (case v_ttl a of None \<Rightarrow> 0 | Some m \<Rightarrow> (case m k of None \<Rightarrow> 0 | Some e \<Rightarrow> e))"
  have "\<not> spec_expired now k a"
    by (simp add: spec_expired_def now_def split: option.splits)
  then have "bump hit (spec_touch k v a) = snd (spec_get now k a)"
    using k by (simp add: spec_get_def)
  with spec_get_ok [OF ok] show ?thesis by simp
qed

section \<open>Refinement\<close>

lemma lru_SetWithTTL_refines:
  assumes inv: "lru_inv s" and ttl: "lru_ttlMap s \<noteq> None"
  shows "\<exists>t. lru_SetWithTTL now k v d s = Some t \<and> lru_inv t \<and>
    view t = spec_set_ttl now k v d (view s) \<and> lru_stopCleanup t = lru_stopCleanup s"
proof -
  obtain s1 where s1: "SetInternal k v s = Some s1" "lru_inv s1" "view s1 = spec_set k v (view s)"
    "lru_stopCleanup s1 = lru_stopCleanup s"
    using SetInternal_refines [OF inv] by blast
  have "v_ttl (spec_set k v (view s)) = lru_ttlMap s"
    by (simp add: spec_set_def Let_def spec_evict_frame split: option.split)
  then have "lru_ttlMap s1 = lru_ttlMap s" by (simp flip: s1(3))
  then obtain m where m: "lru_ttlMap s1 = Some m" using ttl by auto
  let ?t = "s1\<lparr> lru_ttlMap := Some (m(k \<mapsto> now + d)) \<rparr>"
  obtain ps where ps: "lru_rep s1 ps" "entries s1 = map (entry_at s1) ps" using s1(2) by (rule lru_invE)
  have rep: "lru_rep ?t ps" by (rule rep_cong [OF ps(1)]) simp_all
  have v: "view ?t = spec_set_ttl now k v d (view s)"
    by (rule view_eqI)
      (use ps m rep_entries [OF rep] in \<open>simp_all add: spec_set_ttl_def Let_def entry_at_def flip: s1(3)\<close>)
  have "view_ok (view ?t)" unfolding v using inv by (intro spec_set_ttl_ok) (simp add: lru_inv_def)
  with rep v s1(1,4) m show ?thesis
    by (auto simp: lru_SetWithTTL_def intro: lru_invI)
qed

text \<open>On a cache built without cleanup \<open>SetWithTTL\<close> always panics.\<close>

lemma lru_SetWithTTL_panics:
  assumes inv: "lru_inv s" and ttl: "lru_ttlMap s = None"
  shows "lru_SetWithTTL now k v d s = panic"
proof -
  obtain s1 where s1: "SetInternal k v s = Some s1" "view s1 = spec_set k v (view s)"
    using SetInternal_refines [OF inv] by blast
  have "v_ttl (spec_set k v (view s)) = lru_ttlMap s"
    by (simp add: spec_set_def Let_def spec_evict_frame split: option.split)
  then have "lru_ttlMap s1 = None" by (simp add: ttl flip: s1(2))
  then show ?thesis by (simp add: lru_SetWithTTL_def s1)
qed

text \<open>A call that also returns something: the results agree and the states correspond.\<close>

definition sim :: "lru_cache \<Rightarrow> 'r \<times> lru_cache \<Rightarrow> 'r \<times> lru_view \<Rightarrow> bool" where
  "sim s x y \<longleftrightarrow> lru_inv (snd x) \<and> (fst x, view (snd x)) = y \<and> lru_stopCleanup (snd x) = lru_stopCleanup s"

lemma lru_SetMulti_refines:
  assumes inv: "lru_inv s"
  shows "\<exists>t. lru_SetMulti kvs s = Some t \<and> lru_inv t \<and>
    view t = fold (\<lambda>(k, v). spec_set k v) kvs (view s) \<and> lru_stopCleanup t = lru_stopCleanup s"
  unfolding lru_SetMulti_def
proof (rule foldM_refines
    [where R = "\<lambda>t b. lru_inv t \<and> view t = b \<and> lru_stopCleanup t = lru_stopCleanup s"])
  fix x :: "string \<times> string" and t b
  assume t: "lru_inv t \<and> view t = b \<and> lru_stopCleanup t = lru_stopCleanup s"
  obtain k v where x: "x = (k, v)" by (cases x)
  show "\<exists>t'. (case x of (k, v) \<Rightarrow> SetInternal k v) t = Some t' \<and> lru_inv t' \<and>
      view t' = (case x of (k, v) \<Rightarrow> spec_set k v) b \<and> lru_stopCleanup t' = lru_stopCleanup s"
    unfolding x prod.case using SetInternal_refines [of t k v] t by metis
qed (use inv in simp)

lemma get_multi_step_refines:
  assumes inv: "lru_inv s"
  shows "\<exists>r' t. get_multi_step k (r, s) = Some (r', t) \<and> lru_inv t \<and>
    (r', view t) = spec_get_multi_step k (r, view s) \<and> lru_stopCleanup t = lru_stopCleanup s"
proof (cases "lru_map s k")
  case None
  obtain ps where rep: "lru_rep s ps" "entries s = map (entry_at s) ps" using inv by (rule lru_invE)
  let ?t = "count_miss (count_total s)"
  have rep': "lru_rep ?t ps"
    by (rule rep_cong [OF rep(1)]) (simp_all add: count_miss_def count_total_def)
  have none: "map_of (entries s) k = None" using inv_lookup [OF inv, of k] None by simp
  have v: "view ?t = bump miss (view s)"
    using rep rep_entries [OF rep']
    by (intro view_eqI) (simp_all add: bump_def miss_def count_miss_def count_total_def entry_at_def)
  have "view_ok (bump miss (view s))"
    using inv by (simp add: lru_inv_def view_ok_simps)
  then have "lru_inv ?t" by (intro lru_invI [OF rep']) (simp only: v)
  with v none None show ?thesis
    by (auto simp: get_multi_step_def spec_get_multi_step_def Let_def count_total_def count_miss_def)
next
  case (Some p)
  obtain t v where t: "moveToHead p (count_hit (count_total s)) = Some t"
      "same_payload (count_hit (count_total s)) t" "\<exists>ps. lru_rep t ps"
      "map_of (entries s) k = Some v" "n_value (lru_heap t p) = v"
      "entries t = (k, v) # del_key k (entries s)"
    using touch_entries [OF inv Some, of "count_hit (count_total s)"]
    by (auto simp: count_total_def count_hit_def)
  note sel = same_payload_sel [OF t(2)]
  have v: "view t = bump hit (spec_touch k v (view s))"
    using t(6) by (intro view_eqI) (simp_all add: sel count_hit_def count_total_def bump_def hit_def
        spec_touch_def)
  have "view_ok (bump hit (spec_touch k v (view s)))"
    using inv t(4) by (intro view_ok_touch) (auto simp: lru_inv_def)
  then have "lru_inv t" using t(3) by (auto simp: lru_inv_def v)
  moreover have "get_multi_step k (r, s) = Some (r(k \<mapsto> v), t)"
    using Some t(1,5) by (simp add: get_multi_step_def Let_def count_total_def)
  moreover have "lru_stopCleanup t = lru_stopCleanup s" by (simp add: sel count_hit_def count_total_def)
  ultimately show ?thesis using v t(4) by (simp add: spec_get_multi_step_def)
qed

lemma lru_GetMulti_refines:
  assumes inv: "lru_inv s"
  shows "\<exists>r t. lru_GetMulti ks s = Some (r, t) \<and> lru_inv t \<and>
    (r, view t) = fold spec_get_multi_step ks (Map.empty, view s) \<and> lru_stopCleanup t = lru_stopCleanup s"
proof -
  have "\<exists>x. foldM get_multi_step ks (Map.empty, s) = Some x \<and>
      sim s x (fold spec_get_multi_step ks (Map.empty, view s))"
  proof (rule foldM_refines [where R = "sim s"])
    fix k and x :: "(string \<rightharpoonup> string) \<times> lru_cache" and y
    assume "sim s x y"
    then show "\<exists>x'. get_multi_step k x = Some x' \<and> sim s x' (spec_get_multi_step k y)"
      using get_multi_step_refines [of "snd x" k "fst x"]
      by (cases x) (auto simp: sim_def)
  qed (use inv in \<open>simp add: sim_def\<close>)
  then show ?thesis by (auto simp: sim_def lru_GetMulti_def)
qed

lemma removeNode_memory:
  "removeNode p (s\<lparr> lru_memoryUsage := m \<rparr>) = map_option (\<lambda>t. t\<lparr> lru_memoryUsage := m \<rparr>) (removeNode p s)"
  by (simp add: removeNode_def upd_node_def Let_def split: bind_splits)

lemma delete_multi_step_Delete:
  assumes inv: "lru_inv s"
  shows "delete_multi_step k (c, s) =
    map_option (\<lambda>(b, t). (if b then c + 1 else c, t)) (lru_Delete k s)"
proof (cases "lru_map s k")
  case (Some p)
  obtain t where t: "removeNode p s = Some t" "same_payload s t"
    using drop_entries [OF inv Some, of s] by blast
  note sel = same_payload_sel [OF t(2)]
  show ?thesis
    using Some
    by (simp add: delete_multi_step_def lru_Delete_def Let_def t(1) removeNode_memory sel ttl_delete_def)
qed (simp add: delete_multi_step_def lru_Delete_def)

lemma lru_DeleteMulti_refines:
  assumes inv: "lru_inv s"
  shows "\<exists>c t. lru_DeleteMulti ks s = Some (c, t) \<and> lru_inv t \<and>
    (c, view t) = fold spec_delete_multi_step ks (0, view s) \<and> lru_stopCleanup t = lru_stopCleanup s"
proof -
  have "\<exists>x. foldM delete_multi_step ks (0, s) = Some x \<and>
      sim s x (fold spec_delete_multi_step ks (0, view s))"
  proof (rule foldM_refines [where R = "sim s"])
    fix k and x :: "int \<times> lru_cache" and y
    assume R: "sim s x y"
    obtain c s' where x: "x = (c, s')" by (cases x)
    obtain b t where "lru_Delete k s' = Some (b, t)" "lru_inv t"
      "(b, view t) = spec_delete k (view s')" "lru_stopCleanup t = lru_stopCleanup s'"
      using lru_Delete_refines [of s' k] R x by (auto simp: sim_def)
    with R x show "\<exists>x'. delete_multi_step k x = Some x' \<and> sim s x' (spec_delete_multi_step k y)"
      by (auto simp: sim_def delete_multi_step_Delete spec_delete_multi_step_def split: prod.splits)
  qed (use inv in \<open>simp add: sim_def\<close>)
  then show ?thesis by (auto simp: sim_def lru_DeleteMulti_def)
qed

section \<open>Expiry cleanup\<close>

lemma ttl_delete_twice:
  "ttl_delete k ((ttl_delete k s)\<lparr> lru_size := n \<rparr>) = ttl_delete k (s\<lparr> lru_size := n \<rparr>)"
  by (simp add: ttl_delete_def option.map_comp comp_def)

lemma cleanup_step_Delete:
  "cleanup_step now k (c, s) =
    (if expired now k s then map_option (\<lambda>(b, t). (c + 1, ttl_delete k t)) (lru_Delete k s)
     else Some (c, s))"
proof (cases "lru_map s k")
  case None
  then show ?thesis by (simp add: cleanup_step_def lru_Delete_def)
next
  case (Some p)
  let ?s = "s\<lparr> lru_memoryUsage := lru_memoryUsage s - calculateMemoryUsage k (n_value (lru_heap s p)) \<rparr>"
  show ?thesis
    by (cases "removeNode p ?s")
      (simp_all add: Some cleanup_step_def lru_Delete_def Let_def ttl_delete_def option.map_comp comp_def)
qed

lemma ttl_delete_refines:
  assumes inv: "lru_inv s"
  shows "lru_inv (ttl_delete k s)" "view (ttl_delete k s) = spec_ttl_del k (view s)"
proof -
  obtain ps where ps: "lru_rep s ps" "entries s = map (entry_at s) ps" using inv by (rule lru_invE)
  have rep: "lru_rep (ttl_delete k s) ps" by (rule rep_cong [OF ps(1)]) (simp_all add: ttl_delete_def)
  show v: "view (ttl_delete k s) = spec_ttl_del k (view s)"
    by (rule view_eqI)
      (use ps rep_entries [OF rep] in \<open>simp_all add: spec_ttl_del_def ttl_delete_def entry_at_def\<close>)
  have "view_ok (view s)" using inv by (simp add: lru_inv_def)
  with rep v show "lru_inv (ttl_delete k s)" by (auto simp: spec_ttl_del_ok intro: lru_invI)
qed

lemma cleanup_loop_refines:
  assumes inv: "lru_inv s"
  shows "\<exists>c t. foldM (cleanup_step now) order (0, s) = Some (c, t) \<and>
    sim s (c, t) (fold (spec_cleanup_step now) order (0, view s))"
proof -
  have "\<exists>x. foldM (cleanup_step now) order (0, s) = Some x \<and>
      sim s x (fold (spec_cleanup_step now) order (0, view s))"
  proof (rule foldM_refines [where R = "sim s"])
    fix k and x :: "int \<times> lru_cache" and y
    assume R: "sim s x y"
    obtain c s' where x: "x = (c, s')" by (cases x)
    have s': "lru_inv s'" "y = (c, view s')" using R x by (auto simp: sim_def)
    obtain b t where t: "lru_Delete k s' = Some (b, t)" "lru_inv t"
      "(b, view t) = spec_delete k (view s')" "lru_stopCleanup t = lru_stopCleanup s'"
      using lru_Delete_refines [OF s'(1)] by metis
    have d: "snd (spec_delete k (view s')) = view t" by (simp flip: t(3))
    have stop: "lru_stopCleanup s' = lru_stopCleanup s" using R x by (simp add: sim_def)
    show "\<exists>x'. cleanup_step now k x = Some x' \<and> sim s x' (spec_cleanup_step now k y)"
    proof (cases "spec_expired now k (view s')")
      case True
      then have "cleanup_step now k x = Some (c + 1, ttl_delete k t)"
        by (simp add: x cleanup_step_Delete t(1))
      moreover have "spec_cleanup_step now k y = (c + 1, view (ttl_delete k t))"
        using True by (simp add: s' spec_cleanup_step_def d ttl_delete_refines [OF t(2)])
      ultimately show ?thesis
        using ttl_delete_refines(1) [OF t(2)] t(4) stop by (simp add: sim_def) (simp add: ttl_delete_def)
    qed (use R x s' in \<open>simp add: cleanup_step_Delete spec_cleanup_step_def\<close>)
  qed (use inv in \<open>simp add: sim_def\<close>)
  then show ?thesis by auto
qed

lemma removeNode_cleanupStats: "removeNode p s = Some t \<Longrightarrow> lru_cleanupStats t = lru_cleanupStats s"
  by (auto simp: removeNode_def Let_def bind_Some_iff)

lemma Delete_cleanupStats:
  assumes "lru_Delete k s = Some (b, t)"
  shows "lru_cleanupStats t = lru_cleanupStats s"
proof (cases "lru_map s k")
  case (Some p)
  let ?s = "s\<lparr> lru_memoryUsage := lru_memoryUsage s - calculateMemoryUsage k (n_value (lru_heap s p)) \<rparr>"
  show ?thesis
  proof (cases "removeNode p ?s")
    case (Some u)
    with \<open>lru_map s k = Some p\<close> assms removeNode_cleanupStats [OF Some] show ?thesis
      by (simp add: lru_Delete_def Let_def ttl_delete_def) auto
  qed (use assms Some in \<open>simp add: lru_Delete_def Let_def\<close>)
qed (use assms in \<open>simp add: lru_Delete_def\<close>)

lemma cleanup_step_stats:
  assumes "cleanup_step now k (d, s) = Some (d', s')"
  shows "lru_cleanupStats s' = lru_cleanupStats s"
proof (cases "expired now k s")
  case True
  then obtain b t where "lru_Delete k s = Some (b, t)" "s' = ttl_delete k t"
    using assms by (auto simp: cleanup_step_Delete simp del: expired_view)
  then show ?thesis using Delete_cleanupStats [of k s b t] by (simp add: ttl_delete_def)
next
  case False
  then show ?thesis using assms by (simp add: cleanup_step_Delete del: expired_view)
qed

lemma cleanup_loop_stats:
  "foldM (cleanup_step now) order (d, s) = Some (c, t) \<Longrightarrow> lru_cleanupStats t = lru_cleanupStats s"
proof (induction order arbitrary: d s)
  case (Cons k order)
  then obtain d' s' where s': "cleanup_step now k (d, s) = Some (d', s')"
    "foldM (cleanup_step now) order (d', s') = Some (c, t)"
    by (auto simp: bind_Some_iff)
  with Cons.IH [OF s'(2)] cleanup_step_stats [OF s'(1)] show ?case by simp
qed simp

lemma cleanupExpiredkeys_refines:
  assumes inv: "lru_inv s"
  shows "\<exists>c t. cleanupExpiredkeys now order s = Some t \<and> lru_inv t \<and>
    (c, view t) = fold (spec_cleanup_step now) order (0, view s) \<and>
    lru_stopCleanup t = lru_stopCleanup s \<and>
    lru_cleanupStats t = \<lparr> CleanedKeys = CleanedKeys (lru_cleanupStats s) + c,
      CleanupRuns = CleanupRuns (lru_cleanupStats s) + 1, LastCleanup = Some now \<rparr>"
proof -
  obtain c t where t: "foldM (cleanup_step now) order (0, s) = Some (c, t)"
    "sim s (c, t) (fold (spec_cleanup_step now) order (0, view s))"
    using cleanup_loop_refines [OF inv] by blast
  let ?cs = "\<lparr> CleanedKeys = CleanedKeys (lru_cleanupStats t) + c,
      CleanupRuns = CleanupRuns (lru_cleanupStats t) + 1, LastCleanup = Some now \<rparr>"
  let ?u = "t\<lparr> lru_cleanupStats := ?cs \<rparr>"
  have inv': "lru_inv t" using t(2) by (simp add: sim_def)
  then obtain ps where ps: "lru_rep t ps" "entries t = map (entry_at t) ps" by (rule lru_invE)
  have rep: "lru_rep ?u ps" by (rule rep_cong [OF ps(1)]) simp_all
  have v: "view ?u = view t"
    by (rule view_eqI) (use ps rep_entries [OF rep] in \<open>simp_all add: entry_at_def\<close>)
  have "lru_inv ?u" using inv' rep v by (auto simp: lru_inv_def)
  moreover have "cleanupExpiredkeys now order s = Some ?u"
    by (simp add: cleanupExpiredkeys_def t(1) Let_def)
  moreover have "(c, view ?u) = fold (spec_cleanup_step now) order (0, view s)"
    using t(2) by (simp add: sim_def v)
  moreover have "lru_stopCleanup ?u = lru_stopCleanup s" using t(2) by (simp add: sim_def)
  moreover have "lru_cleanupStats t = lru_cleanupStats s" by (rule cleanup_loop_stats [OF t(1)])
  ultimately show ?thesis
    by (intro exI [of _ c] exI [of _ ?u]) simp
qed

text \<open>The abstract pass, in any order that visits each key with an expiry time once.\<close>

lemma spec_delete_entries: "v_entries (snd (spec_delete k a)) = del_key k (v_entries a)"
proof (cases "map_of (v_entries a) k")
  case None
  then have "k \<notin> fst ` set (v_entries a)" by (simp only: map_of_eq_None_iff not_False_eq_True)
  with None show ?thesis by (simp add: spec_delete_def)
qed (simp add: spec_delete_def)

lemma spec_delete_ttl:
  "v_ttl (spec_ttl_del k (snd (spec_delete k a))) = map_option (\<lambda>m. m(k := None)) (v_ttl a)"
  by (cases "map_of (v_entries a) k")
    (simp_all add: spec_delete_def spec_drop_def spec_ttl_del_def option.map_comp comp_def)

lemma spec_cleanup_exact:
  assumes "distinct ks" and "v_ttl a = Some m"
  shows "\<exists>a'. fold (spec_cleanup_step now) ks (c, a) =
       (c + int (card {k \<in> set ks. spec_expired now k a}), a') \<and>
     v_entries a' = filter (\<lambda>e. \<not> (fst e \<in> set ks \<and> spec_expired now (fst e) a)) (v_entries a) \<and>
     v_ttl a' = Some (\<lambda>k. if k \<in> set ks \<and> spec_expired now k a then None else m k)"
  using assms
proof (induction ks arbitrary: c a m)
  case (Cons k ks)
  let ?k = "\<lambda>x. spec_expired now x a"
  have dist: "distinct ks" "k \<notin> set ks" using Cons.prems(1) by auto
  show ?case
  proof (cases "?k k")
    case True
    let ?b = "spec_ttl_del k (snd (spec_delete k a))"
    have b: "v_ttl ?b = Some (m(k := None))" by (simp add: spec_delete_ttl Cons.prems(2))
    have eb: "v_entries ?b = del_key k (v_entries a)"
      by (simp add: spec_ttl_del_def spec_delete_entries)
    have exp: "spec_expired now x ?b \<longleftrightarrow> x \<noteq> k \<and> ?k x" for x
      by (simp add: spec_expired_def b Cons.prems(2))
    have "{x \<in> set (k # ks). ?k x} = insert k {x \<in> set ks. x \<noteq> k \<and> ?k x}"
      using True by auto
    then have card: "int (card {x \<in> set (k # ks). ?k x}) = 1 + int (card {x \<in> set ks. x \<noteq> k \<and> ?k x})"
      by simp
    obtain a' where a': "fold (spec_cleanup_step now) ks (c + 1, ?b) =
        (c + 1 + int (card {x \<in> set ks. x \<noteq> k \<and> ?k x}), a')"
      "v_entries a' = filter (\<lambda>e. \<not> (fst e \<in> set ks \<and> fst e \<noteq> k \<and> ?k (fst e))) (del_key k (v_entries a))"
      "v_ttl a' = Some (\<lambda>x. if x \<in> set ks \<and> x \<noteq> k \<and> ?k x then None else (m(k := None)) x)"
      using Cons.IH [OF dist(1) b, of "c + 1"] unfolding exp eb by blast
    have "fold (spec_cleanup_step now) (k # ks) (c, a) = (c + int (card {x \<in> set (k # ks). ?k x}), a')"
      using a'(1) True by (simp add: spec_cleanup_step_def card del: list.set)
    moreover have "v_entries a' =
        filter (\<lambda>e. \<not> (fst e \<in> set (k # ks) \<and> ?k (fst e))) (v_entries a)"
      unfolding a'(2) del_key_def filter_filter by (rule filter_cong) (use True in auto)
    moreover have "v_ttl a' = Some (\<lambda>x. if x \<in> set (k # ks) \<and> ?k x then None else m x)"
      using True by (auto simp: a'(3) fun_eq_iff)
    ultimately show ?thesis by blast
  next
    case False
    have card: "{x \<in> set (k # ks). ?k x} = {x \<in> set ks. ?k x}" using False by auto
    have step: "fold (spec_cleanup_step now) (k # ks) (c, a) = fold (spec_cleanup_step now) ks (c, a)"
      using False by (simp add: spec_cleanup_step_def)
    have ks: "x \<in> set (k # ks) \<and> ?k x \<longleftrightarrow> x \<in> set ks \<and> ?k x" for x using False by auto
    show ?thesis unfolding card step ks by (rule Cons.IH [OF dist(1) Cons.prems(2)])
  qed
qed simp

end
