(* ===== verification/Lru_Props.thy ===== *)
theory Lru_Props
  imports Lru_Ops
begin

text \<open>
  What the node-local cache of \<open>core/lrucache.go\<close> guarantees: every sequence of calls is a sequence of
  steps of the abstract cache with the same answers and panics exactly when a time to live is set on a
  cache without expiry, the counters and the memory account are consistent,
  the entries are the most recently used ones, and the expiry pass removes exactly the expired keys.
  The last section states the contract the distributed layers build on, as the locale
  \<open>lossy_cache\<close>, and interprets it on the pointer implementation.
\<close>

section \<open>Calls\<close>

datatype lru_call =
    CallSet string string
  | CallSetWithTTL go_time string string duration
  | CallGet go_time string
  | CallDelete string
  | CallSetMulti "(string \<times> string) list"
  | CallGetMulti "string list"
  | CallDeleteMulti "string list"
  | CallCleanup go_time "string list"

text \<open>What a call returns.\<close>

datatype lru_result = Done | Read string bool | Removed bool | ReadAll "string \<rightharpoonup> string" | RemovedCount int

fun lru_answer :: "lru_call \<Rightarrow> lru_cache \<Rightarrow> (lru_result \<times> lru_cache) option" where
  "lru_answer (CallSet k v) s = map_option (Pair Done) (lru_Set k v s)"
| "lru_answer (CallSetWithTTL now k v ttl) s = map_option (Pair Done) (lru_SetWithTTL now k v ttl s)"
| "lru_answer (CallGet now k) s = map_option (apfst (\<lambda>(v, found). Read v found)) (lru_Get now k s)"
| "lru_answer (CallDelete k) s = map_option (apfst Removed) (lru_Delete k s)"
| "lru_answer (CallSetMulti order) s = map_option (Pair Done) (lru_SetMulti order s)"
| "lru_answer (CallGetMulti ks) s = map_option (apfst ReadAll) (lru_GetMulti ks s)"
| "lru_answer (CallDeleteMulti ks) s = map_option (apfst RemovedCount) (lru_DeleteMulti ks s)"
| "lru_answer (CallCleanup now order) s = map_option (Pair Done) (cleanupExpiredkeys now order s)"

fun spec_answer :: "lru_call \<Rightarrow> lru_view \<Rightarrow> lru_result \<times> lru_view" where
  "spec_answer (CallSet k v) a = (Done, spec_set k v a)"
| "spec_answer (CallSetWithTTL now k v ttl) a = (Done, spec_set_ttl now k v ttl a)"
| "spec_answer (CallGet now k) a = apfst (\<lambda>(v, found). Read v found) (spec_get now k a)"
| "spec_answer (CallDelete k) a = apfst Removed (spec_delete k a)"
| "spec_answer (CallSetMulti order) a = (Done, fold (\<lambda>(k, v). spec_set k v) order a)"
| "spec_answer (CallGetMulti ks) a = apfst ReadAll (fold spec_get_multi_step ks (Map.empty, a))"
| "spec_answer (CallDeleteMulti ks) a = apfst RemovedCount (fold spec_delete_multi_step ks (0, a))"
| "spec_answer (CallCleanup now order) a = (Done, snd (fold (spec_cleanup_step now) order (0, a)))"

text \<open>The state after a call.\<close>

definition lru_perform :: "lru_call \<Rightarrow> lru_cache \<Rightarrow> lru_cache option" where
  "lru_perform c s = map_option snd (lru_answer c s)"

definition spec_call :: "lru_call \<Rightarrow> lru_view \<Rightarrow> lru_view" where
  "spec_call c a = snd (spec_answer c a)"

lemma lru_perform_simps [simp]:
  "lru_perform (CallSet k v) s = lru_Set k v s"
  "lru_perform (CallSetWithTTL now k v ttl) s = lru_SetWithTTL now k v ttl s"
  "lru_perform (CallGet now k) s = map_option snd (lru_Get now k s)"
  "lru_perform (CallDelete k) s = map_option snd (lru_Delete k s)"
  "lru_perform (CallSetMulti order) s = lru_SetMulti order s"
  "lru_perform (CallGetMulti ks) s = map_option snd (lru_GetMulti ks s)"
  "lru_perform (CallDeleteMulti ks) s = map_option snd (lru_DeleteMulti ks s)"
  "lru_perform (CallCleanup now visit) s = cleanupExpiredkeys now visit s"
  by (simp_all add: lru_perform_def option.map_comp comp_def option.map_ident)

lemma spec_call_simps [simp]:
  "spec_call (CallSet k v) a = spec_set k v a"
  "spec_call (CallSetWithTTL now k v ttl) a = spec_set_ttl now k v ttl a"
  "spec_call (CallGet now k) a = snd (spec_get now k a)"
  "spec_call (CallDelete k) a = snd (spec_delete k a)"
  "spec_call (CallSetMulti order) a = fold (\<lambda>(k, v). spec_set k v) order a"
  "spec_call (CallGetMulti ks) a = snd (fold spec_get_multi_step ks (Map.empty, a))"
  "spec_call (CallDeleteMulti ks) a = snd (fold spec_delete_multi_step ks (0, a))"
  "spec_call (CallCleanup now visit) a = snd (fold (spec_cleanup_step now) visit (0, a))"
  by (simp_all add: spec_call_def)

text \<open>The calls that need the expiry map of a cache built with cleanup.\<close>

fun needs_ttl :: "lru_call \<Rightarrow> bool" where
  "needs_ttl (CallSetWithTTL _ _ _ _) = True"
| "needs_ttl _ = False"

definition lru_run :: "lru_call list \<Rightarrow> lru_cache \<Rightarrow> lru_cache option" where
  "lru_run cs s = foldM lru_perform cs s"

lemma lru_answer_refines:
  assumes inv: "lru_inv s" and ttl: "needs_ttl c \<Longrightarrow> lru_ttlMap s \<noteq> None"
  shows "\<exists>r t. lru_answer c s = Some (r, t) \<and> lru_inv t \<and> (r, view t) = spec_answer c (view s)"
proof (cases c)
  case (CallSet k v)
  then show ?thesis using lru_Set_refines [OF inv, of k v] by auto
next
  case (CallSetWithTTL now k v d)
  then show ?thesis using lru_SetWithTTL_refines [OF inv, of now k v d] ttl by auto
next
  case (CallGet now k)
  obtain r t where "lru_Get now k s = Some (r, t)" "lru_inv t" "(r, view t) = spec_get now k (view s)"
    using lru_Get_refines [OF inv] by metis
  with CallGet show ?thesis by (simp flip: \<open>(r, view t) = _\<close>)
next
  case (CallDelete k)
  obtain r t where "lru_Delete k s = Some (r, t)" "lru_inv t" "(r, view t) = spec_delete k (view s)"
    using lru_Delete_refines [OF inv] by metis
  with CallDelete show ?thesis by (simp flip: \<open>(r, view t) = _\<close>)
next
  case (CallSetMulti order)
  then show ?thesis using lru_SetMulti_refines [OF inv, of order] by auto
next
  case (CallGetMulti ks)
  obtain r t where "lru_GetMulti ks s = Some (r, t)" "lru_inv t"
    "(r, view t) = fold spec_get_multi_step ks (Map.empty, view s)"
    using lru_GetMulti_refines [OF inv] by metis
  with CallGetMulti show ?thesis by (simp flip: \<open>(r, view t) = _\<close>)
next
  case (CallDeleteMulti ks)
  obtain r t where "lru_DeleteMulti ks s = Some (r, t)" "lru_inv t"
    "(r, view t) = fold spec_delete_multi_step ks (0, view s)"
    using lru_DeleteMulti_refines [OF inv] by metis
  with CallDeleteMulti show ?thesis by (simp flip: \<open>(r, view t) = _\<close>)
next
  case (CallCleanup now order)
  obtain r t where "cleanupExpiredkeys now order s = Some t" "lru_inv t"
    "(r, view t) = fold (spec_cleanup_step now) order (0, view s)"
    using cleanupExpiredkeys_refines [OF inv] by metis
  with CallCleanup show ?thesis by (simp flip: \<open>(r, view t) = _\<close>)
qed

lemma lru_call_refines:
  assumes "lru_inv s" and "needs_ttl c \<longrightarrow> lru_ttlMap s \<noteq> None"
  shows "\<exists>t. lru_perform c s = Some t \<and> lru_inv t \<and> view t = spec_call c (view s)"
proof -
  obtain r t where "lru_answer c s = Some (r, t)" "lru_inv t" "(r, view t) = spec_answer c (view s)"
    using lru_answer_refines [OF assms(1)] assms(2) by blast
  then show ?thesis by (simp add: lru_perform_def spec_call_def flip: \<open>(r, view t) = _\<close>)
qed

text \<open>No call creates or drops the expiry map, or changes capacity and limit.\<close>

definition same_config :: "lru_view \<Rightarrow> lru_view \<Rightarrow> bool" where
  "same_config a b \<longleftrightarrow> v_capacity b = v_capacity a \<and> v_limit b = v_limit a \<and>
     (v_ttl b = None \<longleftrightarrow> v_ttl a = None)"

lemma same_config_refl: "same_config a a"
  by (simp add: same_config_def)

lemma same_config_trans: "same_config a b \<Longrightarrow> same_config b c \<Longrightarrow> same_config a c"
  by (simp add: same_config_def)

lemma same_config_fold:
  assumes "\<And>x a. same_config (p a) (p (f x a))"
  shows "same_config (p a) (p (fold f xs a))"
proof (induction xs arbitrary: a)
  case (Cons x xs)
  show ?case using same_config_trans [OF assms [of a x] Cons.IH] by simp
qed (simp add: same_config_refl)

lemma same_config_set: "same_config a (spec_set k v a)"
  by (simp add: same_config_def spec_set_def Let_def spec_evict_frame split: option.split)

lemma same_config_delete: "same_config a (snd (spec_delete k a))"
  by (simp add: same_config_def spec_delete_def spec_drop_def spec_ttl_del_def split: option.split)

lemma same_config_call: "same_config a (spec_call c a)"
proof (cases c)
  case (CallSetWithTTL now k v d)
  then show ?thesis using same_config_set [of a k v] by (auto simp: same_config_def spec_set_ttl_def Let_def)
next
  case (CallGet now k)
  then show ?thesis
    by (simp add: same_config_def spec_get_def bump_def spec_drop_def spec_touch_def spec_ttl_del_def split: option.split)
next
  case (CallSetMulti order)
  then show ?thesis
    using same_config_fold [where p = "\<lambda>x. x" and f = "\<lambda>(k, v). spec_set k v" and xs = order and a = a]
    by (simp add: same_config_set split: prod.split)
next
  case (CallGetMulti ks)
  have "same_config (snd x) (snd (spec_get_multi_step k x))" for k x
    by (cases x) (simp add: same_config_def spec_get_multi_step_def bump_def spec_touch_def split: option.split)
  then show ?thesis
    using same_config_fold [where p = snd and a = "(Map.empty, a)" and f = spec_get_multi_step] CallGetMulti by simp
next
  case (CallDeleteMulti ks)
  have "same_config (snd x) (snd (spec_delete_multi_step k x))" for k x
    using same_config_delete [of "snd x" k]
    by (cases x) (simp add: spec_delete_multi_step_def case_prod_beta)
  then show ?thesis
    using same_config_fold [where p = snd and a = "(0, a)" and f = spec_delete_multi_step] CallDeleteMulti by simp
next
  case (CallCleanup now order)
  have "same_config (snd x) (snd (spec_cleanup_step now k x))" for k x
    using same_config_delete [of "snd x" k]
    by (cases x) (simp add: spec_cleanup_step_def same_config_def spec_ttl_del_def)
  then show ?thesis
    using same_config_fold [where p = snd and a = "(0, a)" and f = "spec_cleanup_step now"] CallCleanup by simp
qed (simp_all add: same_config_set same_config_delete)

lemma lru_run_sim:
  assumes inv: "lru_inv s" and ttl: "(\<forall>c \<in> set cs. \<not> needs_ttl c) \<or> lru_ttlMap s \<noteq> None"
  shows "\<exists>t. lru_run cs s = Some t \<and> lru_inv t \<and> view t = fold spec_call cs (view s) \<and>
    same_config (view s) (view t)"
proof -
  let ?R = "\<lambda>t b. lru_inv t \<and> view t = b \<and> same_config (view s) (view t)"
  have "\<exists>t. lru_run cs s = Some t \<and> ?R t (fold spec_call cs (view s))"
    unfolding lru_run_def
  proof (rule foldM_refines [where R = ?R])
    show "?R s (view s)" using inv by (simp add: same_config_refl)
  next
    fix c t b
    assume c: "c \<in> set cs" and R: "?R t b"
    have "needs_ttl c \<longrightarrow> lru_ttlMap t \<noteq> None"
      using ttl c R by (auto simp: same_config_def)
    then obtain t' where t': "lru_perform c t = Some t'" "lru_inv t'" "view t' = spec_call c (view t)"
      using lru_call_refines R by blast
    moreover have "same_config (view s) (view t')"
      unfolding t'(3) using R by (blast intro: same_config_trans same_config_call)
    ultimately show "\<exists>t'. lru_perform c t = Some t' \<and> ?R t' (spec_call c b)"
      using R by auto
  qed
  then show ?thesis by blast
qed

section \<open>Recency\<close>

text \<open>With neither a memory limit nor expiry a \<open>Set\<close> moves its entry to the front and cuts at the capacity.\<close>

lemma spec_evict_plain:
  assumes "v_limit a \<le> 0" "int (length (v_entries a)) \<le> v_capacity a" "0 < v_capacity a"
  shows "v_entries (spec_evict m a) = take (nat (v_capacity a) - 1) (v_entries a)"
proof (cases "int (length (v_entries a)) = v_capacity a")
  case True
  let ?b = "a\<lparr> v_entries := butlast (v_entries a),
    v_memory := v_memory a - (case last (v_entries a) of (k, v) \<Rightarrow> calculateMemoryUsage k v) \<rparr>"
  have ne: "v_entries a \<noteq> []" using True assms(3) by auto
  then have "spec_evict m a = spec_evict m ?b"
    using True by (subst spec_evict.simps) (simp add: spec_full_def)
  also have "\<dots> = ?b"
    using assms True ne by (intro spec_evict_id) (auto simp: spec_full_def)
  finally show ?thesis
    using True by (simp add: butlast_conv_take flip: True)
next
  case False
  then have "\<not> spec_full m a" using assms by (auto simp: spec_full_def)
  moreover have "length (v_entries a) \<le> nat (v_capacity a) - 1" using False assms by linarith
  ultimately show ?thesis by (simp add: spec_evict_id)
qed

lemma spec_set_plain:
  assumes ok: "view_ok a" and lim: "v_limit a \<le> 0"
  shows "v_entries (spec_set k v a) = take (nat (v_capacity a)) ((k, v) # del_key k (v_entries a))"
proof -
  have cap: "0 < v_capacity a" "int (length (v_entries a)) \<le> v_capacity a"
    and dist: "distinct (map fst (v_entries a))" using ok by (simp_all add: view_ok_def)
  obtain n where n: "nat (v_capacity a) = Suc n" using cap(1) by (metis gr0_conv_Suc zero_less_nat_eq)
  show ?thesis
  proof (cases "map_of (v_entries a) k")
    case None
    then have "del_key k (v_entries a) = v_entries a"
      by (intro del_key_absent) (simp only: map_of_eq_None_iff not_False_eq_True)
    then show ?thesis
      using None lim n spec_evict_plain [OF lim cap(2,1)] by (simp add: spec_set_def Let_def)
  next
    case (Some old)
    have "v_entries a \<noteq> []" using Some by auto
    then have "length (del_key k (v_entries a)) \<le> n"
      using length_del_key [OF dist Some] cap n by (cases "v_entries a") (simp_all, linarith?)
    then show ?thesis using Some lim n by (simp add: spec_set_def Let_def)
  qed
qed

lemma take_del_key_out:
  "k \<notin> fst ` set (take n h) \<Longrightarrow> m \<le> n \<Longrightarrow> take m (del_key k h) = take m h"
proof (induction h arbitrary: n m)
  case (Cons e h)
  then show ?case by (cases e; cases n; cases m) auto
qed simp

lemma take_del_key_in:
  "distinct (map fst h) \<Longrightarrow> k \<in> fst ` set (take (Suc n) h) \<Longrightarrow>
   take n (del_key k h) = del_key k (take (Suc n) h)"
proof (induction h arbitrary: n)
  case (Cons e h)
  obtain k' v where e: "e = (k', v)" by (cases e)
  show ?case
  proof (cases "k = k'")
    case True
    then have "k \<notin> fst ` set h" using Cons.prems(1) e by auto
    moreover from this have "k \<notin> fst ` set (take n h)" by (auto dest: in_set_takeD)
    ultimately show ?thesis using e True by simp
  next
    case False
    then have "k \<in> fst ` set (take n h)" using Cons.prems(2) e by auto
    then obtain m where "n = Suc m" by (cases n) auto
    with Cons.IH [of m] Cons.prems e False show ?thesis by auto
  qed
qed simp

text \<open>
  The history of a run of \<open>Set\<close> and \<open>Get\<close> calls: all pairs ever set, with their last values, the
  most recently used first. A \<open>Get\<close> counts as a use when it hits one of the first \<open>cap\<close> entries.
\<close>

fun touch_history :: "int \<Rightarrow> lru_call \<Rightarrow> (string \<times> string) list \<Rightarrow> (string \<times> string) list" where
  "touch_history cap (CallSet k v) h = (k, v) # del_key k h"
| "touch_history cap (CallGet now k) h =
     (case map_of (take (nat cap) h) k of None \<Rightarrow> h | Some v \<Rightarrow> (k, v) # del_key k h)"
| "touch_history cap _ h = h"

fun set_or_get :: "lru_call \<Rightarrow> bool" where
  "set_or_get (CallSet _ _) = True"
| "set_or_get (CallGet _ _) = True"
| "set_or_get _ = False"

lemma recency_step:
  assumes ok: "view_ok a" and cfg: "v_ttl a = None" "v_limit a \<le> 0" and c: "set_or_get c"
    and h: "v_entries a = take (nat (v_capacity a)) h" "distinct (map fst h)"
  shows "v_entries (spec_call c a) = take (nat (v_capacity a)) (touch_history (v_capacity a) c h) \<and>
    distinct (map fst (touch_history (v_capacity a) c h))"
proof -
  obtain n where n: "nat (v_capacity a) = Suc n"
    using ok by (metis gr0_conv_Suc view_ok_def zero_less_nat_eq)
  have dist: "distinct (map fst ((k, v) # del_key k h))" for k v
    using h(2) by auto
  have front: "take (Suc n) ((k, v) # del_key k (take (Suc n) h)) = take (Suc n) ((k, v) # del_key k h)" for k v
  proof (cases "k \<in> fst ` set (take (Suc n) h)")
    case True
    have "length (del_key k (take (Suc n) h)) \<le> n"
      unfolding take_del_key_in [OF h(2) True, symmetric] by simp
    then show ?thesis by (simp add: take_del_key_in [OF h(2) True])
  next
    case False
    then show ?thesis using take_del_key_out [OF False, of n] by simp
  qed
  show ?thesis
  proof (cases c)
    case (CallSet k v)
    then show ?thesis
      using spec_set_plain [OF ok cfg(2), of k v] front [of k v] dist by (simp add: h(1) n)
  next
    case (CallGet now k)
    have exp: "\<not> spec_expired now k a" using cfg(1) by (simp add: spec_expired_def)
    show ?thesis
    proof (cases "map_of (v_entries a) k")
      case None
      then show ?thesis using CallGet h by (simp add: spec_get_def bump_def)
    next
      case (Some v)
      have "length (del_key k (v_entries a)) \<le> n"
        using Some h(1) n take_del_key_in [OF h(2), of k n]
        by (metis domI dom_map_of_conv_image_fst length_take min.cobounded2)
      then have "take (Suc n) ((k, v) # del_key k (v_entries a)) = (k, v) # del_key k (v_entries a)" by simp
      then show ?thesis
        using CallGet Some exp front [of k v] h(1) n dist
        by (simp add: spec_get_def bump_def spec_touch_def)
    qed
  qed (use c in simp_all)
qed

section \<open>Properties\<close>

lemma lru_cleanup_run:
  assumes "0 < cap"
  shows "\<exists>s t. NewLRUCacheWithCleanup cap iv = Some s \<and> lru_run cs s = Some t \<and> lru_inv t \<and>
    view t = fold spec_call cs (empty_view cap (Some Map.empty) 0)"
proof -
  obtain s where s: "NewLRUCacheWithCleanup cap iv = Some s" "lru_inv s"
    "view s = empty_view cap (Some Map.empty) 0"
    using NewLRUCacheWithCleanup_refines [OF assms, of iv] by blast
  have "lru_ttlMap s = v_ttl (view s)" by simp
  then have "lru_ttlMap s \<noteq> None" by (simp only: s(3) empty_view_def lru_view.simps) simp
  then show ?thesis using lru_run_sim [OF s(2), of cs] s by auto
qed

lemma lru_limit_run:
  assumes "NewLRUCacheWithMemoryLimit cap limit = Some s" "\<forall>c \<in> set cs. \<not> needs_ttl c"
  shows "\<exists>t. lru_run cs s = Some t \<and> lru_inv t \<and> view t = fold spec_call cs (empty_view cap None limit)
    \<and> lru_ttlMap t = None \<and> lru_memoryLimit t = limit \<and> lru_capacity t = cap"
proof -
  have "0 < cap"
    using assms(1) by (auto simp: NewLRUCacheWithMemoryLimit_def NewLRUCache_def split: if_splits)
  then have s: "lru_inv s" "view s = empty_view cap None limit"
    using NewLRUCacheWithMemoryLimit_refines [of cap limit] assms(1) by auto
  obtain t where t: "lru_run cs s = Some t" "lru_inv t" "view t = fold spec_call cs (view s)"
    "same_config (view s) (view t)"
    using lru_run_sim [OF s(1)] assms(2) by blast
  have "lru_ttlMap t = None \<and> lru_memoryLimit t = limit \<and> lru_capacity t = cap"
    using t(4) unfolding s(2) by (simp add: same_config_def empty_view_def)
  with t s(2) show ?thesis by simp
qed

text \<open>
  The constructors. The last one starts the cleanup goroutine, which creates its ticker at once: an interval
  that is not positive panics there and ends the program.
\<close>

datatype lru_build = Plain int | Limited int int | WithCleanup int duration

fun build_cache :: "lru_build \<Rightarrow> lru_cache option" where
  "build_cache (Plain cap) = NewLRUCache cap"
| "build_cache (Limited cap limit) = NewLRUCacheWithMemoryLimit cap limit"
| "build_cache (WithCleanup cap interval) = do { c \<leftarrow> NewLRUCacheWithCleanup cap interval; startCleanupRoutine [] c }"

fun build_ok :: "lru_build \<Rightarrow> bool" where
  "build_ok (Plain cap) \<longleftrightarrow> 0 < cap"
| "build_ok (Limited cap limit) \<longleftrightarrow> 0 < cap"
| "build_ok (WithCleanup cap interval) \<longleftrightarrow> 0 < cap \<and> 0 < interval"

fun build_view :: "lru_build \<Rightarrow> lru_view" where
  "build_view (Plain cap) = empty_view cap None 0"
| "build_view (Limited cap limit) = empty_view cap None limit"
| "build_view (WithCleanup cap interval) = empty_view cap (Some Map.empty) 0"

fun with_expiry :: "lru_build \<Rightarrow> bool" where
  "with_expiry (WithCleanup _ _) = True"
| "with_expiry _ = False"

lemma build_refines:
  "if build_ok b then \<exists>s. build_cache b = Some s \<and> lru_inv s \<and> view s = build_view b else build_cache b = None"
proof (cases b)
  case (Plain cap)
  then show ?thesis using NewLRUCache_refines [of cap] by (auto simp: NewLRUCache_def)
next
  case (Limited cap limit)
  then show ?thesis
    using NewLRUCacheWithMemoryLimit_refines [of cap limit] by (auto simp: NewLRUCacheWithMemoryLimit_def NewLRUCache_def)
next
  case (WithCleanup cap interval)
  have "lru_cleanupInterval s = interval" if "NewLRUCacheWithCleanup cap interval = Some s" for s
    using that by (auto simp: NewLRUCacheWithCleanup_def bind_eq_Some_conv)
  moreover have "NewLRUCacheWithCleanup cap interval = None" if "\<not> 0 < cap"
    using that by (simp add: NewLRUCacheWithCleanup_def NewLRUCache_def)
  ultimately show ?thesis
    using WithCleanup NewLRUCacheWithCleanup_refines [of cap interval]
    by (cases "NewLRUCacheWithCleanup cap interval") (auto simp: startCleanupRoutine_def)
qed

text \<open>The results of a sequence of calls.\<close>

fun lru_answers :: "lru_call list \<Rightarrow> lru_cache \<Rightarrow> (lru_result list \<times> lru_cache) option" where
  "lru_answers [] s = Some ([], s)"
| "lru_answers (c # cs) s = do {
     (r, s1) \<leftarrow> lru_answer c s;
     (rs, s2) \<leftarrow> lru_answers cs s1;
     Some (r # rs, s2)
   }"

fun spec_answers :: "lru_call list \<Rightarrow> lru_view \<Rightarrow> lru_result list \<times> lru_view" where
  "spec_answers [] a = ([], a)"
| "spec_answers (c # cs) a = (case spec_answer c a of (r, a1) \<Rightarrow> apfst (Cons r) (spec_answers cs a1))"

lemma answers_refine:
  assumes "lru_inv s"
  shows "if (\<exists>c \<in> set cs. needs_ttl c) \<and> lru_ttlMap s = None then lru_answers cs s = None
    else \<exists>t. lru_answers cs s = Some (fst (spec_answers cs (view s)), t) \<and> view t = snd (spec_answers cs (view s))"
  using assms
proof (induction cs arbitrary: s)
  case (Cons c cs)
  show ?case
  proof (cases "needs_ttl c \<and> lru_ttlMap s = None")
    case True
    then have "lru_answer c s = None" using lru_SetWithTTL_panics [OF Cons.prems] by (cases c) auto
    then show ?thesis using True by simp
  next
    case False
    then obtain r t where t: "lru_answer c s = Some (r, t)" "lru_inv t" "(r, view t) = spec_answer c (view s)"
      using lru_answer_refines [OF Cons.prems] by metis
    have "same_config (view s) (view t)"
      using same_config_call [of "view s" c] t(3) by (metis spec_call_def snd_conv)
    then have "lru_ttlMap t = None \<longleftrightarrow> lru_ttlMap s = None" by (simp add: same_config_def)
    then show ?thesis
      using False t(1) Cons.IH [OF t(2)] by (auto simp flip: t(3) split: if_splits)
  qed
qed simp

text \<open>C1: every cache and every sequence of calls. A constructor panics exactly when the capacity, or the cleanup interval where
  there is one, is not positive. A sequence of calls on the new cache panics exactly when it contains a \<open>SetWithTTL\<close> and the
  cache was built without cleanup; otherwise every call returns what the abstract cache, a list of entries, returns, and the
  linked list, the index, the counters and the memory account are those of the abstract cache.\<close>

theorem lru_runs_refine:
  "case build_cache b of
     None \<Rightarrow> \<not> build_ok b
   | Some s \<Rightarrow> build_ok b \<and>
      (if (\<exists>c \<in> set cs. needs_ttl c) \<and> \<not> with_expiry b then lru_answers cs s = None
       else \<exists>t. lru_answers cs s = Some (fst (spec_answers cs (build_view b)), t) \<and> view t = snd (spec_answers cs (build_view b)))"
proof (cases "build_ok b")
  case True
  then obtain s where s: "build_cache b = Some s" "lru_inv s" "view s = build_view b" using build_refines [of b] by auto
  have "v_ttl (build_view b) = None \<longleftrightarrow> \<not> with_expiry b" by (cases b) (simp_all add: empty_view_def)
  then have ttl: "lru_ttlMap s = None \<longleftrightarrow> \<not> with_expiry b" unfolding s(3) [symmetric] by simp
  show ?thesis using answers_refine [OF s(2), of cs] True unfolding s(1,3) ttl by simp
next
  case False
  then show ?thesis using build_refines [of b] by simp
qed

theorem lru_runs_refine_witness:
  "\<exists>s t. build_cache (WithCleanup 2 5) = Some s \<and>
     lru_answers [CallSet ''a'' ''1'', CallSet ''b'' ''2'', CallGet 0 ''a'', CallSet ''c'' ''3'', CallGet 0 ''b'', CallDelete ''a''] s =
       Some ([Done, Done, Read ''1'' True, Done, Read [] False, Removed True], t) \<and>
     entries t = [(''c'', ''3'')]"
proof -
  let ?cs = "[CallSet ''a'' ''1'', CallSet ''b'' ''2'', CallGet 0 ''a'', CallSet ''c'' ''3'', CallGet 0 ''b'', CallDelete ''a'']"
  obtain s where s: "build_cache (WithCleanup 2 5) = Some s" using build_refines [of "WithCleanup 2 5"] by auto
  obtain t where t: "lru_answers ?cs s = Some (fst (spec_answers ?cs (build_view (WithCleanup 2 5))), t)"
    "view t = snd (spec_answers ?cs (build_view (WithCleanup 2 5)))"
    using lru_runs_refine [of "WithCleanup 2 5" ?cs] s by auto
  note defs = empty_view_def spec_set_def spec_get_def spec_delete_def spec_evict.simps spec_full_def spec_expired_def
    calculateMemoryUsage_def spec_touch_def spec_drop_def spec_ttl_del_def bump_def
  have "fst (spec_answers ?cs (build_view (WithCleanup 2 5))) = [Done, Done, Read ''1'' True, Done, Read [] False, Removed True]"
    by (simp add: defs)
  moreover have "v_entries (view t) = [(''c'', ''3'')]" unfolding t(2) by (simp add: defs)
  then have "entries t = [(''c'', ''3'')]" by (simp only: view_sel)
  ultimately show ?thesis using s t(1) by auto
qed

text \<open>C5: after any calls on a cache with a capacity and a memory limit, the size counter is the number
  of indexed keys and at most the capacity, every lookup is a hit or a miss, and the hit rate is
  between 0 and 1.\<close>

theorem lru_bounds:
  assumes "NewLRUCacheWithMemoryLimit cap limit = Some s" and "\<forall>c \<in> set cs. \<not> needs_ttl c"
    and "lru_run cs s = Some t"
  shows "lru_Size t = int (card (dom (lru_map t))) \<and> 0 \<le> lru_Size t \<and> lru_Size t \<le> cap \<and>
    Hits (lru_GetStats t) + Misses (lru_GetStats t) = TotalRequests (lru_GetStats t) \<and>
    0 \<le> HitRate (lru_GetStats t) \<and> HitRate (lru_GetStats t) \<le> 1"
proof -
  have t: "lru_inv t" "lru_capacity t = cap"
    using lru_limit_run [OF assms(1,2)] assms(3) by auto
  have ok: "view_ok (view t)" using t(1) by (simp add: lru_inv_def)
  have "k \<in> dom (lru_map t) \<longleftrightarrow> k \<in> fst ` set (entries t)" for k
    using inv_lookup [OF t(1), of k] by (metis domIff dom_map_of_conv_image_fst map_option_is_None)
  then have "dom (lru_map t) = fst ` set (entries t)" by blast
  then have "int (card (dom (lru_map t))) = int (length (entries t))"
    using inv_distinct [OF t(1)] by (metis card_set distinct_card length_map set_map)
  then have size: "lru_Size t = int (card (dom (lru_map t)))" "lru_Size t \<le> cap" "0 \<le> lru_Size t"
    using inv_size [OF t(1)] ok t(2) by (simp_all add: lru_Size_def view_ok_def)
  let ?st = "lru_GetStats t"
  have st: "Hits ?st + Misses ?st = TotalRequests ?st" "0 \<le> Hits ?st" "0 \<le> Misses ?st"
    using ok by (simp_all add: view_ok_def lru_GetStats_def)
  then have "0 \<le> HitRate ?st \<and> HitRate ?st \<le> 1"
    by (auto simp: HitRate_def divide_le_eq)
  with size st show ?thesis by blast
qed

theorem lru_bounds_witness:
  "\<exists>s t. NewLRUCacheWithMemoryLimit 1 200 = Some s \<and>
     lru_run [CallSet ''a'' ''1'', CallSet ''b'' ''2'', CallGet 0 ''a''] s = Some t \<and> lru_Size t \<le> 1"
proof -
  let ?cs = "[CallSet ''a'' ''1'', CallSet ''b'' ''2'', CallGet 0 ''a'']"
  obtain s where s: "NewLRUCacheWithMemoryLimit 1 200 = Some s"
    using NewLRUCacheWithMemoryLimit_refines [of 1 200] by auto
  obtain t where t: "lru_run ?cs s = Some t" using lru_limit_run [OF s, of ?cs] by auto
  show ?thesis using lru_bounds [OF s _ t] s t by (intro exI [of _ s] exI [of _ t]) simp
qed

text \<open>C4: after any sequence of \<open>Set\<close> and \<open>Get\<close> calls the cache holds exactly the \<open>cap\<close> most recently
  used pairs of the whole history, in that order: what is evicted is always the least recently used.\<close>

theorem lru_keeps_most_recent:
  assumes "NewLRUCacheWithMemoryLimit cap 0 = Some s" and "\<forall>c \<in> set cs. set_or_get c"
    and "lru_run cs s = Some t"
  shows "entries t = take (nat cap) (fold (touch_history cap) cs [])"
proof -
  have no_ttl: "\<forall>c \<in> set cs. \<not> needs_ttl c"
    using assms(2) by (metis needs_ttl.elims(2) set_or_get.simps(3))
  have t: "view t = fold spec_call cs (empty_view cap None 0)"
    using lru_limit_run [OF assms(1) no_ttl] assms(3) by auto
  have ok0: "view_ok (empty_view cap None 0)"
    using assms(1) by (auto simp: NewLRUCacheWithMemoryLimit_def NewLRUCache_def view_ok_def empty_view_def
        zero_cache_stats_def split: if_splits)
  have "v_entries (fold spec_call cs a) = take (nat cap) (fold (touch_history cap) cs h)"
    if "view_ok a" "v_ttl a = None" "v_limit a = 0" "v_capacity a = cap"
      "v_entries a = take (nat cap) h" "distinct (map fst h)" for a h
    using assms(2) that
  proof (induction cs arbitrary: a h)
    case (Cons c cs)
    have "view_ok (spec_call c a)"
      using Cons.prems(1,2)
      by (cases c) (simp_all add: spec_set_ok spec_get_ok)
    moreover have "same_config a (spec_call c a)" by (rule same_config_call)
    ultimately show ?case
      using Cons.IH [of "spec_call c a" "touch_history cap c h"] Cons.prems
        recency_step [of a c h] by (simp add: same_config_def)
  qed simp
  from this [OF ok0, of "[]"]
  have "v_entries (view t) = take (nat cap) (fold (touch_history cap) cs [])"
    unfolding t by (simp add: empty_view_def)
  then show ?thesis by (simp only: view_sel)
qed

theorem lru_keeps_most_recent_witness:
  "\<exists>s t. NewLRUCacheWithMemoryLimit 2 0 = Some s \<and>
     lru_run [CallSet ''a'' ''1'', CallSet ''b'' ''2'', CallGet 0 ''a'', CallSet ''c'' ''3''] s = Some t \<and>
     entries t = [(''c'', ''3''), (''a'', ''1'')]"
proof -
  let ?cs = "[CallSet ''a'' ''1'', CallSet ''b'' ''2'', CallGet 0 ''a'', CallSet ''c'' ''3'']"
  obtain s where s: "NewLRUCacheWithMemoryLimit 2 0 = Some s"
    using NewLRUCacheWithMemoryLimit_refines [of 2 0] by auto
  obtain t where t: "lru_run ?cs s = Some t" using lru_limit_run [OF s, of ?cs] by auto
  have "entries t = take (nat 2) (fold (touch_history 2) ?cs [])"
    by (rule lru_keeps_most_recent [OF s _ t]) simp
  also have "\<dots> = [(''c'', ''3''), (''a'', ''1'')]" by (simp add: numeral_2_eq_2)
  finally show ?thesis using s t by blast
qed

text \<open>C6: without expiry the memory account is exact: it is the sum of the sizes of the stored entries.
  Inserting a new key that fits the limit at all leaves the account within the limit.\<close>

theorem lru_memory_account:
  assumes "NewLRUCacheWithMemoryLimit cap limit = Some s" and "\<forall>c \<in> set cs. \<not> needs_ttl c"
    and "lru_run cs s = Some t"
  shows "lru_GetMemoryUsage t = (\<Sum>(k, v)\<leftarrow>entries t. calculateMemoryUsage k v) \<and>
    (0 < limit \<and> calculateMemoryUsage k v \<le> limit \<and> k \<notin> dom (lru_map t) \<longrightarrow>
      (\<exists>u. lru_Set k v t = Some u \<and> lru_GetMemoryUsage u \<le> limit))"
proof -
  have t: "lru_inv t" "lru_ttlMap t = None" "lru_memoryLimit t = limit"
    using lru_limit_run [OF assms(1,2)] assms(3) by auto
  have ok: "view_ok (view t)" using t(1) by (simp add: lru_inv_def)
  have exact: "lru_memoryUsage t = mem_sum (entries t)" using ok t(2) by (simp add: view_ok_def)
  have "\<exists>u. lru_Set k v t = Some u \<and> lru_GetMemoryUsage u \<le> limit"
    if lim: "0 < limit" "calculateMemoryUsage k v \<le> limit" and k: "k \<notin> dom (lru_map t)"
  proof -
    let ?m = "calculateMemoryUsage k v"
    define b where "b = spec_evict ?m (view t)"
    obtain u where u: "lru_Set k v t = Some u" "view u = spec_set k v (view t)"
      using lru_Set_refines [OF t(1)] by blast
    have none: "map_of (entries t) k = None" using k inv_lookup [OF t(1), of k] by auto
    have "spec_set k v (view t) = b\<lparr> v_entries := (k, v) # v_entries b, v_memory := v_memory b + ?m \<rparr>"
      using none lim t(3) by (simp add: spec_set_def Let_def b_def)
    then have "v_memory (view u) = v_memory b + ?m" unfolding u(2) by simp
    then have mu: "lru_memoryUsage u = v_memory b + ?m" by (simp only: view_sel)
    have b: "view_ok b" "v_ttl b = None" "v_limit b = limit"
      using ok spec_evict_frame [of ?m "view t"] t by (simp_all add: b_def spec_evict_ok)
    have "v_memory b = mem_sum (v_entries b)" using b(1,2) by (simp add: view_ok_def)
    moreover have "v_entries b = [] \<or> \<not> spec_full ?m b"
      unfolding b_def by (rule spec_evict_room)
    ultimately have "v_memory b + ?m \<le> limit"
      using lim b(3) by (auto simp: spec_full_def)
    with u mu show ?thesis by (simp add: lru_GetMemoryUsage_def)
  qed
  with exact show ?thesis by (simp add: lru_GetMemoryUsage_def mem_sum_def)
qed

theorem lru_memory_account_witness:
  "\<exists>s t. NewLRUCacheWithMemoryLimit 5 140 = Some s \<and> lru_run [CallSet ''a'' ''1'', CallSet ''b'' ''2''] s = Some t \<and>
     lru_GetMemoryUsage t = (\<Sum>(k, v)\<leftarrow>entries t. calculateMemoryUsage k v)"
proof -
  let ?cs = "[CallSet ''a'' ''1'', CallSet ''b'' ''2'']"
  obtain s where s: "NewLRUCacheWithMemoryLimit 5 140 = Some s"
    using NewLRUCacheWithMemoryLimit_refines [of 5 140] by auto
  obtain t where t: "lru_run ?cs s = Some t" using lru_limit_run [OF s, of ?cs] by auto
  show ?thesis using lru_memory_account [OF s _ t] s t by (intro exI [of _ s] exI [of _ t]) simp
qed

text \<open>C7: a pass of the expiry cleanup removes exactly the entries whose time has passed, whatever the
  order in which it visits the expiry map: the other entries stay, in their order, nothing expired is
  left, and the counter of cleaned keys grows by the number of expired keys.\<close>

theorem cleanup_removes_exactly_expired:
  assumes "NewLRUCacheWithCleanup cap iv = Some s" and "lru_run cs s = Some t"
    and "is_order (the (lru_ttlMap t)) order"
  shows "\<exists>u. cleanupExpiredkeys now order t = Some u \<and>
    entries u = filter (\<lambda>e. \<not> expired now (fst e) t) (entries t) \<and> (\<forall>k. \<not> expired now k u) \<and>
    CleanedKeys (lru_GetCleanupStats u) =
      CleanedKeys (lru_GetCleanupStats t) + int (card {k. expired now k t})"
proof -
  have "0 < cap"
    using assms(1) by (auto simp: NewLRUCacheWithCleanup_def NewLRUCache_def split: if_splits)
  then have t: "lru_inv t" "view t = fold spec_call cs (empty_view cap (Some Map.empty) 0)"
    using lru_cleanup_run [of cap iv cs] assms(1,2) by auto
  have "same_config (empty_view cap (Some Map.empty) 0) (view t)"
    unfolding t(2) by (rule same_config_fold [where p = "\<lambda>x. x"]) (rule same_config_call)
  then obtain m where m: "v_ttl (view t) = Some m" by (auto simp: same_config_def empty_view_def)
  have order: "distinct order" "set order = dom m"
    using assms(3) m by (auto simp: is_order_def)
  have exp_dom: "spec_expired now k (view t) \<Longrightarrow> k \<in> set order" for k
    unfolding order(2) using m by (auto simp: spec_expired_def split: option.splits)
  obtain c u where u: "cleanupExpiredkeys now order t = Some u"
    "(c, view u) = fold (spec_cleanup_step now) order (0, view t)"
    "lru_cleanupStats u = \<lparr> CleanedKeys = CleanedKeys (lru_cleanupStats t) + c,
      CleanupRuns = CleanupRuns (lru_cleanupStats t) + 1, LastCleanup = Some now \<rparr>"
    using cleanupExpiredkeys_refines [OF t(1)] by metis
  obtain a' where a': "fold (spec_cleanup_step now) order (0, view t) =
        (0 + int (card {k \<in> set order. spec_expired now k (view t)}), a')"
      "v_entries a' = filter (\<lambda>e. \<not> (fst e \<in> set order \<and> spec_expired now (fst e) (view t))) (v_entries (view t))"
      "v_ttl a' = Some (\<lambda>k. if k \<in> set order \<and> spec_expired now k (view t) then None else m k)"
    using spec_cleanup_exact [OF order(1) m] by blast
  have c: "c = int (card {k. spec_expired now k (view t)})" and vu: "view u = a'"
    using a'(1) u(2) exp_dom by (auto intro!: arg_cong [where f = card])
  have "entries u = v_entries (view u)" by simp
  also have "\<dots> = filter (\<lambda>e. \<not> spec_expired now (fst e) (view t)) (entries t)"
    unfolding vu a'(2) by (auto intro!: filter_cong dest: exp_dom)
  finally have es: "entries u = filter (\<lambda>e. \<not> expired now (fst e) t) (entries t)" by simp
  have "\<not> spec_expired now k (view u)" for k
    using exp_dom [of k] m by (auto simp: vu spec_expired_def a'(3))
  with es u(1,3) c show ?thesis by (auto simp: lru_GetCleanupStats_def)
qed

theorem cleanup_removes_exactly_expired_witness:
  "\<exists>s t u. NewLRUCacheWithCleanup 3 1 = Some s \<and>
     lru_run [CallSetWithTTL 0 ''a'' ''1'' 5, CallSetWithTTL 0 ''b'' ''2'' 50, CallSet ''c'' ''3''] s = Some t \<and>
     cleanupExpiredkeys 10 [''a'', ''b''] t = Some u \<and> entries u = [(''c'', ''3''), (''b'', ''2'')]"
proof -
  let ?cs = "[CallSetWithTTL 0 ''a'' ''1'' 5, CallSetWithTTL 0 ''b'' ''2'' 50, CallSet ''c'' ''3'']"
  obtain s t where st: "NewLRUCacheWithCleanup 3 1 = Some s" "lru_run ?cs s = Some t"
    "view t = fold spec_call ?cs (empty_view 3 (Some Map.empty) 0)"
    using lru_cleanup_run [of 3 1 ?cs] by auto
  let ?m = "[''a'' \<mapsto> 5, ''b'' \<mapsto> 50] :: string \<rightharpoonup> go_time"
  have v: "v_entries (view t) = [(''c'', ''3''), (''b'', ''2''), (''a'', ''1'')]" "v_ttl (view t) = Some ?m"
    unfolding st(3)
    by (simp_all add: empty_view_def spec_set_def spec_set_ttl_def spec_evict.simps spec_full_def
        calculateMemoryUsage_def)
  have ttl: "lru_ttlMap t = Some ?m" and es: "entries t = [(''c'', ''3''), (''b'', ''2''), (''a'', ''1'')]"
    using v by (simp_all only: view_sel)
  have "is_order (the (lru_ttlMap t)) [''a'', ''b'']"
    by (auto simp: ttl is_order_def)
  from cleanup_removes_exactly_expired [OF st(1,2) this, of 10]
  obtain u where u: "cleanupExpiredkeys 10 [''a'', ''b''] t = Some u"
    "entries u = filter (\<lambda>e. \<not> expired 10 (fst e) t) (entries t)" by blast
  have "entries u = [(''c'', ''3''), (''b'', ''2'')]"
    unfolding u(2) es by (simp add: spec_expired_def ttl)
  with st u show ?thesis by blast
qed

text \<open>A \<open>Get\<close> that finds its key expired reports a miss and removes the entry, but the memory
  account still counts its bytes.\<close>

theorem expired_get_leaks_account:
  assumes "lru_inv s" and "lru_map s k \<noteq> None" and "expired now k s"
  shows "\<exists>t. lru_Get now k s = Some (([], False), t) \<and> lru_map t k = None \<and>
    lru_GetMemoryUsage t = lru_GetMemoryUsage s \<and>
    (\<Sum>(k, v)\<leftarrow>entries t. calculateMemoryUsage k v) < lru_GetMemoryUsage t"
proof -
  obtain v where v: "map_of (entries s) k = Some v" using inv_lookup [OF assms(1), of k] assms(2) by auto
  obtain r t where t: "lru_Get now k s = Some (r, t)" "lru_inv t" "(r, view t) = spec_get now k (view s)"
    using lru_Get_refines [OF assms(1)] by metis
  have spec: "r = ([], False)" "view t = bump miss (spec_drop k (view s))"
    using t(3) v assms(3) by (simp_all add: spec_get_def)
  have ok: "mem_sum (entries s) \<le> lru_memoryUsage s"
    using assms(1) by (simp add: lru_inv_def view_ok_def)
  have "v_entries (view t) = del_key k (entries s)" "v_memory (view t) = lru_memoryUsage s"
    unfolding spec(2) by (simp_all add: bump_def spec_drop_def spec_ttl_del_def)
  then have es: "entries t = del_key k (entries s)" and mu: "lru_memoryUsage t = lru_memoryUsage s"
    by (simp_all only: view_sel)
  have "map_of (entries t) k = None" unfolding es by simp
  then have "lru_map t k = None" using inv_lookup [OF t(2), of k] by simp
  moreover have "mem_sum (entries t) < lru_memoryUsage t"
    using mem_sum_del_key [OF inv_distinct [OF assms(1)] v] calculateMemoryUsage_pos [of k v] ok es mu by simp
  ultimately show ?thesis
    using t(1) spec(1) mu by (simp add: lru_GetMemoryUsage_def mem_sum_def)
qed

theorem expired_get_leaks_account_witness:
  "\<exists>s t u. NewLRUCacheWithCleanup 3 1 = Some s \<and> lru_run [CallSetWithTTL 0 ''a'' ''1'' 5] s = Some t \<and>
     lru_Get 6 ''a'' t = Some (([], False), u) \<and> lru_GetMemoryUsage u = lru_GetMemoryUsage t"
proof -
  let ?cs = "[CallSetWithTTL 0 ''a'' ''1'' 5]"
  obtain s t where st: "NewLRUCacheWithCleanup 3 1 = Some s" "lru_run ?cs s = Some t" "lru_inv t"
    "view t = fold spec_call ?cs (empty_view 3 (Some Map.empty) 0)"
    using lru_cleanup_run [of 3 1 ?cs] by auto
  have v: "v_entries (view t) = [(''a'', ''1'')]" "v_ttl (view t) = Some [''a'' \<mapsto> 5]"
    unfolding st(4)
    by (simp_all add: empty_view_def spec_set_def spec_set_ttl_def spec_evict.simps spec_full_def
        calculateMemoryUsage_def)
  have "map_of (entries t) ''a'' = Some ''1''" using v(1) by simp
  then have "lru_map t ''a'' \<noteq> None" using inv_lookup [OF st(3), of "''a''"] by auto
  moreover have "expired 6 ''a'' t" using v(2) by (simp add: spec_expired_def)
  ultimately show ?thesis using expired_get_leaks_account [OF st(3)] st by blast
qed

text \<open>\<open>Set\<close> does not reset an expiry time the key got earlier: once that time has passed, the value
  just written is not returned.\<close>

theorem set_keeps_stale_expiry:
  assumes "lru_inv s" and "expired now k s"
    and "lru_memoryLimit s \<le> 0"
  shows "\<exists>t u. lru_Set k v s = Some t \<and> lru_map t k \<noteq> None \<and> lru_Get now k t = Some (([], False), u)"
proof -
  obtain t where t: "lru_Set k v s = Some t" "lru_inv t" "view t = spec_set k v (view s)"
    using lru_Set_refines [OF assms(1)] by blast
  have "v_ttl (view t) = v_ttl (view s)" "map_of (v_entries (view t)) k = Some v"
    using assms(3) by (simp_all only: t(3)) (simp_all add: spec_set_def Let_def spec_evict_frame split: option.split)
  then have exp: "spec_expired now k (view t)" and look: "map_of (entries t) k = Some v"
    using assms(2) by (simp_all add: spec_expired_def)
  obtain r u where u: "lru_Get now k t = Some (r, u)" "(r, view u) = spec_get now k (view t)"
    using lru_Get_refines [OF t(2)] by metis
  have "r = ([], False)" using u(2) exp look by (simp add: spec_get_def)
  moreover have "lru_map t k \<noteq> None" using inv_lookup [OF t(2), of k] look by (cases "lru_map t k") simp_all
  ultimately show ?thesis using t(1) u(1) by blast
qed

theorem set_keeps_stale_expiry_witness:
  "\<exists>s t u w. NewLRUCacheWithCleanup 3 1 = Some s \<and> lru_run [CallSetWithTTL 0 ''a'' ''1'' 5] s = Some t \<and>
     lru_Set ''a'' ''2'' t = Some u \<and> lru_Get 6 ''a'' u = Some (([], False), w)"
proof -
  let ?cs = "[CallSetWithTTL 0 ''a'' ''1'' 5]"
  obtain s t where st: "NewLRUCacheWithCleanup 3 1 = Some s" "lru_run ?cs s = Some t" "lru_inv t"
    "view t = fold spec_call ?cs (empty_view 3 (Some Map.empty) 0)"
    using lru_cleanup_run [of 3 1 ?cs] by auto
  have v: "v_ttl (view t) = Some [''a'' \<mapsto> 5]" "v_limit (view t) = 0"
    unfolding st(4)
    by (simp_all add: empty_view_def spec_set_def spec_set_ttl_def spec_evict.simps spec_full_def
        calculateMemoryUsage_def)
  have "expired 6 ''a'' t" using v(1) by (simp add: spec_expired_def)
  moreover have "lru_memoryLimit t \<le> 0" using v(2) by simp
  ultimately show ?thesis using set_keeps_stale_expiry [OF st(3)] st by blast
qed

end
