(* ===== verification/Cache_Contract.thy ===== *)
theory Cache_Contract
  imports Lru_Props
begin

text \<open>
  What the distributed layers rely on when they hold a cache per node. A cache may lose an entry
  whenever something is written (it is bounded), but it never invents or alters one: the locale
  \<open>lossy_cache\<close>. When there is room it loses nothing: \<open>roomy_cache\<close>. The lemmas of the locales are the
  facts on whole transfers (\<open>SetMulti\<close>, the redistribution after a node was removed, the copy of
  \<open>GetAllData\<close> of one cache into another). The last section interprets both on the pointer
  implementation of \<open>core/lrucache.go\<close> in the configuration the nodes use, without expiry and without
  a memory limit.
\<close>

section \<open>Contracts\<close>

locale lossy_cache =
  fixes inv :: "'s \<Rightarrow> bool"
    and abs :: "'s \<Rightarrow> ('k \<rightharpoonup> 'v)"
    and put :: "'k \<Rightarrow> 'v \<Rightarrow> 's \<Rightarrow> 's option"
    and del :: "'k \<Rightarrow> 's \<Rightarrow> (bool \<times> 's) option"
  assumes put_total: "inv s \<Longrightarrow> \<exists>t. put k v s = Some t"
    and put_inv: "inv s \<Longrightarrow> put k v s = Some t \<Longrightarrow> inv t"
    and put_same: "inv s \<Longrightarrow> put k v s = Some t \<Longrightarrow> abs t k = Some v"
    and put_other: "inv s \<Longrightarrow> put k v s = Some t \<Longrightarrow> k' \<noteq> k \<Longrightarrow> abs t k' = Some w \<Longrightarrow> abs s k' = Some w"
    and abs_finite: "inv s \<Longrightarrow> finite (dom (abs s))"
    and del_total: "inv s \<Longrightarrow> \<exists>t. del k s = Some (k \<in> dom (abs s), t)"
    and del_inv: "inv s \<Longrightarrow> del k s = Some (b, t) \<Longrightarrow> inv t"
    and del_abs: "inv s \<Longrightarrow> del k s = Some (b, t) \<Longrightarrow> abs t = (abs s)(k := None)"
begin

text \<open>Writing a list of pairs, in its order.\<close>

definition put_all :: "('k \<times> 'v) list \<Rightarrow> 's \<Rightarrow> 's option" where
  "put_all kvs s = foldM (\<lambda>(k, v). put k v) kvs s"

lemma put_all_total: "inv s \<Longrightarrow> \<exists>t. put_all kvs s = Some t \<and> inv t"
  unfolding put_all_def
  by (rule foldM_inv) (use put_total put_inv in \<open>auto split: prod.splits, blast\<close>)

lemma put_all_Cons:
  "put_all ((k, v) # kvs) s = Option.bind (put k v s) (put_all kvs)"
  by (cases "put k v s") (simp_all add: put_all_def)

text \<open>Nothing is invented: what is there afterwards was written or was there before.\<close>

lemma put_all_sound:
  assumes "inv s" "put_all kvs s = Some t" "abs t k = Some w"
  shows "(k, w) \<in> set kvs \<or> abs s k = Some w"
  using assms
proof (induction kvs arbitrary: s)
  case Nil
  then show ?case by (simp add: put_all_def)
next
  case (Cons kv kvs)
  obtain k1 v1 where kv: "kv = (k1, v1)" by (cases kv)
  obtain u where u: "put k1 v1 s = Some u" "put_all kvs u = Some t"
    using Cons.prems(2) by (auto simp: kv put_all_Cons bind_Some_iff)
  have "(k, w) \<in> set kvs \<or> abs u k = Some w"
    using Cons.IH [OF put_inv [OF Cons.prems(1) u(1)] u(2) Cons.prems(3)] .
  then show ?case
    using put_other [OF Cons.prems(1) u(1)] put_same [OF Cons.prems(1) u(1)] kv
    by (cases "k = k1") auto
qed

text \<open>When the keys are distinct, the values written are the only ones found under those keys.\<close>

lemma put_all_value:
  assumes "inv s" "put_all kvs s = Some t" "distinct (map fst kvs)" "(k, v) \<in> set kvs" "abs t k = Some w"
  shows "w = v"
  using assms
proof (induction kvs arbitrary: s)
  case (Cons kv kvs)
  obtain k1 v1 where kv: "kv = (k1, v1)" by (cases kv)
  obtain u where u: "put k1 v1 s = Some u" "put_all kvs u = Some t"
    using Cons.prems(2) by (auto simp: kv put_all_Cons bind_Some_iff)
  have iu: "inv u" by (rule put_inv [OF Cons.prems(1) u(1)])
  show ?case
  proof (cases "k = k1")
    case True
    then have "k \<notin> fst ` set kvs" "v = v1"
      using Cons.prems(3,4) kv by (auto simp: image_iff)
    then have "abs u k = Some w"
      using put_all_sound [OF iu u(2) Cons.prems(5)] by (auto simp: image_iff)
    then show ?thesis using put_same [OF Cons.prems(1) u(1)] True \<open>v = v1\<close> by simp
  next
    case False
    then show ?thesis using Cons.IH [OF iu u(2)] Cons.prems kv by auto
  qed
qed simp

end

text \<open>With room for a key, writing it changes nothing else.\<close>

locale roomy_cache = lossy_cache inv abs put del
  for inv :: "'s \<Rightarrow> bool" and abs :: "'s \<Rightarrow> ('k \<rightharpoonup> 'v)"
    and put :: "'k \<Rightarrow> 'v \<Rightarrow> 's \<Rightarrow> 's option" and del :: "'k \<Rightarrow> 's \<Rightarrow> (bool \<times> 's) option" +
  fixes cap :: nat
  assumes put_room: "inv s \<Longrightarrow> put k v s = Some t \<Longrightarrow> card (insert k (dom (abs s))) \<le> cap \<Longrightarrow>
      abs t = (abs s)(k \<mapsto> v)"
begin

lemma put_all_room:
  assumes "inv s" "put_all kvs s = Some t"
    and "card (fst ` set kvs \<union> dom (abs s)) \<le> cap"
  shows "abs t = fold (\<lambda>(k, v) m. m(k \<mapsto> v)) kvs (abs s)"
  using assms
proof (induction kvs arbitrary: s)
  case Nil
  then show ?case by (simp add: put_all_def)
next
  case (Cons kv kvs)
  obtain k1 v1 where kv: "kv = (k1, v1)" by (cases kv)
  obtain u where u: "put k1 v1 s = Some u" "put_all kvs u = Some t"
    using Cons.prems(2) by (auto simp: kv put_all_Cons bind_Some_iff)
  have fin: "finite (fst ` set kvs \<union> insert k1 (dom (abs s)))"
    using abs_finite [OF Cons.prems(1)] by simp
  have all: "card (fst ` set kvs \<union> insert k1 (dom (abs s))) \<le> cap"
    using Cons.prems(3) kv by simp
  then have "card (insert k1 (dom (abs s))) \<le> cap"
    using card_mono [OF fin Un_upper2] by (rule order_trans [rotated])
  then have au: "abs u = (abs s)(k1 \<mapsto> v1)" by (rule put_room [OF Cons.prems(1) u(1)])
  have "dom (abs u) = insert k1 (dom (abs s))" by (simp add: au)
  then have "abs t = fold (\<lambda>(k, v) m. m(k \<mapsto> v)) kvs (abs u)"
    using Cons.IH [OF put_inv [OF Cons.prems(1) u(1)] u(2)] all by (simp only:)
  then show ?case by (simp only: kv au fold_Cons comp_def prod.case)
qed

end

section \<open>The LRU cache keeps the contracts\<close>

text \<open>The configuration of a node's cache: built by \<open>NewLRUCache\<close>, so no expiry map and no limit.\<close>

definition node_cache :: "int \<Rightarrow> lru_cache \<Rightarrow> bool" where
  "node_cache cap s \<longleftrightarrow> lru_inv s \<and> lru_capacity s = cap \<and> lru_ttlMap s = None \<and> lru_memoryLimit s = 0"

definition contents :: "lru_cache \<Rightarrow> (string \<rightharpoonup> string)" where
  "contents s = map_of (entries s)"

lemma node_cache_new: "0 < cap \<Longrightarrow> \<exists>s. NewLRUCache cap = Some s \<and> node_cache cap s \<and> contents s = Map.empty"
proof -
  assume "0 < cap"
  then obtain s where s: "NewLRUCache cap = Some s" "lru_inv s" "view s = empty_view cap None 0"
    using NewLRUCache_refines by blast
  have "v_entries (view s) = [] \<and> v_capacity (view s) = cap \<and> v_ttl (view s) = None \<and> v_limit (view s) = 0"
    unfolding s(3) by (simp add: empty_view_def)
  then have "node_cache cap s \<and> contents s = Map.empty"
    using s(2) by (simp add: node_cache_def contents_def)
  with s(1) show ?thesis by blast
qed

lemma node_cache_Set:
  assumes "node_cache cap s"
  shows "\<exists>t. lru_Set k v s = Some t \<and> node_cache cap t \<and>
    entries t = take (nat cap) ((k, v) # del_key k (entries s))"
proof -
  have s: "lru_inv s" "view_ok (view s)" using assms by (simp_all add: node_cache_def lru_inv_def)
  obtain t where t: "lru_Set k v s = Some t" "lru_inv t" "view t = spec_set k v (view s)"
    using lru_Set_refines [OF s(1)] by blast
  have "same_config (view s) (view t)" unfolding t(3) by (rule same_config_set)
  then have "node_cache cap t" using assms t(2) by (simp add: same_config_def node_cache_def)
  moreover have "v_entries (view t) = take (nat cap) ((k, v) # del_key k (entries s))"
    unfolding t(3) using spec_set_plain [OF s(2)] assms by (simp add: node_cache_def)
  ultimately show ?thesis using t(1) by auto
qed

lemma node_cache_Get:
  assumes "node_cache cap s"
  shows "\<exists>t. lru_Get now k s =
      Some (case contents s k of None \<Rightarrow> ([], False) | Some v \<Rightarrow> (v, True), t) \<and>
    node_cache cap t \<and> contents t = contents s"
proof -
  have s: "lru_inv s" "lru_ttlMap s = None" using assms by (simp_all add: node_cache_def)
  obtain r t where t: "lru_Get now k s = Some (r, t)" "lru_inv t" "(r, view t) = spec_get now k (view s)"
    using lru_Get_refines [OF s(1)] by metis
  have live: "\<not> spec_expired now k (view s)" using s(2) by (simp add: spec_expired_def)
  have "spec_call (CallGet now k) (view s) = view t" by (simp flip: t(3))
  then have "same_config (view s) (view t)" by (metis same_config_call)
  then have "node_cache cap t" using assms t(2) by (simp add: same_config_def node_cache_def)
  moreover have "r = (case contents s k of None \<Rightarrow> ([], False) | Some v \<Rightarrow> (v, True))"
    using t(3) live by (auto simp: spec_get_def contents_def split: option.splits)
  moreover have "map_of (v_entries (view t)) = map_of (entries s)"
    using t(3) live
    by (cases "map_of (entries s) k")
      (auto simp: spec_get_def bump_def spec_touch_def fun_eq_iff dest!: arg_cong [where f = "snd"])
  ultimately show ?thesis using t(1) by (auto simp: contents_def)
qed

lemma node_cache_Delete:
  assumes "node_cache cap s"
  shows "\<exists>t. lru_Delete k s = Some (k \<in> dom (contents s), t) \<and> node_cache cap t \<and>
    contents t = (contents s)(k := None)"
proof -
  have s: "lru_inv s" using assms by (simp add: node_cache_def)
  obtain r t where t: "lru_Delete k s = Some (r, t)" "lru_inv t" "(r, view t) = spec_delete k (view s)"
    using lru_Delete_refines [OF s(1)] by metis
  have vt: "view t = snd (spec_delete k (view s))" by (simp flip: t(3))
  have "same_config (view s) (view t)" unfolding vt by (rule same_config_delete)
  then have "node_cache cap t" using assms t(2) by (simp add: same_config_def node_cache_def)
  moreover have "v_entries (view t) = del_key k (entries s)"
    unfolding vt spec_delete_entries by simp
  moreover have "r = (k \<in> dom (contents s))"
    using t(3) by (auto simp: spec_delete_def contents_def split: option.splits)
  ultimately show ?thesis using t(1) by (auto simp: contents_def)
qed

lemma contents_take: "map_of (take n es) k = Some v \<Longrightarrow> distinct (map fst es) \<Longrightarrow> map_of es k = Some v"
  by (metis map_of_SomeD in_set_takeD map_of_is_SomeI)

lemma node_cache_distinct: "node_cache cap s \<Longrightarrow> distinct (map fst (entries s))"
  by (simp add: node_cache_def inv_distinct)

lemma card_contents: "node_cache cap s \<Longrightarrow> card (dom (contents s)) = length (entries s)"
  using node_cache_distinct
  by (metis contents_def distinct_card dom_map_of_conv_image_fst length_map set_map)

interpretation node_lru: roomy_cache "node_cache cap" contents lru_Set lru_Delete "nat cap" for cap
proof unfold_locales
  fix s t :: lru_cache and k k' v w
  assume s: "node_cache cap s"
  note d = node_cache_distinct [OF s]
  show "\<exists>t. lru_Set k v s = Some t" using node_cache_Set [OF s] by blast
  show "finite (dom (contents s))" by (simp add: contents_def finite_dom_map_of)
  show "\<exists>t. lru_Delete k s = Some (k \<in> dom (contents s), t)" using node_cache_Delete [OF s] by blast
  {
    fix b t assume t: "lru_Delete k s = Some (b, t)"
    show "node_cache cap t" "contents t = (contents s)(k := None)"
      using node_cache_Delete [OF s, of k] t by auto
  }
  assume t: "lru_Set k v s = Some t"
  have nt: "node_cache cap t" and es: "entries t = take (nat cap) ((k, v) # del_key k (entries s))"
    using node_cache_Set [OF s, of k v] t by auto
  show "node_cache cap t" by (fact nt)
  have cap: "0 < nat cap" using s by (auto simp: node_cache_def lru_inv_def view_ok_def)
  then show "contents t k = Some v" unfolding contents_def es by (cases "nat cap") simp_all
  have d': "distinct (map fst ((k, v) # del_key k (entries s)))" using d by auto
  {
    assume "k' \<noteq> k" "contents t k' = Some w"
    then show "contents s k' = Some w"
      using contents_take [of "nat cap" "(k, v) # del_key k (entries s)" k' w] d' es
      by (simp add: contents_def)
  }
  assume room: "card (insert k (dom (contents s))) \<le> nat cap"
  have "length ((k, v) # del_key k (entries s)) = card (fst ` set ((k, v) # del_key k (entries s)))"
    using d' by (metis distinct_card length_map set_map)
  also have "fst ` set ((k, v) # del_key k (entries s)) = insert k (dom (contents s))"
    by (force simp: contents_def dom_map_of_conv_image_fst)
  finally have "entries t = (k, v) # del_key k (entries s)" using room es by simp
  then show "contents t = (contents s)(k \<mapsto> v)" by (simp add: contents_def)
qed

section \<open>Snapshots\<close>

lemma GetAllData_entries:
  assumes "lru_inv s"
  shows "lru_GetAllData clk s k =
    (if expired (clk k) k s then None else map_of (entries s) k)"
  using inv_lookup [OF assms, of k]
  by (cases "lru_map s k") (simp_all add: lru_GetAllData_def)

lemma GetAllData_node_cache: "node_cache cap s \<Longrightarrow> lru_GetAllData clk s = contents s"
  by (rule ext) (simp add: GetAllData_entries node_cache_def contents_def spec_expired_def)

end
