(* ===== verification/Ring_Arcs.thy ===== *)
theory Ring_Arcs
  imports Prelude
begin

text \<open>
  Consistent hashing in the abstract. \<open>ring_succ S h\<close> is the position that serves the hash \<open>h\<close> on a
  ring with the positions \<open>S\<close>: the least position that is not below \<open>h\<close>, and the least of all when
  there is none. The locale \<open>consistent_ring\<close> is the contract of a ring implementation (its look-up
  agrees with \<open>ring_succ\<close>); its lemmas say what adding and removing a node can change. The three rings
  of the program (\<open>core/distributed_cache.go\<close> and the two of the tutorial) interpret it.
\<close>

definition ring_succ :: "'h::linorder set \<Rightarrow> 'h \<Rightarrow> 'h" where
  "ring_succ S h = (if \<exists>x \<in> S. h \<le> x then Min {x \<in> S. h \<le> x} else Min S)"

lemma ring_succ_in: "finite S \<Longrightarrow> S \<noteq> {} \<Longrightarrow> ring_succ S h \<in> S"
proof -
  assume S: "finite S" "S \<noteq> {}"
  show ?thesis
  proof (cases "\<exists>x \<in> S. h \<le> x")
    case True
    then have "Min {x \<in> S. h \<le> x} \<in> {x \<in> S. h \<le> x}" using S(1) by (intro Min_in) auto
    then show ?thesis using True by (simp add: ring_succ_def)
  qed (use S Min_in in \<open>simp add: ring_succ_def\<close>)
qed

lemma ring_succ_single [simp]: "ring_succ {p} h = p"
  using ring_succ_in [of "{p}" h] by simp

text \<open>The look-up on a sorted list of positions: the first one not below \<open>h\<close>, else the first.\<close>

lemma ring_succ_sorted:
  assumes "sorted xs" "xs \<noteq> []"
  shows "ring_succ (set xs) h =
    (let i = length (takeWhile (\<lambda>y. y < h) xs) in xs ! (if i = length xs then 0 else i))"
proof (cases "\<exists>x \<in> set xs. h \<le> x")
  case True
  let ?t = "takeWhile (\<lambda>y. y < h) xs"
  have ne: "length ?t \<noteq> length xs"
  proof
    assume "length ?t = length xs"
    then have "?t = xs" by (metis takeWhile_eq_take take_all_iff order_refl)
    then show False using True by (metis leD set_takeWhileD)
  qed
  then have lt: "length ?t < length xs" by (simp add: le_neq_implies_less length_takeWhile_le)
  have d: "dropWhile (\<lambda>y. y < h) xs = filter (\<lambda>y. h \<le> y) xs"
    by (rule sorted_takeWhile_less [OF assms(1)])
  have ne': "filter (\<lambda>y. h \<le> y) xs \<noteq> []" using True by (simp add: filter_empty_conv)
  have "xs ! length ?t = hd (filter (\<lambda>y. h \<le> y) xs)"
    using nth_length_takeWhile_eq [OF lt] d by simp
  also have "\<dots> = Min {x \<in> set xs. h \<le> x}"
    using hd_sorted_Min [OF sorted_wrt_filter [OF assms(1)] ne'] by simp
  finally show ?thesis using True ne by (simp add: ring_succ_def Let_def)
next
  case False
  then have tw: "takeWhile (\<lambda>y. y < h) xs = xs" by (simp add: takeWhile_eq_all_conv not_le)
  show ?thesis
    using False assms unfolding tw by (simp add: ring_succ_def Let_def hd_sorted_Min flip: hd_conv_nth)
qed

text \<open>A position that serves \<open>h\<close> still does when other positions leave the ring.\<close>

lemma ring_succ_remove:
  assumes "finite S" "ring_succ S h \<in> T" "T \<subseteq> S"
  shows "ring_succ T h = ring_succ S h"
proof -
  have fin: "finite T" using assms(1,3) by (rule rev_finite_subset)
  show ?thesis
  proof (cases "\<exists>x \<in> S. h \<le> x")
    case True
    let ?m = "Min {x \<in> S. h \<le> x}"
    have m: "ring_succ S h = ?m" using True by (simp add: ring_succ_def)
    have "?m \<in> {x \<in> S. h \<le> x}" using True assms(1) by (intro Min_in) auto
    then have mT: "?m \<in> T" "h \<le> ?m" using assms(2) m by auto
    have "Min {x \<in> T. h \<le> x} = ?m"
      using fin mT assms(1,3) by (intro Min_eqI) (auto intro!: Min_le)
    then show ?thesis using mT m by (auto simp: ring_succ_def)
  next
    case False
    then have m: "ring_succ S h = Min S" by (simp add: ring_succ_def)
    have "Min T = Min S"
      using fin assms m by (intro Min_eqI) (auto intro!: Min_le)
    then show ?thesis using False assms(3) m by (auto simp: ring_succ_def)
  qed
qed

text \<open>
  The arc lemma behind migration: when a new position takes over \<open>h\<close>, the old ring serves the new
  position from the same place as \<open>h\<close>.
\<close>

lemma ring_succ_arc:
  assumes "finite S" "finite N" "S \<noteq> {}"
  shows "ring_succ S (ring_succ (S \<union> N) h) = ring_succ S h"
proof (cases "\<exists>x \<in> S \<union> N. h \<le> x")
  case True
  let ?x = "Min {x \<in> S \<union> N. h \<le> x}"
  have x: "ring_succ (S \<union> N) h = ?x" using True by (simp add: ring_succ_def)
  have fin: "finite {x \<in> S \<union> N. h \<le> x}" using assms(1,2) by simp
  have "?x \<in> {x \<in> S \<union> N. h \<le> x}" using True assms(1,2) by (intro Min_in) auto
  then have "h \<le> ?x" by blast
  then have "?x \<le> y \<longleftrightarrow> h \<le> y" if "y \<in> S" for y
    using that Min_le [OF fin, of y] by (auto intro: order_trans)
  then have "{y \<in> S. ?x \<le> y} = {y \<in> S. h \<le> y}" "(\<exists>y \<in> S. ?x \<le> y) = (\<exists>y \<in> S. h \<le> y)"
    by auto
  then show ?thesis unfolding x by (simp add: ring_succ_def)
next
  case False
  let ?x = "Min (S \<union> N)"
  have x: "ring_succ (S \<union> N) h = ?x" using False by (simp add: ring_succ_def)
  have "?x \<le> y" if "y \<in> S" for y using that assms(1,2) by (intro Min_le) auto
  then have "{y \<in> S. ?x \<le> y} = S" "\<exists>y \<in> S. ?x \<le> y" using assms(3) by auto
  then have "ring_succ S ?x = Min S" by (simp add: ring_succ_def)
  then show ?thesis using False unfolding x by (auto simp: ring_succ_def)
qed

section \<open>The contract of a ring\<close>

locale consistent_ring =
  fixes inv :: "'r \<Rightarrow> bool"
    and pos :: "'r \<Rightarrow> ('h::linorder \<rightharpoonup> 'n)"
    and locate :: "'r \<Rightarrow> 'h \<Rightarrow> 'n option"
  assumes fin: "inv r \<Longrightarrow> finite (dom (pos r))"
    and locate_succ: "inv r \<Longrightarrow> dom (pos r) \<noteq> {} \<Longrightarrow>
      locate r h = pos r (ring_succ (dom (pos r)) h)"
begin

lemma locate_total:
  assumes "inv r" "dom (pos r) \<noteq> {}"
  obtains n where "locate r h = Some n" "n \<in> ran (pos r)"
proof -
  have "ring_succ (dom (pos r)) h \<in> dom (pos r)"
    using assms fin by (intro ring_succ_in)
  then obtain n where "pos r (ring_succ (dom (pos r)) h) = Some n" by blast
  then show thesis using assms by (intro that [of n]) (auto simp: locate_succ ran_def)
qed

text \<open>Adding a node moves hashes to the new node only.\<close>

lemma add_node_monotone:
  assumes "inv r" "inv r'" "dom (pos r) \<noteq> {}" "finite N"
    and r': "pos r' = pos r ++ (\<lambda>x. if x \<in> N then Some n else None)"
  shows "locate r' h = locate r h \<or> locate r' h = Some n"
proof (cases "ring_succ (dom (pos r')) h \<in> N")
  case True
  have "dom (pos r') \<noteq> {}" using assms(3) r' by auto
  then have "locate r' h = Some n" using True assms(2) by (simp add: locate_succ) (simp add: r')
  then show ?thesis by simp
next
  case False
  have ne: "dom (pos r') \<noteq> {}" using assms(3) r' by auto
  have sub: "dom (pos r) \<subseteq> dom (pos r')" by (auto simp: r')
  have "ring_succ (dom (pos r')) h \<in> dom (pos r')" using fin assms(2) ne by (intro ring_succ_in) auto
  then have "ring_succ (dom (pos r')) h \<in> dom (pos r)" using False by (auto simp: r' split: if_splits)
  then have "ring_succ (dom (pos r)) h = ring_succ (dom (pos r')) h"
    using fin assms(2) sub by (intro ring_succ_remove) auto
  then show ?thesis
    using locate_succ [OF assms(1,3), of h] locate_succ [OF assms(2) ne, of h] False
    by (simp add: r' map_add_def)
qed

text \<open>Removing a node leaves every hash the node did not serve where it was.\<close>

lemma remove_node_monotone:
  assumes "inv r" "inv r'" "dom (pos r) \<noteq> {}"
    and r': "pos r' = (\<lambda>x. if pos r x = Some n then None else pos r x)"
    and other: "locate r h \<noteq> Some n"
  shows "locate r' h = locate r h"
proof -
  let ?x = "ring_succ (dom (pos r)) h"
  have "?x \<in> dom (pos r)" using fin assms(1,3) by (intro ring_succ_in) auto
  moreover have "pos r ?x \<noteq> Some n" using other locate_succ [OF assms(1,3)] by simp
  ultimately have x: "?x \<in> dom (pos r')" by (auto simp: r')
  have sub: "dom (pos r') \<subseteq> dom (pos r)" by (auto simp: r' split: if_splits)
  have "ring_succ (dom (pos r')) h = ?x"
    using fin assms(1) x sub by (intro ring_succ_remove) auto
  moreover have "dom (pos r') \<noteq> {}" using x by auto
  ultimately show ?thesis
    using locate_succ [OF assms(1,3)] locate_succ [OF assms(2)] \<open>pos r ?x \<noteq> Some n\<close>
    by (simp add: r')
qed

end

end
