(* ===== verification/Sha1.thy ===== *)
theory Sha1
  imports Prelude
begin

text \<open>
  \<open>crypto/sha1\<close>, the hash behind the ring of \<open>core/distributed_cache.go\<close>, and \<open>hashKey\<close>, which reads
  the first four bytes of the digest as a big-endian \<open>uint32\<close>. The theorems on the ring never
  depend on which function this is.
\<close>

unbundle bit_operations_syntax

type_synonym uint8 = "8 word"
type_synonym uint32 = "32 word"

definition bytes :: "string \<Rightarrow> uint8 list" where
  "bytes s = map of_char s"

definition rotl32 :: "nat \<Rightarrow> uint32 \<Rightarrow> uint32" where
  "rotl32 n x = (push_bit n x OR drop_bit (32 - n) x)"

definition be_word :: "uint8 list \<Rightarrow> uint32" where
  "be_word bs = foldl (\<lambda>a b. push_bit 8 a OR ucast b) 0 bs"

fun be_words :: "uint8 list \<Rightarrow> uint32 list" where
  "be_words (a # b # c # d # r) = be_word [a, b, c, d] # be_words r"
| "be_words _ = []"

definition word_bytes :: "uint32 \<Rightarrow> uint8 list" where
  "word_bytes w = [ucast (drop_bit 24 w), ucast (drop_bit 16 w), ucast (drop_bit 8 w), ucast w]"

text \<open>Padding: a one bit, zeros up to 56 modulo 64 bytes, the length in bits as 64 bits.\<close>

definition sha1_pad :: "uint8 list \<Rightarrow> uint8 list" where
  "sha1_pad m =
     (let n = length m; bits = (of_nat (8 * n) :: 64 word) in
      m @ [0x80] @ replicate ((119 - n mod 64) mod 64) 0 @
      word_bytes (ucast (drop_bit 32 bits)) @ word_bytes (ucast bits))"

text \<open>The message schedule, newest word first while it is extended to 80 words.\<close>

definition sched_next :: "uint32 list \<Rightarrow> uint32" where
  "sched_next r = rotl32 1 (r ! 2 XOR r ! 7 XOR r ! 13 XOR r ! 15)"

fun sched :: "nat \<Rightarrow> uint32 list \<Rightarrow> uint32 list" where
  "sched 0 r = rev r"
| "sched (Suc n) r = sched n (sched_next r # r)"

definition sha1_f :: "nat \<Rightarrow> uint32 \<Rightarrow> uint32 \<Rightarrow> uint32 \<Rightarrow> uint32" where
  "sha1_f t b c d =
     (if t < 20 then (b AND c) OR (NOT b AND d)
      else if t < 40 then b XOR c XOR d
      else if t < 60 then (b AND c) OR (b AND d) OR (c AND d)
      else b XOR c XOR d)"

definition sha1_k :: "nat \<Rightarrow> uint32" where
  "sha1_k t = (if t < 20 then 0x5A827999 else if t < 40 then 0x6ED9EBA1
     else if t < 60 then 0x8F1BBCDC else 0xCA62C1D6)"

type_synonym sha1_state = "uint32 \<times> uint32 \<times> uint32 \<times> uint32 \<times> uint32"

fun sha1_rounds :: "nat \<Rightarrow> uint32 list \<Rightarrow> sha1_state \<Rightarrow> sha1_state" where
  "sha1_rounds t [] st = st"
| "sha1_rounds t (w # ws) (a, b, c, d, e) =
     sha1_rounds (Suc t) ws
       (rotl32 5 a + sha1_f t b c d + e + sha1_k t + w, a, rotl32 30 b, c, d)"

definition sha1_block :: "sha1_state \<Rightarrow> uint32 list \<Rightarrow> sha1_state" where
  "sha1_block st ws = (case st of (h0, h1, h2, h3, h4) \<Rightarrow>
     (case sha1_rounds 0 (sched 64 (rev ws)) st of (a, b, c, d, e) \<Rightarrow>
       (h0 + a, h1 + b, h2 + c, h3 + d, h4 + e)))"

fun sha1_blocks :: "nat \<Rightarrow> sha1_state \<Rightarrow> uint32 list \<Rightarrow> sha1_state" where
  "sha1_blocks 0 st ws = st"
| "sha1_blocks (Suc n) st ws = sha1_blocks n (sha1_block st (take 16 ws)) (drop 16 ws)"

definition sha1_Sum :: "uint8 list \<Rightarrow> uint8 list" where
  "sha1_Sum m =
     (let ws = be_words (sha1_pad m) in
      case sha1_blocks (length ws div 16)
             (0x67452301, 0xEFCDAB89, 0x98BADCFE, 0x10325476, 0xC3D2E1F0) ws of
        (a, b, c, d, e) \<Rightarrow> word_bytes a @ word_bytes b @ word_bytes c @ word_bytes d @ word_bytes e)"

text \<open>The digest has 20 bytes, so the indexing in \<open>hashKey\<close> never panics.\<close>

lemma length_sha1_Sum: "length (sha1_Sum m) = 20"
  by (simp add: sha1_Sum_def Let_def word_bytes_def split: prod.split)

definition hashKey :: "string \<Rightarrow> uint32" where
  "hashKey key =
     (let hashBytes = sha1_Sum (bytes key) in
      push_bit 24 (ucast (hashBytes ! 0)) + push_bit 16 (ucast (hashBytes ! 1)) +
      push_bit 8 (ucast (hashBytes ! 2)) + ucast (hashBytes ! 3))"

end
