(* ===== verification/Dist_Cache.thy ===== *)
theory Dist_Cache
  imports Cache_Contract Ring_Arcs Sha1
begin

text \<open>
  \<open>core/distributed_cache.go\<close>: the hash ring with virtual nodes and the cache per node behind it.
  \<open>HashRing\<close> and \<open>LocalCaches\<close> are maps, \<open>SortedHashes\<close> is the sorted list the binary search runs on.
  Indexing an empty ring panics, as in the source. The orders in which Go visits \<open>HashRing\<close> and the
  snapshot of a cache are arguments; \<open>now\<close> is the clock the caches read.
\<close>

section \<open>State and ring\<close>

record migration_stats =
  MigratedKeys :: int
  Duration :: duration
  LastMigration :: "go_time option"

record dist_cache =
  HashRing :: "uint32 \<rightharpoonup> string"
  Nodes :: "string list"
  VirtualNodes :: int
  SortedHashes :: "uint32 list"
  LocalCaches :: "string \<rightharpoonup> lru_cache"
  BasicStats :: migration_stats

definition virtual_hash :: "string \<Rightarrow> nat \<Rightarrow> uint32" where
  "virtual_hash node i = hashKey (node @ ''#'' @ Itoa i)"

definition add_virtual :: "string \<Rightarrow> nat \<Rightarrow> dist_cache \<Rightarrow> dist_cache" where
  "add_virtual node i dc =
     dc\<lparr> HashRing := (HashRing dc)(virtual_hash node i \<mapsto> node),
         SortedHashes := SortedHashes dc @ [virtual_hash node i] \<rparr>"

definition addNodeToHashRing :: "string \<Rightarrow> dist_cache \<Rightarrow> dist_cache" where
  "addNodeToHashRing node dc =
     (let dc1 = fold (add_virtual node) [0..<nat (VirtualNodes dc)] dc
      in dc1\<lparr> SortedHashes := sort (SortedHashes dc1) \<rparr>)"

definition buildHashRing :: "dist_cache \<Rightarrow> dist_cache" where
  "buildHashRing dc =
     fold addNodeToHashRing (Nodes dc) (dc\<lparr> HashRing := Map.empty, SortedHashes := [] \<rparr>)"

definition new_local_cache :: "string \<Rightarrow> dist_cache \<Rightarrow> dist_cache option" where
  "new_local_cache node dc = do {
     c \<leftarrow> NewLRUCache 1000;
     Some (dc\<lparr> LocalCaches := (LocalCaches dc)(node \<mapsto> c) \<rparr>)
   }"

definition NewDistributedCacheWithVirtualNodes :: "string list \<Rightarrow> int \<Rightarrow> dist_cache option" where
  "NewDistributedCacheWithVirtualNodes nodes virtualNodeCount =
     (let dc = buildHashRing
        \<lparr> HashRing = Map.empty, Nodes = nodes, VirtualNodes = virtualNodeCount, SortedHashes = [],
          LocalCaches = Map.empty,
          BasicStats = \<lparr> MigratedKeys = 0, Duration = 0, LastMigration = None \<rparr> \<rparr>
      in foldM new_local_cache nodes dc)"

definition NewDistributedCache :: "string list \<Rightarrow> dist_cache option" where
  "NewDistributedCache nodes = NewDistributedCacheWithVirtualNodes nodes 150"

text \<open>Reading a key that a \<open>map[uint32]string\<close> does not have gives the empty string.\<close>

definition ring_node :: "dist_cache \<Rightarrow> uint32 \<Rightarrow> string" where
  "ring_node dc h = (case HashRing dc h of None \<Rightarrow> [] | Some n \<Rightarrow> n)"

definition search_hash :: "uint32 list \<Rightarrow> uint32 \<Rightarrow> uint32 option" where
  "search_hash hs h =
     (let idx = sort_Search (length hs) (\<lambda>i. h \<le> hs ! i);
          idx = (if idx = length hs then 0 else idx)
      in if idx < length hs then Some (hs ! idx) else panic)"

definition getNodeForKeyUnsafe :: "string \<Rightarrow> dist_cache \<Rightarrow> string option" where
  "getNodeForKeyUnsafe key dc = do {
     nodeHash \<leftarrow> search_hash (SortedHashes dc) (hashKey key);
     Some (ring_node dc nodeHash)
   }"

definition GetNodeForKey :: "string \<Rightarrow> dist_cache \<Rightarrow> string option" where
  "GetNodeForKey key dc = getNodeForKeyUnsafe key dc"

text \<open>
  \<open>order\<close> is the order in which \<open>range dc.HashRing\<close> yields the positions. The capacity given to
  \<open>make\<close> must not be negative.
\<close>

definition removeNodeFromHashRing :: "uint32 list \<Rightarrow> string \<Rightarrow> dist_cache \<Rightarrow> dist_cache option" where
  "removeNodeFromHashRing order node dc =
     (let nodesToRemove = filter (\<lambda>h. HashRing dc h = Some node) order;
          dc1 = fold (\<lambda>h d. d\<lparr> HashRing := (HashRing d)(h := None) \<rparr>) nodesToRemove dc
      in if length (SortedHashes dc1) < length nodesToRemove then panic
         else Some (dc1\<lparr> SortedHashes := filter (\<lambda>h. ring_node dc1 h \<noteq> []) (SortedHashes dc1) \<rparr>))"

definition removeNodeFromNodes :: "string \<Rightarrow> dist_cache \<Rightarrow> dist_cache" where
  "removeNodeFromNodes node dc = dc\<lparr> Nodes := remove1 node (Nodes dc) \<rparr>"

section \<open>Reading and writing\<close>

datatype dc_error = NodeMissing string

type_synonym 'a dc_result = "dc_error + 'a"

definition dc_Set :: "string \<Rightarrow> string \<Rightarrow> dist_cache \<Rightarrow> (unit dc_result \<times> dist_cache) option" where
  "dc_Set key value dc = do {
     node \<leftarrow> GetNodeForKey key dc;
     case LocalCaches dc node of
       None \<Rightarrow> Some (Inl (NodeMissing node), dc)
     | Some cache \<Rightarrow> do {
         cache' \<leftarrow> lru_Set key value cache;
         Some (Inr (), dc\<lparr> LocalCaches := (LocalCaches dc)(node \<mapsto> cache') \<rparr>)
       }
   }"

definition dc_Get ::
  "go_time \<Rightarrow> string \<Rightarrow> dist_cache \<Rightarrow> ((string \<times> bool) dc_result \<times> dist_cache) option" where
  "dc_Get now key dc = do {
     node \<leftarrow> GetNodeForKey key dc;
     case LocalCaches dc node of
       None \<Rightarrow> Some (Inl (NodeMissing node), dc)
     | Some cache \<Rightarrow> do {
         (r, cache') \<leftarrow> lru_Get now key cache;
         Some (Inr r, dc\<lparr> LocalCaches := (LocalCaches dc)(node \<mapsto> cache') \<rparr>)
       }
   }"

definition dc_Delete :: "string \<Rightarrow> dist_cache \<Rightarrow> (unit dc_result \<times> dist_cache) option" where
  "dc_Delete key dc = do {
     node \<leftarrow> GetNodeForKey key dc;
     case LocalCaches dc node of
       None \<Rightarrow> Some (Inl (NodeMissing node), dc)
     | Some cache \<Rightarrow> do {
         (_, cache') \<leftarrow> lru_Delete key cache;
         Some (Inr (), dc\<lparr> LocalCaches := (LocalCaches dc)(node \<mapsto> cache') \<rparr>)
       }
   }"

record cluster_stats =
  total_Hits :: int
  total_Misses :: int
  total_Size :: int

text \<open>\<open>order\<close> is the order in which \<open>range dc.LocalCaches\<close> yields the nodes.\<close>

definition dc_GetStats :: "string list \<Rightarrow> dist_cache \<Rightarrow> cluster_stats" where
  "dc_GetStats order dc =
     fold (\<lambda>node st. case LocalCaches dc node of None \<Rightarrow> st | Some cache \<Rightarrow>
         st\<lparr> total_Hits := total_Hits st + Hits (lru_GetStats cache),
             total_Misses := total_Misses st + Misses (lru_GetStats cache),
             total_Size := total_Size st + lru_Size cache \<rparr>)
       order \<lparr> total_Hits = 0, total_Misses = 0, total_Size = 0 \<rparr>"

definition GetMigrationStats :: "dist_cache \<Rightarrow> migration_stats" where
  "GetMigrationStats dc = BasicStats dc"

section \<open>Adding and removing nodes\<close>

definition updateBasicMigrationStats :: "go_time \<Rightarrow> int \<Rightarrow> duration \<Rightarrow> dist_cache \<Rightarrow> dist_cache" where
  "updateBasicMigrationStats now migratedCount d dc =
     dc\<lparr> BasicStats := \<lparr> MigratedKeys = MigratedKeys (BasicStats dc) + migratedCount,
                          Duration = d, LastMigration = Some now \<rparr> \<rparr>"

text \<open>The source finds the node of the target hash by scanning the map, whose keys are unique.\<close>

definition findResponsibleNodeInOldRing :: "uint32 \<Rightarrow> uint32 list \<Rightarrow> dist_cache \<Rightarrow> string" where
  "findResponsibleNodeInOldRing h oldSortedHashes dc =
     (if oldSortedHashes = [] then []
      else case search_hash oldSortedHashes h of None \<Rightarrow> [] | Some targetHash \<Rightarrow> ring_node dc targetHash)"

text \<open>The oracle \<open>ord\<close> gives the order in which \<open>range\<close> visits a snapshot.\<close>

type_synonym visit = "(string \<rightharpoonup> string) \<Rightarrow> string list"

definition migrate_key ::
  "string \<Rightarrow> string \<Rightarrow> (string \<rightharpoonup> string) \<Rightarrow> string \<Rightarrow> int \<times> dist_cache \<Rightarrow> (int \<times> dist_cache) option" where
  "migrate_key newNode old allData key cd = (case cd of (migratedCount, dc) \<Rightarrow> do {
     value \<leftarrow> allData key;
     currentResponsibleNode \<leftarrow> getNodeForKeyUnsafe key dc;
     if currentResponsibleNode = newNode then do {
       nc \<leftarrow> LocalCaches dc newNode;
       nc' \<leftarrow> lru_Set key value nc;
       let dc1 = dc\<lparr> LocalCaches := (LocalCaches dc)(newNode \<mapsto> nc') \<rparr>;
       oc \<leftarrow> LocalCaches dc1 old;
       (_, oc') \<leftarrow> lru_Delete key oc;
       Some (migratedCount + 1, dc1\<lparr> LocalCaches := (LocalCaches dc1)(old \<mapsto> oc') \<rparr>)
     } else Some (migratedCount, dc)
   })"

definition migrate_position ::
  "go_time \<Rightarrow> visit \<Rightarrow> string \<Rightarrow> uint32 list \<Rightarrow> uint32 \<Rightarrow> int \<times> dist_cache \<Rightarrow> (int \<times> dist_cache) option" where
  "migrate_position now ord newNode oldSortedHashes newHash cd =
     (let old = findResponsibleNodeInOldRing newHash oldSortedHashes (snd cd) in
      if old = [] \<or> old = newNode then Some cd
      else case LocalCaches (snd cd) old of
        None \<Rightarrow> Some cd
      | Some oldCache \<Rightarrow>
          let allData = lru_GetAllData (\<lambda>_. now) oldCache
          in foldM (migrate_key newNode old allData) (ord allData) cd)"

text \<open>\<open>order\<close> is the order in which \<open>range dc.HashRing\<close> yields the positions.\<close>

definition migrateDataForAddedNode ::
  "go_time \<Rightarrow> visit \<Rightarrow> uint32 list \<Rightarrow> string \<Rightarrow> uint32 list \<Rightarrow> dist_cache \<Rightarrow> (int \<times> dist_cache) option" where
  "migrateDataForAddedNode now ord order newNode oldSortedHashes dc =
     (let newNodeHashes = filter (\<lambda>h. HashRing dc h = Some newNode) order
      in foldM (migrate_position now ord newNode oldSortedHashes) newNodeHashes (0, dc))"

text \<open>\<open>d\<close> is \<open>time.Since(startTime)\<close>.\<close>

definition dc_AddNode ::
  "go_time \<Rightarrow> duration \<Rightarrow> visit \<Rightarrow> (dist_cache \<Rightarrow> uint32 list) \<Rightarrow> string \<Rightarrow> dist_cache \<Rightarrow> dist_cache option" where
  "dc_AddNode now d ord ring_order node dc = do {
     let oldSortedHashes = SortedHashes dc;
     let dc1 = dc\<lparr> Nodes := Nodes dc @ [node] \<rparr>;
     dc2 \<leftarrow> new_local_cache node dc1;
     let dc3 = addNodeToHashRing node dc2;
     (migratedCount, dc4) \<leftarrow> migrateDataForAddedNode now ord (ring_order dc3) node oldSortedHashes dc3;
     Some (updateBasicMigrationStats now migratedCount d dc4)
   }"

definition redistribute_key ::
  "(string \<rightharpoonup> string) \<Rightarrow> string \<Rightarrow> int \<times> dist_cache \<Rightarrow> (int \<times> dist_cache) option" where
  "redistribute_key data key cd = (case cd of (redistributedCount, dc) \<Rightarrow> do {
     value \<leftarrow> data key;
     targetNode \<leftarrow> getNodeForKeyUnsafe key dc;
     case LocalCaches dc targetNode of
       None \<Rightarrow> Some (redistributedCount, dc)
     | Some targetCache \<Rightarrow> do {
         targetCache' \<leftarrow> lru_Set key value targetCache;
         Some (redistributedCount + 1, dc\<lparr> LocalCaches := (LocalCaches dc)(targetNode \<mapsto> targetCache') \<rparr>)
       }
   })"

definition redistributeDataBasic ::
  "string list \<Rightarrow> (string \<rightharpoonup> string) \<Rightarrow> dist_cache \<Rightarrow> (int \<times> dist_cache) option" where
  "redistributeDataBasic order data dc = foldM (redistribute_key data) order (0, dc)"

definition getAllDataFromCache :: "go_time \<Rightarrow> lru_cache \<Rightarrow> (string \<rightharpoonup> string)" where
  "getAllDataFromCache now cache = lru_GetAllData (\<lambda>_. now) cache"

definition dc_RemoveNode ::
  "go_time \<Rightarrow> duration \<Rightarrow> visit \<Rightarrow> uint32 list \<Rightarrow> string \<Rightarrow> dist_cache \<Rightarrow> (unit dc_result \<times> dist_cache) option" where
  "dc_RemoveNode now d ord ring_order node dc =
     (case LocalCaches dc node of
        None \<Rightarrow> Some (Inl (NodeMissing node), dc)
      | Some nodeCache \<Rightarrow> do {
          let nodeData = getAllDataFromCache now nodeCache;
          let dc1 = removeNodeFromNodes node dc;
          let dc2 = dc1\<lparr> LocalCaches := (LocalCaches dc1)(node := None) \<rparr>;
          dc3 \<leftarrow> removeNodeFromHashRing ring_order node dc2;
          (migratedCount, dc4) \<leftarrow> redistributeDataBasic (ord nodeData) nodeData dc3;
          Some (Inr (), updateBasicMigrationStats now migratedCount d dc4)
        })"

end
