(* ===== verification/Dist_Ring.thy ===== *)
theory Dist_Ring
  imports Dist_Cache
begin

text \<open>
  The ring of \<open>core/distributed_cache.go\<close>: its invariant, what the look-up computes, and what adding
  and removing a node does to it. The ring is an instance of \<open>consistent_ring\<close>, so the monotonicity of
  consistent hashing holds of it.
\<close>

definition ring_inv :: "dist_cache \<Rightarrow> bool" where
  "ring_inv dc \<longleftrightarrow> sorted (SortedHashes dc) \<and> set (SortedHashes dc) = dom (HashRing dc) \<and>
     [] \<notin> ran (HashRing dc)"

text \<open>The positions of a node's virtual nodes.\<close>

definition positions :: "dist_cache \<Rightarrow> string \<Rightarrow> uint32 set" where
  "positions dc node = virtual_hash node ` {0..<nat (VirtualNodes dc)}"

section \<open>Look-up\<close>

lemma search_hash_succ:
  assumes "sorted hs" "hs \<noteq> []"
  shows "search_hash hs h = Some (ring_succ (set hs) h)"
proof -
  have "length (takeWhile (\<lambda>y. y < h) hs) \<le> length hs" by (rule length_takeWhile_le)
  then show ?thesis
    using assms by (auto simp: search_hash_def sort_Search_sorted ring_succ_sorted Let_def)
qed

lemma search_hash_empty [simp]: "search_hash [] h = None"
  by (simp add: search_hash_def)

interpretation core_ring: consistent_ring ring_inv HashRing
  "\<lambda>dc h. map_option (ring_node dc) (search_hash (SortedHashes dc) h)"
proof
  fix dc :: dist_cache and h
  assume inv: "ring_inv dc"
  then have S: "sorted (SortedHashes dc)" "set (SortedHashes dc) = dom (HashRing dc)"
    by (simp_all add: ring_inv_def)
  show "finite (dom (HashRing dc))" by (simp flip: S(2))
  assume "dom (HashRing dc) \<noteq> {}"
  then have ne: "SortedHashes dc \<noteq> []" using S(2) by (metis set_empty)
  have "ring_succ (dom (HashRing dc)) h \<in> dom (HashRing dc)"
    using ne by (intro ring_succ_in) (auto simp flip: S(2))
  then show "map_option (ring_node dc) (search_hash (SortedHashes dc) h) =
      HashRing dc (ring_succ (dom (HashRing dc)) h)"
    using search_hash_succ [OF S(1) ne, of h] by (auto simp: S(2) ring_node_def)
qed

lemma getNode_locate:
  "getNodeForKeyUnsafe key dc = map_option (ring_node dc) (search_hash (SortedHashes dc) (hashKey key))"
  by (cases "search_hash (SortedHashes dc) (hashKey key)") (simp_all add: getNodeForKeyUnsafe_def)

lemma getNode_succ:
  "ring_inv dc \<Longrightarrow> dom (HashRing dc) \<noteq> {} \<Longrightarrow>
   getNodeForKeyUnsafe key dc = HashRing dc (ring_succ (dom (HashRing dc)) (hashKey key))"
  by (simp add: getNode_locate core_ring.locate_succ)

lemma getNode_total:
  assumes "ring_inv dc" "dom (HashRing dc) \<noteq> {}"
  obtains n where "getNodeForKeyUnsafe key dc = Some n" "n \<in> ran (HashRing dc)"
  using core_ring.locate_total [OF assms] by (metis getNode_locate)

text \<open>An empty ring has nowhere to look.\<close>

lemma getNode_empty: "ring_inv dc \<Longrightarrow> HashRing dc = Map.empty \<Longrightarrow> getNodeForKeyUnsafe key dc = panic"
  by (simp add: ring_inv_def getNode_locate)

section \<open>Adding the virtual nodes of a node\<close>

lemma add_virtual_fold:
  "HashRing (fold (add_virtual n) is dc) =
     HashRing dc ++ (\<lambda>h. if h \<in> virtual_hash n ` set is then Some n else None)"
  "SortedHashes (fold (add_virtual n) is dc) = SortedHashes dc @ map (virtual_hash n) is"
  "Nodes (fold (add_virtual n) is dc) = Nodes dc"
  "VirtualNodes (fold (add_virtual n) is dc) = VirtualNodes dc"
  "LocalCaches (fold (add_virtual n) is dc) = LocalCaches dc"
  "BasicStats (fold (add_virtual n) is dc) = BasicStats dc"
  by (induction "is" arbitrary: dc) (auto simp: add_virtual_def fun_eq_iff map_add_def)

lemma addNodeToHashRing_sel:
  "HashRing (addNodeToHashRing n dc) =
     HashRing dc ++ (\<lambda>h. if h \<in> positions dc n then Some n else None)"
  "set (SortedHashes (addNodeToHashRing n dc)) = set (SortedHashes dc) \<union> positions dc n"
  "sorted (SortedHashes (addNodeToHashRing n dc))"
  "Nodes (addNodeToHashRing n dc) = Nodes dc"
  "VirtualNodes (addNodeToHashRing n dc) = VirtualNodes dc"
  "LocalCaches (addNodeToHashRing n dc) = LocalCaches dc"
  "BasicStats (addNodeToHashRing n dc) = BasicStats dc"
  by (simp_all add: addNodeToHashRing_def Let_def add_virtual_fold positions_def)

lemma addNodeToHashRing_dom: "dom (HashRing (addNodeToHashRing n dc)) = dom (HashRing dc) \<union> positions dc n"
  by (auto simp: addNodeToHashRing_sel split: if_splits)

lemma addNodeToHashRing_ran:
  "ran (HashRing (addNodeToHashRing n dc)) \<subseteq> insert n (ran (HashRing dc))"
  by (auto simp: addNodeToHashRing_sel ran_def map_add_def split: if_splits)

lemma addNodeToHashRing_inv:
  assumes "ring_inv dc" "n \<noteq> []"
  shows "ring_inv (addNodeToHashRing n dc)"
proof -
  have "[] \<notin> ran (HashRing (addNodeToHashRing n dc))"
    using addNodeToHashRing_ran [of n dc] assms by (auto simp: ring_inv_def)
  then show ?thesis
    using assms by (simp add: ring_inv_def addNodeToHashRing_sel(2,3) addNodeToHashRing_dom)
qed

lemma buildHashRing_fold:
  assumes "\<forall>n \<in> set ns. n \<noteq> []" and "ring_inv dc"
  shows "ring_inv (fold addNodeToHashRing ns dc) \<and>
    dom (HashRing (fold addNodeToHashRing ns dc)) =
      dom (HashRing dc) \<union> (\<Union>n \<in> set ns. positions dc n) \<and>
    ran (HashRing (fold addNodeToHashRing ns dc)) \<subseteq> set ns \<union> ran (HashRing dc) \<and>
    LocalCaches (fold addNodeToHashRing ns dc) = LocalCaches dc \<and>
    VirtualNodes (fold addNodeToHashRing ns dc) = VirtualNodes dc \<and>
    Nodes (fold addNodeToHashRing ns dc) = Nodes dc"
  using assms
proof (induction ns arbitrary: dc)
  case (Cons n ns)
  have p: "positions (addNodeToHashRing n dc) m = positions dc m" for m
    by (simp add: positions_def addNodeToHashRing_sel)
  show ?case
    using Cons.IH [of "addNodeToHashRing n dc"] Cons.prems addNodeToHashRing_inv [of dc n]
      addNodeToHashRing_ran [of n dc]
    by (auto simp: p addNodeToHashRing_dom addNodeToHashRing_sel)
qed simp

section \<open>Removing them\<close>

lemma remove_hashes_fold:
  "HashRing (fold (\<lambda>h d. d\<lparr> HashRing := (HashRing d)(h := None) \<rparr>) hs dc) =
     (\<lambda>h. if h \<in> set hs then None else HashRing dc h)"
  "SortedHashes (fold (\<lambda>h d. d\<lparr> HashRing := (HashRing d)(h := None) \<rparr>) hs dc) = SortedHashes dc"
  "Nodes (fold (\<lambda>h d. d\<lparr> HashRing := (HashRing d)(h := None) \<rparr>) hs dc) = Nodes dc"
  "VirtualNodes (fold (\<lambda>h d. d\<lparr> HashRing := (HashRing d)(h := None) \<rparr>) hs dc) = VirtualNodes dc"
  "LocalCaches (fold (\<lambda>h d. d\<lparr> HashRing := (HashRing d)(h := None) \<rparr>) hs dc) = LocalCaches dc"
  "BasicStats (fold (\<lambda>h d. d\<lparr> HashRing := (HashRing d)(h := None) \<rparr>) hs dc) = BasicStats dc"
  by (induction hs arbitrary: dc) (auto simp: fun_eq_iff)

text \<open>
  In a good ring the removal never panics, whatever the visiting order, and takes exactly the
  positions of the node off the map and the list.
\<close>

lemma removeNodeFromHashRing_spec:
  assumes inv: "ring_inv dc" and order: "is_order (HashRing dc) order"
  shows "\<exists>t. removeNodeFromHashRing order n dc = Some t \<and> ring_inv t \<and>
    HashRing t = (\<lambda>h. if HashRing dc h = Some n then None else HashRing dc h) \<and>
    LocalCaches t = LocalCaches dc \<and> Nodes t = Nodes dc \<and> VirtualNodes t = VirtualNodes dc \<and>
    BasicStats t = BasicStats dc"
proof -
  define rm where "rm = filter (\<lambda>h. HashRing dc h = Some n) order"
  define d where "d = fold (\<lambda>h d. d\<lparr> HashRing := (HashRing d)(h := None) \<rparr>) rm dc"
  note d_sel = remove_hashes_fold [of rm dc, folded d_def]
  have S: "sorted (SortedHashes dc)" "set (SortedHashes dc) = dom (HashRing dc)" "[] \<notin> ran (HashRing dc)"
    using inv by (simp_all add: ring_inv_def)
  have set_rm: "set rm = {h. HashRing dc h = Some n}" and "distinct rm"
    using order by (auto simp: rm_def is_order_def)
  from \<open>distinct rm\<close> have "length rm = card (set rm)" by (simp only: distinct_card)
  also have "\<dots> \<le> card (set (SortedHashes dc))"
    using S(2) set_rm by (intro card_mono) auto
  also have "\<dots> \<le> length (SortedHashes dc)" by (rule card_length)
  finally have len: "\<not> length (SortedHashes d) < length rm" by (simp add: d_sel)
  let ?t = "d\<lparr> SortedHashes := filter (\<lambda>h. ring_node d h \<noteq> []) (SortedHashes d) \<rparr>"
  have ring: "HashRing d = (\<lambda>h. if HashRing dc h = Some n then None else HashRing dc h)"
    by (simp add: d_sel set_rm fun_eq_iff)
  have keep: "ring_node d h \<noteq> [] \<longleftrightarrow> h \<in> dom (HashRing d)" for h
    using S(3) by (auto simp: ring_node_def ring ran_def split: option.splits if_splits)
  have dom: "dom (HashRing d) \<subseteq> dom (HashRing dc)" by (auto simp: ring split: if_splits)
  have "[] \<notin> ran (HashRing d)" using S(3) by (auto simp: ring ran_def split: if_splits)
  then have "ring_inv ?t"
    using S dom by (auto simp: ring_inv_def keep d_sel(2) sorted_wrt_filter)
  moreover have "removeNodeFromHashRing order n dc = Some ?t"
    using len by (simp add: removeNodeFromHashRing_def rm_def [symmetric] d_def [symmetric] Let_def)
  ultimately show ?thesis using ring d_sel by auto
qed

end
