(* ===== verification/Dist_Inv.thy ===== *)
theory Dist_Inv
  imports Dist_Ring
begin

text \<open>
  The invariant of the distributed cache and what its operations preserve. \<open>dc_inv\<close>: the ring is
  well formed, every node of the ring has a cache, and the caches satisfy the LRU invariant.
  \<open>placed\<close>: a key is only ever stored at the node the ring names for it. \<open>dc_lookup\<close> is the abstract
  value of the cluster: what the responsible node holds.
\<close>

definition caches_ok :: "dist_cache \<Rightarrow> bool" where
  "caches_ok dc \<longleftrightarrow> (\<forall>n c. LocalCaches dc n = Some c \<longrightarrow> node_cache 1000 c)"

definition dc_inv :: "dist_cache \<Rightarrow> bool" where
  "dc_inv dc \<longleftrightarrow> ring_inv dc \<and> ran (HashRing dc) \<subseteq> dom (LocalCaches dc) \<and> caches_ok dc"

definition held :: "dist_cache \<Rightarrow> string \<Rightarrow> (string \<rightharpoonup> string)" where
  "held dc n = (case LocalCaches dc n of None \<Rightarrow> Map.empty | Some c \<Rightarrow> contents c)"

definition placed :: "dist_cache \<Rightarrow> bool" where
  "placed dc \<longleftrightarrow> (\<forall>n k. k \<in> dom (held dc n) \<longrightarrow> getNodeForKeyUnsafe k dc = Some n)"

definition dc_lookup :: "dist_cache \<Rightarrow> (string \<rightharpoonup> string)" where
  "dc_lookup dc k = (case getNodeForKeyUnsafe k dc of None \<Rightarrow> None | Some n \<Rightarrow> held dc n k)"

abbreviation (input) nonempty_ring :: "dist_cache \<Rightarrow> bool" where
  "nonempty_ring dc \<equiv> dom (HashRing dc) \<noteq> {}"

lemma held_Some [simp]: "LocalCaches dc n = Some c \<Longrightarrow> held dc n = contents c"
  by (simp add: held_def)

lemma held_None [simp]: "LocalCaches dc n = None \<Longrightarrow> held dc n = Map.empty"
  by (simp add: held_def)

lemma getNode_caches [simp]:
  "getNodeForKeyUnsafe k (dc\<lparr> LocalCaches := cs \<rparr>) = getNodeForKeyUnsafe k dc"
  by (simp add: getNodeForKeyUnsafe_def ring_node_def)

lemma ring_inv_caches [simp]: "ring_inv (dc\<lparr> LocalCaches := cs \<rparr>) = ring_inv dc"
  by (simp add: ring_inv_def)

text \<open>Under \<open>placed\<close> a key has one home, so what any node holds is what the cluster answers.\<close>

lemma placed_lookup: "placed dc \<Longrightarrow> held dc n k = Some v \<Longrightarrow> dc_lookup dc k = Some v"
  unfolding placed_def dc_lookup_def by (metis domI option.simps(5))

lemma dc_inv_new:
  assumes inv: "dc_inv dc" and c: "node_cache 1000 c"
  shows "dc_inv (dc\<lparr> LocalCaches := (LocalCaches dc)(n \<mapsto> c) \<rparr>)"
  using inv c by (auto simp: dc_inv_def caches_ok_def)

lemma owner_cache:
  assumes "dc_inv dc" "nonempty_ring dc"
  obtains n c where "getNodeForKeyUnsafe k dc = Some n" "LocalCaches dc n = Some c" "node_cache 1000 c"
proof -
  obtain n where n: "getNodeForKeyUnsafe k dc = Some n" "n \<in> ran (HashRing dc)"
    using assms getNode_total by (metis dc_inv_def)
  then obtain c where "LocalCaches dc n = Some c" using assms(1) by (auto simp: dc_inv_def)
  with assms(1) n(1) that show thesis by (auto simp: dc_inv_def caches_ok_def)
qed

section \<open>Replacing the content of one cache\<close>

text \<open>The common form of \<open>Set\<close>, \<open>Get\<close> and \<open>Delete\<close>: the cache of the key's owner is replaced.\<close>

lemma replace_cache:
  assumes inv: "dc_inv dc" "placed dc" and n: "LocalCaches dc n = Some c" and c': "node_cache 1000 c'"
    and sub: "\<And>k. k \<in> dom (contents c') \<Longrightarrow> k \<notin> dom (contents c) \<Longrightarrow> getNodeForKeyUnsafe k dc = Some n"
  shows "dc_inv (dc\<lparr> LocalCaches := (LocalCaches dc)(n \<mapsto> c') \<rparr>)"
    "placed (dc\<lparr> LocalCaches := (LocalCaches dc)(n \<mapsto> c') \<rparr>)"
    "dc_lookup (dc\<lparr> LocalCaches := (LocalCaches dc)(n \<mapsto> c') \<rparr>) k =
      (if getNodeForKeyUnsafe k dc = Some n then contents c' k else dc_lookup dc k)"
proof -
  show "dc_inv (dc\<lparr> LocalCaches := (LocalCaches dc)(n \<mapsto> c') \<rparr>)"
    by (rule dc_inv_new [OF inv(1) c'])
  have held: "held (dc\<lparr> LocalCaches := (LocalCaches dc)(n \<mapsto> c') \<rparr>) m =
      (if m = n then contents c' else held dc m)" for m
    by (simp add: held_def)
  show "placed (dc\<lparr> LocalCaches := (LocalCaches dc)(n \<mapsto> c') \<rparr>)"
    unfolding placed_def getNode_caches held
  proof (intro allI impI)
    fix m k
    assume k: "k \<in> dom (if m = n then contents c' else held dc m)"
    show "getNodeForKeyUnsafe k dc = Some m"
    proof (cases "m = n \<and> k \<notin> dom (contents c)")
      case True
      then show ?thesis using k sub by auto
    next
      case False
      then have "k \<in> dom (held dc m)" using k n by (auto split: if_splits)
      then show ?thesis using inv(2) by (simp add: placed_def)
    qed
  qed
  show "dc_lookup (dc\<lparr> LocalCaches := (LocalCaches dc)(n \<mapsto> c') \<rparr>) k =
      (if getNodeForKeyUnsafe k dc = Some n then contents c' k else dc_lookup dc k)"
    unfolding dc_lookup_def getNode_caches held by (auto split: option.splits)
qed

section \<open>Set, Get, Delete\<close>

lemma dc_Set_spec:
  assumes inv: "dc_inv dc" "placed dc" "nonempty_ring dc"
  shows "\<exists>t. dc_Set k v dc = Some (Inr (), t) \<and> dc_inv t \<and> placed t \<and> HashRing t = HashRing dc \<and>
    SortedHashes t = SortedHashes dc \<and> VirtualNodes t = VirtualNodes dc \<and>
    dom (LocalCaches t) = dom (LocalCaches dc) \<and>
    dc_lookup t k = Some v \<and>
    (\<forall>k' w. k' \<noteq> k \<and> dc_lookup t k' = Some w \<longrightarrow> dc_lookup dc k' = Some w) \<and>
    (card (insert k (dom (dc_lookup dc))) \<le> 1000 \<and> finite (dom (dc_lookup dc)) \<longrightarrow>
      dc_lookup t = (dc_lookup dc)(k \<mapsto> v))"
proof -
  obtain n c where n: "getNodeForKeyUnsafe k dc = Some n" "LocalCaches dc n = Some c" "node_cache 1000 c"
    using owner_cache [OF inv(1,3)] .
  obtain c' where c': "lru_Set k v c = Some c'" using node_lru.put_total [OF n(3)] by blast
  note nc = node_lru.put_inv [OF n(3) c'] and same = node_lru.put_same [OF n(3) c']
    and other = node_lru.put_other [OF n(3) c']
  let ?t = "dc\<lparr> LocalCaches := (LocalCaches dc)(n \<mapsto> c') \<rparr>"
  have sub: "getNodeForKeyUnsafe k' dc = Some n"
    if "k' \<in> dom (contents c')" "k' \<notin> dom (contents c)" for k'
    using that other n(1) by (cases "k' = k") auto
  note R = replace_cache [OF inv(1,2) n(2) nc sub]
  have "dc_Set k v dc = Some (Inr (), ?t)"
    by (simp add: dc_Set_def GetNodeForKey_def n c')
  moreover have "dc_lookup ?t k = Some v" using R(3) [of k] n(1) same by simp
  moreover have "dc_lookup dc k' = Some w" if "k' \<noteq> k" "dc_lookup ?t k' = Some w" for k' w
  proof (cases "getNodeForKeyUnsafe k' dc = Some n")
    case True
    then have "contents c' k' = Some w" using that(2) R(3) [of k'] by simp
    then have "contents c k' = Some w" by (rule other [OF that(1)])
    then show ?thesis using True n(2) by (simp add: dc_lookup_def)
  qed (use that(2) R(3) [of k'] in simp)
  moreover have "dc_lookup ?t = (dc_lookup dc)(k \<mapsto> v)"
    if room: "card (insert k (dom (dc_lookup dc))) \<le> 1000" "finite (dom (dc_lookup dc))"
  proof -
    have "dom (contents c) \<subseteq> dom (dc_lookup dc)"
      using placed_lookup [OF inv(2), of n] n(2) by auto
    then have "card (insert k (dom (contents c))) \<le> card (insert k (dom (dc_lookup dc)))"
      using room(2) by (intro card_mono) auto
    then have "contents c' = (contents c)(k \<mapsto> v)"
      using room(1) by (intro node_lru.put_room [OF n(3) c']) simp
    then show ?thesis using R(3) n by (auto simp: fun_eq_iff dc_lookup_def)
  qed
  ultimately show ?thesis using R(1,2) n(2) by auto
qed

lemma dc_Get_spec:
  assumes inv: "dc_inv dc" "placed dc" "nonempty_ring dc"
  shows "\<exists>t. dc_Get now k dc =
      Some (Inr (case dc_lookup dc k of None \<Rightarrow> ([], False) | Some v \<Rightarrow> (v, True)), t) \<and>
    dc_inv t \<and> placed t \<and> HashRing t = HashRing dc \<and> SortedHashes t = SortedHashes dc \<and>
    VirtualNodes t = VirtualNodes dc \<and> dom (LocalCaches t) = dom (LocalCaches dc) \<and>
    dc_lookup t = dc_lookup dc"
proof -
  obtain n c where n: "getNodeForKeyUnsafe k dc = Some n" "LocalCaches dc n = Some c" "node_cache 1000 c"
    using owner_cache [OF inv(1,3)] .
  obtain c' where c': "lru_Get now k c =
      Some (case contents c k of None \<Rightarrow> ([], False) | Some v \<Rightarrow> (v, True), c')"
    "node_cache 1000 c'" "contents c' = contents c"
    using node_cache_Get [OF n(3)] by blast
  let ?t = "dc\<lparr> LocalCaches := (LocalCaches dc)(n \<mapsto> c') \<rparr>"
  have R: "dc_inv ?t" "placed ?t" "dc_lookup ?t k' =
      (if getNodeForKeyUnsafe k' dc = Some n then contents c' k' else dc_lookup dc k')" for k'
    by (rule replace_cache [OF inv(1,2) n(2) c'(2)]; simp add: c'(3))+
  have "dc_lookup ?t = dc_lookup dc"
    using R(3) n(2) c'(3) by (auto simp: fun_eq_iff dc_lookup_def)
  moreover have "dc_lookup dc k = contents c k" using n by (simp add: dc_lookup_def)
  ultimately show ?thesis
    using R(1,2) n c'(1) by (auto simp: dc_Get_def GetNodeForKey_def)
qed

lemma dc_Delete_spec:
  assumes inv: "dc_inv dc" "placed dc" "nonempty_ring dc"
  shows "\<exists>t. dc_Delete k dc = Some (Inr (), t) \<and> dc_inv t \<and> placed t \<and>
    HashRing t = HashRing dc \<and> SortedHashes t = SortedHashes dc \<and> VirtualNodes t = VirtualNodes dc \<and>
    dom (LocalCaches t) = dom (LocalCaches dc) \<and> dc_lookup t = (dc_lookup dc)(k := None)"
proof -
  obtain n c where n: "getNodeForKeyUnsafe k dc = Some n" "LocalCaches dc n = Some c" "node_cache 1000 c"
    using owner_cache [OF inv(1,3)] .
  obtain b c' where c': "lru_Delete k c = Some (b, c')" using node_lru.del_total [OF n(3)] by blast
  note nc = node_lru.del_inv [OF n(3) c'] and eq = node_lru.del_abs [OF n(3) c']
  let ?t = "dc\<lparr> LocalCaches := (LocalCaches dc)(n \<mapsto> c') \<rparr>"
  have R: "dc_inv ?t" "placed ?t" "dc_lookup ?t k' =
      (if getNodeForKeyUnsafe k' dc = Some n then contents c' k' else dc_lookup dc k')" for k'
    by (rule replace_cache [OF inv(1,2) n(2) nc]; auto simp: eq)+
  have "dc_lookup ?t = (dc_lookup dc)(k := None)"
    using R(3) n eq by (auto simp: fun_eq_iff dc_lookup_def)
  moreover have "dc_Delete k dc = Some (Inr (), ?t)"
    by (simp add: dc_Delete_def GetNodeForKey_def n c')
  ultimately show ?thesis using R(1,2) n(2) by auto
qed

end
