(* ===== verification/Dist_Migrate.thy ===== *)
theory Dist_Migrate
  imports Dist_Inv
begin

text \<open>
  What adding and removing a node does to the data of the cluster: nothing is invented, every key
  ends up where the new ring looks for it, and as long as the data fits one node nothing is lost.
\<close>

definition same_ring :: "dist_cache \<Rightarrow> dist_cache \<Rightarrow> bool" where
  "same_ring d e \<longleftrightarrow> HashRing d = HashRing e \<and> SortedHashes d = SortedHashes e \<and>
     VirtualNodes d = VirtualNodes e \<and> Nodes d = Nodes e"

text \<open>All the data of the cluster fits into one node's cache.\<close>

definition fits :: "dist_cache \<Rightarrow> bool" where
  "fits dc \<longleftrightarrow> finite (dom (dc_lookup dc)) \<and> card (dom (dc_lookup dc)) \<le> 1000"

lemma same_ring_getNode: "same_ring d e \<Longrightarrow> getNodeForKeyUnsafe k d = getNodeForKeyUnsafe k e"
  by (simp add: same_ring_def getNodeForKeyUnsafe_def ring_node_def)

lemma same_ring_simps [simp]:
  "same_ring d d"
  "same_ring (d\<lparr> LocalCaches := cs \<rparr>) e = same_ring d e"
  "same_ring d (e\<lparr> LocalCaches := cs \<rparr>) = same_ring d e"
  by (simp_all add: same_ring_def)

lemma same_ring_inv: "same_ring d e \<Longrightarrow> ring_inv d = ring_inv e"
  by (simp add: same_ring_def ring_inv_def)

lemma dc_Set_Nodes: "dc_Set k v d = Some (r, t) \<Longrightarrow> Nodes t = Nodes d"
  by (auto simp: dc_Set_def bind_Some_iff split: option.splits)

lemma update_stats_ring:
  "HashRing (updateBasicMigrationStats now c d t) = HashRing t"
  "SortedHashes (updateBasicMigrationStats now c d t) = SortedHashes t"
  "LocalCaches (updateBasicMigrationStats now c d t) = LocalCaches t"
  "VirtualNodes (updateBasicMigrationStats now c d t) = VirtualNodes t"
  "held (updateBasicMigrationStats now c d t) m = held t m"
  "getNodeForKeyUnsafe k (updateBasicMigrationStats now c d t) = getNodeForKeyUnsafe k t"
  by (simp_all add: updateBasicMigrationStats_def held_def getNodeForKeyUnsafe_def ring_node_def)

lemma update_stats_inv:
  "dc_inv (updateBasicMigrationStats now c d t) = dc_inv t"
  "placed (updateBasicMigrationStats now c d t) = placed t"
  "dc_lookup (updateBasicMigrationStats now c d t) = dc_lookup t"
  by (simp_all only: dc_inv_def ring_inv_def caches_ok_def placed_def dc_lookup_def fun_eq_iff update_stats_ring
      simp_thms)

lemmas update_stats_sel = update_stats_ring update_stats_inv

section \<open>Removing a node\<close>

text \<open>One step of the redistribution is a \<open>Set\<close> through the ring.\<close>

lemma redistribute_key_Set:
  assumes "data k = Some v" "dc_inv d" "nonempty_ring d"
  shows "redistribute_key data k (c, d) = map_option (\<lambda>(r, t). (c + 1, t)) (dc_Set k v d)"
proof -
  obtain n x where n: "getNodeForKeyUnsafe k d = Some n" "LocalCaches d n = Some x" "node_cache 1000 x"
    using owner_cache [OF assms(2,3)] .
  obtain x' where "lru_Set k v x = Some x'" using node_lru.put_total [OF n(3)] by blast
  then show ?thesis
    using n assms(1) by (simp add: redistribute_key_def dc_Set_def GetNodeForKey_def)
qed

lemma redistribute_loop:
  assumes dc: "dc_inv dc" "placed dc" "nonempty_ring dc" and keys: "set ks \<subseteq> dom data"
  shows "\<exists>c t. foldM (redistribute_key data) ks (c0, dc) = Some (c, t) \<and>
    dc_inv t \<and> placed t \<and> same_ring t dc \<and> dom (LocalCaches t) = dom (LocalCaches dc) \<and>
    (\<forall>k w. dc_lookup t k = Some w \<longrightarrow> dc_lookup dc k = Some w \<or> (k \<in> set ks \<and> data k = Some w)) \<and>
    (finite (dom (dc_lookup dc)) \<and> card (set ks \<union> dom (dc_lookup dc)) \<le> 1000 \<longrightarrow>
      dc_lookup t = dc_lookup dc ++ (data |` set ks))"
  using assms
proof (induction ks arbitrary: dc c0)
  case (Cons k ks)
  obtain v where v: "data k = Some v" using Cons.prems(4) by auto
  obtain d where d: "dc_Set k v dc = Some (Inr (), d)" "dc_inv d" "placed d" "HashRing d = HashRing dc"
    "SortedHashes d = SortedHashes dc" "VirtualNodes d = VirtualNodes dc"
    "dom (LocalCaches d) = dom (LocalCaches dc)" "dc_lookup d k = Some v"
    "\<And>k' w. k' \<noteq> k \<Longrightarrow> dc_lookup d k' = Some w \<Longrightarrow> dc_lookup dc k' = Some w"
    "card (insert k (dom (dc_lookup dc))) \<le> 1000 \<Longrightarrow> finite (dom (dc_lookup dc)) \<Longrightarrow>
      dc_lookup d = (dc_lookup dc)(k \<mapsto> v)"
    using dc_Set_spec [OF Cons.prems(1-3), of k v] by blast
  have ring: "same_ring d dc" using d(4-6) dc_Set_Nodes [OF d(1)] by (simp add: same_ring_def)
  have step: "redistribute_key data k (c0, dc) = Some (c0 + 1, d)"
    using redistribute_key_Set [of data k v dc, OF v Cons.prems(1,3)] d(1) by simp
  have ne: "nonempty_ring d" using Cons.prems(3) d(4) by simp
  obtain c t where t: "foldM (redistribute_key data) ks (c0 + 1, d) = Some (c, t)" "dc_inv t" "placed t"
    "same_ring t d" "dom (LocalCaches t) = dom (LocalCaches d)"
    "\<And>k w. dc_lookup t k = Some w \<Longrightarrow> dc_lookup d k = Some w \<or> (k \<in> set ks \<and> data k = Some w)"
    "finite (dom (dc_lookup d)) \<and> card (set ks \<union> dom (dc_lookup d)) \<le> 1000 \<Longrightarrow>
      dc_lookup t = dc_lookup d ++ (data |` set ks)"
    using Cons.IH [OF d(2,3) ne, of "c0 + 1"] Cons.prems(4) by auto
  have "dc_lookup dc k' = Some w \<or> (k' \<in> set (k # ks) \<and> data k' = Some w)"
    if "dc_lookup t k' = Some w" for k' w
    using t(6) [OF that] d(8) d(9) [of k' w] v by (cases "k' = k") auto
  moreover have "dc_lookup t = dc_lookup dc ++ (data |` set (k # ks))"
    if room: "finite (dom (dc_lookup dc))" "card (set (k # ks) \<union> dom (dc_lookup dc)) \<le> 1000"
  proof -
    have fin: "finite (set (k # ks) \<union> dom (dc_lookup dc))" using room(1) by simp
    have "card (insert k (dom (dc_lookup dc))) \<le> card (set (k # ks) \<union> dom (dc_lookup dc))"
      by (rule card_mono [OF fin]) auto
    then have dk: "dc_lookup d = (dc_lookup dc)(k \<mapsto> v)" using d(10) room by simp
    moreover have "set ks \<union> dom (dc_lookup d) = set (k # ks) \<union> dom (dc_lookup dc)" by (auto simp: dk)
    ultimately have "dc_lookup t = dc_lookup d ++ (data |` set ks)"
      using t(7) room by simp
    then show ?thesis
      using v by (auto simp: dk fun_eq_iff map_add_def restrict_map_def split: option.splits)
  qed
  ultimately show ?case
    using step t(1-5) ring d(7) by (auto simp: same_ring_def)
qed simp

lemma dc_RemoveNode_spec:
  assumes inv: "dc_inv dc" "placed dc"
    and n: "n \<in> dom (LocalCaches dc)"
    and others: "\<exists>m \<in> ran (HashRing dc). m \<noteq> n"
    and ord: "fair_order ord" "is_order (HashRing dc) ring_order"
  shows "\<exists>t. dc_RemoveNode now d ord ring_order n dc = Some (Inr (), t) \<and> dc_inv t \<and> placed t \<and>
    HashRing t = (\<lambda>h. if HashRing dc h = Some n then None else HashRing dc h) \<and>
    dom (LocalCaches t) = dom (LocalCaches dc) - {n} \<and> VirtualNodes t = VirtualNodes dc \<and>
    (\<forall>k w. dc_lookup t k = Some w \<longrightarrow> dc_lookup dc k = Some w) \<and>
    (fits dc \<longrightarrow> dc_lookup t = dc_lookup dc)"
proof -
  obtain c where c: "LocalCaches dc n = Some c" using n by auto
  have nc: "node_cache 1000 c" using inv(1) c by (auto simp: dc_inv_def caches_ok_def)
  define data where "data = getAllDataFromCache now c"
  have data: "data = held dc n"
    using nc c by (simp add: data_def getAllDataFromCache_def GetAllData_node_cache)
  have fin: "finite (dom data)" using nc by (simp add: data c node_lru.abs_finite)
  define d2 where "d2 = (removeNodeFromNodes n dc)\<lparr> LocalCaches := (LocalCaches dc)(n := None) \<rparr>"
  have d2: "ring_inv d2" "is_order (HashRing d2) ring_order" "HashRing d2 = HashRing dc"
    using inv(1) ord(2) by (simp_all add: d2_def removeNodeFromNodes_def dc_inv_def ring_inv_def)
  have d2_sel: "LocalCaches d2 = (LocalCaches dc)(n := None)" "VirtualNodes d2 = VirtualNodes dc"
    by (simp_all add: d2_def removeNodeFromNodes_def)
  obtain d3 where d3: "removeNodeFromHashRing ring_order n d2 = Some d3" "ring_inv d3"
    "HashRing d3 = (\<lambda>h. if HashRing dc h = Some n then None else HashRing dc h)"
    "LocalCaches d3 = (LocalCaches dc)(n := None)" "VirtualNodes d3 = VirtualNodes dc"
    using removeNodeFromHashRing_spec [OF d2(1,2), of n] unfolding d2(3) by (auto simp: d2_sel)
  have ran3: "ran (HashRing d3) \<subseteq> ran (HashRing dc) - {n}"
    by (auto simp: d3(3) ran_def split: if_splits)
  have inv3: "dc_inv d3"
    using inv(1) d3(2) ran3 by (auto simp: dc_inv_def caches_ok_def d3(4))
  obtain h m where "HashRing dc h = Some m" "m \<noteq> n" using others by (auto simp: ran_def)
  then have "HashRing d3 h = Some m" by (simp add: d3(3))
  then have ne3: "nonempty_ring d3" by auto
  then have ne: "nonempty_ring dc" by (auto simp: d3(3) split: if_splits)
  have ring: "ring_inv dc" using inv(1) by (simp add: dc_inv_def)
  have owner: "getNodeForKeyUnsafe k d3 = getNodeForKeyUnsafe k dc"
    if "getNodeForKeyUnsafe k dc \<noteq> Some n" for k
    using core_ring.remove_node_monotone [OF ring d3(2) ne d3(3)] that by (simp add: getNode_locate)
  have held3: "held d3 m = (if m = n then Map.empty else held dc m)" for m
    by (simp add: held_def d3(4))
  have placed3: "placed d3"
    unfolding placed_def held3
  proof (intro allI impI)
    fix m k
    assume k: "k \<in> dom (if m = n then Map.empty else held dc m)"
    then have "getNodeForKeyUnsafe k dc = Some m" "m \<noteq> n"
      using inv(2) by (auto simp: placed_def split: if_splits)
    then show "getNodeForKeyUnsafe k d3 = Some m" using owner [of k] by simp
  qed
  have owner3: "getNodeForKeyUnsafe k d3 \<noteq> Some n" for k
  proof -
    obtain m where "getNodeForKeyUnsafe k d3 = Some m" "m \<in> ran (HashRing d3)"
      by (rule getNode_total [OF d3(2) ne3])
    then show ?thesis using ran3 by auto
  qed
  have look3: "dc_lookup d3 k = (if getNodeForKeyUnsafe k dc = Some n then None else dc_lookup dc k)" for k
  proof (cases "getNodeForKeyUnsafe k dc = Some n")
    case True
    obtain m where m: "getNodeForKeyUnsafe k d3 = Some m" using getNode_total [OF d3(2) ne3] by metis
    then have "m \<noteq> n" using owner3 [of k] by auto
    then have "k \<notin> dom (held dc m)" using inv(2) True unfolding placed_def by (metis option.inject)
    then show ?thesis using True m \<open>m \<noteq> n\<close> by (auto simp: dc_lookup_def held3)
  next
    case False
    then show ?thesis
      by (auto simp: dc_lookup_def owner [OF False] held3 split: option.splits)
  qed
  have keys: "set (ord data) = dom data" using ord(1) fin by (auto simp: fair_order_def is_order_def)
  obtain cnt t where t: "foldM (redistribute_key data) (ord data) (0, d3) = Some (cnt, t)" "dc_inv t" "placed t"
    "same_ring t d3" "dom (LocalCaches t) = dom (LocalCaches d3)"
    "\<And>k w. dc_lookup t k = Some w \<Longrightarrow> dc_lookup d3 k = Some w \<or> (k \<in> set (ord data) \<and> data k = Some w)"
    "finite (dom (dc_lookup d3)) \<and> card (set (ord data) \<union> dom (dc_lookup d3)) \<le> 1000 \<Longrightarrow>
      dc_lookup t = dc_lookup d3 ++ (data |` set (ord data))"
    using redistribute_loop [OF inv3 placed3 ne3, of "ord data" data 0] keys by auto
  have sound: "dc_lookup dc k = Some w" if "dc_lookup t k = Some w" for k w
    using t(6) [OF that] placed_lookup [OF inv(2), of n k w] by (auto simp: look3 data split: if_splits)
  have split: "dc_lookup d3 ++ data = dc_lookup dc"
  proof
    fix k
    show "(dc_lookup d3 ++ data) k = dc_lookup dc k"
    proof (cases "data k")
      case None
      then have "dc_lookup d3 k = dc_lookup dc k" by (simp add: look3) (simp add: dc_lookup_def data)
      with None show ?thesis by (simp add: map_add_def)
    next
      case (Some v)
      then show ?thesis using placed_lookup [OF inv(2), of n k v] by (simp add: map_add_def data)
    qed
  qed
  have complete: "dc_lookup t = dc_lookup dc" if "fits dc"
  proof -
    have "dom (dc_lookup d3) \<union> dom data = dom (dc_lookup dc)" using split by (metis dom_map_add sup_commute)
    then have "finite (dom (dc_lookup d3)) \<and> card (set (ord data) \<union> dom (dc_lookup d3)) \<le> 1000"
      using that unfolding fits_def keys by (metis finite_Un sup_commute)
    then have "dc_lookup t = dc_lookup d3 ++ (data |` dom data)" unfolding keys by (rule t(7) [unfolded keys])
    also have "data |` dom data = data" by (auto simp: restrict_map_def fun_eq_iff domIff)
    finally show ?thesis by (simp only: split)
  qed
  let ?t = "updateBasicMigrationStats now cnt d t"
  note upd = update_stats_sel
  have "dc_RemoveNode now d ord ring_order n dc = Some (Inr (), ?t)"
    using c d3(1) t(1)
    by (simp add: dc_RemoveNode_def data_def [symmetric] redistributeDataBasic_def d2_def
        removeNodeFromNodes_def)
  moreover have "HashRing t = HashRing d3" "VirtualNodes t = VirtualNodes d3"
    using t(4) by (simp_all add: same_ring_def)
  moreover have "dom (LocalCaches t) = dom (LocalCaches dc) - {n}" using t(5) d3(4) by simp
  ultimately show ?thesis
    using t(2,3) d3(3,5) sound complete by (intro exI [of _ ?t]) (simp add: upd)
qed

section \<open>Adding a node\<close>

text \<open>
  While data migrates to the new node \<open>n\<close> a key may still be at its old home. \<open>migrating dc n d3 d\<close>
  relates a state \<open>d\<close> of the migration to the state \<open>dc\<close> before the node was added and the state \<open>d3\<close>
  in which the migration starts: a key is at its old home or, when the new ring says so, at \<open>n\<close>; no
  value is invented; and while everything fits, no key is lost.
\<close>

definition migrating :: "dist_cache \<Rightarrow> string \<Rightarrow> dist_cache \<Rightarrow> dist_cache \<Rightarrow> bool" where
  "migrating dc n d3 d \<longleftrightarrow> same_ring d d3 \<and> dc_inv d \<and> dom (LocalCaches d) = dom (LocalCaches d3) \<and>
     (\<forall>m k. k \<in> dom (held d m) \<longrightarrow>
        (if m = n then getNodeForKeyUnsafe k d3 = Some n else getNodeForKeyUnsafe k dc = Some m)) \<and>
     (\<forall>m k w. held d m k = Some w \<longrightarrow> dc_lookup dc k = Some w) \<and>
     (fits dc \<longrightarrow> (\<forall>k w m. dc_lookup dc k = Some w \<and> getNodeForKeyUnsafe k dc = Some m \<longrightarrow>
        held d m k = Some w \<or> held d n k = Some w))"

lemma migratingD:
  assumes "migrating dc n d3 d"
  shows "same_ring d d3" "dc_inv d" "dom (LocalCaches d) = dom (LocalCaches d3)"
    "k \<in> dom (held d n) \<Longrightarrow> getNodeForKeyUnsafe k d3 = Some n"
    "m \<noteq> n \<Longrightarrow> k \<in> dom (held d m) \<Longrightarrow> getNodeForKeyUnsafe k dc = Some m"
    "held d m k = Some w \<Longrightarrow> dc_lookup dc k = Some w"
    "fits dc \<Longrightarrow> dc_lookup dc k = Some w \<Longrightarrow> getNodeForKeyUnsafe k dc = Some m \<Longrightarrow>
       held d m k = Some w \<or> held d n k = Some w"
  using assms unfolding migrating_def by (blast, blast, blast, metis, metis, blast, blast)

text \<open>Moving one key, when the new ring assigns it to the new node.\<close>

lemma migrate_key_step:
  assumes J: "migrating dc n d3 d" and n: "n \<in> dom (LocalCaches d3)"
    and old: "old \<in> dom (LocalCaches d3)" "old \<noteq> n"
    and data: "data k = Some v" "dc_lookup dc k = Some v"
    and own: "getNodeForKeyUnsafe k d3 = Some n"
  shows "\<exists>t. migrate_key n old data k (c, d) = Some (c + 1, t) \<and> migrating dc n d3 t \<and>
    held t old = (held d old)(k := None)"
proof -
  note JD = migratingD [OF J]
  obtain nc oc where nc: "LocalCaches d n = Some nc" and oc: "LocalCaches d old = Some oc"
    using n old(1) JD(3) by blast
  have good: "node_cache 1000 nc" "node_cache 1000 oc"
    using JD(2) nc oc by (auto simp: dc_inv_def caches_ok_def)
  obtain nc' where nc': "lru_Set k v nc = Some nc'" using node_lru.put_total [OF good(1)] by blast
  obtain b oc' where oc': "lru_Delete k oc = Some (b, oc')" using node_lru.del_total [OF good(2)] by blast
  note put_inv = node_lru.put_inv [OF good(1) nc'] and same = node_lru.put_same [OF good(1) nc']
    and other = node_lru.put_other [OF good(1) nc'] and room = node_lru.put_room [OF good(1) nc']
    and del_inv = node_lru.del_inv [OF good(2) oc'] and del_abs = node_lru.del_abs [OF good(2) oc']
  let ?t = "d\<lparr> LocalCaches := (LocalCaches d)(n \<mapsto> nc', old \<mapsto> oc') \<rparr>"
  have "getNodeForKeyUnsafe k d = Some n" using same_ring_getNode [OF JD(1)] own by simp
  then have step: "migrate_key n old data k (c, d) = Some (c + 1, ?t)"
    using data(1) nc oc nc' oc' old(2) by (simp add: migrate_key_def)
  have held: "held ?t m = (if m = old then (held d old)(k := None)
      else if m = n then contents nc' else held d m)" for m
    using oc del_abs old(2) by (simp add: held_def)
  have heldn: "held d n = contents nc" using nc by simp
  have "dc_inv ?t"
    using dc_inv_new [OF dc_inv_new [OF JD(2) put_inv, of n] del_inv, of old] by simp
  moreover have "dom (LocalCaches ?t) = dom (LocalCaches d3)" using JD(3) nc oc by auto
  moreover have "same_ring ?t d3" using JD(1) by simp
  moreover have "if m = n then getNodeForKeyUnsafe x d3 = Some n else getNodeForKeyUnsafe x dc = Some m"
    if x: "x \<in> dom (held ?t m)" for m x
  proof (cases "m = n")
    case True
    then have "x \<in> dom (contents nc')" using x old(2) by (simp add: held)
    then have "x = k \<or> x \<in> dom (held d n)" using other heldn by (cases "x = k") auto
    then show ?thesis using True own JD(4) by auto
  next
    case False
    then have "x \<in> dom (held d m)" using x by (auto simp: held split: if_splits)
    then show ?thesis using False JD(5) by simp
  qed
  moreover have "dc_lookup dc x = Some w" if x: "held ?t m x = Some w" for m x w
  proof (cases "m = n \<and> x = k")
    case True
    then have "w = v" using x same old(2) by (simp add: held)
    then show ?thesis using True data(2) by simp
  next
    case False
    then have "held d m x = Some w"
      using x other heldn by (auto simp: held split: if_splits)
    then show ?thesis by (rule JD(6))
  qed
  moreover have "held ?t m x = Some w \<or> held ?t n x = Some w"
    if fit: "fits dc" and x: "dc_lookup dc x = Some w" "getNodeForKeyUnsafe x dc = Some m" for x w m
  proof -
    have "insert k (dom (contents nc)) \<subseteq> dom (dc_lookup dc)"
      using JD(6) [of n] data(2) heldn by auto
    then have "card (insert k (dom (contents nc))) \<le> 1000"
      using fit card_mono unfolding fits_def by (metis order_trans)
    then have "contents nc' = (held d n)(k \<mapsto> v)" using room heldn by simp
    then show ?thesis
      using JD(7) [OF fit x] x(1) data(2) old(2) by (cases "x = k") (auto simp: held)
  qed
  ultimately have "migrating dc n d3 ?t" unfolding migrating_def by blast
  then show ?thesis using step held by auto
qed

text \<open>Only the old node and the new one are touched.\<close>

lemma migrate_key_frame:
  assumes "migrate_key n old data k (c, d) = Some (c', t)" "m \<noteq> n"
  shows "m \<noteq> old \<Longrightarrow> held t m = held d m"
  using assms by (auto simp: migrate_key_def bind_Some_iff held_def split: if_splits)

text \<open>Going through the snapshot of one old node.\<close>

lemma migrate_keys_loop:
  assumes J: "migrating dc n d3 d" and n: "n \<in> dom (LocalCaches d3)" and ne: "nonempty_ring d3"
    and old: "old \<in> dom (LocalCaches d3)" "old \<noteq> n"
    and data: "set ks \<subseteq> dom data" "\<And>k v. data k = Some v \<Longrightarrow> dc_lookup dc k = Some v"
  shows "\<exists>c t. foldM (migrate_key n old data) ks (c0, d) = Some (c, t) \<and> migrating dc n d3 t \<and>
    (\<forall>k \<in> set ks. getNodeForKeyUnsafe k d3 = Some n \<longrightarrow> k \<notin> dom (held t old)) \<and>
    (\<forall>m. m \<noteq> n \<longrightarrow> dom (held t m) \<subseteq> dom (held d m))"
  using J data(1)
proof (induction ks arbitrary: d c0)
  case (Cons k ks)
  obtain v where v: "data k = Some v" using Cons.prems(2) by auto
  have inv3: "ring_inv d3"
    using migratingD(1,2) [OF Cons.prems(1)] same_ring_inv by (auto simp: dc_inv_def)
  obtain m where m: "getNodeForKeyUnsafe k d3 = Some m" by (rule getNode_total [OF inv3 ne])
  have "\<exists>c1 t. migrate_key n old data k (c0, d) = Some (c1, t) \<and> migrating dc n d3 t \<and>
      (m = n \<longrightarrow> k \<notin> dom (held t old)) \<and> (\<forall>m'. m' \<noteq> n \<longrightarrow> dom (held t m') \<subseteq> dom (held d m'))"
  proof (cases "m = n")
    case True
    then have own: "getNodeForKeyUnsafe k d3 = Some n" using m by simp
    obtain t where t: "migrate_key n old data k (c0, d) = Some (c0 + 1, t)" "migrating dc n d3 t"
      "held t old = (held d old)(k := None)"
      using migrate_key_step [where data = data and k = k and c = c0, OF Cons.prems(1) n old v data(2) [OF v] own] by blast
    moreover have "dom (held t m') \<subseteq> dom (held d m')" if m': "m' \<noteq> n" for m'
      using migrate_key_frame [OF t(1) m'] t(3) by (cases "m' = old") auto
    ultimately show ?thesis by auto
  next
    case False
    then have "migrate_key n old data k (c0, d) = Some (c0, d)"
      using v m same_ring_getNode [OF migratingD(1) [OF Cons.prems(1)]] by (simp add: migrate_key_def)
    then show ?thesis using Cons.prems(1) False by auto
  qed
  then obtain c1 d1 where d1: "migrate_key n old data k (c0, d) = Some (c1, d1)" "migrating dc n d3 d1"
    "m = n \<longrightarrow> k \<notin> dom (held d1 old)" "\<And>m'. m' \<noteq> n \<Longrightarrow> dom (held d1 m') \<subseteq> dom (held d m')"
    by blast
  obtain c t where t: "foldM (migrate_key n old data) ks (c1, d1) = Some (c, t)" "migrating dc n d3 t"
    "\<And>k. k \<in> set ks \<Longrightarrow> getNodeForKeyUnsafe k d3 = Some n \<Longrightarrow> k \<notin> dom (held t old)"
    "\<And>m. m \<noteq> n \<Longrightarrow> dom (held t m) \<subseteq> dom (held d1 m)"
    using Cons.IH [OF d1(2), of c1] Cons.prems(2) by auto
  have "k \<notin> dom (held t old)" if "getNodeForKeyUnsafe k d3 = Some n"
    using that m d1(3) t(4) [OF old(2)] by auto
  then have "\<forall>x \<in> set (k # ks). getNodeForKeyUnsafe x d3 = Some n \<longrightarrow> x \<notin> dom (held t old)"
    using t(3) by auto
  moreover have "dom (held t m') \<subseteq> dom (held d m')" if "m' \<noteq> n" for m'
    using t(4) [OF that] d1(4) [OF that] by (rule subset_trans)
  ultimately show ?case using d1(1) t(1,2) by auto
qed auto

text \<open>Going through the positions of the new node; positions the new node is found responsible for itself are skipped.\<close>

lemma migrate_position_step:
  assumes J: "migrating dc n d3 d" and n: "n \<in> dom (LocalCaches d3)" and ne: "nonempty_ring d3"
    and old: "findResponsibleNodeInOldRing p hs d3 = old" "old \<in> dom (LocalCaches d3)" "old \<noteq> n" "old \<noteq> []"
    and ord: "fair_order ord"
  shows "\<exists>c t. migrate_position now ord n hs p (c0, d) = Some (c, t) \<and> migrating dc n d3 t \<and>
    (\<forall>k. getNodeForKeyUnsafe k d3 = Some n \<longrightarrow> k \<notin> dom (held t old)) \<and>
    (\<forall>m. m \<noteq> n \<longrightarrow> dom (held t m) \<subseteq> dom (held d m))"
proof -
  note JD = migratingD [OF J]
  have rn: "ring_node d = ring_node d3"
    using JD(1) by (simp add: same_ring_def ring_node_def fun_eq_iff)
  have resp: "findResponsibleNodeInOldRing p hs d = old"
    unfolding old(1) [symmetric] findResponsibleNodeInOldRing_def rn ..
  obtain oc where oc: "LocalCaches d old = Some oc" using old(2) JD(3) by blast
  have good: "node_cache 1000 oc" using JD(2) oc by (auto simp: dc_inv_def caches_ok_def)
  let ?data = "held d old"
  have data: "lru_GetAllData (\<lambda>_. now) oc = ?data" using good oc by (simp add: GetAllData_node_cache)
  have "finite (dom ?data)" using good oc by (simp add: node_lru.abs_finite)
  then have keys: "set (ord ?data) = dom ?data" using ord by (auto simp: fair_order_def is_order_def)
  have step: "migrate_position now ord n hs p (c0, d) =
      foldM (migrate_key n old ?data) (ord ?data) (c0, d)"
    using old(3,4) oc by (simp add: migrate_position_def resp data Let_def)
  have sub: "set (ord ?data) \<subseteq> dom ?data" by (simp add: keys)
  have val: "dc_lookup dc k = Some v" if "?data k = Some v" for k v using that by (rule JD(6))
  obtain c t where t: "foldM (migrate_key n old ?data) (ord ?data) (c0, d) = Some (c, t)" "migrating dc n d3 t"
    "\<forall>k \<in> dom ?data. getNodeForKeyUnsafe k d3 = Some n \<longrightarrow> k \<notin> dom (held t old)"
    "\<forall>m. m \<noteq> n \<longrightarrow> dom (held t m) \<subseteq> dom (held d m)"
    using migrate_keys_loop [OF J n ne old(2,3) sub val, where ?c0.0 = c0] unfolding keys by blast
  then have "\<forall>k. getNodeForKeyUnsafe k d3 = Some n \<longrightarrow> k \<notin> dom (held t old)"
    using old(3) by blast
  with step t show ?thesis by auto
qed

lemma migrate_position_skip:
  assumes "same_ring d d3" "findResponsibleNodeInOldRing p hs d3 = n"
  shows "migrate_position now ord n hs p (c0, d) = Some (c0, d)"
proof -
  have rn: "ring_node d = ring_node d3" using assms(1) by (simp add: same_ring_def ring_node_def fun_eq_iff)
  have "findResponsibleNodeInOldRing p hs d = n"
    unfolding assms(2) [symmetric] findResponsibleNodeInOldRing_def rn ..
  then show ?thesis by (simp add: migrate_position_def)
qed

lemma migrate_positions_loop:
  assumes J: "migrating dc n d3 d" and n: "n \<in> dom (LocalCaches d3)" and ne: "nonempty_ring d3"
    and ord: "fair_order ord"
    and resp: "\<And>p. p \<in> set ps \<Longrightarrow> findResponsibleNodeInOldRing p hs d3 \<in> dom (LocalCaches d3) - {[]}"
  shows "\<exists>c t. foldM (migrate_position now ord n hs) ps (c0, d) = Some (c, t) \<and> migrating dc n d3 t \<and>
    (\<forall>p \<in> set ps. \<forall>k. findResponsibleNodeInOldRing p hs d3 \<noteq> n \<and> getNodeForKeyUnsafe k d3 = Some n \<longrightarrow>
        k \<notin> dom (held t (findResponsibleNodeInOldRing p hs d3))) \<and>
    (\<forall>m. m \<noteq> n \<longrightarrow> dom (held t m) \<subseteq> dom (held d m))"
  using J resp
proof (induction ps arbitrary: d c0)
  case (Cons p ps)
  let ?old = "findResponsibleNodeInOldRing p hs d3"
  have old: "?old \<in> dom (LocalCaches d3)" "?old \<noteq> []" using Cons.prems(2) [of p] by auto
  obtain c1 d1 where d1: "migrate_position now ord n hs p (c0, d) = Some (c1, d1)" "migrating dc n d3 d1"
    "\<And>k. ?old \<noteq> n \<Longrightarrow> getNodeForKeyUnsafe k d3 = Some n \<Longrightarrow> k \<notin> dom (held d1 ?old)"
    "\<And>m. m \<noteq> n \<Longrightarrow> dom (held d1 m) \<subseteq> dom (held d m)"
  proof (cases "?old = n")
    case True
    then show thesis using migrate_position_skip [OF migratingD(1) [OF Cons.prems(1)] True] Cons.prems(1) that by blast
  next
    case False
    then show thesis
      using migrate_position_step [where now = now and ?c0.0 = c0, OF Cons.prems(1) n ne refl old(1) False old(2) ord] that
      by blast
  qed
  obtain c t where t: "foldM (migrate_position now ord n hs) ps (c1, d1) = Some (c, t)" "migrating dc n d3 t"
    "\<And>p k. p \<in> set ps \<Longrightarrow> findResponsibleNodeInOldRing p hs d3 \<noteq> n \<Longrightarrow> getNodeForKeyUnsafe k d3 = Some n \<Longrightarrow>
        k \<notin> dom (held t (findResponsibleNodeInOldRing p hs d3))"
    "\<And>m. m \<noteq> n \<Longrightarrow> dom (held t m) \<subseteq> dom (held d1 m)"
    using Cons.IH [OF d1(2) Cons.prems(2), of c1] by auto
  have "k \<notin> dom (held t ?old)" if "?old \<noteq> n" "getNodeForKeyUnsafe k d3 = Some n" for k
    using d1(3) [OF that] t(4) [OF that(1)] by blast
  then have "\<forall>q \<in> set (p # ps). \<forall>k. findResponsibleNodeInOldRing q hs d3 \<noteq> n \<and> getNodeForKeyUnsafe k d3 = Some n \<longrightarrow>
      k \<notin> dom (held t (findResponsibleNodeInOldRing q hs d3))"
    using t(3) by (metis set_ConsD)
  moreover have "dom (held t m) \<subseteq> dom (held d m)" if "m \<noteq> n" for m
    using t(4) [OF that] d1(4) [OF that] by (rule subset_trans)
  ultimately show ?case using d1(1) t(1,2) by (intro exI [of _ c] exI [of _ t]) simp
qed auto

text \<open>The cluster after the new node has been put on the ring, with an empty cache.\<close>

definition joined :: "string \<Rightarrow> lru_cache \<Rightarrow> dist_cache \<Rightarrow> dist_cache" where
  "joined n c dc = addNodeToHashRing n (dc\<lparr> Nodes := Nodes dc @ [n], LocalCaches := (LocalCaches dc)(n \<mapsto> c) \<rparr>)"

lemma joined_sel:
  "HashRing (joined n c dc) = HashRing dc ++ (\<lambda>h. if h \<in> positions dc n then Some n else None)"
  "LocalCaches (joined n c dc) = (LocalCaches dc)(n \<mapsto> c)" "VirtualNodes (joined n c dc) = VirtualNodes dc"
  "dom (HashRing (joined n c dc)) = dom (HashRing dc) \<union> positions dc n"
  "contents c = Map.empty \<Longrightarrow> held (joined n c dc) m = (if m = n then Map.empty else held dc m)"
proof -
  let ?d = "dc\<lparr> Nodes := Nodes dc @ [n], LocalCaches := (LocalCaches dc)(n \<mapsto> c) \<rparr>"
  have pos: "positions ?d n = positions dc n" by (simp add: positions_def)
  show ring: "HashRing (joined n c dc) = HashRing dc ++ (\<lambda>h. if h \<in> positions dc n then Some n else None)"
    unfolding joined_def addNodeToHashRing_sel pos by simp
  show caches: "LocalCaches (joined n c dc) = (LocalCaches dc)(n \<mapsto> c)" "VirtualNodes (joined n c dc) = VirtualNodes dc"
    unfolding joined_def addNodeToHashRing_sel by simp_all
  show "dom (HashRing (joined n c dc)) = dom (HashRing dc) \<union> positions dc n"
    by (auto simp: ring split: if_splits)
  show "held (joined n c dc) m = (if m = n then Map.empty else held dc m)" if "contents c = Map.empty"
    using that by (simp add: held_def caches)
qed

lemma joined_inv:
  assumes "dc_inv dc" "nonempty_ring dc" "n \<noteq> []" "node_cache 1000 c"
  shows "dc_inv (joined n c dc)" "nonempty_ring (joined n c dc)"
proof -
  have "ring_inv (dc\<lparr> Nodes := Nodes dc @ [n], LocalCaches := (LocalCaches dc)(n \<mapsto> c) \<rparr>)"
    using assms(1) by (simp add: dc_inv_def ring_inv_def)
  then have "ring_inv (joined n c dc)" unfolding joined_def using assms(3) by (rule addNodeToHashRing_inv)
  moreover have "ran (HashRing (joined n c dc)) \<subseteq> insert n (ran (HashRing dc))"
    by (auto simp: joined_sel ran_def map_add_def split: if_splits)
  ultimately show "dc_inv (joined n c dc)"
    using assms(1,4) by (auto simp: dc_inv_def caches_ok_def joined_sel)
  show "nonempty_ring (joined n c dc)" using assms(2) by (simp add: joined_sel)
qed

lemma joined_owner:
  assumes "dc_inv dc" "nonempty_ring dc" "n \<noteq> []" "node_cache 1000 c"
  shows "getNodeForKeyUnsafe k (joined n c dc) = getNodeForKeyUnsafe k dc \<or> getNodeForKeyUnsafe k (joined n c dc) = Some n"
proof -
  have "ring_inv dc" "ring_inv (joined n c dc)" using assms(1) joined_inv(1) [OF assms] by (simp_all add: dc_inv_def)
  moreover have "finite (positions dc n)" by (simp add: positions_def)
  ultimately show ?thesis
    using core_ring.add_node_monotone [OF _ _ assms(2) _ joined_sel(1)] by (simp add: getNode_locate)
qed

text \<open>
  Any join, also of a member and on positions that are taken: the data that is served afterwards was served before. A member
  that joins again starts with an empty cache, so the migration begins in the cluster without that member's data.
\<close>

definition without_data :: "string \<Rightarrow> dist_cache \<Rightarrow> dist_cache" where
  "without_data n dc = dc\<lparr> LocalCaches := (LocalCaches dc)(n := None) \<rparr>"

lemma without_data_sel:
  "getNodeForKeyUnsafe k (without_data n dc) = getNodeForKeyUnsafe k dc"
  "held (without_data n dc) m = (if m = n then Map.empty else held dc m)"
  by (simp_all add: without_data_def getNodeForKeyUnsafe_def ring_node_def held_def)

lemma without_data_lookup:
  "dc_lookup (without_data n dc) k = Some w \<Longrightarrow> dc_lookup dc k = Some w"
  "n \<notin> dom (LocalCaches dc) \<Longrightarrow> dc_lookup (without_data n dc) = dc_lookup dc"
proof -
  show "dc_lookup dc k = Some w" if "dc_lookup (without_data n dc) k = Some w"
    using that by (auto simp: dc_lookup_def without_data_sel split: option.splits if_splits)
  show "dc_lookup (without_data n dc) = dc_lookup dc" if "n \<notin> dom (LocalCaches dc)"
  proof -
    have "without_data n dc = dc" using that by (simp add: without_data_def fun_upd_idem domIff)
    then show ?thesis by simp
  qed
qed

lemma migrating_start:
  assumes "dc_inv dc" "placed dc" "nonempty_ring dc" "n \<noteq> []" "node_cache 1000 c" "contents c = Map.empty"
  shows "migrating (without_data n dc) n (joined n c dc) (joined n c dc)"
  unfolding migrating_def
proof (intro conjI allI impI)
  note h = joined_sel(5) [OF assms(6)]
  show "if m = n then getNodeForKeyUnsafe k (joined n c dc) = Some n else getNodeForKeyUnsafe k (without_data n dc) = Some m"
    if "k \<in> dom (held (joined n c dc) m)" for m k
    using that assms(2) by (cases "m = n") (simp_all add: h placed_def without_data_sel)
  show "dc_lookup (without_data n dc) k = Some w" if "held (joined n c dc) m k = Some w" for m k w
  proof -
    have m: "m \<noteq> n" "held dc m k = Some w" using that by (simp_all add: h split: if_splits)
    then have "getNodeForKeyUnsafe k dc = Some m" using assms(2) unfolding placed_def by blast
    then show ?thesis using m by (simp add: dc_lookup_def without_data_sel)
  qed
  show "held (joined n c dc) m k = Some w \<or> held (joined n c dc) n k = Some w"
    if "dc_lookup (without_data n dc) k = Some w \<and> getNodeForKeyUnsafe k (without_data n dc) = Some m" for m k w
    using that by (auto simp: h dc_lookup_def without_data_sel split: if_splits)
qed (simp_all add: joined_inv [OF assms(1,3-5)])

lemma responsible_ran:
  assumes "ring_inv dc" "nonempty_ring dc"
  shows "findResponsibleNodeInOldRing p (SortedHashes dc) d = ring_node d (ring_succ (dom (HashRing dc)) p)"
    "ring_succ (dom (HashRing dc)) p \<in> dom (HashRing dc)"
proof -
  have S: "sorted (SortedHashes dc)" "set (SortedHashes dc) = dom (HashRing dc)" "SortedHashes dc \<noteq> []"
    using assms unfolding ring_inv_def by (simp, simp, metis set_empty)
  then show "findResponsibleNodeInOldRing p (SortedHashes dc) d = ring_node d (ring_succ (dom (HashRing dc)) p)"
    using search_hash_succ [OF S(1,3), of p] by (simp add: findResponsibleNodeInOldRing_def)
  have "finite (dom (HashRing dc))" using S(2) by (metis List.finite_set)
  then show "ring_succ (dom (HashRing dc)) p \<in> dom (HashRing dc)" using assms(2) by (intro ring_succ_in)
qed

lemma dc_AddNode_migrates:
  assumes inv: "dc_inv dc" "placed dc" "nonempty_ring dc" "n \<noteq> []" and ord: "fair_order ord"
  obtains c cnt t where "dc_AddNode now d ord ring_order n dc = Some (updateBasicMigrationStats now cnt d t)"
    "node_cache 1000 c" "migrating (without_data n dc) n (joined n c dc) t"
    "\<And>p k. p \<in> set (ring_order (joined n c dc)) \<Longrightarrow> HashRing (joined n c dc) p = Some n \<Longrightarrow>
      findResponsibleNodeInOldRing p (SortedHashes dc) (joined n c dc) \<noteq> n \<Longrightarrow> getNodeForKeyUnsafe k (joined n c dc) = Some n \<Longrightarrow>
      k \<notin> dom (held t (findResponsibleNodeInOldRing p (SortedHashes dc) (joined n c dc)))"
proof -
  obtain c where c: "NewLRUCache 1000 = Some c" "node_cache 1000 c" "contents c = Map.empty"
    using node_cache_new [of 1000] by auto
  let ?d = "joined n c dc"
  note J = joined_inv [OF inv(1,3,4) c(2)]
  have ring: "ring_inv dc" using inv(1) by (simp add: dc_inv_def)
  have resp: "findResponsibleNodeInOldRing p (SortedHashes dc) ?d \<in> dom (LocalCaches ?d) - {[]}" for p
  proof -
    have "ring_succ (dom (HashRing dc)) p \<in> dom (HashRing ?d)" using responsible_ran(2) [OF ring inv(3)] by (simp add: joined_sel)
    then obtain m where "HashRing ?d (ring_succ (dom (HashRing dc)) p) = Some m" by blast
    moreover from this have "m \<in> dom (LocalCaches ?d)" "m \<noteq> []" using J(1) by (auto simp: dc_inv_def ring_inv_def ran_def)
    ultimately show ?thesis by (simp add: responsible_ran(1) [OF ring inv(3)] ring_node_def)
  qed
  have n: "n \<in> dom (LocalCaches ?d)" by (simp add: joined_sel)
  let ?ps = "filter (\<lambda>h. HashRing ?d h = Some n) (ring_order ?d)"
  obtain cnt t where t: "foldM (migrate_position now ord n (SortedHashes dc)) ?ps (0, ?d) = Some (cnt, t)"
    "migrating (without_data n dc) n ?d t"
    "\<And>p k. p \<in> set ?ps \<Longrightarrow> findResponsibleNodeInOldRing p (SortedHashes dc) ?d \<noteq> n \<Longrightarrow> getNodeForKeyUnsafe k ?d = Some n \<Longrightarrow>
        k \<notin> dom (held t (findResponsibleNodeInOldRing p (SortedHashes dc) ?d))"
    using migrate_positions_loop [where ps = ?ps and now = now and ?c0.0 = 0, OF migrating_start [OF inv(1-4) c(2,3)] n J(2) ord resp]
    by blast
  have "dc_AddNode now d ord ring_order n dc = Some (updateBasicMigrationStats now cnt d t)"
    using t(1) by (simp add: dc_AddNode_def new_local_cache_def c(1) joined_def [symmetric] migrateDataForAddedNode_def Let_def)
  then show thesis using that c(2) t(2,3) by simp
qed

lemma dc_AddNode_sound:
  assumes inv: "dc_inv dc" "placed dc" "nonempty_ring dc" "n \<noteq> []" and ord: "fair_order ord"
  shows "\<exists>t. dc_AddNode now d ord ring_order n dc = Some t \<and> dc_inv t \<and>
    (\<forall>k. GetNodeForKey k t = GetNodeForKey k dc \<or> GetNodeForKey k t = Some n) \<and> dc_lookup t \<subseteq>\<^sub>m dc_lookup dc"
proof -
  obtain c cnt t where t: "dc_AddNode now d ord ring_order n dc = Some (updateBasicMigrationStats now cnt d t)"
    "node_cache 1000 c" "migrating (without_data n dc) n (joined n c dc) t"
    by (rule dc_AddNode_migrates [where now = now and d = d and ring_order = ring_order, OF assms]) blast
  note TD = migratingD [OF t(3)]
  have "dc_lookup dc k = Some w" if "dc_lookup t k = Some w" for k w
  proof (rule without_data_lookup(1))
    show "dc_lookup (without_data n dc) k = Some w"
      using that TD(6) unfolding dc_lookup_def [of t] by (auto split: option.splits)
  qed
  then have "dc_lookup t \<subseteq>\<^sub>m dc_lookup dc" by (auto simp: map_le_def)
  moreover have "GetNodeForKey k (updateBasicMigrationStats now cnt d t) \<in> {GetNodeForKey k dc, Some n}" for k
    using joined_owner [OF inv(1,3,4) t(2), of k] same_ring_getNode [OF TD(1)]
    by (simp add: GetNodeForKey_def update_stats_ring)
  ultimately show ?thesis
    using t(1) TD(2) by (intro exI [of _ "updateBasicMigrationStats now cnt d t"]) (auto simp: update_stats_inv)
qed

text \<open>The whole operation, for a node whose virtual nodes meet no position that is already taken.\<close>

lemma dc_AddNode_spec:
  assumes inv: "dc_inv dc" "placed dc" "nonempty_ring dc"
    and n: "n \<notin> dom (LocalCaches dc)" "n \<noteq> []"
    and fresh: "positions dc n \<inter> dom (HashRing dc) = {}"
    and ord: "fair_order ord" "\<And>r. finite (dom (HashRing r)) \<Longrightarrow> is_order (HashRing r) (ring_order r)"
  shows "\<exists>t. dc_AddNode now d ord ring_order n dc = Some t \<and> dc_inv t \<and> placed t \<and>
    HashRing t = HashRing dc ++ (\<lambda>h. if h \<in> positions dc n then Some n else None) \<and>
    dom (LocalCaches t) = insert n (dom (LocalCaches dc)) \<and> VirtualNodes t = VirtualNodes dc \<and>
    (\<forall>k w. dc_lookup t k = Some w \<longrightarrow> dc_lookup dc k = Some w) \<and>
    (fits dc \<longrightarrow> dc_lookup t = dc_lookup dc)"
proof -
  obtain c cnt t where t: "dc_AddNode now d ord ring_order n dc = Some (updateBasicMigrationStats now cnt d t)"
    "node_cache 1000 c" "migrating (without_data n dc) n (joined n c dc) t"
    "\<And>p k. p \<in> set (ring_order (joined n c dc)) \<Longrightarrow> HashRing (joined n c dc) p = Some n \<Longrightarrow>
      findResponsibleNodeInOldRing p (SortedHashes dc) (joined n c dc) \<noteq> n \<Longrightarrow> getNodeForKeyUnsafe k (joined n c dc) = Some n \<Longrightarrow>
      k \<notin> dom (held t (findResponsibleNodeInOldRing p (SortedHashes dc) (joined n c dc)))"
    by (rule dc_AddNode_migrates [where now = now and d = d and ring_order = ring_order, OF inv n(2) ord(1)]) blast
  let ?d = "joined n c dc"
  have "without_data n dc = dc" using n(1) by (simp add: without_data_def fun_upd_idem domIff)
  then have mig: "migrating dc n ?d t" using t(3) by simp
  note TD = migratingD [OF mig] and J = joined_inv [OF inv(1,3) n(2) t(2)]
  have ring: "ring_inv dc" "ring_inv ?d" using inv(1) J(1) by (simp_all add: dc_inv_def)
  have fin: "finite (dom (HashRing dc))" "finite (positions dc n)"
    using ring(1) by (metis List.finite_set ring_inv_def) (simp add: positions_def)
  have n_ran: "n \<notin> ran (HashRing dc)" using inv(1) n(1) by (auto simp: dc_inv_def)
  have resp: "HashRing dc (ring_succ (dom (HashRing dc)) p) = Some (findResponsibleNodeInOldRing p (SortedHashes dc) ?d)" for p
    using responsible_ran [OF ring(1) inv(3), of p] fresh by (auto simp: ring_node_def joined_sel map_add_def)
  have own: "getNodeForKeyUnsafe k ?d = getNodeForKeyUnsafe k dc \<or> getNodeForKeyUnsafe k ?d = Some n" for k
    by (rule joined_owner [OF inv(1,3) n(2) t(2)])
  \<comment> \<open>a key the new node serves has left its old home\<close>
  have moved: "k \<notin> dom (held t m)"
    if k: "getNodeForKeyUnsafe k ?d = Some n" and m: "getNodeForKeyUnsafe k dc = Some m" for k m
  proof -
    let ?h = "hashKey k" and ?S = "dom (HashRing dc)"
    let ?p = "ring_succ (?S \<union> positions dc n) ?h"
    have p: "HashRing ?d ?p = Some n" using k getNode_succ [OF ring(2) J(2)] by (simp add: joined_sel(4))
    have "finite (dom (HashRing ?d))" using fin by (simp add: joined_sel(4))
    then have visit: "?p \<in> set (ring_order ?d)" using ord(2) [of ?d] p by (auto simp: is_order_def)
    have "ring_succ ?S ?p = ring_succ ?S ?h" by (rule ring_succ_arc [OF fin inv(3)])
    then have "findResponsibleNodeInOldRing ?p (SortedHashes dc) ?d = m"
      using resp [of ?p] m getNode_succ [OF ring(1) inv(3)] by simp
    moreover have "m \<noteq> n" using resp [of ?p] calculation n_ran by (auto simp: ran_def)
    ultimately show ?thesis using t(4) [OF visit p _ k] by simp
  qed
  have old_owner: "\<exists>m. getNodeForKeyUnsafe k dc = Some m \<and> m \<noteq> n" for k
  proof -
    obtain m where "getNodeForKeyUnsafe k dc = Some m" "m \<in> ran (HashRing dc)"
      by (rule getNode_total [OF ring(1) inv(3)])
    then show ?thesis using n_ran by auto
  qed
  have own_t: "getNodeForKeyUnsafe k t = getNodeForKeyUnsafe k ?d" for k
    by (rule same_ring_getNode [OF TD(1)])
  have placed_t: "placed t"
    unfolding placed_def own_t
  proof (intro allI impI)
    fix m k
    assume k: "k \<in> dom (held t m)"
    show "getNodeForKeyUnsafe k ?d = Some m"
    proof (cases "m = n")
      case False
      then have "getNodeForKeyUnsafe k dc = Some m" using TD(5) k by blast
      then show ?thesis using own [of k] moved [of k m] k by auto
    qed (use TD(4) k in simp)
  qed
  have sound: "dc_lookup dc k = Some w" if "dc_lookup t k = Some w" for k w
    using that TD(6) unfolding dc_lookup_def [of t] by (auto split: option.splits)
  have complete: "dc_lookup t = dc_lookup dc" if fit: "fits dc"
  proof (rule map_le_antisym)
    show "dc_lookup t \<subseteq>\<^sub>m dc_lookup dc" using sound by (auto simp: map_le_def)
    show "dc_lookup dc \<subseteq>\<^sub>m dc_lookup t"
      unfolding map_le_def
    proof
      fix k assume "k \<in> dom (dc_lookup dc)"
      then obtain w where w: "dc_lookup dc k = Some w" by blast
      obtain m where m: "getNodeForKeyUnsafe k dc = Some m" "m \<noteq> n" using old_owner by blast
      have "held t m k = Some w \<or> held t n k = Some w" by (rule TD(7) [OF fit w m(1)])
      then have "dc_lookup t k = Some w" using placed_lookup [OF placed_t] by blast
      then show "dc_lookup dc k = dc_lookup t k" using w by simp
    qed
  qed
  let ?t = "updateBasicMigrationStats now cnt d t"
  have "HashRing t = HashRing ?d" "VirtualNodes t = VirtualNodes ?d"
    using TD(1) by (simp_all add: same_ring_def)
  moreover have "dom (LocalCaches t) = insert n (dom (LocalCaches dc))" using TD(3) by (simp add: joined_sel(2))
  ultimately show ?thesis
    using t(1) TD(2) placed_t sound complete
    by (intro exI [of _ ?t]) (simp add: update_stats_sel joined_sel(1,3))
qed

end
