(* ===== verification/Dist_Props.thy ===== *)
theory Dist_Props
  imports Dist_Migrate
begin

text \<open>
  What the distributed cache of \<open>core/distributed_cache.go\<close> guarantees: over every sequence of reads,
  writes and membership changes the ring stays well formed and every key is stored where the ring
  looks for it; a read after a write returns the value; a membership change moves keys only to or
  from the node concerned and keeps their values. The last properties state what the code does when
  the last node leaves and when a member is added again.
\<close>

section \<open>Construction\<close>

lemma new_local_caches:
  assumes "caches_ok dc"
  shows "\<exists>t. foldM new_local_cache ns dc = Some t \<and> caches_ok t \<and> HashRing t = HashRing dc \<and>
    SortedHashes t = SortedHashes dc \<and> VirtualNodes t = VirtualNodes dc \<and> Nodes t = Nodes dc \<and>
    dom (LocalCaches t) = dom (LocalCaches dc) \<union> set ns \<and>
    (\<forall>n c. LocalCaches t n = Some c \<longrightarrow> LocalCaches dc n = Some c \<or> contents c = Map.empty)"
  using assms
proof (induction ns arbitrary: dc)
  case (Cons n ns)
  obtain c where c: "NewLRUCache 1000 = Some c" "node_cache 1000 c" "contents c = Map.empty"
    using node_cache_new [of 1000] by auto
  let ?d = "dc\<lparr> LocalCaches := (LocalCaches dc)(n \<mapsto> c) \<rparr>"
  have "caches_ok ?d" using Cons.prems c(2) by (auto simp: caches_ok_def)
  from Cons.IH [OF this] obtain t where t: "foldM new_local_cache ns ?d = Some t" "caches_ok t"
    "HashRing t = HashRing dc" "SortedHashes t = SortedHashes dc" "VirtualNodes t = VirtualNodes dc"
    "Nodes t = Nodes dc" "dom (LocalCaches t) = dom ((LocalCaches dc)(n \<mapsto> c)) \<union> set ns"
    "\<forall>m x. LocalCaches t m = Some x \<longrightarrow> ((LocalCaches dc)(n \<mapsto> c)) m = Some x \<or> contents x = Map.empty"
    by (auto simp del: dom_fun_upd fun_upd_apply)
  have "foldM new_local_cache (n # ns) dc = Some t" using c(1) t(1) by (simp add: new_local_cache_def)
  moreover have "LocalCaches dc m = Some x \<or> contents x = Map.empty" if "LocalCaches t m = Some x" for m x
    using t(8) that c(3) by (metis fun_upd_apply option.inject)
  ultimately show ?case using t(2-7) by (intro exI [of _ t]) auto
qed auto

lemma NewDistributedCache_spec:
  assumes nodes: "nodes \<noteq> []" "[] \<notin> set nodes" and v: "0 < v"
  shows "\<exists>t. NewDistributedCacheWithVirtualNodes nodes v = Some t \<and> dc_inv t \<and> placed t \<and>
    nonempty_ring t \<and> VirtualNodes t = v \<and> dom (LocalCaches t) = set nodes \<and>
    dc_lookup t = Map.empty"
proof -
  let ?z = "\<lparr> HashRing = Map.empty, Nodes = nodes, VirtualNodes = v, SortedHashes = [],
          LocalCaches = Map.empty,
          BasicStats = \<lparr> MigratedKeys = 0, Duration = 0, LastMigration = None \<rparr> \<rparr>"
  have z: "ring_inv ?z" "\<forall>n \<in> set nodes. n \<noteq> []" using nodes by (auto simp: ring_inv_def)
  define dc where "dc = buildHashRing ?z"
  have b: "dc = fold addNodeToHashRing nodes ?z" by (simp add: dc_def buildHashRing_def)
  note B = buildHashRing_fold [OF z(2,1), folded b]
  have "caches_ok dc" using B by (simp add: caches_ok_def)
  then obtain t where t: "foldM new_local_cache nodes dc = Some t" "caches_ok t" "HashRing t = HashRing dc"
    "SortedHashes t = SortedHashes dc" "VirtualNodes t = VirtualNodes dc" "Nodes t = Nodes dc"
    "dom (LocalCaches t) = dom (LocalCaches dc) \<union> set nodes"
    "\<And>n c. LocalCaches t n = Some c \<Longrightarrow> LocalCaches dc n = Some c \<or> contents c = Map.empty"
    using new_local_caches by blast
  have held: "held t n = Map.empty" for n
    using t(8) [of n] B by (cases "LocalCaches t n") auto
  have inv: "dc_inv t"
    using B t by (auto simp: dc_inv_def ring_inv_def)
  obtain n where n: "n \<in> set nodes" using nodes(1) by (cases nodes) auto
  have "virtual_hash n 0 \<in> positions ?z n" using v by (auto simp: positions_def)
  then have "nonempty_ring t" using B t(3) n by auto
  moreover have "placed t" by (simp add: placed_def held)
  moreover have "dc_lookup t = Map.empty" by (auto simp: dc_lookup_def held fun_eq_iff split: option.split)
  moreover have "NewDistributedCacheWithVirtualNodes nodes v = Some t"
    using t(1) by (simp add: NewDistributedCacheWithVirtualNodes_def dc_def Let_def)
  ultimately show ?thesis using inv t(5,7) B by auto
qed

section \<open>Runs\<close>

text \<open>
  One call of the cluster: the reads and writes, a node joining under a new name whose positions are
  free, a member leaving while another node is on the ring. The visiting orders are arbitrary.
\<close>

inductive dc_step :: "dist_cache \<Rightarrow> dist_cache \<Rightarrow> bool" where
  step_Set: "dc_Set k v dc = Some (r, t) \<Longrightarrow> dc_step dc t"
| step_Get: "dc_Get now k dc = Some (r, t) \<Longrightarrow> dc_step dc t"
| step_Delete: "dc_Delete k dc = Some (r, t) \<Longrightarrow> dc_step dc t"
| step_Add: "n \<notin> dom (LocalCaches dc) \<Longrightarrow> n \<noteq> [] \<Longrightarrow> positions dc n \<inter> dom (HashRing dc) = {} \<Longrightarrow>
    fair_order ord \<Longrightarrow> (\<And>r. finite (dom (HashRing r)) \<Longrightarrow> is_order (HashRing r) (ring_order r)) \<Longrightarrow>
    dc_AddNode now d ord ring_order n dc = Some t \<Longrightarrow> dc_step dc t"
| step_Remove: "n \<in> dom (LocalCaches dc) \<Longrightarrow> \<exists>m \<in> ran (HashRing dc). m \<noteq> n \<Longrightarrow>
    fair_order ord \<Longrightarrow> is_order (HashRing dc) order \<Longrightarrow>
    dc_RemoveNode now d ord order n dc = Some (r, t) \<Longrightarrow> dc_step dc t"

inductive dc_reachable :: "string list \<Rightarrow> int \<Rightarrow> dist_cache \<Rightarrow> bool" for nodes v where
  reach_init: "NewDistributedCacheWithVirtualNodes nodes v = Some dc \<Longrightarrow> dc_reachable nodes v dc"
| reach_step: "dc_reachable nodes v dc \<Longrightarrow> dc_step dc t \<Longrightarrow> dc_reachable nodes v t"

lemma dc_step_inv:
  assumes "dc_step dc t" "dc_inv dc" "placed dc" "nonempty_ring dc"
  shows "dc_inv t \<and> placed t \<and> nonempty_ring t"
  using assms
proof cases
  case (step_Set k v r)
  then show ?thesis using dc_Set_spec [OF assms(2-4), of k v] assms(4) by auto
next
  case (step_Get now k r)
  then show ?thesis using dc_Get_spec [OF assms(2-4), of now k] assms(4) by auto
next
  case (step_Delete k r)
  then show ?thesis using dc_Delete_spec [OF assms(2-4), of k] assms(4) by auto
next
  case (step_Add n ord ring_order now d)
  obtain t' where "dc_AddNode now d ord ring_order n dc = Some t'" "dc_inv t'" "placed t'"
    "HashRing t' = HashRing dc ++ (\<lambda>h. if h \<in> positions dc n then Some n else None)"
    using dc_AddNode_spec [where now = now and d = d, OF assms(2-4) step_Add(1-5)] by blast
  moreover have "t' = t" using step_Add(6) calculation(1) by simp
  moreover have "nonempty_ring t'" using assms(4) calculation(4) by auto
  ultimately show ?thesis by simp
next
  case (step_Remove n ord order now d r)
  obtain t' where t': "dc_RemoveNode now d ord order n dc = Some (Inr (), t')" "dc_inv t'" "placed t'"
    "HashRing t' = (\<lambda>h. if HashRing dc h = Some n then None else HashRing dc h)"
    using dc_RemoveNode_spec [where now = now and d = d, OF assms(2,3) step_Remove(1-4)] by blast
  obtain h m where "HashRing dc h = Some m" "m \<noteq> n" using step_Remove(2) by (auto simp: ran_def)
  then have "HashRing t' h = Some m" by (simp add: t'(4))
  then have "nonempty_ring t'" by auto
  then show ?thesis using t' step_Remove(5) by simp
qed

lemma dc_reachable_inv:
  assumes "dc_reachable nodes v dc" "nodes \<noteq> []" "[] \<notin> set nodes" "0 < v"
  shows "dc_inv dc \<and> placed dc \<and> nonempty_ring dc"
  using assms
proof (induction rule: dc_reachable.induct)
  case (reach_init dc)
  then show ?case using NewDistributedCache_spec [of nodes v] by auto
next
  case (reach_step dc t)
  then show ?case using dc_step_inv by blast
qed

section \<open>Properties\<close>

text \<open>C8: in every reachable cluster the binary search over the sorted positions finds the node of the
  least virtual position that is not below the key's hash, or of the least position of all when there
  is none, and that node has a cache.\<close>

theorem ring_lookup_is_successor:
  assumes "dc_reachable nodes v dc" "nodes \<noteq> []" "[] \<notin> set nodes" "0 < v"
  shows "\<exists>n. GetNodeForKey k dc = Some n \<and>
    HashRing dc (if \<exists>x \<in> dom (HashRing dc). hashKey k \<le> x
       then Min {x \<in> dom (HashRing dc). hashKey k \<le> x} else Min (dom (HashRing dc))) = Some n \<and>
    n \<in> dom (LocalCaches dc)"
proof -
  have inv: "dc_inv dc" "placed dc" "nonempty_ring dc" using dc_reachable_inv [OF assms] by auto
  obtain n c where n: "getNodeForKeyUnsafe k dc = Some n" "LocalCaches dc n = Some c" "node_cache 1000 c"
    by (rule owner_cache [OF inv(1,3)])
  have "ring_inv dc" using inv(1) by (simp add: dc_inv_def)
  then have "HashRing dc (ring_succ (dom (HashRing dc)) (hashKey k)) = Some n"
    using getNode_succ [of dc k] inv(3) n(1) by simp
  then show ?thesis using n by (auto simp: GetNodeForKey_def ring_succ_def)
qed

lemma single_node_cluster:
  "\<exists>dc. NewDistributedCacheWithVirtualNodes [''n1''] 1 = Some dc \<and> dc_reachable [''n1''] 1 dc \<and>
     dom (LocalCaches dc) = {''n1''}"
  using NewDistributedCache_spec [of "[''n1'']" 1] by (auto intro: reach_init)

theorem ring_lookup_is_successor_witness:
  "\<exists>dc. dc_reachable [''n1''] 1 dc \<and> GetNodeForKey ''k'' dc = Some ''n1''"
proof -
  obtain dc where dc: "dc_reachable [''n1''] 1 dc" "dom (LocalCaches dc) = {''n1''}"
    using single_node_cluster by blast
  then show ?thesis using ring_lookup_is_successor [OF dc(1), of "''k''"] by auto
qed

text \<open>C9: whatever calls were made, with whatever iteration orders of the maps, a key is only ever stored
  at the node to which the ring routes it, so no read can miss data that is held elsewhere. The calls are reads, writes,
  deletes, joins of nodes that are no members on positions that are free, and leaves of members while another node is on the
  ring; \<open>joining_on_taken_position\<close> shows that a join on a taken position does misplace keys.\<close>

theorem keys_stay_where_routed:
  assumes "dc_reachable nodes v dc" "nodes \<noteq> []" "[] \<notin> set nodes" "0 < v"
    and "LocalCaches dc n = Some c" "lru_map c k \<noteq> None"
  shows "GetNodeForKey k dc = Some n"
proof -
  have inv: "dc_inv dc" "placed dc" using dc_reachable_inv [OF assms(1-4)] by auto
  have "lru_inv c" using inv(1) assms(5) by (auto simp: dc_inv_def caches_ok_def node_cache_def)
  then have "k \<in> dom (held dc n)" using assms(5,6) inv_lookup [of c k] by (auto simp: contents_def)
  then show ?thesis using inv(2) by (simp add: placed_def GetNodeForKey_def)
qed

theorem keys_stay_where_routed_witness:
  "\<exists>dc c. dc_reachable [''n1''] 1 dc \<and> LocalCaches dc ''n1'' = Some c \<and> lru_map c ''k'' \<noteq> None \<and>
     GetNodeForKey ''k'' dc = Some ''n1''"
proof -
  obtain d0 where d0: "dc_reachable [''n1''] 1 d0" "dom (LocalCaches d0) = {''n1''}"
    using single_node_cluster by blast
  have inv: "dc_inv d0" "placed d0" "nonempty_ring d0" using dc_reachable_inv [OF d0(1)] by auto
  obtain dc where dc: "dc_Set ''k'' ''v'' d0 = Some (Inr (), dc)" "dc_lookup dc ''k'' = Some ''v''"
    using dc_Set_spec [OF inv, of "''k''" "''v''"] by blast
  have r: "dc_reachable [''n1''] 1 dc" using d0(1) dc(1) by (auto intro: reach_step step_Set)
  have inv': "dc_inv dc" using dc_reachable_inv [OF r] by auto
  obtain n c where n: "getNodeForKeyUnsafe ''k'' dc = Some n" "LocalCaches dc n = Some c"
    using dc(2) by (auto simp: dc_lookup_def held_def split: option.splits)
  have "lru_inv c" using inv' n(2) by (auto simp: dc_inv_def caches_ok_def node_cache_def)
  then have k: "lru_map c ''k'' \<noteq> None"
    using dc(2) n inv_lookup [of c "''k''"] by (auto simp: dc_lookup_def contents_def)
  have "GetNodeForKey ''k'' dc = Some n"
    by (rule keys_stay_where_routed [OF r _ _ _ n(2) k]) simp_all
  moreover have "n = ''n1''"
  proof -
    have "n \<in> dom (LocalCaches dc)" using n(2) by auto
    also have "dom (LocalCaches dc) = dom (LocalCaches d0)" using dc_Set_spec [OF inv, of "''k''" "''v''"] dc(1) by auto
    finally show ?thesis using d0(2) by simp
  qed
  ultimately show ?thesis using r n(2) k by blast
qed

text \<open>C10: a \<open>Get\<close> after a \<open>Set\<close> of the same key returns the value just written, a \<open>Get\<close> of another key
  returns what it would have returned before or misses (the write may have evicted it), and it misses
  only when the cluster holds more than the 1000 keys of one node.\<close>

theorem set_then_get:
  assumes "dc_reachable nodes v dc" "nodes \<noteq> []" "[] \<notin> set nodes" "0 < v"
    and "dc_Set k x dc = Some (r, t)"
  shows "r = Inr () \<and>
    (\<exists>u. dc_Get now k t = Some (Inr (x, True), u)) \<and>
    (\<forall>k'. k' \<noteq> k \<longrightarrow> (\<exists>u u' g. dc_Get now k' dc = Some (Inr g, u) \<and>
       (dc_Get now k' t = Some (Inr g, u') \<or>
        dc_Get now k' t = Some (Inr ([], False), u') \<and>
          \<not> (finite (dom (dc_lookup dc)) \<and> card (insert k (dom (dc_lookup dc))) \<le> 1000))))"
proof -
  have inv: "dc_inv dc" "placed dc" "nonempty_ring dc" using dc_reachable_inv [OF assms(1-4)] by auto
  have t: "r = Inr ()" "dc_inv t" "placed t" "nonempty_ring t" "dc_lookup t k = Some x"
    "\<And>k' w. k' \<noteq> k \<Longrightarrow> dc_lookup t k' = Some w \<Longrightarrow> dc_lookup dc k' = Some w"
    "card (insert k (dom (dc_lookup dc))) \<le> 1000 \<Longrightarrow> finite (dom (dc_lookup dc)) \<Longrightarrow>
      dc_lookup t = (dc_lookup dc)(k \<mapsto> x)"
    using dc_Set_spec [OF inv, of k x] assms(5) inv(3) by auto
  have get: "\<exists>u. dc_Get now k' d = Some (Inr (case dc_lookup d k' of None \<Rightarrow> ([], False) | Some v \<Rightarrow> (v, True)), u)"
    if "d = dc \<or> d = t" for d k'
    using dc_Get_spec [of d now k'] inv t(2-4) that by blast
  have "\<exists>u u' g. dc_Get now k' dc = Some (Inr g, u) \<and>
       (dc_Get now k' t = Some (Inr g, u') \<or>
        dc_Get now k' t = Some (Inr ([], False), u') \<and>
          \<not> (finite (dom (dc_lookup dc)) \<and> card (insert k (dom (dc_lookup dc))) \<le> 1000))"
    if k': "k' \<noteq> k" for k'
  proof -
    obtain u where u: "dc_Get now k' dc = Some (Inr (case dc_lookup dc k' of None \<Rightarrow> ([], False) | Some v \<Rightarrow> (v, True)), u)"
      using get by blast
    obtain u' where u': "dc_Get now k' t = Some (Inr (case dc_lookup t k' of None \<Rightarrow> ([], False) | Some v \<Rightarrow> (v, True)), u')"
      using get by blast
    show ?thesis
    proof (cases "dc_lookup t k' = dc_lookup dc k'")
      case True
      then show ?thesis using u u' by auto
    next
      case False
      then have "dc_lookup t k' = None" using t(6) [OF k'] by (cases "dc_lookup t k'") auto
      moreover have "\<not> (finite (dom (dc_lookup dc)) \<and> card (insert k (dom (dc_lookup dc))) \<le> 1000)"
        using t(7) k' False by auto
      ultimately show ?thesis using u u' by auto
    qed
  qed
  moreover have "\<exists>u. dc_Get now k t = Some (Inr (x, True), u)" using get [of t k] t(5) by simp
  ultimately show ?thesis using t(1) by blast
qed

theorem set_then_get_witness:
  "\<exists>dc t u. dc_reachable [''n1''] 1 dc \<and> dc_Set ''k'' ''v'' dc = Some (Inr (), t) \<and>
     dc_Get 0 ''k'' t = Some (Inr (''v'', True), u)"
proof -
  obtain dc where dc: "dc_reachable [''n1''] 1 dc" using single_node_cluster by blast
  have inv: "dc_inv dc" "placed dc" "nonempty_ring dc" using dc_reachable_inv [OF dc] by auto
  obtain t where t: "dc_Set ''k'' ''v'' dc = Some (Inr (), t)"
    using dc_Set_spec [OF inv, of "''k''" "''v''"] by blast
  then show ?thesis using set_then_get [OF dc _ _ _ t, of 0] dc by auto
qed

text \<open>C11: any join, also of a member and on positions that are taken, returns, routes every key as before or to the new node, and
  no value is served afterwards that was not served before for that key. When the node is no member and its positions are free
  it only takes over keys from the other nodes: afterwards every key is where the ring routes it, and while the data fits one
  node's cache every value is still found.\<close>

theorem add_node_keeps_data:
  assumes "dc_inv dc" "placed dc" "dom (HashRing dc) \<noteq> {}" "n \<noteq> []"
    and "fair_order ord" "\<And>r. finite (dom (HashRing r)) \<Longrightarrow> is_order (HashRing r) (ring_order r)"
  shows "\<exists>t. dc_AddNode now d ord ring_order n dc = Some t \<and>
    (\<forall>k. GetNodeForKey k t = GetNodeForKey k dc \<or> GetNodeForKey k t = Some n) \<and> dc_lookup t \<subseteq>\<^sub>m dc_lookup dc \<and>
    (n \<notin> dom (LocalCaches dc) \<and> positions dc n \<inter> dom (HashRing dc) = {} \<longrightarrow>
      placed t \<and> (fits dc \<longrightarrow> dc_lookup t = dc_lookup dc))"
proof -
  obtain t where t: "dc_AddNode now d ord ring_order n dc = Some t"
    "\<forall>k. GetNodeForKey k t = GetNodeForKey k dc \<or> GetNodeForKey k t = Some n" "dc_lookup t \<subseteq>\<^sub>m dc_lookup dc"
    using dc_AddNode_sound [where now = now and d = d and ring_order = ring_order, OF assms(1-5)] by blast
  have "placed t \<and> (fits dc \<longrightarrow> dc_lookup t = dc_lookup dc)"
    if "n \<notin> dom (LocalCaches dc) \<and> positions dc n \<inter> dom (HashRing dc) = {}"
    using dc_AddNode_spec [where now = now and d = d, OF assms(1-3) _ assms(4) _ assms(5,6)] that t(1) by auto
  with t show ?thesis by blast
qed

text \<open>A cluster of one node with one virtual position.\<close>

definition one_node :: "uint32 \<Rightarrow> lru_cache \<Rightarrow> dist_cache" where
  "one_node p c = \<lparr> HashRing = [p \<mapsto> ''n1''], Nodes = [''n1''], VirtualNodes = 1,
     SortedHashes = [p], LocalCaches = [''n1'' \<mapsto> c],
     BasicStats = \<lparr> MigratedKeys = 0, Duration = 0, LastMigration = None \<rparr> \<rparr>"

text \<open>Its position is next to the first position of the node that joins in the examples.\<close>

abbreviation (input) ring_beside :: "lru_cache \<Rightarrow> dist_cache" where
  "ring_beside \<equiv> one_node (virtual_hash ''n2'' 0 + 1)"

lemma one_node_owner: "getNodeForKeyUnsafe k (one_node p c) = Some ''n1''"
  using search_hash_succ [of "[p]" "hashKey k"]
  by (simp add: getNodeForKeyUnsafe_def one_node_def ring_node_def)

lemma one_node_inv:
  assumes "node_cache 1000 c"
  shows "dc_inv (one_node p c)" "placed (one_node p c)" "dom (HashRing (one_node p c)) \<noteq> {}"
proof -
  show "dc_inv (one_node p c)"
    using assms by (simp add: dc_inv_def ring_inv_def caches_ok_def one_node_def)
  show "placed (one_node p c)"
    by (simp add: placed_def one_node_owner) (simp add: held_def one_node_def)
qed (simp add: one_node_def)

lemma one_node_lookup: "dc_lookup (one_node p c) = contents c"
  by (rule ext) (simp add: dc_lookup_def one_node_owner, simp add: one_node_def held_def)

lemma cache_with_k: "\<exists>c. node_cache 1000 c \<and> contents c = [''k'' \<mapsto> ''v'']"
proof -
  obtain c0 where c0: "node_cache 1000 c0" "contents c0 = Map.empty"
    using node_cache_new [of 1000] by auto
  obtain c where set: "lru_Set ''k'' ''v'' c0 = Some c" using node_lru.put_total [OF c0(1)] by blast
  have c: "node_cache 1000 c" by (rule node_lru.put_inv [OF c0(1) set])
  have "contents c = [''k'' \<mapsto> ''v'']"
    using node_lru.put_room [OF c0(1) set] by (simp add: c0(2))
  with c show ?thesis by blast
qed

text \<open>A visiting order for the positions: ascending.\<close>

definition hash_order :: "dist_cache \<Rightarrow> uint32 list" where
  "hash_order r = sorted_list_of_set (dom (HashRing r))"

lemma hash_order: "finite (dom (HashRing r)) \<Longrightarrow> is_order (HashRing r) (hash_order r)"
  by (simp add: hash_order_def is_order_def)

theorem add_node_keeps_data_witness:
  "\<exists>c t. contents c ''k'' = Some ''v'' \<and> dc_AddNode 0 0 ascending hash_order ''n2'' (ring_beside c) = Some t \<and>
     dc_lookup t ''k'' = Some ''v''"
proof -
  obtain c where c: "node_cache 1000 c" and k: "contents c = [''k'' \<mapsto> ''v'']" using cache_with_k by blast
  note inv = one_node_inv [OF c]
  have look: "dc_lookup (ring_beside c) = [''k'' \<mapsto> ''v'']"
    by (simp add: one_node_lookup k)
  have fits: "fits (ring_beside c)" by (simp add: fits_def look)
  have n2: "''n2'' \<noteq> []" "''n2'' \<notin> dom (LocalCaches (ring_beside c)) \<and> positions (ring_beside c) ''n2'' \<inter> dom (HashRing (ring_beside c)) = {}"
    by (simp_all add: one_node_def positions_def)
  obtain t where "dc_AddNode 0 0 ascending hash_order ''n2'' (ring_beside c) = Some t"
      "dc_lookup t = dc_lookup (ring_beside c)"
    using add_node_keeps_data [where ord = ascending and ring_order = hash_order, OF inv n2(1) fair_ascending hash_order] n2(2) fits by blast
  then show ?thesis using k look by (intro exI [of _ c] exI [of _ t]) simp
qed

text \<open>
  A join on a taken position: the migration asks the ring that already has the new node who was responsible before, is told the new
  node, and moves nothing. The key stays with its old owner, where no read looks for it.
\<close>

theorem joining_on_taken_position:
  "\<exists>c t. dc_inv (one_node (virtual_hash ''n2'' 0) c) \<and> placed (one_node (virtual_hash ''n2'' 0) c) \<and>
    dc_lookup (one_node (virtual_hash ''n2'' 0) c) ''k'' = Some ''v'' \<and>
    dc_AddNode 0 0 ascending hash_order ''n2'' (one_node (virtual_hash ''n2'' 0) c) = Some t \<and>
    GetNodeForKey ''k'' t = Some ''n2'' \<and> dc_lookup t ''k'' = None \<and> held t ''n1'' ''k'' = Some ''v'' \<and> \<not> placed t"
proof -
  obtain c where c: "node_cache 1000 c" and k: "contents c = [''k'' \<mapsto> ''v'']" using cache_with_k by blast
  obtain c0 where c0: "NewLRUCache 1000 = Some c0" "contents c0 = Map.empty" using node_cache_new [of 1000] by auto
  let ?p = "virtual_hash ''n2'' 0"
  let ?dc = "one_node ?p c"
  define d3 where "d3 = \<lparr> HashRing = [?p \<mapsto> ''n2''], Nodes = [''n1'', ''n2''], VirtualNodes = 1, SortedHashes = [?p, ?p],
    LocalCaches = [''n1'' \<mapsto> c, ''n2'' \<mapsto> c0], BasicStats = \<lparr> MigratedKeys = 0, Duration = 0, LastMigration = None \<rparr> \<rparr>"
  have owner: "getNodeForKeyUnsafe x d3 = Some ''n2''" for x
    using search_hash_succ [of "[?p, ?p]" "hashKey x"] by (simp add: getNodeForKeyUnsafe_def d3_def ring_node_def)
  have "findResponsibleNodeInOldRing h [?p] d3 = ''n2''" for h
    using search_hash_succ [of "[?p]" h] by (simp add: findResponsibleNodeInOldRing_def d3_def ring_node_def)
  then have skip: "migrate_position 0 ascending ''n2'' [?p] h (0, d3) = Some (0, d3)" for h
    by (simp add: migrate_position_def)
  have "foldM (migrate_position 0 ascending ''n2'' [?p]) ps (0, d3) = Some (0, d3)" for ps
    by (induction ps) (simp_all add: skip)
  then have "migrateDataForAddedNode 0 ascending order ''n2'' [?p] d3 = Some (0, d3)" for order
    by (simp add: migrateDataForAddedNode_def Let_def)
  then have add: "dc_AddNode 0 0 ascending hash_order ''n2'' ?dc = Some (updateBasicMigrationStats 0 0 0 d3)"
    by (simp add: dc_AddNode_def new_local_cache_def c0(1) one_node_def addNodeToHashRing_def add_virtual_def d3_def)
  have held: "held d3 ''n1'' ''k'' = Some ''v''" "held d3 ''n2'' = Map.empty" by (simp_all add: held_def d3_def k c0(2))
  then have "dc_lookup d3 ''k'' = None" "\<not> placed d3" using owner by (auto simp: dc_lookup_def placed_def)
  moreover have "dc_lookup ?dc ''k'' = Some ''v''" by (simp add: one_node_lookup k)
  ultimately show ?thesis
    using one_node_inv(1,2) [OF c] add held(1) owner
    by (intro exI [of _ c] exI [of _ "updateBasicMigrationStats 0 0 0 d3"]) (simp add: update_stats_sel GetNodeForKey_def)
qed

text \<open>C12: a member that leaves while another node is on the ring hands its data over: the routing of every
  key it did not serve is unchanged, every value found afterwards was there before, and while the data
  fits one node's cache every value is still found.\<close>

theorem remove_node_keeps_data:
  assumes "dc_inv dc" "placed dc" "n \<in> dom (LocalCaches dc)" "\<exists>m \<in> ran (HashRing dc). m \<noteq> n"
    and "fair_order ord" "is_order (HashRing dc) ring_order"
  shows "\<exists>t. dc_RemoveNode now d ord ring_order n dc = Some (Inr (), t) \<and> placed t \<and>
    n \<notin> dom (LocalCaches t) \<and>
    (\<forall>k. GetNodeForKey k dc \<noteq> Some n \<longrightarrow> GetNodeForKey k t = GetNodeForKey k dc) \<and>
    dc_lookup t \<subseteq>\<^sub>m dc_lookup dc \<and> (fits dc \<longrightarrow> dc_lookup t = dc_lookup dc)"
proof -
  obtain t where t: "dc_RemoveNode now d ord ring_order n dc = Some (Inr (), t)" "dc_inv t" "placed t"
    "HashRing t = (\<lambda>h. if HashRing dc h = Some n then None else HashRing dc h)"
    "dom (LocalCaches t) = dom (LocalCaches dc) - {n}"
    "\<And>k w. dc_lookup t k = Some w \<Longrightarrow> dc_lookup dc k = Some w" "fits dc \<longrightarrow> dc_lookup t = dc_lookup dc"
    using dc_RemoveNode_spec [where now = now and d = d, OF assms] by blast
  have ring: "ring_inv dc" "ring_inv t" using assms(1) t(2) by (simp_all add: dc_inv_def)
  have ne: "dom (HashRing dc) \<noteq> {}" using assms(4) by (auto simp: ran_def)
  have "GetNodeForKey k t = GetNodeForKey k dc" if "GetNodeForKey k dc \<noteq> Some n" for k
    using core_ring.remove_node_monotone [OF ring ne t(4)] that
    by (simp add: GetNodeForKey_def getNode_locate)
  with t show ?thesis by (auto simp: map_le_def)
qed

lemma two_node_cluster:
  "\<exists>dc. dc_inv dc \<and> placed dc \<and> ''n2'' \<in> dom (LocalCaches dc) \<and> ''n1'' \<in> ran (HashRing dc) \<and>
     dc_lookup dc = [''k'' \<mapsto> ''v'']"
proof -
  obtain c where c: "node_cache 1000 c" and k: "contents c = [''k'' \<mapsto> ''v'']" using cache_with_k by blast
  note inv = one_node_inv [OF c]
  have look: "dc_lookup (ring_beside c) = [''k'' \<mapsto> ''v'']"
    by (simp add: one_node_lookup k)
  have fits: "fits (ring_beside c)" by (simp add: fits_def look)
  have n2: "''n2'' \<notin> dom (LocalCaches (ring_beside c))" "''n2'' \<noteq> []"
    "positions (ring_beside c) ''n2'' \<inter> dom (HashRing (ring_beside c)) = {}"
    by (simp_all add: one_node_def positions_def)
  obtain t where t: "dc_inv t" "placed t"
    "HashRing t = HashRing (ring_beside c) ++
       (\<lambda>h. if h \<in> positions (ring_beside c) ''n2'' then Some ''n2'' else None)"
    "dom (LocalCaches t) = insert ''n2'' (dom (LocalCaches (ring_beside c)))"
    "dc_lookup t = dc_lookup (ring_beside c)"
    using dc_AddNode_spec [where now = 0 and d = 0, OF inv n2 fair_ascending hash_order] fits by blast
  have "HashRing t (virtual_hash ''n2'' 0 + 1) = Some ''n1''"
    by (simp add: t(3) map_add_def positions_def one_node_def)
  then have "''n1'' \<in> ran (HashRing t)" by (rule ranI)
  then show ?thesis using t look by (intro exI [of _ t]) simp
qed

theorem remove_node_keeps_data_witness:
  "\<exists>dc t. dc_lookup dc = [''k'' \<mapsto> ''v''] \<and>
     dc_RemoveNode 0 0 ascending (hash_order dc) ''n2'' dc = Some (Inr (), t) \<and> dc_lookup t ''k'' = Some ''v''"
proof -
  obtain dc where dc: "dc_inv dc" "placed dc" "''n2'' \<in> dom (LocalCaches dc)" "''n1'' \<in> ran (HashRing dc)"
    "dc_lookup dc = [''k'' \<mapsto> ''v'']"
    using two_node_cluster by blast
  have other: "\<exists>m \<in> ran (HashRing dc). m \<noteq> ''n2''" by (rule bexI [OF _ dc(4)]) simp
  have "finite (dom (HashRing dc))" using core_ring.fin [of dc] dc(1) by (simp add: dc_inv_def)
  note order = hash_order [OF this]
  have fits: "fits dc" by (simp add: fits_def dc(5))
  obtain t where "dc_RemoveNode 0 0 ascending (hash_order dc) ''n2'' dc = Some (Inr (), t)" "dc_lookup t = dc_lookup dc"
    using remove_node_keeps_data [OF dc(1-3) other fair_ascending order] fits by blast
  then show ?thesis using dc(5) by (intro exI [of _ dc] exI [of _ t]) simp
qed

text \<open>C13: removing the only node of the ring while it holds data panics: the redistribution looks a key up
  on an empty ring.\<close>

theorem remove_last_node_panics:
  assumes "dc_inv dc" "ran (HashRing dc) \<subseteq> {n}" "LocalCaches dc n = Some c" "lru_Size c > 0"
    and "fair_order ord" "is_order (HashRing dc) ring_order"
  shows "dc_RemoveNode now d ord ring_order n dc = panic"
proof -
  have c: "node_cache 1000 c" using assms(1,3) by (auto simp: dc_inv_def caches_ok_def)
  have data: "getAllDataFromCache now c = contents c"
    using c by (simp add: getAllDataFromCache_def GetAllData_node_cache)
  have "entries c \<noteq> []"
    using assms(4) c inv_size [of c] by (auto simp: node_cache_def lru_Size_def)
  then have "dom (contents c) \<noteq> {}" by (simp add: contents_def)
  moreover have "set (ord (contents c)) = dom (contents c)"
    using assms(5) node_lru.abs_finite [OF c] by (auto simp: fair_order_def is_order_def)
  ultimately obtain k ks v where ks: "ord (contents c) = k # ks" "contents c k = Some v"
    by (metis domD list.exhaust list.set_intros(1) set_empty)
  define d2 where "d2 = (removeNodeFromNodes n dc)\<lparr> LocalCaches := (LocalCaches dc)(n := None) \<rparr>"
  have d2: "ring_inv d2" "is_order (HashRing d2) ring_order" "HashRing d2 = HashRing dc"
    using assms(1,6) by (simp_all add: d2_def removeNodeFromNodes_def dc_inv_def ring_inv_def)
  obtain d3 where d3: "removeNodeFromHashRing ring_order n d2 = Some d3" "ring_inv d3"
    "HashRing d3 = (\<lambda>h. if HashRing dc h = Some n then None else HashRing dc h)"
    using removeNodeFromHashRing_spec [OF d2(1,2), of n] unfolding d2(3) by blast
  have "HashRing d3 h = None" for h
    using assms(2) by (cases "HashRing dc h") (auto simp: d3(3) dest: ranI)
  then have "HashRing d3 = Map.empty" by blast
  then have "getNodeForKeyUnsafe k d3 = panic" using getNode_empty [OF d3(2)] by blast
  then have "redistributeDataBasic (ord (contents c)) (contents c) d3 = panic"
    by (simp add: redistributeDataBasic_def ks redistribute_key_def)
  then show ?thesis
    using assms(3) d3(1)
    by (simp add: dc_RemoveNode_def data d2_def removeNodeFromNodes_def)
qed

theorem remove_last_node_panics_witness:
  "\<exists>c. LocalCaches (ring_beside c) ''n1'' = Some c \<and>
     dc_RemoveNode 0 0 ascending (hash_order (ring_beside c)) ''n1'' (ring_beside c) = panic"
proof -
  obtain c where c: "node_cache 1000 c" and k: "contents c = [''k'' \<mapsto> ''v'']" using cache_with_k by blast
  have n1: "LocalCaches (ring_beside c) ''n1'' = Some c" "ran (HashRing (ring_beside c)) \<subseteq> {''n1''}"
    by (simp_all add: one_node_def)
  have "entries c \<noteq> []"
    using k by (metis contents_def fun_upd_same map_of.simps(1) option.distinct(1))
  then have "lru_Size c > 0" using c inv_size [of c] by (simp add: node_cache_def lru_Size_def)
  moreover have "is_order (HashRing (ring_beside c)) (hash_order (ring_beside c))"
    by (rule hash_order) (simp add: one_node_def)
  ultimately show ?thesis
    using remove_last_node_panics [OF one_node_inv(1) [OF c] n1(2,1) _ fair_ascending] n1(1) by blast
qed

text \<open>Adding a node that is already a member (with its positions on the ring) succeeds but throws the
  data of that node away: its cache is replaced by an empty one and nothing is migrated to it.\<close>

theorem readd_node_loses_data:
  assumes "dc_inv dc" "dom (HashRing dc) \<noteq> {}" "n \<noteq> []"
    and "\<forall>h \<in> positions dc n. HashRing dc h = Some n"
  shows "\<exists>t. dc_AddNode now d ord ring_order n dc = Some t \<and>
    dc_lookup t = (\<lambda>k. if GetNodeForKey k dc = Some n then None else dc_lookup dc k)"
proof -
  obtain c where c: "NewLRUCache 1000 = Some c" "node_cache 1000 c" "contents c = Map.empty"
    using node_cache_new [of 1000] by auto
  have ring: "ring_inv dc" using assms(1) by (simp add: dc_inv_def)
  define d2 where "d2 = dc\<lparr> Nodes := Nodes dc @ [n], LocalCaches := (LocalCaches dc)(n \<mapsto> c) \<rparr>"
  define dc' where dc': "dc' = addNodeToHashRing n d2"
  have pos: "positions d2 n = positions dc n" by (simp add: d2_def positions_def)
  have hr: "HashRing dc' = HashRing dc"
    using assms(4) by (auto simp: dc' addNodeToHashRing_sel pos map_add_def fun_eq_iff) (simp_all add: d2_def)
  have caches: "LocalCaches dc' = (LocalCaches dc)(n \<mapsto> c)"
    by (simp add: dc' addNodeToHashRing_sel) (simp add: d2_def)
  have "ring_inv d2" using ring by (simp add: ring_inv_def d2_def)
  then have ring': "ring_inv dc'" unfolding dc' using assms(3) by (rule addNodeToHashRing_inv)
  have owner: "getNodeForKeyUnsafe k dc' = getNodeForKeyUnsafe k dc" for k
    using getNode_succ [OF ring] getNode_succ [OF ring'] assms(2) by (simp add: hr)
  have S: "sorted (SortedHashes dc)" "set (SortedHashes dc) = dom (HashRing dc)"
    using ring by (simp_all add: ring_inv_def)
  then have S_ne: "SortedHashes dc \<noteq> []" using assms(2) by (metis set_empty)
  have skip: "migrate_position now ord n (SortedHashes dc) p (0, dc') = Some (0, dc')"
    if p: "HashRing dc' p = Some n" for p
  proof -
    have "p \<in> dom (HashRing dc)" using p hr by auto
    moreover have "finite (dom (HashRing dc))" by (simp flip: S(2))
    ultimately have "ring_succ (dom (HashRing dc)) p = p"
      by (auto simp: ring_succ_def intro!: Min_eqI)
    then have "search_hash (SortedHashes dc) p = Some p"
      using search_hash_succ [OF S(1) S_ne] S(2) by simp
    then have "findResponsibleNodeInOldRing p (SortedHashes dc) dc' = n"
      using p S_ne by (simp add: findResponsibleNodeInOldRing_def ring_node_def)
    then show ?thesis by (simp add: migrate_position_def)
  qed
  have "foldM (migrate_position now ord n (SortedHashes dc)) ps (0, dc') = Some (0, dc')"
    if "\<forall>p \<in> set ps. HashRing dc' p = Some n" for ps
    using that by (induction ps) (simp_all add: skip)
  then have mig: "migrateDataForAddedNode now ord (ring_order dc') n (SortedHashes dc) dc' = Some (0, dc')"
    by (simp add: migrateDataForAddedNode_def Let_def)
  let ?t = "updateBasicMigrationStats now 0 d dc'"
  have "dc_AddNode now d ord ring_order n dc = Some ?t"
    using mig by (simp add: dc_AddNode_def new_local_cache_def c(1) dc' d2_def Let_def)
  moreover have "dc_lookup ?t = (\<lambda>k. if GetNodeForKey k dc = Some n then None else dc_lookup dc k)"
    unfolding update_stats_inv
  proof
    fix k
    show "dc_lookup dc' k = (if GetNodeForKey k dc = Some n then None else dc_lookup dc k)"
      by (cases "getNodeForKeyUnsafe k dc")
        (simp_all add: dc_lookup_def owner GetNodeForKey_def held_def caches c(3))
  qed
  ultimately show ?thesis by blast
qed

theorem readd_node_loses_data_witness:
  "\<exists>dc t. dc_lookup dc ''k'' = Some ''v'' \<and> dc_AddNode 0 0 ascending hash_order ''n1'' dc = Some t \<and>
     dc_lookup t ''k'' = None"
proof -
  obtain c where c: "node_cache 1000 c" and k: "contents c = [''k'' \<mapsto> ''v'']" using cache_with_k by blast
  let ?dc = "one_node (virtual_hash ''n1'' 0) c"
  have pos: "\<forall>h \<in> positions ?dc ''n1''. HashRing ?dc h = Some ''n1''"
    by (simp add: positions_def one_node_def)
  have n1: "''n1'' \<noteq> []" by simp
  obtain t where "dc_AddNode 0 0 ascending hash_order ''n1'' ?dc = Some t"
    "dc_lookup t = (\<lambda>k. if GetNodeForKey k ?dc = Some ''n1'' then None else dc_lookup ?dc k)"
    using readd_node_loses_data [OF one_node_inv(1,3) [OF c] n1 pos] c by blast
  then show ?thesis
    by (intro exI [of _ ?dc] exI [of _ t]) (simp add: one_node_lookup k GetNodeForKey_def one_node_owner)
qed

end
