(* ===== verification/Http.thy ===== *)
theory Http
  imports Prelude
begin

text \<open>
  The parts of \<open>encoding/json\<close>, \<open>net/url\<close> and \<open>net/http\<close> the servers and clients use. A JSON document
  is a value of the datatype \<open>json\<close>; encoding and decoding are inverse on it except that strings are
  made valid UTF-8 (\<open>utf8_fix\<close>), as \<open>encoding/json\<close> does. A URL built with \<open>Sprintf\<close> from a key is
  parsed by \<open>parse_target\<close>, so keys with reserved characters behave as they do in the program. The
  network is a parameter: a function from an address, a request and the state \<open>'w\<close> of the rest of the
  world to a response (or a transport error) and the new state of the world.
\<close>

section \<open>JSON\<close>

datatype json = JNull | JBool bool | JNum int | JRat rat | JStr string | JArr "json list" | JObj "(string \<times> json) list"

definition byte_in :: "char \<Rightarrow> nat \<Rightarrow> nat \<Rightarrow> bool" where
  "byte_in c lo hi \<longleftrightarrow> lo \<le> (of_char c :: nat) \<and> (of_char c :: nat) \<le> hi"

definition cont_byte :: "char \<Rightarrow> bool" where
  "cont_byte c = byte_in c 0x80 0xBF"

text \<open>Length of the valid UTF-8 encoding of one rune at the front, 0 when there is none.\<close>

fun rune_len :: "string \<Rightarrow> nat" where
  "rune_len [] = 0"
| "rune_len (a # s) =
     (if byte_in a 0 0x7F then 1
      else if byte_in a 0xC2 0xDF then
        (case s of b # _ \<Rightarrow> if cont_byte b then 2 else 0 | _ \<Rightarrow> 0)
      else if byte_in a 0xE0 0xEF then
        (case s of b # c # _ \<Rightarrow>
           if (if byte_in a 0xE0 0xE0 then byte_in b 0xA0 0xBF
               else if byte_in a 0xED 0xED then byte_in b 0x80 0x9F else cont_byte b) \<and> cont_byte c
           then 3 else 0 | _ \<Rightarrow> 0)
      else if byte_in a 0xF0 0xF4 then
        (case s of b # c # d # _ \<Rightarrow>
           if (if byte_in a 0xF0 0xF0 then byte_in b 0x90 0xBF
               else if byte_in a 0xF4 0xF4 then byte_in b 0x80 0x8F else cont_byte b)
              \<and> cont_byte c \<and> cont_byte d
           then 4 else 0 | _ \<Rightarrow> 0)
      else 0)"

definition replacement_char :: string where
  "replacement_char = [char_of (0xEF :: nat), char_of (0xBF :: nat), char_of (0xBD :: nat)]"

function utf8_fix :: "string \<Rightarrow> string" where
  "utf8_fix s =
     (if s = [] then []
      else if rune_len s = 0 then replacement_char @ utf8_fix (tl s)
      else take (rune_len s) s @ utf8_fix (drop (rune_len s) s))"
  by pat_completeness auto
termination
  by (relation "measure length") auto

declare utf8_fix.simps [simp del]

definition valid_utf8 :: "string \<Rightarrow> bool" where
  "valid_utf8 s \<longleftrightarrow> utf8_fix s = s"

lemma utf8_fix_ascii: "\<forall>c \<in> set s. byte_in c 0 0x7F \<Longrightarrow> utf8_fix s = s"
proof (induction s)
  case (Cons a s)
  then have "rune_len (a # s) = 1" by simp
  then show ?case using Cons by (subst utf8_fix.simps) simp
qed (subst utf8_fix.simps, simp)

lemma rune_len_bound: "rune_len s \<le> length s"
  by (cases s rule: rune_len.cases) (auto split: list.splits)

text \<open>The length of the first rune depends on its bytes only, so cutting a string into runes is not changed by cutting it
  again: a repaired string is valid.\<close>

lemma rune_len_take:
  assumes "rune_len s = n" "0 < n"
  shows "rune_len (take n s @ t) = n"
proof (cases s)
  case (Cons a s1)
  then show ?thesis
    using assms by (cases s1; cases "tl s1"; cases "tl (tl s1)") (auto split: if_splits)
qed (use assms in simp)

lemma utf8_fix_rune:
  assumes "rune_len s = n" "0 < n"
  shows "utf8_fix (take n s @ t) = take n s @ utf8_fix t"
proof -
  have "n \<le> length s" using rune_len_bound [of s] assms(1) by simp
  then show ?thesis
    using rune_len_take [OF assms, of t] assms by (subst utf8_fix.simps) auto
qed

lemma utf8_fix_idem: "utf8_fix (utf8_fix s) = utf8_fix s"
proof (induction s rule: utf8_fix.induct)
  case (1 s)
  have step: "utf8_fix (replacement_char @ t) = replacement_char @ utf8_fix t" for t
    using utf8_fix_rune [of replacement_char 3 t] by (simp add: replacement_char_def byte_in_def cont_byte_def)
  show ?case
  proof (cases "s = [] \<or> rune_len s = 0")
    case True
    then show ?thesis using 1(1) step by (subst (2 3) utf8_fix.simps) (auto simp: utf8_fix.simps [of "[]"])
  next
    case False
    then have "utf8_fix s = take (rune_len s) s @ utf8_fix (drop (rune_len s) s)" by (subst utf8_fix.simps) simp
    then show ?thesis using 1(2) utf8_fix_rune [OF refl] False by simp
  qed
qed

lemma valid_utf8_fix: "valid_utf8 (utf8_fix s)"
  by (simp add: valid_utf8_def utf8_fix_idem)

lemma utf8_fix_Nil_iff: "utf8_fix s = [] \<longleftrightarrow> s = []"
  by (subst utf8_fix.simps) (auto simp: replacement_char_def rune_len_bound)

text \<open>\<open>json.Marshal\<close> of a document, as seen by whoever decodes it.\<close>

fun marshal :: "json \<Rightarrow> json" where
  "marshal (JStr s) = JStr (utf8_fix s)"
| "marshal (JArr xs) = JArr (map marshal xs)"
| "marshal (JObj kvs) = JObj (map (\<lambda>(k, v). (utf8_fix k, marshal v)) kvs)"
| "marshal j = j"

text \<open>
  Decoding into a struct field of type string: object keys match the field's name exactly or up to
  (ASCII) case, the last match wins, null leaves the field alone, any other type is an error.
\<close>

definition lower_char :: "char \<Rightarrow> char" where
  "lower_char c = (if byte_in c 65 90 then char_of (of_char c + 32 :: nat) else c)"

fun string_field :: "string \<Rightarrow> (string \<times> json) list \<Rightarrow> string \<Rightarrow> string option" where
  "string_field f [] acc = Some acc"
| "string_field f ((k, v) # kvs) acc =
     (if map lower_char k = map lower_char f then
        (case v of JStr s \<Rightarrow> string_field f kvs s | JNull \<Rightarrow> string_field f kvs acc | _ \<Rightarrow> None)
      else string_field f kvs acc)"

fun bool_field :: "string \<Rightarrow> (string \<times> json) list \<Rightarrow> bool \<Rightarrow> bool option" where
  "bool_field f [] acc = Some acc"
| "bool_field f ((k, v) # kvs) acc =
     (if map lower_char k = map lower_char f then
        (case v of JBool b \<Rightarrow> bool_field f kvs b | JNull \<Rightarrow> bool_field f kvs acc | _ \<Rightarrow> None)
      else bool_field f kvs acc)"

text \<open>The fields of an object; null decodes into a struct without setting anything.\<close>

fun object_fields :: "json \<Rightarrow> (string \<times> json) list option" where
  "object_fields (JObj kvs) = Some kvs"
| "object_fields JNull = Some []"
| "object_fields _ = None"

section \<open>Requests and responses\<close>

datatype http_method = GET | PUT | POST | DELETE | OPTIONS

record http_request =
  r_method :: http_method
  r_path :: string
  r_body :: "json option"

record http_response =
  r_status :: int
  r_json :: "json option"

abbreviation (input) StatusOK :: int where "StatusOK \<equiv> 200"
abbreviation (input) StatusNoContent :: int where "StatusNoContent \<equiv> 204"
abbreviation (input) StatusBadRequest :: int where "StatusBadRequest \<equiv> 400"
abbreviation (input) StatusNotFound :: int where "StatusNotFound \<equiv> 404"
abbreviation (input) StatusMethodNotAllowed :: int where "StatusMethodNotAllowed \<equiv> 405"
abbreviation (input) StatusInternalServerError :: int where "StatusInternalServerError \<equiv> 500"

definition json_response :: "int \<Rightarrow> json \<Rightarrow> http_response" where
  "json_response code body = \<lparr> r_status = code, r_json = Some (marshal body) \<rparr>"

section \<open>URLs\<close>

definition hex_value :: "char \<Rightarrow> nat option" where
  "hex_value c =
     (if byte_in c 48 57 then Some (of_char c - 48)
      else if byte_in c 65 70 then Some (of_char c - 55)
      else if byte_in c 97 102 then Some (of_char c - 87)
      else None)"

fun unescape :: "string \<Rightarrow> string option" where
  "unescape [] = Some []"
| "unescape (c # s) =
     (if c = CHR ''%'' then
        (case s of a # b # r \<Rightarrow> do {
           x \<leftarrow> hex_value a; y \<leftarrow> hex_value b; t \<leftarrow> unescape r; Some (char_of (16 * x + y) # t) }
         | _ \<Rightarrow> None)
      else map_option (\<lambda>t. c # t) (unescape s))"

definition before :: "char \<Rightarrow> string \<Rightarrow> string" where
  "before c s = takeWhile (\<lambda>x. x \<noteq> c) s"

text \<open>
  \<open>url.Parse\<close> on the part of a URL after the host: cut at the fragment and the query, no control
  characters, valid escapes; \<open>None\<close> is the error. The result is \<open>URL.Path\<close>.
\<close>

definition parse_target :: "string \<Rightarrow> string option" where
  "parse_target raw =
     (let main = before CHR ''#'' raw; frag = drop (length main + 1) raw in
      if \<exists>c \<in> set main. byte_in c 0 0x1F \<or> byte_in c 0x7F 0x7F then None
      else do { _ \<leftarrow> unescape frag; unescape (before CHR ''?'' main) })"

text \<open>Characters that mean themselves in a path segment.\<close>

definition plain_char :: "char \<Rightarrow> bool" where
  "plain_char c \<longleftrightarrow> c \<notin> set ''%?#/'' \<and> \<not> byte_in c 0 0x1F \<and> \<not> byte_in c 0x7F 0x7F"

definition plain_key :: "string \<Rightarrow> bool" where
  "plain_key k \<longleftrightarrow> k \<noteq> [] \<and> (\<forall>c \<in> set k. plain_char c)"

lemma unescape_plain: "CHR ''%'' \<notin> set s \<Longrightarrow> unescape s = Some s"
  by (induction s) auto

lemma before_absent: "c \<notin> set s \<Longrightarrow> before c s = s"
  by (auto simp: before_def takeWhile_eq_all_conv)

lemma plain_char_simps:
  assumes "plain_char c"
  shows "c \<noteq> CHR ''%''" "c \<noteq> CHR ''?''" "c \<noteq> CHR ''#''" "c \<noteq> CHR ''/''"
    "\<not> (byte_in c 0 0x1F \<or> byte_in c 0x7F 0x7F)"
  using assms unfolding plain_char_def by simp_all

lemma parse_target_plain:
  assumes "\<forall>c \<in> set s. c = CHR ''/'' \<or> plain_char c"
  shows "parse_target s = Some s"
proof -
  have absent: "x \<notin> set s" if "\<not> plain_char x" "x \<noteq> CHR ''/''" for x
    using assms that by blast
  have n: "CHR ''#'' \<notin> set s" "CHR ''?'' \<notin> set s" "CHR ''%'' \<notin> set s"
    by (rule absent; simp add: plain_char_def)+
  have slash: "\<not> (byte_in CHR ''/'' 0 0x1F \<or> byte_in CHR ''/'' 0x7F 0x7F)" by (simp add: byte_in_def)
  have "\<not> (byte_in x 0 0x1F \<or> byte_in x 0x7F 0x7F)" if "x \<in> set s" for x
    using bspec [OF assms that] slash plain_char_simps(5) [of x] by blast
  then have c: "(\<exists>c \<in> set s. byte_in c 0 0x1F \<or> byte_in c 0x7F 0x7F) = False" by blast
  have "parse_target s = Option.bind (unescape (drop (length s + 1) s)) (\<lambda>_. unescape s)"
    unfolding parse_target_def Let_def before_absent [OF n(1)] before_absent [OF n(2)] c if_False ..
  also have "\<dots> = Some s" by (simp add: unescape_plain [OF n(3)])
  finally show ?thesis .
qed

text \<open>Behind a question mark everything is the query, which the routes do not see.\<close>

lemma before_append: "c \<notin> set p \<Longrightarrow> before c (p @ c # q) = p"
  by (induction p) (auto simp: before_def)

lemma parse_target_query:
  assumes "\<forall>c \<in> set s. c = CHR ''/'' \<or> plain_char c" "\<forall>c \<in> set q. plain_char c"
  shows "parse_target (s @ ''?'' @ q) = Some s"
proof -
  have special: "\<not> plain_char CHR ''#''" "\<not> plain_char CHR ''?''" "\<not> plain_char CHR ''%''"
    by (simp_all add: plain_char_def)
  have n: "CHR ''#'' \<notin> set (s @ ''?'' @ q)" "CHR ''?'' \<notin> set s" "CHR ''%'' \<notin> set s"
    using assms special by auto
  have "\<not> (byte_in x 0 0x1F \<or> byte_in x 0x7F 0x7F)" if "x \<in> set (s @ ''?'' @ q)" for x
  proof -
    have "x = CHR ''/'' \<or> x = CHR ''?'' \<or> plain_char x" using that assms by auto
    then show ?thesis using plain_char_simps(5) [of x] by (auto simp: byte_in_def)
  qed
  then have c: "(\<exists>c \<in> set (s @ ''?'' @ q). byte_in c 0 0x1F \<or> byte_in c 0x7F 0x7F) = False" by blast
  have cut: "before CHR ''?'' (s @ ''?'' @ q) = s" using before_append [OF n(2), of q] by simp
  show ?thesis
    unfolding parse_target_def Let_def before_absent [OF n(1)] c cut if_False by (simp add: unescape_plain [OF n(3)])
qed

section \<open>The network\<close>

type_synonym 'w net = "string \<Rightarrow> http_request \<Rightarrow> 'w \<Rightarrow> http_response option \<times> 'w"

text \<open>
  \<open>http.NewRequest\<close> followed by \<open>Client.Do\<close>: a URL that does not parse is an error before anything is
  sent.
\<close>

definition http_do :: "'w net \<Rightarrow> http_method \<Rightarrow> string \<Rightarrow> string \<Rightarrow> json option \<Rightarrow> 'w \<Rightarrow> http_response option \<times> 'w" where
  "http_do net meth addr target body w =
     (case parse_target target of
        None \<Rightarrow> (None, w)
      | Some path \<Rightarrow> net addr \<lparr> r_method = meth, r_path = path, r_body = map_option marshal body \<rparr> w)"

end
