(* ===== verification/Dist_Node.thy ===== *)
theory Dist_Node
  imports Dist_Props Http
begin

text \<open>
  \<open>distributed/distributed_node.go\<close>: one process of the cluster. It keeps its own copy of the ring
  (\<open>hashRing\<close>, whose per-node caches it never reads), its \<open>localCache\<close> and the address book
  \<open>clusterNodes\<close>. A call works on the node's state and on the state \<open>'w\<close> of the world behind the
  network. The Go strings in error values are reduced to the data they carry.
\<close>

record dist_node =
  nodeID :: string
  nodeAddress :: string
  hashRing :: dist_cache
  localCache :: lru_cache
  clusterNodes :: "string \<rightharpoonup> string"

record node_config =
  cfg_NodeID :: string
  cfg_Address :: string
  cfg_ClusterNodes :: "string \<rightharpoonup> string"
  cfg_CacheSize :: int
  cfg_VirtualNodes :: int

text \<open>\<open>order\<close> is the order in which \<open>range config.ClusterNodes\<close> yields the identifiers.\<close>

definition NewDistributedNode :: "string list \<Rightarrow> node_config \<Rightarrow> dist_node option" where
  "NewDistributedNode order config = do {
     let allNodes = order;
     ring \<leftarrow> (if cfg_VirtualNodes config > 0
              then NewDistributedCacheWithVirtualNodes allNodes (cfg_VirtualNodes config)
              else NewDistributedCache allNodes);
     let cacheSize = (if cfg_CacheSize config \<le> 0 then 1000 else cfg_CacheSize config);
     local_cache \<leftarrow> NewLRUCache cacheSize;
     Some \<lparr> nodeID = cfg_NodeID config,
            nodeAddress = (case cfg_ClusterNodes config (cfg_NodeID config) of None \<Rightarrow> [] | Some a \<Rightarrow> a),
            hashRing = ring, localCache = local_cache, clusterNodes = cfg_ClusterNodes config \<rparr>
   }"

datatype node_error =
    TargetNodeMissing string
  | ForwardFailed
  | TargetStatus int
  | ResponseInvalid

type_synonym 'a node_result = "node_error + 'a"

definition internal_url :: "string \<Rightarrow> string" where
  "internal_url key = ''/internal/cache/'' @ key"

definition value_body :: "string \<Rightarrow> json" where
  "value_body v = JObj [(''value'', JStr v)]"

section \<open>Forwarding\<close>

definition forwardSetRequestSafe ::
  "'w net \<Rightarrow> string \<Rightarrow> string \<Rightarrow> string \<Rightarrow> 'w \<Rightarrow> unit node_result \<times> 'w" where
  "forwardSetRequestSafe net targetAddress key value w =
     (case http_do net PUT targetAddress (internal_url key) (Some (value_body value)) w of
        (None, w1) \<Rightarrow> (Inl ForwardFailed, w1)
      | (Some resp, w1) \<Rightarrow>
          (if r_status resp \<noteq> StatusOK then Inl (TargetStatus (r_status resp)) else Inr (), w1))"

definition forwardGetRequestSafe ::
  "'w net \<Rightarrow> string \<Rightarrow> string \<Rightarrow> 'w \<Rightarrow> (string \<times> bool) node_result \<times> 'w" where
  "forwardGetRequestSafe net targetAddress key w =
     (case http_do net GET targetAddress (internal_url key) None w of
        (None, w1) \<Rightarrow> (Inl ForwardFailed, w1)
      | (Some resp, w1) \<Rightarrow>
          (if r_status resp \<noteq> StatusOK then Inl (TargetStatus (r_status resp))
           else (case Option.bind (r_json resp) object_fields of
                   None \<Rightarrow> Inl ResponseInvalid
                 | Some kvs \<Rightarrow>
                     (case (string_field ''key'' kvs [], string_field ''value'' kvs [],
                            bool_field ''found'' kvs False) of
                        (Some _, Some v, Some f) \<Rightarrow> Inr (v, f)
                      | _ \<Rightarrow> Inl ResponseInvalid)), w1))"

definition forwardDeleteRequestSafe ::
  "'w net \<Rightarrow> string \<Rightarrow> string \<Rightarrow> 'w \<Rightarrow> unit node_result \<times> 'w" where
  "forwardDeleteRequestSafe net targetAddress key w =
     (case http_do net DELETE targetAddress (internal_url key) None w of
        (None, w1) \<Rightarrow> (Inl ForwardFailed, w1)
      | (Some resp, w1) \<Rightarrow>
          (if r_status resp \<noteq> StatusOK then Inl (TargetStatus (r_status resp)) else Inr (), w1))"

section \<open>Operations on the local cache\<close>

definition SetLocal :: "string \<Rightarrow> string \<Rightarrow> dist_node \<Rightarrow> dist_node option" where
  "SetLocal key value dn = do {
     c \<leftarrow> lru_Set key value (localCache dn);
     Some (dn\<lparr> localCache := c \<rparr>)
   }"

definition GetLocal :: "go_time \<Rightarrow> string \<Rightarrow> dist_node \<Rightarrow> ((string \<times> bool) \<times> dist_node) option" where
  "GetLocal now key dn = do {
     (r, c) \<leftarrow> lru_Get now key (localCache dn);
     Some (r, dn\<lparr> localCache := c \<rparr>)
   }"

definition DeleteLocal :: "string \<Rightarrow> dist_node \<Rightarrow> dist_node option" where
  "DeleteLocal key dn = do {
     (_, c) \<leftarrow> lru_Delete key (localCache dn);
     Some (dn\<lparr> localCache := c \<rparr>)
   }"

section \<open>Routed operations\<close>

definition dn_Set ::
  "'w net \<Rightarrow> string \<Rightarrow> string \<Rightarrow> dist_node \<times> 'w \<Rightarrow> (unit node_result \<times> dist_node \<times> 'w) option" where
  "dn_Set net key value st = (case st of (dn, w) \<Rightarrow> do {
     targetNodeID \<leftarrow> GetNodeForKey key (hashRing dn);
     if targetNodeID = nodeID dn then do {
       dn1 \<leftarrow> SetLocal key value dn;
       Some (Inr (), dn1, w)
     } else
       (case clusterNodes dn targetNodeID of
          None \<Rightarrow> Some (Inl (TargetNodeMissing targetNodeID), dn, w)
        | Some targetAddress \<Rightarrow>
            (case forwardSetRequestSafe net targetAddress key value w of (r, w1) \<Rightarrow> Some (r, dn, w1)))
   })"

definition dn_Get ::
  "'w net \<Rightarrow> go_time \<Rightarrow> string \<Rightarrow> dist_node \<times> 'w \<Rightarrow>
   ((string \<times> bool) node_result \<times> dist_node \<times> 'w) option" where
  "dn_Get net now key st = (case st of (dn, w) \<Rightarrow> do {
     targetNodeID \<leftarrow> GetNodeForKey key (hashRing dn);
     if targetNodeID = nodeID dn then do {
       (r, dn1) \<leftarrow> GetLocal now key dn;
       Some (Inr r, dn1, w)
     } else
       (case clusterNodes dn targetNodeID of
          None \<Rightarrow> Some (Inl (TargetNodeMissing targetNodeID), dn, w)
        | Some targetAddress \<Rightarrow>
            (case forwardGetRequestSafe net targetAddress key w of (r, w1) \<Rightarrow> Some (r, dn, w1)))
   })"

definition dn_Delete ::
  "'w net \<Rightarrow> string \<Rightarrow> dist_node \<times> 'w \<Rightarrow> (unit node_result \<times> dist_node \<times> 'w) option" where
  "dn_Delete net key st = (case st of (dn, w) \<Rightarrow> do {
     targetNodeID \<leftarrow> GetNodeForKey key (hashRing dn);
     if targetNodeID = nodeID dn then do {
       dn1 \<leftarrow> DeleteLocal key dn;
       Some (Inr (), dn1, w)
     } else
       (case clusterNodes dn targetNodeID of
          None \<Rightarrow> Some (Inl (TargetNodeMissing targetNodeID), dn, w)
        | Some targetAddress \<Rightarrow>
            (case forwardDeleteRequestSafe net targetAddress key w of (r, w1) \<Rightarrow> Some (r, dn, w1)))
   })"

section \<open>Observers and the address book\<close>

definition GetLocalStats :: "dist_node \<Rightarrow> json" where
  "GetLocalStats dn =
     (let stats = lru_GetStats (localCache dn) in
      JObj [(''total_Hits'', JNum (Hits stats)), (''total_Misses'', JNum (Misses stats)),
            (''total_Size'', JNum (lru_Size (localCache dn))), (''hit_Rate'', JRat (HitRate stats)),
            (''total_Requests'', JNum (TotalRequests stats))])"

definition GetNodeID :: "dist_node \<Rightarrow> string" where
  "GetNodeID dn = nodeID dn"

definition GetNodeAddress :: "dist_node \<Rightarrow> string" where
  "GetNodeAddress dn = nodeAddress dn"

definition IsLocalKey :: "string \<Rightarrow> dist_node \<Rightarrow> bool option" where
  "IsLocalKey key dn = do {
     targetNodeID \<leftarrow> GetNodeForKey key (hashRing dn);
     Some (targetNodeID = nodeID dn)
   }"

definition UpdateClusterNodes :: "(string \<rightharpoonup> string) \<Rightarrow> dist_node \<Rightarrow> dist_node" where
  "UpdateClusterNodes nodes dn = dn\<lparr> clusterNodes := nodes \<rparr>"

definition AddClusterNode :: "string \<Rightarrow> string \<Rightarrow> dist_node \<Rightarrow> dist_node" where
  "AddClusterNode node_id address dn = dn\<lparr> clusterNodes := (clusterNodes dn)(node_id \<mapsto> address) \<rparr>"

definition RemoveClusterNode :: "string \<Rightarrow> dist_node \<Rightarrow> dist_node" where
  "RemoveClusterNode node_id dn = dn\<lparr> clusterNodes := (clusterNodes dn)(node_id := None) \<rparr>"

definition GetClusterNodes :: "dist_node \<Rightarrow> (string \<rightharpoonup> string)" where
  "GetClusterNodes dn = clusterNodes dn"

end
