(* ===== verification/Cluster_Manager.thy ===== *)
theory Cluster_Manager
  imports Http
begin

text \<open>
  \<open>distributed/cluster_manager.go\<close>: the membership table of a node with the health of each member, the
  health check, the announcements to the other members and the health verdict. The map
  \<open>nodes\<close> holds pointers to \<open>NodeInfo\<close> that no other component keeps, so it is a map to records.
\<close>

record node_info =
  ni_NodeID :: string
  ni_Address :: string
  ni_Status :: string
  ni_LastSeen :: go_time
  ni_ResponseTime :: int

record cluster_manager =
  cm_nodeID :: string
  cm_nodes :: "string \<rightharpoonup> node_info"
  cm_stopped :: bool

record cluster_status =
  TotalNodes :: int
  HealthyNodes :: int
  UnhealthyNodes :: int
  StatusNodes :: "node_info list"
  LastUpdate :: go_time

definition new_node_info :: "go_time \<Rightarrow> string \<Rightarrow> string \<Rightarrow> node_info" where
  "new_node_info now node_id address =
     \<lparr> ni_NodeID = node_id, ni_Address = address, ni_Status = ''unknown'', ni_LastSeen = now,
       ni_ResponseTime = 0 \<rparr>"

definition NewClusterManager :: "go_time \<Rightarrow> string \<Rightarrow> (string \<rightharpoonup> string) \<Rightarrow> cluster_manager" where
  "NewClusterManager now node_id cluster_nodes =
     \<lparr> cm_nodeID = node_id,
       cm_nodes = (\<lambda>n. map_option (new_node_info now n) (cluster_nodes n)),
       cm_stopped = False \<rparr>"

definition cm_AddNode :: "go_time \<Rightarrow> string \<Rightarrow> string \<Rightarrow> cluster_manager \<Rightarrow> cluster_manager" where
  "cm_AddNode now node_id address cm =
     cm\<lparr> cm_nodes := (cm_nodes cm)(node_id \<mapsto> new_node_info now node_id address) \<rparr>"

definition cm_RemoveNode :: "string \<Rightarrow> cluster_manager \<Rightarrow> cluster_manager" where
  "cm_RemoveNode node_id cm = cm\<lparr> cm_nodes := (cm_nodes cm)(node_id := None) \<rparr>"

text \<open>Closing \<open>stopChan\<close> a second time panics.\<close>

definition cm_Stop :: "cluster_manager \<Rightarrow> cluster_manager option" where
  "cm_Stop cm = (if cm_stopped cm then panic else Some (cm\<lparr> cm_stopped := True \<rparr>))"

section \<open>Health checks\<close>

definition cm_checkNodeHealth :: "'w net \<Rightarrow> string \<Rightarrow> 'w \<Rightarrow> bool \<times> 'w" where
  "cm_checkNodeHealth net address w =
     (case http_do net GET address ''/internal/cluster/health'' None w of
        (None, w1) \<Rightarrow> (False, w1)
      | (Some resp, w1) \<Rightarrow> (r_status resp = StatusOK, w1))"

text \<open>One member; \<open>clk\<close> gives the clock at each of the readings of the loop body.\<close>

definition check_member ::
  "'w net \<Rightarrow> (string \<Rightarrow> go_time) \<Rightarrow> (string \<Rightarrow> int) \<Rightarrow> string \<Rightarrow> cluster_manager \<times> 'w \<Rightarrow> cluster_manager \<times> 'w" where
  "check_member net clk elapsed node_id st = (case st of (cm, w) \<Rightarrow>
     (case cm_nodes cm node_id of
        None \<Rightarrow> (cm, w)
      | Some node \<Rightarrow>
          if node_id = cm_nodeID cm then
            (cm\<lparr> cm_nodes := (cm_nodes cm)(node_id \<mapsto>
               node\<lparr> ni_Status := ''healthy'', ni_LastSeen := clk node_id \<rparr>) \<rparr>, w)
          else
            (case cm_checkNodeHealth net (ni_Address node) w of (healthy, w1) \<Rightarrow>
               (if healthy then
                  (cm\<lparr> cm_nodes := (cm_nodes cm)(node_id \<mapsto>
                     node\<lparr> ni_Status := ''healthy'', ni_LastSeen := clk node_id,
                           ni_ResponseTime := elapsed node_id \<rparr>) \<rparr>, w1)
                else
                  (cm\<lparr> cm_nodes := (cm_nodes cm)(node_id \<mapsto>
                     node\<lparr> ni_Status := ''unhealthy'', ni_ResponseTime := -1 \<rparr>) \<rparr>, w1)))))"

text \<open>\<open>order\<close> is the order in which \<open>range cm.nodes\<close> yields the members.\<close>

definition cm_performHealthCheck ::
  "'w net \<Rightarrow> (string \<Rightarrow> go_time) \<Rightarrow> (string \<Rightarrow> int) \<Rightarrow> string list \<Rightarrow> cluster_manager \<times> 'w \<Rightarrow> cluster_manager \<times> 'w" where
  "cm_performHealthCheck net clk elapsed order st = fold (check_member net clk elapsed) order st"

text \<open>The \<open>select\<close> loop of the health check over the events it receives.\<close>

datatype health_event = HealthTick "string \<Rightarrow> go_time" "string \<Rightarrow> int" "string list" | HealthStop

fun healthCheckLoop :: "'w net \<Rightarrow> health_event list \<Rightarrow> cluster_manager \<times> 'w \<Rightarrow> cluster_manager \<times> 'w" where
  "healthCheckLoop net [] st = st"
| "healthCheckLoop net (HealthStop # _) st = st"
| "healthCheckLoop net (HealthTick clk elapsed order # es) st =
     healthCheckLoop net es (cm_performHealthCheck net clk elapsed order st)"

section \<open>Announcements\<close>

definition notifyNodeJoin :: "'w net \<Rightarrow> string \<Rightarrow> (string \<times> json) list \<Rightarrow> 'w \<Rightarrow> 'w" where
  "notifyNodeJoin net targetAddr joinData w =
     snd (http_do net POST targetAddr ''/internal/cluster/join'' (Some (JObj joinData)) w)"

definition announceToCluster :: "'w net \<Rightarrow> string list \<Rightarrow> cluster_manager \<Rightarrow> 'w \<Rightarrow> 'w" where
  "announceToCluster net order cm w =
     (case cm_nodes cm (cm_nodeID cm) of
        None \<Rightarrow> w
      | Some currentNode \<Rightarrow>
          let joinData = [(''node_id'', JStr (cm_nodeID cm)), (''address'', JStr (ni_Address currentNode))]
          in fold (\<lambda>node_id w. case cm_nodes cm node_id of
                 None \<Rightarrow> w
               | Some node \<Rightarrow> if node_id \<noteq> cm_nodeID cm then notifyNodeJoin net (ni_Address node) joinData w else w)
               order w)"

definition notifyNodeLeave :: "'w net \<Rightarrow> string \<Rightarrow> (string \<times> json) list \<Rightarrow> 'w \<Rightarrow> 'w" where
  "notifyNodeLeave net targetAddr leaveData w =
     snd (http_do net POST targetAddr ''/internal/cluster/leave'' (Some (JObj leaveData)) w)"

definition cm_Leave :: "'w net \<Rightarrow> string list \<Rightarrow> cluster_manager \<Rightarrow> 'w \<Rightarrow> 'w" where
  "cm_Leave net order cm w =
     (let leaveData = [(''node_id'', JStr (cm_nodeID cm))];
          nodes = filter (\<lambda>node. ni_NodeID node \<noteq> cm_nodeID cm) (List.map_filter (cm_nodes cm) order)
      in fold (\<lambda>node. notifyNodeLeave net (ni_Address node) leaveData) nodes w)"

section \<open>Observers\<close>

definition cm_GetNodes :: "cluster_manager \<Rightarrow> (string \<rightharpoonup> node_info)" where
  "cm_GetNodes cm = cm_nodes cm"

definition cm_GetHealthyNodes :: "cluster_manager \<Rightarrow> (string \<rightharpoonup> node_info)" where
  "cm_GetHealthyNodes cm = (\<lambda>n. case cm_nodes cm n of
     None \<Rightarrow> None | Some node \<Rightarrow> if ni_Status node = ''healthy'' then Some node else None)"

definition count_status :: "node_info \<Rightarrow> cluster_status \<Rightarrow> cluster_status" where
  "count_status node st =
     (let st1 = st\<lparr> StatusNodes := StatusNodes st @ [node] \<rparr> in
      if ni_Status node = ''healthy'' then st1\<lparr> HealthyNodes := HealthyNodes st1 + 1 \<rparr>
      else st1\<lparr> UnhealthyNodes := UnhealthyNodes st1 + 1 \<rparr>)"

definition cm_GetClusterStatus :: "go_time \<Rightarrow> string list \<Rightarrow> cluster_manager \<Rightarrow> cluster_status" where
  "cm_GetClusterStatus now order cm =
     fold count_status (List.map_filter (cm_nodes cm) order)
       \<lparr> TotalNodes = map_len (cm_nodes cm), HealthyNodes = 0, UnhealthyNodes = 0, StatusNodes = [],
         LastUpdate = now \<rparr>"

text \<open>The comparison is with the integer quotient.\<close>

definition cm_IsHealthy :: "string list \<Rightarrow> cluster_manager \<Rightarrow> bool" where
  "cm_IsHealthy order cm =
     (let healthyCount = int (length (filter (\<lambda>node. ni_Status node = ''healthy'')
            (List.map_filter (cm_nodes cm) order)))
      in healthyCount \<ge> map_len (cm_nodes cm) div 2)"

section \<open>What they compute\<close>

lemma count_status_fold:
  "fold count_status ns st =
     st\<lparr> StatusNodes := StatusNodes st @ ns,
         HealthyNodes := HealthyNodes st + int (length (filter (\<lambda>n. ni_Status n = ''healthy'') ns)),
         UnhealthyNodes := UnhealthyNodes st + int (length (filter (\<lambda>n. ni_Status n \<noteq> ''healthy'') ns)) \<rparr>"
  by (induction ns arbitrary: st) (simp_all add: count_status_def Let_def)

end
