(* ===== verification/Coordinator.thy ===== *)
theory Coordinator
  imports Dist_Node Cluster_Manager
begin

text \<open>
  \<open>distributed/cluster_coordinator.go\<close>: joining and leaving. The coordinator has pointers to the node
  and to the cluster manager of its process; the state of a process is the pair of the two,
  \<open>node_state\<close>. What one call reads from its surroundings (the clock, an elapsed time, the orders in
  which Go visits its maps) is collected in a record \<open>env\<close>.
\<close>

record node_state =
  ns_node :: dist_node
  ns_cluster :: cluster_manager

record env =
  e_now :: go_time
  e_elapsed :: duration
  e_visit :: visit
  e_ring :: "dist_cache \<Rightarrow> uint32 list"
  e_members :: "(string \<rightharpoonup> node_info) \<Rightarrow> string list"

datatype coord_error = RingError dc_error | TooFewHealthyNodes | BroadcastFailed "string list"

type_synonym 'a coord_result = "coord_error + 'a"

definition upd_ring :: "dist_cache \<Rightarrow> node_state \<Rightarrow> node_state" where
  "upd_ring r ns = ns\<lparr> ns_node := (ns_node ns)\<lparr> hashRing := r \<rparr> \<rparr>"

section \<open>Moving local data over the network\<close>

definition migrateKeyToNode :: "'w net \<Rightarrow> string \<Rightarrow> string \<Rightarrow> string \<Rightarrow> 'w \<Rightarrow> bool \<times> 'w" where
  "migrateKeyToNode net key value addr w =
     (case http_do net PUT addr (internal_url key) (Some (value_body value)) w of
        (None, w1) \<Rightarrow> (False, w1)
      | (Some resp, w1) \<Rightarrow> (r_status resp = StatusOK, w1))"

definition send_key ::
  "'w net \<Rightarrow> string \<Rightarrow> string \<Rightarrow> (string \<rightharpoonup> string) \<Rightarrow> string \<Rightarrow> int \<times> dist_node \<times> 'w \<Rightarrow>
   (int \<times> dist_node \<times> 'w) option" where
  "send_key net newNodeID newNodeAddress allData key st = (case st of (migratedCount, dn, w) \<Rightarrow> do {
     value \<leftarrow> allData key;
     targetNodeID \<leftarrow> GetNodeForKey key (hashRing dn);
     if targetNodeID = newNodeID then
       (case migrateKeyToNode net key value newNodeAddress w of
          (False, w1) \<Rightarrow> Some (migratedCount, dn, w1)
        | (True, w1) \<Rightarrow> do {
            (_, c) \<leftarrow> lru_Delete key (localCache dn);
            Some (migratedCount + 1, dn\<lparr> localCache := c \<rparr>, w1)
          })
     else Some (migratedCount, dn, w)
   })"

definition updateMigrationStats :: "go_time \<Rightarrow> int \<Rightarrow> duration \<Rightarrow> dist_node \<Rightarrow> dist_node" where
  "updateMigrationStats now migratedCount d dn =
     (let st = BasicStats (hashRing dn) in
      dn\<lparr> hashRing := (hashRing dn)\<lparr> BasicStats :=
        \<lparr> MigratedKeys = MigratedKeys st + migratedCount, Duration = Duration st + d,
          LastMigration = Some now \<rparr> \<rparr> \<rparr>)"

definition performNetworkDataMigration ::
  "'w net \<Rightarrow> env \<Rightarrow> string \<Rightarrow> string \<Rightarrow> dist_node \<times> 'w \<Rightarrow> (dist_node \<times> 'w) option" where
  "performNetworkDataMigration net e newNodeID newNodeAddress st = (case st of (dn, w) \<Rightarrow> do {
     let allData = lru_GetAllData (\<lambda>_. e_now e) (localCache dn);
     (migratedCount, dn1, w1) \<leftarrow> foldM (send_key net newNodeID newNodeAddress allData) (e_visit e allData) (0, dn, w);
     Some (updateMigrationStats (e_now e) migratedCount (e_elapsed e) dn1, w1)
   })"

section \<open>Broadcast\<close>

definition change_body :: "string \<Rightarrow> string \<Rightarrow> string \<Rightarrow> json" where
  "change_body node_id address operation =
     JObj ([(''node_id'', JStr node_id)] @ (if address = [] then [] else [(''address'', JStr address)])
           @ [(''operation'', JStr operation)])"

definition sendNodeChangeRequest :: "'w net \<Rightarrow> string \<Rightarrow> json \<Rightarrow> string \<Rightarrow> 'w \<Rightarrow> bool \<times> 'w" where
  "sendNodeChangeRequest net targetAddress jsonData operation w =
     (if operation = ''add'' \<or> operation = ''remove'' then
        (case http_do net POST targetAddress
               (if operation = ''add'' then ''/internal/cluster/sync-add''
                else ''/internal/cluster/sync-remove'') (Some jsonData) w of
           (None, w1) \<Rightarrow> (False, w1)
         | (Some resp, w1) \<Rightarrow> (r_status resp = StatusOK, w1))
      else (False, w))"

definition broadcast_one ::
  "'w net \<Rightarrow> string \<Rightarrow> (string \<rightharpoonup> node_info) \<Rightarrow> json \<Rightarrow> string \<Rightarrow> string \<Rightarrow> string list \<times> 'w \<Rightarrow> string list \<times> 'w" where
  "broadcast_one net self nodes jsonData operation targetNodeID st = (case st of (errors, w) \<Rightarrow>
     (case nodes targetNodeID of
        None \<Rightarrow> (errors, w)
      | Some nodeInfo \<Rightarrow>
          if targetNodeID = self then (errors, w)
          else if ni_Status nodeInfo \<noteq> ''healthy'' then (errors, w)
          else (case sendNodeChangeRequest net (ni_Address nodeInfo) jsonData operation w of
                  (ok, w1) \<Rightarrow> (if ok then errors else errors @ [targetNodeID], w1))))"

definition broadcastNodeChange ::
  "'w net \<Rightarrow> env \<Rightarrow> string \<Rightarrow> string \<Rightarrow> string \<Rightarrow> node_state \<Rightarrow> 'w \<Rightarrow> unit coord_result \<times> 'w" where
  "broadcastNodeChange net e node_id address operation ns w =
     (let nodes = cm_GetNodes (ns_cluster ns) in
      case fold (broadcast_one net (GetNodeID (ns_node ns)) nodes (change_body node_id address operation) operation)
             (e_members e nodes) ([], w) of
        (errors, w1) \<Rightarrow> (if errors \<noteq> [] then Inl (BroadcastFailed errors) else Inr (), w1))"

section \<open>Joining and leaving\<close>

definition AddNodeToCluster ::
  "'w net \<Rightarrow> env \<Rightarrow> string \<Rightarrow> string \<Rightarrow> node_state \<times> 'w \<Rightarrow> (unit coord_result \<times> node_state \<times> 'w) option" where
  "AddNodeToCluster net e node_id address st = (case st of (ns, w) \<Rightarrow> do {
     let ns1 = ns\<lparr> ns_cluster := cm_AddNode (e_now e) node_id address (ns_cluster ns) \<rparr>;
     ring \<leftarrow> dc_AddNode (e_now e) (e_elapsed e) (e_visit e) (e_ring e) node_id (hashRing (ns_node ns1));
     let ns2 = upd_ring ring ns1;
     (dn, w1) \<leftarrow> performNetworkDataMigration net e node_id address (ns_node ns2, w);
     let ns3 = ns2\<lparr> ns_node := dn \<rparr>;
     let (_, w2) = broadcastNodeChange net e node_id address ''add'' ns3 w1;
     Some (Inr (), ns3, w2)
   })"

definition RemoveNodeFromCluster ::
  "'w net \<Rightarrow> env \<Rightarrow> string \<Rightarrow> node_state \<times> 'w \<Rightarrow> (unit coord_result \<times> node_state \<times> 'w) option" where
  "RemoveNodeFromCluster net e node_id st = (case st of (ns, w) \<Rightarrow> do {
     let hr = hashRing (ns_node ns);
     (r, ring) \<leftarrow> dc_RemoveNode (e_now e) (e_elapsed e) (e_visit e) (e_ring e hr) node_id hr;
     let ns1 = upd_ring ring ns;
     case r of
       Inl err \<Rightarrow> Some (Inl (RingError err), ns1, w)
     | Inr _ \<Rightarrow>
         let ns2 = ns1\<lparr> ns_cluster := cm_RemoveNode node_id (ns_cluster ns1) \<rparr>;
             (_, w1) = broadcastNodeChange net e node_id [] ''remove'' ns2 w
         in Some (Inr (), ns2, w1)
   })"

definition SyncAddNode ::
  "'w net \<Rightarrow> env \<Rightarrow> string \<Rightarrow> string \<Rightarrow> node_state \<times> 'w \<Rightarrow> (unit coord_result \<times> node_state \<times> 'w) option" where
  "SyncAddNode net e node_id address st = (case st of (ns, w) \<Rightarrow> do {
     let ns1 = ns\<lparr> ns_cluster := cm_AddNode (e_now e) node_id address (ns_cluster ns) \<rparr>;
     let ns2 = ns1\<lparr> ns_node := AddClusterNode node_id address (ns_node ns1) \<rparr>;
     ring \<leftarrow> dc_AddNode (e_now e) (e_elapsed e) (e_visit e) (e_ring e) node_id (hashRing (ns_node ns2));
     let ns3 = upd_ring ring ns2;
     (dn, w1) \<leftarrow> performNetworkDataMigration net e node_id address (ns_node ns3, w);
     Some (Inr (), ns3\<lparr> ns_node := dn \<rparr>, w1)
   })"

definition SyncRemoveNode ::
  "env \<Rightarrow> string \<Rightarrow> node_state \<Rightarrow> (unit coord_result \<times> node_state) option" where
  "SyncRemoveNode e node_id ns = do {
     let hr = hashRing (ns_node ns);
     (r, ring) \<leftarrow> dc_RemoveNode (e_now e) (e_elapsed e) (e_visit e) (e_ring e hr) node_id hr;
     let ns1 = upd_ring ring ns;
     case r of
       Inl err \<Rightarrow> Some (Inl (RingError err), ns1)
     | Inr _ \<Rightarrow>
         let ns2 = ns1\<lparr> ns_cluster := cm_RemoveNode node_id (ns_cluster ns1) \<rparr>
         in Some (Inr (), ns2\<lparr> ns_node := RemoveClusterNode node_id (ns_node ns2) \<rparr>)
   }"

definition TriggerRebalance :: "node_state \<Rightarrow> unit coord_result" where
  "TriggerRebalance ns =
     (if map_len (cm_GetHealthyNodes (ns_cluster ns)) < 2 then Inl TooFewHealthyNodes else Inr ())"

definition cc_GetMigrationStats :: "node_state \<Rightarrow> json" where
  "cc_GetMigrationStats ns =
     (let stats = GetMigrationStats (hashRing (ns_node ns)) in
      JObj [(''migrated_keys'', JNum (MigratedKeys stats)), (''duration'', JNum (Duration stats)),
            (''last_migration'', JNum (case LastMigration stats of None \<Rightarrow> 0 | Some t \<Rightarrow> t))])"

end
