(* ===== verification/Node_Server.thy ===== *)
theory Node_Server
  imports Coordinator
begin

text \<open>
  \<open>distributed/api_handlers.go\<close> and \<open>distributed/node_server.go\<close>: the HTTP interface of a node. The
  handlers are functions of the request and of the process state; the route table is the one of
  \<open>setupRoutes\<close>. Gin is not part of the repository: the record \<open>gin\<close> is its interface, the decoding with
  validation of \<open>ShouldBindJSON\<close> for the three request types and the matching of a path against a route
  pattern; \<open>gin_ok\<close> states its documented behaviour. A handler that panics is \<open>None\<close> (Gin's recovery
  turns it into a 500; the state it leaves is not modelled). Timestamps and error texts in the
  responses are reduced to what identifies them.
\<close>

record gin =
  bind_value :: "json option \<Rightarrow> string option"
  bind_string_map :: "json option \<Rightarrow> (string \<rightharpoonup> string) option"
  bind_change :: "json option \<Rightarrow> (string \<times> string \<times> string) option"
  match_route :: "string \<Rightarrow> string \<Rightarrow> string option"

text \<open>
  The documented behaviour the code relies on: a field with \<open>binding:"required"\<close> must not be empty,
  a route without parameters matches exactly its own path, and \<open>:key\<close> matches one non-empty segment.
\<close>

definition gin_ok :: "gin \<Rightarrow> bool" where
  "gin_ok g \<longleftrightarrow>
     (\<forall>v. bind_value g (Some (value_body v)) = (if v = [] then None else Some v)) \<and>
     (\<forall>p path. CHR '':'' \<notin> set p \<longrightarrow> match_route g p path = (if path = p then Some [] else None)) \<and>
     (\<forall>p path k. CHR '':'' \<notin> set p \<longrightarrow>
        (match_route g (p @ ''/:key'') path = Some k \<longleftrightarrow> path = p @ ''/'' @ k \<and> k \<noteq> [] \<and> CHR ''/'' \<notin> set k))"

section \<open>Responses\<close>

definition cache_response :: "string \<Rightarrow> string \<Rightarrow> bool \<Rightarrow> string \<Rightarrow> string \<Rightarrow> json" where
  "cache_response key value found node_id message =
     JObj ([(''key'', JStr key)] @ (if value = [] then [] else [(''value'', JStr value)]) @
           [(''found'', JBool found), (''node_id'', JStr node_id)] @
           (if message = [] then [] else [(''message'', JStr message)]))"

definition sendError :: "int \<Rightarrow> string \<Rightarrow> http_response" where
  "sendError statusCode errorType = json_response statusCode (JObj [(''error'', JStr errorType)])"

definition node_info_json :: "node_info \<Rightarrow> json" where
  "node_info_json n = JObj [(''node_id'', JStr (ni_NodeID n)), (''address'', JStr (ni_Address n)),
     (''status'', JStr (ni_Status n)), (''last_seen'', JNum (ni_LastSeen n)),
     (''response_time'', JNum (ni_ResponseTime n))]"

definition cluster_status_json :: "cluster_status \<Rightarrow> json" where
  "cluster_status_json s = JObj [(''total_nodes'', JNum (TotalNodes s)),
     (''healthy_nodes'', JNum (HealthyNodes s)), (''unhealthy_nodes'', JNum (UnhealthyNodes s)),
     (''nodes'', JArr (map node_info_json (StatusNodes s))), (''last_update'', JNum (LastUpdate s))]"

definition env_status :: "env \<Rightarrow> node_state \<Rightarrow> cluster_status" where
  "env_status e ns =
     cm_GetClusterStatus (e_now e) (e_members e (cm_nodes (ns_cluster ns))) (ns_cluster ns)"

type_synonym 'w handled = "(http_response \<times> node_state \<times> 'w) option"

definition with_node :: "node_state \<Rightarrow> dist_node \<Rightarrow> node_state" where
  "with_node ns dn = ns\<lparr> ns_node := dn \<rparr>"

section \<open>Client interface\<close>

definition HandleGet :: "'w net \<Rightarrow> env \<Rightarrow> string \<Rightarrow> node_state \<times> 'w \<Rightarrow> 'w handled" where
  "HandleGet net e key st = (case st of (ns, w) \<Rightarrow> do {
     (r, dn, w1) \<leftarrow> dn_Get net (e_now e) key (ns_node ns, w);
     Some (case r of
         Inl _ \<Rightarrow> sendError StatusInternalServerError ''cache_error''
       | Inr (value, found) \<Rightarrow> json_response StatusOK (cache_response key value found (GetNodeID dn) []),
       with_node ns dn, w1)
   })"

definition HandleSet :: "gin \<Rightarrow> 'w net \<Rightarrow> string \<Rightarrow> json option \<Rightarrow> node_state \<times> 'w \<Rightarrow> 'w handled" where
  "HandleSet g net key body st = (case st of (ns, w) \<Rightarrow>
     (case bind_value g body of
        None \<Rightarrow> Some (sendError StatusBadRequest ''invalid_request'', ns, w)
      | Some value \<Rightarrow> do {
          (r, dn, w1) \<leftarrow> dn_Set net key value (ns_node ns, w);
          Some (case r of
              Inl _ \<Rightarrow> sendError StatusInternalServerError ''cache_error''
            | Inr _ \<Rightarrow> json_response StatusOK (cache_response key value True (GetNodeID dn) ''success''),
            with_node ns dn, w1)
        }))"

definition deleted_response :: "string \<Rightarrow> string \<Rightarrow> http_response" where
  "deleted_response key node_id = json_response StatusOK
     (JObj [(''message'', JStr ''deleted''), (''key'', JStr key), (''node_id'', JStr node_id)])"

definition HandleDelete :: "'w net \<Rightarrow> string \<Rightarrow> node_state \<times> 'w \<Rightarrow> 'w handled" where
  "HandleDelete net key st = (case st of (ns, w) \<Rightarrow> do {
     (r, dn, w1) \<leftarrow> dn_Delete net key (ns_node ns, w);
     Some (case r of
         Inl _ \<Rightarrow> sendError StatusInternalServerError ''cache_error''
       | Inr _ \<Rightarrow> deleted_response key (GetNodeID dn),
       with_node ns dn, w1)
   })"

definition HandleGetStats :: "env \<Rightarrow> node_state \<Rightarrow> http_response" where
  "HandleGetStats e ns = json_response StatusOK
     (JObj [(''node_id'', JStr (GetNodeID (ns_node ns))), (''cache_stats'', GetLocalStats (ns_node ns)),
            (''cluster_stats'', cluster_status_json (env_status e ns)), (''timestamp'', JNum (e_now e))])"

definition HandleHealthCheck :: "env \<Rightarrow> node_state \<Rightarrow> http_response" where
  "HandleHealthCheck e ns =
     (let healthy = cm_IsHealthy (e_members e (cm_nodes (ns_cluster ns))) (ns_cluster ns);
          status = (if \<not> healthy then ''unhealthy'' else ''healthy'')
      in json_response StatusOK
           (JObj [(''status'', JStr status), (''node_id'', JStr (cm_nodeID (ns_cluster ns))),
                  (''timestamp'', JNum (e_now e)), (''uptime'', JNum (e_now e))]))"

section \<open>Interface between nodes\<close>

definition HandleInternalGet :: "env \<Rightarrow> string \<Rightarrow> node_state \<times> 'w \<Rightarrow> 'w handled" where
  "HandleInternalGet e key st = (case st of (ns, w) \<Rightarrow> do {
     ((value, found), dn) \<leftarrow> GetLocal (e_now e) key (ns_node ns);
     Some (json_response StatusOK (cache_response key value found (GetNodeID dn) []), with_node ns dn, w)
   })"

definition HandleInternalSet :: "gin \<Rightarrow> string \<Rightarrow> json option \<Rightarrow> node_state \<times> 'w \<Rightarrow> 'w handled" where
  "HandleInternalSet g key body st = (case st of (ns, w) \<Rightarrow>
     (case bind_value g body of
        None \<Rightarrow> Some (sendError StatusBadRequest ''invalid_request'', ns, w)
      | Some value \<Rightarrow> do {
          dn \<leftarrow> SetLocal key value (ns_node ns);
          Some (json_response StatusOK (cache_response key value True (GetNodeID dn) ''success''),
                with_node ns dn, w)
        }))"

definition HandleInternalDelete :: "string \<Rightarrow> node_state \<times> 'w \<Rightarrow> 'w handled" where
  "HandleInternalDelete key st = (case st of (ns, w) \<Rightarrow> do {
     dn \<leftarrow> DeleteLocal key (ns_node ns);
     Some (deleted_response key (GetNodeID dn), with_node ns dn, w)
   })"

definition map_get :: "(string \<rightharpoonup> string) \<Rightarrow> string \<Rightarrow> string" where
  "map_get m k = (case m k of None \<Rightarrow> [] | Some v \<Rightarrow> v)"

definition message_response :: "string \<Rightarrow> string \<Rightarrow> http_response" where
  "message_response message node_id =
     json_response StatusOK (JObj [(''message'', JStr message), (''node_id'', JStr node_id)])"

definition HandleNodeJoin :: "gin \<Rightarrow> 'w net \<Rightarrow> env \<Rightarrow> json option \<Rightarrow> node_state \<times> 'w \<Rightarrow> 'w handled" where
  "HandleNodeJoin g net e body st =
     (case bind_string_map g body of
        None \<Rightarrow> Some (sendError StatusBadRequest ''invalid_request'', st)
      | Some joinData \<Rightarrow> do {
          let node_id = map_get joinData ''node_id'';
          let address = map_get joinData ''address'';
          (r, st1) \<leftarrow> AddNodeToCluster net e node_id address st;
          Some (case r of Inl _ \<Rightarrow> sendError StatusInternalServerError ''add_node_error''
                | Inr _ \<Rightarrow> message_response ''node joined successfully'' node_id, st1)
        })"

definition HandleNodeLeave :: "gin \<Rightarrow> 'w net \<Rightarrow> env \<Rightarrow> json option \<Rightarrow> node_state \<times> 'w \<Rightarrow> 'w handled" where
  "HandleNodeLeave g net e body st =
     (case bind_string_map g body of
        None \<Rightarrow> Some (sendError StatusBadRequest ''invalid_request'', st)
      | Some leaveData \<Rightarrow> do {
          let node_id = map_get leaveData ''node_id'';
          (r, st1) \<leftarrow> RemoveNodeFromCluster net e node_id st;
          Some (case r of Inl _ \<Rightarrow> sendError StatusInternalServerError ''remove_node_error''
                | Inr _ \<Rightarrow> message_response ''node left successfully'' node_id, st1)
        })"

definition HandleClusterHealth :: "env \<Rightarrow> node_state \<Rightarrow> http_response" where
  "HandleClusterHealth e ns = json_response StatusOK
     (JObj [(''status'', JStr ''healthy''), (''node_id'', JStr (cm_nodeID (ns_cluster ns))),
            (''timestamp'', JNum (e_now e))])"

definition HandleSyncAddNode :: "gin \<Rightarrow> 'w net \<Rightarrow> env \<Rightarrow> json option \<Rightarrow> node_state \<times> 'w \<Rightarrow> 'w handled" where
  "HandleSyncAddNode g net e body st =
     (case bind_change g body of
        None \<Rightarrow> Some (sendError StatusBadRequest ''invalid_request'', st)
      | Some (node_id, address, operation) \<Rightarrow> do {
          (r, st1) \<leftarrow> SyncAddNode net e node_id address st;
          Some (case r of Inl _ \<Rightarrow> sendError StatusInternalServerError ''sync_add_error''
                | Inr _ \<Rightarrow> message_response ''node synced successfully'' node_id, st1)
        })"

definition HandleSyncRemoveNode :: "gin \<Rightarrow> env \<Rightarrow> json option \<Rightarrow> node_state \<times> 'w \<Rightarrow> 'w handled" where
  "HandleSyncRemoveNode g e body st = (case st of (ns, w) \<Rightarrow>
     (case bind_change g body of
        None \<Rightarrow> Some (sendError StatusBadRequest ''invalid_request'', ns, w)
      | Some (node_id, address, operation) \<Rightarrow> do {
          (r, ns1) \<leftarrow> SyncRemoveNode e node_id ns;
          Some (case r of Inl _ \<Rightarrow> sendError StatusInternalServerError ''sync_remove_error''
                | Inr _ \<Rightarrow> message_response ''node removed successfully'' node_id, ns1, w)
        }))"

section \<open>Administration\<close>

definition HandleGetCluster :: "env \<Rightarrow> node_state \<Rightarrow> http_response" where
  "HandleGetCluster e ns = json_response StatusOK
     (JObj [(''cluster_status'', cluster_status_json (env_status e ns)),
            (''current_node'', JStr (cm_nodeID (ns_cluster ns))), (''timestamp'', JNum (e_now e))])"

definition HandleGetNodes :: "env \<Rightarrow> node_state \<Rightarrow> http_response" where
  "HandleGetNodes e ns =
     (let nodes = cm_GetNodes (ns_cluster ns) in
      json_response StatusOK
        (JObj [(''nodes'', JObj (map (\<lambda>n. (n, case nodes n of None \<Rightarrow> JNull | Some i \<Rightarrow> node_info_json i))
                  (e_members e nodes))),
               (''count'', JNum (map_len nodes)), (''timestamp'', JNum (e_now e))]))"

definition HandleRebalance :: "env \<Rightarrow> node_state \<Rightarrow> http_response" where
  "HandleRebalance e ns =
     (case TriggerRebalance ns of
        Inl _ \<Rightarrow> sendError StatusInternalServerError ''rebalance_error''
      | Inr _ \<Rightarrow> json_response StatusOK
          (JObj [(''message'', JStr ''rebalance completed''), (''node_id'', JStr (cm_nodeID (ns_cluster ns))),
                 (''timestamp'', JNum (e_now e))]))"

definition HandleGetMetrics :: "env \<Rightarrow> node_state \<Rightarrow> http_response" where
  "HandleGetMetrics e ns = json_response StatusOK
     (JObj [(''node_id'', JStr (GetNodeID (ns_node ns))), (''cache_stats'', GetLocalStats (ns_node ns)),
            (''migration_stats'', cc_GetMigrationStats ns),
            (''cluster_stats'', cluster_status_json (env_status e ns)), (''timestamp'', JNum (e_now e))])"

section \<open>The router\<close>

datatype handler =
    H_Get | H_Set | H_Delete | H_GetStats | H_HealthCheck
  | H_InternalGet | H_InternalSet | H_InternalDelete | H_NodeJoin | H_NodeLeave
  | H_SyncAddNode | H_SyncRemoveNode | H_ClusterHealth
  | H_GetCluster | H_GetNodes | H_Rebalance | H_GetMetrics

definition routes :: "(http_method \<times> string \<times> handler) list" where
  "routes =
    [(GET, ''/api/v1/cache/:key'', H_Get), (PUT, ''/api/v1/cache/:key'', H_Set),
     (DELETE, ''/api/v1/cache/:key'', H_Delete), (GET, ''/api/v1/stats'', H_GetStats),
     (GET, ''/api/v1/health'', H_HealthCheck),
     (GET, ''/internal/cache/:key'', H_InternalGet), (PUT, ''/internal/cache/:key'', H_InternalSet),
     (DELETE, ''/internal/cache/:key'', H_InternalDelete), (POST, ''/internal/cluster/join'', H_NodeJoin),
     (POST, ''/internal/cluster/leave'', H_NodeLeave), (POST, ''/internal/cluster/sync-add'', H_SyncAddNode),
     (POST, ''/internal/cluster/sync-remove'', H_SyncRemoveNode),
     (GET, ''/internal/cluster/health'', H_ClusterHealth),
     (GET, ''/admin/cluster'', H_GetCluster), (GET, ''/admin/nodes'', H_GetNodes),
     (POST, ''/admin/cluster/rebalance'', H_Rebalance), (GET, ''/admin/metrics'', H_GetMetrics)]"

fun find_route :: "gin \<Rightarrow> http_method \<Rightarrow> string \<Rightarrow> (http_method \<times> string \<times> 'h) list \<Rightarrow> ('h \<times> string) option" where
  "find_route g m path [] = None"
| "find_route g m path ((m', p, h) # rs) =
     (if m' = m then
        (case match_route g p path of Some k \<Rightarrow> Some (h, k) | None \<Rightarrow> find_route g m path rs)
      else find_route g m path rs)"

definition observe :: "http_response \<Rightarrow> node_state \<times> 'w \<Rightarrow> 'w handled" where
  "observe resp st = Some (resp, st)"

fun handle :: "handler \<Rightarrow> gin \<Rightarrow> 'w net \<Rightarrow> env \<Rightarrow> string \<Rightarrow> json option \<Rightarrow> node_state \<times> 'w \<Rightarrow> 'w handled" where
  "handle H_Get g net e key body st = HandleGet net e key st"
| "handle H_Set g net e key body st = HandleSet g net key body st"
| "handle H_Delete g net e key body st = HandleDelete net key st"
| "handle H_GetStats g net e key body st = observe (HandleGetStats e (fst st)) st"
| "handle H_HealthCheck g net e key body st = observe (HandleHealthCheck e (fst st)) st"
| "handle H_InternalGet g net e key body st = HandleInternalGet e key st"
| "handle H_InternalSet g net e key body st = HandleInternalSet g key body st"
| "handle H_InternalDelete g net e key body st = HandleInternalDelete key st"
| "handle H_NodeJoin g net e key body st = HandleNodeJoin g net e body st"
| "handle H_NodeLeave g net e key body st = HandleNodeLeave g net e body st"
| "handle H_SyncAddNode g net e key body st = HandleSyncAddNode g net e body st"
| "handle H_SyncRemoveNode g net e key body st = HandleSyncRemoveNode g e body st"
| "handle H_ClusterHealth g net e key body st = observe (HandleClusterHealth e (fst st)) st"
| "handle H_GetCluster g net e key body st = observe (HandleGetCluster e (fst st)) st"
| "handle H_GetNodes g net e key body st = observe (HandleGetNodes e (fst st)) st"
| "handle H_Rebalance g net e key body st = observe (HandleRebalance e (fst st)) st"
| "handle H_GetMetrics g net e key body st = observe (HandleGetMetrics e (fst st)) st"

text \<open>The CORS middleware answers every \<open>OPTIONS\<close> request before routing.\<close>

definition serve :: "gin \<Rightarrow> 'w net \<Rightarrow> env \<Rightarrow> http_request \<Rightarrow> node_state \<times> 'w \<Rightarrow> 'w handled" where
  "serve g net e req st =
     (if r_method req = OPTIONS then Some (\<lparr> r_status = StatusNoContent, r_json = None \<rparr>, st)
      else case find_route g (r_method req) (r_path req) routes of
        None \<Rightarrow> Some (\<lparr> r_status = StatusNotFound, r_json = None \<rparr>, st)
      | Some (h, key) \<Rightarrow> handle h g net e key (r_body req) st)"

definition NewNodeServer :: "go_time \<Rightarrow> string list \<Rightarrow> node_config \<Rightarrow> node_state option" where
  "NewNodeServer now order config = do {
     node \<leftarrow> NewDistributedNode order config;
     Some \<lparr> ns_node = node, ns_cluster = NewClusterManager now (cfg_NodeID config) (cfg_ClusterNodes config) \<rparr>
   }"

definition ns_IsHealthy :: "env \<Rightarrow> node_state \<Rightarrow> bool" where
  "ns_IsHealthy e ns = cm_IsHealthy (e_members e (cm_nodes (ns_cluster ns))) (ns_cluster ns)"

text \<open>Shutting down tells the other members and stops the health check.\<close>

definition ns_Shutdown :: "'w net \<Rightarrow> env \<Rightarrow> node_state \<times> 'w \<Rightarrow> (node_state \<times> 'w) option" where
  "ns_Shutdown net e st = (case st of (ns, w) \<Rightarrow> do {
     let w1 = cm_Leave net (e_members e (cm_nodes (ns_cluster ns))) (ns_cluster ns) w;
     cm \<leftarrow> cm_Stop (ns_cluster ns);
     Some (ns\<lparr> ns_cluster := cm \<rparr>, w1)
   })"

end
