(* ===== verification/Cluster_Net.thy ===== *)
theory Cluster_Net
  imports Node_Server
begin

text \<open>
  Several processes together. The network delivers a request to the process that listens at the
  address and runs its handler, which may send requests of its own; \<open>deliver\<close> bounds the depth of such
  nested requests (two are enough for reads and writes: the client's request and its forwarding).
  A process does not talk to its own address while it handles a request. The abstract value of the
  cluster, \<open>cl_lookup\<close>, is what the process responsible for the key holds; a consistent cluster
  (\<open>cluster_ok\<close>) answers every client request according to it, whichever process is asked.
\<close>

type_synonym cluster = "string \<rightharpoonup> node_state"

fun deliver :: "gin \<Rightarrow> env \<Rightarrow> nat \<Rightarrow> cluster net" where
  "deliver g e 0 addr req w = (None, w)"
| "deliver g e (Suc n) addr req w =
     (case w addr of
        None \<Rightarrow> (None, w)
      | Some ns \<Rightarrow>
          (case serve g (deliver g e n) e req (ns, w(addr := None)) of
             None \<Rightarrow> (Some \<lparr> r_status = StatusInternalServerError, r_json = None \<rparr>, w)
           | Some (resp, ns1, w1) \<Rightarrow> (Some resp, w1(addr \<mapsto> ns1))))"

definition api_url :: "string \<Rightarrow> string" where
  "api_url key = ''/api/v1/cache/'' @ key"

definition api_request :: "http_method \<Rightarrow> string \<Rightarrow> json option \<Rightarrow> http_request" where
  "api_request m key body = \<lparr> r_method = m, r_path = api_url key, r_body = body \<rparr>"

definition internal_request :: "http_method \<Rightarrow> string \<Rightarrow> json option \<Rightarrow> http_request" where
  "internal_request m key body = \<lparr> r_method = m, r_path = internal_url key, r_body = body \<rparr>"

section \<open>A consistent cluster\<close>

text \<open>
  All processes have the same ring \<open>R\<close> and address book \<open>book\<close>, each listens at the address the book has
  for it, and the responsible node of every key is listening. The sizes of the caches may differ.
\<close>

definition process_ok :: "dist_cache \<Rightarrow> (string \<rightharpoonup> string) \<Rightarrow> string \<Rightarrow> node_state \<Rightarrow> bool" where
  "process_ok R book addr ns \<longleftrightarrow>
     HashRing (hashRing (ns_node ns)) = HashRing R \<and>
     SortedHashes (hashRing (ns_node ns)) = SortedHashes R \<and>
     clusterNodes (ns_node ns) = book \<and> book (nodeID (ns_node ns)) = Some addr \<and>
     (\<exists>cap. node_cache cap (localCache (ns_node ns)))"

definition cluster_ok :: "dist_cache \<Rightarrow> (string \<rightharpoonup> string) \<Rightarrow> cluster \<Rightarrow> bool" where
  "cluster_ok R book w \<longleftrightarrow>
     ring_inv R \<and> dom (HashRing R) \<noteq> {} \<and>
     (\<forall>addr ns. w addr = Some ns \<longrightarrow> process_ok R book addr ns) \<and>
     (\<forall>n \<in> ran (HashRing R). \<exists>addr ns. book n = Some addr \<and> w addr = Some ns \<and> nodeID (ns_node ns) = n)"

definition process_data :: "node_state \<Rightarrow> (string \<rightharpoonup> string)" where
  "process_data ns = contents (localCache (ns_node ns))"

definition cl_lookup :: "dist_cache \<Rightarrow> (string \<rightharpoonup> string) \<Rightarrow> cluster \<Rightarrow> (string \<rightharpoonup> string)" where
  "cl_lookup R book w k = do {
     n \<leftarrow> GetNodeForKey k R;
     addr \<leftarrow> book n;
     ns \<leftarrow> w addr;
     process_data ns k
   }"

lemma process_owner:
  "process_ok R book addr ns \<Longrightarrow> GetNodeForKey k (hashRing (ns_node ns)) = GetNodeForKey k R"
  by (simp add: process_ok_def GetNodeForKey_def getNodeForKeyUnsafe_def ring_node_def)

text \<open>The process responsible for a key.\<close>

lemma cluster_owner:
  assumes "cluster_ok R book w"
  obtains n addr ns cap where "GetNodeForKey k R = Some n" "book n = Some addr" "w addr = Some ns"
    "nodeID (ns_node ns) = n" "process_ok R book addr ns" "node_cache cap (localCache (ns_node ns))"
    "cl_lookup R book w k = process_data ns k"
proof -
  obtain n where n: "getNodeForKeyUnsafe k R = Some n" "n \<in> ran (HashRing R)"
    using getNode_total assms by (metis cluster_ok_def)
  then obtain addr ns where a: "book n = Some addr" "w addr = Some ns" "nodeID (ns_node ns) = n"
    using assms by (auto simp: cluster_ok_def)
  then have p: "process_ok R book addr ns" using assms by (auto simp: cluster_ok_def)
  then obtain cap where "node_cache cap (localCache (ns_node ns))" by (auto simp: process_ok_def)
  with n a p show thesis by (intro that) (simp_all add: GetNodeForKey_def cl_lookup_def)
qed

text \<open>Replacing the data of one process.\<close>

definition set_cache :: "lru_cache \<Rightarrow> node_state \<Rightarrow> node_state" where
  "set_cache c ns = with_node ns ((ns_node ns)\<lparr> localCache := c \<rparr>)"

lemma set_cache_sel [simp]:
  "hashRing (ns_node (set_cache c ns)) = hashRing (ns_node ns)"
  "clusterNodes (ns_node (set_cache c ns)) = clusterNodes (ns_node ns)"
  "nodeID (ns_node (set_cache c ns)) = nodeID (ns_node ns)"
  "localCache (ns_node (set_cache c ns)) = c"
  "process_data (set_cache c ns) = contents c"
  by (simp_all add: set_cache_def with_node_def process_data_def)

lemma cluster_ok_set_cache:
  assumes "cluster_ok R book w" "w addr = Some ns" "node_cache cap c"
  shows "cluster_ok R book (w(addr \<mapsto> set_cache c ns))"
proof -
  have "process_ok R book addr (set_cache c ns)"
    using assms by (auto simp: cluster_ok_def process_ok_def)
  then show ?thesis using assms by (fastforce simp: cluster_ok_def)
qed

lemma cl_lookup_set_cache:
  assumes "cluster_ok R book w" "w addr = Some ns"
  shows "cl_lookup R book (w(addr \<mapsto> set_cache c ns)) k =
    (if GetNodeForKey k R = Some (nodeID (ns_node ns)) then contents c k else cl_lookup R book w k)"
proof -
  have p: "process_ok R book addr ns" using assms by (auto simp: cluster_ok_def)
  obtain n addr' ns' cap where n: "GetNodeForKey k R = Some n" "book n = Some addr'" "w addr' = Some ns'"
    "nodeID (ns_node ns') = n" "process_ok R book addr' ns'"
    by (rule cluster_owner [OF assms(1), of k])
  have look: "cl_lookup R book u k = Option.bind (u addr') (\<lambda>ns. process_data ns k)" for u
    by (simp add: cl_lookup_def n(1,2))
  show ?thesis
  proof (cases "addr' = addr")
    case True
    then have "ns' = ns" using n(3) assms(2) by simp
    then show ?thesis using n(1,4) True by (simp add: look)
  next
    case False
    have "n \<noteq> nodeID (ns_node ns)"
    proof
      assume "n = nodeID (ns_node ns)"
      then have "book n = Some addr" using p by (simp add: process_ok_def)
      then show False using n(2) False by simp
    qed
    then show ?thesis using n(1) False by (simp add: look)
  qed
qed

section \<open>Routing\<close>

lemma match_key:
  assumes "gin_ok g" "k \<noteq> []" "CHR ''/'' \<notin> set k"
  shows "match_route g ''/api/v1/cache/:key'' (api_url k) = Some k"
    "match_route g ''/internal/cache/:key'' (internal_url k) = Some k"
    "match_route g ''/api/v1/cache/:key'' (internal_url k) = None"
    "match_route g ''/api/v1/stats'' (internal_url k) = None"
    "match_route g ''/api/v1/health'' (internal_url k) = None"
proof -
  have key: "match_route g (p @ ''/:key'') path = Some x \<longleftrightarrow> path = p @ ''/'' @ x \<and> x \<noteq> [] \<and> CHR ''/'' \<notin> set x"
    if "CHR '':'' \<notin> set p" for p path x
    using assms(1) that unfolding gin_ok_def by blast
  have fixed: "match_route g p path = (if path = p then Some [] else None)" if "CHR '':'' \<notin> set p" for p path
    using assms(1) that unfolding gin_ok_def by blast
  show "match_route g ''/api/v1/cache/:key'' (api_url k) = Some k"
    using key [of "''/api/v1/cache''" "api_url k" k] assms(2,3) by (simp add: api_url_def)
  show "match_route g ''/internal/cache/:key'' (internal_url k) = Some k"
    using key [of "''/internal/cache''" "internal_url k" k] assms(2,3) by (simp add: internal_url_def)
  show "match_route g ''/api/v1/cache/:key'' (internal_url k) = None"
    using key [of "''/api/v1/cache''" "internal_url k"]
    by (cases "match_route g ''/api/v1/cache/:key'' (internal_url k)") (simp_all add: internal_url_def)
  show "match_route g ''/api/v1/stats'' (internal_url k) = None"
    using fixed [of "''/api/v1/stats''"] by (simp add: internal_url_def)
  show "match_route g ''/api/v1/health'' (internal_url k) = None"
    using fixed [of "''/api/v1/health''"] by (simp add: internal_url_def)
qed

lemma route_key:
  assumes "gin_ok g" "k \<noteq> []" "CHR ''/'' \<notin> set k"
  shows "find_route g GET (api_url k) routes = Some (H_Get, k)"
    "find_route g PUT (api_url k) routes = Some (H_Set, k)"
    "find_route g DELETE (api_url k) routes = Some (H_Delete, k)"
    "find_route g GET (internal_url k) routes = Some (H_InternalGet, k)"
    "find_route g PUT (internal_url k) routes = Some (H_InternalSet, k)"
    "find_route g DELETE (internal_url k) routes = Some (H_InternalDelete, k)"
  by (simp_all add: routes_def match_key [OF assms])

lemma plain_keyD: "plain_key k \<Longrightarrow> k \<noteq> [] \<and> CHR ''/'' \<notin> set k"
  unfolding plain_key_def using plain_char_simps(4) by blast

lemma slash_plain: "c \<in> set ''/internal/cache/'' \<Longrightarrow> c = CHR ''/'' \<or> plain_char c"
  by (auto simp: plain_char_def byte_in_def)

lemma http_do_internal:
  assumes "plain_key k"
  shows "http_do net m addr (internal_url k) body w = net addr (internal_request m k (map_option marshal body)) w"
proof -
  have "parse_target (internal_url k) = Some (internal_url k)"
    unfolding internal_url_def
  proof (rule parse_target_plain)
    show "\<forall>c \<in> set (''/internal/cache/'' @ k). c = CHR ''/'' \<or> plain_char c"
      unfolding set_append using assms slash_plain unfolding plain_key_def by blast
  qed
  then show ?thesis by (simp add: http_do_def internal_request_def)
qed

section \<open>One request\<close>

text \<open>A request of another process to the owner of the key.\<close>

lemma deliver_internal_Set:
  assumes "gin_ok g" "plain_key k" "v \<noteq> []" "w addr = Some ns" "node_cache cap (localCache (ns_node ns))"
  shows "\<exists>c resp. deliver g e (Suc n) addr (internal_request PUT k (Some (value_body v))) w =
      (Some resp, w(addr \<mapsto> set_cache c ns)) \<and> r_status resp = StatusOK \<and>
    lru_Set k v (localCache (ns_node ns)) = Some c"
proof -
  obtain c where c: "lru_Set k v (localCache (ns_node ns)) = Some c"
    using node_lru.put_total [OF assms(5)] by blast
  have "bind_value g (Some (value_body v)) = Some v" using assms(1,3) by (simp add: gin_ok_def)
  then show ?thesis
    using assms(1,2,4) plain_keyD [OF assms(2)] c
    by (simp add: serve_def internal_request_def route_key HandleInternalSet_def SetLocal_def
        json_response_def set_cache_def)
qed

definition lookup_json :: "string \<Rightarrow> string option \<Rightarrow> string \<Rightarrow> json" where
  "lookup_json k r node_id =
     marshal (case r of None \<Rightarrow> cache_response k [] False node_id [] | Some v \<Rightarrow> cache_response k v True node_id [])"

lemma deliver_internal_Get:
  assumes "gin_ok g" "plain_key k" "w addr = Some ns" "node_cache cap (localCache (ns_node ns))"
  shows "\<exists>c. deliver g e (Suc n) addr (internal_request GET k None) w =
      (Some \<lparr> r_status = StatusOK, r_json = Some (lookup_json k (process_data ns k) (nodeID (ns_node ns))) \<rparr>,
       w(addr \<mapsto> set_cache c ns)) \<and> node_cache cap c \<and> contents c = process_data ns"
proof -
  obtain c where c: "lru_Get (e_now e) k (localCache (ns_node ns)) =
      Some (case contents (localCache (ns_node ns)) k of None \<Rightarrow> ([], False) | Some v \<Rightarrow> (v, True), c)"
    "node_cache cap c" "contents c = contents (localCache (ns_node ns))"
    using node_cache_Get [OF assms(4)] by blast
  then show ?thesis
    using assms(1-3) plain_keyD [OF assms(2)]
    by (intro exI [of _ c], cases "contents (localCache (ns_node ns)) k")
      (simp_all add: serve_def internal_request_def route_key HandleInternalGet_def GetLocal_def
        json_response_def set_cache_def process_data_def lookup_json_def GetNodeID_def)
qed

lemma deliver_internal_Delete:
  assumes "gin_ok g" "plain_key k" "w addr = Some ns" "node_cache cap (localCache (ns_node ns))"
  shows "\<exists>c resp. deliver g e (Suc n) addr (internal_request DELETE k None) w =
      (Some resp, w(addr \<mapsto> set_cache c ns)) \<and> r_status resp = StatusOK \<and>
    node_cache cap c \<and> contents c = (process_data ns)(k := None)"
proof -
  obtain b c where c: "lru_Delete k (localCache (ns_node ns)) = Some (b, c)"
    using node_lru.del_total [OF assms(4)] by blast
  show ?thesis
    using assms(1-3) plain_keyD [OF assms(2)] c node_lru.del_inv [OF assms(4) c]
      node_lru.del_abs [OF assms(4) c]
    by (intro exI [of _ c] exI [of _ "deleted_response k (nodeID (ns_node ns))"])
      (simp add: serve_def internal_request_def route_key HandleInternalDelete_def DeleteLocal_def
        json_response_def set_cache_def process_data_def deleted_response_def GetNodeID_def)
qed

text \<open>What the forwarding node reads out of the answer.\<close>

lemma utf8_literals:
  "utf8_fix ''key'' = ''key''" "utf8_fix ''value'' = ''value''" "utf8_fix ''found'' = ''found''"
  "utf8_fix ''node_id'' = ''node_id''" "utf8_fix ''message'' = ''message''"
  by (rule utf8_fix_ascii; simp add: byte_in_def)+

lemma utf8_fix_empty: "utf8_fix [] = []"
  by (subst utf8_fix.simps) simp

lemma lookup_json_fields:
  "\<exists>kvs x. object_fields (lookup_json k r node_id) = Some kvs \<and> string_field ''key'' kvs [] = Some x \<and>
     string_field ''value'' kvs [] = Some (case r of None \<Rightarrow> [] | Some v \<Rightarrow> utf8_fix v) \<and>
     bool_field ''found'' kvs False = Some (r \<noteq> None)"
  by (cases r)
    (simp_all add: lookup_json_def cache_response_def utf8_literals lower_char_def byte_in_def utf8_fix_empty)

section \<open>Client requests\<close>

lemma with_node_same [simp]: "with_node ns (ns_node ns) = ns"
  by (simp add: with_node_def)

text \<open>Either the asked process owns the key, or the owner is another process at another address.\<close>

lemma ask:
  assumes ok: "cluster_ok R book w" and a: "w a = Some ns"
  obtains (own) cap where "GetNodeForKey k (hashRing (ns_node ns)) = Some (nodeID (ns_node ns))"
      "node_cache cap (localCache (ns_node ns))" "cl_lookup R book w k = process_data ns k"
      "GetNodeForKey k R = Some (nodeID (ns_node ns))"
    | (other) n addr ns' cap where "GetNodeForKey k (hashRing (ns_node ns)) = Some n"
      "n \<noteq> nodeID (ns_node ns)" "clusterNodes (ns_node ns) n = Some addr" "addr \<noteq> a"
      "w addr = Some ns'" "nodeID (ns_node ns') = n" "node_cache cap (localCache (ns_node ns'))"
      "cl_lookup R book w k = process_data ns' k" "GetNodeForKey k R = Some n"
proof -
  have p: "process_ok R book a ns" using ok a by (auto simp: cluster_ok_def)
  obtain n addr ns' cap where n: "GetNodeForKey k R = Some n" "book n = Some addr" "w addr = Some ns'"
    "nodeID (ns_node ns') = n" "process_ok R book addr ns'" "node_cache cap (localCache (ns_node ns'))"
    "cl_lookup R book w k = process_data ns' k"
    by (rule cluster_owner [OF ok, of k])
  show thesis
  proof (cases "n = nodeID (ns_node ns)")
    case True
    then have "addr = a" using n(2) p by (simp add: process_ok_def)
    then have "ns' = ns" using n(3) a by simp
    then show thesis using own n True process_owner [OF p, of k] by simp
  next
    case False
    have "addr \<noteq> a" using False n(3,4) a by auto
    then show thesis using other [of n addr ns' cap] n False process_owner [OF p, of k] p
      by (simp add: process_ok_def)
  qed
qed

text \<open>
  Every request of a client is answered in one place: it replaces the cache of the process that owns the key by what the
  cache operation makes of it. The rest of the cluster is untouched.
\<close>

definition put_response :: "string \<Rightarrow> string \<Rightarrow> string \<Rightarrow> http_response" where
  "put_response k v node_id = json_response StatusOK (cache_response k v True node_id ''success'')"

definition get_response :: "string \<Rightarrow> string option \<Rightarrow> string \<Rightarrow> http_response" where
  "get_response k r node_id = \<lparr> r_status = StatusOK, r_json = Some (lookup_json k r node_id) \<rparr>"

definition owner_at :: "dist_cache \<Rightarrow> cluster \<Rightarrow> string \<Rightarrow> string \<Rightarrow> node_state \<Rightarrow> int \<Rightarrow> bool" where
  "owner_at R w k addr ns cap \<longleftrightarrow>
     w addr = Some ns \<and> node_cache cap (localCache (ns_node ns)) \<and> GetNodeForKey k R = Some (nodeID (ns_node ns))"

lemma cluster_PUT_at:
  assumes g: "gin_ok g" and ok: "cluster_ok R book w" and a: "w a = Some ns"
    and k: "plain_key k" and v: "v \<noteq> []" "valid_utf8 v"
  shows "\<exists>addr ns' cap c. owner_at R w k addr ns' cap \<and> lru_Set k v (localCache (ns_node ns')) = Some c \<and>
    deliver g e (Suc (Suc m)) a (api_request PUT k (Some (value_body v))) w =
      (Some (put_response k v (nodeID (ns_node ns))), w(addr \<mapsto> set_cache c ns'))"
proof -
  have k': "k \<noteq> []" "CHR ''/'' \<notin> set k" using plain_keyD [OF k] by auto
  have bind: "bind_value g (Some (value_body v)) = Some v" using g v(1) by (simp add: gin_ok_def)
  have body: "marshal (value_body v) = value_body v"
    using v(2) by (simp add: value_body_def utf8_literals valid_utf8_def)
  show ?thesis
  proof (cases rule: ask [OF ok a, of k, case_names own other])
    case (own cap)
    obtain c where c: "lru_Set k v (localCache (ns_node ns)) = Some c"
      using node_lru.put_total [OF own(2)] by blast
    have "deliver g e (Suc (Suc m)) a (api_request PUT k (Some (value_body v))) w =
      (Some (put_response k v (nodeID (ns_node ns))), w(a \<mapsto> set_cache c ns))"
      using a own(1) c
      by (simp add: serve_def api_request_def route_key [OF g k'] HandleSet_def bind dn_Set_def SetLocal_def
          set_cache_def GetNodeID_def with_node_def put_response_def)
    then show ?thesis using a own c unfolding owner_at_def by blast
  next
    case (other n addr ns' cap)
    have wa: "(w(a := None)) addr = Some ns'" using other(4,5) by simp
    obtain c resp where c: "deliver g e (Suc m) addr (internal_request PUT k (Some (value_body v))) (w(a := None)) =
        (Some resp, (w(a := None))(addr \<mapsto> set_cache c ns'))" "r_status resp = StatusOK"
      "lru_Set k v (localCache (ns_node ns')) = Some c"
      using deliver_internal_Set [where w = "w(a := None)" and e = e and n = m, OF g k v(1) wa other(7)] by blast
    have "forwardSetRequestSafe (deliver g e (Suc m)) addr k v (w(a := None)) =
        (Inr (), (w(a := None))(addr \<mapsto> set_cache c ns'))"
      using c(1,2) by (simp add: forwardSetRequestSafe_def http_do_internal [OF k] body del: deliver.simps)
    then have "deliver g e (Suc (Suc m)) a (api_request PUT k (Some (value_body v))) w =
      (Some (put_response k v (nodeID (ns_node ns))), (w(a := None))(addr \<mapsto> set_cache c ns', a \<mapsto> ns))"
      using a other(1-3)
      by (subst deliver.simps)
        (simp add: serve_def api_request_def route_key [OF g k'] HandleSet_def bind dn_Set_def GetNodeID_def
          put_response_def del: deliver.simps)
    also have "(w(a := None))(addr \<mapsto> set_cache c ns', a \<mapsto> ns) = w(addr \<mapsto> set_cache c ns')"
      using a other(4) by auto
    finally show ?thesis using other c(3) unfolding owner_at_def by blast
  qed
qed

text \<open>The binding of the request body refuses the empty value.\<close>

definition rejected_response :: http_response where
  "rejected_response = sendError StatusBadRequest ''invalid_request''"

lemma cluster_PUT_empty:
  assumes "gin_ok g" "w a = Some ns" "plain_key k"
  shows "deliver g e (Suc n) a (api_request PUT k (Some (value_body []))) w = (Some rejected_response, w)"
proof -
  have "bind_value g (Some (value_body [])) = None" using assms(1) by (simp add: gin_ok_def)
  then show ?thesis
    using assms plain_keyD [OF assms(3)]
    by (auto simp: serve_def api_request_def route_key HandleSet_def rejected_response_def fun_upd_idem)
qed

lemma cluster_GET_at:
  assumes g: "gin_ok g" and ok: "cluster_ok R book w" and a: "w a = Some ns" and k: "plain_key k"
    and valid: "\<And>v. cl_lookup R book w k = Some v \<Longrightarrow> valid_utf8 v"
  shows "\<exists>addr ns' cap c. owner_at R w k addr ns' cap \<and> node_cache cap c \<and> contents c = process_data ns' \<and>
    deliver g e (Suc (Suc m)) a (api_request GET k None) w =
      (Some (get_response k (cl_lookup R book w k) (nodeID (ns_node ns))), w(addr \<mapsto> set_cache c ns'))"
proof -
  have k': "k \<noteq> []" "CHR ''/'' \<notin> set k" using plain_keyD [OF k] by auto
  show ?thesis
  proof (cases rule: ask [OF ok a, of k, case_names own other])
    case (own cap)
    obtain c where c: "lru_Get (e_now e) k (localCache (ns_node ns)) =
        Some (case contents (localCache (ns_node ns)) k of None \<Rightarrow> ([], False) | Some v \<Rightarrow> (v, True), c)"
      "node_cache cap c" "contents c = contents (localCache (ns_node ns))"
      using node_cache_Get [OF own(2)] by blast
    have "deliver g e (Suc (Suc m)) a (api_request GET k None) w =
      (Some (get_response k (cl_lookup R book w k) (nodeID (ns_node ns))), w(a \<mapsto> set_cache c ns))"
      using a own(1) c(1) unfolding own(3)
      by (cases "contents (localCache (ns_node ns)) k")
        (simp_all add: serve_def api_request_def route_key [OF g k'] HandleGet_def dn_Get_def GetLocal_def
          set_cache_def GetNodeID_def with_node_def process_data_def lookup_json_def json_response_def get_response_def)
    then show ?thesis using a own c(2,3) unfolding owner_at_def process_data_def by blast
  next
    case (other n addr ns' cap)
    have wa: "(w(a := None)) addr = Some ns'" using other(4,5) by simp
    let ?r = "process_data ns' k"
    obtain c where c: "deliver g e (Suc m) addr (internal_request GET k None) (w(a := None)) =
        (Some \<lparr> r_status = StatusOK, r_json = Some (lookup_json k ?r (nodeID (ns_node ns'))) \<rparr>,
         (w(a := None))(addr \<mapsto> set_cache c ns'))" "node_cache cap c" "contents c = process_data ns'"
      using deliver_internal_Get [where w = "w(a := None)" and e = e and n = m, OF g k wa other(7)] by blast
    obtain kvs x where f: "object_fields (lookup_json k ?r (nodeID (ns_node ns'))) = Some kvs"
      "string_field ''key'' kvs [] = Some x"
      "string_field ''value'' kvs [] = Some (case ?r of None \<Rightarrow> [] | Some v \<Rightarrow> utf8_fix v)"
      "bool_field ''found'' kvs False = Some (?r \<noteq> None)"
      using lookup_json_fields by metis
    have fix_v: "utf8_fix v = v" if "?r = Some v" for v
      using valid that other(8) by (simp add: valid_utf8_def)
    have "forwardGetRequestSafe (deliver g e (Suc m)) addr k (w(a := None)) =
        (Inr (case ?r of None \<Rightarrow> ([], False) | Some v \<Rightarrow> (v, True)), (w(a := None))(addr \<mapsto> set_cache c ns'))"
      using c(1) f fix_v
      by (cases ?r) (simp_all add: forwardGetRequestSafe_def http_do_internal [OF k] del: deliver.simps)
    then have "deliver g e (Suc (Suc m)) a (api_request GET k None) w =
      (Some (get_response k ?r (nodeID (ns_node ns))), (w(a := None))(addr \<mapsto> set_cache c ns', a \<mapsto> ns))"
      using a other(1-3)
      by (subst deliver.simps, cases ?r)
        (simp_all add: serve_def api_request_def route_key [OF g k'] HandleGet_def dn_Get_def GetNodeID_def
          lookup_json_def json_response_def get_response_def del: deliver.simps)
    also have "(w(a := None))(addr \<mapsto> set_cache c ns', a \<mapsto> ns) = w(addr \<mapsto> set_cache c ns')"
      using a other(4) by auto
    finally show ?thesis using other c(2,3) unfolding owner_at_def other(8) by blast
  qed
qed

lemma cluster_DELETE_at:
  assumes g: "gin_ok g" and ok: "cluster_ok R book w" and a: "w a = Some ns" and k: "plain_key k"
  shows "\<exists>addr ns' cap c. owner_at R w k addr ns' cap \<and> node_cache cap c \<and> contents c = (process_data ns')(k := None) \<and>
    deliver g e (Suc (Suc m)) a (api_request DELETE k None) w =
      (Some (deleted_response k (nodeID (ns_node ns))), w(addr \<mapsto> set_cache c ns'))"
proof -
  have k': "k \<noteq> []" "CHR ''/'' \<notin> set k" using plain_keyD [OF k] by auto
  show ?thesis
  proof (cases rule: ask [OF ok a, of k, case_names own other])
    case (own cap)
    obtain b c where c: "lru_Delete k (localCache (ns_node ns)) = Some (b, c)"
      using node_lru.del_total [OF own(2)] by blast
    have "deliver g e (Suc (Suc m)) a (api_request DELETE k None) w =
      (Some (deleted_response k (nodeID (ns_node ns))), w(a \<mapsto> set_cache c ns))"
      using a own(1) c
      by (simp add: serve_def api_request_def route_key [OF g k'] HandleDelete_def dn_Delete_def DeleteLocal_def
          set_cache_def GetNodeID_def with_node_def)
    then show ?thesis
      using a own node_lru.del_inv [OF own(2) c] node_lru.del_abs [OF own(2) c] unfolding owner_at_def process_data_def by blast
  next
    case (other n addr ns' cap)
    have wa: "(w(a := None)) addr = Some ns'" using other(4,5) by simp
    obtain c resp where c: "deliver g e (Suc m) addr (internal_request DELETE k None) (w(a := None)) =
        (Some resp, (w(a := None))(addr \<mapsto> set_cache c ns'))" "r_status resp = StatusOK"
      "node_cache cap c" "contents c = (process_data ns')(k := None)"
      using deliver_internal_Delete [where w = "w(a := None)" and e = e and n = m, OF g k wa other(7)] by blast
    have "forwardDeleteRequestSafe (deliver g e (Suc m)) addr k (w(a := None)) =
        (Inr (), (w(a := None))(addr \<mapsto> set_cache c ns'))"
      using c(1,2) by (simp add: forwardDeleteRequestSafe_def http_do_internal [OF k] del: deliver.simps)
    then have "deliver g e (Suc (Suc m)) a (api_request DELETE k None) w =
      (Some (deleted_response k (nodeID (ns_node ns))), (w(a := None))(addr \<mapsto> set_cache c ns', a \<mapsto> ns))"
      using a other(1-3)
      by (subst deliver.simps)
        (simp add: serve_def api_request_def route_key [OF g k'] HandleDelete_def dn_Delete_def GetNodeID_def
          del: deliver.simps)
    also have "(w(a := None))(addr \<mapsto> set_cache c ns', a \<mapsto> ns) = w(addr \<mapsto> set_cache c ns')"
      using a other(4) by auto
    finally show ?thesis using other c(3,4) unfolding owner_at_def by blast
  qed
qed

lemma cl_lookup_restore:
  assumes "cluster_ok R book w" "w addr = Some ns" "contents c = f (process_data ns)"
    "GetNodeForKey k R = Some (nodeID (ns_node ns))"
    "\<And>x. x \<noteq> k \<Longrightarrow> f (process_data ns) x = process_data ns x"
  shows "cl_lookup R book (w(addr \<mapsto> set_cache c ns)) = (cl_lookup R book w)(k := f (process_data ns) k)"
proof
  fix x
  have "book (nodeID (ns_node ns)) = Some addr"
    using assms(1,2) by (auto simp: cluster_ok_def process_ok_def)
  then have "cl_lookup R book w x = process_data ns x" if "GetNodeForKey x R = Some (nodeID (ns_node ns))"
    using that assms(2) by (simp add: cl_lookup_def)
  then show "cl_lookup R book (w(addr \<mapsto> set_cache c ns)) x =
      ((cl_lookup R book w)(k := f (process_data ns) k)) x"
    using cl_lookup_set_cache [OF assms(1,2)] assms(3-5) by simp
qed

text \<open>What replacing the owner's cache does to the cluster.\<close>

lemma owner_frame:
  assumes "cluster_ok R book w" "owner_at R w k addr ns cap" "node_cache cap c"
  shows "cluster_ok R book (w(addr \<mapsto> set_cache c ns))" "dom (w(addr \<mapsto> set_cache c ns)) = dom w"
    "contents c = process_data ns \<Longrightarrow> cl_lookup R book (w(addr \<mapsto> set_cache c ns)) = cl_lookup R book w"
    "contents c = (process_data ns)(k := r) \<Longrightarrow> cl_lookup R book (w(addr \<mapsto> set_cache c ns)) = (cl_lookup R book w)(k := r)"
proof -
  have o: "w addr = Some ns" "GetNodeForKey k R = Some (nodeID (ns_node ns))" using assms(2) by (simp_all add: owner_at_def)
  show "cluster_ok R book (w(addr \<mapsto> set_cache c ns))" by (rule cluster_ok_set_cache [OF assms(1) o(1) assms(3)])
  show "dom (w(addr \<mapsto> set_cache c ns)) = dom w" using o(1) by auto
  have "book (nodeID (ns_node ns)) = Some addr" using assms(1) o(1) by (auto simp: cluster_ok_def process_ok_def)
  then have own: "cl_lookup R book w k = process_data ns k" using o by (simp add: cl_lookup_def)
  show "cl_lookup R book (w(addr \<mapsto> set_cache c ns)) = (cl_lookup R book w)(k := r)"
    if "contents c = (process_data ns)(k := r)"
    using cl_lookup_restore [OF assms(1) o(1), where c = c and f = "\<lambda>m. m(k := r)" and k = k] that o(2) by simp
  show "cl_lookup R book (w(addr \<mapsto> set_cache c ns)) = cl_lookup R book w" if "contents c = process_data ns"
    using cl_lookup_restore [OF assms(1) o(1), where c = c and f = "\<lambda>m. m" and k = k] that o(2) own by (simp add: fun_upd_idem)
qed

lemma cluster_PUT:
  assumes g: "gin_ok g" and ok: "cluster_ok R book w" and a: "w a = Some ns"
    and k: "plain_key k" and v: "v \<noteq> []" "valid_utf8 v"
  shows "\<exists>resp w1. deliver g e (Suc (Suc m)) a (api_request PUT k (Some (value_body v))) w = (Some resp, w1) \<and>
    r_status resp = StatusOK \<and> cluster_ok R book w1 \<and> dom w1 = dom w \<and>
    cl_lookup R book w1 k = Some v \<and>
    (\<forall>k' x. k' \<noteq> k \<longrightarrow> cl_lookup R book w1 k' = Some x \<longrightarrow> cl_lookup R book w k' = Some x)"
proof -
  obtain addr ns' cap c where c: "owner_at R w k addr ns' cap" "lru_Set k v (localCache (ns_node ns')) = Some c"
    "deliver g e (Suc (Suc m)) a (api_request PUT k (Some (value_body v))) w =
      (Some (put_response k v (nodeID (ns_node ns))), w(addr \<mapsto> set_cache c ns'))"
    using cluster_PUT_at [where e = e and m = m, OF assms] by blast
  have o: "w addr = Some ns'" "node_cache cap (localCache (ns_node ns'))" "GetNodeForKey k R = Some (nodeID (ns_node ns'))"
    using c(1) by (simp_all add: owner_at_def)
  let ?w = "w(addr \<mapsto> set_cache c ns')"
  have "cl_lookup R book w x = Some y" if "x \<noteq> k" "cl_lookup R book ?w x = Some y" for x y
  proof (cases "GetNodeForKey x R = Some (nodeID (ns_node ns'))")
    case True
    then have "contents c x = Some y" using that(2) cl_lookup_set_cache [OF ok o(1)] by simp
    then have "process_data ns' x = Some y"
      unfolding process_data_def by (rule node_lru.put_other [OF o(2) c(2) that(1)])
    moreover have "book (nodeID (ns_node ns')) = Some addr"
      using ok o(1) by (auto simp: cluster_ok_def process_ok_def)
    ultimately show ?thesis using True o(1) by (simp add: cl_lookup_def)
  next
    case False
    then show ?thesis using that(2) cl_lookup_set_cache [OF ok o(1)] by simp
  qed
  moreover have "cl_lookup R book ?w k = Some v"
    using cl_lookup_set_cache [OF ok o(1)] o(3) node_lru.put_same [OF o(2) c(2)] by simp
  moreover have "r_status (put_response k v (nodeID (ns_node ns))) = StatusOK" by (simp add: put_response_def json_response_def)
  ultimately show ?thesis
    using c(3) owner_frame(1,2) [OF ok c(1) node_lru.put_inv [OF o(2) c(2)]] by blast
qed

lemma cluster_GET:
  assumes g: "gin_ok g" and ok: "cluster_ok R book w" and a: "w a = Some ns" and k: "plain_key k"
    and valid: "\<And>v. cl_lookup R book w k = Some v \<Longrightarrow> valid_utf8 v"
  shows "\<exists>w1. deliver g e (Suc (Suc m)) a (api_request GET k None) w =
      (Some \<lparr> r_status = StatusOK, r_json = Some (lookup_json k (cl_lookup R book w k) (nodeID (ns_node ns))) \<rparr>, w1) \<and>
    cluster_ok R book w1 \<and> dom w1 = dom w \<and> cl_lookup R book w1 = cl_lookup R book w"
proof -
  obtain addr ns' cap c where c: "owner_at R w k addr ns' cap" "node_cache cap c" "contents c = process_data ns'"
    "deliver g e (Suc (Suc m)) a (api_request GET k None) w =
      (Some (get_response k (cl_lookup R book w k) (nodeID (ns_node ns))), w(addr \<mapsto> set_cache c ns'))"
    using cluster_GET_at [where e = e and m = m, OF g ok a k valid] by blast
  show ?thesis
    using c(4) owner_frame(1-3) [OF ok c(1,2)] c(3) unfolding get_response_def by blast
qed

lemma cluster_DELETE:
  assumes g: "gin_ok g" and ok: "cluster_ok R book w" and a: "w a = Some ns" and k: "plain_key k"
  shows "\<exists>resp w1. deliver g e (Suc (Suc m)) a (api_request DELETE k None) w = (Some resp, w1) \<and>
    r_status resp = StatusOK \<and> cluster_ok R book w1 \<and> dom w1 = dom w \<and>
    cl_lookup R book w1 = (cl_lookup R book w)(k := None)"
proof -
  obtain addr ns' cap c where c: "owner_at R w k addr ns' cap" "node_cache cap c" "contents c = (process_data ns')(k := None)"
    "deliver g e (Suc (Suc m)) a (api_request DELETE k None) w =
      (Some (deleted_response k (nodeID (ns_node ns))), w(addr \<mapsto> set_cache c ns'))"
    using cluster_DELETE_at [where e = e and m = m, OF assms] by blast
  have "r_status (deleted_response k (nodeID (ns_node ns))) = StatusOK" by (simp add: deleted_response_def json_response_def)
  then show ?thesis using c(4) owner_frame(1,2,4) [OF ok c(1,2)] c(3) by blast
qed

end
