(* ===== verification/Cluster_Props.thy ===== *)
theory Cluster_Props
  imports Cluster_Net "HOL-Library.Multiset"
begin

text \<open>
  What a consistent cluster of processes guarantees to its clients, that the processes started from one
  configuration form such a cluster, and what joining does: a key leaves a process only after the new
  node has acknowledged it, and the process that handles a join does not learn the new node's address.
\<close>

section \<open>A concrete instance of the interface of Gin\<close>

definition ref_gin :: gin where
  "ref_gin = \<lparr>
     bind_value = (\<lambda>body. do {
       kvs \<leftarrow> Option.bind body object_fields;
       v \<leftarrow> string_field ''value'' kvs [];
       if v = [] then None else Some v }),
     bind_string_map = (\<lambda>body. do {
       kvs \<leftarrow> Option.bind body object_fields;
       if (\<forall>(k, j) \<in> set kvs. case j of JStr _ \<Rightarrow> True | JNull \<Rightarrow> True | _ \<Rightarrow> False)
       then Some (map_of (rev (map (\<lambda>(k, j). (k, case j of JStr s \<Rightarrow> s | _ \<Rightarrow> [])) kvs)))
       else None }),
     bind_change = (\<lambda>body. do {
       kvs \<leftarrow> Option.bind body object_fields;
       n \<leftarrow> string_field ''node_id'' kvs [];
       a \<leftarrow> string_field ''address'' kvs [];
       oper \<leftarrow> string_field ''operation'' kvs [];
       Some (n, a, oper) }),
     match_route = (\<lambda>pattern path.
       let p = before CHR '':'' pattern in
       if p = pattern then (if path = pattern then Some [] else None)
       else if length p < length path \<and> take (length p) path = p \<and> CHR ''/'' \<notin> set (drop (length p) path)
       then Some (drop (length p) path) else None) \<rparr>"

lemma ref_gin_ok: "gin_ok ref_gin"
proof -
  have "bind_value ref_gin (Some (value_body v)) = (if v = [] then None else Some v)" for v
    by (simp add: ref_gin_def value_body_def lower_char_def byte_in_def)
  moreover have "match_route ref_gin p path = (if path = p then Some [] else None)"
    if "CHR '':'' \<notin> set p" for p path
    by (simp add: ref_gin_def before_absent [OF that] Let_def)
  moreover have "match_route ref_gin (p @ ''/:key'') path = Some k \<longleftrightarrow>
      path = p @ ''/'' @ k \<and> k \<noteq> [] \<and> CHR ''/'' \<notin> set k" if p: "CHR '':'' \<notin> set p" for p path k
  proof -
    have b: "before CHR '':'' (p @ ''/:key'') = p @ ''/''"
      using before_append [of "CHR '':''" "p @ ''/''" "''key''"] p by simp
    have "path = (p @ ''/'') @ k" if "take (length (p @ ''/'')) path = p @ ''/''" "drop (length (p @ ''/'')) path = k"
      using that append_take_drop_id [of "length (p @ ''/'')" path] by simp
    then show ?thesis
      unfolding ref_gin_def gin.simps Let_def b by auto
  qed
  ultimately show ?thesis by (simp add: gin_ok_def)
qed

section \<open>Client requests on a consistent cluster\<close>

text \<open>C14: a client may ask any process. A PUT of an empty value under a plain key is answered 400 and changes nothing. After a PUT of any other
  value (valid UTF-8, as JSON strings are) under a plain key (one without the characters that mean something in a URL) the
  answer is 200 and a GET of the key through any process answers 200 with that value, and the cluster stays consistent;
  other keys keep their value or, when the owner's cache was full, have been evicted.\<close>

theorem cluster_read_your_writes:
  assumes "gin_ok g" "cluster_ok R book w" "a \<in> dom w" "b \<in> dom w"
    and "plain_key k" "valid_utf8 v"
  shows "if v = [] then deliver g e 2 a (api_request PUT k (Some (value_body v))) w = (Some rejected_response, w)
    else \<exists>resp w1 w2 node_id.
      deliver g e 2 a (api_request PUT k (Some (value_body v))) w = (Some resp, w1) \<and> r_status resp = StatusOK \<and>
      deliver g e' 2 b (api_request GET k None) w1 =
        (Some (json_response StatusOK (cache_response k v True node_id [])), w2) \<and>
      cluster_ok R book w2 \<and>
      (\<forall>k'. k' \<noteq> k \<longrightarrow> cl_lookup R book w2 k' \<in> {cl_lookup R book w k', None})"
proof (cases "v = []")
  case True
  obtain na where "w a = Some na" using assms(3) by blast
  from cluster_PUT_empty [where w = w and a = a, OF assms(1) this assms(5)] show ?thesis using True unfolding numeral_2_eq_2 by simp
next
  case False
  obtain na where a: "w a = Some na" using assms(3) by blast
  obtain resp w1 where w1: "deliver g e 2 a (api_request PUT k (Some (value_body v))) w = (Some resp, w1)"
    "r_status resp = StatusOK" "cluster_ok R book w1" "dom w1 = dom w" "cl_lookup R book w1 k = Some v"
    "\<And>k' x. k' \<noteq> k \<Longrightarrow> cl_lookup R book w1 k' = Some x \<Longrightarrow> cl_lookup R book w k' = Some x"
    using cluster_PUT [where m = 0 and e = e, OF assms(1,2) a assms(5) False assms(6)] unfolding numeral_2_eq_2 by blast
  obtain nb where b: "w1 b = Some nb" using assms(4) w1(4) by blast
  have "valid_utf8 x" if "cl_lookup R book w1 k = Some x" for x using that w1(5) assms(6) by simp
  then obtain w2 where w2: "deliver g e' 2 b (api_request GET k None) w1 =
      (Some \<lparr> r_status = StatusOK, r_json = Some (lookup_json k (cl_lookup R book w1 k) (nodeID (ns_node nb))) \<rparr>, w2)"
    "cluster_ok R book w2" "cl_lookup R book w2 = cl_lookup R book w1"
    using cluster_GET [where m = 0 and e = e', OF assms(1) w1(3) b assms(5)] unfolding numeral_2_eq_2 by blast
  have "cl_lookup R book w2 k' \<in> {cl_lookup R book w k', None}" if "k' \<noteq> k" for k'
    using w1(6) [OF that] w2(3) by (cases "cl_lookup R book w1 k'") auto
  then show ?thesis
    using w1(1,2) w2 False by (auto simp: w1(5) lookup_json_def json_response_def)
qed

text \<open>
  A key that is not plain: the process that is asked builds the URL of the forwarded request without escaping the key.
  A PUT of \<open>x?y\<close> through a process that does not own the key is answered 200, but the owner of \<open>x?y\<close> stores the value under
  \<open>x\<close>, and what the cluster holds for \<open>x?y\<close> does not become the value written.
\<close>

theorem query_key_stored_elsewhere:
  assumes g: "gin_ok g" and ok: "cluster_ok R book w" and a: "w a = Some ns"
    and k: "plain_key x" "plain_key y" and v: "v \<noteq> []" "valid_utf8 v"
    and foreign: "GetNodeForKey (x @ ''?'' @ y) R \<noteq> Some (nodeID (ns_node ns))"
  shows "\<exists>addr ns' w1. deliver g e 2 a (api_request PUT (x @ ''?'' @ y) (Some (value_body v))) w =
      (Some (put_response (x @ ''?'' @ y) v (nodeID (ns_node ns))), w1) \<and>
    w1 addr = Some ns' \<and> GetNodeForKey (x @ ''?'' @ y) R = Some (nodeID (ns_node ns')) \<and> process_data ns' x = Some v \<and>
    cl_lookup R book w1 (x @ ''?'' @ y) \<in> {cl_lookup R book w (x @ ''?'' @ y), None}"
proof -
  let ?k = "x @ ''?'' @ y"
  have k': "?k \<noteq> []" "CHR ''/'' \<notin> set ?k" using plain_keyD [OF k(1)] plain_keyD [OF k(2)] by auto
  have bind: "bind_value g (Some (value_body v)) = Some v" using g v(1) by (simp add: gin_ok_def)
  have body: "marshal (value_body v) = value_body v"
    using v(2) by (simp add: value_body_def utf8_literals valid_utf8_def)
  show ?thesis
  proof (cases rule: ask [OF ok a, of ?k, case_names own other])
    case (own cap)
    then show ?thesis using foreign by simp
  next
    case (other n addr ns' cap)
    have wa: "(w(a := None)) addr = Some ns'" using other(4,5) by simp
    obtain c resp where c: "deliver g e (Suc 0) addr (internal_request PUT x (Some (value_body v))) (w(a := None)) =
        (Some resp, (w(a := None))(addr \<mapsto> set_cache c ns'))" "r_status resp = StatusOK"
      "lru_Set x v (localCache (ns_node ns')) = Some c"
      using deliver_internal_Set [where w = "w(a := None)" and e = e and n = 0, OF g k(1) v(1) wa other(7)] by blast
    have "parse_target (internal_url ?k) = Some (internal_url x)"
      unfolding internal_url_def
      using parse_target_query [of "''/internal/cache/'' @ x" y] k slash_plain by (auto simp: plain_key_def)
    then have "forwardSetRequestSafe (deliver g e (Suc 0)) addr ?k v (w(a := None)) =
        (Inr (), (w(a := None))(addr \<mapsto> set_cache c ns'))"
      using c(1,2) by (simp add: forwardSetRequestSafe_def http_do_def internal_request_def body del: deliver.simps)
    then have "deliver g e (Suc (Suc 0)) a (api_request PUT ?k (Some (value_body v))) w =
      (Some (put_response ?k v (nodeID (ns_node ns))), (w(a := None))(addr \<mapsto> set_cache c ns', a \<mapsto> ns))"
      using a other(1-3)
      by (subst deliver.simps)
        (simp add: serve_def api_request_def route_key [OF g k'] HandleSet_def bind dn_Set_def GetNodeID_def
          put_response_def del: deliver.simps append_Cons append_assoc)
    also have "(w(a := None))(addr \<mapsto> set_cache c ns', a \<mapsto> ns) = w(addr \<mapsto> set_cache c ns')"
      using a other(4) by auto
    finally have d: "deliver g e 2 a (api_request PUT ?k (Some (value_body v))) w =
      (Some (put_response ?k v (nodeID (ns_node ns))), w(addr \<mapsto> set_cache c ns'))" unfolding numeral_2_eq_2 .
    have "x \<noteq> ?k" by simp
    have "process_data ns' ?k = Some z" if "contents c ?k = Some z" for z
      unfolding process_data_def using node_lru.put_other [OF other(7) c(3) _ that] by simp
    then have "contents c ?k \<in> {process_data ns' ?k, None}" by (cases "contents c ?k") auto
    moreover have "cl_lookup R book (w(addr \<mapsto> set_cache c ns')) ?k = contents c ?k"
      using cl_lookup_set_cache [OF ok other(5)] other(6,9) by simp
    ultimately show ?thesis
      using d other(6,8,9) node_lru.put_same [OF other(7) c(3)]
      by (intro exI [of _ addr] exI [of _ "set_cache c ns'"] exI [of _ "w(addr \<mapsto> set_cache c ns')"]) simp
  qed
qed

text \<open>Two processes on a ring with two positions.\<close>

definition demo_ring :: dist_cache where
  "demo_ring = \<lparr> HashRing = [1 \<mapsto> ''n1'', 2 \<mapsto> ''n2''], Nodes = [''n1'', ''n2''], VirtualNodes = 1,
     SortedHashes = [1, 2], LocalCaches = Map.empty,
     BasicStats = \<lparr> MigratedKeys = 0, Duration = 0, LastMigration = None \<rparr> \<rparr>"

definition demo_book :: "string \<rightharpoonup> string" where
  "demo_book = [''n1'' \<mapsto> ''h1'', ''n2'' \<mapsto> ''h2'']"

definition demo_process :: "string \<Rightarrow> string \<Rightarrow> lru_cache \<Rightarrow> node_state" where
  "demo_process n h c = \<lparr> ns_node = \<lparr> nodeID = n, nodeAddress = h, hashRing = demo_ring, localCache = c,
     clusterNodes = demo_book \<rparr>, ns_cluster = NewClusterManager 0 n demo_book \<rparr>"

definition demo_env :: env where
  "demo_env = \<lparr> e_now = 0, e_elapsed = 0, e_visit = ascending, e_ring = hash_order, e_members = ascending \<rparr>"

definition demo_cluster :: "lru_cache \<Rightarrow> cluster" where
  "demo_cluster c = [''h1'' \<mapsto> demo_process ''n1'' ''h1'' c, ''h2'' \<mapsto> demo_process ''n2'' ''h2'' c]"

lemma demo_ring_simps:
  "dom (HashRing demo_ring) = {1, 2}" "ran (HashRing demo_ring) = {''n1'', ''n2''}"
proof -
  show "dom (HashRing demo_ring) = {1, 2}" by (auto simp: demo_ring_def)
  show "ran (HashRing demo_ring) = {''n1'', ''n2''}" by (simp add: demo_ring_def insert_commute)
qed

lemma demo_cluster_ok:
  assumes "node_cache cap c"
  shows "cluster_ok demo_ring demo_book (demo_cluster c)"
  unfolding cluster_ok_def
proof (intro conjI allI impI ballI)
  show "ring_inv demo_ring"
    unfolding ring_inv_def demo_ring_simps by (simp add: demo_ring_def)
  show "dom (HashRing demo_ring) \<noteq> {}" by (simp add: demo_ring_simps)
  have p: "process_ok demo_ring demo_book h (demo_process n h c)" if "demo_book n = Some h" for n h
    using assms that by (auto simp: process_ok_def demo_process_def)
  show "process_ok demo_ring demo_book addr ns" if "demo_cluster c addr = Some ns" for addr ns
  proof -
    have "(addr, ns) \<in> {(''h1'', demo_process ''n1'' ''h1'' c), (''h2'', demo_process ''n2'' ''h2'' c)}"
      using that by (simp add: demo_cluster_def split: if_splits)
    then show ?thesis using p [of "''n1''" "''h1''"] p [of "''n2''" "''h2''"] by (auto simp: demo_book_def)
  qed
  show "\<exists>addr ns. demo_book n = Some addr \<and> demo_cluster c addr = Some ns \<and> nodeID (ns_node ns) = n"
    if "n \<in> ran (HashRing demo_ring)" for n
  proof -
    have "n = ''n1'' \<or> n = ''n2''" using that demo_ring_simps(2) by blast
    then show ?thesis by (elim disjE) (simp_all add: demo_book_def demo_cluster_def demo_process_def)
  qed
qed

lemma plain_k: "plain_key ''k''"
  by (simp add: plain_key_def plain_char_def byte_in_def del: One_nat_def)

lemma v_ne: "''v'' \<noteq> []"
  by simp

lemma valid_v: "valid_utf8 ''v''"
  unfolding valid_utf8_def by (rule utf8_fix_ascii) (simp add: byte_in_def)

theorem cluster_read_your_writes_witness:
  "\<exists>c e resp w1 w2 node_id.
    deliver ref_gin e 2 ''h1'' (api_request PUT ''k'' (Some (value_body ''v''))) (demo_cluster c) = (Some resp, w1) \<and>
    deliver ref_gin e 2 ''h2'' (api_request GET ''k'' None) w1 =
      (Some (json_response StatusOK (cache_response ''k'' ''v'' True node_id [])), w2)"
proof -
  obtain c where c: "node_cache 5 c" using node_cache_new [of 5] by auto
  have "''h1'' \<in> dom (demo_cluster c)" "''h2'' \<in> dom (demo_cluster c)" by (simp_all add: demo_cluster_def)
  note main = cluster_read_your_writes [where e = demo_env and e' = demo_env, OF ref_gin_ok demo_cluster_ok [OF c] this plain_k valid_v, unfolded if_not_P [OF v_ne]]
  show ?thesis
    by (rule exI [of _ c], rule exI [of _ demo_env]) (use main in \<open>elim exE conjE, intro exI conjI; simp\<close>)
qed

text \<open>After a DELETE through one process a GET through any process answers that the key is not found,
  and every other key keeps its value.\<close>

theorem cluster_delete_then_get:
  assumes "gin_ok g" "cluster_ok R book w" "a \<in> dom w" "b \<in> dom w" and "plain_key k"
  shows "\<exists>resp w1 w2 node_id.
    deliver g e 2 a (api_request DELETE k None) w = (Some resp, w1) \<and> r_status resp = StatusOK \<and>
    deliver g e' 2 b (api_request GET k None) w1 =
      (Some (json_response StatusOK (cache_response k [] False node_id [])), w2) \<and>
    cluster_ok R book w2 \<and> cl_lookup R book w2 = (cl_lookup R book w)(k := None)"
proof -
  obtain na where a: "w a = Some na" using assms(3) by blast
  obtain resp w1 where w1: "deliver g e 2 a (api_request DELETE k None) w = (Some resp, w1)"
    "r_status resp = StatusOK" "cluster_ok R book w1" "dom w1 = dom w"
    "cl_lookup R book w1 = (cl_lookup R book w)(k := None)"
    using cluster_DELETE [where m = 0 and e = e, OF assms(1,2) a assms(5)] unfolding numeral_2_eq_2 by blast
  obtain nb where b: "w1 b = Some nb" using assms(4) w1(4) by blast
  have "valid_utf8 x" if "cl_lookup R book w1 k = Some x" for x using that w1(5) by simp
  then obtain w2 where w2: "deliver g e' 2 b (api_request GET k None) w1 =
      (Some \<lparr> r_status = StatusOK, r_json = Some (lookup_json k (cl_lookup R book w1 k) (nodeID (ns_node nb))) \<rparr>, w2)"
    "cluster_ok R book w2" "cl_lookup R book w2 = cl_lookup R book w1"
    using cluster_GET [where m = 0 and e = e', OF assms(1) w1(3) b assms(5)] unfolding numeral_2_eq_2 by blast
  then show ?thesis
    using w1(1,2,5) by (auto simp: lookup_json_def json_response_def)
qed

theorem cluster_delete_then_get_witness:
  "\<exists>c e resp w1 w2 node_id.
    deliver ref_gin e 2 ''h1'' (api_request DELETE ''k'' None) (demo_cluster c) = (Some resp, w1) \<and>
    deliver ref_gin e 2 ''h2'' (api_request GET ''k'' None) w1 =
      (Some (json_response StatusOK (cache_response ''k'' [] False node_id [])), w2)"
proof -
  obtain c where c: "node_cache 5 c" using node_cache_new [of 5] by auto
  have "''h1'' \<in> dom (demo_cluster c)" "''h2'' \<in> dom (demo_cluster c)" by (simp_all add: demo_cluster_def)
  note main = cluster_delete_then_get [where e = demo_env and e' = demo_env, OF ref_gin_ok demo_cluster_ok [OF c] this plain_k]
  show ?thesis
    by (rule exI [of _ c], rule exI [of _ demo_env]) (use main in \<open>elim exE conjE, intro exI conjI; simp\<close>)
qed

section \<open>Processes started from one configuration\<close>

text \<open>Without collisions between the positions of different nodes the ring does not depend on the order in
  which the nodes were added.\<close>

lemma build_ring_positions:
  assumes "distinct ns" "\<And>m n. m \<in> set ns \<Longrightarrow> n \<in> set ns \<Longrightarrow> m \<noteq> n \<Longrightarrow> positions dc m \<inter> positions dc n = {}"
  shows "HashRing (fold addNodeToHashRing ns dc) h =
    (if \<exists>n \<in> set ns. h \<in> positions dc n then Some (THE n. n \<in> set ns \<and> h \<in> positions dc n)
     else HashRing dc h)"
  using assms
proof (induction ns arbitrary: dc)
  case (Cons n ns)
  let ?d = "addNodeToHashRing n dc"
  have p: "positions ?d m = positions dc m" for m by (simp add: positions_def addNodeToHashRing_sel)
  have ih: "HashRing (fold addNodeToHashRing ns ?d) h =
      (if \<exists>m \<in> set ns. h \<in> positions dc m then Some (THE m. m \<in> set ns \<and> h \<in> positions dc m)
       else HashRing ?d h)"
    using Cons.IH [of ?d] Cons.prems by (auto simp: p)
  show ?case
  proof (cases "\<exists>m \<in> set ns. h \<in> positions dc m")
    case True
    then have "h \<notin> positions dc n" using Cons.prems by fastforce
    then have "(\<lambda>m. m \<in> set (n # ns) \<and> h \<in> positions dc m) = (\<lambda>m. m \<in> set ns \<and> h \<in> positions dc m)"
      by auto
    then show ?thesis using ih True by simp
  next
    case False
    then have "(THE m. m \<in> set (n # ns) \<and> h \<in> positions dc m) = n" if "h \<in> positions dc n"
      using that by (intro the_equality) auto
    then show ?thesis using ih False by (auto simp: addNodeToHashRing_sel map_add_def)
  qed
qed simp

lemma build_ring_mset:
  "mset (SortedHashes (fold addNodeToHashRing ns dc)) =
    mset (SortedHashes dc) + sum_list (map (\<lambda>n. mset (map (virtual_hash n) [0..<nat (VirtualNodes dc)])) ns)"
proof (induction ns arbitrary: dc)
  case (Cons n ns)
  have "mset (SortedHashes (addNodeToHashRing n dc)) =
      mset (SortedHashes dc) + mset (map (virtual_hash n) [0..<nat (VirtualNodes dc)])"
    by (simp add: addNodeToHashRing_def Let_def add_virtual_fold)
  then show ?case using Cons.IH [of "addNodeToHashRing n dc"]
    by (simp add: addNodeToHashRing_sel)
qed simp

lemma build_ring_sorted:
  "sorted (SortedHashes dc) \<Longrightarrow> sorted (SortedHashes (fold addNodeToHashRing ns dc))"
  by (induction ns arbitrary: dc) (simp_all add: addNodeToHashRing_sel)

lemma ring_order_irrelevant:
  assumes "distinct ns" "set ms = set ns" "distinct ms"
    and same: "SortedHashes dc = []" "SortedHashes dc' = []" "HashRing dc' = HashRing dc"
      "VirtualNodes dc' = VirtualNodes dc"
    and disj: "\<And>m n. m \<in> set ns \<Longrightarrow> n \<in> set ns \<Longrightarrow> m \<noteq> n \<Longrightarrow> positions dc m \<inter> positions dc n = {}"
  shows "HashRing (fold addNodeToHashRing ms dc') = HashRing (fold addNodeToHashRing ns dc)"
    "SortedHashes (fold addNodeToHashRing ms dc') = SortedHashes (fold addNodeToHashRing ns dc)"
proof -
  have p: "positions dc' m = positions dc m" for m by (simp add: positions_def same)
  show "HashRing (fold addNodeToHashRing ms dc') = HashRing (fold addNodeToHashRing ns dc)"
    using build_ring_positions [OF assms(1), of dc] build_ring_positions [OF assms(3), of dc'] assms(2) disj
    by (simp add: fun_eq_iff p same)
  have "mset ms = mset ns" using assms(1-3) by (simp add: set_eq_iff_mset_eq_distinct)
  then have "sum_list (map f ms) = sum_list (map f ns)" for f :: "string \<Rightarrow> uint32 multiset"
    by (metis mset_map sum_mset_sum_list)
  then have "mset (SortedHashes (fold addNodeToHashRing ms dc')) = mset (SortedHashes (fold addNodeToHashRing ns dc))"
    by (simp only: build_ring_mset same)
  moreover have "sorted (SortedHashes (fold addNodeToHashRing l dc))" "sorted (SortedHashes (fold addNodeToHashRing l dc'))" for l
    by (rule build_ring_sorted; simp add: same)+
  ultimately show "SortedHashes (fold addNodeToHashRing ms dc') = SortedHashes (fold addNodeToHashRing ns dc)"
    by (metis properties_for_sort)
qed

definition blank_ring :: "string list \<Rightarrow> int \<Rightarrow> dist_cache" where
  "blank_ring ns v = \<lparr> HashRing = Map.empty, Nodes = ns, VirtualNodes = v, SortedHashes = [],
     LocalCaches = Map.empty, BasicStats = \<lparr> MigratedKeys = 0, Duration = 0, LastMigration = None \<rparr> \<rparr>"

lemma new_ring_fold:
  assumes "NewDistributedCacheWithVirtualNodes ns v = Some t"
  shows "HashRing t = HashRing (fold addNodeToHashRing ns (blank_ring ns v))"
    "SortedHashes t = SortedHashes (fold addNodeToHashRing ns (blank_ring ns v))"
proof -
  let ?d = "fold addNodeToHashRing ns (blank_ring ns v)"
  have t: "foldM new_local_cache ns ?d = Some t"
    using assms by (simp add: NewDistributedCacheWithVirtualNodes_def buildHashRing_def blank_ring_def)
  have "LocalCaches (fold addNodeToHashRing l d) = LocalCaches d" for l d
    by (induction l arbitrary: d) (simp_all add: addNodeToHashRing_sel)
  then have "caches_ok ?d" by (simp add: caches_ok_def blank_ring_def)
  then show "HashRing t = HashRing ?d" "SortedHashes t = SortedHashes ?d"
    using new_local_caches [of ?d ns] t by auto
qed

text \<open>One process per member of the book, each with its own cache size and its own visiting order.\<close>

definition boot :: "(string \<rightharpoonup> string) \<Rightarrow> int \<Rightarrow> (string \<Rightarrow> int) \<Rightarrow> (string \<Rightarrow> string list) \<Rightarrow> string \<Rightarrow> node_state option" where
  "boot book v sizes order n = NewNodeServer 0 (order n)
     \<lparr> cfg_NodeID = n, cfg_Address = [], cfg_ClusterNodes = book, cfg_CacheSize = sizes n, cfg_VirtualNodes = v \<rparr>"

lemma boot_spec:
  assumes n: "n \<in> dom book" "is_order book (order n)" "[] \<notin> dom book" and v: "0 < v"
  shows "\<exists>ns R cap. boot book v sizes order n = Some ns \<and>
    NewDistributedCacheWithVirtualNodes (order n) v = Some R \<and> hashRing (ns_node ns) = R \<and>
    dc_inv R \<and> nonempty_ring R \<and>
    nodeID (ns_node ns) = n \<and> clusterNodes (ns_node ns) = book \<and>
    node_cache cap (localCache (ns_node ns)) \<and> process_data ns = Map.empty"
proof -
  have set: "set (order n) = dom book" using n(2) by (simp add: is_order_def)
  have "order n \<noteq> []" using set n(1) by auto
  then obtain R where R: "NewDistributedCacheWithVirtualNodes (order n) v = Some R" "dc_inv R" "nonempty_ring R"
    using NewDistributedCache_spec [of "order n" v] set n(3) v by auto
  let ?size = "if sizes n \<le> 0 then 1000 else sizes n"
  have "0 < ?size" by simp
  from node_cache_new [OF this]
  obtain c where "NewLRUCache ?size = Some c" "node_cache ?size c" "contents c = Map.empty"
    by blast
  then show ?thesis
    using R v by (auto simp: boot_def NewNodeServer_def NewDistributedNode_def process_data_def)
qed

lemma ring_nodes:
  assumes "NewDistributedCacheWithVirtualNodes ns v = Some R" "[] \<notin> set ns"
  shows "ran (HashRing R) \<subseteq> set ns"
proof -
  have "ring_inv (blank_ring ns v)" "\<forall>n \<in> set ns. n \<noteq> []"
    using assms(2) by (auto simp: ring_inv_def blank_ring_def)
  from buildHashRing_fold [OF this(2,1)] show ?thesis
    by (auto simp: new_ring_fold(1) [OF assms(1)] blank_ring_def)
qed

text \<open>C15: when all processes start from the same address book, in which the addresses differ and no two
  nodes have a virtual position in common, they form a consistent empty cluster, although each process
  visits the book in an order of its own.\<close>

theorem cluster_boot_consistent:
  assumes "dom book \<noteq> {}" "[] \<notin> dom book" "inj_on book (dom book)" "0 < v"
    and "\<forall>n \<in> dom book. is_order book (order n)"
    and "\<forall>m \<in> dom book. \<forall>n \<in> dom book. m \<noteq> n \<longrightarrow>
      virtual_hash m ` {0..<nat v} \<inter> virtual_hash n ` {0..<nat v} = {}"
    and "w = (\<lambda>addr. if \<exists>n. book n = Some addr then boot book v sizes order (THE n. book n = Some addr) else None)"
  shows "\<exists>R. cluster_ok R book w \<and> cl_lookup R book w = Map.empty"
proof -
  obtain n0 where n0: "n0 \<in> dom book" using assms(1) by blast
  obtain R where R: "NewDistributedCacheWithVirtualNodes (order n0) v = Some R" "dc_inv R" "nonempty_ring R"
    using boot_spec [of n0 book order v] n0 assms(2,4,5) by blast
  have same: "HashRing R' = HashRing R \<and> SortedHashes R' = SortedHashes R"
    if n: "n \<in> dom book" and R': "NewDistributedCacheWithVirtualNodes (order n) v = Some R'" for n R'
  proof -
    have o: "distinct (order n0)" "set (order n) = set (order n0)" "distinct (order n)"
      using n n0 assms(5) by (auto simp: is_order_def)
    have "positions (blank_ring (order n0) v) m \<inter> positions (blank_ring (order n0) v) m' = {}"
      if "m \<in> set (order n0)" "m' \<in> set (order n0)" "m \<noteq> m'" for m m'
      using that assms(5,6) n0 unfolding positions_def blank_ring_def is_order_def by simp
    then show ?thesis
      using ring_order_irrelevant [OF o, of "blank_ring (order n0) v" "blank_ring (order n) v"]
        new_ring_fold [OF R'] new_ring_fold [OF R(1)] by (simp add: blank_ring_def)
  qed
  have addr: "(THE n. book n = Some addr) = n" if "book n = Some addr" for n addr
  proof (rule the_equality)
    show "book n = Some addr" by (rule that)
    show "m = n" if "book m = Some addr" for m
      by (rule inj_onD [OF assms(3)]) (use that \<open>book n = Some addr\<close> in auto)
  qed
  have proc: "\<exists>ns. w addr = Some ns \<and> process_ok R book addr ns \<and> nodeID (ns_node ns) = n \<and> process_data ns = Map.empty"
    if n: "book n = Some addr" for n addr
  proof -
    have d: "n \<in> dom book" using n by blast
    obtain ns R' cap where b: "boot book v sizes order n = Some ns"
      "NewDistributedCacheWithVirtualNodes (order n) v = Some R'" "hashRing (ns_node ns) = R'"
      "nodeID (ns_node ns) = n" "clusterNodes (ns_node ns) = book"
      "node_cache cap (localCache (ns_node ns))" "process_data ns = Map.empty"
      using boot_spec [OF d, of order v sizes] d assms(2,4,5) by blast
    have "w addr = Some ns" using n addr [OF n] b(1) by (auto simp: assms(7))
    then show ?thesis using same [OF d b(2)] b n by (auto simp: process_ok_def)
  qed
  have from_w: "\<exists>n. book n = Some addr" if "w addr = Some ns" for addr ns
    using that by (auto simp: assms(7) split: if_splits)
  have ran: "ran (HashRing R) \<subseteq> dom book"
    using ring_nodes [OF R(1)] n0 assms(2,5) by (auto simp: is_order_def)
  have ok: "cluster_ok R book w"
    unfolding cluster_ok_def
  proof (intro conjI allI impI ballI)
    show "ring_inv R" "dom (HashRing R) \<noteq> {}" using R by (simp_all add: dc_inv_def)
    show "process_ok R book addr ns" if "w addr = Some ns" for addr ns
      using from_w [OF that] proc that by fastforce
    show "\<exists>addr ns. book n = Some addr \<and> w addr = Some ns \<and> nodeID (ns_node ns) = n"
      if "n \<in> ran (HashRing R)" for n
      using that ran proc by blast
  qed
  have "cl_lookup R book w k = None" for k
  proof -
    obtain n addr ns where "book n = Some addr" "w addr = Some ns" "cl_lookup R book w k = process_data ns k"
      by (rule cluster_owner [OF ok, of k])
    then show ?thesis using proc [of n addr] by auto
  qed
  with ok show ?thesis by (intro exI [of _ R]) (auto simp: fun_eq_iff)
qed

theorem cluster_boot_consistent_witness:
  "\<exists>R. cluster_ok R [''n1'' \<mapsto> ''h1'']
     (\<lambda>addr. if \<exists>n. [''n1'' \<mapsto> ''h1''] n = Some addr
             then boot [''n1'' \<mapsto> ''h1''] 3 (\<lambda>_. 10) (\<lambda>_. [''n1'']) (THE n. [''n1'' \<mapsto> ''h1''] n = Some addr) else None)"
proof -
  let ?b = "[''n1'' \<mapsto> ''h1'']"
  have "dom ?b \<noteq> {}" "[] \<notin> dom ?b" "inj_on ?b (dom ?b)" "(0::int) < 3"
    "\<forall>n \<in> dom ?b. is_order ?b ((\<lambda>_. [''n1'']) n)"
    "\<forall>m \<in> dom ?b. \<forall>n \<in> dom ?b. m \<noteq> n \<longrightarrow> virtual_hash m ` {0..<nat 3} \<inter> virtual_hash n ` {0..<nat 3} = {}"
    by (simp_all add: is_order_def)
  from cluster_boot_consistent [OF this refl, of "\<lambda>_. 10"] show ?thesis by blast
qed

end
