(* ===== verification/Membership.thy ===== *)
theory Membership
  imports Cluster_Props
begin

text \<open>
  Joining a running cluster and the health table. The migration of \<open>performNetworkDataMigration\<close> gives
  a key away only after the new node has acknowledged it; the process that handles a join request puts
  the new node on its ring without learning its address, which \<open>SyncAddNode\<close> does; a health check
  leaves in the table what the probes answered, and the verdict counts it.
\<close>

section \<open>Acknowledged requests\<close>

text \<open>A network that records the requests answered with status 200.\<close>

definition acked :: "'w net \<Rightarrow> ('w \<times> (string \<times> http_request) set) net" where
  "acked net addr req st = (case st of (w, acks) \<Rightarrow>
     (case net addr req w of (r, w1) \<Rightarrow>
        (r, w1, if \<exists>resp. r = Some resp \<and> r_status resp = StatusOK then insert (addr, req) acks else acks)))"

definition put_acked :: "(string \<times> http_request) set \<Rightarrow> string \<Rightarrow> string \<Rightarrow> string \<Rightarrow> bool" where
  "put_acked acks addr key value \<longleftrightarrow> (\<exists>path. parse_target (internal_url key) = Some path \<and>
     (addr, \<lparr> r_method = PUT, r_path = path, r_body = Some (marshal (value_body value)) \<rparr>) \<in> acks)"

lemma acked_log_grows: "acked net addr req (w, acks) = (r, w1, acks1) \<Longrightarrow> acks \<subseteq> acks1"
  by (auto simp: acked_def split: prod.splits if_splits)

lemma migrateKeyToNode_acked:
  assumes "migrateKeyToNode (acked net) key value addr (w, acks) = (ok, w1, acks1)"
  shows "acks \<subseteq> acks1" "ok \<Longrightarrow> put_acked acks1 addr key value"
  using assms unfolding migrateKeyToNode_def http_do_def put_acked_def acked_def
  by (auto split: option.splits prod.splits if_splits)

text \<open>One step of the migration loop.\<close>

definition moved_ok ::
  "string \<Rightarrow> string \<Rightarrow> dist_node \<Rightarrow> string set \<Rightarrow> int \<times> dist_node \<times> 'w \<times> (string \<times> http_request) set \<Rightarrow> bool" where
  "moved_ok n addr dn seen st = (case st of (cnt, dn1, w, acks) \<Rightarrow>
     \<exists>cap moved. node_cache cap (localCache dn1) \<and> dn1 = dn\<lparr> localCache := localCache dn1 \<rparr> \<and>
       moved \<subseteq> seen \<and> finite moved \<and> cnt = int (card moved) \<and> moved \<subseteq> dom (contents (localCache dn)) \<and>
       contents (localCache dn1) = (contents (localCache dn)) |` (- moved) \<and>
       (\<forall>k \<in> moved. GetNodeForKey k (hashRing dn) = Some n \<and>
          put_acked acks addr k (the (contents (localCache dn) k))))"

lemma send_key_moved:
  assumes I: "moved_ok n addr dn seen (cnt, dn1, w, acks)" and k: "contents (localCache dn) k \<noteq> None" "k \<notin> seen"
    and ring: "ring_inv (hashRing dn)" "nonempty_ring (hashRing dn)"
  shows "\<exists>st. send_key (acked net) n addr (contents (localCache dn)) k (cnt, dn1, w, acks) = Some st \<and>
    moved_ok n addr dn (insert k seen) st"
proof -
  obtain cap moved where I: "node_cache cap (localCache dn1)" "dn1 = dn\<lparr> localCache := localCache dn1 \<rparr>"
    "moved \<subseteq> seen" "finite moved" "cnt = int (card moved)" "moved \<subseteq> dom (contents (localCache dn))"
    "contents (localCache dn1) = (contents (localCache dn)) |` (- moved)"
    "\<forall>k \<in> moved. GetNodeForKey k (hashRing dn) = Some n \<and> put_acked acks addr k (the (contents (localCache dn) k))"
    using I unfolding moved_ok_def by auto
  have same: "hashRing dn1 = hashRing dn" by (subst I(2)) simp
  obtain v where v: "contents (localCache dn) k = Some v" using k(1) by blast
  obtain m where m: "GetNodeForKey k (hashRing dn) = Some m"
    using getNode_total [OF ring] by (metis GetNodeForKey_def)
  obtain ok w1 acks1 where mig: "migrateKeyToNode (acked net) k v addr (w, acks) = (ok, w1, acks1)"
    by (metis surj_pair)
  show ?thesis
  proof (cases "m = n \<and> ok")
    case False
    have "send_key (acked net) n addr (contents (localCache dn)) k (cnt, dn1, w, acks) =
        Some (cnt, dn1, if m = n then (w1, acks1) else (w, acks))"
      using False v m same mig by (auto simp: send_key_def)
    then obtain w2 acks2 where s: "send_key (acked net) n addr (contents (localCache dn)) k (cnt, dn1, w, acks) =
        Some (cnt, dn1, w2, acks2)" and grows: "acks \<subseteq> acks2"
      using migrateKeyToNode_acked(1) [OF mig] by (cases "m = n") auto
    have "put_acked acks2 addr x y" if "put_acked acks addr x y" for x y
      using that grows unfolding put_acked_def by blast
    then have "moved_ok n addr dn (insert k seen) (cnt, dn1, w2, acks2)"
      unfolding moved_ok_def prod.case using I by (intro exI [of _ cap] exI [of _ moved] conjI) (simp_all, blast+)
    with s show ?thesis by blast
  next
    case True
    obtain c where c: "lru_Delete k (localCache dn1) = Some (k \<in> dom (contents (localCache dn1)), c)"
      "node_cache cap c" "contents c = (contents (localCache dn1))(k := None)"
      using node_cache_Delete [OF I(1)] by blast
    have s: "send_key (acked net) n addr (contents (localCache dn)) k (cnt, dn1, w, acks) =
        Some (cnt + 1, dn1\<lparr> localCache := c \<rparr>, w1, acks1)"
      using v m same mig True c(1) by (simp add: send_key_def)
    have "put_acked acks1 addr x y" if "put_acked acks addr x y" for x y
      using that migrateKeyToNode_acked(1) [OF mig] unfolding put_acked_def by blast
    moreover have "put_acked acks1 addr k v" using migrateKeyToNode_acked(2) [OF mig] True by blast
    moreover have "k \<notin> moved" using I(3) k(2) by blast
    moreover have "contents c = (contents (localCache dn)) |` (- insert k moved)"
      unfolding c(3) I(7) by (auto simp: restrict_map_def)
    moreover have "dn1\<lparr> localCache := c \<rparr> = dn\<lparr> localCache := c \<rparr>" by (subst I(2)) simp
    ultimately have "moved_ok n addr dn (insert k seen) (cnt + 1, dn1\<lparr> localCache := c \<rparr>, w1, acks1)"
      unfolding moved_ok_def prod.case using I(3-6,8) c(2) v m True
      by (intro exI [of _ cap] exI [of _ "insert k moved"] conjI) auto
    with s show ?thesis by blast
  qed
qed

lemma migration_loop:
  assumes "node_cache cap (localCache dn)" "ring_inv (hashRing dn)" "nonempty_ring (hashRing dn)"
    and "is_order (contents (localCache dn)) ks"
  shows "\<exists>st. foldM (send_key (acked net) n addr (contents (localCache dn))) ks (0, dn, w, acks) = Some st \<and>
    moved_ok n addr dn (set ks) st"
proof (rule foldM_rule [where I = "\<lambda>ys. moved_ok n addr dn (set ys)"])
  show "moved_ok n addr dn (set []) (0, dn, w, acks)"
    unfolding moved_ok_def prod.case by (intro exI [of _ cap] exI [of _ "{}"]) (simp add: assms(1) restrict_map_def)
  fix ys x zs and t :: "int \<times> dist_node \<times> 'a \<times> (string \<times> http_request) set"
  assume ks: "ks = ys @ x # zs" and I: "moved_ok n addr dn (set ys) t"
  obtain cnt dn1 w1 acks1 where t: "t = (cnt, dn1, w1, acks1)" by (cases t)
  have "contents (localCache dn) x \<noteq> None" "x \<notin> set ys"
    using assms(4) ks by (auto simp: is_order_def)
  from send_key_moved [OF I [unfolded t] this assms(2,3)]
  show "\<exists>t'. send_key (acked net) n addr (contents (localCache dn)) x t = Some t' \<and> moved_ok n addr dn (set (ys @ [x])) t'"
    by (simp add: t)
qed

text \<open>C16: when a node hands keys over to a new node it returns without a panic, every key that left its
  cache is one the ring now routes to the new node and whose value the new node has acknowledged with
  status 200, whatever the network answers and in whatever order the keys are visited; all other
  entries stay, and the number added to the statistics is the number of keys that left.\<close>

theorem migration_is_acknowledged:
  assumes "node_cache cap (localCache dn)" "ring_inv (hashRing dn)" "nonempty_ring (hashRing dn)"
    and "fair_order (e_visit e)"
  shows "\<exists>dn1 w1 acks1 moved.
    performNetworkDataMigration (acked net) e n addr (dn, w, acks) = Some (dn1, w1, acks1) \<and>
    moved \<subseteq> dom (contents (localCache dn)) \<and>
    contents (localCache dn1) = (contents (localCache dn)) |` (- moved) \<and>
    (\<forall>k \<in> moved. GetNodeForKey k (hashRing dn) = Some n \<and>
       put_acked acks1 addr k (the (contents (localCache dn) k))) \<and>
    MigratedKeys (BasicStats (hashRing dn1)) = MigratedKeys (BasicStats (hashRing dn)) + int (card moved)"
proof -
  let ?data = "contents (localCache dn)"
  have "finite (dom ?data)" by (rule node_lru.abs_finite [OF assms(1)])
  then have ord: "is_order ?data (e_visit e ?data)" by (rule fair_orderD [OF assms(4)])
  obtain cnt dn1 w1 acks1 where st: "foldM (send_key (acked net) n addr ?data) (e_visit e ?data) (0, dn, w, acks) = Some (cnt, dn1, w1, acks1)"
    "moved_ok n addr dn (set (e_visit e ?data)) (cnt, dn1, w1, acks1)"
    using migration_loop [OF assms(1-3) ord, of net n addr w acks] by (metis prod_cases4)
  obtain moved where m: "dn1 = dn\<lparr> localCache := localCache dn1 \<rparr>" "cnt = int (card moved)" "moved \<subseteq> dom ?data"
    "contents (localCache dn1) = ?data |` (- moved)"
    "\<forall>k \<in> moved. GetNodeForKey k (hashRing dn) = Some n \<and> put_acked acks1 addr k (the (?data k))"
    using st(2) unfolding moved_ok_def by auto
  have run: "performNetworkDataMigration (acked net) e n addr (dn, w, acks) =
      Some (updateMigrationStats (e_now e) cnt (e_elapsed e) dn1, w1, acks1)"
    using st(1) by (simp add: performNetworkDataMigration_def GetAllData_node_cache [OF assms(1)])
  have "hashRing dn1 = hashRing dn" by (subst m(1)) simp
  then show ?thesis
    using m(2-5)
    by (intro exI [of _ "updateMigrationStats (e_now e) cnt (e_elapsed e) dn1"] exI [of _ w1] exI [of _ acks1]
        exI [of _ moved] conjI run) (simp_all add: updateMigrationStats_def Let_def)
qed

text \<open>A node of the demonstration cluster whose network acknowledges everything.\<close>

definition all_ok :: "unit net" where
  "all_ok addr req w = (Some \<lparr> r_status = StatusOK, r_json = None \<rparr>, w)"

theorem migration_is_acknowledged_witness:
  "\<exists>c dn1 w1 acks1 moved. node_cache 5 c \<and>
    performNetworkDataMigration (acked all_ok) demo_env ''n2'' ''h2'' (ns_node (demo_process ''n1'' ''h1'' c), (), {}) =
      Some (dn1, w1, acks1) \<and>
    contents (localCache dn1) = contents c |` (- moved)"
proof -
  obtain c where c: "node_cache 5 c" using node_cache_new [of 5] by auto
  have sel: "localCache (ns_node (demo_process ''n1'' ''h1'' c)) = c" "hashRing (ns_node (demo_process ''n1'' ''h1'' c)) = demo_ring"
    by (simp_all add: demo_process_def)
  have r: "ring_inv demo_ring" "nonempty_ring demo_ring" "fair_order (e_visit demo_env)"
    using demo_cluster_ok [OF c] by (simp_all add: cluster_ok_def demo_env_def fair_ascending)
  note main = migration_is_acknowledged [where dn = "ns_node (demo_process ''n1'' ''h1'' c)" and e = demo_env
      and net = all_ok and n = "''n2''" and addr = "''h2''" and w = "()" and acks = "{}", unfolded sel, OF c r]
  show ?thesis by (rule exI [of _ c]) (use main c in blast)
qed

section \<open>Joining\<close>

text \<open>The label of a virtual node of \<open>n\<close> is itself a key that belongs to \<open>n\<close>.\<close>

lemma ring_succ_self: "finite S \<Longrightarrow> h \<in> S \<Longrightarrow> ring_succ S h = h"
  unfolding ring_succ_def by (auto intro!: Min_eqI)

lemma getNode_virtual:
  assumes "ring_inv dc" "HashRing dc (virtual_hash n i) = Some m"
  shows "GetNodeForKey (n @ ''#'' @ Itoa i) dc = Some m"
proof -
  have h: "hashKey (n @ ''#'' @ Itoa i) = virtual_hash n i" by (simp add: virtual_hash_def)
  have "ring_succ (dom (HashRing dc)) (virtual_hash n i) = virtual_hash n i"
    using assms(2) core_ring.fin [OF assms(1)] by (intro ring_succ_self) auto
  moreover have "nonempty_ring dc" using assms(2) by auto
  ultimately show ?thesis
    using getNode_succ [OF assms(1), of "n @ ''#'' @ Itoa i"] assms(2) unfolding h GetNodeForKey_def by simp
qed

text \<open>The migration of a node changes its cache and its statistics only.\<close>

lemma migration_frame:
  assumes "node_cache cap (localCache dn)" "ring_inv (hashRing dn)" "nonempty_ring (hashRing dn)"
    and "fair_order (e_visit e)"
  shows "\<exists>dn1 w1. performNetworkDataMigration net e n addr (dn, w) = Some (dn1, w1) \<and>
    nodeID dn1 = nodeID dn \<and> clusterNodes dn1 = clusterNodes dn \<and>
    HashRing (hashRing dn1) = HashRing (hashRing dn) \<and>
    SortedHashes (hashRing dn1) = SortedHashes (hashRing dn) \<and>
    (\<exists>cap. node_cache cap (localCache dn1))"
proof -
  let ?data = "contents (localCache dn)"
  let ?I = "\<lambda>(cnt::int, d, w'). (\<exists>cap. node_cache cap (localCache d)) \<and> d = dn\<lparr> localCache := localCache d \<rparr>"
  have "finite (dom ?data)" by (rule node_lru.abs_finite [OF assms(1)])
  then have ord: "is_order ?data (e_visit e ?data)" by (rule fair_orderD [OF assms(4)])
  have "\<exists>st. foldM (send_key net n addr ?data) (e_visit e ?data) (0, dn, w) = Some st \<and> ?I st"
  proof (rule foldM_inv)
    show "?I (0, dn, w)" using assms(1) by auto
    fix k and t :: "int \<times> dist_node \<times> 'a"
    assume k: "k \<in> set (e_visit e ?data)" and I: "?I t"
    obtain cnt d w1 where t: "t = (cnt, d, w1)" by (cases t)
    have ring: "hashRing d = hashRing dn" using I unfolding t prod.case by (metis dist_node.select_convs(3) dist_node.surjective dist_node.update_convs(4))
    obtain v where v: "?data k = Some v" using k ord by (auto simp: is_order_def)
    obtain m where m: "GetNodeForKey k (hashRing d) = Some m"
      using getNode_total [OF assms(2,3)] ring by (metis GetNodeForKey_def)
    obtain cap1 where c1: "node_cache cap1 (localCache d)" using I by (auto simp: t)
    obtain c where c: "lru_Delete k (localCache d) = Some (k \<in> dom (contents (localCache d)), c)" "node_cache cap1 c"
      using node_cache_Delete [OF c1] by blast
    obtain ok w2 where mig: "migrateKeyToNode net k v addr w1 = (ok, w2)" by (cases "migrateKeyToNode net k v addr w1")
    have d: "d\<lparr> localCache := c \<rparr> = dn\<lparr> localCache := c \<rparr>"
      using I unfolding t prod.case by (metis dist_node.surjective dist_node.update_convs(4))
    show "\<exists>t'. send_key net n addr ?data k t = Some t' \<and> ?I t'"
      using v m mig c I d by (auto simp: t send_key_def split: bool.splits)
  qed
  then obtain cnt d w1 cap1 where st: "foldM (send_key net n addr ?data) (e_visit e ?data) (0, dn, w) = Some (cnt, d, w1)"
    "node_cache cap1 (localCache d)" "d = dn\<lparr> localCache := localCache d \<rparr>"
    by auto
  have "performNetworkDataMigration net e n addr (dn, w) = Some (updateMigrationStats (e_now e) cnt (e_elapsed e) d, w1)"
    using st(1) by (simp add: performNetworkDataMigration_def GetAllData_node_cache [OF assms(1)])
  moreover have "nodeID d = nodeID dn" "clusterNodes d = clusterNodes dn" "hashRing d = hashRing dn"
    by (subst st(3), simp)+
  ultimately show ?thesis using st(2) by (auto simp: updateMigrationStats_def Let_def)
qed

definition can_join :: "string \<Rightarrow> env \<Rightarrow> node_state \<Rightarrow> bool" where
  "can_join n e ns \<longleftrightarrow>
     (let R = hashRing (ns_node ns) in
      dc_inv R \<and> placed R \<and> nonempty_ring R \<and> 0 < VirtualNodes R \<and>
      n \<notin> dom (LocalCaches R) \<and> n \<noteq> [] \<and> n \<noteq> nodeID (ns_node ns) \<and>
      positions R n \<inter> dom (HashRing R) = {} \<and>
      (\<exists>cap. node_cache cap (localCache (ns_node ns))) \<and> fair_order (e_visit e) \<and>
      (\<forall>r. finite (dom (HashRing r)) \<longrightarrow> is_order (HashRing r) (e_ring e r)))"

lemma join_ring:
  assumes "can_join n e ns"
  obtains ring where
    "dc_AddNode (e_now e) (e_elapsed e) (e_visit e) (e_ring e) n (hashRing (ns_node ns)) = Some ring"
    "ring_inv ring" "nonempty_ring ring" "GetNodeForKey (n @ ''#0'') ring = Some n"
proof -
  let ?R = "hashRing (ns_node ns)"
  obtain t where t: "dc_AddNode (e_now e) (e_elapsed e) (e_visit e) (e_ring e) n ?R = Some t" "dc_inv t"
    "HashRing t = HashRing ?R ++ (\<lambda>h. if h \<in> positions ?R n then Some n else None)"
    using dc_AddNode_spec [of ?R n "e_visit e" "e_ring e" "e_now e" "e_elapsed e"] assms
    unfolding can_join_def Let_def by blast
  have r: "ring_inv t" using t(2) by (simp add: dc_inv_def)
  have "0 < VirtualNodes ?R" using assms by (simp add: can_join_def Let_def)
  then have "virtual_hash n 0 \<in> positions ?R n" by (simp add: positions_def)
  then have h: "HashRing t (virtual_hash n 0) = Some n" by (simp add: t(3))
  have "GetNodeForKey (n @ ''#'' @ Itoa 0) t = Some n" by (rule getNode_virtual [OF r h])
  moreover have "Itoa 0 = ''0''" by code_simp
  moreover have "nonempty_ring t" using h by auto
  ultimately show thesis using that t(1) r by simp
qed

lemma join_migration:
  assumes "can_join n e ns" "ring_inv ring" "nonempty_ring ring"
    and "nodeID dn = nodeID (ns_node ns)" "hashRing dn = ring" "localCache dn = localCache (ns_node ns)"
  obtains dn1 w1 where "performNetworkDataMigration net e n addr (dn, w) = Some (dn1, w1)"
    "nodeID dn1 = nodeID (ns_node ns)" "clusterNodes dn1 = clusterNodes dn"
    "\<forall>k. GetNodeForKey k (hashRing dn1) = GetNodeForKey k ring"
proof -
  obtain cap where "node_cache cap (localCache (ns_node ns))" "fair_order (e_visit e)"
    using assms(1) by (auto simp: can_join_def Let_def)
  with migration_frame [of cap dn e net n addr w] assms(2-6)
  obtain dn1 w1 where "performNetworkDataMigration net e n addr (dn, w) = Some (dn1, w1)"
    "nodeID dn1 = nodeID (ns_node ns)" "clusterNodes dn1 = clusterNodes dn"
    "HashRing (hashRing dn1) = HashRing ring" "SortedHashes (hashRing dn1) = SortedHashes ring"
    by auto
  moreover from this have "GetNodeForKey k (hashRing dn1) = GetNodeForKey k ring" for k
    by (simp add: GetNodeForKey_def getNodeForKeyUnsafe_def ring_node_def)
  ultimately show thesis by (intro that [of dn1 w1]) auto
qed

text \<open>The process that handles a join request puts the new node on its own ring but not into its address
  book, so from then on it answers every read, write and deletion of a key that belongs to the new node
  with an error, and there are such keys.\<close>

theorem join_leaves_address_unknown:
  assumes "can_join n e ns" "clusterNodes (ns_node ns) n = None"
  shows "\<exists>ns1 w1. AddNodeToCluster net e n addr (ns, w) = Some (Inr (), ns1, w1) \<and>
    (\<exists>k. GetNodeForKey k (hashRing (ns_node ns1)) = Some n) \<and>
    (\<forall>k v now w2. GetNodeForKey k (hashRing (ns_node ns1)) = Some n \<longrightarrow>
       dn_Set net k v (ns_node ns1, w2) = Some (Inl (TargetNodeMissing n), ns_node ns1, w2) \<and>
       dn_Get net now k (ns_node ns1, w2) = Some (Inl (TargetNodeMissing n), ns_node ns1, w2) \<and>
       dn_Delete net k (ns_node ns1, w2) = Some (Inl (TargetNodeMissing n), ns_node ns1, w2))"
proof -
  obtain ring where ring: "dc_AddNode (e_now e) (e_elapsed e) (e_visit e) (e_ring e) n (hashRing (ns_node ns)) = Some ring"
    "ring_inv ring" "nonempty_ring ring" "GetNodeForKey (n @ ''#0'') ring = Some n"
    by (rule join_ring [OF assms(1)])
  define ns2 where "ns2 = upd_ring ring (ns\<lparr> ns_cluster := cm_AddNode (e_now e) n addr (ns_cluster ns) \<rparr>)"
  have sel: "nodeID (ns_node ns2) = nodeID (ns_node ns)" "hashRing (ns_node ns2) = ring"
    "localCache (ns_node ns2) = localCache (ns_node ns)" "clusterNodes (ns_node ns2) = clusterNodes (ns_node ns)"
    by (simp_all add: ns2_def upd_ring_def)
  obtain dn1 w1 where m: "performNetworkDataMigration net e n addr (ns_node ns2, w) = Some (dn1, w1)"
    "nodeID dn1 = nodeID (ns_node ns)" "clusterNodes dn1 = clusterNodes (ns_node ns2)"
    "\<forall>k. GetNodeForKey k (hashRing dn1) = GetNodeForKey k ring"
    by (rule join_migration [OF assms(1) ring(2,3) sel(1-3), of net addr w]) blast
  obtain r w2 where b: "broadcastNodeChange net e n addr ''add'' (ns2\<lparr> ns_node := dn1 \<rparr>) w1 = (r, w2)"
    by (metis surj_pair)
  have run: "AddNodeToCluster net e n addr (ns, w) = Some (Inr (), ns2\<lparr> ns_node := dn1 \<rparr>, w2)"
    using ring(1) m(1) b by (simp add: AddNodeToCluster_def ns2_def)
  have ne: "n \<noteq> nodeID dn1" using assms(1) m(2) by (simp add: can_join_def Let_def)
  have book: "clusterNodes dn1 n = None" using m(3) assms(2) sel(4) by simp
  show ?thesis
    by (intro exI [of _ "ns2\<lparr> ns_node := dn1 \<rparr>"] exI [of _ w2] conjI run exI [of _ "n @ ''#0''"])
      (use ring(4) ne book in \<open>simp_all add: m(4) dn_Set_def dn_Get_def dn_Delete_def\<close>)
qed

text \<open>A process that hears of the new node through the synchronisation request does learn the address, and
  forwards the keys of the new node to it.\<close>

theorem sync_join_routes:
  assumes "can_join n e ns"
  shows "\<exists>ns1 w1. SyncAddNode net e n addr (ns, w) = Some (Inr (), ns1, w1) \<and>
    (\<exists>k. GetNodeForKey k (hashRing (ns_node ns1)) = Some n) \<and>
    (\<forall>k v now w2. GetNodeForKey k (hashRing (ns_node ns1)) = Some n \<longrightarrow>
       dn_Set net k v (ns_node ns1, w2) =
         (case forwardSetRequestSafe net addr k v w2 of (r, w3) \<Rightarrow> Some (r, ns_node ns1, w3)) \<and>
       dn_Get net now k (ns_node ns1, w2) =
         (case forwardGetRequestSafe net addr k w2 of (r, w3) \<Rightarrow> Some (r, ns_node ns1, w3)))"
proof -
  obtain ring where ring: "dc_AddNode (e_now e) (e_elapsed e) (e_visit e) (e_ring e) n (hashRing (ns_node ns)) = Some ring"
    "ring_inv ring" "nonempty_ring ring" "GetNodeForKey (n @ ''#0'') ring = Some n"
    by (rule join_ring [OF assms(1)])
  define ns1 where "ns1 = ns\<lparr> ns_cluster := cm_AddNode (e_now e) n addr (ns_cluster ns) \<rparr>"
  define ns2 where "ns2 = upd_ring ring (ns1\<lparr> ns_node := AddClusterNode n addr (ns_node ns1) \<rparr>)"
  have sel: "nodeID (ns_node ns2) = nodeID (ns_node ns)" "hashRing (ns_node ns2) = ring"
    "localCache (ns_node ns2) = localCache (ns_node ns)" "clusterNodes (ns_node ns2) n = Some addr"
    by (simp_all add: ns2_def ns1_def upd_ring_def AddClusterNode_def)
  obtain dn1 w1 where m: "performNetworkDataMigration net e n addr (ns_node ns2, w) = Some (dn1, w1)"
    "nodeID dn1 = nodeID (ns_node ns)" "clusterNodes dn1 = clusterNodes (ns_node ns2)"
    "\<forall>k. GetNodeForKey k (hashRing dn1) = GetNodeForKey k ring"
    by (rule join_migration [OF assms(1) ring(2,3) sel(1-3), of net addr w]) blast
  have run: "SyncAddNode net e n addr (ns, w) = Some (Inr (), ns2\<lparr> ns_node := dn1 \<rparr>, w1)"
    using ring(1) m(1) by (simp add: SyncAddNode_def ns2_def ns1_def AddClusterNode_def)
  have ne: "n \<noteq> nodeID dn1" using assms m(2) by (simp add: can_join_def Let_def)
  have book: "clusterNodes dn1 n = Some addr" using m(3) sel(4) by simp
  show ?thesis
    by (intro exI [of _ "ns2\<lparr> ns_node := dn1 \<rparr>"] exI [of _ w1] conjI run exI [of _ "n @ ''#0''"])
      (use ring(4) ne book in \<open>simp_all add: m(4) dn_Set_def dn_Get_def\<close>)
qed

text \<open>A process on a ring with one position, which \<open>n2\<close> joins.\<close>

definition lone_process :: "lru_cache \<Rightarrow> node_state" where
  "lone_process c = \<lparr> ns_node = \<lparr> nodeID = ''n1'', nodeAddress = ''h1'', hashRing = ring_beside c,
       localCache = c, clusterNodes = [''n1'' \<mapsto> ''h1''] \<rparr>,
     ns_cluster = NewClusterManager 0 ''n1'' [''n1'' \<mapsto> ''h1''] \<rparr>"

lemma lone_process_joins:
  assumes c: "node_cache 1000 c" "contents c = Map.empty"
  shows "can_join ''n2'' demo_env (lone_process c)" "clusterNodes (ns_node (lone_process c)) ''n2'' = None"
proof -
  have sel: "hashRing (ns_node (lone_process c)) = ring_beside c" "nodeID (ns_node (lone_process c)) = ''n1''"
    "localCache (ns_node (lone_process c)) = c" by (simp_all add: lone_process_def)
  have "\<forall>r. finite (dom (HashRing r)) \<longrightarrow> is_order (HashRing r) (hash_order r)" using hash_order by blast
  moreover have "VirtualNodes (ring_beside c) = 1" "dom (LocalCaches (ring_beside c)) = {''n1''}"
    "positions (ring_beside c) ''n2'' \<inter> dom (HashRing (ring_beside c)) = {}"
    by (simp_all add: one_node_def positions_def)
  ultimately show "can_join ''n2'' demo_env (lone_process c)"
    unfolding can_join_def Let_def sel using one_node_inv [OF c(1)] c(1) fair_ascending
    by (auto simp: demo_env_def)
  show "clusterNodes (ns_node (lone_process c)) ''n2'' = None" by (simp add: lone_process_def)
qed

lemma empty_node_cache: obtains c where "node_cache 1000 c" "contents c = Map.empty"
  using node_cache_new [of 1000] by auto

theorem join_leaves_address_unknown_witness:
  "\<exists>c ns1 w1 k. AddNodeToCluster all_ok demo_env ''n2'' ''h2'' (lone_process c, ()) = Some (Inr (), ns1, w1) \<and>
    dn_Set all_ok k ''v'' (ns_node ns1, ()) = Some (Inl (TargetNodeMissing ''n2''), ns_node ns1, ())"
proof -
  obtain c where c: "node_cache 1000 c" "contents c = Map.empty" by (rule empty_node_cache)
  show ?thesis
    using join_leaves_address_unknown [OF lone_process_joins [OF c], of all_ok "''h2''" "()"] by blast
qed

theorem sync_join_routes_witness:
  "\<exists>c ns1 w1 k. SyncAddNode all_ok demo_env ''n2'' ''h2'' (lone_process c, ()) = Some (Inr (), ns1, w1) \<and>
    dn_Set all_ok k ''v'' (ns_node ns1, ()) =
      (case forwardSetRequestSafe all_ok ''h2'' k ''v'' () of (r, w3) \<Rightarrow> Some (r, ns_node ns1, w3))"
proof -
  obtain c where c: "node_cache 1000 c" "contents c = Map.empty" by (rule empty_node_cache)
  show ?thesis
    using sync_join_routes [OF lone_process_joins(1) [OF c], of all_ok "''h2''" "()"] by blast
qed

end
