(* ===== verification/Health.thy ===== *)
theory Health
  imports Membership
begin

text \<open>
  What the health check leaves in the membership table and what the verdict and the status report
  derive from it.
\<close>

text \<open>The entry of a member after a check during which the probe of an address \<open>a\<close> answers \<open>up a\<close>.\<close>

definition checked :: "string \<Rightarrow> (string \<Rightarrow> bool) \<Rightarrow> (string \<Rightarrow> go_time) \<Rightarrow> (string \<Rightarrow> int) \<Rightarrow> string \<Rightarrow> node_info \<Rightarrow> node_info" where
  "checked self up clk elapsed n i =
     (if n = self then i\<lparr> ni_Status := ''healthy'', ni_LastSeen := clk n \<rparr>
      else if up (ni_Address i) then
        i\<lparr> ni_Status := ''healthy'', ni_LastSeen := clk n, ni_ResponseTime := elapsed n \<rparr>
      else i\<lparr> ni_Status := ''unhealthy'', ni_ResponseTime := -1 \<rparr>)"

definition probes :: "'w net \<Rightarrow> (string \<Rightarrow> bool) \<Rightarrow> bool" where
  "probes net up \<longleftrightarrow> (\<forall>a w. fst (cm_checkNodeHealth net a w) = up a)"

lemma check_member_probe:
  assumes "probes net up"
  shows "\<exists>w1. check_member net clk elapsed n (cm, w) =
    (cm\<lparr> cm_nodes := (cm_nodes cm)(n := map_option (checked (cm_nodeID cm) up clk elapsed n) (cm_nodes cm n)) \<rparr>, w1)"
proof (cases "cm_nodes cm n")
  case None
  then have "(cm_nodes cm)(n := None) = cm_nodes cm" by auto
  with None show ?thesis by (simp add: check_member_def)
next
  case (Some i)
  have "fst (cm_checkNodeHealth net (ni_Address i) w) = up (ni_Address i)"
    using assms by (simp add: probes_def)
  then show ?thesis using Some
    by (cases "cm_checkNodeHealth net (ni_Address i) w") (auto simp: check_member_def checked_def)
qed

lemma check_members:
  assumes "probes net up" "distinct ns"
  shows "\<exists>w1. fold (check_member net clk elapsed) ns (cm, w) =
    (cm\<lparr> cm_nodes := (\<lambda>n. if n \<in> set ns then map_option (checked (cm_nodeID cm) up clk elapsed n) (cm_nodes cm n)
                        else cm_nodes cm n) \<rparr>, w1)"
  using assms(2)
proof (induction ns arbitrary: cm w)
  case (Cons n ns)
  obtain w1 where s: "check_member net clk elapsed n (cm, w) =
    (cm\<lparr> cm_nodes := (cm_nodes cm)(n := map_option (checked (cm_nodeID cm) up clk elapsed n) (cm_nodes cm n)) \<rparr>, w1)"
    using check_member_probe [OF assms(1)] by blast
  have "n \<notin> set ns" "distinct ns" using Cons.prems by simp_all
  then show ?case
    using Cons.IH [of "cm\<lparr> cm_nodes := (cm_nodes cm)(n := map_option (checked (cm_nodeID cm) up clk elapsed n) (cm_nodes cm n)) \<rparr>" w1]
    by (auto simp: s fun_eq_iff intro!: cluster_manager.unfold_congs)
qed simp

lemma performHealthCheck_table:
  assumes "probes net up" "is_order (cm_nodes cm) ord"
  shows "\<exists>w1. cm_performHealthCheck net clk elapsed ord (cm, w) =
    (cm\<lparr> cm_nodes := (\<lambda>n. map_option (checked (cm_nodeID cm) up clk elapsed n) (cm_nodes cm n)) \<rparr>, w1)"
proof -
  have d: "distinct ord" "set ord = dom (cm_nodes cm)" using assms(2) by (auto simp: is_order_def)
  have e: "(if n \<in> set ord then map_option f (cm_nodes cm n) else cm_nodes cm n) = map_option f (cm_nodes cm n)" for n f
    using d(2) by (cases "cm_nodes cm n") auto
  show ?thesis using check_members [OF assms(1) d(1), of clk elapsed cm w] by (simp only: cm_performHealthCheck_def e)
qed

text \<open>The members a check finds alive.\<close>

definition alive :: "cluster_manager \<Rightarrow> (string \<Rightarrow> bool) \<Rightarrow> string set" where
  "alive cm up = {n. \<exists>i. cm_nodes cm n = Some i \<and> (n = cm_nodeID cm \<or> up (ni_Address i))}"

text \<open>A health check leaves every member in the table, marks exactly the node itself and the members whose
  probe was answered with 200 as healthy, keeps the time a dead member was last seen, and the
  verdict that follows is healthy if and only if twice the number of living members plus one reaches the
  size of the table, whatever the visiting orders (so one living member of three is enough).\<close>

theorem health_check_verdict:
  assumes "probes net up" "is_order (cm_nodes cm) ord" "is_order (cm_nodes cm) ord'"
  shows "\<exists>cm1 w1. cm_performHealthCheck net clk elapsed ord (cm, w) = (cm1, w1) \<and>
    dom (cm_nodes cm1) = dom (cm_nodes cm) \<and>
    dom (cm_GetHealthyNodes cm1) = alive cm up \<and>
    (\<forall>n i. cm_nodes cm n = Some i \<longrightarrow> n \<notin> alive cm up \<longrightarrow>
       map_option ni_LastSeen (cm_nodes cm1 n) = Some (ni_LastSeen i)) \<and>
    cm_IsHealthy ord' cm1 = (card (dom (cm_nodes cm)) \<le> 2 * card (alive cm up) + 1)"
proof -
  let ?nodes = "\<lambda>n. map_option (checked (cm_nodeID cm) up clk elapsed n) (cm_nodes cm n)"
  let ?cm1 = "cm\<lparr> cm_nodes := ?nodes \<rparr>"
  obtain w1 where run: "cm_performHealthCheck net clk elapsed ord (cm, w) = (?cm1, w1)"
    using performHealthCheck_table [OF assms(1,2)] by blast
  have status: "ni_Status (checked (cm_nodeID cm) up clk elapsed n i) = ''healthy'' \<longleftrightarrow>
      n = cm_nodeID cm \<or> up (ni_Address i)" for n i
    by (simp add: checked_def)
  have alive: "alive cm up = {n. \<exists>i. ?nodes n = Some i \<and> ni_Status i = ''healthy''}"
    by (auto simp: alive_def status)
  have healthy: "dom (cm_GetHealthyNodes ?cm1) = alive cm up"
    unfolding alive by (auto simp: cm_GetHealthyNodes_def split: option.splits if_splits)
  have dom: "dom ?nodes = dom (cm_nodes cm)" by auto
  then have "is_order ?nodes ord'" using assms(3) by (simp add: is_order_def)
  note count = map_filter_dom(2) [OF this, of "\<lambda>i. ni_Status i = ''healthy''"]
  have sel: "cm_nodes ?cm1 = ?nodes" by simp
  have "cm_IsHealthy ord' ?cm1 \<longleftrightarrow> int (card (dom (cm_nodes cm))) div 2 \<le> int (card (alive cm up))"
    by (simp only: cm_IsHealthy_def Let_def sel count alive [symmetric] map_len_def dom)
  also have "\<dots> \<longleftrightarrow> card (dom (cm_nodes cm)) \<le> 2 * card (alive cm up) + 1" by linarith
  finally have verdict: "cm_IsHealthy ord' ?cm1 = (card (dom (cm_nodes cm)) \<le> 2 * card (alive cm up) + 1)" .
  show ?thesis
    by (intro exI [of _ ?cm1] exI [of _ w1] conjI run healthy verdict)
      (auto simp: dom checked_def alive_def)
qed

definition none_up :: "unit net" where
  "none_up addr req w = (None, w)"

theorem health_check_verdict_witness:
  "\<exists>cm1 w1. cm_performHealthCheck none_up (\<lambda>_. 7) (\<lambda>_. 1) [''a'', ''b'', ''c'']
      (NewClusterManager 0 ''a'' [''a'' \<mapsto> ''h1'', ''b'' \<mapsto> ''h2'', ''c'' \<mapsto> ''h3''], ()) = (cm1, w1) \<and>
    cm_IsHealthy [''c'', ''b'', ''a''] cm1"
proof -
  let ?cm = "NewClusterManager 0 ''a'' [''a'' \<mapsto> ''h1'', ''b'' \<mapsto> ''h2'', ''c'' \<mapsto> ''h3'']"
  have d: "dom (cm_nodes ?cm) = {''a'', ''b'', ''c''}" by (auto simp: NewClusterManager_def dom_def)
  have p: "probes none_up (\<lambda>_. False)"
    by (auto simp: probes_def cm_checkNodeHealth_def http_do_def none_up_def split: option.splits)
  have ord: "is_order (cm_nodes ?cm) [''a'', ''b'', ''c'']" "is_order (cm_nodes ?cm) [''c'', ''b'', ''a'']"
    by (auto simp: is_order_def d)
  have "alive ?cm (\<lambda>_. False) = {''a''}" by (auto simp: alive_def NewClusterManager_def)
  then show ?thesis
    using health_check_verdict [OF p ord, of "\<lambda>_. 7" "\<lambda>_. 1" "()"] d by auto
qed

text \<open>The status report counts every member exactly once: the healthy and the unhealthy members add up to the
  total, and the healthy ones are those of \<open>GetHealthyNodes\<close>.\<close>

theorem cluster_status_counts:
  assumes "is_order (cm_nodes cm) ord"
  shows "HealthyNodes (cm_GetClusterStatus now ord cm) = map_len (cm_GetHealthyNodes cm) \<and>
    HealthyNodes (cm_GetClusterStatus now ord cm) + UnhealthyNodes (cm_GetClusterStatus now ord cm) =
      TotalNodes (cm_GetClusterStatus now ord cm) \<and>
    int (length (StatusNodes (cm_GetClusterStatus now ord cm))) = TotalNodes (cm_GetClusterStatus now ord cm)"
proof -
  let ?ns = "List.map_filter (cm_nodes cm) ord"
  have "dom (cm_GetHealthyNodes cm) = {n. \<exists>i. cm_nodes cm n = Some i \<and> ni_Status i = ''healthy''}"
    by (auto simp: cm_GetHealthyNodes_def split: option.splits if_splits)
  then have h: "int (length (filter (\<lambda>i. ni_Status i = ''healthy'') ?ns)) = map_len (cm_GetHealthyNodes cm)"
    using map_filter_dom(2) [OF assms] by (simp add: map_len_def)
  have t: "int (length ?ns) = map_len (cm_nodes cm)"
    using map_filter_dom(1) [OF assms] by (simp add: map_len_def)
  have "length (filter (\<lambda>i. ni_Status i = ''healthy'') ?ns) + length (filter (\<lambda>i. ni_Status i \<noteq> ''healthy'') ?ns) = length ?ns"
    by (rule sum_length_filter_compl)
  then show ?thesis using h t by (simp add: cm_GetClusterStatus_def count_status_fold)
qed

theorem cluster_status_counts_witness:
  "\<exists>cm. map_len (cm_nodes cm) = 1 \<and> HealthyNodes (cm_GetClusterStatus 0 [''a''] cm) + UnhealthyNodes (cm_GetClusterStatus 0 [''a''] cm) = 1"
proof -
  let ?cm = "NewClusterManager 0 ''a'' [''a'' \<mapsto> ''h1'']"
  have "dom (cm_nodes ?cm) = {''a''}" by (auto simp: NewClusterManager_def split: if_splits)
  then have ord: "is_order (cm_nodes ?cm) [''a'']" "map_len (cm_nodes ?cm) = 1" by (simp_all add: is_order_def map_len_def)
  moreover have "TotalNodes (cm_GetClusterStatus 0 [''a''] ?cm) = map_len (cm_nodes ?cm)"
    by (simp add: cm_GetClusterStatus_def count_status_fold)
  ultimately show ?thesis using cluster_status_counts [OF ord(1), of 0] by (intro exI [of _ ?cm]) simp
qed

end
