(* ===== verification/Client.thy ===== *)
theory Client
  imports Cluster_Props
begin

text \<open>
  \<open>distributed/client.go\<close>: the client library. A \<open>DistributedClient\<close> sends each operation to a node it
  chooses round-robin among the nodes its \<open>NodeManager\<close> believes healthy and retries on failure; the
  node manager counts failures and probes the nodes. The record names of the source get a prefix where
  they would clash. An error value is reduced to what produced it. \<open>clk\<close> is the clock, read once per
  attempt. The goroutines of the health check are separate steps of the node manager (\<open>checkSingleNode\<close>),
  each of which updates the status under the lock.
\<close>

section \<open>State\<close>

record node_status =
  st_Address :: string
  IsHealthy :: bool
  FailureCount :: int
  LastCheckTime :: go_time
  LastFailureTime :: "go_time option"
  LastSuccessTime :: go_time

record client_config =
  conf_Nodes :: "string list"
  conf_Timeout :: duration
  conf_RetryCount :: int
  conf_HealthCheckEnabled :: bool
  conf_HealthCheckInterval :: duration
  conf_FailureThreshold :: int
  conf_RecoveryCheckInterval :: duration

record node_manager =
  seedNodes :: "string list"
  activeNodes :: "string list"
  nodeStatus :: "string \<rightharpoonup> node_status"
  nm_stopped :: bool
  nm_config :: client_config

text \<open>\<open>currentNode\<close> starts at 0 and is only ever assigned remainders, so it is a natural number.\<close>

record dist_client =
  cl_nodes :: "string list"
  currentNode :: nat
  retryCount :: int
  cl_timeout :: duration
  nodeManager :: "node_manager option"
  cl_config :: client_config

datatype client_error =
    RequestFailed
  | ResponseStatus int
  | ResponseUndecodable
  | AllNodesFailed "client_error option"
  | BatchFailed string client_error

type_synonym 'a client_result = "client_error + 'a"

section \<open>The node manager\<close>

definition new_status :: "go_time \<Rightarrow> string \<Rightarrow> node_status" where
  "new_status now node = \<lparr> st_Address = node, IsHealthy = True, FailureCount = 0, LastCheckTime = now,
     LastFailureTime = None, LastSuccessTime = now \<rparr>"

definition NewNodeManager :: "go_time \<Rightarrow> client_config \<Rightarrow> node_manager" where
  "NewNodeManager now config =
     \<lparr> seedNodes = conf_Nodes config, activeNodes = conf_Nodes config,
       nodeStatus = fold (\<lambda>node m. m(node \<mapsto> new_status now node)) (conf_Nodes config) Map.empty,
       nm_stopped = False, nm_config = config \<rparr>"

definition GetHealthyNodes :: "node_manager \<Rightarrow> string list" where
  "GetHealthyNodes nm =
     (let healthyNodes = filter (\<lambda>node. case nodeStatus nm node of None \<Rightarrow> False | Some st \<Rightarrow> IsHealthy st)
            (activeNodes nm)
      in if healthyNodes = [] then seedNodes nm else healthyNodes)"

definition ensureNodeInActiveList :: "string \<Rightarrow> node_manager \<Rightarrow> node_manager" where
  "ensureNodeInActiveList node nm =
     (if node \<in> set (activeNodes nm) then nm else nm\<lparr> activeNodes := activeNodes nm @ [node] \<rparr>)"

definition set_status :: "string \<Rightarrow> node_status \<Rightarrow> node_manager \<Rightarrow> node_manager" where
  "set_status node st nm = nm\<lparr> nodeStatus := (nodeStatus nm)(node \<mapsto> st) \<rparr>"

definition MarkSuccess :: "go_time \<Rightarrow> string \<Rightarrow> node_manager \<Rightarrow> node_manager" where
  "MarkSuccess now node nm =
     (case nodeStatus nm node of
        None \<Rightarrow> nm
      | Some st \<Rightarrow> ensureNodeInActiveList node
          (set_status node (st\<lparr> IsHealthy := True, FailureCount := 0, LastSuccessTime := now \<rparr>) nm))"

text \<open>The common tail of \<open>MarkFailure\<close> and of a failed check.\<close>

definition count_failure :: "go_time \<Rightarrow> int \<Rightarrow> node_status \<Rightarrow> node_status" where
  "count_failure now threshold st =
     (let st1 = st\<lparr> FailureCount := FailureCount st + 1, LastFailureTime := Some now \<rparr>
      in if FailureCount st1 \<ge> threshold then st1\<lparr> IsHealthy := False \<rparr> else st1)"

definition MarkFailure :: "go_time \<Rightarrow> string \<Rightarrow> node_manager \<Rightarrow> node_manager" where
  "MarkFailure now node nm =
     (case nodeStatus nm node of
        None \<Rightarrow> nm
      | Some st \<Rightarrow> set_status node (count_failure now (conf_FailureThreshold (nm_config nm)) st) nm)"

text \<open>\<open>HealthChecker.CheckNode\<close> sends the probe; the rest of \<open>checkSingleNode\<close> holds the lock.\<close>

definition CheckNode :: "'w net \<Rightarrow> string \<Rightarrow> 'w \<Rightarrow> bool \<times> 'w" where
  "CheckNode net node w =
     (case http_do net GET node ''/api/v1/health'' None w of
        (None, w1) \<Rightarrow> (False, w1)
      | (Some resp, w1) \<Rightarrow> (r_status resp = StatusOK, w1))"

definition record_check :: "go_time \<Rightarrow> string \<Rightarrow> bool \<Rightarrow> node_manager \<Rightarrow> node_manager" where
  "record_check now node healthy nm =
     (case nodeStatus nm node of
        None \<Rightarrow> nm
      | Some st \<Rightarrow>
          let st1 = st\<lparr> LastCheckTime := now \<rparr> in
          if healthy then
            (if \<not> IsHealthy st1 then
               ensureNodeInActiveList node
                 (set_status node (st1\<lparr> IsHealthy := True, FailureCount := 0, LastSuccessTime := now \<rparr>) nm)
             else set_status node st1 nm)
          else set_status node (count_failure now (conf_FailureThreshold (nm_config nm)) st1) nm)"

definition checkSingleNode :: "'w net \<Rightarrow> go_time \<Rightarrow> string \<Rightarrow> node_manager \<times> 'w \<Rightarrow> node_manager \<times> 'w" where
  "checkSingleNode net now node st = (case st of (nm, w) \<Rightarrow>
     (case CheckNode net node w of (healthy, w1) \<Rightarrow> (record_check now node healthy nm, w1)))"

text \<open>One goroutine per seed node; \<open>order\<close> is the order in which they take the lock.\<close>

definition nm_performHealthCheck ::
  "'w net \<Rightarrow> go_time \<Rightarrow> string list \<Rightarrow> node_manager \<times> 'w \<Rightarrow> node_manager \<times> 'w" where
  "nm_performHealthCheck net now order st = fold (checkSingleNode net now) order st"

datatype nm_tick = Tick go_time "string list" | StopSignal

fun startHealthCheckRoutine :: "'w net \<Rightarrow> nm_tick list \<Rightarrow> node_manager \<times> 'w \<Rightarrow> node_manager \<times> 'w" where
  "startHealthCheckRoutine net [] st = st"
| "startHealthCheckRoutine net (StopSignal # _) st = st"
| "startHealthCheckRoutine net (Tick now order # ts) st =
     startHealthCheckRoutine net ts (nm_performHealthCheck net now order st)"

definition nm_Stop :: "node_manager \<Rightarrow> node_manager option" where
  "nm_Stop nm = (if nm_stopped nm then panic else Some (nm\<lparr> nm_stopped := True \<rparr>))"

section \<open>The client\<close>

definition default_int :: "int \<Rightarrow> int \<Rightarrow> int" where
  "default_int d x = (if x = 0 then d else x)"

abbreviation (input) Second :: duration where "Second \<equiv> 1000000000"

definition NewDistributedClient :: "go_time \<Rightarrow> client_config \<Rightarrow> dist_client" where
  "NewDistributedClient now config =
     (let config = config\<lparr>
            conf_Timeout := default_int (5 * Second) (conf_Timeout config),
            conf_RetryCount := default_int 3 (conf_RetryCount config),
            conf_HealthCheckInterval := default_int (30 * Second) (conf_HealthCheckInterval config),
            conf_FailureThreshold := default_int 3 (conf_FailureThreshold config),
            conf_RecoveryCheckInterval := default_int (60 * Second) (conf_RecoveryCheckInterval config),
            conf_HealthCheckEnabled := True \<rparr>
      in \<lparr> cl_nodes = conf_Nodes config, currentNode = 0, retryCount = conf_RetryCount config,
           cl_timeout = conf_Timeout config, nodeManager = Some (NewNodeManager now config),
           cl_config = config \<rparr>)"

definition client_Close :: "dist_client \<Rightarrow> dist_client option" where
  "client_Close dc =
     (case nodeManager dc of
        None \<Rightarrow> Some dc
      | Some nm \<Rightarrow> do { nm' \<leftarrow> nm_Stop nm; Some (dc\<lparr> nodeManager := Some nm' \<rparr>) })"

definition GetNodeStatus :: "dist_client \<Rightarrow> (string \<rightharpoonup> node_status)" where
  "GetNodeStatus dc = (case nodeManager dc of None \<Rightarrow> Map.empty | Some nm \<Rightarrow> nodeStatus nm)"

definition GetTimeout :: "dist_client \<Rightarrow> duration" where
  "GetTimeout dc = cl_timeout dc"

text \<open>An index out of range and a remainder by zero panic.\<close>

definition getNextNode :: "dist_client \<Rightarrow> (string \<times> dist_client) option" where
  "getNextNode dc =
     (if currentNode dc < length (cl_nodes dc) then
        Some (cl_nodes dc ! currentNode dc,
              dc\<lparr> currentNode := (currentNode dc + 1) mod length (cl_nodes dc) \<rparr>)
      else panic)"

definition getNextHealthyNode :: "dist_client \<Rightarrow> (string \<times> dist_client) option" where
  "getNextHealthyNode dc =
     (case nodeManager dc of
        None \<Rightarrow> getNextNode dc
      | Some nm \<Rightarrow>
          let healthyNodes = GetHealthyNodes nm in
          if healthyNodes = [] then getNextNode dc
          else Some (healthyNodes ! (currentNode dc mod length healthyNodes),
                     dc\<lparr> currentNode := (currentNode dc + 1) mod length healthyNodes \<rparr>))"

definition isNetworkError :: "client_error option \<Rightarrow> bool" where
  "isNetworkError err \<longleftrightarrow> err \<noteq> None"

definition mark :: "(string \<Rightarrow> node_manager \<Rightarrow> node_manager) \<Rightarrow> string \<Rightarrow> dist_client \<Rightarrow> dist_client" where
  "mark f node dc = dc\<lparr> nodeManager := map_option (f node) (nodeManager dc) \<rparr>"

text \<open>\<open>left\<close> attempts are left, \<open>attempt\<close> is the number of the next one.\<close>

fun retry_loop ::
  "(nat \<Rightarrow> go_time) \<Rightarrow> (string \<Rightarrow> 'w \<Rightarrow> 'a client_result \<times> 'w) \<Rightarrow> nat \<Rightarrow> nat \<Rightarrow> client_error option \<Rightarrow>
   dist_client \<times> 'w \<Rightarrow> ('a client_result \<times> dist_client \<times> 'w) option" where
  "retry_loop clk operation 0 attempt lastErr (dc, w) = Some (Inl (AllNodesFailed lastErr), dc, w)"
| "retry_loop clk operation (Suc left) attempt lastErr (dc, w) = do {
     (node, dc1) \<leftarrow> getNextHealthyNode dc;
     case operation node w of
       (Inr x, w1) \<Rightarrow> Some (Inr x, mark (MarkSuccess (clk attempt)) node dc1, w1)
     | (Inl err, w1) \<Rightarrow>
         let dc2 = mark (MarkFailure (clk attempt)) node dc1 in
         if isNetworkError (Some err) then retry_loop clk operation left (attempt + 1) (Some err) (dc2, w1)
         else Some (Inl err, dc2, w1)
   }"

definition executeWithRetry ::
  "(nat \<Rightarrow> go_time) \<Rightarrow> (string \<Rightarrow> 'w \<Rightarrow> 'a client_result \<times> 'w) \<Rightarrow> dist_client \<times> 'w \<Rightarrow>
   ('a client_result \<times> dist_client \<times> 'w) option" where
  "executeWithRetry clk operation st = retry_loop clk operation (nat (retryCount (fst st))) 0 None st"

section \<open>Requests to one node\<close>

definition expect_ok :: "http_response option \<times> 'w \<Rightarrow> (http_response \<Rightarrow> 'a client_result) \<Rightarrow> 'a client_result \<times> 'w" where
  "expect_ok rw k = (case rw of
       (None, w) \<Rightarrow> (Inl RequestFailed, w)
     | (Some resp, w) \<Rightarrow> (if r_status resp \<noteq> StatusOK then Inl (ResponseStatus (r_status resp)) else k resp, w))"

definition setToNode :: "'w net \<Rightarrow> string \<Rightarrow> string \<Rightarrow> string \<Rightarrow> 'w \<Rightarrow> unit client_result \<times> 'w" where
  "setToNode net key value node w =
     expect_ok (http_do net PUT node (api_url key) (Some (value_body value)) w) (\<lambda>_. Inr ())"

definition getFromNode :: "'w net \<Rightarrow> string \<Rightarrow> string \<Rightarrow> 'w \<Rightarrow> (string \<times> bool) client_result \<times> 'w" where
  "getFromNode net key node w =
     expect_ok (http_do net GET node (api_url key) None w) (\<lambda>resp.
       case Option.bind (r_json resp) object_fields of
         None \<Rightarrow> Inl ResponseUndecodable
       | Some kvs \<Rightarrow>
           (case (string_field ''key'' kvs [], string_field ''value'' kvs [], bool_field ''found'' kvs False,
                  string_field ''node_id'' kvs [], string_field ''message'' kvs []) of
              (Some _, Some v, Some f, Some _, Some _) \<Rightarrow> Inr (v, f)
            | _ \<Rightarrow> Inl ResponseUndecodable))"

definition deleteFromNode :: "'w net \<Rightarrow> string \<Rightarrow> string \<Rightarrow> 'w \<Rightarrow> unit client_result \<times> 'w" where
  "deleteFromNode net key node w =
     expect_ok (http_do net DELETE node (api_url key) None w) (\<lambda>_. Inr ())"

definition decode_object :: "http_response \<Rightarrow> (string \<times> json) list client_result" where
  "decode_object resp =
     (case Option.bind (r_json resp) object_fields of None \<Rightarrow> Inl ResponseUndecodable | Some kvs \<Rightarrow> Inr kvs)"

definition getStatsFromNode :: "'w net \<Rightarrow> string \<Rightarrow> 'w \<Rightarrow> (string \<times> json) list client_result \<times> 'w" where
  "getStatsFromNode net node w = expect_ok (http_do net GET node ''/api/v1/stats'' None w) decode_object"

definition getClusterInfoFromNode :: "'w net \<Rightarrow> string \<Rightarrow> 'w \<Rightarrow> (string \<times> json) list client_result \<times> 'w" where
  "getClusterInfoFromNode net node w = expect_ok (http_do net GET node ''/admin/cluster'' None w) decode_object"

definition checkNodeHealth :: "'w net \<Rightarrow> string \<Rightarrow> 'w \<Rightarrow> bool \<times> 'w" where
  "checkNodeHealth net node w =
     (case http_do net GET node ''/api/v1/health'' None w of
        (None, w1) \<Rightarrow> (False, w1)
      | (Some resp, w1) \<Rightarrow> (r_status resp = StatusOK, w1))"

section \<open>Operations\<close>

definition client_Set ::
  "'w net \<Rightarrow> (nat \<Rightarrow> go_time) \<Rightarrow> string \<Rightarrow> string \<Rightarrow> dist_client \<times> 'w \<Rightarrow> (unit client_result \<times> dist_client \<times> 'w) option" where
  "client_Set net clk key value st = executeWithRetry clk (setToNode net key value) st"

definition client_Get ::
  "'w net \<Rightarrow> (nat \<Rightarrow> go_time) \<Rightarrow> string \<Rightarrow> dist_client \<times> 'w \<Rightarrow>
   ((string \<times> bool) client_result \<times> dist_client \<times> 'w) option" where
  "client_Get net clk key st = executeWithRetry clk (getFromNode net key) st"

definition client_Delete ::
  "'w net \<Rightarrow> (nat \<Rightarrow> go_time) \<Rightarrow> string \<Rightarrow> dist_client \<times> 'w \<Rightarrow> (unit client_result \<times> dist_client \<times> 'w) option" where
  "client_Delete net clk key st = executeWithRetry clk (deleteFromNode net key) st"

definition client_GetStats ::
  "'w net \<Rightarrow> (nat \<Rightarrow> go_time) \<Rightarrow> dist_client \<times> 'w \<Rightarrow>
   ((string \<times> json) list client_result \<times> dist_client \<times> 'w) option" where
  "client_GetStats net clk st = executeWithRetry clk (getStatsFromNode net) st"

definition GetClusterInfo ::
  "'w net \<Rightarrow> (nat \<Rightarrow> go_time) \<Rightarrow> dist_client \<times> 'w \<Rightarrow>
   ((string \<times> json) list client_result \<times> dist_client \<times> 'w) option" where
  "GetClusterInfo net clk st = executeWithRetry clk (getClusterInfoFromNode net) st"

definition CheckHealth :: "'w net \<Rightarrow> dist_client \<Rightarrow> 'w \<Rightarrow> (string \<rightharpoonup> bool) \<times> 'w" where
  "CheckHealth net dc w =
     fold (\<lambda>node (m, w). case checkNodeHealth net node w of (healthy, w1) \<Rightarrow> (m(node \<mapsto> healthy), w1))
       (cl_nodes dc) (Map.empty, w)"

text \<open>\<open>kvs\<close> lists the entries of the map in the order they are visited.\<close>

fun BatchSet ::
  "'w net \<Rightarrow> (nat \<Rightarrow> go_time) \<Rightarrow> (string \<times> string) list \<Rightarrow> dist_client \<times> 'w \<Rightarrow>
   (unit client_result \<times> dist_client \<times> 'w) option" where
  "BatchSet net clk [] (dc, w) = Some (Inr (), dc, w)"
| "BatchSet net clk ((key, value) # kvs) (dc, w) = do {
     (r, dc1, w1) \<leftarrow> client_Set net clk key value (dc, w);
     case r of Inl err \<Rightarrow> Some (Inl (BatchFailed key err), dc1, w1)
     | Inr _ \<Rightarrow> BatchSet net clk kvs (dc1, w1)
   }"

fun batch_get ::
  "'w net \<Rightarrow> (nat \<Rightarrow> go_time) \<Rightarrow> string list \<Rightarrow> (string \<rightharpoonup> string) \<Rightarrow> dist_client \<times> 'w \<Rightarrow>
   ((string \<rightharpoonup> string) client_result \<times> dist_client \<times> 'w) option" where
  "batch_get net clk [] result (dc, w) = Some (Inr result, dc, w)"
| "batch_get net clk (key # keys) result (dc, w) = do {
     (r, dc1, w1) \<leftarrow> client_Get net clk key (dc, w);
     case r of
       Inl err \<Rightarrow> Some (Inl (BatchFailed key err), dc1, w1)
     | Inr (value, found) \<Rightarrow>
         batch_get net clk keys (if found then result(key \<mapsto> value) else result) (dc1, w1)
   }"

definition BatchGet ::
  "'w net \<Rightarrow> (nat \<Rightarrow> go_time) \<Rightarrow> string list \<Rightarrow> dist_client \<times> 'w \<Rightarrow>
   ((string \<rightharpoonup> string) client_result \<times> dist_client \<times> 'w) option" where
  "BatchGet net clk keys st = batch_get net clk keys Map.empty st"

fun BatchDelete ::
  "'w net \<Rightarrow> (nat \<Rightarrow> go_time) \<Rightarrow> string list \<Rightarrow> dist_client \<times> 'w \<Rightarrow>
   (unit client_result \<times> dist_client \<times> 'w) option" where
  "BatchDelete net clk [] (dc, w) = Some (Inr (), dc, w)"
| "BatchDelete net clk (key # keys) (dc, w) = do {
     (r, dc1, w1) \<leftarrow> client_Delete net clk key (dc, w);
     case r of Inl err \<Rightarrow> Some (Inl (BatchFailed key err), dc1, w1)
     | Inr _ \<Rightarrow> BatchDelete net clk keys (dc1, w1)
   }"

end
