(* ===== verification/Client_Props.thy ===== *)
theory Client_Props
  imports Client
begin

text \<open>
  The client: what the node manager believes after any history of marks and probes, when retrying
  reaches a living node and when it does not.
\<close>

section \<open>The node manager over its histories\<close>

datatype nm_event = Succeeded go_time string | Failed go_time string | Probed go_time string bool

fun nm_step :: "nm_event \<Rightarrow> node_manager \<Rightarrow> node_manager" where
  "nm_step (Succeeded now n) nm = MarkSuccess now n nm"
| "nm_step (Failed now n) nm = MarkFailure now n nm"
| "nm_step (Probed now n healthy) nm = record_check now n healthy nm"

text \<open>The failures of node \<open>n\<close> that count: a success sets the counter back, a successful probe only when
  the threshold had been reached.\<close>

fun tally :: "int \<Rightarrow> string \<Rightarrow> nm_event \<Rightarrow> int \<Rightarrow> int" where
  "tally th n (Succeeded _ m) c = (if m = n then 0 else c)"
| "tally th n (Failed _ m) c = (if m = n then c + 1 else c)"
| "tally th n (Probed _ m healthy) c =
     (if m \<noteq> n then c else if \<not> healthy then c + 1 else if th \<le> c then 0 else c)"

definition nm_inv :: "client_config \<Rightarrow> (string \<Rightarrow> int) \<Rightarrow> node_manager \<Rightarrow> bool" where
  "nm_inv conf c nm \<longleftrightarrow> seedNodes nm = conf_Nodes conf \<and> activeNodes nm = conf_Nodes conf \<and>
     nm_config nm = conf \<and> dom (nodeStatus nm) = set (conf_Nodes conf) \<and>
     (\<forall>n st. nodeStatus nm n = Some st \<longrightarrow> FailureCount st = c n \<and>
        (IsHealthy st \<longleftrightarrow> c n < conf_FailureThreshold conf))"

lemma nm_inv_new:
  assumes "0 < conf_FailureThreshold conf"
  shows "nm_inv conf (\<lambda>_. 0) (NewNodeManager now conf)"
proof -
  have "fold (\<lambda>node m. m(node \<mapsto> new_status now node)) ns m =
      (\<lambda>n. if n \<in> set ns then Some (new_status now n) else m n)" for ns m
    by (induction ns arbitrary: m) (auto simp: fun_eq_iff)
  then show ?thesis
    using assms by (auto simp: nm_inv_def NewNodeManager_def new_status_def split: if_splits)
qed

text \<open>Every update replaces the status of a known node and leaves the lists alone.\<close>

lemma nm_inv_set:
  assumes "nm_inv conf c nm" "n \<in> set (conf_Nodes conf)"
    and "FailureCount st = c' n" "IsHealthy st \<longleftrightarrow> c' n < conf_FailureThreshold conf"
    and "\<And>m. m \<noteq> n \<Longrightarrow> c' m = c m"
  shows "nm_inv conf c' (set_status n st nm)"
  using assms unfolding nm_inv_def set_status_def by auto

lemma ensureNode_known [simp]:
  "n \<in> set (activeNodes nm) \<Longrightarrow> ensureNodeInActiveList n nm = nm"
  by (simp add: ensureNodeInActiveList_def)

lemma activeNodes_set_status [simp]: "activeNodes (set_status n st nm) = activeNodes nm"
  by (simp add: set_status_def)

lemma nm_step_inv:
  assumes inv: "nm_inv conf c nm" and th: "0 < conf_FailureThreshold conf"
  shows "nm_inv conf (\<lambda>n. tally (conf_FailureThreshold conf) n e (c n)) (nm_step e nm)"
proof -
  have known: "nodeStatus nm n = Some st \<Longrightarrow> n \<in> set (conf_Nodes conf) \<and> FailureCount st = c n \<and>
      (IsHealthy st \<longleftrightarrow> c n < conf_FailureThreshold conf)" for n st
    using inv unfolding nm_inv_def by blast
  have lists: "activeNodes nm = conf_Nodes conf" "nm_config nm = conf" using inv by (simp_all add: nm_inv_def)
  have skip: "nm_inv conf c' nm" if "nodeStatus nm n = None" "\<And>m. m \<noteq> n \<Longrightarrow> c' m = c m" for n c'
    using inv that unfolding nm_inv_def by (metis option.distinct(1))
  show ?thesis
  proof (cases e)
    case (Succeeded now n)
    show ?thesis
    proof (cases "nodeStatus nm n")
      case None
      then show ?thesis unfolding Succeeded by (simp add: MarkSuccess_def) (rule skip [OF None], simp)
    next
      case (Some st)
      then show ?thesis using known [OF Some] th unfolding Succeeded
        by (simp add: MarkSuccess_def lists) (rule nm_inv_set [OF inv], auto)
    qed
  next
    case (Failed now n)
    show ?thesis
    proof (cases "nodeStatus nm n")
      case None
      then show ?thesis unfolding Failed by (simp add: MarkFailure_def) (rule skip [OF None], simp)
    next
      case (Some st)
      then show ?thesis using known [OF Some] unfolding Failed
        by (simp add: MarkFailure_def lists) (rule nm_inv_set [OF inv], auto simp: count_failure_def Let_def)
    qed
  next
    case (Probed now n healthy)
    show ?thesis
    proof (cases "nodeStatus nm n")
      case None
      then show ?thesis unfolding Probed by (simp add: record_check_def) (rule skip [OF None], simp)
    next
      case (Some st)
      then show ?thesis using known [OF Some] th unfolding Probed
        by (cases healthy; cases "IsHealthy st")
          (simp_all add: record_check_def lists Let_def, (rule nm_inv_set [OF inv], auto simp: count_failure_def Let_def)+)
    qed
  qed
qed

lemma nm_run_inv:
  assumes "nm_inv conf c nm" "0 < conf_FailureThreshold conf"
  shows "nm_inv conf (\<lambda>n. fold (tally (conf_FailureThreshold conf) n) es (c n)) (fold nm_step es nm)"
  using assms(1)
proof (induction es arbitrary: c nm)
  case (Cons e es)
  from Cons.IH [OF nm_step_inv [OF Cons.prems assms(2)]] show ?case by simp
qed simp

lemma nm_inv_healthy:
  assumes "nm_inv conf c nm"
  shows "GetHealthyNodes nm =
    (let h = filter (\<lambda>n. c n < conf_FailureThreshold conf) (conf_Nodes conf)
     in if h = [] then conf_Nodes conf else h)"
proof -
  have "filter (\<lambda>n. case nodeStatus nm n of None \<Rightarrow> False | Some st \<Rightarrow> IsHealthy st) (conf_Nodes conf) =
      filter (\<lambda>n. c n < conf_FailureThreshold conf) (conf_Nodes conf)"
  proof (rule filter_cong [OF refl])
    fix n assume "n \<in> set (conf_Nodes conf)"
    then have "n \<in> dom (nodeStatus nm)" using assms by (simp add: nm_inv_def)
    then obtain st where "nodeStatus nm n = Some st" by blast
    then show "(case nodeStatus nm n of None \<Rightarrow> False | Some st \<Rightarrow> IsHealthy st) = (c n < conf_FailureThreshold conf)"
      using assms by (auto simp: nm_inv_def)
  qed
  then show ?thesis using assms by (simp add: GetHealthyNodes_def nm_inv_def Let_def)
qed

text \<open>C17: after any history of successes, failures and probes a node manager with a positive failure threshold offers exactly
  the configured nodes whose counted failures are below the threshold, or all configured nodes when none is below it; the list of
  active nodes never changes and each counter is the tally of the history.\<close>

theorem node_manager_history:
  assumes "0 < conf_FailureThreshold conf"
    and "nm = fold nm_step es (NewNodeManager now conf)"
    and "failures = (\<lambda>n. fold (tally (conf_FailureThreshold conf) n) es 0)"
  shows "GetHealthyNodes nm =
      (let h = filter (\<lambda>n. failures n < conf_FailureThreshold conf) (conf_Nodes conf)
       in if h = [] then conf_Nodes conf else h) \<and>
    activeNodes nm = conf_Nodes conf \<and> seedNodes nm = conf_Nodes conf \<and>
    (\<forall>n st. nodeStatus nm n = Some st \<longrightarrow> FailureCount st = failures n)"
proof -
  have inv: "nm_inv conf failures nm"
    unfolding assms(2,3) by (rule nm_run_inv [OF nm_inv_new [OF assms(1)] assms(1)])
  show ?thesis
    using nm_inv_healthy [OF inv] inv unfolding nm_inv_def by blast
qed

definition demo_conf :: client_config where
  "demo_conf = \<lparr> conf_Nodes = [''a'', ''b'', ''c''], conf_Timeout = 0, conf_RetryCount = 3, conf_HealthCheckEnabled = True,
     conf_HealthCheckInterval = 0, conf_FailureThreshold = 3, conf_RecoveryCheckInterval = 0 \<rparr>"

theorem node_manager_history_witness:
  "GetHealthyNodes (fold nm_step [Failed 1 ''b'', Probed 2 ''b'' True, Failed 3 ''b'', Succeeded 4 ''a'', Failed 5 ''b'']
     (NewNodeManager 0 demo_conf)) = [''a'', ''c'']"
proof -
  have th: "0 < conf_FailureThreshold demo_conf" by (simp add: demo_conf_def)
  show ?thesis
    using node_manager_history [OF th refl refl, of "[Failed 1 ''b'', Probed 2 ''b'' True, Failed 3 ''b'', Succeeded 4 ''a'', Failed 5 ''b'']" 0]
    by (simp add: demo_conf_def)
qed

section \<open>Retrying\<close>

text \<open>The operation's outcome at a node depends on the node only.\<close>

definition outcome :: "(string \<Rightarrow> 'w \<Rightarrow> 'a client_result \<times> 'w) \<Rightarrow> (string \<Rightarrow> bool) \<Rightarrow> bool" where
  "outcome operation works \<longleftrightarrow> (\<forall>n w. (\<exists>x. fst (operation n w) = Inr x) \<longleftrightarrow> works n)"

lemma healthy_list_ne:
  assumes "nm_inv conf c nm" "conf_Nodes conf \<noteq> []"
  shows "GetHealthyNodes nm \<noteq> []" "set (GetHealthyNodes nm) \<subseteq> set (conf_Nodes conf)"
    "distinct (conf_Nodes conf) \<Longrightarrow> distinct (GetHealthyNodes nm)"
  using assms by (auto simp: nm_inv_healthy [OF assms(1)] Let_def)

lemma mark_sel [simp]:
  "nodeManager (mark f n dc) = map_option (f n) (nodeManager dc)"
  "currentNode (mark f n dc) = currentNode dc" "cl_nodes (mark f n dc) = cl_nodes dc"
  "retryCount (mark f n dc) = retryCount dc"
  by (simp_all add: mark_def)

lemma nextHealthy:
  assumes "nodeManager dc = Some nm" "H = GetHealthyNodes nm" "H \<noteq> []"
  shows "getNextHealthyNode dc =
    Some (H ! (currentNode dc mod length H), dc\<lparr> currentNode := (currentNode dc + 1) mod length H \<rparr>)"
  using assms by (simp add: getNextHealthyNode_def Let_def)

lemma failing_same_list:
  assumes "nm_inv conf c nm" "n \<in> set (conf_Nodes conf)" "c n + 1 \<noteq> conf_FailureThreshold conf"
    and "0 < conf_FailureThreshold conf"
  shows "nm_inv conf (c(n := c n + 1)) (MarkFailure now n nm)"
    "GetHealthyNodes (MarkFailure now n nm) = GetHealthyNodes nm"
proof -
  have "(\<lambda>m. tally (conf_FailureThreshold conf) m (Failed now n) (c m)) = c(n := c n + 1)" by auto
  then show inv: "nm_inv conf (c(n := c n + 1)) (MarkFailure now n nm)"
    using nm_step_inv [OF assms(1,4), of "Failed now n"] by simp
  have "filter (\<lambda>m. (c(n := c n + 1)) m < conf_FailureThreshold conf) (conf_Nodes conf) =
      filter (\<lambda>m. c m < conf_FailureThreshold conf) (conf_Nodes conf)"
    using assms(3) by (intro filter_cong) auto
  then show "GetHealthyNodes (MarkFailure now n nm) = GetHealthyNodes nm"
    by (simp only: nm_inv_healthy [OF inv] nm_inv_healthy [OF assms(1)])
qed

text \<open>A working node \<open>d\<close> places ahead in the rotation is reached by the attempt after \<open>d\<close> failures.\<close>

lemma retry_reaches:
  fixes clk :: "nat \<Rightarrow> go_time" and operation :: "string \<Rightarrow> 'w \<Rightarrow> 'a client_result \<times> 'w"
  assumes "outcome operation works" "0 < conf_FailureThreshold conf" "distinct H" "H \<noteq> []"
    and "set H \<subseteq> set (conf_Nodes conf)"
  shows "\<lbrakk> nm_inv conf c nm; nodeManager dc = Some nm; GetHealthyNodes nm = H; d < length H; d < left;
    works (H ! ((currentNode dc + d) mod length H));
    \<forall>i \<le> d. c (H ! ((currentNode dc + i) mod length H)) + 1 \<noteq> conf_FailureThreshold conf \<rbrakk> \<Longrightarrow>
    \<exists>x dc1 w1. retry_loop clk operation left attempt lastErr (dc, w) = Some (Inr x, dc1, w1)"
proof (induction d arbitrary: left attempt lastErr dc w c nm)
  case (0 left)
  obtain l where l: "left = Suc l" using 0(5) by (cases left) auto
  let ?n = "H ! (currentNode dc mod length H)"
  obtain x where x: "fst (operation ?n w) = Inr x" using assms(1) 0(6) by (auto simp: outcome_def)
  then obtain w1 where "operation ?n w = (Inr x, w1)" by (metis prod.collapse)
  then show ?case using nextHealthy [OF 0(2) 0(3) [symmetric] assms(4)] by (simp add: l)
next
  case (Suc d left)
  obtain l where l: "left = Suc l" using Suc.prems(5) by (cases left) auto
  let ?L = "length H"
  let ?n = "H ! (currentNode dc mod ?L)"
  note sel = nextHealthy [OF Suc.prems(2) Suc.prems(3) [symmetric] assms(4)]
  obtain r w1 where op: "operation ?n w = (r, w1)" by (cases "operation ?n w")
  show ?case
  proof (cases r)
    case (Inr x)
    then show ?thesis using sel op by (simp add: l)
  next
    case (Inl err)
    let ?nm = "MarkFailure (clk attempt) ?n nm"
    let ?dc = "mark (MarkFailure (clk attempt)) ?n (dc\<lparr> currentNode := (currentNode dc + 1) mod ?L \<rparr>)"
    have L: "0 < ?L" using assms(4) by simp
    have "?n \<in> set H" using L by (intro nth_mem) simp
    then have n: "?n \<in> set (conf_Nodes conf)" using assms(5) by blast
    have margin: "c ?n + 1 \<noteq> conf_FailureThreshold conf" using Suc.prems(7) by fastforce
    note same = failing_same_list [OF Suc.prems(1) n margin assms(2), of "clk attempt"]
    have pos: "(currentNode ?dc + i) mod ?L = (currentNode dc + Suc i) mod ?L" for i
      by (simp add: mod_simps)
    have other: "H ! ((currentNode dc + Suc i) mod ?L) \<noteq> ?n" if "i \<le> d" for i
    proof
      assume "H ! ((currentNode dc + Suc i) mod ?L) = ?n"
      then have "(currentNode dc + Suc i) mod ?L = currentNode dc mod ?L"
        using nth_eq_iff_index_eq [OF assms(3)] L by auto
      then have "Suc i mod ?L = 0" by (simp add: mod_eq_dvd_iff_nat)
      moreover have "Suc i < ?L" using that Suc.prems(4) by simp
      ultimately show False by simp
    qed
    have "\<exists>x dc1 w2. retry_loop clk operation l (attempt + 1) (Some err) (?dc, w1) = Some (Inr x, dc1, w2)"
    proof (rule Suc.IH [OF same(1)])
      show "nodeManager ?dc = Some ?nm" using Suc.prems(2) by simp
      show "GetHealthyNodes ?nm = H" using same(2) Suc.prems(3) by simp
      show "d < ?L" "d < l" using Suc.prems(4,5) l by simp_all
      show "works (H ! ((currentNode ?dc + d) mod ?L))" using Suc.prems(6) unfolding pos by simp
      show "\<forall>i\<le>d. (c(?n := c ?n + 1)) (H ! ((currentNode ?dc + i) mod ?L)) + 1 \<noteq> conf_FailureThreshold conf"
        unfolding pos using other Suc.prems(7) by auto
    qed
    then show ?thesis using sel op Inl by (simp add: l isNetworkError_def Let_def)
  qed
qed

text \<open>C21: a client whose nodes are distinct finds a living node: when some node it believes healthy accepts the
  operation, the retries are at least as many as the nodes it believes healthy, and no node is one
  failure short of the threshold, the operation succeeds, wherever the rotation stands.\<close>

theorem retry_reaches_live_node:
  fixes operation :: "string \<Rightarrow> 'w \<Rightarrow> 'a client_result \<times> 'w"
  assumes "0 < conf_FailureThreshold conf" "distinct (conf_Nodes conf)"
    and "nm = fold nm_step es (NewNodeManager now conf)" "nodeManager dc = Some nm"
    and "outcome operation works" "n \<in> set (GetHealthyNodes nm)" "works n"
    and "int (length (GetHealthyNodes nm)) \<le> retryCount dc"
    and "\<forall>m st. nodeStatus nm m = Some st \<longrightarrow> FailureCount st + 1 \<noteq> conf_FailureThreshold conf"
  shows "\<exists>x dc1 w1. executeWithRetry clk operation (dc, w) = Some (Inr x, dc1, w1)"
proof -
  let ?H = "GetHealthyNodes nm"
  define c where "c = (\<lambda>n. fold (tally (conf_FailureThreshold conf) n) es 0)"
  have inv: "nm_inv conf c nm"
    unfolding c_def assms(3) by (rule nm_run_inv [OF nm_inv_new [OF assms(1)] assms(1)])
  have "?H \<noteq> []" using assms(6) by auto
  have ne: "conf_Nodes conf \<noteq> []"
  proof
    assume "conf_Nodes conf = []"
    then show False using assms(6) nm_inv_healthy [OF inv] by simp
  qed
  note H = healthy_list_ne [OF inv ne]
  have L: "0 < length ?H" using H(1) by simp
  obtain j where j: "j < length ?H" "?H ! j = n" using assms(6) by (metis in_set_conv_nth)
  let ?cur = "currentNode dc mod length ?H"
  define d where "d = (j + (length ?H - ?cur)) mod length ?H"
  have cur: "?cur < length ?H" using L by simp
  have "(currentNode dc + d) mod length ?H = (?cur + (j + (length ?H - ?cur))) mod length ?H"
    unfolding d_def by (simp add: mod_simps)
  also have "?cur + (j + (length ?H - ?cur)) = j + length ?H" using cur by simp
  finally have at: "(currentNode dc + d) mod length ?H = j" using j(1) by simp
  have margin: "c m + 1 \<noteq> conf_FailureThreshold conf" if m: "m \<in> set ?H" for m
  proof -
    have "m \<in> dom (nodeStatus nm)" using m H(2) inv by (auto simp: nm_inv_def)
    then obtain st where "nodeStatus nm m = Some st" by blast
    then show ?thesis using assms(9) inv unfolding nm_inv_def by metis
  qed
  have d: "d < length ?H" "d < nat (retryCount dc)" using L assms(8) by (auto simp: d_def intro: less_le_trans [OF mod_less_divisor])
  have w: "works (?H ! ((currentNode dc + d) mod length ?H))" using at j(2) assms(7) by simp
  have m: "\<forall>i \<le> d. c (?H ! ((currentNode dc + i) mod length ?H)) + 1 \<noteq> conf_FailureThreshold conf"
    using L by (intro allI impI margin nth_mem) simp
  show ?thesis
    unfolding executeWithRetry_def fst_conv
    by (rule retry_reaches [OF assms(5,1) H(3) [OF assms(2)] H(1,2) inv assms(4) refl d w m])
qed

text \<open>An operation that only one node accepts.\<close>

definition only_at :: "string \<Rightarrow> string \<Rightarrow> string list \<Rightarrow> unit client_result \<times> string list" where
  "only_at m node asked = (if node = m then Inr () else Inl RequestFailed, asked @ [node])"

lemma outcome_only_at: "outcome (only_at m) (\<lambda>n. n = m)"
  by (simp add: outcome_def only_at_def)

definition demo_client :: "node_manager \<Rightarrow> dist_client" where
  "demo_client nm = (NewDistributedClient 0 demo_conf)\<lparr> nodeManager := Some nm \<rparr>"

theorem retry_reaches_live_node_witness:
  "\<exists>x dc1 w1. executeWithRetry (\<lambda>_. 0) (only_at ''c'') (demo_client (NewNodeManager 0 demo_conf), []) = Some (Inr x, dc1, w1)"
proof -
  let ?nm = "fold nm_step [] (NewNodeManager 0 demo_conf)"
  have nm: "?nm = NewNodeManager 0 demo_conf" by simp
  have th: "0 < conf_FailureThreshold demo_conf" "distinct (conf_Nodes demo_conf)" by (simp_all add: demo_conf_def)
  have H: "GetHealthyNodes ?nm = [''a'', ''b'', ''c'']"
    using nm_inv_healthy [OF nm_inv_new [OF th(1), of 0]] by (simp add: demo_conf_def)
  have c: "''c'' \<in> set (GetHealthyNodes ?nm)" "''c'' = ''c''" unfolding H by simp_all
  have r: "int (length (GetHealthyNodes ?nm)) \<le> retryCount (demo_client ?nm)"
    unfolding H by (simp add: demo_client_def NewDistributedClient_def demo_conf_def default_int_def Let_def)
  have margin: "\<forall>m st. nodeStatus ?nm m = Some st \<longrightarrow> FailureCount st + 1 \<noteq> conf_FailureThreshold demo_conf"
    by (simp add: NewNodeManager_def demo_conf_def new_status_def)
  have some: "nodeManager (demo_client ?nm) = Some ?nm" by (simp add: demo_client_def)
  show ?thesis
    using retry_reaches_live_node [OF th refl some outcome_only_at c(1) c(2) r margin] unfolding nm by blast
qed

text \<open>One failed attempt.\<close>

lemma retry_fails:
  assumes "nm_inv conf c nm" "nodeManager dc = Some nm" "0 < conf_FailureThreshold conf" "conf_Nodes conf \<noteq> []"
    and "H = GetHealthyNodes nm" "n = H ! (currentNode dc mod length H)" "operation n w = (Inl err, w1)"
  obtains nm1 dc1 where
    "retry_loop clk operation (Suc l) attempt lastErr (dc, w) =
       retry_loop clk operation l (attempt + 1) (Some err) (dc1, w1)"
    "nodeManager dc1 = Some nm1" "nm_inv conf (c(n := c n + 1)) nm1"
    "currentNode dc1 = (currentNode dc + 1) mod length H" "retryCount dc1 = retryCount dc"
proof -
  have ne: "H \<noteq> []" using healthy_list_ne(1) [OF assms(1,4)] assms(5) by simp
  have "(\<lambda>m. tally (conf_FailureThreshold conf) m (Failed (clk attempt) n) (c m)) = c(n := c n + 1)" by auto
  then have "nm_inv conf (c(n := c n + 1)) (MarkFailure (clk attempt) n nm)"
    using nm_step_inv [OF assms(1,3), of "Failed (clk attempt) n"] by simp
  then show thesis
    using nextHealthy [OF assms(2,5) ne] assms(2,7)
    by (intro that [of "mark (MarkFailure (clk attempt)) n (dc\<lparr> currentNode := (currentNode dc + 1) mod length H \<rparr>)"])
      (simp_all add: assms(6) isNetworkError_def Let_def)
qed

text \<open>Without the last condition a living node may never be asked. With the default configuration and three
  nodes, two failed probes of the second node leave it one failure short of the threshold; if then only
  the third node is alive, an operation asks the first, the second and again the first node and gives
  up, although the third is believed healthy and would have accepted.\<close>

theorem retry_skips_live_node:
  "\<exists>nm dc1. nm = fold nm_step [Probed 1 ''b'' False, Probed 2 ''b'' False] (NewNodeManager 0 demo_conf) \<and>
    ''c'' \<in> set (GetHealthyNodes nm) \<and>
    executeWithRetry (\<lambda>_. 3) (only_at ''c'') (demo_client nm, []) =
      Some (Inl (AllNodesFailed (Some RequestFailed)), dc1, [''a'', ''b'', ''a''])"
proof -
  define nm where "nm = fold nm_step [Probed 1 ''b'' False, Probed 2 ''b'' False] (NewNodeManager 0 demo_conf)"
  let ?c = "\<lambda>n. fold (tally 3 n) [Probed 1 ''b'' False, Probed 2 ''b'' False] 0"
  have th: "0 < conf_FailureThreshold demo_conf" "conf_FailureThreshold demo_conf = 3" by (simp_all add: demo_conf_def)
  have nodes: "conf_Nodes demo_conf = [''a'', ''b'', ''c'']" "conf_Nodes demo_conf \<noteq> []" by (simp_all add: demo_conf_def)
  have i0: "nm_inv demo_conf ?c nm"
    using nm_run_inv [OF nm_inv_new [OF th(1)] th(1)] unfolding nm_def th(2) .
  have h0: "[''a'', ''b'', ''c''] = GetHealthyNodes nm" unfolding nm_inv_healthy [OF i0] nodes th by simp
  have s0: "nodeManager (demo_client nm) = Some nm" "currentNode (demo_client nm) = 0" "retryCount (demo_client nm) = 3"
    by (simp_all add: demo_client_def NewDistributedClient_def demo_conf_def default_int_def Let_def)
  let ?run = "retry_loop (\<lambda>_. 3) (only_at ''c'')"
  have n0: "''a'' = [''a'', ''b'', ''c''] ! (currentNode (demo_client nm) mod length [''a'', ''b'', ''c''])"
    by (simp add: s0)
  have o0: "only_at ''c'' ''a'' [] = (Inl RequestFailed, [''a''])" by (simp add: only_at_def)
  obtain nm1 dc1 where s1: "?run (Suc 2) 0 None (demo_client nm, []) = ?run 2 (0 + 1) (Some RequestFailed) (dc1, [''a''])"
    "nodeManager dc1 = Some nm1" "nm_inv demo_conf (?c(''a'' := ?c ''a'' + 1)) nm1"
    "currentNode dc1 = (currentNode (demo_client nm) + 1) mod length [''a'', ''b'', ''c'']"
    by (rule retry_fails [where operation = "only_at ''c''" and w = "[]" and clk = "\<lambda>_. 3", OF i0 s0(1) th(1) nodes(2) h0 n0 o0])
  have h1: "[''a'', ''b'', ''c''] = GetHealthyNodes nm1" unfolding nm_inv_healthy [OF s1(3)] nodes th by simp
  have n1: "''b'' = [''a'', ''b'', ''c''] ! (currentNode dc1 mod length [''a'', ''b'', ''c''])"
    by (simp add: s1(4) s0)
  have o1: "only_at ''c'' ''b'' [''a''] = (Inl RequestFailed, [''a'', ''b''])" by (simp add: only_at_def)
  obtain nm2 dc2 where s2: "?run (Suc 1) (0 + 1) (Some RequestFailed) (dc1, [''a'']) =
      ?run 1 (0 + 1 + 1) (Some RequestFailed) (dc2, [''a'', ''b''])" "nodeManager dc2 = Some nm2"
    "nm_inv demo_conf ((?c(''a'' := ?c ''a'' + 1))(''b'' := (?c(''a'' := ?c ''a'' + 1)) ''b'' + 1)) nm2"
    "currentNode dc2 = (currentNode dc1 + 1) mod length [''a'', ''b'', ''c'']"
    by (rule retry_fails [where operation = "only_at ''c''" and w = "[''a'']" and clk = "\<lambda>_. 3", OF s1(3,2) th(1) nodes(2) h1 n1 o1])
  have h2: "[''a'', ''c''] = GetHealthyNodes nm2" unfolding nm_inv_healthy [OF s2(3)] nodes th by simp
  have n2: "''a'' = [''a'', ''c''] ! (currentNode dc2 mod length [''a'', ''c''])"
    by (simp add: s2(4) s1(4) s0)
  have o2: "only_at ''c'' ''a'' [''a'', ''b''] = (Inl RequestFailed, [''a'', ''b'', ''a''])" by (simp add: only_at_def)
  obtain nm3 dc3 where s3: "?run (Suc 0) (0 + 1 + 1) (Some RequestFailed) (dc2, [''a'', ''b'']) =
      ?run 0 (0 + 1 + 1 + 1) (Some RequestFailed) (dc3, [''a'', ''b'', ''a''])"
    by (rule retry_fails [where operation = "only_at ''c''" and w = "[''a'', ''b'']" and clk = "\<lambda>_. 3", OF s2(3,2) th(1) nodes(2) h2 n2 o2])
  have "executeWithRetry (\<lambda>_. 3) (only_at ''c'') (demo_client nm, []) =
      Some (Inl (AllNodesFailed (Some RequestFailed)), dc3, [''a'', ''b'', ''a''])"
    using s1(1) s2(1) s3 by (simp add: executeWithRetry_def s0 eval_nat_numeral)
  moreover have "''c'' \<in> set (GetHealthyNodes nm)" unfolding h0 [symmetric] by simp
  ultimately show ?thesis unfolding nm_def by blast
qed

end
