(* ===== verification/Cluster_Refine.thy ===== *)
theory Cluster_Refine
  imports Client_Props
begin

text \<open>
  The whole stack against its specification. A cluster of processes with room for the keys that are written answers every
  sequence of HTTP requests, each sent to any process, as one map does; and so does the client library in front of it.
  Ring, routing, forwarding, HTTP encoding and the pointer structure of the caches are behind the map.
\<close>

section \<open>Room\<close>

text \<open>Every cache has room for the entries it holds and all keys in \<open>K\<close>.\<close>

definition cluster_room :: "string set \<Rightarrow> cluster \<Rightarrow> bool" where
  "cluster_room K w \<longleftrightarrow> finite K \<and>
     (\<forall>addr ns cap. w addr = Some ns \<and> node_cache cap (localCache (ns_node ns)) \<longrightarrow>
        card (dom (process_data ns) \<union> K) \<le> nat cap)"

lemma room_replace:
  assumes "cluster_room K w" "owner_at R w k addr ns cap" "node_cache cap c"
    and "dom (contents c) \<subseteq> dom (process_data ns) \<union> K"
  shows "cluster_room K (w(addr \<mapsto> set_cache c ns))"
proof -
  have o: "w addr = Some ns" "node_cache cap (localCache (ns_node ns))" using assms(2) by (simp_all add: owner_at_def)
  have K: "finite K" and room: "card (dom (process_data ns) \<union> K) \<le> nat cap"
    using assms(1) o unfolding cluster_room_def by blast+
  have "finite (dom (process_data ns))" unfolding process_data_def by (rule node_lru.abs_finite [OF o(2)])
  then have "card (dom (contents c) \<union> K) \<le> card (dom (process_data ns) \<union> K)"
    using assms(4) K by (intro card_mono) auto
  then have "card (dom (contents c) \<union> K) \<le> nat cap'" if "node_cache cap' c" for cap'
    using that assms(3) room by (simp add: node_cache_def)
  then show ?thesis using assms(1) K unfolding cluster_room_def by auto
qed

lemma room_put:
  assumes "cluster_room K w" "owner_at R w k addr ns cap" "lru_Set k v (localCache (ns_node ns)) = Some c" "k \<in> K"
  shows "node_cache cap c" "contents c = (process_data ns)(k \<mapsto> v)"
proof -
  have o: "w addr = Some ns" "node_cache cap (localCache (ns_node ns))" using assms(2) by (simp_all add: owner_at_def)
  show "node_cache cap c" by (rule node_lru.put_inv [OF o(2) assms(3)])
  have fin: "finite (dom (process_data ns) \<union> K)"
    using assms(1) node_lru.abs_finite [OF o(2)] by (simp add: cluster_room_def process_data_def)
  have "card (insert k (dom (process_data ns))) \<le> card (dom (process_data ns) \<union> K)"
    using assms(4) by (intro card_mono [OF fin]) auto
  also have "\<dots> \<le> nat cap" using assms(1) o unfolding cluster_room_def by blast
  finally show "contents c = (process_data ns)(k \<mapsto> v)"
    using node_lru.put_room [OF o(2) assms(3)] by (simp add: process_data_def)
qed

section \<open>Requests of clients\<close>

datatype api_call = ApiPut string string string | ApiGet string string | ApiDelete string string

fun call_addr :: "api_call \<Rightarrow> string" where
  "call_addr (ApiPut a k v) = a"
| "call_addr (ApiGet a k) = a"
| "call_addr (ApiDelete a k) = a"

fun call_request :: "api_call \<Rightarrow> http_request" where
  "call_request (ApiPut a k v) = api_request PUT k (Some (value_body v))"
| "call_request (ApiGet a k) = api_request GET k None"
| "call_request (ApiDelete a k) = api_request DELETE k None"

text \<open>The requests one after the other, each with its own readings of the clock and visiting orders.\<close>

fun api_run :: "gin \<Rightarrow> (env \<times> api_call) list \<Rightarrow> cluster \<Rightarrow> http_response option list \<times> cluster" where
  "api_run g [] w = ([], w)"
| "api_run g ((e, c) # cs) w =
     (case deliver g e 2 (call_addr c) (call_request c) w of (r, w1) \<Rightarrow>
      case api_run g cs w1 of (rs, w2) \<Rightarrow> (r # rs, w2))"

text \<open>The specification: one map. Only the node that is named in the response depends on the process that was asked.\<close>

fun store_step :: "(string \<Rightarrow> string) \<Rightarrow> api_call \<Rightarrow> (string \<rightharpoonup> string) \<Rightarrow> http_response \<times> (string \<rightharpoonup> string)" where
  "store_step ident (ApiPut a k v) m =
     (if v = [] then (rejected_response, m) else (put_response k v (ident a), m(k \<mapsto> v)))"
| "store_step ident (ApiGet a k) m = (get_response k (m k) (ident a), m)"
| "store_step ident (ApiDelete a k) m = (deleted_response k (ident a), m(k := None))"

fun store_run :: "(string \<Rightarrow> string) \<Rightarrow> api_call list \<Rightarrow> (string \<rightharpoonup> string) \<Rightarrow> http_response list \<times> (string \<rightharpoonup> string)" where
  "store_run ident [] m = ([], m)"
| "store_run ident (c # cs) m =
     (case store_step ident c m of (r, m1) \<Rightarrow> case store_run ident cs m1 of (rs, m2) \<Rightarrow> (r # rs, m2))"

definition ident_at :: "cluster \<Rightarrow> string \<Rightarrow> string" where
  "ident_at w a = (case w a of None \<Rightarrow> [] | Some ns \<Rightarrow> nodeID (ns_node ns))"

text \<open>
  Keys are plain: the characters that mean something in a URL do not survive forwarding (\<open>query_key_stored_elsewhere\<close>). A key
  that is written is in \<open>K\<close>; values are valid UTF-8, as JSON strings are.
\<close>

fun key_ok :: "string set \<Rightarrow> api_call \<Rightarrow> bool" where
  "key_ok K (ApiPut a k v) \<longleftrightarrow> plain_key k \<and> k \<in> K \<and> valid_utf8 v"
| "key_ok K (ApiGet a k) \<longleftrightarrow> plain_key k"
| "key_ok K (ApiDelete a k) \<longleftrightarrow> plain_key k"

definition serving :: "dist_cache \<Rightarrow> (string \<rightharpoonup> string) \<Rightarrow> string set \<Rightarrow> cluster \<Rightarrow> bool" where
  "serving R book K w \<longleftrightarrow> cluster_ok R book w \<and> cluster_room K w \<and> (\<forall>k v. cl_lookup R book w k = Some v \<longrightarrow> valid_utf8 v)"

lemma ident_set_cache: "w addr = Some ns \<Longrightarrow> ident_at (w(addr \<mapsto> set_cache c ns)) = ident_at w"
  by (auto simp: ident_at_def fun_eq_iff)

text \<open>One request is one step of the map.\<close>

lemma serving_step:
  assumes g: "gin_ok g" and s: "serving R book K w" and a: "call_addr c \<in> dom w" and ok: "key_ok K c"
  shows "\<exists>w1. deliver g e (Suc (Suc m)) (call_addr c) (call_request c) w =
      (Some (fst (store_step (ident_at w) c (cl_lookup R book w))), w1) \<and>
    cl_lookup R book w1 = snd (store_step (ident_at w) c (cl_lookup R book w)) \<and>
    serving R book K w1 \<and> dom w1 = dom w \<and> ident_at w1 = ident_at w"
proof -
  have cl: "cluster_ok R book w" "cluster_room K w" "\<And>k v. cl_lookup R book w k = Some v \<Longrightarrow> valid_utf8 v"
    using s by (simp_all add: serving_def)
  obtain ns where ns: "w (call_addr c) = Some ns" using a by blast
  then have id: "ident_at w (call_addr c) = nodeID (ns_node ns)" by (simp add: ident_at_def)
  have replaced: "\<exists>w1. deliver g e (Suc (Suc m)) (call_addr c) (call_request c) w =
        (Some (fst (store_step (ident_at w) c (cl_lookup R book w))), w1) \<and>
      cl_lookup R book w1 = snd (store_step (ident_at w) c (cl_lookup R book w)) \<and>
      serving R book K w1 \<and> dom w1 = dom w \<and> ident_at w1 = ident_at w"
    if o: "owner_at R w k addr ns' cap" "node_cache cap c'"
      and d: "deliver g e (Suc (Suc m)) (call_addr c) (call_request c) w =
        (Some (fst (store_step (ident_at w) c (cl_lookup R book w))), w(addr \<mapsto> set_cache c' ns'))"
      and l: "cl_lookup R book (w(addr \<mapsto> set_cache c' ns')) = snd (store_step (ident_at w) c (cl_lookup R book w))"
      and r: "dom (contents c') \<subseteq> dom (process_data ns') \<union> K"
      and v: "\<And>x y. snd (store_step (ident_at w) c (cl_lookup R book w)) x = Some y \<Longrightarrow> valid_utf8 y" for k addr ns' cap c'
  proof -
    have "serving R book K (w(addr \<mapsto> set_cache c' ns'))"
      using owner_frame(1) [OF cl(1) o] room_replace [OF cl(2) o r] l v by (simp add: serving_def)
    moreover have "ident_at (w(addr \<mapsto> set_cache c' ns')) = ident_at w"
      using o(1) by (intro ident_set_cache) (simp add: owner_at_def)
    ultimately show ?thesis using d l owner_frame(2) [OF cl(1) o] by blast
  qed
  show ?thesis
  proof (cases c)
    case (ApiPut b k v)
    have kv: "plain_key k" "k \<in> K" "valid_utf8 v" using ok ApiPut by simp_all
    have b: "w b = Some ns" using ns ApiPut by simp
    show ?thesis
    proof (cases "v = []")
      case True
      then show ?thesis using cluster_PUT_empty [where e = e and n = "Suc m" and w = w and a = b, OF g b kv(1)] s ApiPut by simp
    next
      case False
      obtain addr ns' cap c' where p: "owner_at R w k addr ns' cap" "lru_Set k v (localCache (ns_node ns')) = Some c'"
        "deliver g e (Suc (Suc m)) b (api_request PUT k (Some (value_body v))) w =
          (Some (put_response k v (nodeID (ns_node ns))), w(addr \<mapsto> set_cache c' ns'))"
        using cluster_PUT_at [where e = e and m = m, OF g cl(1) b kv(1) False kv(3)] by blast
      note c' = room_put [OF cl(2) p(1,2) kv(2)]
      show ?thesis
      proof (rule replaced [OF p(1) c'(1)])
        show "dom (contents c') \<subseteq> dom (process_data ns') \<union> K" using c'(2) kv(2) by auto
        show "valid_utf8 y" if "snd (store_step (ident_at w) c (cl_lookup R book w)) x = Some y" for x y
          using that ApiPut cl(3) kv(3) False by (auto split: if_splits)
      qed (use p(3) id ApiPut False owner_frame(4) [OF cl(1) p(1) c'] in simp_all)
    qed
  next
    case (ApiGet b k)
    have k: "plain_key k" using ok ApiGet by simp
    have b: "w b = Some ns" using ns ApiGet by simp
    obtain addr ns' cap c' where p: "owner_at R w k addr ns' cap" "node_cache cap c'" "contents c' = process_data ns'"
      "deliver g e (Suc (Suc m)) b (api_request GET k None) w =
        (Some (get_response k (cl_lookup R book w k) (nodeID (ns_node ns))), w(addr \<mapsto> set_cache c' ns'))"
      using cluster_GET_at [where e = e and m = m, OF g cl(1) b k] cl(3) by blast
    show ?thesis
      by (rule replaced [OF p(1,2)]) (use p(3,4) id ApiGet cl(3) owner_frame(3) [OF cl(1) p(1-3)] in simp_all)
  next
    case (ApiDelete b k)
    have k: "plain_key k" using ok ApiDelete by simp
    have b: "w b = Some ns" using ns ApiDelete by simp
    obtain addr ns' cap c' where p: "owner_at R w k addr ns' cap" "node_cache cap c'" "contents c' = (process_data ns')(k := None)"
      "deliver g e (Suc (Suc m)) b (api_request DELETE k None) w =
        (Some (deleted_response k (nodeID (ns_node ns))), w(addr \<mapsto> set_cache c' ns'))"
      using cluster_DELETE_at [where e = e and m = m, OF g cl(1) b k] by blast
    show ?thesis
    proof (rule replaced [OF p(1,2)])
      show "dom (contents c') \<subseteq> dom (process_data ns') \<union> K" using p(3) by auto
      show "valid_utf8 y" if "snd (store_step (ident_at w) c (cl_lookup R book w)) x = Some y" for x y
        using that ApiDelete cl(3) by (auto split: if_splits)
    qed (use p(4) id ApiDelete owner_frame(4) [OF cl(1) p(1-3)] in simp_all)
  qed
qed

text \<open>C2: a consistent cluster whose caches have room for the keys that are written answers every sequence of PUT, GET and
  DELETE requests with plain keys and valid UTF-8 values, each sent to any of its processes, exactly as one map does that refuses
  empty values with 400, and ends in that map.\<close>

theorem cluster_refines_map:
  assumes "gin_ok g" "cluster_ok R book w" "cluster_room K w" "\<forall>k v. cl_lookup R book w k = Some v \<longrightarrow> valid_utf8 v"
    and "\<forall>c \<in> snd ` set cs. call_addr c \<in> dom w \<and> key_ok K c"
  shows "fst (api_run g cs w) = map Some (fst (store_run (ident_at w) (map snd cs) (cl_lookup R book w))) \<and>
    cl_lookup R book (snd (api_run g cs w)) = snd (store_run (ident_at w) (map snd cs) (cl_lookup R book w)) \<and>
    cluster_ok R book (snd (api_run g cs w))"
proof -
  have "serving R book K w" using assms(2-4) by (simp add: serving_def)
  then show ?thesis
    using assms(5)
  proof (induction cs arbitrary: w)
    case Nil
    then show ?case by (simp add: serving_def)
  next
    case (Cons x cs)
    obtain e c where x: "x = (e, c)" by (cases x)
    have c: "call_addr c \<in> dom w" "key_ok K c" using Cons.prems(2) x by simp_all
    obtain w1 where w1: "deliver g e 2 (call_addr c) (call_request c) w =
        (Some (fst (store_step (ident_at w) c (cl_lookup R book w))), w1)"
      "cl_lookup R book w1 = snd (store_step (ident_at w) c (cl_lookup R book w))"
      "serving R book K w1" "dom w1 = dom w" "ident_at w1 = ident_at w"
      using serving_step [where e = e and m = 0, OF assms(1) Cons.prems(1) c] unfolding numeral_2_eq_2 by blast
    have "\<forall>d \<in> snd ` set cs. call_addr d \<in> dom w1 \<and> key_ok K d" using Cons.prems(2) w1(4) by simp
    note ih = Cons.IH [OF w1(3) this]
    show ?case using ih w1(1,2,5) x by (simp add: split_beta)
  qed
qed

text \<open>The two processes with empty caches.\<close>

lemma demo_cluster_room:
  assumes "node_cache cap c" "contents c = Map.empty" "finite K" "card K \<le> nat cap"
  shows "cluster_room K (demo_cluster c)"
proof -
  have "card (dom (process_data ns) \<union> K) \<le> nat cap'"
    if "demo_cluster c addr = Some ns" "node_cache cap' (localCache (ns_node ns))" for addr ns cap'
  proof -
    have "localCache (ns_node ns) = c"
      using that(1) by (auto simp: demo_cluster_def demo_process_def split: if_splits)
    then have "cap' = cap" "process_data ns = Map.empty"
      using that(2) assms by (simp_all add: node_cache_def process_data_def)
    then show ?thesis using assms(4) by simp
  qed
  then show ?thesis using assms(3) unfolding cluster_room_def by blast
qed

lemma demo_cluster_valid:
  assumes "contents c = Map.empty"
  shows "\<forall>k v. cl_lookup demo_ring demo_book (demo_cluster c) k = Some v \<longrightarrow> valid_utf8 v"
proof -
  have "process_data ns = Map.empty" if "demo_cluster c addr = Some ns" for addr ns
    using that assms by (auto simp: demo_cluster_def demo_process_def process_data_def split: if_splits)
  then show ?thesis by (auto simp: cl_lookup_def bind_eq_Some_conv)
qed

theorem cluster_refines_map_witness:
  "\<exists>c. fst (api_run ref_gin (map (Pair demo_env) [ApiPut ''h1'' ''k'' ''v'', ApiGet ''h2'' ''k'', ApiDelete ''h2'' ''k'', ApiGet ''h1'' ''k''])
      (demo_cluster c)) =
    map Some [put_response ''k'' ''v'' ''n1'', get_response ''k'' (Some ''v'') ''n2'', deleted_response ''k'' ''n2'',
      get_response ''k'' None ''n1'']"
proof -
  obtain c where c: "node_cache 5 c" "contents c = Map.empty" using node_cache_new [of 5] by auto
  have room: "finite {''k''}" "card {''k''} \<le> nat 5" by simp_all
  let ?cs = "map (Pair demo_env) [ApiPut ''h1'' ''k'' ''v'', ApiGet ''h2'' ''k'', ApiDelete ''h2'' ''k'', ApiGet ''h1'' ''k'']"
  have ops: "\<forall>x \<in> snd ` set ?cs. call_addr x \<in> dom (demo_cluster c) \<and> key_ok {''k''} x"
    using plain_k valid_v by (simp add: demo_cluster_def)
  note main = cluster_refines_map [OF ref_gin_ok demo_cluster_ok [OF c(1)] demo_cluster_room [OF c room] demo_cluster_valid [OF c(2)] ops]
  have "ident_at (demo_cluster c) ''h1'' = ''n1''" "ident_at (demo_cluster c) ''h2'' = ''n2''"
    by (simp_all add: ident_at_def demo_cluster_def demo_process_def)
  then have "fst (store_run (ident_at (demo_cluster c)) (map snd ?cs) (cl_lookup demo_ring demo_book (demo_cluster c))) =
    [put_response ''k'' ''v'' ''n1'', get_response ''k'' (Some ''v'') ''n2'', deleted_response ''k'' ''n2'',
      get_response ''k'' None ''n1'']" by simp
  then show ?thesis using main by metis
qed

end
