(* ===== verification/Client_Refine.thy ===== *)
theory Client_Refine
  imports Cluster_Refine
begin

text \<open>
  The client library in front of a consistent cluster: every sequence of its operations is answered as by one map, with no
  retry and no failure counted.
\<close>

section \<open>One request of the client\<close>

lemma http_do_api:
  assumes "plain_key k"
  shows "http_do net m addr (api_url k) body w = net addr (api_request m k (map_option marshal body)) w"
proof -
  have slash: "c = CHR ''/'' \<or> plain_char c" if "c \<in> set ''/api/v1/cache/''" for c
    using that by (auto simp: plain_char_def byte_in_def)
  have "parse_target (api_url k) = Some (api_url k)"
    unfolding api_url_def
  proof (rule parse_target_plain)
    show "\<forall>c \<in> set (''/api/v1/cache/'' @ k). c = CHR ''/'' \<or> plain_char c"
      unfolding set_append using assms slash unfolding plain_key_def by blast
  qed
  then show ?thesis by (simp add: http_do_def api_request_def)
qed

text \<open>What the client reads out of the answer to a GET.\<close>

definition found_answer :: "string option \<Rightarrow> string \<times> bool" where
  "found_answer r = (case r of None \<Rightarrow> ([], False) | Some v \<Rightarrow> (v, True))"

lemma get_response_decoded:
  assumes "\<And>v. r = Some v \<Longrightarrow> valid_utf8 v"
  shows "expect_ok (Some (get_response k r node_id), w) (\<lambda>resp.
       case Option.bind (r_json resp) object_fields of
         None \<Rightarrow> Inl ResponseUndecodable
       | Some kvs \<Rightarrow>
           (case (string_field ''key'' kvs [], string_field ''value'' kvs [], bool_field ''found'' kvs False,
                  string_field ''node_id'' kvs [], string_field ''message'' kvs []) of
              (Some _, Some v, Some f, Some _, Some _) \<Rightarrow> Inr (v, f)
            | _ \<Rightarrow> Inl ResponseUndecodable)) = (Inr (found_answer r), w)"
  using assms
  by (cases r)
    (simp_all add: expect_ok_def get_response_def lookup_json_def cache_response_def utf8_literals lower_char_def byte_in_def
      utf8_fix_empty found_answer_def valid_utf8_def)

section \<open>The client and the map\<close>

datatype client_call = ClientSet string string | ClientGet string | ClientDelete string

text \<open>The answer of a Get, or nothing to tell.\<close>

type_synonym client_answer = "(string \<times> bool) option"

fun client_call_run ::
  "'w net \<Rightarrow> (nat \<Rightarrow> go_time) \<Rightarrow> client_call \<Rightarrow> dist_client \<times> 'w \<Rightarrow> (client_answer client_result \<times> dist_client \<times> 'w) option" where
  "client_call_run net clk (ClientSet k v) st = map_option (apfst (map_sum id (\<lambda>_. None))) (client_Set net clk k v st)"
| "client_call_run net clk (ClientGet k) st = map_option (apfst (map_sum id Some)) (client_Get net clk k st)"
| "client_call_run net clk (ClientDelete k) st = map_option (apfst (map_sum id (\<lambda>_. None))) (client_Delete net clk k st)"

text \<open>The operations one after the other, each with the surroundings of the cluster and the clock of the client.\<close>

fun client_run ::
  "gin \<Rightarrow> (env \<times> (nat \<Rightarrow> go_time) \<times> client_call) list \<Rightarrow> dist_client \<times> cluster \<Rightarrow>
   (client_answer client_result list \<times> dist_client \<times> cluster) option" where
  "client_run g [] st = Some ([], st)"
| "client_run g ((e, clk, c) # cs) st = do {
     (r, st1) \<leftarrow> client_call_run (deliver g e 2) clk c st;
     (rs, st2) \<leftarrow> client_run g cs st1;
     Some (r # rs, st2)
   }"

fun map_step :: "client_call \<Rightarrow> (string \<rightharpoonup> string) \<Rightarrow> client_answer \<times> (string \<rightharpoonup> string)" where
  "map_step (ClientSet k v) m = (None, m(k \<mapsto> v))"
| "map_step (ClientGet k) m = (Some (found_answer (m k)), m)"
| "map_step (ClientDelete k) m = (None, m(k := None))"

fun map_run :: "client_call list \<Rightarrow> (string \<rightharpoonup> string) \<Rightarrow> client_answer list \<times> (string \<rightharpoonup> string)" where
  "map_run [] m = ([], m)"
| "map_run (c # cs) m = (case map_step c m of (r, m1) \<Rightarrow> case map_run cs m1 of (rs, m2) \<Rightarrow> (r # rs, m2))"

fun client_key_ok :: "string set \<Rightarrow> client_call \<Rightarrow> bool" where
  "client_key_ok K (ClientSet k v) \<longleftrightarrow> plain_key k \<and> k \<in> K \<and> v \<noteq> [] \<and> valid_utf8 v"
| "client_key_ok K (ClientGet k) \<longleftrightarrow> plain_key k"
| "client_key_ok K (ClientDelete k) \<longleftrightarrow> plain_key k"

section \<open>A client in use\<close>

text \<open>Failures may have been counted: whatever they are, the client asks a configured node.\<close>


definition client_ready :: "client_config \<Rightarrow> dist_client \<Rightarrow> bool" where
  "client_ready conf dc \<longleftrightarrow>
     (\<exists>nm failures. nodeManager dc = Some nm \<and> nm_inv conf failures nm) \<and>
     conf_Nodes conf \<noteq> [] \<and> 0 < conf_FailureThreshold conf \<and> 0 < retryCount dc"

lemma client_ready_new:
  assumes "conf_Nodes conf \<noteq> []" "0 \<le> conf_RetryCount conf" "0 \<le> conf_FailureThreshold conf"
  shows "\<exists>conf'. conf_Nodes conf' = conf_Nodes conf \<and> client_ready conf' (NewDistributedClient now conf)"
proof -
  define conf' where "conf' = conf\<lparr>
            conf_Timeout := default_int (5 * Second) (conf_Timeout conf),
            conf_RetryCount := default_int 3 (conf_RetryCount conf),
            conf_HealthCheckInterval := default_int (30 * Second) (conf_HealthCheckInterval conf),
            conf_FailureThreshold := default_int 3 (conf_FailureThreshold conf),
            conf_RecoveryCheckInterval := default_int (60 * Second) (conf_RecoveryCheckInterval conf),
            conf_HealthCheckEnabled := True \<rparr>"
  have n: "conf_Nodes conf' = conf_Nodes conf" "0 < conf_FailureThreshold conf'" "0 < conf_RetryCount conf'"
    using assms(2,3) by (simp_all add: conf'_def default_int_def)
  have c: "nodeManager (NewDistributedClient now conf) = Some (NewNodeManager now conf')"
    "retryCount (NewDistributedClient now conf) = conf_RetryCount conf'"
    by (simp_all add: NewDistributedClient_def Let_def conf'_def)
  show ?thesis
    using n assms(1) nm_inv_new [OF n(2), of now] by (intro exI [of _ conf']) (auto simp: c client_ready_def)
qed

lemma client_executes:
  assumes "client_ready conf dc" "\<And>n. n \<in> set (conf_Nodes conf) \<Longrightarrow> \<exists>w1. operation n w = (Inr x, w1) \<and> P w1"
  shows "\<exists>dc1 w1. executeWithRetry clk operation (dc, w) = Some (Inr x, dc1, w1) \<and> P w1 \<and> client_ready conf dc1"
proof -
  obtain nm c where nm: "nodeManager dc = Some nm" "nm_inv conf c nm" using assms(1) by (auto simp: client_ready_def)
  have conf: "conf_Nodes conf \<noteq> []" "0 < conf_FailureThreshold conf" "0 < retryCount dc"
    using assms(1) by (simp_all add: client_ready_def)
  let ?H = "GetHealthyNodes nm"
  note H = healthy_list_ne(1,2) [OF nm(2) conf(1)]
  define n where "n = ?H ! (currentNode dc mod length ?H)"
  have "n \<in> set ?H" unfolding n_def using H(1) by (intro nth_mem) simp
  then have n: "n \<in> set (conf_Nodes conf)" using H(2) by blast
  then obtain w1 where w1: "operation n w = (Inr x, w1)" "P w1" using assms(2) by blast
  obtain l where l: "nat (retryCount dc) = Suc l" using conf(3) by (cases "nat (retryCount dc)") auto
  let ?dc = "mark (MarkSuccess (clk 0)) n (dc\<lparr> currentNode := (currentNode dc + 1) mod length ?H \<rparr>)"
  have "executeWithRetry clk operation (dc, w) = Some (Inr x, ?dc, w1)"
    using nextHealthy [OF nm(1) refl H(1)] w1(1) unfolding n_def by (simp add: executeWithRetry_def l)
  moreover have "nm_inv conf (\<lambda>m. tally (conf_FailureThreshold conf) m (Succeeded (clk 0) n) (c m)) (MarkSuccess (clk 0) n nm)"
    using nm_step_inv [OF nm(2) conf(2), of "Succeeded (clk 0) n"] by simp
  then have "client_ready conf ?dc" using nm(1) conf unfolding client_ready_def by auto
  ultimately show ?thesis using w1(2) by blast
qed

text \<open>An operation that every node refuses is tried as often as the configuration says; the client stays usable.\<close>

lemma client_refused:
  assumes "client_ready conf dc" "\<And>n. n \<in> set (conf_Nodes conf) \<Longrightarrow> operation n w = (Inl err, w)"
  shows "\<exists>dc1. executeWithRetry clk operation (dc, w) = Some (Inl (AllNodesFailed (Some err)), dc1, w) \<and> client_ready conf dc1"
proof -
  have conf: "conf_Nodes conf \<noteq> []" "0 < conf_FailureThreshold conf" "0 < retryCount dc"
    using assms(1) by (simp_all add: client_ready_def)
  have "\<exists>dc1. retry_loop clk operation l attempt lastErr (dc, w) =
      Some (Inl (AllNodesFailed (if l = 0 then lastErr else Some err)), dc1, w) \<and> client_ready conf dc1"
    if "client_ready conf dc" for l attempt lastErr and dc :: dist_client
    using that
  proof (induction l arbitrary: dc attempt lastErr)
    case (Suc l)
    obtain nm c where nm: "nodeManager dc = Some nm" "nm_inv conf c nm" using Suc.prems by (auto simp: client_ready_def)
    let ?H = "GetHealthyNodes nm"
    note H = healthy_list_ne(1,2) [OF nm(2) conf(1)]
    define n where "n = ?H ! (currentNode dc mod length ?H)"
    have "n \<in> set ?H" unfolding n_def using H(1) by (intro nth_mem) simp
    then have op: "operation n w = (Inl err, w)" using H(2) assms(2) by blast
    obtain nm1 dc1 where s: "retry_loop clk operation (Suc l) attempt lastErr (dc, w) =
        retry_loop clk operation l (attempt + 1) (Some err) (dc1, w)"
      "nodeManager dc1 = Some nm1" "nm_inv conf (c(n := c n + 1)) nm1" "retryCount dc1 = retryCount dc"
      by (rule retry_fails [where clk = clk and l = l and attempt = attempt and lastErr = lastErr and operation = operation and w = w, OF nm(2,1) conf(2,1) refl n_def op]) blast
    have "client_ready conf dc1" using s(2-4) Suc.prems unfolding client_ready_def by auto
    from Suc.IH [OF this, of "attempt + 1" "Some err"] show ?case unfolding s(1) by simp
  qed simp
  from this [OF assms(1), of "nat (retryCount dc)" 0 None] conf(3) show ?thesis by (simp add: executeWithRetry_def)
qed

lemma client_step:
  assumes g: "gin_ok g" and s: "serving R book K w" and r: "client_ready conf dc"
    and n: "set (conf_Nodes conf) \<subseteq> dom w" and ok: "client_key_ok K c"
  shows "\<exists>dc1 w1. client_call_run (deliver g e 2) clk c (dc, w) = Some (Inr (fst (map_step c (cl_lookup R book w))), dc1, w1) \<and>
    cl_lookup R book w1 = snd (map_step c (cl_lookup R book w)) \<and> serving R book K w1 \<and> dom w1 = dom w \<and> client_ready conf dc1"
proof -
  let ?net = "deliver g e 2" and ?m = "cl_lookup R book w"
  let ?P = "\<lambda>w1. cl_lookup R book w1 = snd (map_step c ?m) \<and> serving R book K w1 \<and> dom w1 = dom w"
  have answered: "\<exists>w1. ?net a (call_request d) w = (Some (fst (store_step (ident_at w) d ?m)), w1) \<and>
      cl_lookup R book w1 = snd (store_step (ident_at w) d ?m) \<and> serving R book K w1 \<and> dom w1 = dom w"
    if "a \<in> set (conf_Nodes conf)" "key_ok K d" "call_addr d = a" for a d
    using serving_step [where e = e and m = 0, OF g s _ that(2)] that n unfolding numeral_2_eq_2 by blast
  show ?thesis
  proof (cases c)
    case (ClientSet k v)
    have kv: "plain_key k" "v \<noteq> []" "valid_utf8 v" "k \<in> K" using ok ClientSet by simp_all
    have body: "marshal (value_body v) = value_body v"
      using kv(3) by (simp add: value_body_def utf8_literals valid_utf8_def)
    have "\<exists>w1. setToNode ?net k v a w = (Inr (), w1) \<and> ?P w1" if "a \<in> set (conf_Nodes conf)" for a
      using answered [OF that, of "ApiPut a k v"] kv ClientSet
      by (auto simp: setToNode_def http_do_api [OF kv(1)] body expect_ok_def put_response_def json_response_def)
    from client_executes [where clk = clk and operation = "setToNode ?net k v" and P = ?P, OF r this] show ?thesis by (auto simp: ClientSet client_Set_def)
  next
    case (ClientGet k)
    have k: "plain_key k" using ok ClientGet by simp
    have valid: "valid_utf8 v" if "?m k = Some v" for v using s that by (auto simp: serving_def)
    have "\<exists>w1. getFromNode ?net k a w = (Inr (found_answer (?m k)), w1) \<and> ?P w1" if a: "a \<in> set (conf_Nodes conf)" for a
    proof -
      obtain w1 where "?net a (api_request GET k None) w = (Some (get_response k (?m k) (ident_at w a)), w1)" "?P w1"
        using answered [OF a, of "ApiGet a k"] k ClientGet by auto
      then show ?thesis by (simp add: getFromNode_def http_do_api [OF k] get_response_decoded [where r = "?m k", OF valid])
    qed
    from client_executes [where clk = clk and operation = "getFromNode ?net k" and P = ?P, OF r this] show ?thesis by (auto simp: ClientGet client_Get_def)
  next
    case (ClientDelete k)
    have k: "plain_key k" using ok ClientDelete by simp
    have "\<exists>w1. deleteFromNode ?net k a w = (Inr (), w1) \<and> ?P w1" if "a \<in> set (conf_Nodes conf)" for a
      using answered [OF that, of "ApiDelete a k"] k ClientDelete
      by (auto simp: deleteFromNode_def http_do_api [OF k] expect_ok_def deleted_response_def json_response_def)
    from client_executes [where clk = clk and operation = "deleteFromNode ?net k" and P = ?P, OF r this] show ?thesis by (auto simp: ClientDelete client_Delete_def)
  qed
qed

section \<open>Any values\<close>

text \<open>
  The specification for arbitrary values: encoding as JSON makes the value valid UTF-8, and every node refuses the empty one, which
  the client then reports as a failure of all nodes.
\<close>

definition empty_refused :: client_error where
  "empty_refused = AllNodesFailed (Some (ResponseStatus StatusBadRequest))"

fun value_step :: "client_call \<Rightarrow> (string \<rightharpoonup> string) \<Rightarrow> client_answer client_result \<times> (string \<rightharpoonup> string)" where
  "value_step (ClientSet k v) m = (if v = [] then (Inl empty_refused, m) else (Inr None, m(k \<mapsto> utf8_fix v)))"
| "value_step (ClientGet k) m = (Inr (Some (found_answer (m k))), m)"
| "value_step (ClientDelete k) m = (Inr None, m(k := None))"

fun value_run :: "client_call list \<Rightarrow> (string \<rightharpoonup> string) \<Rightarrow> client_answer client_result list \<times> (string \<rightharpoonup> string)" where
  "value_run [] m = ([], m)"
| "value_run (c # cs) m = (case value_step c m of (r, m1) \<Rightarrow> case value_run cs m1 of (rs, m2) \<Rightarrow> (r # rs, m2))"

fun call_plain :: "string set \<Rightarrow> client_call \<Rightarrow> bool" where
  "call_plain K (ClientSet k v) \<longleftrightarrow> plain_key k \<and> k \<in> K"
| "call_plain K (ClientGet k) \<longleftrightarrow> plain_key k"
| "call_plain K (ClientDelete k) \<longleftrightarrow> plain_key k"

lemma value_step_valid:
  "client_key_ok K c \<Longrightarrow> value_step c m = (Inr (fst (map_step c m)), snd (map_step c m))"
  by (cases c) (simp_all add: valid_utf8_def)

lemma setToNode_utf8: "setToNode net k v a w = setToNode net k (utf8_fix v) a w"
  by (simp add: setToNode_def http_do_def value_body_def utf8_fix_idem split: option.split)

lemma setToNode_empty:
  assumes "gin_ok g" "a \<in> dom w" "plain_key k"
  shows "setToNode (deliver g e 2) k [] a w = (Inl (ResponseStatus StatusBadRequest), w)"
proof -
  obtain ns where ns: "w a = Some ns" using assms(2) by blast
  have "marshal (value_body []) = value_body []" by (simp add: value_body_def utf8_literals utf8_fix_empty)
  then show ?thesis
    using cluster_PUT_empty [where e = e and n = "Suc 0" and w = w and a = a, OF assms(1) ns assms(3)]
    by (simp add: setToNode_def http_do_api [OF assms(3)] expect_ok_def rejected_response_def sendError_def json_response_def
        numeral_2_eq_2 del: deliver.simps)
qed

lemma value_call:
  assumes g: "gin_ok g" and s: "serving R book K w" and r: "client_ready conf dc"
    and n: "set (conf_Nodes conf) \<subseteq> dom w" and ok: "call_plain K c"
  shows "\<exists>dc1 w1. client_call_run (deliver g e 2) clk c (dc, w) = Some (fst (value_step c (cl_lookup R book w)), dc1, w1) \<and>
    cl_lookup R book w1 = snd (value_step c (cl_lookup R book w)) \<and> serving R book K w1 \<and> dom w1 = dom w \<and> client_ready conf dc1"
proof (cases "\<exists>k. c = ClientSet k []")
  case True
  then obtain k where k: "c = ClientSet k []" "plain_key k" using ok by auto
  have refuse: "setToNode (deliver g e 2) k [] a w = (Inl (ResponseStatus StatusBadRequest), w)" if "a \<in> set (conf_Nodes conf)" for a
    using setToNode_empty [OF g _ k(2)] that n by blast
  obtain dc1 where "executeWithRetry clk (setToNode (deliver g e 2) k []) (dc, w) =
      Some (Inl (AllNodesFailed (Some (ResponseStatus StatusBadRequest))), dc1, w)" "client_ready conf dc1"
    using client_refused [where operation = "setToNode (deliver g e 2) k []" and w = w and clk = clk, OF r refuse] by blast
  then have "client_call_run (deliver g e 2) clk c (dc, w) = Some (Inl empty_refused, dc1, w)" "client_ready conf dc1"
    by (simp_all add: k(1) client_Set_def empty_refused_def del: deliver.simps)
  then show ?thesis using k(1) s by (auto simp del: deliver.simps client_call_run.simps)
next
  case False
  obtain c' where c': "client_key_ok K c'" "value_step c (cl_lookup R book w) = value_step c' (cl_lookup R book w)"
    "client_call_run (deliver g e 2) clk c (dc, w) = client_call_run (deliver g e 2) clk c' (dc, w)"
  proof (cases c)
    case (ClientSet k v)
    then have kv: "plain_key k" "k \<in> K" "v \<noteq> []" using ok False by auto
    have same: "setToNode (deliver g e 2) k (utf8_fix v) = setToNode (deliver g e 2) k v" by (intro ext) (rule setToNode_utf8 [symmetric])
    show thesis
    proof (rule that [of "ClientSet k (utf8_fix v)"])
      show "client_key_ok K (ClientSet k (utf8_fix v))" using kv by (simp add: valid_utf8_fix utf8_fix_Nil_iff)
      show "value_step c (cl_lookup R book w) = value_step (ClientSet k (utf8_fix v)) (cl_lookup R book w)"
        using kv ClientSet by (simp add: utf8_fix_Nil_iff utf8_fix_idem)
      show "client_call_run (deliver g e 2) clk c (dc, w) = client_call_run (deliver g e 2) clk (ClientSet k (utf8_fix v)) (dc, w)"
        unfolding ClientSet client_call_run.simps client_Set_def same ..
    qed
  qed (use that [of c] ok in auto)
  show ?thesis
    unfolding c'(2,3) value_step_valid [OF c'(1)] using client_step [where e = e and clk = clk, OF g s r n c'(1)] unfolding fst_conv snd_conv .
qed

lemma value_calls:
  assumes "gin_ok g" "serving R book K w" "client_ready conf dc" "set (conf_Nodes conf) \<subseteq> dom w"
    and "\<forall>x \<in> set cs. call_plain K (snd (snd x))"
  shows "\<exists>dc1 w1. client_run g cs (dc, w) = Some (fst (value_run (map (\<lambda>x. snd (snd x)) cs) (cl_lookup R book w)), dc1, w1) \<and>
    cl_lookup R book w1 = snd (value_run (map (\<lambda>x. snd (snd x)) cs) (cl_lookup R book w)) \<and> serving R book K w1"
  using assms(2-5)
proof (induction cs arbitrary: dc w)
  case (Cons x cs)
  obtain e clk c where x: "x = (e, clk, c)" by (cases x)
  have ok: "call_plain K c" using Cons.prems(4) x by simp
  obtain dc1 w1 where 1: "client_call_run (deliver g e 2) clk c (dc, w) = Some (fst (value_step c (cl_lookup R book w)), dc1, w1)"
    "cl_lookup R book w1 = snd (value_step c (cl_lookup R book w))" "serving R book K w1" "dom w1 = dom w" "client_ready conf dc1"
    using value_call [where e = e and clk = clk, OF assms(1) Cons.prems(1-3) ok] by blast
  have "set (conf_Nodes conf) \<subseteq> dom w1" "\<forall>x \<in> set cs. call_plain K (snd (snd x))" using Cons.prems(3,4) 1(4) by simp_all
  from Cons.IH [OF 1(3,5) this] show ?case using 1(1,2) x by (auto simp: split_beta)
qed simp

text \<open>C3: a new client of a consistent cluster whose caches have room for the keys that are written. Every sequence of Set, Get and
  Delete operations with plain keys and any values is answered as by one map, wherever the rotation sends each of them: a value
  that is not valid UTF-8 is stored repaired, a Set of the empty value is refused by every node and reported as such, every other
  operation succeeds. The configuration names at least one node and no negative number of retries or failures; zero stands
  for the default.\<close>

theorem client_refines_map:
  assumes "gin_ok g" "cluster_ok R book w" "cluster_room K w" "\<forall>k v. cl_lookup R book w k = Some v \<longrightarrow> valid_utf8 v"
    and "conf_Nodes conf \<noteq> []" "set (conf_Nodes conf) \<subseteq> dom w" "0 \<le> conf_RetryCount conf" "0 \<le> conf_FailureThreshold conf"
    and "\<forall>x \<in> set cs. call_plain K (snd (snd x))"
  shows "\<exists>dc1 w1. client_run g cs (NewDistributedClient now conf, w) =
      Some (fst (value_run (map (\<lambda>x. snd (snd x)) cs) (cl_lookup R book w)), dc1, w1) \<and>
    cl_lookup R book w1 = snd (value_run (map (\<lambda>x. snd (snd x)) cs) (cl_lookup R book w)) \<and> cluster_ok R book w1"
proof -
  have s: "serving R book K w" using assms(2-4) by (simp add: serving_def)
  obtain conf' where conf': "conf_Nodes conf' = conf_Nodes conf" "client_ready conf' (NewDistributedClient now conf)"
    using client_ready_new [OF assms(5,7,8)] by blast
  have nodes: "set (conf_Nodes conf') \<subseteq> dom w" using conf'(1) assms(6) by simp
  from value_calls [OF assms(1) s conf'(2) nodes assms(9)] show ?thesis by (auto simp: serving_def)
qed

text \<open>A refused Set, a Set, a Get and a Delete of a client of the two processes.\<close>

theorem client_refines_map_witness:
  "\<exists>c dc1 w1. client_run ref_gin (map (\<lambda>x. (demo_env, \<lambda>_. 0, x)) [ClientSet ''k'' [], ClientSet ''k'' ''v'', ClientGet ''k'', ClientDelete ''k'', ClientGet ''k''])
      (NewDistributedClient 0 (demo_conf\<lparr> conf_Nodes := [''h1'', ''h2''] \<rparr>), demo_cluster c) =
    Some (Inl empty_refused # map Inr [None, Some (''v'', True), None, Some ([], False)], dc1, w1)"
proof -
  obtain c where c: "node_cache 5 c" "contents c = Map.empty" using node_cache_new [of 5] by auto
  have room: "finite {''k''}" "card {''k''} \<le> nat 5" by simp_all
  let ?conf = "demo_conf\<lparr> conf_Nodes := [''h1'', ''h2''] \<rparr>"
  let ?cs = "map (\<lambda>x. (demo_env, \<lambda>_. 0 :: go_time, x)) [ClientSet ''k'' [], ClientSet ''k'' ''v'', ClientGet ''k'', ClientDelete ''k'', ClientGet ''k'']"
  have conf: "conf_Nodes ?conf \<noteq> []" "set (conf_Nodes ?conf) \<subseteq> dom (demo_cluster c)" "0 \<le> conf_RetryCount ?conf"
    "0 \<le> conf_FailureThreshold ?conf" by (simp_all add: demo_conf_def demo_cluster_def)
  have ops: "\<forall>x \<in> set ?cs. call_plain {''k''} (snd (snd x))" using plain_k by simp
  note main = client_refines_map [where cs = ?cs and now = 0, OF ref_gin_ok demo_cluster_ok [OF c(1)] demo_cluster_room [OF c room] demo_cluster_valid [OF c(2)] conf ops]
  have answers: "fst (value_run (map (\<lambda>x. snd (snd x)) ?cs) (cl_lookup demo_ring demo_book (demo_cluster c))) =
      Inl empty_refused # map Inr [None, Some (''v'', True), None, Some ([], False)]"
    using valid_v by (simp add: found_answer_def valid_utf8_def)
  show ?thesis using main unfolding answers by blast
qed

end
