(* ===== verification/Client_Program.thy ===== *)
theory Client_Program
  imports Client_Refine "HOL-Library.Signed_Division"
begin

text \<open>
  \<open>cmd/client/main.go\<close>: the program that exercises a running cluster through the client library. Its phases are sequences of
  client operations whose outcomes are counted; the goroutines of its concurrent phases are scripts of operations that a
  schedule interleaves. What is printed is returned as a value, the rates in operations per second are left out.
\<close>

section \<open>Operations in sequence\<close>

text \<open>The client, the world behind the network and the number of operations so far, which selects the surroundings of the
  next one: the state of the network and the client's readings of the clock.\<close>

record 'w session =
  se_client :: dist_client
  se_world :: 'w
  se_done :: nat

type_synonym 'w link = "nat \<Rightarrow> 'w net \<times> (nat \<Rightarrow> go_time)"

type_synonym visits = "nat \<Rightarrow> (string \<rightharpoonup> string) \<Rightarrow> string list"

definition with_client :: "('r \<times> dist_client \<times> 'w) option \<Rightarrow> 'w session \<Rightarrow> ('r \<times> 'w session) option" where
  "with_client res s =
     map_option (\<lambda>(r, dc, w). (r, \<lparr> se_client = dc, se_world = w, se_done = Suc (se_done s) \<rparr>)) res"

definition perform :: "'w link \<Rightarrow> client_call \<Rightarrow> 'w session \<Rightarrow> (client_answer client_result \<times> 'w session) option" where
  "perform link c s =
     with_client (client_call_run (fst (link (se_done s))) (snd (link (se_done s))) c (se_client s, se_world s)) s"

text \<open>A loop that goes on after a failure, and one that breaks at the first.\<close>

fun perform_all ::
  "'w link \<Rightarrow> client_call list \<Rightarrow> 'w session \<Rightarrow> (client_answer client_result list \<times> 'w session) option" where
  "perform_all link [] s = Some ([], s)"
| "perform_all link (c # cs) s = do {
     (r, s1) \<leftarrow> perform link c s;
     (rs, s2) \<leftarrow> perform_all link cs s1;
     Some (r # rs, s2)
   }"

fun perform_until :: "'w link \<Rightarrow> client_call list \<Rightarrow> 'w session \<Rightarrow> (client_error option \<times> 'w session) option" where
  "perform_until link [] s = Some (None, s)"
| "perform_until link (c # cs) s = do {
     (r, s1) \<leftarrow> perform link c s;
     case r of Inl err \<Rightarrow> Some (Some err, s1) | Inr _ \<Rightarrow> perform_until link cs s1
   }"

definition succeeded :: "client_answer client_result \<Rightarrow> bool" where
  "succeeded r \<longleftrightarrow> (case r of Inl _ \<Rightarrow> False | Inr _ \<Rightarrow> True)"

definition answer_found :: "client_answer client_result \<Rightarrow> bool" where
  "answer_found r \<longleftrightarrow> (case r of Inr (Some (_, found)) \<Rightarrow> found | _ \<Rightarrow> False)"

definition count :: "('a \<Rightarrow> bool) \<Rightarrow> 'a list \<Rightarrow> nat" where
  "count P xs = length (filter P xs)"

section \<open>Load balancing and failover\<close>

definition testKeys :: "string list" where
  "testKeys = map (\<lambda>i. ''lb:test:'' @ Itoa i) [1..<11]"

text \<open>The numbers of successful writes and of keys that were found, and the status of the nodes.\<close>

definition load_balance_value :: "nat \<Rightarrow> string" where
  "load_balance_value i = ''load_balance_value_'' @ Itoa i"

definition testLoadBalancing :: "'w link \<Rightarrow> 'w session \<Rightarrow> (nat \<times> nat \<times> (string \<rightharpoonup> node_status) \<times> 'w session) option" where
  "testLoadBalancing link s = do {
     (sets, s1) \<leftarrow> perform_all link
       (map (\<lambda>(i, key). ClientSet key (load_balance_value i)) (List.enumerate 0 testKeys)) s;
     (gets, s2) \<leftarrow> perform_all link (map ClientGet testKeys) s1;
     (_, s3) \<leftarrow> perform_all link (map ClientDelete testKeys) s2;
     Some (count succeeded sets, count answer_found gets, GetNodeStatus (se_client s2), s3)
   }"

text \<open>\<open>range\<close> over a map visits it in an order of its own each time: \<open>visit i\<close> is that of the i-th loop.\<close>

definition set_calls :: "(string \<rightharpoonup> string) \<Rightarrow> string list \<Rightarrow> client_call list" where
  "set_calls m keys = map (\<lambda>key. ClientSet key (the (m key))) keys"

text \<open>The UTF-8 bytes of the two characters for ``data''.\<close>

definition data_zh :: string where
  "data_zh = map char_of [0xE6, 0x95, 0xB0, 0xE6, 0x8D, 0xAE :: nat]"

definition failoverData :: "string \<rightharpoonup> string" where
  "failoverData = map_of [(''failover:1'', data_zh @ ''1''), (''failover:2'', data_zh @ ''2''), (''failover:3'', data_zh @ ''3'')]"

definition testFailover ::
  "visits \<Rightarrow> 'w link \<Rightarrow> 'w session \<Rightarrow> (nat \<times> (string \<rightharpoonup> node_status) \<times> 'w session) option" where
  "testFailover visit link s = do {
     let keys = (\<lambda>i. visit i failoverData);
     (_, s1) \<leftarrow> perform_all link (set_calls failoverData (keys 0)) s;
     (gets, s2) \<leftarrow> perform_all link (map ClientGet (keys 1)) s1;
     (_, s3) \<leftarrow> perform_all link (map ClientDelete (keys 2)) s2;
     Some (count answer_found gets, GetNodeStatus (se_client s1), s3)
   }"

section \<open>The basic phases of \<open>main\<close>\<close>

definition testData :: "string \<rightharpoonup> string" where
  "testData = map_of [
     (''user:1001'', map char_of [0xE5, 0xBC, 0xA0, 0xE4, 0xB8, 0x89 :: nat]),
     (''user:1002'', map char_of [0xE6, 0x9D, 0x8E, 0xE5, 0x9B, 0x9B :: nat]),
     (''user:1003'', map char_of [0xE7, 0x8E, 0x8B, 0xE4, 0xBA, 0x94 :: nat]),
     (''product:2001'', ''iPhone 15''),
     (''product:2002'', ''MacBook Pro''),
     (''order:3001'', map char_of [0xE8, 0xAE, 0xA2, 0xE5, 0x8D, 0x95, 0xE8, 0xAF, 0xA6, 0xE6, 0x83, 0x85 :: nat] @ ''1''),
     (''order:3002'', map char_of [0xE8, 0xAE, 0xA2, 0xE5, 0x8D, 0x95, 0xE8, 0xAF, 0xA6, 0xE6, 0x83, 0x85 :: nat] @ ''2''),
     (''session:abc'', map char_of [0xE7, 0x94, 0xA8, 0xE6, 0x88, 0xB7, 0xE4, 0xBC, 0x9A, 0xE8, 0xAF, 0x9D :: nat] @ data_zh)]"

datatype verdict = ReadFailed client_error | NotThere | Mismatch string | Matches

definition read_verdict :: "string \<Rightarrow> client_answer client_result \<Rightarrow> verdict" where
  "read_verdict expected r = (case r of
       Inl err \<Rightarrow> ReadFailed err
     | Inr None \<Rightarrow> NotThere
     | Inr (Some (v, found)) \<Rightarrow> if \<not> found then NotThere else if v \<noteq> expected then Mismatch v else Matches)"

definition main_basic :: "visits \<Rightarrow> 'w link \<Rightarrow> 'w session \<Rightarrow> (bool list \<times> verdict list \<times> 'w session) option" where
  "main_basic visit link s = do {
     let keys = (\<lambda>i. visit i testData);
     (sets, s1) \<leftarrow> perform_all link (set_calls testData (keys 0)) s;
     (gets, s2) \<leftarrow> perform_all link (map ClientGet (keys 1)) s1;
     Some (map succeeded sets, map2 (\<lambda>key r. read_verdict (the (testData key)) r) (keys 1) gets, s2)
   }"

definition batchData :: "string \<rightharpoonup> string" where
  "batchData = (let batch_zh = map char_of [0xE6, 0x89, 0xB9, 0xE9, 0x87, 0x8F :: nat] @ data_zh in
     map_of [(''batch:1'', batch_zh @ ''1''), (''batch:2'', batch_zh @ ''2''), (''batch:3'', batch_zh @ ''3'')])"

definition main_batch ::
  "visits \<Rightarrow> 'w link \<Rightarrow> 'w session \<Rightarrow> (unit client_result \<times> (string \<rightharpoonup> string) client_result \<times> 'w session) option" where
  "main_batch visit link s = do {
     let entries = map (\<lambda>k. (k, the (batchData k))) (visit 0 batchData);
     (r, s1) \<leftarrow> with_client (BatchSet (fst (link (se_done s))) (snd (link (se_done s))) entries (se_client s, se_world s)) s;
     (m, s2) \<leftarrow> with_client (BatchGet (fst (link (se_done s1))) (snd (link (se_done s1))) [''batch:1'', ''batch:2'', ''batch:3'']
       (se_client s1, se_world s1)) s1;
     Some (r, m, s2)
   }"

definition deleteKeys :: "string list" where
  "deleteKeys = [''user:1001'', ''product:2001'', ''batch:1'']"

text \<open>Which deletions succeeded, and which keys are confirmed as gone.\<close>

definition main_delete :: "'w link \<Rightarrow> 'w session \<Rightarrow> (bool list \<times> bool list \<times> 'w session) option" where
  "main_delete link s = do {
     (dels, s1) \<leftarrow> perform_all link (map ClientDelete deleteKeys) s;
     (gets, s2) \<leftarrow> perform_all link (map ClientGet deleteKeys) s1;
     Some (map succeeded dels, map (\<lambda>r. succeeded r \<and> \<not> answer_found r) gets, s2)
   }"

section \<open>Performance of sequential operations\<close>

definition numOperations :: nat where
  "numOperations = 1000"

definition perf_key :: "nat \<Rightarrow> string" where
  "perf_key i = ''perf:write:'' @ Itoa i"

definition performanceTest :: "'w link \<Rightarrow> 'w session \<Rightarrow> (client_error option \<times> client_error option \<times> 'w session) option" where
  "performanceTest link s = do {
     (w, s1) \<leftarrow> perform_until link (map (\<lambda>i. ClientSet (perf_key i) (''value_'' @ Itoa i)) [0..<numOperations]) s;
     (r, s2) \<leftarrow> perform_until link (map (\<lambda>i. ClientGet (perf_key i)) [0..<numOperations]) s1;
     (_, s3) \<leftarrow> perform_all link (map (\<lambda>i. ClientDelete (perf_key i)) [0..<numOperations]) s2;
     Some (w, r, s3)
   }"

section \<open>Goroutines\<close>

text \<open>
  The scripts of the workers, interleaved by a schedule: a list of worker numbers, each of which lets that worker do its next
  operation. When the schedule ends the workers finish one after the other: \<open>wg.Wait\<close> returns when all are done.
\<close>

fun interleave :: "nat list \<Rightarrow> 'a list list \<Rightarrow> 'a list" where
  "interleave [] ss = concat ss"
| "interleave (i # is) ss =
     (if i < length ss \<and> ss ! i \<noteq> [] then hd (ss ! i) # interleave is (ss[i := tl (ss ! i)]) else interleave is ss)"

definition worker_key :: "string \<Rightarrow> nat \<Rightarrow> nat \<Rightarrow> string" where
  "worker_key kind i j = ''concurrent:'' @ kind @ '':'' @ Itoa i @ '':'' @ Itoa j"

definition worker_scripts :: "nat \<Rightarrow> nat \<Rightarrow> (nat \<Rightarrow> nat \<Rightarrow> 'a) \<Rightarrow> 'a list list" where
  "worker_scripts tot concurrency f = map (\<lambda>i. map (f i) [0..<tot div concurrency]) [0..<concurrency]"

definition cleanup :: "'w link \<Rightarrow> string \<Rightarrow> nat \<Rightarrow> nat \<Rightarrow> 'w session \<Rightarrow> 'w session option" where
  "cleanup link kind tot concurrency s =
     map_option snd (perform_all link (concat (worker_scripts tot concurrency (\<lambda>i j. ClientDelete (worker_key kind i j)))) s)"

definition testConcurrentWrites :: "nat list \<Rightarrow> 'w link \<Rightarrow> nat \<Rightarrow> nat \<Rightarrow> 'w session \<Rightarrow> 'w session option" where
  "testConcurrentWrites turns link tot concurrency s = do {
     (_, s1) \<leftarrow> perform_all link (interleave turns (worker_scripts tot concurrency
       (\<lambda>i j. ClientSet (worker_key ''write'' i j) (''value_'' @ Itoa i @ ''_'' @ Itoa j)))) s;
     cleanup link ''write'' tot concurrency s1
   }"

definition testConcurrentReads :: "nat list \<Rightarrow> 'w link \<Rightarrow> nat \<Rightarrow> nat \<Rightarrow> 'w session \<Rightarrow> 'w session option" where
  "testConcurrentReads turns link tot concurrency s = do {
     (_, s1) \<leftarrow> perform_all link (concat (worker_scripts tot concurrency
       (\<lambda>i j. ClientSet (worker_key ''read'' i j) (''read_value_'' @ Itoa i @ ''_'' @ Itoa j)))) s;
     (_, s2) \<leftarrow> perform_all link (interleave turns (worker_scripts tot concurrency
       (\<lambda>i j. ClientGet (worker_key ''read'' i j)))) s1;
     cleanup link ''read'' tot concurrency s2
   }"

definition testMixedOperations :: "nat list \<Rightarrow> 'w link \<Rightarrow> nat \<Rightarrow> nat \<Rightarrow> 'w session \<Rightarrow> 'w session option" where
  "testMixedOperations turns link tot concurrency s = do {
     (_, s1) \<leftarrow> perform_all link (interleave turns (worker_scripts tot concurrency
       (\<lambda>i j. if j mod 10 < 7 then ClientGet (worker_key ''mixed'' i j)
              else ClientSet (worker_key ''mixed'' i j) (''mixed_value_'' @ Itoa i @ ''_'' @ Itoa j)))) s;
     cleanup link ''mixed'' tot concurrency s1
   }"

fun concurrent_levels :: "(nat \<Rightarrow> nat list) \<Rightarrow> 'w link \<Rightarrow> nat list \<Rightarrow> 'w session \<Rightarrow> 'w session option" where
  "concurrent_levels scheds link [] s = Some s"
| "concurrent_levels scheds link (c # cs) s = do {
     s1 \<leftarrow> testConcurrentWrites (scheds 0) link numOperations c s;
     s2 \<leftarrow> testConcurrentReads (scheds 1) link numOperations c s1;
     s3 \<leftarrow> testMixedOperations (scheds 2) link numOperations c s2;
     concurrent_levels (\<lambda>i. scheds (i + 3)) link cs s3
   }"

definition concurrentPerformanceTest :: "(nat \<Rightarrow> nat list) \<Rightarrow> 'w link \<Rightarrow> 'w session \<Rightarrow> 'w session option" where
  "concurrentPerformanceTest scheds link s = concurrent_levels scheds link [1, 5, 10, 20] s"

section \<open>Bursts\<close>

definition burst_key :: "nat \<Rightarrow> nat \<Rightarrow> string" where
  "burst_key burstSize i = ''burst_'' @ Itoa burstSize @ ''_'' @ Itoa i"

definition burst_value :: "nat \<Rightarrow> string" where
  "burst_value i = ''burst_value_'' @ Itoa i"

definition burst_script :: "nat \<Rightarrow> nat \<Rightarrow> client_call list" where
  "burst_script burstSize i =
     [ClientSet (burst_key burstSize i) (burst_value i), ClientGet (burst_key burstSize i), ClientDelete (burst_key burstSize i)]"

text \<open>The operations of one burst with the workers that do them, and their answers.\<close>

definition burst_calls :: "nat list \<Rightarrow> nat \<Rightarrow> (nat \<times> client_call) list" where
  "burst_calls turns burstSize = interleave turns (map (\<lambda>i. map (Pair i) (burst_script burstSize i)) [0..<burstSize])"

definition burst :: "nat list \<Rightarrow> 'w link \<Rightarrow> nat \<Rightarrow> 'w session \<Rightarrow> ((nat \<times> client_answer client_result) list \<times> 'w session) option" where
  "burst turns link burstSize s =
     map_option (apfst (zip (map fst (burst_calls turns burstSize))))
       (perform_all link (map snd (burst_calls turns burstSize)) s)"

fun bursts :: "(nat \<Rightarrow> nat list) \<Rightarrow> 'w link \<Rightarrow> nat list \<Rightarrow> 'w session \<Rightarrow> 'w session option" where
  "bursts scheds link [] s = Some s"
| "bursts scheds link (n # ns) s = do {
     (_, s1) \<leftarrow> burst (scheds 0) link n s;
     bursts (\<lambda>i. scheds (Suc i)) link ns s1
   }"

definition testBurstConcurrency :: "(nat \<Rightarrow> nat list) \<Rightarrow> 'w link \<Rightarrow> 'w session \<Rightarrow> 'w session option" where
  "testBurstConcurrency scheds link s = bursts scheds link [5, 10, 20, 50] s"

section \<open>Latencies of one connection\<close>

definition numRequests :: nat where
  "numRequests = 100"

text \<open>\<open>watch i\<close> is the duration that the clock shows for the i-th write.\<close>

definition testConnectionReuse_calls :: "client_call list" where
  "testConnectionReuse_calls =
     [ClientSet ''warmup'' ''warmup_value'', ClientDelete ''warmup''] @
     concat (map (\<lambda>i. [ClientSet (''latency_test_'' @ Itoa i) (''value_'' @ Itoa i), ClientDelete (''latency_test_'' @ Itoa i)])
       [0..<numRequests])"

record latency_report =
  lat_avg :: duration
  lat_min :: duration
  lat_max :: duration
  lat_first :: duration
  lat_last :: duration

text \<open>A loop that keeps the sum, the least and the greatest value.\<close>

definition latency_step :: "duration \<Rightarrow> duration \<times> duration \<times> duration \<Rightarrow> duration \<times> duration \<times> duration" where
  "latency_step latency acc = (case acc of (tot, lo, hi) \<Rightarrow>
     (tot + latency, if latency < lo then latency else lo, if latency > hi then latency else hi))"

definition latency_analysis :: "duration list \<Rightarrow> latency_report" where
  "latency_analysis latencies = (case fold latency_step latencies (0, latencies ! 0, latencies ! 0) of (tot, lo, hi) \<Rightarrow>
     \<lparr> lat_avg = tot sdiv int (length latencies), lat_min = lo, lat_max = hi,
       lat_first = sum_list (map ((!) latencies) [0..<10]) sdiv 10,
       lat_last = sum_list (map (\<lambda>i. latencies ! (length latencies - 10 + i)) [0..<10]) sdiv 10 \<rparr>)"

text \<open>The improvement in per cent, when the last requests were faster than the first.\<close>

definition improvement :: "latency_report \<Rightarrow> rat option" where
  "improvement r = (if lat_first r > lat_last r then Some (of_int (lat_first r - lat_last r) / of_int (lat_first r) * 100) else None)"

definition testConnectionReuse :: "(nat \<Rightarrow> duration) \<Rightarrow> 'w link \<Rightarrow> 'w session \<Rightarrow> (latency_report \<times> 'w session) option" where
  "testConnectionReuse watch link s =
     map_option (\<lambda>(_, s1). (latency_analysis (map watch [0..<numRequests]), s1)) (perform_all link testConnectionReuse_calls s)"

section \<open>The long run\<close>

text \<open>
  Each worker repeats Set, Get and Delete until it sees the stop channel closed, which it looks at before each round; then it
  adds its counts to the totals. A schedule is a sequence of turns of the workers and the closing of the channel.
\<close>

datatype lr_phase = AtTop | AtGet | AtDelete | Returned

record lr_worker =
  lr_ops :: nat
  lr_errors :: nat
  lr_phase :: lr_phase

record 'w longrun =
  lr_workers :: "lr_worker list"
  lr_stopped :: bool
  totalOps :: nat
  totalErrors :: nat
  lr_session :: "'w session"

datatype lr_event = Turn nat | Close

definition longrun_key :: "nat \<Rightarrow> nat \<Rightarrow> string" where
  "longrun_key i ops = ''longrun_'' @ Itoa i @ ''_'' @ Itoa ops"

definition longrun_start :: "'w session \<Rightarrow> 'w longrun" where
  "longrun_start s = \<lparr> lr_workers = replicate 5 \<lparr> lr_ops = 0, lr_errors = 0, lr_phase = AtTop \<rparr>, lr_stopped = False,
     totalOps = 0, totalErrors = 0, lr_session = s \<rparr>"

text \<open>What the worker does next, how it goes on after the answer, and its last turn.\<close>

definition lr_call :: "nat \<Rightarrow> lr_worker \<Rightarrow> client_call" where
  "lr_call i wk = (let key = longrun_key i (lr_ops wk) in
     case lr_phase wk of AtGet \<Rightarrow> ClientGet key | AtDelete \<Rightarrow> ClientDelete key
     | _ \<Rightarrow> ClientSet key (''value_'' @ Itoa (lr_ops wk)))"

definition lr_next :: "bool \<Rightarrow> lr_worker \<Rightarrow> lr_worker" where
  "lr_next ok wk = (case lr_phase wk of
       AtTop \<Rightarrow> if ok then wk\<lparr> lr_phase := AtGet \<rparr> else wk\<lparr> lr_errors := lr_errors wk + 1 \<rparr>
     | AtGet \<Rightarrow> wk\<lparr> lr_errors := (if ok then lr_errors wk else lr_errors wk + 1), lr_phase := AtDelete \<rparr>
     | AtDelete \<Rightarrow> wk\<lparr> lr_ops := lr_ops wk + 1, lr_phase := AtTop \<rparr>
     | Returned \<Rightarrow> wk)"

definition longrun_turn :: "'w link \<Rightarrow> nat \<Rightarrow> 'w longrun \<Rightarrow> 'w longrun option" where
  "longrun_turn link i st =
     (if \<not> i < length (lr_workers st) then Some st
      else
        let wk = lr_workers st ! i in
        if lr_phase wk = Returned then Some st
        else if lr_phase wk = AtTop \<and> lr_stopped st then
          Some (st\<lparr> totalOps := totalOps st + lr_ops wk, totalErrors := totalErrors st + lr_errors wk,
            lr_workers := (lr_workers st)[i := wk\<lparr> lr_phase := Returned \<rparr>] \<rparr>)
        else do {
          (r, s1) \<leftarrow> perform link (lr_call i wk) (lr_session st);
          Some (st\<lparr> lr_workers := (lr_workers st)[i := lr_next (succeeded r) wk], lr_session := s1 \<rparr>)
        })"

fun longrun_event :: "'w link \<Rightarrow> lr_event \<Rightarrow> 'w longrun \<Rightarrow> 'w longrun option" where
  "longrun_event link (Turn i) st = longrun_turn link i st"
| "longrun_event link Close st = Some (st\<lparr> lr_stopped := True \<rparr>)"

fun longrun_events :: "'w link \<Rightarrow> lr_event list \<Rightarrow> 'w longrun \<Rightarrow> 'w longrun option" where
  "longrun_events link [] st = Some st"
| "longrun_events link (e # es) st = Option.bind (longrun_event link e st) (longrun_events link es)"

definition lr_finished :: "'w longrun \<Rightarrow> bool" where
  "lr_finished st \<longleftrightarrow> (\<forall>wk \<in> set (lr_workers st). lr_phase wk = Returned)"

datatype stability = Excellent | Good | NeedsWork

text \<open>Without any operation the error rate is \<open>0/0\<close>, not a number, which is below no bound.\<close>

definition longrun_verdict :: "nat \<Rightarrow> nat \<Rightarrow> stability" where
  "longrun_verdict ops errors =
     (if ops + errors = 0 then NeedsWork
      else
        let errorRate = (of_nat errors / of_nat (ops + errors) * 100 :: rat) in
        if errorRate < 1 then Excellent else if errorRate < 5 then Good else NeedsWork)"

definition testLongRunning :: "lr_event list \<Rightarrow> 'w link \<Rightarrow> 'w session \<Rightarrow> (nat \<times> nat \<times> stability \<times> 'w session) option" where
  "testLongRunning events link s = do {
     st \<leftarrow> longrun_events link events (longrun_start s);
     if lr_finished st
     then Some (totalOps st, totalErrors st, longrun_verdict (totalOps st) (totalErrors st), lr_session st)
     else None
   }"

definition connectionPoolTest ::
  "(nat \<Rightarrow> duration) \<Rightarrow> (nat \<Rightarrow> nat list) \<Rightarrow> lr_event list \<Rightarrow> 'w link \<Rightarrow> 'w session \<Rightarrow>
   (latency_report \<times> nat \<times> nat \<times> stability \<times> 'w session) option" where
  "connectionPoolTest watch scheds events link s = do {
     (report, s1) \<leftarrow> testConnectionReuse watch link s;
     s2 \<leftarrow> testBurstConcurrency scheds link s1;
     (ops, errors, v, s3) \<leftarrow> testLongRunning events link s2;
     Some (report, ops, errors, v, s3)
   }"

section \<open>The program\<close>

definition main_conf :: client_config where
  "main_conf = \<lparr> conf_Nodes = [''localhost:8001'', ''localhost:8002'', ''localhost:8003''], conf_Timeout = 5 * Second,
     conf_RetryCount = 3, conf_HealthCheckEnabled = True, conf_HealthCheckInterval = 10 * Second, conf_FailureThreshold = 2,
     conf_RecoveryCheckInterval = 15 * Second \<rparr>"

record main_report =
  mr_health :: "string \<rightharpoonup> bool"
  mr_cluster :: "(string \<times> json) list client_result"
  mr_balanced :: "nat \<times> nat"
  mr_basic :: "bool list \<times> verdict list"
  mr_batch :: "unit client_result \<times> (string \<rightharpoonup> string) client_result"
  mr_delete :: "bool list \<times> bool list"
  mr_failover :: nat
  mr_stats :: "(string \<times> json) list client_result"
  mr_performance :: "client_error option \<times> client_error option"
  mr_latency :: latency_report
  mr_longrun :: "nat \<times> nat \<times> stability"

text \<open>The phases in order. The background health checks of the node manager are not interleaved.\<close>

definition client_main ::
  "go_time \<Rightarrow> (nat \<Rightarrow> visits) \<Rightarrow> (nat \<Rightarrow> duration) \<Rightarrow> (nat \<Rightarrow> nat list) \<Rightarrow> (nat \<Rightarrow> nat list) \<Rightarrow> lr_event list \<Rightarrow> 'w link \<Rightarrow> 'w \<Rightarrow>
   (main_report \<times> dist_client \<times> 'w) option" where
  "client_main now visits watch scheds burst_scheds events link w = do {
     let dc = NewDistributedClient now main_conf;
     let (health, w1) = CheckHealth (fst (link 0)) dc w;
     (info, s1) \<leftarrow> with_client (GetClusterInfo (fst (link 0)) (snd (link 0)) (dc, w1))
       \<lparr> se_client = dc, se_world = w1, se_done = 0 \<rparr>;
     (sets, gets, _, s2) \<leftarrow> testLoadBalancing link s1;
     (basic_sets, basic_gets, s3) \<leftarrow> main_basic (visits 0) link s2;
     (batch_set, batch_got, s4) \<leftarrow> main_batch (visits 1) link s3;
     (dels, gone, s5) \<leftarrow> main_delete link s4;
     (accessed, _, s6) \<leftarrow> testFailover (visits 2) link s5;
     (stats, s7) \<leftarrow> with_client (client_GetStats (fst (link (se_done s6))) (snd (link (se_done s6))) (se_client s6, se_world s6)) s6;
     (werr, rerr, s8) \<leftarrow> performanceTest link s7;
     s9 \<leftarrow> concurrentPerformanceTest scheds link s8;
     (report, ops, errors, v, s10) \<leftarrow> connectionPoolTest watch burst_scheds events link s9;
     dc' \<leftarrow> client_Close (se_client s10);
     Some (\<lparr> mr_health = health, mr_cluster = info, mr_balanced = (sets, gets), mr_basic = (basic_sets, basic_gets),
             mr_batch = (batch_set, batch_got), mr_delete = (dels, gone), mr_failover = accessed, mr_stats = stats,
             mr_performance = (werr, rerr), mr_latency = report, mr_longrun = (ops, errors, v) \<rparr>, dc', se_world s10)
   }"

end
