(* ===== verification/Client_Session.thy ===== *)
theory Client_Session
  imports Client_Program
begin

text \<open>
  Sessions of the test program on a consistent cluster: every operation succeeds and is one step of a map. Facts on runs of the
  map, on interleavings and on keys that contain numbers.
\<close>

section \<open>Sessions with a consistent cluster\<close>

definition cluster_link :: "gin \<Rightarrow> (nat \<Rightarrow> env) \<Rightarrow> (nat \<Rightarrow> nat \<Rightarrow> go_time) \<Rightarrow> cluster link" where
  "cluster_link g envs clks = (\<lambda>n. (deliver g (envs n) 2, clks n))"

definition session_ok :: "dist_cache \<Rightarrow> (string \<rightharpoonup> string) \<Rightarrow> string set \<Rightarrow> client_config \<Rightarrow> cluster session \<Rightarrow> bool" where
  "session_ok R book K conf s \<longleftrightarrow>
     serving R book K (se_world s) \<and> client_ready conf (se_client s) \<and> set (conf_Nodes conf) \<subseteq> dom (se_world s)"

abbreviation stored :: "dist_cache \<Rightarrow> (string \<rightharpoonup> string) \<Rightarrow> cluster session \<Rightarrow> (string \<rightharpoonup> string)" where
  "stored R book s \<equiv> cl_lookup R book (se_world s)"

lemma perform_ok:
  assumes "gin_ok g" "session_ok R book K conf s" "client_key_ok K c"
  obtains s1 where "perform (cluster_link g envs clks) c s = Some (Inr (fst (map_step c (stored R book s))), s1)"
    "stored R book s1 = snd (map_step c (stored R book s))" "session_ok R book K conf s1"
proof -
  have s: "serving R book K (se_world s)" "client_ready conf (se_client s)" "set (conf_Nodes conf) \<subseteq> dom (se_world s)"
    using assms(2) by (simp_all add: session_ok_def)
  obtain dc1 w1 where "client_call_run (deliver g (envs (se_done s)) 2) (clks (se_done s)) c (se_client s, se_world s) =
      Some (Inr (fst (map_step c (stored R book s))), dc1, w1)"
    "cl_lookup R book w1 = snd (map_step c (stored R book s))" "serving R book K w1" "dom w1 = dom (se_world s)" "client_ready conf dc1"
    using client_step [where e = "envs (se_done s)" and clk = "clks (se_done s)", OF assms(1) s assms(3)] by blast
  then show thesis
    using s(3)
    by (intro that [of "\<lparr> se_client = dc1, se_world = w1, se_done = Suc (se_done s) \<rparr>"])
      (simp_all add: perform_def cluster_link_def with_client_def session_ok_def)
qed

lemma perform_all_ok:
  assumes "gin_ok g" "session_ok R book K conf s" "\<forall>c \<in> set cs. client_key_ok K c"
  obtains s1 where "perform_all (cluster_link g envs clks) cs s = Some (map Inr (fst (map_run cs (stored R book s))), s1)"
    "stored R book s1 = snd (map_run cs (stored R book s))" "session_ok R book K conf s1"
proof -
  have "\<exists>s1. perform_all (cluster_link g envs clks) cs s = Some (map Inr (fst (map_run cs (stored R book s))), s1) \<and>
      stored R book s1 = snd (map_run cs (stored R book s)) \<and> session_ok R book K conf s1"
    using assms(2,3)
  proof (induction cs arbitrary: s)
    case (Cons c cs)
    have c: "client_key_ok K c" "\<forall>c \<in> set cs. client_key_ok K c" using Cons.prems(2) by simp_all
    obtain s1 where s1: "perform (cluster_link g envs clks) c s = Some (Inr (fst (map_step c (stored R book s))), s1)"
      "stored R book s1 = snd (map_step c (stored R book s))" "session_ok R book K conf s1"
      by (rule perform_ok [OF assms(1) Cons.prems(1) c(1)])
    from Cons.IH [OF s1(3) c(2)] show ?case using s1(1,2) by (auto simp: split_beta)
  qed simp
  then show thesis using that by blast
qed

lemma perform_until_ok:
  assumes "gin_ok g" "session_ok R book K conf s" "\<forall>c \<in> set cs. client_key_ok K c"
  obtains s1 where "perform_until (cluster_link g envs clks) cs s = Some (None, s1)"
    "stored R book s1 = snd (map_run cs (stored R book s))" "session_ok R book K conf s1"
proof -
  have "\<exists>s1. perform_until (cluster_link g envs clks) cs s = Some (None, s1) \<and>
      stored R book s1 = snd (map_run cs (stored R book s)) \<and> session_ok R book K conf s1"
    using assms(2,3)
  proof (induction cs arbitrary: s)
    case (Cons c cs)
    have c: "client_key_ok K c" "\<forall>c \<in> set cs. client_key_ok K c" using Cons.prems(2) by simp_all
    obtain s1 where s1: "perform (cluster_link g envs clks) c s = Some (Inr (fst (map_step c (stored R book s))), s1)"
      "stored R book s1 = snd (map_step c (stored R book s))" "session_ok R book K conf s1"
      by (rule perform_ok [OF assms(1) Cons.prems(1) c(1)])
    from Cons.IH [OF s1(3) c(2)] show ?case using s1(1,2) by (auto simp: split_beta)
  qed simp
  then show thesis using that by blast
qed

section \<open>Runs of the map\<close>

fun call_key :: "client_call \<Rightarrow> string" where
  "call_key (ClientSet k v) = k"
| "call_key (ClientGet k) = k"
| "call_key (ClientDelete k) = k"

lemma map_run_gets [simp]: "map_run (map ClientGet ks) m = (map (\<lambda>k. Some (found_answer (m k))) ks, m)"
  by (induction ks) simp_all

lemma map_run_deletes [simp]: "map_run (map ClientDelete ks) m = (map (\<lambda>_. None) ks, m |` (- set ks))"
proof (induction ks arbitrary: m)
  case (Cons k ks)
  have "m(k := None) |` (- set ks) = m |` (- set (k # ks))" by (auto simp: restrict_map_def fun_eq_iff)
  then show ?case using Cons by simp
qed (simp add: restrict_map_def)

lemma map_run_sets:
  assumes "set ks \<subseteq> dom d"
  shows "map_run (set_calls d ks) m = (map (\<lambda>_. None) ks, m ++ d |` set ks)"
  using assms
proof (induction ks arbitrary: m)
  case (Cons k ks)
  have "m(k \<mapsto> the (d k)) ++ d |` set ks = m ++ d |` set (k # ks)"
    using Cons.prems by (auto simp: restrict_map_def map_add_def fun_eq_iff split: option.splits)
  then show ?case using Cons by (simp add: set_calls_def)
qed (simp add: set_calls_def restrict_map_def map_add_def)

lemma map_run_other: "k \<notin> call_key ` set cs \<Longrightarrow> snd (map_run cs m) k = m k"
proof (induction cs arbitrary: m)
  case (Cons c cs)
  then show ?case by (cases c) (auto simp: split_beta)
qed simp

text \<open>The operations of one worker, when no other worker uses its key.\<close>

lemma map_run_worker:
  assumes "\<forall>x \<in> set xs. call_key (snd x) = k \<longleftrightarrow> fst x = i" "m k = m' k"
  shows "map snd (filter (\<lambda>x. fst x = i) (zip (map fst xs) (fst (map_run (map snd xs) m)))) =
      fst (map_run (map snd (filter (\<lambda>x. fst x = i) xs)) m') \<and>
    snd (map_run (map snd xs) m) k = snd (map_run (map snd (filter (\<lambda>x. fst x = i) xs)) m') k"
  using assms
proof (induction xs arbitrary: m m')
  case (Cons x xs)
  obtain j c where x: "x = (j, c)" by (cases x)
  have own: "call_key c = k \<longleftrightarrow> j = i" "\<forall>x \<in> set xs. call_key (snd x) = k \<longleftrightarrow> fst x = i" using Cons.prems(1) x by simp_all
  show ?case
  proof (cases "j = i")
    case True
    then have "fst (map_step c m) = fst (map_step c m')" "snd (map_step c m) k = snd (map_step c m') k"
      using own(1) Cons.prems(2) by (cases c; simp)+
    then show ?thesis using Cons.IH [OF own(2)] True x by (simp add: split_beta)
  next
    case False
    then have "snd (map_step c m) k = m' k" using own(1) Cons.prems(2) by (cases c) auto
    then show ?thesis using Cons.IH [OF own(2)] False x by (simp add: split_beta)
  qed
qed simp

section \<open>Interleavings\<close>

lemma concat_single: "i < n \<Longrightarrow> concat ((replicate n [])[i := xs]) = xs"
  by (simp add: upd_conv_take_nth_drop)

lemma interleave_set: "set (interleave is ss) \<subseteq> set (concat ss)"
proof (induction "is" ss rule: interleave.induct)
  case (2 i "is" ss)
  show ?case
  proof (cases "i < length ss \<and> ss ! i \<noteq> []")
    case True
    then have i: "ss ! i \<in> set ss" "set (tl (ss ! i)) \<subseteq> set (ss ! i)" "hd (ss ! i) \<in> set (ss ! i)"
      by (auto dest: list.set_sel(2))
    then have "set (concat (ss[i := tl (ss ! i)])) \<subseteq> set (concat ss)"
      using set_update_subset_insert [of ss i "tl (ss ! i)"] by fastforce
    then have "set (interleave is (ss[i := tl (ss ! i)])) \<subseteq> set (concat ss)" using 2(1) [OF True] by (simp add: subset_trans)
    moreover have "hd (ss ! i) \<in> set (concat ss)" using i by auto
    ultimately show ?thesis using True by simp
  next
    case False
    show ?thesis unfolding interleave.simps if_not_P [OF False] by (rule 2(2) [OF False])
  qed
qed simp

text \<open>Every worker's operations appear in the order of its script.\<close>

lemma interleave_worker:
  assumes "\<forall>j < length ss. \<forall>x \<in> set (ss ! j). fst x = j" "i < length ss"
  shows "filter (\<lambda>x. fst x = i) (interleave is ss) = ss ! i"
  using assms
proof (induction "is" ss rule: interleave.induct)
  case (1 ss)
  have "map (filter (\<lambda>x. fst x = i)) ss = (replicate (length ss) [])[i := ss ! i]"
  proof (rule nth_equalityI)
    fix j assume "j < length (map (filter (\<lambda>x. fst x = i)) ss)"
    then show "map (filter (\<lambda>x. fst x = i)) ss ! j = ((replicate (length ss) [])[i := ss ! i]) ! j"
      using 1 by (cases "j = i") (auto simp: filter_empty_conv)
  qed simp
  then show ?case using concat_single [OF 1(2)] by (simp add: filter_concat)
next
  case (2 j "is" ss)
  show ?case
  proof (cases "j < length ss \<and> ss ! j \<noteq> []")
    case True
    have "\<forall>l < length (ss[j := tl (ss ! j)]). \<forall>x \<in> set (ss[j := tl (ss ! j)] ! l). fst x = l"
      using 2(3) True by (auto simp: nth_list_update dest: list.set_sel(2))
    then have ih: "filter (\<lambda>x. fst x = i) (interleave is (ss[j := tl (ss ! j)])) = ss[j := tl (ss ! j)] ! i"
      using 2(1) True 2(4) by simp
    have "fst (hd (ss ! j)) = j" using 2(3) True by simp
    then show ?thesis using ih True by (auto simp: nth_list_update)
  next
    case False
    then show ?thesis using 2(2) [OF _ 2(3,4)] by auto
  qed
qed

section \<open>Keys and values with numbers\<close>

text \<open>Lower case letters, digits, colons and underscores.\<close>

definition word_char :: "char \<Rightarrow> bool" where
  "word_char c \<longleftrightarrow> byte_in c 48 58 \<or> byte_in c 95 95 \<or> byte_in c 97 122"

definition wordy :: "string \<Rightarrow> bool" where
  "wordy s \<longleftrightarrow> (\<forall>c \<in> set s. word_char c)"

lemma wordy_simps [simp]:
  "wordy []" "wordy (c # s) \<longleftrightarrow> word_char c \<and> wordy s" "wordy (s @ t) \<longleftrightarrow> wordy s \<and> wordy t"
  by (auto simp: wordy_def)

lemma wordy_digits: "wordy (digits n)"
proof (induction n rule: digits.induct)
  case (1 n)
  have d: "word_char (char_of (48 + m))" if "m < 10" for m :: nat
    using that by (simp add: word_char_def byte_in_def)
  show ?case
  proof (cases "n < 10")
    case True
    then show ?thesis using d [OF True] by (subst digits.simps) simp
  next
    case False
    then show ?thesis using 1 d [of "n mod 10"] by (subst digits.simps) simp
  qed
qed

lemma wordy_Itoa [simp]: "wordy (Itoa n)"
  by (simp add: Itoa_def wordy_digits)

lemma wordy_key: "wordy s \<Longrightarrow> s \<noteq> [] \<Longrightarrow> plain_key s"
  unfolding wordy_def word_char_def plain_key_def plain_char_def byte_in_def by auto

lemma wordy_valid: "wordy s \<Longrightarrow> valid_utf8 s"
  unfolding valid_utf8_def wordy_def word_char_def by (rule utf8_fix_ascii) (auto simp: byte_in_def)

section \<open>The two processes of the example\<close>

text \<open>Empty caches with room for \<open>K\<close>, and the client of the example.\<close>

definition demo_session :: "lru_cache \<Rightarrow> cluster session" where
  "demo_session c = \<lparr> se_client = NewDistributedClient 0 (demo_conf\<lparr> conf_Nodes := [''h1'', ''h2''] \<rparr>),
     se_world = demo_cluster c, se_done = 0 \<rparr>"

lemma demo_session:
  assumes "node_cache cap c" "contents c = Map.empty" "finite K" "card K \<le> nat cap"
  obtains conf where "session_ok demo_ring demo_book K conf (demo_session c)"
proof -
  have s: "serving demo_ring demo_book K (demo_cluster c)"
    using demo_cluster_ok [OF assms(1)] demo_cluster_room [OF assms] demo_cluster_valid [OF assms(2)] by (simp add: serving_def)
  have "conf_Nodes (demo_conf\<lparr> conf_Nodes := [''h1'', ''h2''] \<rparr>) \<noteq> []" "0 \<le> conf_RetryCount (demo_conf\<lparr> conf_Nodes := [''h1'', ''h2''] \<rparr>)"
    "0 \<le> conf_FailureThreshold (demo_conf\<lparr> conf_Nodes := [''h1'', ''h2''] \<rparr>)" by (simp_all add: demo_conf_def)
  from client_ready_new [OF this, of 0] obtain conf where "conf_Nodes conf = [''h1'', ''h2'']"
    "client_ready conf (NewDistributedClient 0 (demo_conf\<lparr> conf_Nodes := [''h1'', ''h2''] \<rparr>))" by auto
  then show thesis using that [of conf] s by (simp add: session_ok_def demo_session_def demo_cluster_def)
qed

definition demo_link :: "cluster link" where
  "demo_link = cluster_link ref_gin (\<lambda>_. demo_env) (\<lambda>_ _. 0)"

lemma demo_run:
  assumes "finite K" "card K \<le> cap" "0 < cap"
  obtains c conf where "session_ok demo_ring demo_book K conf (demo_session c)"
proof -
  obtain c where c: "node_cache (int cap) c" "contents c = Map.empty" using node_cache_new [of "int cap"] assms(3) by auto
  have "card K \<le> nat (int cap)" using assms(2) by simp
  then show thesis using demo_session [OF c assms(1)] that by metis
qed

end
