(* ===== verification/Client_Goroutines.thy ===== *)
theory Client_Goroutines
  imports Client_Session
begin

text \<open>
  The concurrent phases of the test program: goroutines with keys of their own do not disturb each other, and the long run
  stops without an error.
\<close>

section \<open>A burst\<close>

lemma burst_key_inj [simp]: "burst_key n i = burst_key n j \<longleftrightarrow> i = j"
  by (simp add: burst_key_def)

lemma burst_calls_worker:
  "i < n \<Longrightarrow> filter (\<lambda>x. fst x = i) (burst_calls turns n) = map (Pair i) (burst_script n i)"
  unfolding burst_calls_def by (subst interleave_worker) auto

lemma burst_calls_key:
  assumes "x \<in> set (burst_calls turns n)"
  shows "fst x < n" "call_key (snd x) = burst_key n (fst x)" "snd x \<in> set (burst_script n (fst x))"
proof -
  have "x \<in> set (concat (map (\<lambda>i. map (Pair i) (burst_script n i)) [0..<n]))"
    using assms unfolding burst_calls_def by (rule subsetD [OF interleave_set])
  then show "fst x < n" "call_key (snd x) = burst_key n (fst x)" "snd x \<in> set (burst_script n (fst x))"
    by (auto simp: burst_script_def)
qed

text \<open>C18: on a consistent cluster whose processes all answer and whose caches have room for the keys of the burst besides those
  they hold (\<open>session_ok\<close>), goroutines that write, read and delete keys of their own through one client do not disturb each other:
  however the operations of a burst are interleaved, each goroutine reads back the value it wrote, and afterwards the cluster
  holds what it held before, without the keys of the burst. When a cache is full or a process does not answer this is not so.\<close>

theorem burst_isolated:
  assumes "gin_ok g" "session_ok R book K conf s" "burst_key n ` {..<n} \<subseteq> K"
  shows "\<exists>rs s1. burst turns (cluster_link g envs clks) n s = Some (rs, s1) \<and>
    (\<forall>i<n. map snd (filter (\<lambda>x. fst x = i) rs) = [Inr None, Inr (Some (burst_value i, True)), Inr None]) \<and>
    cl_lookup R book (se_world s1) = cl_lookup R book (se_world s) |` (- (burst_key n ` {..<n})) \<and> session_ok R book K conf s1"
proof -
  let ?xs = "burst_calls turns n" and ?m = "stored R book s"
  have key: "plain_key (burst_key n i)" "valid_utf8 (burst_value i)" "burst_value i \<noteq> []" for i
  proof -
    have "wordy (burst_key n i)" "burst_key n i \<noteq> []" "wordy (burst_value i)"
      by (simp_all add: burst_key_def burst_value_def word_char_def byte_in_def)
    then show "plain_key (burst_key n i)" "valid_utf8 (burst_value i)" by (simp_all add: wordy_key wordy_valid)
  qed (simp add: burst_value_def)
  have "\<forall>c \<in> set (map snd ?xs). client_key_ok K c"
  proof
    fix c assume "c \<in> set (map snd ?xs)"
    then obtain x where "x \<in> set ?xs" "c = snd x" by auto
    then have "c \<in> set (burst_script n (fst x))" "fst x < n" using burst_calls_key by simp_all
    then show "client_key_ok K c" using assms(3) key by (auto simp: burst_script_def)
  qed
  then obtain s1 where s1: "perform_all (cluster_link g envs clks) (map snd ?xs) s =
      Some (map Inr (fst (map_run (map snd ?xs) ?m)), s1)"
    "stored R book s1 = snd (map_run (map snd ?xs) ?m)" "session_ok R book K conf s1"
    using perform_all_ok [OF assms(1,2)] by metis
  let ?rs = "zip (map fst ?xs) (map Inr (fst (map_run (map snd ?xs) ?m)))"
  have worker: "map snd (filter (\<lambda>x. fst x = i) ?rs) = [Inr None, Inr (Some (burst_value i, True)), Inr None] \<and>
      stored R book s1 (burst_key n i) = None" if "i < n" for i
  proof -
    have "\<forall>x \<in> set ?xs. call_key (snd x) = burst_key n i \<longleftrightarrow> fst x = i" using burst_calls_key(2) by simp
    from map_run_worker [where m = ?m and m' = ?m, OF this refl] burst_calls_worker [OF that]
    have "map snd (filter (\<lambda>x. fst x = i) (zip (map fst ?xs) (fst (map_run (map snd ?xs) ?m)))) = [None, Some (burst_value i, True), None]"
      "stored R book s1 (burst_key n i) = None"
      by (simp_all add: burst_script_def found_answer_def s1(2) comp_def)
    moreover have "map snd (filter (\<lambda>x. fst x = i) ?rs) =
        map Inr (map snd (filter (\<lambda>x. fst x = i) (zip (map fst ?xs) (fst (map_run (map snd ?xs) ?m)))))"
      by (simp add: zip_map2 filter_map comp_def split_beta)
    ultimately show ?thesis by simp
  qed
  have "stored R book s1 k = (?m |` (- (burst_key n ` {..<n}))) k" for k
  proof (cases "k \<in> burst_key n ` {..<n}")
    case True
    then show ?thesis using worker by auto
  next
    case False
    then have "k \<notin> call_key ` set (map snd ?xs)" using burst_calls_key(1,2) by force
    then show ?thesis using False s1(2) map_run_other by simp
  qed
  then show ?thesis using s1 worker by (auto simp: burst_def)
qed

section \<open>The long run\<close>

text \<open>No error has been counted, and the totals are the sums over the workers that have returned.\<close>

definition lr_clean :: "'w longrun \<Rightarrow> bool" where
  "lr_clean st \<longleftrightarrow> length (lr_workers st) = 5 \<and> (\<forall>wk \<in> set (lr_workers st). lr_errors wk = 0) \<and> totalErrors st = 0 \<and>
     totalOps st = (\<Sum>wk \<leftarrow> filter (\<lambda>wk. lr_phase wk = Returned) (lr_workers st). lr_ops wk)"

text \<open>The turns that a worker still needs after the channel has been closed.\<close>

fun turns_left :: "lr_phase \<Rightarrow> nat" where
  "turns_left Returned = 0"
| "turns_left AtTop = 1"
| "turns_left AtDelete = 2"
| "turns_left AtGet = 3"

lemma sum_list_update:
  fixes f :: "'a \<Rightarrow> nat"
  assumes "i < length xs" "\<not> P (xs ! i)"
  shows "(\<Sum>x \<leftarrow> filter P (xs[i := y]). f x) = (\<Sum>x \<leftarrow> filter P xs. f x) + (if P y then f y else 0)"
proof -
  have "xs = take i xs @ xs ! i # drop (Suc i) xs" using assms(1) by (simp add: id_take_nth_drop)
  then have "filter P xs = filter P (take i xs) @ filter P (drop (Suc i) xs)" using assms(2) by (metis filter.simps(2) filter_append)
  then show ?thesis using assms(1) by (simp add: upd_conv_take_nth_drop)
qed

lemma lr_clean_turn:
  assumes "lr_clean st" "i < 5" "lr_phase (lr_workers st ! i) \<noteq> Returned"
  shows "lr_clean (st\<lparr> lr_workers := (lr_workers st)[i := lr_next True (lr_workers st ! i)], lr_session := s1 \<rparr>)"
    "lr_clean (st\<lparr> totalOps := totalOps st + lr_ops (lr_workers st ! i), totalErrors := totalErrors st + lr_errors (lr_workers st ! i),
       lr_workers := (lr_workers st)[i := (lr_workers st ! i)\<lparr> lr_phase := Returned \<rparr>] \<rparr>)"
proof -
  have i: "i < length (lr_workers st)" using assms(1,2) by (simp add: lr_clean_def)
  have e: "lr_errors (lr_workers st ! i) = 0" using assms(1) i by (simp add: lr_clean_def)
  then have n: "lr_errors (lr_next True (lr_workers st ! i)) = 0" "lr_phase (lr_next True (lr_workers st ! i)) \<noteq> Returned"
    using assms(3) by (auto simp: lr_next_def split: lr_phase.splits)
  have "set ((lr_workers st)[i := x]) \<subseteq> insert x (set (lr_workers st))" for x by (rule set_update_subset_insert)
  then have z: "\<forall>wk \<in> set ((lr_workers st)[i := x]). lr_errors wk = 0" if "lr_errors x = 0" for x
    using assms(1) that unfolding lr_clean_def by blast
  note up = sum_list_update [where P = "\<lambda>wk. lr_phase wk = Returned" and f = lr_ops, OF i assms(3)]
  show "lr_clean (st\<lparr> lr_workers := (lr_workers st)[i := lr_next True (lr_workers st ! i)], lr_session := s1 \<rparr>)"
    using assms(1) up [of "lr_next True (lr_workers st ! i)"] z [OF n(1)] n(2) by (simp add: lr_clean_def)
  show "lr_clean (st\<lparr> totalOps := totalOps st + lr_ops (lr_workers st ! i), totalErrors := totalErrors st + lr_errors (lr_workers st ! i),
       lr_workers := (lr_workers st)[i := (lr_workers st ! i)\<lparr> lr_phase := Returned \<rparr>] \<rparr>)"
    using assms(1) up [of "(lr_workers st ! i)\<lparr> lr_phase := Returned \<rparr>"] z [of "(lr_workers st ! i)\<lparr> lr_phase := Returned \<rparr>"] e
    by (simp add: lr_clean_def)
qed

definition lr_ok :: "dist_cache \<Rightarrow> (string \<rightharpoonup> string) \<Rightarrow> string set \<Rightarrow> client_config \<Rightarrow> nat \<Rightarrow> cluster longrun \<Rightarrow> bool" where
  "lr_ok R book K conf N st \<longleftrightarrow> lr_clean st \<and> session_ok R book K conf (lr_session st) \<and> (\<forall>wk \<in> set (lr_workers st). lr_ops wk \<le> N)"

lemma lr_turn_ok:
  assumes g: "gin_ok g" and ok: "lr_ok R book K conf N st" and K: "\<forall>i < 5. \<forall>j \<le> N. longrun_key i j \<in> K"
  obtains st1 where "longrun_turn (cluster_link g envs clks) i st = Some st1" "lr_ok R book K conf (Suc N) st1"
    "lr_stopped st1 = lr_stopped st"
    "lr_stopped st \<longrightarrow> (\<forall>j < 5. turns_left (lr_phase (lr_workers st1 ! j)) =
       turns_left (lr_phase (lr_workers st ! j)) - (if j = i then 1 else 0))"
proof -
  let ?wk = "lr_workers st ! i"
  have c: "lr_clean st" "session_ok R book K conf (lr_session st)" "\<forall>wk \<in> set (lr_workers st). lr_ops wk \<le> N"
    using ok by (simp_all add: lr_ok_def)
  have len: "length (lr_workers st) = 5" using c(1) by (simp add: lr_clean_def)
  have more: "lr_ok R book K conf (Suc N) st" using c by (auto simp: lr_ok_def)
  have upd: "\<forall>wk \<in> set ((lr_workers st)[i := x]). lr_ops wk \<le> Suc N" if "lr_ops x \<le> Suc N" for x
    using set_update_subset_insert [of "lr_workers st" i x] c(3) that by fastforce
  show thesis
  proof (cases "i < 5")
    case False
    then show ?thesis using more len by (intro that [of st]) (auto simp: longrun_turn_def)
  next
    case i: True
    have ops: "lr_ops ?wk \<le> N" using c(3) i len by simp
    show ?thesis
    proof (cases "lr_phase ?wk = Returned")
      case True
      then show ?thesis using more i len by (intro that [of st]) (auto simp: longrun_turn_def)
    next
      case busy: False
      note cl = lr_clean_turn [OF c(1) i busy]
      show ?thesis
      proof (cases "lr_phase ?wk = AtTop \<and> lr_stopped st")
        case True
        then show ?thesis
          using cl(2) c(2) upd [of "?wk\<lparr> lr_phase := Returned \<rparr>"] ops busy i len
          by (intro that [OF _ _ _ impI]) (auto simp: longrun_turn_def Let_def lr_ok_def nth_list_update)
      next
        case False
        have "wordy (longrun_key i (lr_ops ?wk))" "longrun_key i (lr_ops ?wk) \<noteq> []" "wordy (''value_'' @ Itoa (lr_ops ?wk))"
          by (simp_all add: longrun_key_def word_char_def byte_in_def)
        then have "client_key_ok K (lr_call i ?wk)"
          using K i ops wordy_key wordy_valid by (auto simp: lr_call_def Let_def split: lr_phase.splits)
        then obtain s1 where s1: "perform (cluster_link g envs clks) (lr_call i ?wk) (lr_session st) =
            Some (Inr (fst (map_step (lr_call i ?wk) (stored R book (lr_session st)))), s1)" "session_ok R book K conf s1"
          using perform_ok [OF g c(2)] by metis
        have "lr_ops (lr_next True ?wk) \<le> Suc N" using ops by (auto simp: lr_next_def split: lr_phase.splits)
        note u = upd [OF this]
        let ?st = "st\<lparr> lr_workers := (lr_workers st)[i := lr_next True ?wk], lr_session := s1 \<rparr>"
        have "longrun_turn (cluster_link g envs clks) i st = Some ?st"
          using False busy i len s1(1) by (auto simp: longrun_turn_def Let_def succeeded_def)
        moreover have "lr_ok R book K conf (Suc N) ?st" using cl(1) u s1(2) by (simp add: lr_ok_def)
        moreover have "lr_stopped st \<longrightarrow> turns_left (lr_phase (lr_next True ?wk)) = turns_left (lr_phase ?wk) - 1"
          using False busy by (auto simp: lr_next_def split: lr_phase.splits)
        ultimately show ?thesis using i len by (intro that [of ?st]) (auto simp: nth_list_update)
      qed
    qed
  qed
qed

lemma lr_events_ok:
  assumes "gin_ok g" "lr_ok R book K conf N st" "\<forall>i < 5. \<forall>j \<le> N + length es. longrun_key i j \<in> K"
  obtains st1 where "longrun_events (cluster_link g envs clks) es st = Some st1" "lr_ok R book K conf (N + length es) st1"
proof -
  have "\<exists>st1. longrun_events (cluster_link g envs clks) es st = Some st1 \<and> lr_ok R book K conf (N + length es) st1"
    using assms(2,3)
  proof (induction es arbitrary: st N)
    case (Cons e es)
    have K: "\<forall>i < 5. \<forall>j \<le> N. longrun_key i j \<in> K" "\<forall>i < 5. \<forall>j \<le> Suc N + length es. longrun_key i j \<in> K"
      using Cons.prems(2) by simp_all
    obtain st1 where st1: "longrun_event (cluster_link g envs clks) e st = Some st1" "lr_ok R book K conf (Suc N) st1"
    proof (cases e)
      case (Turn i)
      then show ?thesis using that lr_turn_ok [OF assms(1) Cons.prems(1) K(1), of envs clks i] by auto
    next
      case Close
      have "lr_ok R book K conf (Suc N) (st\<lparr> lr_stopped := True \<rparr>)"
        using Cons.prems(1) by (auto simp: lr_ok_def lr_clean_def)
      then show ?thesis using that Close by simp
    qed
    from Cons.IH [OF st1(2) K(2)] show ?case using st1(1) by auto
  qed simp
  then show thesis using that by blast
qed

text \<open>After the channel has been closed three turns are enough for every worker.\<close>

lemma lr_stops:
  assumes "gin_ok g" "lr_ok R book K conf N st" "\<forall>i < 5. \<forall>j \<le> N + length turns. longrun_key i j \<in> K" "lr_stopped st"
  obtains st1 where "longrun_events (cluster_link g envs clks) (map Turn turns) st = Some st1" "lr_ok R book K conf (N + length turns) st1"
    "\<forall>j < 5. turns_left (lr_phase (lr_workers st1 ! j)) = turns_left (lr_phase (lr_workers st ! j)) - count_list turns j"
proof -
  have "\<exists>st1. longrun_events (cluster_link g envs clks) (map Turn turns) st = Some st1 \<and> lr_ok R book K conf (N + length turns) st1 \<and>
      (\<forall>j < 5. turns_left (lr_phase (lr_workers st1 ! j)) = turns_left (lr_phase (lr_workers st ! j)) - count_list turns j)"
    using assms(2-4)
  proof (induction turns arbitrary: st N)
    case (Cons i turns)
    have K: "\<forall>i < 5. \<forall>j \<le> N. longrun_key i j \<in> K" "\<forall>i < 5. \<forall>j \<le> Suc N + length turns. longrun_key i j \<in> K"
      using Cons.prems(2) by simp_all
    obtain st1 where st1: "longrun_turn (cluster_link g envs clks) i st = Some st1" "lr_ok R book K conf (Suc N) st1" "lr_stopped st1"
      "\<forall>j < 5. turns_left (lr_phase (lr_workers st1 ! j)) = turns_left (lr_phase (lr_workers st ! j)) - (if j = i then 1 else 0)"
      using lr_turn_ok [OF assms(1) Cons.prems(1) K(1), of envs clks i] Cons.prems(3) by metis
    from Cons.IH [OF st1(2) K(2) st1(3)] show ?case using st1(1,4) by auto
  qed simp
  then show thesis using that by blast
qed

lemma longrun_events_append:
  "longrun_events link (es @ es') st = Option.bind (longrun_events link es st) (longrun_events link es')"
  by (induction es arbitrary: st) (auto split: Option.bind_split)

text \<open>C19: on a consistent cluster whose processes all answer and whose caches have room for every key the run writes, the long
  run ends, without any error: however the workers are interleaved before the channel is closed, three more turns of each let all of
  them return, the totals then count every completed round, no error is reported, and the verdict is the best one as soon as one
  round was completed.\<close>

theorem longrun_stable:
  assumes "gin_ok g" "session_ok R book K conf s"
    and "\<forall>i < 5. \<forall>j \<le> length es + length turns + 1. longrun_key i j \<in> K" "\<forall>i < 5. 3 \<le> count_list turns i"
  shows "\<exists>ops s1. testLongRunning (es @ Close # map Turn turns) (cluster_link g envs clks) s =
      Some (ops, 0, if ops = 0 then NeedsWork else Excellent, s1) \<and> session_ok R book K conf s1"
proof -
  let ?link = "cluster_link g envs clks"
  have start: "lr_ok R book K conf 0 (longrun_start s)"
    using assms(2) by (simp add: lr_ok_def lr_clean_def longrun_start_def numeral_eq_Suc)
  have "\<forall>i < 5. \<forall>j \<le> 0 + length (es @ [Close]). longrun_key i j \<in> K" using assms(3) by simp
  then obtain st1 where st1: "longrun_events ?link (es @ [Close]) (longrun_start s) = Some st1" "lr_ok R book K conf (0 + length (es @ [Close])) st1"
    by (rule lr_events_ok [OF assms(1) start])
  then have stopped: "lr_stopped st1" by (auto simp: longrun_events_append bind_Some_iff)
  have K: "\<forall>i < 5. \<forall>j \<le> 0 + length (es @ [Close]) + length turns. longrun_key i j \<in> K" using assms(3) by simp
  obtain st2 where st2: "longrun_events ?link (map Turn turns) st1 = Some st2" "lr_ok R book K conf (0 + length (es @ [Close]) + length turns) st2"
    "\<forall>j < 5. turns_left (lr_phase (lr_workers st2 ! j)) = turns_left (lr_phase (lr_workers st1 ! j)) - count_list turns j"
    by (rule lr_stops [OF assms(1) st1(2) K stopped])
  have clean: "lr_clean st2" "session_ok R book K conf (lr_session st2)" using st2(2) by (simp_all add: lr_ok_def)
  have le: "turns_left p \<le> 3" for p by (cases p) simp_all
  have "turns_left (lr_phase (lr_workers st2 ! j)) = 0" if "j < 5" for j
    using st2(3) assms(4) that le [of "lr_phase (lr_workers st1 ! j)"] by (simp add: le_trans)
  moreover have "p = Returned" if "turns_left p = 0" for p using that by (cases p) simp_all
  ultimately have "lr_finished st2"
    using clean(1) by (auto simp: lr_finished_def lr_clean_def in_set_conv_nth)
  moreover have "longrun_events ?link (es @ Close # map Turn turns) (longrun_start s) = Some st2"
    using st1(1) st2(1) by (auto simp: longrun_events_append bind_Some_iff)
  moreover have "totalErrors st2 = 0" using clean(1) by (simp add: lr_clean_def)
  ultimately show ?thesis using clean(2) by (simp add: testLongRunning_def longrun_verdict_def)
qed

section \<open>Latencies\<close>

lemma sdiv_between:
  fixes n :: int
  assumes "0 < n" "n * lo \<le> t" "t \<le> n * hi"
  shows "lo \<le> t sdiv n \<and> t sdiv n \<le> hi"
proof (cases "0 \<le> t")
  case True
  then have "t sdiv n = t div n" using assms(1) by (simp add: signed_divide_int_def sgn_if)
  moreover have "n * lo div n \<le> t div n" "t div n \<le> n * hi div n"
    using assms by (intro zdiv_mono1; simp)+
  ultimately show ?thesis using assms(1) by simp
next
  case False
  then have "t sdiv n = - (- t div n)" using assms(1) by (simp add: signed_divide_int_def sgn_if)
  moreover have "n * (- hi) div n \<le> - t div n" "- t div n \<le> n * (- lo) div n"
    using assms by (intro zdiv_mono1; simp)+
  moreover have "n * (- hi) div n = - hi" "n * (- lo) div n = - lo"
    using assms(1) by (intro nonzero_mult_div_cancel_left; simp)+
  ultimately show ?thesis by linarith
qed

lemma sum_list_between:
  "(\<And>x. x \<in> set xs \<Longrightarrow> lo \<le> x \<and> x \<le> (hi :: int)) \<Longrightarrow> int (length xs) * lo \<le> sum_list xs \<and> sum_list xs \<le> int (length xs) * hi"
  by (induction xs) (auto simp: algebra_simps intro: add_mono)

lemma latency_fold:
  "fold latency_step xs (tot, lo, hi) = (tot + sum_list xs, fold min xs lo, fold max xs hi)"
  by (induction xs arbitrary: tot lo hi) (auto simp: latency_step_def min_def max_def)

lemma fold_min_max:
  fixes lo hi :: int
  shows "fold min xs lo \<le> lo" "x \<in> set xs \<Longrightarrow> fold min xs lo \<le> x" "hi \<le> fold max xs hi" "x \<in> set xs \<Longrightarrow> x \<le> fold max xs hi"
proof -
  have "fold min xs lo = Min (insert lo (set xs))" "fold max xs hi = Max (insert hi (set xs))"
    by (simp_all add: Min.set_eq_fold Max.set_eq_fold flip: list.set(2))
  then show "fold min xs lo \<le> lo" "x \<in> set xs \<Longrightarrow> fold min xs lo \<le> x" "hi \<le> fold max xs hi" "x \<in> set xs \<Longrightarrow> x \<le> fold max xs hi"
    by simp_all
qed

text \<open>All three averages lie between the least and the greatest latency.\<close>

lemma latency_report_bounds:
  assumes "10 \<le> length ls"
  shows "let r = latency_analysis ls in
    \<forall>avg \<in> {lat_avg r, lat_first r, lat_last r}. lat_min r \<le> avg \<and> avg \<le> lat_max r"
proof -
  let ?lo = "fold min ls (ls ! 0)" and ?hi = "fold max ls (ls ! 0)"
  have avg: "?lo \<le> sum_list xs sdiv int (length xs) \<and> sum_list xs sdiv int (length xs) \<le> ?hi"
    if "set xs \<subseteq> set ls" "xs \<noteq> []" for xs
  proof (rule sdiv_between)
    have "int (length xs) * ?lo \<le> sum_list xs \<and> sum_list xs \<le> int (length xs) * ?hi"
      using that(1) fold_min_max(2,4) by (intro sum_list_between) blast
    then show "int (length xs) * ?lo \<le> sum_list xs" "sum_list xs \<le> int (length xs) * ?hi" by simp_all
  qed (use that in simp)
  have "ls \<noteq> []" using assms by auto
  then have "?lo \<le> sum_list ls sdiv int (length ls) \<and> sum_list ls sdiv int (length ls) \<le> ?hi" using avg [of ls] by simp
  moreover have "set (map ((!) ls) [0..<10]) \<subseteq> set ls" "set (map (\<lambda>i. ls ! (length ls - 10 + i)) [0..<10]) \<subseteq> set ls"
    using assms by auto
  note avg [OF this(1)] avg [OF this(2)]
  ultimately show ?thesis by (simp add: latency_analysis_def latency_fold Let_def del: upt_rec_numeral)
qed

section \<open>Concrete schedules\<close>

theorem burst_isolated_witness:
  "\<exists>c rs s1. burst [1, 0, 1, 0, 0, 1] demo_link 2 (demo_session c) = Some (rs, s1) \<and>
    map snd (filter (\<lambda>x. fst x = 0) rs) = [Inr None, Inr (Some (''burst_value_0'', True)), Inr None] \<and>
    map snd (filter (\<lambda>x. fst x = 1) rs) = [Inr None, Inr (Some (''burst_value_1'', True)), Inr None]"
proof -
  have v: "burst_value 0 = ''burst_value_0''" "burst_value 1 = ''burst_value_1''" by code_simp+
  have "finite (burst_key 2 ` {..<2})" "card (burst_key 2 ` {..<2}) \<le> 5"
    using card_image_le [of "{..<2}" "burst_key 2"] by simp_all
  then obtain c conf where "session_ok demo_ring demo_book (burst_key 2 ` {..<2}) conf (demo_session c)"
    by (rule demo_run) simp
  note main = burst_isolated [OF ref_gin_ok this subset_refl, of "[1, 0, 1, 0, 0, 1]" "\<lambda>_. demo_env" "\<lambda>_ _. 0"]
  then obtain rs s1 where r: "burst [1, 0, 1, 0, 0, 1] demo_link 2 (demo_session c) = Some (rs, s1)"
    "\<forall>i<2. map snd (filter (\<lambda>x. fst x = i) rs) = [Inr None, Inr (Some (burst_value i, True)), Inr None]"
    unfolding demo_link_def by blast
  have "0 < (2 :: nat)" "1 < (2 :: nat)" by simp_all
  from r(2)[rule_format, OF this(1)] r(2)[rule_format, OF this(2)] show ?thesis
    using r(1) unfolding v by (intro exI [of _ c] exI [of _ rs] exI [of _ s1]) simp
qed

theorem longrun_stable_witness:
  "\<exists>c ops s1. testLongRunning ([Turn 0, Turn 3] @ Close # map Turn (concat (replicate 3 [0, 1, 2, 3, 4]))) demo_link (demo_session c) =
    Some (ops, 0, if ops = 0 then NeedsWork else Excellent, s1)"
proof -
  let ?K = "(\<lambda>(i, j). longrun_key i j) ` ({..<5} \<times> {..<20})"
  have "finite ?K" "card ?K \<le> 100"
    using card_image_le [of "{..<5 :: nat} \<times> {..<20 :: nat}" "\<lambda>(i, j). longrun_key i j"] by simp_all
  then obtain c conf where s: "session_ok demo_ring demo_book ?K conf (demo_session c)"
    by (rule demo_run) simp
  have K: "\<forall>i < 5. \<forall>j \<le> length [Turn 0, Turn 3] + length (concat (replicate 3 [0, 1, 2, 3, 4 :: nat])) + 1. longrun_key i j \<in> ?K"
    by (auto simp: numeral_eq_Suc intro!: image_eqI [where x = "(_, _)"])
  have turns: "\<forall>i < 5. 3 \<le> count_list (concat (replicate 3 [0, 1, 2, 3, 4 :: nat])) i" by code_simp
  show ?thesis
    using longrun_stable [OF ref_gin_ok s K turns, of "\<lambda>_. demo_env" "\<lambda>_ _. 0"] unfolding demo_link_def by blast
qed

end
