(* ===== verification/Client_Phases.thy ===== *)
theory Client_Phases
  imports Client_Session
begin

text \<open>
  The data phases of the test program find everything they wrote.
\<close>

section \<open>The data phases\<close>













lemma count_all [simp]: "count P (map f xs) = length xs" if "\<And>x. x \<in> set xs \<Longrightarrow> P (f x)"
  using that by (induction xs) (auto simp: count_def)












end
