(* ===== verification/Migration_Tracker.thy ===== *)
theory Migration_Tracker
  imports Sha1
begin

text \<open>
  \<open>monitoring/migration_tracker.go\<close>: the record of every key migration and of the running migration
  sessions. The map \<open>migrations\<close> and the record maps of the sessions hold pointers to the same
  \<open>MigrationRecord\<close> objects, so the records live in a store and the maps hold addresses; the sessions
  themselves are only reachable from the tracker. Times are arguments, one per reading of the clock.
\<close>

section \<open>State\<close>

datatype migration_status = Pending | InProgress | Completed | MigFailed | RolledBack

datatype session_status = SessionActive | SessionCompleted | SessionFailed | SessionAborted

record hash_decision =
  KeyHash :: uint32
  OldResponsible :: string
  NewResponsible :: string
  HashRingBefore :: string
  HashRingAfter :: string
  DecisionReason :: string

record validation_info =
  PreMigrationExists :: bool
  PostMigrationExists :: bool
  ValueMatches :: bool
  ChecksumBefore :: string
  ChecksumAfter :: string
  ValidationTime :: "go_time option"

record performance_info =
  NetworkLatency :: duration
  SerializationTime :: duration
  StorageWriteTime :: duration
  TotalDataSize :: int
  Throughput :: rat

record migration_record =
  mr_ID :: string
  mr_Key :: string
  SourceNode :: string
  TargetNode :: string
  mr_Reason :: string
  mr_Status :: migration_status
  mr_StartTime :: go_time
  mr_EndTime :: "go_time option"
  mr_Duration :: duration
  mr_Error :: string
  HashDecision :: hash_decision
  Validation :: validation_info
  Performance :: performance_info

record migration_session =
  ms_ID :: string
  ms_Type :: string
  TriggerNode :: string
  ms_StartTime :: go_time
  ms_EndTime :: "go_time option"
  TotalRecords :: int
  CompletedRecords :: int
  FailedRecords :: int
  Records :: "string \<rightharpoonup> nat"
  ms_Status :: session_status

record tracker =
  mt_store :: "migration_record list"
  migrations :: "string \<rightharpoonup> nat"
  activeMigrations :: "string \<rightharpoonup> migration_session"
  completedCount :: int
  failedCount :: int

record migration_statistics =
  TotalMigrations :: int
  CompletedMigrations :: int
  FailedMigrations :: int
  ActiveSessions :: int
  SuccessRate :: rat
  AverageDuration :: duration

definition no_decision :: hash_decision where
  "no_decision = \<lparr> KeyHash = 0, OldResponsible = [], NewResponsible = [], HashRingBefore = [],
     HashRingAfter = [], DecisionReason = [] \<rparr>"

definition no_validation :: validation_info where
  "no_validation = \<lparr> PreMigrationExists = False, PostMigrationExists = False, ValueMatches = False,
     ChecksumBefore = [], ChecksumAfter = [], ValidationTime = None \<rparr>"

definition no_performance :: performance_info where
  "no_performance = \<lparr> NetworkLatency = 0, SerializationTime = 0, StorageWriteTime = 0, TotalDataSize = 0,
     Throughput = 0 \<rparr>"

definition NewMigrationTracker :: tracker where
  "NewMigrationTracker = \<lparr> mt_store = [], migrations = Map.empty, activeMigrations = Map.empty,
     completedCount = 0, failedCount = 0 \<rparr>"

section \<open>Sessions\<close>

definition format_int :: "int \<Rightarrow> string" where
  "format_int i = (if i < 0 then ''-'' @ Itoa (nat (- i)) else Itoa (nat i))"

definition session_id :: "go_time \<Rightarrow> string \<Rightarrow> string" where
  "session_id now sessionType = ''session_'' @ format_int now @ ''_'' @ sessionType"

definition migration_id :: "go_time \<Rightarrow> string \<Rightarrow> string" where
  "migration_id now key = ''mig_'' @ format_int now @ ''_'' @ key"

definition StartMigrationSession :: "go_time \<Rightarrow> go_time \<Rightarrow> string \<Rightarrow> string \<Rightarrow> tracker \<Rightarrow> string \<times> tracker" where
  "StartMigrationSession now now2 sessionType triggerNode mt =
     (let sessionID = session_id now sessionType;
          session = \<lparr> ms_ID = sessionID, ms_Type = sessionType, TriggerNode = triggerNode,
            ms_StartTime = now2, ms_EndTime = None, TotalRecords = 0, CompletedRecords = 0,
            FailedRecords = 0, Records = Map.empty, ms_Status = SessionActive \<rparr>
      in (sessionID, mt\<lparr> activeMigrations := (activeMigrations mt)(sessionID \<mapsto> session) \<rparr>))"

text \<open>The counters of the session that ends; \<open>order\<close> is the order in which its records are visited.\<close>

definition close_session :: "go_time \<Rightarrow> session_status \<Rightarrow> string list \<Rightarrow> migration_record list \<Rightarrow> migration_session \<Rightarrow> migration_session" where
  "close_session now status order store session =
     (let statuses = map (\<lambda>p. mr_Status (store ! p)) (List.map_filter (Records session) order)
      in session\<lparr> ms_EndTime := Some now, ms_Status := status,
           CompletedRecords := CompletedRecords session + int (count_list statuses Completed),
           FailedRecords := FailedRecords session + int (count_list statuses MigFailed),
           TotalRecords := map_len (Records session) \<rparr>)"

text \<open>The closed session is dropped from the map of active sessions, and nothing else refers to it.\<close>

definition EndMigrationSession ::
  "go_time \<Rightarrow> string list \<Rightarrow> string \<Rightarrow> session_status \<Rightarrow> tracker \<Rightarrow> migration_session option \<times> tracker" where
  "EndMigrationSession now order sessionID status mt =
     (case activeMigrations mt sessionID of
        None \<Rightarrow> (None, mt)
      | Some session \<Rightarrow>
          (Some (close_session now status order (mt_store mt) session),
           mt\<lparr> activeMigrations := (activeMigrations mt)(sessionID := None) \<rparr>))"

section \<open>Records\<close>

definition new_migration_record :: "go_time \<Rightarrow> string \<Rightarrow> string \<Rightarrow> string \<Rightarrow> string \<Rightarrow> string \<Rightarrow> migration_record" where
  "new_migration_record now migrationID key sourceNode targetNode reason =
     \<lparr> mr_ID = migrationID, mr_Key = key, SourceNode = sourceNode, TargetNode = targetNode,
       mr_Reason = reason, mr_Status = Pending, mr_StartTime = now, mr_EndTime = None, mr_Duration = 0,
       mr_Error = [], HashDecision = no_decision, Validation = no_validation, Performance = no_performance \<rparr>"

definition TrackMigration ::
  "go_time \<Rightarrow> go_time \<Rightarrow> string \<Rightarrow> string \<Rightarrow> string \<Rightarrow> string \<Rightarrow> string \<Rightarrow> tracker \<Rightarrow> string \<times> tracker" where
  "TrackMigration now now2 sessionID key sourceNode targetNode reason mt =
     (let migrationID = migration_id now key;
          record = new_migration_record now2 migrationID key sourceNode targetNode reason;
          p = length (mt_store mt);
          mt1 = mt\<lparr> mt_store := mt_store mt @ [record], migrations := (migrations mt)(migrationID \<mapsto> p) \<rparr>
      in (migrationID,
          case activeMigrations mt1 sessionID of
            None \<Rightarrow> mt1
          | Some session \<Rightarrow> mt1\<lparr> activeMigrations := (activeMigrations mt1)(sessionID \<mapsto>
              session\<lparr> Records := (Records session)(migrationID \<mapsto> p) \<rparr>) \<rparr>))"

text \<open>Writing through the pointer of a known record.\<close>

definition update_record :: "string \<Rightarrow> (migration_record \<Rightarrow> migration_record) \<Rightarrow> tracker \<Rightarrow> tracker" where
  "update_record migrationID f mt =
     (case migrations mt migrationID of
        None \<Rightarrow> mt
      | Some p \<Rightarrow> mt\<lparr> mt_store := (mt_store mt)[p := f (mt_store mt ! p)] \<rparr>)"

definition terminal :: "migration_status \<Rightarrow> bool" where
  "terminal status \<longleftrightarrow> status = Completed \<or> status = MigFailed"

definition new_status_of :: "go_time \<Rightarrow> migration_status \<Rightarrow> string \<Rightarrow> migration_record \<Rightarrow> migration_record" where
  "new_status_of now status errorMsg rc =
     (let rc1 = rc\<lparr> mr_Status := status \<rparr>;
          rc2 = (if terminal status then rc1\<lparr> mr_EndTime := Some now, mr_Duration := now - mr_StartTime rc1 \<rparr> else rc1)
      in if errorMsg \<noteq> [] then rc2\<lparr> mr_Error := errorMsg \<rparr> else rc2)"

definition UpdateMigrationStatus :: "go_time \<Rightarrow> string \<Rightarrow> migration_status \<Rightarrow> string \<Rightarrow> tracker \<Rightarrow> tracker" where
  "UpdateMigrationStatus now migrationID status errorMsg mt =
     (case migrations mt migrationID of
        None \<Rightarrow> mt
      | Some p \<Rightarrow>
          let mt1 = update_record migrationID (new_status_of now status errorMsg) mt in
          if status = Completed then mt1\<lparr> completedCount := completedCount mt1 + 1 \<rparr>
          else if status = MigFailed then mt1\<lparr> failedCount := failedCount mt1 + 1 \<rparr>
          else mt1)"

definition RecordHashDecision :: "string \<Rightarrow> hash_decision \<Rightarrow> tracker \<Rightarrow> tracker" where
  "RecordHashDecision migrationID decision mt = update_record migrationID (\<lambda>r. r\<lparr> HashDecision := decision \<rparr>) mt"

definition RecordValidation :: "string \<Rightarrow> validation_info \<Rightarrow> tracker \<Rightarrow> tracker" where
  "RecordValidation migrationID validation mt = update_record migrationID (\<lambda>r. r\<lparr> Validation := validation \<rparr>) mt"

definition RecordPerformance :: "string \<Rightarrow> performance_info \<Rightarrow> tracker \<Rightarrow> tracker" where
  "RecordPerformance migrationID performance mt = update_record migrationID (\<lambda>r. r\<lparr> Performance := performance \<rparr>) mt"

section \<open>Observers\<close>

definition GetMigrationRecord :: "string \<Rightarrow> tracker \<Rightarrow> migration_record option" where
  "GetMigrationRecord migrationID mt = map_option (\<lambda>p. mt_store mt ! p) (migrations mt migrationID)"

definition GetActiveSessions :: "tracker \<Rightarrow> (string \<rightharpoonup> migration_session)" where
  "GetActiveSessions mt = activeMigrations mt"

text \<open>\<open>order\<close> is the order in which \<open>range mt.migrations\<close> yields the identifiers.\<close>

definition all_records :: "string list \<Rightarrow> tracker \<Rightarrow> migration_record list" where
  "all_records order mt = map (\<lambda>p. mt_store mt ! p) (List.map_filter (migrations mt) order)"

definition GetMigrationsByKey :: "string list \<Rightarrow> string \<Rightarrow> tracker \<Rightarrow> migration_record list" where
  "GetMigrationsByKey order key mt = filter (\<lambda>r. mr_Key r = key) (all_records order mt)"

definition GetFailedMigrations :: "string list \<Rightarrow> tracker \<Rightarrow> migration_record list" where
  "GetFailedMigrations order mt = filter (\<lambda>r. mr_Status r = MigFailed) (all_records order mt)"

definition mt_GetStatistics :: "string list \<Rightarrow> tracker \<Rightarrow> migration_statistics" where
  "mt_GetStatistics order mt =
     (let total = map_len (migrations mt);
          timed = filter (\<lambda>r. mr_Status r = Completed \<and> mr_Duration r > 0) (all_records order mt)
      in \<lparr> TotalMigrations = total, CompletedMigrations = completedCount mt, FailedMigrations = failedCount mt,
           ActiveSessions = map_len (activeMigrations mt),
           SuccessRate = (if total > 0 then of_int (completedCount mt) / of_int total * 100 else 0),
           AverageDuration = (if timed = [] then 0 else sum_list (map mr_Duration timed) div int (length timed)) \<rparr>)"

section \<open>Failure report\<close>

datatype recommendation = HighFrequency string int | MediumFrequency string int | Occasional string int | NoFailures

record failure_report =
  GeneratedAt :: go_time
  fr_FailedRecords :: "migration_record list"
  FailureReasons :: "string \<rightharpoonup> int"
  Recommendations :: "recommendation list"

definition recommend :: "(string \<rightharpoonup> int) \<Rightarrow> string \<Rightarrow> recommendation" where
  "recommend reasons reason =
     (let count = (case reasons reason of None \<Rightarrow> 0 | Some c \<Rightarrow> c) in
      if count > 10 then HighFrequency reason count
      else if count > 5 then MediumFrequency reason count
      else Occasional reason count)"

text \<open>\<open>order\<close> is the order in which the reasons are visited.\<close>

definition generateRecommendations :: "string list \<Rightarrow> (string \<rightharpoonup> int) \<Rightarrow> recommendation list" where
  "generateRecommendations order failureReasons =
     (let recommendations = map (recommend failureReasons) order
      in if recommendations = [] then [NoFailures] else recommendations)"

definition count_reason :: "migration_record \<Rightarrow> (string \<rightharpoonup> int) \<Rightarrow> (string \<rightharpoonup> int)" where
  "count_reason r m =
     (if mr_Error r = [] then m
      else m(mr_Error r \<mapsto> (case m (mr_Error r) of None \<Rightarrow> 0 | Some c \<Rightarrow> c) + 1))"

definition GenerateFailureReport ::
  "go_time \<Rightarrow> string list \<Rightarrow> ((string \<rightharpoonup> int) \<Rightarrow> string list) \<Rightarrow> tracker \<Rightarrow> failure_report" where
  "GenerateFailureReport now order reason_order mt =
     (let failed = GetFailedMigrations order mt;
          reasons = fold count_reason failed Map.empty
      in \<lparr> GeneratedAt = now, fr_FailedRecords = failed, FailureReasons = reasons,
           Recommendations = generateRecommendations (reason_order reasons) reasons \<rparr>)"

end
