(* ===== verification/Tracker_Props.thy ===== *)
theory Tracker_Props
  imports Migration_Tracker
begin

text \<open>
  The counters of the migration tracker. As long as every record gets at most one terminal status, the
  counters are the numbers of completed and failed records and the success rate is a percentage; the
  second terminal update of a record breaks this.
\<close>

section \<open>Well-formed trackers\<close>

text \<open>Different identifiers have different records, and the sessions share them.\<close>

definition tracker_inv :: "tracker \<Rightarrow> bool" where
  "tracker_inv mt \<longleftrightarrow> finite (dom (migrations mt)) \<and> inj_on (migrations mt) (dom (migrations mt)) \<and>
     (\<forall>i p. migrations mt i = Some p \<longrightarrow> p < length (mt_store mt)) \<and>
     (\<forall>s x i p. activeMigrations mt s = Some x \<longrightarrow> Records x i = Some p \<longrightarrow> migrations mt i = Some p)"

definition status_of :: "tracker \<Rightarrow> string \<Rightarrow> migration_status option" where
  "status_of mt i = map_option (\<lambda>p. mr_Status (mt_store mt ! p)) (migrations mt i)"

text \<open>One call; a new migration must get a new identifier and a status that is already terminal is not
  changed any more.\<close>

inductive tracker_step :: "tracker \<Rightarrow> tracker \<Rightarrow> bool" where
  start: "StartMigrationSession t1 t2 ty node mt = (sid, mt') \<Longrightarrow> tracker_step mt mt'"
| finish: "EndMigrationSession now ord sid st mt = (r, mt') \<Longrightarrow> tracker_step mt mt'"
| track: "TrackMigration t1 t2 sid key src tgt reason mt = (i, mt') \<Longrightarrow> i \<notin> dom (migrations mt) \<Longrightarrow>
    tracker_step mt mt'"
| update: "\<forall>s. status_of mt i = Some s \<longrightarrow> \<not> terminal s \<Longrightarrow> tracker_step mt (UpdateMigrationStatus now i st err mt)"
| decision: "tracker_step mt (RecordHashDecision i d mt)"
| validation: "tracker_step mt (RecordValidation i v mt)"
| performance: "tracker_step mt (RecordPerformance i p mt)"

inductive tracked :: "tracker \<Rightarrow> bool" where
  new: "tracked NewMigrationTracker"
| step: "tracked mt \<Longrightarrow> tracker_step mt mt' \<Longrightarrow> tracked mt'"

definition counts_ok :: "tracker \<Rightarrow> bool" where
  "counts_ok mt \<longleftrightarrow>
     completedCount mt = int (card {i. status_of mt i = Some Completed}) \<and>
     failedCount mt = int (card {i. status_of mt i = Some MigFailed})"

lemma update_record_inv:
  assumes "tracker_inv mt"
  shows "tracker_inv (update_record i f mt)"
    "status_of (update_record i f mt) j =
      (if j = i then map_option (\<lambda>p. mr_Status (f (mt_store mt ! p))) (migrations mt i) else status_of mt j)"
proof -
  show "tracker_inv (update_record i f mt)"
    using assms unfolding tracker_inv_def update_record_def by (auto split: option.splits)
  have ne: "p \<noteq> q" if "migrations mt i = Some p" "migrations mt j = Some q" "j \<noteq> i" for p q
    using assms that unfolding tracker_inv_def inj_on_def by (metis domI)
  show "status_of (update_record i f mt) j =
      (if j = i then map_option (\<lambda>p. mr_Status (f (mt_store mt ! p))) (migrations mt i) else status_of mt j)"
  proof (cases "migrations mt i")
    case None
    then show ?thesis by (simp add: update_record_def status_of_def)
  next
    case (Some p)
    then have "p < length (mt_store mt)" using assms by (simp add: tracker_inv_def)
    then show ?thesis using Some ne by (cases "migrations mt j") (auto simp: update_record_def status_of_def)
  qed
qed

lemma update_record_counts [simp]:
  "completedCount (update_record i f mt) = completedCount mt" "failedCount (update_record i f mt) = failedCount mt"
  "migrations (update_record i f mt) = migrations mt"
  by (simp_all add: update_record_def split: option.splits)

text \<open>Writes that keep the status keep everything the counters speak of.\<close>

lemma quiet_update:
  assumes "tracker_inv mt" "counts_ok mt" "\<And>r. mr_Status (f r) = mr_Status r"
  shows "tracker_inv (update_record i f mt)" "counts_ok (update_record i f mt)"
proof -
  have "status_of (update_record i f mt) = status_of mt"
    using update_record_inv(2) [OF assms(1)] assms(3) by (auto simp: fun_eq_iff status_of_def)
  then show "counts_ok (update_record i f mt)" using assms(2) by (simp add: counts_ok_def)
qed (rule update_record_inv(1) [OF assms(1)])

lemma finite_status: "tracker_inv mt \<Longrightarrow> finite {i. status_of mt i = Some s}"
  by (rule finite_subset [of _ "dom (migrations mt)"]) (auto simp: tracker_inv_def status_of_def)

lemma new_status_of_status [simp]: "mr_Status (new_status_of now st err r) = st"
  by (simp add: new_status_of_def Let_def)

lemma status_update_counts:
  assumes inv: "tracker_inv mt" "counts_ok mt" and open_: "\<forall>s. status_of mt i = Some s \<longrightarrow> \<not> terminal s"
  shows "tracker_inv (UpdateMigrationStatus now i st err mt)" "counts_ok (UpdateMigrationStatus now i st err mt)"
proof -
  let ?u = "update_record i (new_status_of now st err) mt"
  show "tracker_inv (UpdateMigrationStatus now i st err mt)"
    using update_record_inv(1) [OF inv(1)] inv(1)
    by (auto simp: UpdateMigrationStatus_def Let_def tracker_inv_def split: option.splits)
  show "counts_ok (UpdateMigrationStatus now i st err mt)"
  proof (cases "migrations mt i")
    case None
    then show ?thesis using inv(2) by (simp add: UpdateMigrationStatus_def)
  next
    case (Some p)
    have s: "status_of ?u j = (if j = i then Some st else status_of mt j)" for j
      using update_record_inv(2) [OF inv(1)] Some by simp
    have was: "status_of mt i \<noteq> Some Completed" "status_of mt i \<noteq> Some MigFailed"
      using open_ by (auto simp: terminal_def)
    have sets: "{j. status_of ?u j = Some x} = (if st = x then insert i {j. status_of mt j = Some x} else {j. status_of mt j = Some x} - {i})" for x
      by (auto simp: s)
    have "status_of (UpdateMigrationStatus now i st err mt) = status_of ?u"
      by (simp add: UpdateMigrationStatus_def Let_def Some status_of_def fun_eq_iff)
    then show ?thesis
      unfolding counts_ok_def using inv(2) was finite_status [OF inv(1)]
      by (simp add: sets UpdateMigrationStatus_def Let_def Some counts_ok_def card_insert_if)
  qed
qed

lemma track_counts:
  assumes inv: "tracker_inv mt" "counts_ok mt"
    and t: "TrackMigration t1 t2 sid key src tgt reason mt = (i, mt')" and fresh: "i \<notin> dom (migrations mt)"
  shows "tracker_inv mt'" "counts_ok mt'"
proof -
  obtain r where r: "mr_Status r = Pending" "mt_store mt' = mt_store mt @ [r]"
    "migrations mt' = (migrations mt)(i \<mapsto> length (mt_store mt))"
    "completedCount mt' = completedCount mt" "failedCount mt' = failedCount mt"
    by (rule that [of "new_migration_record t2 i key src tgt reason"])
      (use t in \<open>auto simp: TrackMigration_def new_migration_record_def Let_def split: option.splits\<close>)
  have sess: "migrations mt' j = Some p" if "activeMigrations mt' s = Some x" "Records x j = Some p" for s x j p
  proof -
    have "activeMigrations mt' s = activeMigrations mt s \<or> (\<exists>y. activeMigrations mt s = Some y \<and>
        activeMigrations mt' s = Some (y\<lparr> Records := (Records y)(i \<mapsto> length (mt_store mt)) \<rparr>))"
      using t by (auto simp: TrackMigration_def Let_def split: option.splits if_splits)
    moreover have "migrations mt k = Some q \<and> k \<noteq> i" if "activeMigrations mt s = Some y" "Records y k = Some q" for y k q
      using that inv(1) fresh unfolding tracker_inv_def by blast
    ultimately show ?thesis
      using that unfolding r(3) by (elim disjE exE conjE) (simp, auto split: if_splits)
  qed
  have old: "p < length (mt_store mt)" if "migrations mt j = Some p" for j p
    using that inv(1) by (simp add: tracker_inv_def)
  have inj: "inj_on (migrations mt') (dom (migrations mt'))"
  proof (rule inj_onI)
    fix a b assume ab: "a \<in> dom (migrations mt')" "b \<in> dom (migrations mt')" "migrations mt' a = migrations mt' b"
    have new: "migrations mt c \<noteq> Some (length (mt_store mt))" for c using old by blast
    show "a = b"
    proof (cases "a = i \<or> b = i")
      case True
      then show ?thesis using ab(3) new [of a] new [of b] unfolding r(3) by (auto split: if_splits)
    next
      case False
      then show ?thesis using ab inv(1) unfolding r(3) tracker_inv_def inj_on_def by simp
    qed
  qed
  show "tracker_inv mt'"
    unfolding tracker_inv_def using inj sess inv(1) old by (auto simp: r tracker_inv_def less_Suc_eq)
  have "status_of mt' j = (if j = i then Some Pending else status_of mt j)" for j
    using old r(1) by (cases "migrations mt j") (auto simp: status_of_def r nth_append)
  moreover have "status_of mt i = None" using fresh by (auto simp: status_of_def)
  ultimately have "{j. status_of mt' j = Some x} = {j. status_of mt j = Some x}" if "x \<noteq> Pending" for x
    using that by auto
  then show "counts_ok mt'" using inv(2) by (simp add: counts_ok_def r(4,5))
qed

lemma start_counts:
  assumes inv: "tracker_inv mt" "counts_ok mt" and t: "StartMigrationSession t1 t2 ty node mt = (sid, mt')"
  shows "tracker_inv mt'" "counts_ok mt'"
  using assms by (auto simp: StartMigrationSession_def Let_def tracker_inv_def counts_ok_def status_of_def split: if_splits)

lemma finish_counts:
  assumes inv: "tracker_inv mt" "counts_ok mt" and t: "EndMigrationSession now ord sid st mt = (r, mt')"
  shows "tracker_inv mt'" "counts_ok mt'"
  using assms by (auto simp: EndMigrationSession_def tracker_inv_def counts_ok_def status_of_def split: option.splits if_splits)

lemma tracked_inv: "tracked mt \<Longrightarrow> tracker_inv mt \<and> counts_ok mt"
proof (induction rule: tracked.induct)
  case new
  then show ?case
    by (simp add: NewMigrationTracker_def tracker_inv_def counts_ok_def status_of_def)
next
  case (step mt mt')
  then have inv: "tracker_inv mt" "counts_ok mt" by simp_all
  from step.hyps(2) show ?case
  proof cases
    case start then show ?thesis using start_counts [OF inv] by blast
  next
    case finish then show ?thesis using finish_counts [OF inv] by blast
  next
    case track then show ?thesis using track_counts [OF inv] by blast
  next
    case update then show ?thesis using status_update_counts [OF inv] by blast
  qed (auto simp: RecordHashDecision_def RecordValidation_def RecordPerformance_def intro!: quiet_update [OF inv])
qed

lemma all_records_filter:
  assumes "is_order (migrations mt) ord"
  shows "length (filter P (all_records ord mt)) = card {i. \<exists>p. migrations mt i = Some p \<and> P (mt_store mt ! p)}"
  using map_filter_dom(2) [OF assms, of "\<lambda>p. P (mt_store mt ! p)"]
  by (simp add: all_records_def filter_map o_def)

text \<open>C24: as long as every migration has its own identifier and gets at most one terminal status, in every reachable
  state and for every visiting order the statistics count the completed and the failed records exactly,
  the list of failed migrations is as long as reported, and the success rate is between 0 and 100.\<close>

theorem tracker_statistics:
  assumes "tracked mt" "is_order (migrations mt) ord"
  shows "CompletedMigrations (mt_GetStatistics ord mt) = int (card {i. status_of mt i = Some Completed}) \<and>
    FailedMigrations (mt_GetStatistics ord mt) = int (length (GetFailedMigrations ord mt)) \<and>
    CompletedMigrations (mt_GetStatistics ord mt) + FailedMigrations (mt_GetStatistics ord mt) \<le>
      TotalMigrations (mt_GetStatistics ord mt) \<and>
    0 \<le> SuccessRate (mt_GetStatistics ord mt) \<and> SuccessRate (mt_GetStatistics ord mt) \<le> 100"
proof -
  have inv: "tracker_inv mt" "counts_ok mt" using tracked_inv [OF assms(1)] by simp_all
  let ?C = "{i. status_of mt i = Some Completed}" and ?F = "{i. status_of mt i = Some MigFailed}"
  have "{i. \<exists>p. migrations mt i = Some p \<and> mr_Status (mt_store mt ! p) = MigFailed} = ?F"
    by (auto simp: status_of_def)
  then have failed: "length (GetFailedMigrations ord mt) = card ?F"
    using all_records_filter [OF assms(2)] by (simp add: GetFailedMigrations_def)
  have fin: "finite (dom (migrations mt))" using inv(1) by (simp add: tracker_inv_def)
  have "card ?C + card ?F = card (?C \<union> ?F)"
    using finite_status [OF inv(1)] by (intro card_Un_disjoint [symmetric]) auto
  also have "\<dots> \<le> card (dom (migrations mt))"
    by (rule card_mono [OF fin]) (auto simp: status_of_def)
  finally have sum: "card ?C + card ?F \<le> card (dom (migrations mt))" .
  have counts: "completedCount mt = int (card ?C)" "failedCount mt = int (card ?F)"
    using inv(2) by (simp_all add: counts_ok_def)
  have "of_nat (card ?C) \<le> (of_nat (card (dom (migrations mt))) :: rat)" using sum by simp
  then show ?thesis
    using sum by (simp add: mt_GetStatistics_def Let_def counts failed map_len_def divide_le_eq)
qed

definition demo_tracker :: tracker where
  "demo_tracker = UpdateMigrationStatus 9 (migration_id 1 ''k'') Completed []
     (snd (TrackMigration 1 1 ''s'' ''k'' ''n1'' ''n2'' ''node_added'' NewMigrationTracker))"

lemma tracked_demo: "tracked demo_tracker" "migrations demo_tracker = [migration_id 1 ''k'' \<mapsto> 0]"
proof -
  let ?t = "snd (TrackMigration 1 1 ''s'' ''k'' ''n1'' ''n2'' ''node_added'' NewMigrationTracker)"
  have t: "TrackMigration 1 1 ''s'' ''k'' ''n1'' ''n2'' ''node_added'' NewMigrationTracker = (migration_id 1 ''k'', ?t)"
    by (simp add: TrackMigration_def Let_def)
  have fresh: "migration_id 1 ''k'' \<notin> dom (migrations NewMigrationTracker)" by (simp add: NewMigrationTracker_def)
  have "tracked ?t" by (rule tracked.step [OF tracked.new tracker_step.track [OF t fresh]])
  moreover have "\<forall>s. status_of ?t (migration_id 1 ''k'') = Some s \<longrightarrow> \<not> terminal s"
    by (simp add: TrackMigration_def new_migration_record_def Let_def NewMigrationTracker_def status_of_def terminal_def)
  ultimately show "tracked demo_tracker"
    unfolding demo_tracker_def by (rule tracked.step [OF _ tracker_step.update])
  show "migrations demo_tracker = [migration_id 1 ''k'' \<mapsto> 0]"
    by (simp add: demo_tracker_def UpdateMigrationStatus_def TrackMigration_def Let_def NewMigrationTracker_def update_record_def)
qed

theorem tracker_statistics_witness:
  "SuccessRate (mt_GetStatistics [migration_id 1 ''k''] demo_tracker) \<le> 100"
proof -
  have "is_order (migrations demo_tracker) [migration_id 1 ''k'']" by (simp add: is_order_def tracked_demo(2))
  then show ?thesis using tracker_statistics [OF tracked_demo(1)] by blast
qed

text \<open>A status update of a record that is already completed is counted again: after two updates of the only record
  the tracker reports two completed migrations of one and a success rate of 200.\<close>

theorem tracker_counts_twice:
  "CompletedMigrations (mt_GetStatistics [migration_id 1 ''k''] (UpdateMigrationStatus 10 (migration_id 1 ''k'') Completed [] demo_tracker)) = 2 \<and>
   TotalMigrations (mt_GetStatistics [migration_id 1 ''k''] (UpdateMigrationStatus 10 (migration_id 1 ''k'') Completed [] demo_tracker)) = 1 \<and>
   SuccessRate (mt_GetStatistics [migration_id 1 ''k''] (UpdateMigrationStatus 10 (migration_id 1 ''k'') Completed [] demo_tracker)) = 200"
proof -
  have "completedCount demo_tracker = 1"
    by (simp add: demo_tracker_def UpdateMigrationStatus_def TrackMigration_def Let_def NewMigrationTracker_def)
  then show ?thesis
    by (simp add: mt_GetStatistics_def UpdateMigrationStatus_def tracked_demo(2) Let_def map_len_def)
qed

end
