(* ===== verification/Ring_Monitor.thy ===== *)
theory Ring_Monitor
  imports Dist_Props Tracker_Props
begin

text \<open>
  \<open>monitoring/hash_ring_monitor.go\<close>: snapshots of the hash ring. The monitored cache is an argument of
  the operations that read it. A \<open>float64\<close> is a rational number. \<open>sort.Slice\<close> is not stable; its
  input comes from a map, whose visiting order is an argument, and every sorted result it can
  give is the stable sort of some visiting order.
\<close>

section \<open>State\<close>

record mon_node =
  mn_NodeID :: string
  mn_HashValue :: uint32
  mn_Position :: rat
  DataCount :: int
  VirtualCount :: int
  mn_Status :: string

record virtual_node_info =
  VirtualID :: string
  PhysicalNode :: string
  vn_HashValue :: uint32
  vn_Position :: rat

record data_location =
  dl_Key :: string
  dl_HashValue :: uint32
  dl_Position :: rat
  OwnerNode :: string
  PreviousNode :: string
  dl_MigrationID :: string

record load_balance =
  MaxLoad :: int
  MinLoad :: int
  AvgLoad :: rat
  Variance :: rat
  BalanceScore :: rat

record ring_snapshot =
  Timestamp :: go_time
  sn_Nodes :: "mon_node list"
  sn_VirtualNodes :: "virtual_node_info list"
  DataDistribution :: "string \<rightharpoonup> data_location"
  RingSize :: uint32
  LoadBalance :: load_balance

record ring_monitor =
  snapshots :: "ring_snapshot list"
  migrationTracker :: tracker
  mon_enabled :: bool
  maxSnapshots :: int

definition NewHashRingMonitor :: ring_monitor where
  "NewHashRingMonitor = \<lparr> snapshots = [], migrationTracker = NewMigrationTracker, mon_enabled = True,
     maxSnapshots = 100 \<rparr>"

definition Enable :: "ring_monitor \<Rightarrow> ring_monitor" where
  "Enable hrm = hrm\<lparr> mon_enabled := True \<rparr>"

definition Disable :: "ring_monitor \<Rightarrow> ring_monitor" where
  "Disable hrm = hrm\<lparr> mon_enabled := False \<rparr>"

definition IsEnabled :: "ring_monitor \<Rightarrow> bool" where
  "IsEnabled hrm = mon_enabled hrm"

section \<open>Reading the ring\<close>

definition hashToPosition :: "uint32 \<Rightarrow> rat" where
  "hashToPosition h = of_nat (unat h) / of_nat (unat (- 1 :: uint32)) * 360"

definition blank_node :: "string \<Rightarrow> mon_node" where
  "blank_node node = \<lparr> mn_NodeID = node, mn_HashValue = 0, mn_Position = 0, DataCount = 0, VirtualCount = 0,
     mn_Status = ''healthy'' \<rparr>"

definition count_virtual :: "dist_cache \<Rightarrow> uint32 \<Rightarrow> (string \<rightharpoonup> mon_node) \<Rightarrow> (string \<rightharpoonup> mon_node)" where
  "count_virtual dc h m =
     (case HashRing dc h of
        None \<Rightarrow> m
      | Some node \<Rightarrow>
          (case m node of
             None \<Rightarrow> m
           | Some i \<Rightarrow> m(node \<mapsto> i\<lparr> VirtualCount := VirtualCount i + 1,
               mn_HashValue := (if mn_HashValue i = 0 then h else mn_HashValue i) \<rparr>)))"

definition count_data :: "dist_cache \<Rightarrow> string \<Rightarrow> (string \<rightharpoonup> mon_node) \<Rightarrow> (string \<rightharpoonup> mon_node)" where
  "count_data dc node m =
     (case (LocalCaches dc node, m node) of
        (Some c, Some i) \<Rightarrow> m(node \<mapsto> i\<lparr> DataCount := lru_Size c \<rparr>)
      | _ \<Rightarrow> m)"

text \<open>\<open>ring_order\<close>, \<open>cache_order\<close> and \<open>info_order\<close> are the orders of the three maps the code ranges over.\<close>

definition extractNodeInfo ::
  "uint32 list \<Rightarrow> string list \<Rightarrow> ((string \<rightharpoonup> mon_node) \<Rightarrow> string list) \<Rightarrow> dist_cache \<Rightarrow> mon_node list" where
  "extractNodeInfo ring_order cache_order info_order dc =
     (let m0 = fold (\<lambda>node m. m(node \<mapsto> blank_node node)) (Nodes dc) Map.empty;
          m1 = fold (count_virtual dc) ring_order m0;
          m2 = fold (count_data dc) cache_order m1;
          m3 = (\<lambda>n. map_option (\<lambda>i. i\<lparr> mn_Position := hashToPosition (mn_HashValue i) \<rparr>) (m2 n))
      in sort_key mn_HashValue (List.map_filter m3 (info_order m3)))"

definition extractVirtualNodeInfo :: "uint32 list \<Rightarrow> dist_cache \<Rightarrow> virtual_node_info list" where
  "extractVirtualNodeInfo ring_order dc =
     sort_key vn_HashValue
       (map (\<lambda>h. \<lparr> VirtualID = ring_node dc h @ ''#'' @ Itoa (unat h), PhysicalNode = ring_node dc h,
                   vn_HashValue = h, vn_Position = hashToPosition h \<rparr>) ring_order)"

definition extractDataDistribution :: "string \<rightharpoonup> data_location" where
  "extractDataDistribution = Map.empty"

definition calculateRingSize :: "dist_cache \<Rightarrow> uint32" where
  "calculateRingSize dc = of_int (map_len (HashRing dc))"

definition no_load :: load_balance where
  "no_load = \<lparr> MaxLoad = 0, MinLoad = 0, AvgLoad = 0, Variance = 0, BalanceScore = 0 \<rparr>"

definition calculateLoadBalance :: "string list \<Rightarrow> dist_cache \<Rightarrow> load_balance" where
  "calculateLoadBalance cache_order dc =
     (if Nodes dc = [] then no_load
      else
        let loads = sort (map lru_Size (List.map_filter (LocalCaches dc) cache_order));
            totalLoad = sum_list loads
        in if loads = [] then no_load
           else
             let maxLoad = last loads; minLoad = hd loads;
                 avgLoad = of_int totalLoad / of_nat (length loads);
                 variance = sum_list (map (\<lambda>l. (of_int l - avgLoad) * (of_int l - avgLoad)) loads) / of_nat (length loads)
             in \<lparr> MaxLoad = maxLoad, MinLoad = minLoad, AvgLoad = avgLoad, Variance = variance,
                  BalanceScore = (if maxLoad > 0 then (1 - of_int (maxLoad - minLoad) / of_int maxLoad) * 100 else 100) \<rparr>)"

section \<open>Snapshots\<close>

record mon_orders =
  o_ring :: "uint32 list"
  o_caches :: "string list"
  o_infos :: "(string \<rightharpoonup> mon_node) \<Rightarrow> string list"

definition take_snapshot :: "go_time \<Rightarrow> mon_orders \<Rightarrow> dist_cache \<Rightarrow> ring_snapshot" where
  "take_snapshot now ord dc =
     \<lparr> Timestamp = now, sn_Nodes = extractNodeInfo (o_ring ord) (o_caches ord) (o_infos ord) dc,
       sn_VirtualNodes = extractVirtualNodeInfo (o_ring ord) dc, DataDistribution = extractDataDistribution,
       RingSize = calculateRingSize dc, LoadBalance = calculateLoadBalance (o_caches ord) dc \<rparr>"

definition CaptureSnapshot ::
  "go_time \<Rightarrow> mon_orders \<Rightarrow> dist_cache \<Rightarrow> ring_monitor \<Rightarrow> ring_snapshot option \<times> ring_monitor" where
  "CaptureSnapshot now ord dc hrm =
     (if \<not> IsEnabled hrm then (None, hrm)
      else
        let snapshot = take_snapshot now ord dc;
            ss = snapshots hrm @ [snapshot];
            ss = (if int (length ss) > maxSnapshots hrm then tl ss else ss)
        in (Some snapshot, hrm\<lparr> snapshots := ss \<rparr>))"

definition locate_data :: "dist_cache \<Rightarrow> string \<Rightarrow> (string \<rightharpoonup> data_location) \<Rightarrow> (string \<rightharpoonup> data_location) option" where
  "locate_data dc key m = do {
     ownerNode \<leftarrow> GetNodeForKey key dc;
     let h = of_int (int (length key) * 1000);
     Some (m(key \<mapsto> \<lparr> dl_Key = key, dl_HashValue = h, dl_Position = hashToPosition h, OwnerNode = ownerNode,
       PreviousNode = [], dl_MigrationID = [] \<rparr>))
   }"

definition UpdateDataDistribution :: "string list \<Rightarrow> dist_cache \<Rightarrow> ring_monitor \<Rightarrow> ring_monitor option" where
  "UpdateDataDistribution dataKeys dc hrm =
     (if \<not> IsEnabled hrm \<or> snapshots hrm = [] then Some hrm
      else do {
        dist \<leftarrow> foldM (locate_data dc) dataKeys Map.empty;
        Some (hrm\<lparr> snapshots := butlast (snapshots hrm) @ [(last (snapshots hrm))\<lparr> DataDistribution := dist \<rparr>] \<rparr>)
      })"

definition GetLatestSnapshot :: "ring_monitor \<Rightarrow> ring_snapshot option" where
  "GetLatestSnapshot hrm = (if snapshots hrm = [] then None else Some (last (snapshots hrm)))"

definition GetSnapshotHistory :: "int \<Rightarrow> ring_monitor \<Rightarrow> ring_snapshot list" where
  "GetSnapshotHistory limit hrm =
     (let n = int (length (snapshots hrm));
          limit' = (if limit \<le> 0 \<or> limit > n then n else limit)
      in drop (nat (n - limit')) (snapshots hrm))"

definition GetMigrationTracker :: "ring_monitor \<Rightarrow> tracker" where
  "GetMigrationTracker hrm = migrationTracker hrm"

end
