(* ===== verification/Monitoring.thy ===== *)
theory Monitoring
  imports Ring_Monitor
begin

text \<open>
  \<open>monitoring/integration.go\<close>: the hooks that keep the monitor and the migration tracker informed. The
  integrator holds pointers to the monitor (which owns the tracker) and to the distributed cache, so an
  operation works on the integrator's state and, where it touches the cache, on the cache too. Log
  output is not modelled.
\<close>

record monitoring =
  mi_monitor :: ring_monitor
  mi_enabled :: bool
  dataKeys :: "string list"

definition NewMonitoringIntegration :: monitoring where
  "NewMonitoringIntegration = \<lparr> mi_monitor = NewHashRingMonitor, mi_enabled = True, dataKeys = [] \<rparr>"

definition mi_Enable :: "monitoring \<Rightarrow> monitoring" where
  "mi_Enable mi = mi\<lparr> mi_enabled := True, mi_monitor := Enable (mi_monitor mi) \<rparr>"

definition mi_Disable :: "monitoring \<Rightarrow> monitoring" where
  "mi_Disable mi = mi\<lparr> mi_enabled := False, mi_monitor := Disable (mi_monitor mi) \<rparr>"

definition mi_IsEnabled :: "monitoring \<Rightarrow> bool" where
  "mi_IsEnabled mi \<longleftrightarrow> mi_enabled mi \<and> IsEnabled (mi_monitor mi)"

definition upd_monitor :: "dist_cache \<Rightarrow> string list \<Rightarrow> monitoring \<Rightarrow> monitoring option" where
  "upd_monitor dc keys mi = do {
     m \<leftarrow> UpdateDataDistribution keys dc (mi_monitor mi);
     Some (mi\<lparr> mi_monitor := m \<rparr>)
   }"

definition TrackDataKeys :: "dist_cache \<Rightarrow> string list \<Rightarrow> monitoring \<Rightarrow> monitoring option" where
  "TrackDataKeys dc keys mi =
     (if \<not> mi_IsEnabled mi then Some mi else upd_monitor dc keys (mi\<lparr> dataKeys := keys \<rparr>))"

definition AddDataKey :: "dist_cache \<Rightarrow> string \<Rightarrow> monitoring \<Rightarrow> monitoring option" where
  "AddDataKey dc key mi =
     (if \<not> mi_IsEnabled mi then Some mi
      else if key \<in> set (dataKeys mi) then Some mi
      else let mi1 = mi\<lparr> dataKeys := dataKeys mi @ [key] \<rparr> in upd_monitor dc (dataKeys mi1) mi1)"

definition RemoveDataKey :: "dist_cache \<Rightarrow> string \<Rightarrow> monitoring \<Rightarrow> monitoring option" where
  "RemoveDataKey dc key mi =
     (if \<not> mi_IsEnabled mi then Some mi
      else if key \<in> set (dataKeys mi) then
        (let mi1 = mi\<lparr> dataKeys := remove1 key (dataKeys mi) \<rparr> in upd_monitor dc (dataKeys mi1) mi1)
      else Some mi)"

definition mi_CaptureSnapshot ::
  "go_time \<Rightarrow> mon_orders \<Rightarrow> dist_cache \<Rightarrow> monitoring \<Rightarrow> ring_snapshot option \<times> monitoring" where
  "mi_CaptureSnapshot now ord dc mi =
     (if \<not> mi_IsEnabled mi then (None, mi)
      else case CaptureSnapshot now ord dc (mi_monitor mi) of (s, m) \<Rightarrow> (s, mi\<lparr> mi_monitor := m \<rparr>))"

definition with_tracker :: "tracker \<Rightarrow> monitoring \<Rightarrow> monitoring" where
  "with_tracker t mi = mi\<lparr> mi_monitor := (mi_monitor mi)\<lparr> migrationTracker := t \<rparr> \<rparr>"

abbreviation (input) the_tracker :: "monitoring \<Rightarrow> tracker" where
  "the_tracker mi \<equiv> GetMigrationTracker (mi_monitor mi)"

text \<open>\<open>t1\<close>, \<open>t2\<close> and \<open>t3\<close> are the readings of the clock.\<close>

definition node_event ::
  "string \<Rightarrow> go_time \<times> go_time \<times> go_time \<Rightarrow> mon_orders \<Rightarrow> dist_cache \<Rightarrow> string \<Rightarrow> monitoring \<Rightarrow> string \<times> monitoring" where
  "node_event kind ts ord dc node_id mi = (case ts of (t1, t2, t3) \<Rightarrow>
     (if \<not> mi_IsEnabled mi then ([], mi)
      else case StartMigrationSession t1 t2 kind node_id (the_tracker mi) of
        (sessionID, t) \<Rightarrow> (sessionID, snd (mi_CaptureSnapshot t3 ord dc (with_tracker t mi)))))"

definition OnNodeAdded ::
  "go_time \<times> go_time \<times> go_time \<Rightarrow> mon_orders \<Rightarrow> dist_cache \<Rightarrow> string \<Rightarrow> monitoring \<Rightarrow> string \<times> monitoring" where
  "OnNodeAdded = node_event ''add_node''"

definition OnNodeRemoved ::
  "go_time \<times> go_time \<times> go_time \<Rightarrow> mon_orders \<Rightarrow> dist_cache \<Rightarrow> string \<Rightarrow> monitoring \<Rightarrow> string \<times> monitoring" where
  "OnNodeRemoved = node_event ''remove_node''"

definition OnMigrationCompleted ::
  "go_time \<times> go_time \<Rightarrow> string list \<Rightarrow> mon_orders \<Rightarrow> dist_cache \<Rightarrow> string \<Rightarrow> monitoring \<Rightarrow> monitoring" where
  "OnMigrationCompleted ts rec_order ord dc sessionID mi = (case ts of (t1, t2) \<Rightarrow>
     (if \<not> mi_IsEnabled mi then mi
      else
        let t = snd (EndMigrationSession t1 rec_order sessionID SessionCompleted (the_tracker mi))
        in snd (mi_CaptureSnapshot t2 ord dc (with_tracker t mi))))"

definition TrackDataMigration ::
  "go_time \<times> go_time \<Rightarrow> string \<Rightarrow> string \<Rightarrow> string \<Rightarrow> string \<Rightarrow> string \<Rightarrow> monitoring \<Rightarrow> string \<times> monitoring" where
  "TrackDataMigration ts sessionID key sourceNode targetNode reason mi = (case ts of (t1, t2) \<Rightarrow>
     (if \<not> mi_IsEnabled mi then ([], mi)
      else case TrackMigration t1 t2 sessionID key sourceNode targetNode reason (the_tracker mi) of
        (migrationID, t) \<Rightarrow>
          let decision = no_decision\<lparr> KeyHash := of_int (int (length key) * 1000), OldResponsible := sourceNode,
                NewResponsible := targetNode, DecisionReason := reason \<rparr>
          in (migrationID, with_tracker (RecordHashDecision migrationID decision t) mi)))"

definition mi_UpdateMigrationStatus :: "go_time \<Rightarrow> string \<Rightarrow> migration_status \<Rightarrow> string \<Rightarrow> monitoring \<Rightarrow> monitoring" where
  "mi_UpdateMigrationStatus now migrationID status errorMsg mi =
     (if \<not> mi_IsEnabled mi then mi
      else with_tracker (UpdateMigrationStatus now migrationID status errorMsg (the_tracker mi)) mi)"

text \<open>The check reads the key through the LRU cache of its node; a missing cache is a nil dereference.\<close>

definition ValidateDataMigration ::
  "go_time \<Rightarrow> go_time \<Rightarrow> string \<Rightarrow> string \<Rightarrow> string \<Rightarrow> monitoring \<times> dist_cache \<Rightarrow> (bool \<times> monitoring \<times> dist_cache) option" where
  "ValidateDataMigration now now2 migrationID key expectedValue st = (case st of (mi, dc) \<Rightarrow>
     (if \<not> mi_IsEnabled mi then Some (True, mi, dc)
      else do {
        targetNode \<leftarrow> GetNodeForKey key dc;
        local_cache \<leftarrow> LocalCaches dc targetNode;
        ((actualValue, found), c) \<leftarrow> lru_Get now key local_cache;
        let dc1 = dc\<lparr> LocalCaches := (LocalCaches dc)(targetNode \<mapsto> c) \<rparr>;
        let validation = no_validation\<lparr> PreMigrationExists := True, PostMigrationExists := found,
              ValueMatches := found \<and> actualValue = expectedValue, ValidationTime := Some now2 \<rparr>;
        Some (ValueMatches validation, with_tracker (RecordValidation migrationID validation (the_tracker mi)) mi, dc1)
      }))"

definition GetFailureReport ::
  "go_time \<Rightarrow> string list \<Rightarrow> ((string \<rightharpoonup> int) \<Rightarrow> string list) \<Rightarrow> monitoring \<Rightarrow> failure_report" where
  "GetFailureReport now order reason_order mi = GenerateFailureReport now order reason_order (the_tracker mi)"

definition mi_GetStatistics :: "string list \<Rightarrow> monitoring \<Rightarrow> migration_statistics" where
  "mi_GetStatistics order mi = mt_GetStatistics order (the_tracker mi)"

section \<open>Snapshots over a run\<close>

text \<open>Captures at given times of given states of the cache.\<close>

definition captures :: "(go_time \<times> mon_orders \<times> dist_cache) list \<Rightarrow> ring_monitor \<Rightarrow> ring_monitor" where
  "captures cs hrm = fold (\<lambda>(now, ord, dc) m. snd (CaptureSnapshot now ord dc m)) cs hrm"

definition last_n :: "nat \<Rightarrow> 'a list \<Rightarrow> 'a list" where
  "last_n n xs = drop (length xs - n) xs"

lemma last_n_step: "0 < n \<Longrightarrow> length xs \<le> n \<Longrightarrow>
    (if n < length (xs @ [x]) then tl (xs @ [x]) else xs @ [x]) = last_n n (xs @ [x])"
  by (cases "length xs = n"; cases xs) (auto simp: last_n_def)

lemma last_n_append: "last_n n (last_n n xs @ ys) = last_n n (xs @ ys)"
  by (cases "length xs \<le> n") (auto simp: last_n_def add.commute)

lemma last_n_last_n: "last_n m (last_n n xs) = last_n (min m n) xs"
  by (cases "length xs \<le> n") (auto simp: last_n_def min_def)

lemma captures_snapshots:
  assumes "mon_enabled m" "0 < maxSnapshots m" "length (snapshots m) \<le> nat (maxSnapshots m)"
  shows "snapshots (captures cs m) = last_n (nat (maxSnapshots m)) (snapshots m @ map (\<lambda>(now, ord, dc). take_snapshot now ord dc) cs)"
  using assms
proof (induction cs arbitrary: m)
  case Nil
  then show ?case by (simp add: captures_def last_n_def)
next
  case (Cons c cs)
  obtain now ord dc where c: "c = (now, ord, dc)" by (cases c)
  let ?s = "take_snapshot now ord dc" and ?n = "nat (maxSnapshots m)"
  let ?m = "snd (CaptureSnapshot now ord dc m)"
  have m: "?m = m\<lparr> snapshots := last_n ?n (snapshots m @ [?s]) \<rparr>"
    using last_n_step [of ?n "snapshots m" ?s] Cons.prems
    by (simp add: CaptureSnapshot_def IsEnabled_def Let_def nat_less_iff split: if_splits)
  have "length (last_n ?n (snapshots m @ [?s])) \<le> ?n" by (simp add: last_n_def)
  then have "snapshots (captures cs ?m) = last_n ?n (last_n ?n (snapshots m @ [?s]) @ map (\<lambda>(now, ord, dc). take_snapshot now ord dc) cs)"
    using Cons.IH [of ?m] Cons.prems by (simp add: m)
  then show ?case by (simp add: c captures_def last_n_append)
qed

text \<open>The history of snapshots is bounded: after any number of captures it holds exactly the last hundred
  snapshots, oldest first, and \<open>GetSnapshotHistory\<close> with a positive limit returns the most recent ones.\<close>

theorem snapshot_history:
  assumes "0 < limit"
  shows "snapshots (captures cs NewHashRingMonitor) = last_n 100 (map (\<lambda>(now, ord, dc). take_snapshot now ord dc) cs) \<and>
    GetSnapshotHistory limit (captures cs NewHashRingMonitor) =
      last_n (min (nat limit) 100) (map (\<lambda>(now, ord, dc). take_snapshot now ord dc) cs)"
proof -
  let ?ss = "map (\<lambda>(now, ord, dc). take_snapshot now ord dc) cs"
  have s: "snapshots (captures cs NewHashRingMonitor) = last_n 100 ?ss"
    using captures_snapshots [of NewHashRingMonitor cs] by (simp add: NewHashRingMonitor_def)
  have "GetSnapshotHistory limit (captures cs NewHashRingMonitor) = last_n (nat limit) (last_n 100 ?ss)"
    using assms by (auto simp: GetSnapshotHistory_def Let_def s last_n_def nat_diff_distrib)
  also have "\<dots> = last_n (min (nat limit) 100) ?ss" by (rule last_n_last_n)
  finally show ?thesis using s by simp
qed

theorem snapshot_history_witness:
  "\<forall>ord dc. GetSnapshotHistory 1 (captures [(1, ord, dc), (2, ord, dc)] NewHashRingMonitor) = [take_snapshot 2 ord dc]"
proof (intro allI)
  fix ord dc
  show "GetSnapshotHistory 1 (captures [(1, ord, dc), (2, ord, dc)] NewHashRingMonitor) = [take_snapshot 2 ord dc]"
    using snapshot_history [of 1 "[(1, ord, dc), (2, ord, dc)]"] by (simp add: last_n_def)
qed

section \<open>Load balance\<close>

lemma sum_list_nonneg_rat: "(\<And>x. x \<in> set xs \<Longrightarrow> 0 \<le> x) \<Longrightarrow> 0 \<le> sum_list (xs :: rat list)"
  by (induction xs) (auto intro: add_nonneg_nonneg)

lemma sorted_hd_last:
  assumes "sorted xs" "x \<in> set xs"
  shows "hd xs \<le> x" "x \<le> last xs"
proof -
  obtain i where i: "i < length xs" "x = xs ! i" using assms(2) by (metis in_set_conv_nth)
  then have "xs \<noteq> []" by auto
  then have "hd xs = xs ! 0" "last xs = xs ! (length xs - 1)" by (simp_all add: hd_conv_nth last_conv_nth)
  then show "hd xs \<le> x" "x \<le> last xs"
    using i sorted_nth_mono [OF assms(1), of 0 i] sorted_nth_mono [OF assms(1), of i "length xs - 1"] by auto
qed

lemma mean_between:
  fixes lo hi :: int
  assumes "xs \<noteq> []" "\<And>x. x \<in> set xs \<Longrightarrow> lo \<le> x \<and> x \<le> hi"
  shows "of_int lo \<le> (of_int (sum_list xs) / of_nat (length xs) :: rat)"
    "of_int (sum_list xs) / of_nat (length xs) \<le> (of_int hi :: rat)"
proof -
  have "int (length xs) * lo \<le> sum_list xs \<and> sum_list xs \<le> int (length xs) * hi"
    using assms(2) by (induction xs) (force simp: algebra_simps)+
  then have "of_int (int (length xs) * lo) \<le> (of_int (sum_list xs) :: rat)"
    "of_int (sum_list xs) \<le> (of_int (int (length xs) * hi) :: rat)"
    unfolding of_int_le_iff by simp_all
  moreover have "0 < (of_nat (length xs) :: rat)" using assms(1) by simp
  ultimately show "of_int lo \<le> (of_int (sum_list xs) / of_nat (length xs) :: rat)"
    "of_int (sum_list xs) / of_nat (length xs) \<le> (of_int hi :: rat)"
    by (simp_all add: pos_le_divide_eq pos_divide_le_eq mult.commute)
qed

lemma score_bounds:
  fixes lo hi :: int
  assumes "0 \<le> lo" "lo \<le> hi" "s = (if hi > 0 then (1 - of_int (hi - lo) / of_int hi) * 100 else (100 :: rat))"
  shows "0 \<le> s" "s \<le> 100" "s = 100 \<longleftrightarrow> lo = hi"
proof -
  have "0 \<le> s \<and> s \<le> 100 \<and> (s = 100 \<longleftrightarrow> lo = hi)"
  proof (cases "0 < hi")
    case True
    then have r: "0 < (of_int hi :: rat)" "(of_int lo :: rat) \<le> of_int hi" "0 \<le> (of_int lo :: rat)" using assms by simp_all
    define q :: rat where "q = of_int lo / of_int hi"
    have "s = q * 100" using True r(1) by (simp add: assms(3) q_def field_simps)
    moreover have "0 \<le> q" "q \<le> 1" using r by (simp_all add: q_def)
    moreover have "q = 1 \<longleftrightarrow> lo = hi" using r(1) unfolding q_def by (simp, blast)
    ultimately show ?thesis by simp
  qed (use assms in auto)
  then show "0 \<le> s" "s \<le> 100" "s = 100 \<longleftrightarrow> lo = hi" by simp_all
qed

text \<open>The load report of a cluster is consistent: the loads lie between the reported minimum and maximum, so does
  their mean, the variance is not negative, the balance score is a percentage, and it is 100 exactly
  when all nodes hold equally many keys.\<close>

theorem load_balance_report:
  assumes "dc_inv dc" "Nodes dc \<noteq> []" "LocalCaches dc n0 \<noteq> None" "is_order (LocalCaches dc) ord"
    and "lb = calculateLoadBalance ord dc"
  shows "(\<forall>n c. LocalCaches dc n = Some c \<longrightarrow> MinLoad lb \<le> lru_Size c \<and> lru_Size c \<le> MaxLoad lb) \<and>
    of_int (MinLoad lb) \<le> AvgLoad lb \<and> AvgLoad lb \<le> of_int (MaxLoad lb) \<and> 0 \<le> Variance lb \<and>
    0 \<le> BalanceScore lb \<and> BalanceScore lb \<le> 100 \<and>
    (BalanceScore lb = 100 \<longleftrightarrow> (\<forall>n m c d. LocalCaches dc n = Some c \<longrightarrow> LocalCaches dc m = Some d \<longrightarrow> lru_Size c = lru_Size d))"
proof -
  let ?cs = "List.map_filter (LocalCaches dc) ord"
  define loads where "loads = sort (map lru_Size ?cs)"
  have "set ?cs = ran (LocalCaches dc)"
    using assms(4) by (force simp: List.map_filter_def is_order_def ran_def)
  then have set: "set loads = lru_Size ` ran (LocalCaches dc)" by (simp add: loads_def)
  have ne: "loads \<noteq> []" using set assms(3) by (force simp: ran_def)
  have sorted: "sorted loads" by (simp add: loads_def)
  let ?max = "last loads" and ?min = "hd loads"
  have between: "?min \<le> x \<and> x \<le> ?max" if "x \<in> set loads" for x
    using sorted_hd_last [OF sorted that] by simp
  have "0 \<le> x" if x: "x \<in> set loads" for x
  proof -
    obtain n c where "LocalCaches dc n = Some c" "x = lru_Size c"
      using x unfolding set ran_def by blast
    then have "lru_inv c" using assms(1) by (auto simp: dc_inv_def caches_ok_def node_cache_def)
    then show ?thesis using \<open>x = lru_Size c\<close> by (simp add: lru_Size_def inv_size)
  qed
  then have min: "0 \<le> ?min" "?min \<le> ?max" using ne between by auto
  have mem: "lru_Size c \<in> set loads" if "LocalCaches dc n = Some c" for n c
    using that set by (auto simp: ran_def)
  have lb: "MinLoad lb = ?min" "MaxLoad lb = ?max" "AvgLoad lb = of_int (sum_list loads) / of_nat (length loads)"
    "0 \<le> Variance lb" "BalanceScore lb = (if ?max > 0 then (1 - of_int (?max - ?min) / of_int ?max) * 100 else 100)"
    unfolding assms(5) calculateLoadBalance_def Let_def loads_def [symmetric]
    using assms(2) ne by (auto intro!: divide_nonneg_nonneg sum_list_nonneg_rat)
  have all: "?min = ?max \<longleftrightarrow> (\<forall>x \<in> set loads. \<forall>y \<in> set loads. x = y)"
    using between ne by (metis hd_in_set last_in_set order_antisym)
  have same: "(\<forall>x \<in> set loads. \<forall>y \<in> set loads. x = y) \<longleftrightarrow>
      (\<forall>n m c d. LocalCaches dc n = Some c \<longrightarrow> LocalCaches dc m = Some d \<longrightarrow> lru_Size c = lru_Size d)"
    unfolding set ran_def by blast
  show ?thesis
    using mem between mean_between [OF ne between] score_bounds [OF min lb(5)] lb(4) all same
    unfolding lb(1-3) by metis
qed

theorem load_balance_report_witness:
  "\<exists>c. node_cache 1000 c \<and> BalanceScore (calculateLoadBalance [''n1''] (ring_beside c)) = 100"
proof -
  obtain c where c: "node_cache 1000 c" using node_cache_new [of 1000] by auto
  have l: "LocalCaches (ring_beside c) = [''n1'' \<mapsto> c]" "Nodes (ring_beside c) \<noteq> []" by (simp_all add: one_node_def)
  have "LocalCaches (ring_beside c) ''n1'' \<noteq> None" "is_order (LocalCaches (ring_beside c)) [''n1'']"
    by (simp_all add: l is_order_def)
  from load_balance_report [OF one_node_inv(1) [OF c] l(2) this refl]
  have "BalanceScore (calculateLoadBalance [''n1''] (ring_beside c)) = 100" by (simp add: l split: if_splits)
  with c show ?thesis by blast
qed

section \<open>Validation touches the cache\<close>

lemma lru_Get_requests:
  assumes "lru_inv c" "lru_Get now k c = Some (r, t)"
  shows "TotalRequests (lru_GetStats t) = TotalRequests (lru_GetStats c) + 1"
proof -
  obtain r' t' where "lru_Get now k c = Some (r', t')" "(r', view t') = spec_get now k (view c)"
    using lru_Get_refines [OF assms(1)] by metis
  then have "view t = snd (spec_get now k (view c))" using assms(2) by (metis option.inject prod.inject snd_conv)
  then have "TotalRequests (v_stats (view t)) = TotalRequests (v_stats (view c)) + 1"
    by (auto simp: spec_get_def bump_def spec_touch_def spec_drop_def spec_ttl_del_def hit_def miss_def split: option.splits)
  then show ?thesis by (simp add: view_def lru_GetStats_def)
qed

text \<open>The validation of a migration is not an observation only: for every cluster and key it answers whether the
  responsible node holds the expected value, but it reads through the LRU cache, so the node's request
  counter grows by one.\<close>

theorem validation_reads_cache:
  assumes "mi_IsEnabled mi" "dc_inv dc" "placed dc" "nonempty_ring dc"
  shows "\<exists>mi1 dc1 n c c1. ValidateDataMigration now now2 mig key v (mi, dc) = Some (dc_lookup dc key = Some v, mi1, dc1) \<and>
    LocalCaches dc n = Some c \<and> LocalCaches dc1 n = Some c1 \<and>
    TotalRequests (lru_GetStats c1) = TotalRequests (lru_GetStats c) + 1 \<and> dc_lookup dc1 = dc_lookup dc"
proof -
  obtain n c where n: "getNodeForKeyUnsafe key dc = Some n" "LocalCaches dc n = Some c" "node_cache 1000 c"
    by (rule owner_cache [OF assms(2,4), of key])
  obtain t where t: "lru_Get now key c = Some (case contents c key of None \<Rightarrow> ([], False) | Some v \<Rightarrow> (v, True), t)"
    "node_cache 1000 t" "contents t = contents c"
    using node_cache_Get [OF n(3)] by blast
  have req: "TotalRequests (lru_GetStats t) = TotalRequests (lru_GetStats c) + 1"
    using lru_Get_requests [OF _ t(1)] n(3) by (simp add: node_cache_def)
  let ?dc1 = "dc\<lparr> LocalCaches := (LocalCaches dc)(n \<mapsto> t) \<rparr>"
  have look: "dc_lookup dc key = contents c key" using n by (simp add: dc_lookup_def)
  have "dc_lookup ?dc1 = dc_lookup dc"
  proof
    fix k
    show "dc_lookup ?dc1 k = dc_lookup dc k"
      using replace_cache(3) [OF assms(2,3) n(2) t(2), of k] n(2)
      by (auto simp: t(3) dc_lookup_def)
  qed
  moreover obtain mi1 where "ValidateDataMigration now now2 mig key v (mi, dc) = Some (dc_lookup dc key = Some v, mi1, ?dc1)"
    using assms(1) n(1,2) t(1) look
    by (cases "contents c key") (auto simp: ValidateDataMigration_def GetNodeForKey_def)
  ultimately show ?thesis using n(2) req
    by (intro exI [of _ mi1] exI [of _ ?dc1] exI [of _ n] exI [of _ c] exI [of _ t]) simp
qed

theorem validation_reads_cache_witness:
  "\<exists>c mi1 dc1 b. ValidateDataMigration 0 0 ''m'' ''k'' ''v'' (NewMonitoringIntegration, ring_beside c) = Some (b, mi1, dc1) \<and>
    dc_lookup dc1 = dc_lookup (ring_beside c)"
proof -
  obtain c where c: "node_cache 1000 c" using node_cache_new [of 1000] by auto
  have "mi_IsEnabled NewMonitoringIntegration"
    by (simp add: mi_IsEnabled_def NewMonitoringIntegration_def IsEnabled_def NewHashRingMonitor_def)
  from validation_reads_cache [OF this one_node_inv [OF c]] show ?thesis by blast
qed

end
