(* ===== verification/Visualizer.thy ===== *)
theory Visualizer
  imports Monitoring "HOL-Library.Signed_Division"
begin

text \<open>
  \<open>monitoring/ring_visualizer.go\<close>: the textual views of a snapshot, of two snapshots and of the migration tracker, and
  the operations of \<open>monitoring/integration.go\<close> that show them. A canvas is a list of rows of runes. The coordinates of an
  angle on the circle are floating-point cosines and sines truncated to integers; they are a parameter \<open>polar\<close> of the
  drawing. A line of text is a value that carries what is printed in it; fixed texts, line breaks and number formats are not
  modelled. The visiting orders of maps are arguments.
\<close>

section \<open>The canvas\<close>

record ring_visualizer =
  rv_width :: int
  rv_height :: int
  rv_radius :: int
  rv_centerX :: int
  rv_centerY :: int

definition NewRingVisualizer :: "int \<Rightarrow> int \<Rightarrow> ring_visualizer" where
  "NewRingVisualizer width height =
     \<lparr> rv_width = width, rv_height = height, rv_radius = min width height sdiv 3,
       rv_centerX = width sdiv 2, rv_centerY = height sdiv 2 \<rparr>"

record vis_config =
  ShowVirtualNodes :: bool
  ShowDataKeys :: bool
  ShowMigrations :: bool
  CompactMode :: bool
  ColorEnabled :: bool

type_synonym canvas = "nat list list"
type_synonym polar = "int \<Rightarrow> rat \<Rightarrow> int \<times> int"

text \<open>\<open>make\<close> panics for a negative length.\<close>

definition blank_canvas :: "ring_visualizer \<Rightarrow> canvas option" where
  "blank_canvas rv =
     (if rv_height rv < 0 \<or> (rv_height rv > 0 \<and> rv_width rv < 0) then None
      else Some (replicate (nat (rv_height rv)) (replicate (nat (rv_width rv)) 32)))"

definition plot :: "ring_visualizer \<Rightarrow> int \<Rightarrow> int \<Rightarrow> nat \<Rightarrow> canvas \<Rightarrow> canvas option" where
  "plot rv x y symbol cv =
     (if 0 \<le> x \<and> x < rv_width rv \<and> 0 \<le> y \<and> y < rv_height rv
      then (if nat y < length cv \<and> nat x < length (cv ! nat y) then Some (cv[nat y := (cv ! nat y)[nat x := symbol]]) else None)
      else Some cv)"

definition drawCircle :: "polar \<Rightarrow> ring_visualizer \<Rightarrow> int \<Rightarrow> int \<Rightarrow> int \<Rightarrow> nat \<Rightarrow> canvas \<Rightarrow> canvas option" where
  "drawCircle polar rv centerX centerY radius symbol =
     foldM (\<lambda>angle. case polar radius (of_int angle) of (dx, dy) \<Rightarrow> plot rv (centerX + dx) (centerY + dy) symbol)
       (map (\<lambda>i. 2 * int i) [0..<180])"

definition drawNodeAtPosition :: "polar \<Rightarrow> ring_visualizer \<Rightarrow> rat \<Rightarrow> nat \<Rightarrow> canvas \<Rightarrow> canvas option" where
  "drawNodeAtPosition polar rv position symbol =
     (case polar (rv_radius rv) position of (dx, dy) \<Rightarrow> plot rv (rv_centerX rv + dx) (rv_centerY rv + dy) symbol)"

text \<open>The circled digits from one to ten.\<close>

definition nodeSymbol :: "nat \<Rightarrow> nat" where
  "nodeSymbol i = 0x2460 + i mod 10"

definition drawNodes :: "polar \<Rightarrow> ring_visualizer \<Rightarrow> mon_node list \<Rightarrow> canvas \<Rightarrow> canvas option" where
  "drawNodes polar rv nodes =
     foldM (\<lambda>(i, node). drawNodeAtPosition polar rv (mn_Position node) (nodeSymbol i)) (enumerate 0 nodes)"

definition drawVirtualNodes :: "polar \<Rightarrow> ring_visualizer \<Rightarrow> virtual_node_info list \<Rightarrow> canvas \<Rightarrow> canvas option" where
  "drawVirtualNodes polar rv = foldM (\<lambda>vnode. drawNodeAtPosition polar rv (vn_Position vnode) 0xB7)"

definition drawDataPoints :: "polar \<Rightarrow> ring_visualizer \<Rightarrow> data_location list \<Rightarrow> canvas \<Rightarrow> canvas option" where
  "drawDataPoints polar rv = foldM (\<lambda>data. drawNodeAtPosition polar rv (dl_Position data) 0x2022)"

text \<open>\<open>order\<close> is the order in which \<open>range snapshot.DataDistribution\<close> yields the keys.\<close>

definition renderCircularRing ::
  "polar \<Rightarrow> string list \<Rightarrow> ring_visualizer \<Rightarrow> ring_snapshot \<Rightarrow> vis_config \<Rightarrow> canvas option" where
  "renderCircularRing polar order rv snapshot config = do {
     c0 \<leftarrow> blank_canvas rv;
     c1 \<leftarrow> drawCircle polar rv (rv_centerX rv) (rv_centerY rv) (rv_radius rv) 0x25CB c0;
     c2 \<leftarrow> drawNodes polar rv (sn_Nodes snapshot) c1;
     c3 \<leftarrow> (if ShowVirtualNodes config then drawVirtualNodes polar rv (sn_VirtualNodes snapshot) c2 else Some c2);
     (if ShowDataKeys config then drawDataPoints polar rv (List.map_filter (DataDistribution snapshot) order) c3 else Some c3)
   }"

section \<open>Lines\<close>

datatype text_line =
    Heading string | TitleLine go_time | CanvasRow "nat list"
  | NodeLine nat string rat int int string | LoadLine int int rat | ScoreLine rat rat
  | DataLine string rat string string | RingLine uint32 nat int
  | NodeAdded string rat | NodeRemoved string rat | DataMoved string string string | DataNew string string
  | ScoreChange rat rat rat | MovedTotal int
  | SessionLine string string | ProgressLine int int rat int | SessionStart go_time
  | TotalLine int | OutcomeLine int int | RateLine rat | DurationLine duration | FailureLine string string string string

definition node_line :: "nat \<times> mon_node \<Rightarrow> text_line" where
  "node_line = (\<lambda>(i, node).
     NodeLine (nodeSymbol i) (mn_NodeID node) (mn_Position node) (DataCount node) (VirtualCount node) (mn_Status node))"

definition data_line :: "data_location \<Rightarrow> text_line" where
  "data_line data = DataLine (dl_Key data) (dl_Position data) (OwnerNode data) (dl_MigrationID data)"

definition renderDetails :: "string list \<Rightarrow> ring_snapshot \<Rightarrow> vis_config \<Rightarrow> text_line list" where
  "renderDetails order snapshot config =
     (let lb = LoadBalance snapshot in
      Heading ''nodes'' # map node_line (enumerate 0 (sn_Nodes snapshot)) @
      [Heading ''load balance'', LoadLine (MaxLoad lb) (MinLoad lb) (AvgLoad lb), ScoreLine (Variance lb) (BalanceScore lb)] @
      (if ShowDataKeys config \<and> map_len (DataDistribution snapshot) > 0
       then Heading ''data distribution'' #
         map data_line (sort_key dl_Position (List.map_filter (DataDistribution snapshot) order))
       else []) @
      [RingLine (RingSize snapshot) (length (sn_Nodes snapshot)) (map_len (DataDistribution snapshot))])"

text \<open>The canvas is drawn from one pass over the data, the details from another.\<close>

definition RenderRing ::
  "polar \<Rightarrow> string list \<times> string list \<Rightarrow> ring_visualizer \<Rightarrow> ring_snapshot option \<Rightarrow> vis_config \<Rightarrow> text_line list option" where
  "RenderRing polar orders rv snapshot config =
     (case snapshot of
        None \<Rightarrow> Some [Heading ''no snapshot'']
      | Some s \<Rightarrow> do {
          cv \<leftarrow> renderCircularRing polar (fst orders) rv s config;
          Some (TitleLine (Timestamp s) # map CanvasRow cv @ renderDetails (snd orders) s config)
        })"

section \<open>Comparison\<close>

definition nodes_by_id :: "mon_node list \<Rightarrow> (string \<rightharpoonup> mon_node)" where
  "nodes_by_id nodes = fold (\<lambda>node m. m(mn_NodeID node \<mapsto> node)) nodes Map.empty"

definition only_in ::
  "(string \<Rightarrow> rat \<Rightarrow> text_line) \<Rightarrow> (string \<rightharpoonup> mon_node) \<Rightarrow> (string \<rightharpoonup> mon_node) \<Rightarrow> string \<Rightarrow> text_line list" where
  "only_in line here there nodeID =
     (case (here nodeID, there nodeID) of (Some node, None) \<Rightarrow> [line nodeID (mn_Position node)] | _ \<Rightarrow> [])"

definition compare_data ::
  "(string \<rightharpoonup> data_location) \<Rightarrow> (string \<rightharpoonup> data_location) \<Rightarrow> string \<Rightarrow> text_line list \<times> int \<Rightarrow> text_line list \<times> int" where
  "compare_data before after key = (\<lambda>(ls, migrationCount).
     case after key of
       None \<Rightarrow> (ls, migrationCount)
     | Some afterData \<Rightarrow>
         (case before key of
            Some beforeData \<Rightarrow>
              (if OwnerNode beforeData \<noteq> OwnerNode afterData
               then (ls @ [DataMoved key (OwnerNode beforeData) (OwnerNode afterData)], migrationCount + 1)
               else (ls, migrationCount))
          | None \<Rightarrow> (ls @ [DataNew key (OwnerNode afterData)], migrationCount)))"

text \<open>The orders in which the nodes after, the nodes before and the data after are visited.\<close>

record compare_orders =
  co_after :: "(string \<rightharpoonup> mon_node) \<Rightarrow> string list"
  co_before :: "(string \<rightharpoonup> mon_node) \<Rightarrow> string list"
  co_data :: "(string \<rightharpoonup> data_location) \<Rightarrow> string list"

definition RenderComparison :: "compare_orders \<Rightarrow> ring_snapshot option \<Rightarrow> ring_snapshot option \<Rightarrow> text_line list" where
  "RenderComparison ord before after =
     (case (before, after) of
        (Some b, Some a) \<Rightarrow>
          let beforeNodes = nodes_by_id (sn_Nodes b); afterNodes = nodes_by_id (sn_Nodes a);
              moved = fold (compare_data (DataDistribution b) (DataDistribution a)) (co_data ord (DataDistribution a)) ([], 0)
          in [Heading ''changes'', Heading ''nodes''] @
             concat (map (only_in NodeAdded afterNodes beforeNodes) (co_after ord afterNodes)) @
             concat (map (only_in NodeRemoved beforeNodes afterNodes) (co_before ord beforeNodes)) @
             [Heading ''migrations''] @ fst moved @
             [Heading ''load balance'',
              ScoreChange (BalanceScore (LoadBalance b)) (BalanceScore (LoadBalance a))
                (BalanceScore (LoadBalance a) - BalanceScore (LoadBalance b)),
              MovedTotal (snd moved)]
      | _ \<Rightarrow> [Heading ''nothing to compare''])"

section \<open>Migration progress\<close>

definition session_lines :: "(string \<rightharpoonup> migration_session) \<Rightarrow> string \<Rightarrow> text_line list" where
  "session_lines sessions sessionID =
     (case sessions sessionID of
        None \<Rightarrow> []
      | Some session \<Rightarrow>
          let progress = (if TotalRecords session > 0 then of_int (CompletedRecords session) / of_int (TotalRecords session) * 100 else 0)
          in [SessionLine sessionID (ms_Type session),
              ProgressLine (CompletedRecords session) (TotalRecords session) progress (FailedRecords session),
              SessionStart (ms_StartTime session)])"

definition failure_line :: "migration_record \<Rightarrow> text_line" where
  "failure_line r = FailureLine (mr_Key r) (SourceNode r) (TargetNode r) (mr_Error r)"

text \<open>The orders in which the sessions and, for the statistics and the failures, the records are visited.\<close>

definition RenderMigrationProgress :: "string list \<Rightarrow> string list \<Rightarrow> string list \<Rightarrow> tracker \<Rightarrow> text_line list" where
  "RenderMigrationProgress session_order stat_order fail_order mt =
     (let activeSessions = GetActiveSessions mt; stats = mt_GetStatistics stat_order mt;
          failed = GetFailedMigrations fail_order mt
      in Heading ''progress'' #
         (if map_len activeSessions > 0 then Heading ''sessions'' # concat (map (session_lines activeSessions) session_order)
          else [Heading ''no session'']) @
         [Heading ''statistics'', TotalLine (TotalMigrations stats), OutcomeLine (CompletedMigrations stats) (FailedMigrations stats),
          RateLine (SuccessRate stats), DurationLine (AverageDuration stats)] @
         (if failed \<noteq> [] then Heading ''failures'' # map failure_line failed else []))"

section \<open>The views of the integration\<close>

definition GetVisualization ::
  "polar \<Rightarrow> string list \<times> string list \<Rightarrow> vis_config \<Rightarrow> monitoring \<Rightarrow> text_line list option" where
  "GetVisualization polar orders config mi =
     (if \<not> mi_IsEnabled mi then Some [Heading ''disabled'']
      else case GetLatestSnapshot (mi_monitor mi) of
        None \<Rightarrow> Some [Heading ''no snapshot data'']
      | Some snapshot \<Rightarrow> RenderRing polar orders (NewRingVisualizer 80 40) (Some snapshot) config)"

definition GetMigrationProgress :: "string list \<Rightarrow> string list \<Rightarrow> string list \<Rightarrow> monitoring \<Rightarrow> text_line list" where
  "GetMigrationProgress session_order stat_order fail_order mi =
     (if \<not> mi_IsEnabled mi then [Heading ''disabled'']
      else RenderMigrationProgress session_order stat_order fail_order (GetMigrationTracker (mi_monitor mi)))"

definition GetComparisonView :: "compare_orders \<Rightarrow> monitoring \<Rightarrow> text_line list" where
  "GetComparisonView ord mi =
     (if \<not> mi_IsEnabled mi then [Heading ''disabled'']
      else
        let history = GetSnapshotHistory 2 (mi_monitor mi)
        in if length history < 2 then [Heading ''two snapshots needed'']
           else RenderComparison ord (Some (history ! 0)) (Some (history ! 1)))"

section \<open>Drawing never leaves the canvas\<close>

definition on_canvas :: "ring_visualizer \<Rightarrow> canvas \<Rightarrow> bool" where
  "on_canvas rv cv \<longleftrightarrow> length cv = nat (rv_height rv) \<and> (\<forall>row \<in> set cv. length row = nat (rv_width rv))"

lemma plot_on_canvas:
  assumes "on_canvas rv cv"
  shows "\<exists>cv'. plot rv x y symbol cv = Some cv' \<and> on_canvas rv cv'"
proof (cases "0 \<le> x \<and> x < rv_width rv \<and> 0 \<le> y \<and> y < rv_height rv")
  case True
  then have y: "nat y < length cv" using assms by (simp add: on_canvas_def)
  then have row: "length (cv ! nat y) = nat (rv_width rv)" using assms by (simp add: on_canvas_def)
  then have "on_canvas rv (cv[nat y := (cv ! nat y)[nat x := symbol]])"
    using assms set_update_subset_insert [of cv "nat y" "(cv ! nat y)[nat x := symbol]"] by (fastforce simp: on_canvas_def)
  then show ?thesis using True y row by (simp add: plot_def)
qed (use assms in \<open>auto simp: plot_def\<close>)

lemma draw_on_canvas:
  assumes "on_canvas rv cv" "\<And>x cv. on_canvas rv cv \<Longrightarrow> \<exists>cv'. draw x cv = Some cv' \<and> on_canvas rv cv'"
  shows "\<exists>cv'. foldM draw xs cv = Some cv' \<and> on_canvas rv cv'"
  by (rule foldM_inv) (use assms in auto)

lemma drawNode_on_canvas: "on_canvas rv cv \<Longrightarrow> \<exists>cv'. drawNodeAtPosition polar rv p symbol cv = Some cv' \<and> on_canvas rv cv'"
  unfolding drawNodeAtPosition_def by (auto split: prod.splits intro: plot_on_canvas)

lemma ring_drawn:
  assumes "0 \<le> rv_height rv" "0 \<le> rv_width rv"
  shows "\<exists>cv. renderCircularRing polar order rv snapshot config = Some cv \<and> on_canvas rv cv"
proof -
  obtain c0 where c0: "blank_canvas rv = Some c0" "on_canvas rv c0" using assms by (simp add: blank_canvas_def on_canvas_def)
  obtain c1 where c1: "drawCircle polar rv (rv_centerX rv) (rv_centerY rv) (rv_radius rv) 0x25CB c0 = Some c1" "on_canvas rv c1"
    unfolding drawCircle_def using draw_on_canvas [OF c0(2)] plot_on_canvas by (metis (no_types, lifting) case_prod_beta)
  obtain c2 where c2: "drawNodes polar rv (sn_Nodes snapshot) c1 = Some c2" "on_canvas rv c2"
    unfolding drawNodes_def using draw_on_canvas [OF c1(2)] drawNode_on_canvas by (metis (no_types, lifting) case_prod_beta)
  obtain c3 where c3: "(if ShowVirtualNodes config then drawVirtualNodes polar rv (sn_VirtualNodes snapshot) c2 else Some c2) = Some c3"
      "on_canvas rv c3"
    unfolding drawVirtualNodes_def using draw_on_canvas [OF c2(2)] drawNode_on_canvas c2(2) by (metis (no_types, lifting))
  have "\<exists>c4. (if ShowDataKeys config then drawDataPoints polar rv (List.map_filter (DataDistribution snapshot) order) c3 else Some c3) = Some c4 \<and>
      on_canvas rv c4"
    unfolding drawDataPoints_def using draw_on_canvas [OF c3(2)] drawNode_on_canvas c3(2) by (metis (no_types, lifting))
  then show ?thesis by (simp add: renderCircularRing_def c0(1) c1(1) c2(1) c3(1))
qed

text \<open>C22: a visualiser of any width and height draws every snapshot, whatever the configuration, the visiting orders and the
  computed cosines and sines: it never panics, and between the title and the details it prints exactly \<open>height\<close> rows of
  \<open>width\<close> runes.\<close>

theorem ring_view_shape:
  assumes "0 \<le> width" "0 \<le> height"
  shows "\<exists>cv. RenderRing polar orders (NewRingVisualizer width height) (Some s) config =
      Some (TitleLine (Timestamp s) # map CanvasRow cv @ renderDetails (snd orders) s config) \<and>
    length cv = nat height \<and> (\<forall>row \<in> set cv. length row = nat width)"
proof -
  let ?rv = "NewRingVisualizer width height"
  have size: "rv_width ?rv = width" "rv_height ?rv = height" by (simp_all add: NewRingVisualizer_def)
  obtain cv where "renderCircularRing polar (fst orders) ?rv s config = Some cv" "on_canvas ?rv cv"
    using ring_drawn [where rv = ?rv] assms unfolding size by blast
  then show ?thesis unfolding on_canvas_def size by (intro exI [of _ cv]) (simp add: RenderRing_def)
qed

theorem ring_view_shape_witness:
  "\<forall>s config. \<exists>cv. RenderRing (\<lambda>r a. (r, 0)) ([], []) (NewRingVisualizer 80 40) (Some s) config =
      Some (TitleLine (Timestamp s) # map CanvasRow cv @ renderDetails [] s config) \<and> length cv = 40"
proof (intro allI)
  fix s config
  have size: "(0 :: int) \<le> 80" "(0 :: int) \<le> 40" by simp_all
  show "\<exists>cv. RenderRing (\<lambda>r a. (r, 0)) ([], []) (NewRingVisualizer 80 40) (Some s) config =
      Some (TitleLine (Timestamp s) # map CanvasRow cv @ renderDetails [] s config) \<and> length cv = 40"
    using ring_view_shape [OF size, where polar = "\<lambda>r a. (r, 0)" and orders = "([], [])" and s = s and config = config]
    by (elim exE conjE) (rule exI, simp)
qed

lemma visualization_returns: "GetVisualization polar orders config mi \<noteq> None"
proof (cases "GetLatestSnapshot (mi_monitor mi)")
  case (Some s)
  obtain cv where "renderCircularRing polar (fst orders) (NewRingVisualizer 80 40) s config = Some cv"
    using ring_drawn [where rv = "NewRingVisualizer 80 40"] unfolding NewRingVisualizer_def ring_visualizer.simps by fastforce
  then show ?thesis by (simp add: GetVisualization_def Some RenderRing_def)
qed (simp add: GetVisualization_def)

section \<open>The comparison lists exactly the changes\<close>

definition moved_keys :: "(string \<rightharpoonup> data_location) \<Rightarrow> (string \<rightharpoonup> data_location) \<Rightarrow> string set" where
  "moved_keys before after =
     {k. \<exists>b a. before k = Some b \<and> after k = Some a \<and> OwnerNode b \<noteq> OwnerNode a}"

lemma compare_data_fold:
  assumes "distinct ks"
  shows "set (fst (fold (compare_data before after) ks (ls, n))) = set ls \<union>
      {DataMoved k (OwnerNode b) (OwnerNode a) | k b a. k \<in> set ks \<and> before k = Some b \<and> after k = Some a \<and> OwnerNode b \<noteq> OwnerNode a} \<union>
      {DataNew k (OwnerNode a) | k a. k \<in> set ks \<and> before k = None \<and> after k = Some a} \<and>
    snd (fold (compare_data before after) ks (ls, n)) = n + int (card (set ks \<inter> moved_keys before after))"
  using assms
proof (induction ks arbitrary: ls n)
  case (Cons k ks)
  have step: "compare_data before after k (ls, n) =
      (ls @ (case (before k, after k) of
         (Some b, Some a) \<Rightarrow> if OwnerNode b \<noteq> OwnerNode a then [DataMoved k (OwnerNode b) (OwnerNode a)] else []
       | (None, Some a) \<Rightarrow> [DataNew k (OwnerNode a)] | _ \<Rightarrow> []), n + (if k \<in> moved_keys before after then 1 else 0))"
    by (auto simp: compare_data_def moved_keys_def split: option.splits)
  have "k \<notin> set ks \<inter> moved_keys before after" using Cons.prems by simp
  then have card: "card (set (k # ks) \<inter> moved_keys before after) =
      card (set ks \<inter> moved_keys before after) + (if k \<in> moved_keys before after then 1 else 0)"
    using Cons.prems by (simp add: Int_insert_left card_insert_if)
  have ih: "distinct ks" using Cons.prems by simp
  show ?case
    unfolding fold_simps step conjunct1 [OF Cons.IH [OF ih]] conjunct2 [OF Cons.IH [OF ih]] card
    by (cases "before k"; cases "after k") auto
qed simp

theorem comparison_lists_moves:
  assumes "is_order (DataDistribution a) (co_data ord (DataDistribution a))"
  shows "DataMoved k n m \<in> set (RenderComparison ord (Some b) (Some a)) \<longleftrightarrow>
      (\<exists>d e. DataDistribution b k = Some d \<and> DataDistribution a k = Some e \<and> OwnerNode d = n \<and> OwnerNode e = m \<and> n \<noteq> m)"
    and "MovedTotal i \<in> set (RenderComparison ord (Some b) (Some a)) \<longleftrightarrow>
      i = int (card (moved_keys (DataDistribution b) (DataDistribution a)))"
proof -
  let ?r = "fold (compare_data (DataDistribution b) (DataDistribution a)) (co_data ord (DataDistribution a)) ([], 0)"
  have ord: "distinct (co_data ord (DataDistribution a))" "set (co_data ord (DataDistribution a)) = dom (DataDistribution a)"
    using assms by (auto simp: is_order_def)
  note r = compare_data_fold [OF ord(1), of "DataDistribution b" "DataDistribution a" "[]" 0]
  have nodes: "x \<in> set (only_in line p q i) \<Longrightarrow> \<exists>j r. x = line j r" for x line p q i
    by (auto simp: only_in_def split: option.splits)
  have other: "DataMoved k n m \<notin> set (only_in NodeAdded p q i)" "DataMoved k n m \<notin> set (only_in NodeRemoved p q i)"
    "MovedTotal j \<notin> set (only_in NodeAdded p q i)" "MovedTotal j \<notin> set (only_in NodeRemoved p q i)" for p q i j
    using nodes by blast+
  show "DataMoved k n m \<in> set (RenderComparison ord (Some b) (Some a)) \<longleftrightarrow>
      (\<exists>d e. DataDistribution b k = Some d \<and> DataDistribution a k = Some e \<and> OwnerNode d = n \<and> OwnerNode e = m \<and> n \<noteq> m)"
  proof -
    have "DataMoved k n m \<in> set (RenderComparison ord (Some b) (Some a)) \<longleftrightarrow> DataMoved k n m \<in> set (fst ?r)"
      by (simp add: RenderComparison_def Let_def other)
    then show ?thesis using conjunct1 [OF r] ord(2) by auto
  qed
  have "MovedTotal i \<notin> set (fst ?r)" using conjunct1 [OF r] by auto
  then have "MovedTotal i \<in> set (RenderComparison ord (Some b) (Some a)) \<longleftrightarrow> i = snd ?r"
    by (simp add: RenderComparison_def Let_def other)
  moreover have "dom (DataDistribution a) \<inter> moved_keys (DataDistribution b) (DataDistribution a) =
      moved_keys (DataDistribution b) (DataDistribution a)"
    by (auto simp: moved_keys_def)
  ultimately show "MovedTotal i \<in> set (RenderComparison ord (Some b) (Some a)) \<longleftrightarrow>
      i = int (card (moved_keys (DataDistribution b) (DataDistribution a)))"
    using conjunct2 [OF r] ord(2) by simp
qed

end
