(* ===== verification/Monitoring_Api.thy ===== *)
theory Monitoring_Api
  imports Visualizer Node_Server "HOL-Library.Sublist"
begin

text \<open>
  \<open>monitoring/monitoring_api.go\<close>: the HTTP interface of the monitor. A response is its status and the value the handler
  passes to \<open>c.JSON\<close>, without the success flag and the time stamp. Parameters are how Gin decodes two more request
  bodies (\<open>bind_ids\<close>, \<open>bind_keys\<close>) and its \<open>DefaultQuery\<close>, a function of the name and the default. The monitored cache is only read.
\<close>

section \<open>Library functions\<close>

text \<open>\<open>strconv.Atoi\<close>: an optional sign, digits, and a value of 64 bits.\<close>

fun digits_value :: "string \<Rightarrow> int \<Rightarrow> int option" where
  "digits_value [] acc = Some acc"
| "digits_value (c # s) acc =
     (if byte_in c 48 57 then digits_value s (10 * acc + int (of_char c) - 48) else None)"

definition Atoi :: "string \<Rightarrow> int option" where
  "Atoi s =
     (let neg = (s \<noteq> [] \<and> hd s = CHR ''-''); ds = (if s \<noteq> [] \<and> hd s \<in> set ''+-'' then tl s else s)
      in if ds = [] then None
         else do {
           n \<leftarrow> digits_value ds 0;
           let v = (if neg then - n else n);
           if - (2 ^ 63) \<le> v \<and> v < 2 ^ 63 then Some v else None
         })"

type_synonym default_query = "string \<Rightarrow> string \<Rightarrow> string"

record monitor_gin = gin +
  bind_ids :: "json option \<Rightarrow> string list option"
  bind_keys :: "json option \<Rightarrow> string list option"

section \<open>Advice\<close>

definition contains :: "string \<Rightarrow> string \<Rightarrow> bool" where
  "contains s substr =
     list_ex (\<lambda>i. take (length substr) (drop i s) = substr)
       (if length substr \<le> length s then [0..<length s - length substr + 1] else [])"

lemma contains_sublist: "contains s substr \<longleftrightarrow> sublist substr s"
proof
  assume "contains s substr"
  then obtain i where "take (length substr) (drop i s) = substr" by (auto simp: contains_def list_ex_iff split: if_splits)
  then have "s = take i s @ substr @ drop (length substr) (drop i s)" by (metis append_take_drop_id)
  then show "sublist substr s" unfolding sublist_def by blast
next
  assume "sublist substr s"
  then obtain ps ss where s: "s = ps @ substr @ ss" by (auto simp: sublist_def)
  then have "take (length substr) (drop (length ps) s) = substr" "length substr + length ps \<le> length s" by simp_all
  then show "contains s substr" unfolding contains_def list_ex_iff by (intro bexI [of _ "length ps"]) auto
qed

datatype advice = MigrationDone | CheckNodes | NodeUnreachable | RequestTimedOut | DataMissing | CheckLogs

definition generateRecommendation :: "migration_record \<Rightarrow> advice" where
  "generateRecommendation r =
     (if mr_Status r = Completed then MigrationDone
      else if mr_Error r = [] then CheckNodes
      else if contains (mr_Error r) ''connection refused'' then NodeUnreachable
      else if contains (mr_Error r) ''timeout'' then RequestTimedOut
      else if contains (mr_Error r) ''not found'' then DataMissing
      else CheckLogs)"

section \<open>State and responses\<close>

record monitoring_api =
  api_monitor :: ring_monitor
  api_visualizer :: ring_visualizer

definition NewMonitoringAPI :: "ring_monitor \<Rightarrow> monitoring_api" where
  "NewMonitoringAPI monitor = \<lparr> api_monitor = monitor, api_visualizer = NewRingVisualizer 80 40 \<rparr>"

record migration_analysis =
  an_status :: migration_status
  an_error :: string
  an_duration :: duration
  an_recommendation :: advice

datatype api_body =
    ErrorBody string | MessageBody string
  | SnapshotBody ring_snapshot | HistoryBody "ring_snapshot list" int
  | RingViewBody "text_line list" vis_config go_time | ComparisonBody "text_line list" ring_snapshot ring_snapshot
  | SessionsBody "string \<rightharpoonup> migration_session" int | StatisticsBody migration_statistics
  | FailuresBody "migration_record list" int | RecordBody migration_record
  | ProgressBody "text_line list" migration_statistics "string \<rightharpoonup> migration_session"
  | ReportBody failure_report | AnalysisBody "string \<rightharpoonup> migration_analysis" | UpdatedBody int

type_synonym api_response = "int \<times> api_body"

text \<open>What one call reads from its surroundings: the clock, the visiting orders and the cosines and sines.\<close>

record api_env =
  v_now :: go_time
  v_snapshot :: mon_orders
  v_data :: "string list \<times> string list"
  v_compare :: compare_orders
  v_sessions :: "string list"
  v_records :: "string list"
  v_failed :: "string list"
  v_reasons :: "(string \<rightharpoonup> int) \<Rightarrow> string list"
  v_polar :: polar

abbreviation api_tracker :: "monitoring_api \<Rightarrow> tracker" where
  "api_tracker api \<equiv> GetMigrationTracker (api_monitor api)"

section \<open>Handlers that only read\<close>

definition GetRingSnapshot :: "monitoring_api \<Rightarrow> api_response" where
  "GetRingSnapshot api =
     (case GetLatestSnapshot (api_monitor api) of
        None \<Rightarrow> (StatusNotFound, ErrorBody ''no_snapshot'')
      | Some snapshot \<Rightarrow> (StatusOK, SnapshotBody snapshot))"

definition GetRingHistory :: "default_query \<Rightarrow> monitoring_api \<Rightarrow> api_response" where
  "GetRingHistory query api =
     (let limit = (case Atoi (query ''limit'' ''10'') of None \<Rightarrow> 10 | Some n \<Rightarrow> n);
          history = GetSnapshotHistory limit (api_monitor api)
      in (StatusOK, HistoryBody history (int (length history))))"

definition GetRingVisualization :: "api_env \<Rightarrow> default_query \<Rightarrow> monitoring_api \<Rightarrow> api_response option" where
  "GetRingVisualization e query api =
     (case GetLatestSnapshot (api_monitor api) of
        None \<Rightarrow> Some (StatusNotFound, ErrorBody ''no_snapshot'')
      | Some snapshot \<Rightarrow>
          let config = \<lparr> ShowVirtualNodes = (query ''virtual_nodes'' ''false'' = ''true''),
                         ShowDataKeys = (query ''data_keys'' ''true'' = ''true''),
                         ShowMigrations = (query ''migrations'' ''true'' = ''true''),
                         CompactMode = (query ''compact'' ''false'' = ''true''),
                         ColorEnabled = (query ''color'' ''false'' = ''true'') \<rparr>
          in do {
            visualization \<leftarrow> RenderRing (v_polar e) (v_data e) (api_visualizer api) (Some snapshot) config;
            Some (StatusOK, RingViewBody visualization config (Timestamp snapshot))
          })"

definition GetRingComparison :: "api_env \<Rightarrow> monitoring_api \<Rightarrow> api_response" where
  "GetRingComparison e api =
     (let history = GetSnapshotHistory 2 (api_monitor api)
      in if length history < 2 then (StatusBadRequest, ErrorBody ''insufficient_data'')
         else (StatusOK, ComparisonBody (RenderComparison (v_compare e) (Some (history ! 0)) (Some (history ! 1)))
                 (history ! 0) (history ! 1)))"

definition GetActiveMigrations :: "monitoring_api \<Rightarrow> api_response" where
  "GetActiveMigrations api =
     (let activeSessions = GetActiveSessions (api_tracker api)
      in (StatusOK, SessionsBody activeSessions (map_len activeSessions)))"

definition GetMigrationStatistics :: "api_env \<Rightarrow> monitoring_api \<Rightarrow> api_response" where
  "GetMigrationStatistics e api = (StatusOK, StatisticsBody (mt_GetStatistics (v_records e) (api_tracker api)))"

definition GetMigrationFailures :: "api_env \<Rightarrow> monitoring_api \<Rightarrow> api_response" where
  "GetMigrationFailures e api =
     (let failures = GetFailedMigrations (v_records e) (api_tracker api)
      in (StatusOK, FailuresBody failures (int (length failures))))"

definition api_GetMigrationRecord :: "string \<Rightarrow> monitoring_api \<Rightarrow> api_response" where
  "api_GetMigrationRecord migrationID api =
     (if migrationID = [] then (StatusBadRequest, ErrorBody ''missing_id'')
      else case GetMigrationRecord migrationID (api_tracker api) of
        None \<Rightarrow> (StatusNotFound, ErrorBody ''record_not_found'')
      | Some r \<Rightarrow> (StatusOK, RecordBody r))"

definition api_GetMigrationProgress :: "api_env \<Rightarrow> monitoring_api \<Rightarrow> api_response" where
  "api_GetMigrationProgress e api =
     (StatusOK, ProgressBody (RenderMigrationProgress (v_sessions e) (v_records e) (v_failed e) (api_tracker api))
        (mt_GetStatistics (v_records e) (api_tracker api)) (GetActiveSessions (api_tracker api)))"

definition GetDiagnosisReport :: "api_env \<Rightarrow> monitoring_api \<Rightarrow> api_response" where
  "GetDiagnosisReport e api =
     (StatusOK, ReportBody (GenerateFailureReport (v_now e) (v_records e) (v_reasons e) (api_tracker api)))"

definition analyse_record :: "tracker \<Rightarrow> string \<Rightarrow> (string \<rightharpoonup> migration_analysis) \<Rightarrow> (string \<rightharpoonup> migration_analysis)" where
  "analyse_record mt migrationID m =
     (case GetMigrationRecord migrationID mt of
        None \<Rightarrow> m
      | Some r \<Rightarrow> m(migrationID \<mapsto> \<lparr> an_status = mr_Status r, an_error = mr_Error r, an_duration = mr_Duration r,
                                       an_recommendation = generateRecommendation r \<rparr>))"

definition AnalyzeMigrationIssues :: "monitor_gin \<Rightarrow> json option \<Rightarrow> monitoring_api \<Rightarrow> api_response" where
  "AnalyzeMigrationIssues g body api =
     (case bind_ids g body of
        None \<Rightarrow> (StatusBadRequest, ErrorBody ''invalid_request'')
      | Some ids \<Rightarrow> (StatusOK, AnalysisBody (fold (analyse_record (api_tracker api)) ids Map.empty)))"

text \<open>The analysis covers exactly the known identifiers of the request.\<close>

lemma analysis_exact:
  "fold (analyse_record mt) ids m k =
     (if k \<in> set ids \<and> GetMigrationRecord k mt \<noteq> None then analyse_record mt k Map.empty k else m k)"
proof (induction ids arbitrary: m)
  case (Cons a ids)
  have step: "analyse_record mt a m k =
      (if k = a \<and> GetMigrationRecord a mt \<noteq> None then analyse_record mt a Map.empty a else m k)" for m
    by (auto simp: analyse_record_def split: option.splits)
  show ?case unfolding fold_simps Cons.IH step by auto
qed simp

section \<open>Handlers that change the monitor\<close>

definition EnableMonitoring :: "monitoring_api \<Rightarrow> api_response \<times> monitoring_api" where
  "EnableMonitoring api = ((StatusOK, MessageBody ''enabled''), api\<lparr> api_monitor := Enable (api_monitor api) \<rparr>)"

definition DisableMonitoring :: "monitoring_api \<Rightarrow> api_response \<times> monitoring_api" where
  "DisableMonitoring api = ((StatusOK, MessageBody ''disabled''), api\<lparr> api_monitor := Disable (api_monitor api) \<rparr>)"

definition api_CaptureSnapshot :: "api_env \<Rightarrow> dist_cache \<Rightarrow> monitoring_api \<Rightarrow> api_response \<times> monitoring_api" where
  "api_CaptureSnapshot e dc api =
     (case CaptureSnapshot (v_now e) (v_snapshot e) dc (api_monitor api) of (r, monitor) \<Rightarrow>
        ((case r of
            None \<Rightarrow> (StatusInternalServerError, ErrorBody ''capture_failed'')
          | Some snapshot \<Rightarrow> (StatusOK, SnapshotBody snapshot)),
         api\<lparr> api_monitor := monitor \<rparr>))"

definition api_UpdateDataDistribution ::
  "monitor_gin \<Rightarrow> json option \<Rightarrow> dist_cache \<Rightarrow> monitoring_api \<Rightarrow> (api_response \<times> monitoring_api) option" where
  "api_UpdateDataDistribution g body dc api =
     (case bind_keys g body of
        None \<Rightarrow> Some ((StatusBadRequest, ErrorBody ''invalid_request''), api)
      | Some keys \<Rightarrow> do {
          monitor \<leftarrow> UpdateDataDistribution keys dc (api_monitor api);
          Some ((StatusOK, UpdatedBody (int (length keys))), api\<lparr> api_monitor := monitor \<rparr>)
        })"

section \<open>Routes\<close>

datatype monitor_handler =
    M_Snapshot | M_History | M_Visualization | M_Comparison
  | M_Active | M_Statistics | M_Failures | M_Record | M_Progress
  | M_Report | M_Analyze | M_Enable | M_Disable | M_Capture | M_Update

definition RegisterRoutes :: "(http_method \<times> string \<times> monitor_handler) list" where
  "RegisterRoutes =
    [(GET, ''/monitor/ring/snapshot'', M_Snapshot), (GET, ''/monitor/ring/history'', M_History),
     (GET, ''/monitor/ring/visualization'', M_Visualization), (GET, ''/monitor/ring/comparison'', M_Comparison),
     (GET, ''/monitor/migration/active'', M_Active), (GET, ''/monitor/migration/statistics'', M_Statistics),
     (GET, ''/monitor/migration/failures'', M_Failures), (GET, ''/monitor/migration/record/:id'', M_Record),
     (GET, ''/monitor/migration/progress'', M_Progress),
     (GET, ''/monitor/diagnosis/report'', M_Report), (POST, ''/monitor/diagnosis/analyze'', M_Analyze),
     (POST, ''/monitor/control/enable'', M_Enable), (POST, ''/monitor/control/disable'', M_Disable),
     (POST, ''/monitor/control/capture'', M_Capture), (POST, ''/monitor/data/update'', M_Update)]"

definition reading :: "monitoring_api \<Rightarrow> api_response \<Rightarrow> (api_response \<times> monitoring_api) option" where
  "reading api r = Some (r, api)"

fun monitor_handle ::
  "monitor_handler \<Rightarrow> monitor_gin \<Rightarrow> api_env \<Rightarrow> dist_cache \<Rightarrow> string \<Rightarrow> default_query \<Rightarrow> json option \<Rightarrow> monitoring_api \<Rightarrow>
   (api_response \<times> monitoring_api) option" where
  "monitor_handle M_Snapshot g e dc param query body api = reading api (GetRingSnapshot api)"
| "monitor_handle M_History g e dc param query body api = reading api (GetRingHistory query api)"
| "monitor_handle M_Visualization g e dc param query body api = Option.bind (GetRingVisualization e query api) (reading api)"
| "monitor_handle M_Comparison g e dc param query body api = reading api (GetRingComparison e api)"
| "monitor_handle M_Active g e dc param query body api = reading api (GetActiveMigrations api)"
| "monitor_handle M_Statistics g e dc param query body api = reading api (GetMigrationStatistics e api)"
| "monitor_handle M_Failures g e dc param query body api = reading api (GetMigrationFailures e api)"
| "monitor_handle M_Record g e dc param query body api = reading api (api_GetMigrationRecord param api)"
| "monitor_handle M_Progress g e dc param query body api = reading api (api_GetMigrationProgress e api)"
| "monitor_handle M_Report g e dc param query body api = reading api (GetDiagnosisReport e api)"
| "monitor_handle M_Analyze g e dc param query body api = reading api (AnalyzeMigrationIssues g body api)"
| "monitor_handle M_Enable g e dc param query body api = Some (EnableMonitoring api)"
| "monitor_handle M_Disable g e dc param query body api = Some (DisableMonitoring api)"
| "monitor_handle M_Capture g e dc param query body api = Some (api_CaptureSnapshot e dc api)"
| "monitor_handle M_Update g e dc param query body api = api_UpdateDataDistribution g body dc api"

definition monitor_serve ::
  "monitor_gin \<Rightarrow> api_env \<Rightarrow> dist_cache \<Rightarrow> default_query \<Rightarrow> http_request \<Rightarrow> monitoring_api \<Rightarrow>
   (api_response \<times> monitoring_api) option" where
  "monitor_serve g e dc query req api =
     (case find_route (gin.truncate g) (r_method req) (r_path req) RegisterRoutes of
        None \<Rightarrow> Some ((StatusNotFound, ErrorBody []), api)
      | Some (h, param) \<Rightarrow> monitor_handle h g e dc param query (r_body req) api)"

text \<open>A GET request never changes the monitor, and it never panics on an interface made by \<open>NewMonitoringAPI\<close>.\<close>

lemma get_routes:
  assumes "find_route g GET path RegisterRoutes = Some (h, param)"
  shows "h \<in> {M_Snapshot, M_History, M_Visualization, M_Comparison, M_Active, M_Statistics, M_Failures, M_Record, M_Progress, M_Report}"
  using assms by (auto simp: RegisterRoutes_def split: option.splits)

lemma visualization_drawn:
  assumes "api_visualizer api = NewRingVisualizer 80 40"
  shows "GetRingVisualization e query api \<noteq> None"
proof (cases "GetLatestSnapshot (api_monitor api)")
  case (Some s)
  have drawn: "RenderRing (v_polar e) (v_data e) (api_visualizer api) (Some s) config \<noteq> None" for config
    using ring_drawn [where rv = "NewRingVisualizer 80 40" and polar = "v_polar e" and order = "fst (v_data e)" and snapshot = s
        and config = config] assms
    by (auto simp: RenderRing_def NewRingVisualizer_def)
  then show ?thesis unfolding GetRingVisualization_def Some option.case Let_def bind_eq_None_conv by blast
qed (simp add: GetRingVisualization_def)

theorem monitor_reads_only:
  assumes "api_visualizer api = NewRingVisualizer 80 40" "r_method req = GET"
  shows "\<exists>resp. monitor_serve g e dc query req api = Some (resp, api)"
proof (cases "find_route (gin.truncate g) GET (r_path req) RegisterRoutes")
  case None
  then show ?thesis using assms(2) by (simp add: monitor_serve_def)
next
  case (Some hp)
  obtain h param where hp: "hp = (h, param)" by (cases hp)
  obtain v where v: "GetRingVisualization e query api = Some v" using visualization_drawn [OF assms(1), of e query] by blast
  have "\<exists>resp. monitor_handle h g e dc param query (r_body req) api = Some (resp, api)"
    using get_routes [OF Some [unfolded hp]] by (auto simp: reading_def v)
  then show ?thesis using Some hp assms(2) by (simp add: monitor_serve_def)
qed

end
