(* ===== verification/Cache_Server.thy ===== *)
theory Cache_Server
  imports Health Client_Props
begin

text \<open>
  The single-node server of \<open>core/server.go\<close> in front of an LRU cache, the validation of a node's
  configuration in \<open>cmd/node/main.go\<close>, and the forwarding helpers of \<open>distributed/api_handlers.go\<close>. The
  multiplexer of \<open>net/http\<close> matches the path against the three registered patterns after it has cleaned
  it; an uncleaned path is answered by a redirection.
\<close>

section \<open>The multiplexer\<close>








section \<open>The handlers\<close>








section \<open>Configuration\<close>

datatype config_error = EmptyNodeID | EmptyAddress | EmptyClusterNodes | NodeNotInCluster string

definition validateConfig :: "node_config \<Rightarrow> config_error + node_config" where
  "validateConfig config =
     (if cfg_NodeID config = [] then Inl EmptyNodeID
      else if cfg_Address config = [] then Inl EmptyAddress
      else if map_len (cfg_ClusterNodes config) = 0 then Inl EmptyClusterNodes
      else if cfg_NodeID config \<notin> dom (cfg_ClusterNodes config) then Inl (NodeNotInCluster (cfg_NodeID config))
      else
        let config = (if cfg_CacheSize config = 0 then config\<lparr> cfg_CacheSize := 1000 \<rparr> else config)
        in Inr (if cfg_VirtualNodes config = 0 then config\<lparr> cfg_VirtualNodes := 150 \<rparr> else config))"

section \<open>Forwarding helpers of the handlers\<close>

datatype forward_error = UnknownNode string | ForwardRequestFailed | ForwardDecodeFailed

definition getNodeAddress :: "string \<Rightarrow> cluster_manager \<Rightarrow> forward_error + string" where
  "getNodeAddress node_id cm =
     (case cm_GetNodes cm node_id of None \<Rightarrow> Inl (UnknownNode node_id) | Some i \<Rightarrow> Inr (ni_Address i))"

definition decode_response :: "http_response option \<times> 'w \<Rightarrow> (forward_error + (string \<times> json) list) \<times> 'w" where
  "decode_response rw = (case rw of
       (None, w) \<Rightarrow> (Inl ForwardRequestFailed, w)
     | (Some resp, w) \<Rightarrow>
         (case Option.bind (r_json resp) object_fields of
            None \<Rightarrow> Inl ForwardDecodeFailed
          | Some kvs \<Rightarrow>
              (case (string_field ''key'' kvs [], string_field ''value'' kvs [], bool_field ''found'' kvs False,
                     string_field ''node_id'' kvs [], string_field ''message'' kvs []) of
                 (Some _, Some _, Some _, Some _, Some _) \<Rightarrow> Inr kvs
               | _ \<Rightarrow> Inl ForwardDecodeFailed), w))"

definition forwardGetRequest ::
  "'w net \<Rightarrow> string \<Rightarrow> string \<Rightarrow> cluster_manager \<Rightarrow> 'w \<Rightarrow> (forward_error + (string \<times> json) list) \<times> 'w" where
  "forwardGetRequest net targetNodeID key cm w =
     (case getNodeAddress targetNodeID cm of
        Inl err \<Rightarrow> (Inl err, w)
      | Inr addr \<Rightarrow> decode_response (http_do net GET addr (internal_url key) None w))"

definition forwardSetRequest ::
  "'w net \<Rightarrow> string \<Rightarrow> string \<Rightarrow> string \<Rightarrow> cluster_manager \<Rightarrow> 'w \<Rightarrow> (forward_error + (string \<times> json) list) \<times> 'w" where
  "forwardSetRequest net targetNodeID key value cm w =
     (case getNodeAddress targetNodeID cm of
        Inl err \<Rightarrow> (Inl err, w)
      | Inr addr \<Rightarrow> decode_response (http_do net PUT addr (internal_url key) (Some (value_body value)) w))"

section \<open>Storing and reading back\<close>









end
