(* ===== verification/Hashes.thy ===== *)
theory Hashes
  imports Sha1 Http
begin

text \<open>
  The hash functions of the tutorial programs: \<open>crypto/md5\<close>, \<open>hash/fnv\<close> (32 bit, variant 1a) and the
  polynomial hash over the runes of a string that \<open>virtual_nodes.go\<close> writes out. Ranging over a Go
  string decodes UTF-8; a byte that starts no valid sequence is the rune \<open>0xFFFD\<close>.
\<close>

section \<open>MD5\<close>

definition md5_K :: "uint32 list" where
  "md5_K =
    [0xD76AA478, 0xE8C7B756, 0x242070DB, 0xC1BDCEEE, 0xF57C0FAF, 0x4787C62A, 0xA8304613, 0xFD469501,
     0x698098D8, 0x8B44F7AF, 0xFFFF5BB1, 0x895CD7BE, 0x6B901122, 0xFD987193, 0xA679438E, 0x49B40821,
     0xF61E2562, 0xC040B340, 0x265E5A51, 0xE9B6C7AA, 0xD62F105D, 0x02441453, 0xD8A1E681, 0xE7D3FBC8,
     0x21E1CDE6, 0xC33707D6, 0xF4D50D87, 0x455A14ED, 0xA9E3E905, 0xFCEFA3F8, 0x676F02D9, 0x8D2A4C8A,
     0xFFFA3942, 0x8771F681, 0x6D9D6122, 0xFDE5380C, 0xA4BEEA44, 0x4BDECFA9, 0xF6BB4B60, 0xBEBFBC70,
     0x289B7EC6, 0xEAA127FA, 0xD4EF3085, 0x04881D05, 0xD9D4D039, 0xE6DB99E5, 0x1FA27CF8, 0xC4AC5665,
     0xF4292244, 0x432AFF97, 0xAB9423A7, 0xFC93A039, 0x655B59C3, 0x8F0CCC92, 0xFFEFF47D, 0x85845DD1,
     0x6FA87E4F, 0xFE2CE6E0, 0xA3014314, 0x4E0811A1, 0xF7537E82, 0xBD3AF235, 0x2AD7D2BB, 0xEB86D391]"

definition md5_S :: "nat list" where
  "md5_S = concat (map (\<lambda>r. concat (replicate 4 r)) [[7, 12, 17, 22], [5, 9, 14, 20], [4, 11, 16, 23], [6, 10, 15, 21]])"

definition le_word :: "uint8 list \<Rightarrow> uint32" where
  "le_word bs = be_word (rev bs)"

fun le_words :: "uint8 list \<Rightarrow> uint32 list" where
  "le_words (a # b # c # d # r) = le_word [a, b, c, d] # le_words r"
| "le_words _ = []"

definition le_bytes :: "uint32 \<Rightarrow> uint8 list" where
  "le_bytes w = rev (word_bytes w)"

definition md5_pad :: "uint8 list \<Rightarrow> uint8 list" where
  "md5_pad m =
     (let n = length m; bits = (of_nat (8 * n) :: 64 word) in
      m @ [0x80] @ replicate ((119 - n mod 64) mod 64) 0 @
      le_bytes (ucast bits) @ le_bytes (ucast (drop_bit 32 bits)))"

type_synonym md5_state = "uint32 \<times> uint32 \<times> uint32 \<times> uint32"

definition md5_f :: "nat \<Rightarrow> uint32 \<Rightarrow> uint32 \<Rightarrow> uint32 \<Rightarrow> uint32 \<times> nat" where
  "md5_f i b c d =
     (if i < 16 then ((b AND c) OR (NOT b AND d), i)
      else if i < 32 then ((d AND b) OR (NOT d AND c), (5 * i + 1) mod 16)
      else if i < 48 then (b XOR c XOR d, (3 * i + 5) mod 16)
      else (c XOR (b OR NOT d), (7 * i) mod 16))"

definition md5_step :: "uint32 list \<Rightarrow> nat \<Rightarrow> md5_state \<Rightarrow> md5_state" where
  "md5_step ws i st = (case st of (a, b, c, d) \<Rightarrow>
     (case md5_f i b c d of (f, g) \<Rightarrow>
       (d, b + rotl32 (md5_S ! i) (a + f + md5_K ! i + ws ! g), b, c)))"

definition md5_block :: "md5_state \<Rightarrow> uint32 list \<Rightarrow> md5_state" where
  "md5_block st ws = (case st of (a0, b0, c0, d0) \<Rightarrow>
     (case fold (md5_step ws) [0..<64] st of (a, b, c, d) \<Rightarrow> (a0 + a, b0 + b, c0 + c, d0 + d)))"

fun md5_blocks :: "nat \<Rightarrow> md5_state \<Rightarrow> uint32 list \<Rightarrow> md5_state" where
  "md5_blocks 0 st ws = st"
| "md5_blocks (Suc n) st ws = md5_blocks n (md5_block st (take 16 ws)) (drop 16 ws)"

definition md5_Sum :: "uint8 list \<Rightarrow> uint8 list" where
  "md5_Sum m =
     (let ws = le_words (md5_pad m) in
      case md5_blocks (length ws div 16) (0x67452301, 0xEFCDAB89, 0x98BADCFE, 0x10325476) ws of
        (a, b, c, d) \<Rightarrow> le_bytes a @ le_bytes b @ le_bytes c @ le_bytes d)"

lemma length_md5_Sum: "length (md5_Sum m) = 16"
  by (simp add: md5_Sum_def Let_def le_bytes_def word_bytes_def split: prod.split)

section \<open>FNV-1a\<close>

definition fnv32a :: "uint8 list \<Rightarrow> uint32" where
  "fnv32a bs = foldl (\<lambda>h b. (h XOR ucast b) * 16777619) 2166136261 bs"

section \<open>Runes\<close>

definition byte_val :: "char \<Rightarrow> nat" where "byte_val c = of_char c"

definition first_rune :: "string \<Rightarrow> nat" where
  "first_rune s =
     (let b = (\<lambda>i. byte_val (s ! i)) in
      if rune_len s = 1 then b 0
      else if rune_len s = 2 then (b 0 mod 32) * 64 + b 1 mod 64
      else if rune_len s = 3 then (b 0 mod 16) * 4096 + (b 1 mod 64) * 64 + b 2 mod 64
      else if rune_len s = 4 then (b 0 mod 8) * 262144 + (b 1 mod 64) * 4096 + (b 2 mod 64) * 64 + b 3 mod 64
      else 0xFFFD)"

function runes :: "string \<Rightarrow> nat list" where
  "runes s = (if s = [] then [] else first_rune s # runes (drop (max 1 (rune_len s)) s))"
  by pat_completeness auto
termination
  by (relation "measure length") auto

declare runes.simps [simp del]

lemma runes_ascii: "\<forall>c \<in> set s. byte_in c 0 0x7F \<Longrightarrow> runes s = map byte_val s"
proof (induction s)
  case (Cons a s)
  then have "rune_len (a # s) = 1" by simp
  then show ?case using Cons by (subst runes.simps) (simp add: first_rune_def)
qed (subst runes.simps, simp)

end
