(* ===== verification/Tutorial_Ring.thy ===== *)
theory Tutorial_Ring
  imports Hashes Dist_Ring "HOL-Library.Signed_Division"
begin

text \<open>
  \<open>tutorial/04-consistent-hash\<close>: the plain hash ring of \<open>hash_ring.go\<close> and the weighted ring with virtual
  nodes of \<open>virtual_nodes.go\<close>. The maps of the source hold pointers to nodes that no operation changes, so
  they are maps to values. A nil pointer as a result is the inner \<open>None\<close>, a nil dereference is the outer
  one. The loop that resolves hash collisions need not end; it is a partial function whose \<open>None\<close> means
  that it runs forever. Printing is not modelled.
\<close>

record tnode =
  tn_ID :: string
  tn_Address :: string
  tn_Weight :: int

section \<open>Shared search\<close>

definition start_index :: "uint32 list \<Rightarrow> uint32 \<Rightarrow> nat" where
  "start_index hs h = sort_Search (length hs) (\<lambda>i. h \<le> hs ! i)"

text \<open>\<open>visited\<close> is the Go map of the identifiers seen so far.\<close>

fun replica_loop ::
  "(uint32 \<Rightarrow> tnode option) \<Rightarrow> uint32 list \<Rightarrow> nat \<Rightarrow> int \<Rightarrow> nat list \<Rightarrow> tnode list \<times> (string \<Rightarrow> bool) \<Rightarrow>
   tnode list option" where
  "replica_loop look hs start count [] (nodes, visited) = Some nodes"
| "replica_loop look hs start count (i # is) (nodes, visited) =
     (if int (length nodes) < count then do {
        node \<leftarrow> look (hs ! ((start + i) mod length hs));
        replica_loop look hs start count is
          (if \<not> visited (tn_ID node) then (nodes @ [node], visited(tn_ID node := True)) else (nodes, visited))
      } else Some nodes)"

definition replicas :: "(uint32 \<Rightarrow> tnode option) \<Rightarrow> uint32 list \<Rightarrow> uint32 \<Rightarrow> int \<Rightarrow> tnode list option" where
  "replicas look hs keyHash count =
     (if hs = [] \<or> count \<le> 0 then Some []
      else replica_loop look hs (start_index hs keyHash) count [0..<length hs] ([], \<lambda>_. False))"

definition count_node :: "string \<Rightarrow> (string \<rightharpoonup> int) \<Rightarrow> (string \<rightharpoonup> int)" where
  "count_node n m = m(n \<mapsto> (case m n of None \<Rightarrow> 0 | Some c \<Rightarrow> c) + 1)"

section \<open>The plain ring\<close>

record hash_ring =
  hr_nodes :: "uint32 \<rightharpoonup> tnode"
  sortedKeys :: "uint32 list"

definition NewHashRing :: hash_ring where
  "NewHashRing = \<lparr> hr_nodes = Map.empty, sortedKeys = [] \<rparr>"

definition hr_hash :: "string \<Rightarrow> uint32" where
  "hr_hash key =
     (let hashBytes = md5_Sum (bytes key) in
      push_bit 24 (ucast (hashBytes ! 0)) + push_bit 16 (ucast (hashBytes ! 1)) +
      push_bit 8 (ucast (hashBytes ! 2)) + ucast (hashBytes ! 3))"

definition hr_AddNode :: "tnode \<Rightarrow> hash_ring \<Rightarrow> hash_ring" where
  "hr_AddNode node hr =
     (let nodeHash = hr_hash (tn_ID node) in
      if hr_nodes hr nodeHash \<noteq> None then hr
      else hr\<lparr> hr_nodes := (hr_nodes hr)(nodeHash \<mapsto> node), sortedKeys := sort (sortedKeys hr @ [nodeHash]) \<rparr>)"

definition hr_RemoveNode :: "string \<Rightarrow> hash_ring \<Rightarrow> hash_ring" where
  "hr_RemoveNode node_id hr =
     (let nodeHash = hr_hash node_id in
      if hr_nodes hr nodeHash = None then hr
      else hr\<lparr> hr_nodes := (hr_nodes hr)(nodeHash := None), sortedKeys := remove1 nodeHash (sortedKeys hr) \<rparr>)"

definition hr_GetNode :: "string \<Rightarrow> hash_ring \<Rightarrow> tnode option option" where
  "hr_GetNode key hr =
     (if sortedKeys hr = [] then Some None
      else do {
        nodeHash \<leftarrow> search_hash (sortedKeys hr) (hr_hash key);
        node \<leftarrow> hr_nodes hr nodeHash;
        Some (Some node)
      })"

definition hr_GetNodes :: "string \<Rightarrow> int \<Rightarrow> hash_ring \<Rightarrow> tnode list option" where
  "hr_GetNodes key count hr = replicas (hr_nodes hr) (sortedKeys hr) (hr_hash key) count"

definition GetAllNodes :: "uint32 list \<Rightarrow> hash_ring \<Rightarrow> tnode list" where
  "GetAllNodes order hr = List.map_filter (hr_nodes hr) order"

definition distribute_key ::
  "(string \<Rightarrow> tnode option option) \<Rightarrow> string \<Rightarrow> (string \<rightharpoonup> int) \<Rightarrow> (string \<rightharpoonup> int) option" where
  "distribute_key get key m = do {
     r \<leftarrow> get key;
     Some (case r of None \<Rightarrow> m | Some node \<Rightarrow> count_node (tn_ID node) m)
   }"

definition CalculateDataDistribution :: "string list \<Rightarrow> hash_ring \<Rightarrow> (string \<rightharpoonup> int) option" where
  "CalculateDataDistribution keys hr = foldM (distribute_key (\<lambda>key. hr_GetNode key hr)) keys Map.empty"

section \<open>The ring with virtual nodes\<close>

record tvirtual =
  tv_Hash :: uint32
  tv_PhysicalNode :: tnode
  tv_VirtualID :: string

record vring =
  virtualNodes :: "uint32 \<rightharpoonup> tvirtual"
  sortedHashes :: "uint32 list"
  physicalNodes :: "string \<rightharpoonup> tnode"
  virtualCount :: int

definition NewVirtualHashRing :: "int \<Rightarrow> vring" where
  "NewVirtualHashRing n = \<lparr> virtualNodes = Map.empty, sortedHashes = [], physicalNodes = Map.empty, virtualCount = n \<rparr>"

definition poly_step :: "uint32 \<Rightarrow> nat \<Rightarrow> uint32" where
  "poly_step h c = h * 31 + of_nat c"

definition vr_hash :: "string \<Rightarrow> uint32" where
  "vr_hash key = foldl poly_step 0 (runes key)"

definition virtual_id :: "string \<Rightarrow> nat \<Rightarrow> string" where
  "virtual_id node_id i = node_id @ ''#'' @ Itoa i"

definition retry_id :: "string \<Rightarrow> nat \<Rightarrow> uint32 \<Rightarrow> string" where
  "retry_id node_id i h = node_id @ ''#'' @ Itoa i @ ''#'' @ Itoa (unat (h mod 1000))"

partial_function (option) resolve ::
  "(uint32 \<rightharpoonup> tvirtual) \<Rightarrow> string \<Rightarrow> nat \<Rightarrow> string \<Rightarrow> uint32 \<Rightarrow> (string \<times> uint32) option" where
  "resolve taken node_id i virtualID virtualHash =
     (if taken virtualHash = None then Some (virtualID, virtualHash)
      else resolve taken node_id i (retry_id node_id i virtualHash) (vr_hash (retry_id node_id i virtualHash)))"

definition add_virtual_node :: "tnode \<Rightarrow> nat \<Rightarrow> vring \<Rightarrow> vring option" where
  "add_virtual_node node i vr = do {
     let vid = virtual_id (tn_ID node) i;
     (virtualID, virtualHash) \<leftarrow> resolve (virtualNodes vr) (tn_ID node) i vid (vr_hash vid);
     let virtualNode = \<lparr> tv_Hash = virtualHash, tv_PhysicalNode = node, tv_VirtualID = virtualID \<rparr>;
     Some (vr\<lparr> virtualNodes := (virtualNodes vr)(virtualHash \<mapsto> virtualNode),
               sortedHashes := sortedHashes vr @ [virtualHash] \<rparr>)
   }"

definition virtual_count :: "tnode \<Rightarrow> vring \<Rightarrow> int" where
  "virtual_count node vr =
     (if tn_Weight node > 0 then (virtualCount vr * tn_Weight node) sdiv 100 else virtualCount vr)"

definition vr_AddNode :: "tnode \<Rightarrow> vring \<Rightarrow> vring option" where
  "vr_AddNode node vr =
     (if physicalNodes vr (tn_ID node) \<noteq> None then Some vr
      else do {
        let vr1 = vr\<lparr> physicalNodes := (physicalNodes vr)(tn_ID node \<mapsto> node) \<rparr>;
        vr2 \<leftarrow> foldM (add_virtual_node node) [0..<nat (virtual_count node vr)] vr1;
        Some (vr2\<lparr> sortedHashes := sort (sortedHashes vr2) \<rparr>)
      })"

text \<open>\<open>order\<close> is the order in which \<open>range vhr.virtualNodes\<close> yields the positions.\<close>

definition owned_by :: "string \<Rightarrow> vring \<Rightarrow> uint32 \<Rightarrow> bool" where
  "owned_by node_id vr h \<longleftrightarrow>
     (case virtualNodes vr h of None \<Rightarrow> False | Some v \<Rightarrow> tn_ID (tv_PhysicalNode v) = node_id)"

definition vr_RemoveNode :: "uint32 list \<Rightarrow> string \<Rightarrow> vring \<Rightarrow> vring" where
  "vr_RemoveNode order node_id vr =
     (if physicalNodes vr node_id = None then vr
      else vr\<lparr> virtualNodes := fold (\<lambda>h m. if owned_by node_id vr h then m(h := None) else m) order (virtualNodes vr),
               sortedHashes := sort (filter (\<lambda>h. \<not> owned_by node_id vr h) order),
               physicalNodes := (physicalNodes vr)(node_id := None) \<rparr>)"

definition physical_at :: "vring \<Rightarrow> uint32 \<Rightarrow> tnode option" where
  "physical_at vr h = map_option tv_PhysicalNode (virtualNodes vr h)"

definition vr_GetNode :: "string \<Rightarrow> vring \<Rightarrow> tnode option option" where
  "vr_GetNode key vr =
     (if sortedHashes vr = [] then Some None
      else do {
        virtualHash \<leftarrow> search_hash (sortedHashes vr) (vr_hash key);
        node \<leftarrow> physical_at vr virtualHash;
        Some (Some node)
      })"

definition vr_GetNodes :: "string \<Rightarrow> int \<Rightarrow> vring \<Rightarrow> tnode list option" where
  "vr_GetNodes key count vr = replicas (physical_at vr) (sortedHashes vr) (vr_hash key) count"

text \<open>The load distribution \<open>CalculateLoadBalance\<close> prints.\<close>

definition vr_distribution :: "string list \<Rightarrow> vring \<Rightarrow> (string \<rightharpoonup> int) option" where
  "vr_distribution keys vr = foldM (distribute_key (\<lambda>key. vr_GetNode key vr)) keys Map.empty"

section \<open>Both rings are consistent rings\<close>

definition hr_inv :: "hash_ring \<Rightarrow> bool" where
  "hr_inv hr \<longleftrightarrow> sorted (sortedKeys hr) \<and> distinct (sortedKeys hr) \<and> set (sortedKeys hr) = dom (hr_nodes hr) \<and>
     (\<forall>h n. hr_nodes hr h = Some n \<longrightarrow> hr_hash (tn_ID n) = h)"

definition vr_inv :: "vring \<Rightarrow> bool" where
  "vr_inv vr \<longleftrightarrow> sorted (sortedHashes vr) \<and> distinct (sortedHashes vr) \<and> set (sortedHashes vr) = dom (virtualNodes vr) \<and>
     (\<forall>h v. virtualNodes vr h = Some v \<longrightarrow> physicalNodes vr (tn_ID (tv_PhysicalNode v)) = Some (tv_PhysicalNode v)) \<and>
     (\<forall>i n. physicalNodes vr i = Some n \<longrightarrow> tn_ID n = i)"

lemma search_position:
  assumes "sorted hs" "set hs = dom pos" "dom pos \<noteq> {}"
  shows "Option.bind (search_hash hs h) pos = pos (ring_succ (dom pos) h)"
proof -
  have "hs \<noteq> []" using assms(2,3) by (metis set_empty)
  then show ?thesis using search_hash_succ [OF assms(1)] assms(2) by simp
qed

interpretation plain_ring: consistent_ring hr_inv hr_nodes
  "\<lambda>hr h. Option.bind (search_hash (sortedKeys hr) h) (hr_nodes hr)"
proof
  fix r :: hash_ring and h
  assume r: "hr_inv r"
  then show "finite (dom (hr_nodes r))" by (metis hr_inv_def List.finite_set)
  show "Option.bind (search_hash (sortedKeys r) h) (hr_nodes r) = hr_nodes r (ring_succ (dom (hr_nodes r)) h)"
    if "dom (hr_nodes r) \<noteq> {}"
    using r that by (intro search_position) (auto simp: hr_inv_def)
qed

interpretation virtual_ring: consistent_ring vr_inv physical_at
  "\<lambda>vr h. Option.bind (search_hash (sortedHashes vr) h) (physical_at vr)"
proof
  fix r :: vring and h
  assume r: "vr_inv r"
  have dom: "dom (physical_at r) = dom (virtualNodes r)" by (auto simp: physical_at_def)
  show "finite (dom (physical_at r))" using r unfolding dom by (metis vr_inv_def List.finite_set)
  show "Option.bind (search_hash (sortedHashes r) h) (physical_at r) = physical_at r (ring_succ (dom (physical_at r)) h)"
    if "dom (physical_at r) \<noteq> {}"
    using r that dom by (intro search_position) (auto simp: vr_inv_def)
qed

end
