(* ===== verification/Tutorial_Ring_Props.thy ===== *)
theory Tutorial_Ring_Props
  imports Tutorial_Ring
begin

text \<open>
  Properties of the rings of \<open>tutorial/04-consistent-hash\<close>: the operations keep the ring contract, so the
  lemmas of \<open>consistent_ring\<close> apply; the replicas of a key; and when the collision loop of the
  virtual ring ends.
\<close>

section \<open>The operations keep the invariants\<close>

lemma hr_inv_new: "hr_inv NewHashRing"
  by (simp add: hr_inv_def NewHashRing_def)

lemma hr_inv_add: "hr_inv hr \<Longrightarrow> hr_inv (hr_AddNode node hr)"
  by (auto simp: hr_inv_def hr_AddNode_def Let_def)

lemma hr_inv_remove: "hr_inv hr \<Longrightarrow> hr_inv (hr_RemoveNode i hr)"
  by (auto simp: hr_inv_def hr_RemoveNode_def Let_def sorted_remove1)

lemma vr_inv_new: "vr_inv (NewVirtualHashRing n)"
  by (simp add: vr_inv_def NewVirtualHashRing_def)

text \<open>The position the collision loop goes to next, and the \<open>k\<close>-th one it tries.\<close>

definition retry_hash :: "string \<Rightarrow> nat \<Rightarrow> uint32 \<Rightarrow> uint32" where
  "retry_hash node_id i h = vr_hash (retry_id node_id i h)"

lemma resolve_result:
  assumes "resolve taken node_id i v h = Some (v', h')"
  shows "taken h' = None \<and> (\<exists>k. h' = (retry_hash node_id i ^^ k) h)"
proof -
  let ?P = "\<lambda>taken node_id i v h r. taken (snd r) = None \<and> (\<exists>k. snd r = (retry_hash node_id i ^^ k) h)"
  have "?P taken node_id i v h (v', h')"
  proof (rule resolve.raw_induct [where P = ?P, OF _ assms])
    fix f :: "(uint32 \<rightharpoonup> tvirtual) \<Rightarrow> string \<Rightarrow> nat \<Rightarrow> string \<Rightarrow> uint32 \<Rightarrow> (string \<times> uint32) option"
      and taken node_id i v h r
    let ?h = "retry_hash node_id i h"
    assume IH: "\<And>taken node_id i v h r. f taken node_id i v h = Some r \<Longrightarrow> ?P taken node_id i v h r"
      and r: "(if taken h = None then Some (v, h)
        else f taken node_id i (retry_id node_id i h) (vr_hash (retry_id node_id i h))) = Some r"
    show "?P taken node_id i v h r"
    proof (cases "taken h")
      case None
      then show ?thesis using r by (auto intro: exI [of _ 0])
    next
      case (Some x)
      then have "f taken node_id i (retry_id node_id i h) ?h = Some r" using r by (simp add: retry_hash_def)
      then obtain k where k: "taken (snd r) = None" "snd r = (retry_hash node_id i ^^ k) ?h" using IH by blast
      then show ?thesis by (auto simp: funpow_swap1 intro!: exI [of _ "Suc k"])
    qed
  qed
  then show ?thesis by simp
qed

lemmas resolve_free = resolve_result [THEN conjunct1]

text \<open>What the loop over the virtual nodes of one physical node keeps.\<close>

definition adding :: "tnode \<Rightarrow> vring \<Rightarrow> vring \<Rightarrow> bool" where
  "adding node vr0 vr \<longleftrightarrow> distinct (sortedHashes vr) \<and> set (sortedHashes vr) = dom (virtualNodes vr) \<and>
     physicalNodes vr = (physicalNodes vr0)(tn_ID node \<mapsto> node) \<and>
     (\<exists>N. finite N \<and> N \<inter> dom (physical_at vr0) = {} \<and>
       physical_at vr = physical_at vr0 ++ (\<lambda>x. if x \<in> N then Some node else None))"

lemma physical_at_upd [simp]:
  "physical_at (vr\<lparr> virtualNodes := (virtualNodes vr')(h \<mapsto> v), sortedHashes := hs \<rparr>) = (physical_at vr')(h \<mapsto> tv_PhysicalNode v)"
  by (auto simp: physical_at_def)

lemma dom_physical_at: "dom (physical_at vr) = dom (virtualNodes vr)"
  by (auto simp: physical_at_def)

lemma adding_step:
  assumes "adding node vr0 vr" "add_virtual_node node i vr = Some vr'"
  shows "adding node vr0 vr'"
proof -
  obtain vid h where h: "resolve (virtualNodes vr) (tn_ID node) i (virtual_id (tn_ID node) i) (vr_hash (virtual_id (tn_ID node) i)) = Some (vid, h)"
    and vr': "vr' = vr\<lparr> virtualNodes := (virtualNodes vr)(h \<mapsto> \<lparr> tv_Hash = h, tv_PhysicalNode = node, tv_VirtualID = vid \<rparr>),
      sortedHashes := sortedHashes vr @ [h] \<rparr>"
    using assms(2) by (auto simp: add_virtual_node_def Let_def bind_Some_iff)
  have free: "h \<notin> dom (virtualNodes vr)" using resolve_free [OF h] by auto
  obtain N where N: "finite N" "N \<inter> dom (physical_at vr0) = {}"
    "physical_at vr = physical_at vr0 ++ (\<lambda>x. if x \<in> N then Some node else None)"
    using assms(1) unfolding adding_def by blast
  have "h \<notin> dom (physical_at vr0)" using free N(3) by (auto simp flip: dom_physical_at)
  moreover have "physical_at vr' = physical_at vr0 ++ (\<lambda>x. if x \<in> insert h N then Some node else None)"
    unfolding vr' by (rule ext) (auto simp: N(3) map_add_def)
  ultimately have "\<exists>N. finite N \<and> N \<inter> dom (physical_at vr0) = {} \<and>
       physical_at vr' = physical_at vr0 ++ (\<lambda>x. if x \<in> N then Some node else None)"
    using N(1,2) by (intro exI [of _ "insert h N"]) auto
  then show ?thesis using assms(1) free unfolding adding_def by (auto simp: vr')
qed

lemma vr_AddNode_spec:
  assumes "vr_inv vr" "vr_AddNode node vr = Some vr'"
  shows "vr_inv vr'" "\<exists>N. finite N \<and> physical_at vr' = physical_at vr ++ (\<lambda>x. if x \<in> N then Some node else None)"
proof -
  have "vr_inv vr' \<and> (\<exists>N. finite N \<and> physical_at vr' = physical_at vr ++ (\<lambda>x. if x \<in> N then Some node else None))"
  proof (cases "physicalNodes vr (tn_ID node)")
    case (Some n)
    then have "vr' = vr" using assms(2) by (simp add: vr_AddNode_def)
    then show ?thesis using assms(1) by (auto intro!: exI [of _ "{}"] simp: map_add_def)
  next
    case None
    let ?vr1 = "vr\<lparr> physicalNodes := (physicalNodes vr)(tn_ID node \<mapsto> node) \<rparr>"
    obtain vr2 where vr2: "foldM (add_virtual_node node) [0..<nat (virtual_count node vr)] ?vr1 = Some vr2"
      and vr': "vr' = vr2\<lparr> sortedHashes := sort (sortedHashes vr2) \<rparr>"
      using assms(2) None by (auto simp: vr_AddNode_def Let_def bind_Some_iff)
    have "physical_at ?vr1 = physical_at vr" by (auto simp: physical_at_def)
    then have "adding node vr ?vr1"
      using assms(1) by (auto simp: adding_def vr_inv_def map_add_def intro!: exI [of _ "{}"])
    then have ok: "adding node vr vr2"
      by (rule foldM_partial [where I = "adding node vr", OF vr2]) (rule adding_step)
    then obtain N where N: "finite N" "N \<inter> dom (physical_at vr) = {}"
      "physical_at vr2 = physical_at vr ++ (\<lambda>x. if x \<in> N then Some node else None)"
      unfolding adding_def by blast
    have at: "physical_at vr' = physical_at vr2" by (auto simp: vr' physical_at_def)
    have phys: "physicalNodes vr' (tn_ID p) = Some p" if "physical_at vr' h = Some p" for h p
    proof (cases "h \<in> N")
      case True
      then have "p = node" using that by (simp add: at N(3) map_add_def)
      then show ?thesis using ok by (simp add: adding_def vr')
    next
      case False
      then have "physical_at vr h = Some p" using that by (simp add: at N(3) map_add_def)
      then have "physicalNodes vr (tn_ID p) = Some p" using assms(1) by (auto simp: vr_inv_def physical_at_def)
      moreover from this have "tn_ID p \<noteq> tn_ID node" using None by auto
      ultimately show ?thesis using ok by (simp add: adding_def vr')
    qed
    have ids: "tn_ID n = i" if "physicalNodes vr' i = Some n" for i n
      using that ok assms(1) by (auto simp: adding_def vr' vr_inv_def split: if_splits)
    have hashes: "sorted (sortedHashes vr')" "distinct (sortedHashes vr')" "set (sortedHashes vr') = dom (virtualNodes vr')"
      using ok by (simp_all add: vr' adding_def)
    have "vr_inv vr'"
      unfolding vr_inv_def using hashes phys ids by (auto simp: physical_at_def)
    then show ?thesis using N(1,3) at by auto
  qed
  then show "vr_inv vr'" "\<exists>N. finite N \<and> physical_at vr' = physical_at vr ++ (\<lambda>x. if x \<in> N then Some node else None)"
    by simp_all
qed

lemma fold_remove: "fold (\<lambda>h m. if P h then m(h := None) else m) order m = (\<lambda>h. if h \<in> set order \<and> P h then None else m h)"
  by (induction order arbitrary: m) auto

lemma vr_RemoveNode_spec:
  assumes "vr_inv vr" "is_order (virtualNodes vr) order"
  shows "vr_inv (vr_RemoveNode order i vr)"
    "physicalNodes vr i = Some n \<Longrightarrow>
     physical_at (vr_RemoveNode order i vr) = (\<lambda>x. if physical_at vr x = Some n then None else physical_at vr x)"
proof -
  have own: "owned_by i vr h \<longleftrightarrow> physical_at vr h = Some n" if "physicalNodes vr i = Some n" for h n
  proof
    assume "owned_by i vr h"
    then obtain v where v: "virtualNodes vr h = Some v" "tn_ID (tv_PhysicalNode v) = i"
      by (auto simp: owned_by_def split: option.splits)
    then have "physicalNodes vr i = Some (tv_PhysicalNode v)" using assms(1) by (auto simp: vr_inv_def)
    then show "physical_at vr h = Some n" using v that by (simp add: physical_at_def)
  next
    assume "physical_at vr h = Some n"
    moreover have "tn_ID n = i" using that assms(1) by (simp add: vr_inv_def)
    ultimately show "owned_by i vr h" by (auto simp: owned_by_def physical_at_def)
  qed
  have nodes: "virtualNodes (vr_RemoveNode order i vr) = (\<lambda>h. if owned_by i vr h then None else virtualNodes vr h)"
    if "physicalNodes vr i \<noteq> None"
    using that assms(2) by (auto simp: vr_RemoveNode_def fold_remove is_order_def fun_eq_iff owned_by_def)
  show "physical_at (vr_RemoveNode order i vr) = (\<lambda>x. if physical_at vr x = Some n then None else physical_at vr x)"
    if "physicalNodes vr i = Some n"
    using that nodes own [OF that] by (auto simp: physical_at_def fun_eq_iff)
  show "vr_inv (vr_RemoveNode order i vr)"
  proof (cases "physicalNodes vr i")
    case None
    then show ?thesis using assms(1) by (simp add: vr_RemoveNode_def)
  next
    case (Some n)
    let ?vr = "vr_RemoveNode order i vr"
    have hs: "sortedHashes ?vr = sort (filter (\<lambda>h. \<not> owned_by i vr h) order)"
      "physicalNodes ?vr = (physicalNodes vr)(i := None)"
      using Some by (simp_all add: vr_RemoveNode_def)
    have vn: "virtualNodes ?vr = (\<lambda>h. if owned_by i vr h then None else virtualNodes vr h)" using nodes Some by simp
    have "physicalNodes ?vr (tn_ID (tv_PhysicalNode v)) = Some (tv_PhysicalNode v)" if "virtualNodes ?vr h = Some v" for h v
    proof -
      have v: "virtualNodes vr h = Some v" "\<not> owned_by i vr h" using that by (auto simp: vn split: if_splits)
      then have "tn_ID (tv_PhysicalNode v) \<noteq> i" by (auto simp: owned_by_def)
      then show ?thesis using v(1) assms(1) by (auto simp: hs vr_inv_def)
    qed
    moreover have "set (sortedHashes ?vr) = dom (virtualNodes ?vr)"
      using assms(2) by (auto simp: hs vn is_order_def split: if_splits)
    ultimately show ?thesis
      unfolding vr_inv_def using assms by (auto simp: hs is_order_def vr_inv_def split: if_splits)
  qed
qed


lemma resolve_returns:
  "taken ((retry_hash node_id i ^^ k) h) = None \<Longrightarrow> resolve taken node_id i v h \<noteq> None"
proof (induction k arbitrary: v h)
  case 0
  then show ?case by (simp add: resolve.simps)
next
  case (Suc k)
  then show ?case by (subst resolve.simps) (simp add: funpow_swap1 flip: retry_hash_def)
qed

section \<open>The collision loop\<close>

lemma retry_hash_mod: "h mod 1000 = h' mod 1000 \<Longrightarrow> retry_hash node_id i h = retry_hash node_id i h'"
  by (simp add: retry_hash_def retry_id_def)

lemma funpow_period:
  fixes f :: "'a \<Rightarrow> 'a"
  assumes "(f ^^ a) x = (f ^^ b) x" "a < b" "b \<le> k"
  shows "(f ^^ k) x = (f ^^ (k - (b - a))) x"
proof -
  have "(f ^^ k) x = (f ^^ (k - b)) ((f ^^ b) x)" using assms(3) by (metis comp_apply funpow_add le_add_diff_inverse2)
  also have "\<dots> = (f ^^ (k - b + a)) x" by (simp add: funpow_add flip: assms(1))
  finally show ?thesis using assms(2,3) by simp
qed

lemma retry_bounded:
  assumes "P ((retry_hash node_id i ^^ k) h)"
  shows "\<exists>j \<le> 1000. P ((retry_hash node_id i ^^ j) h)"
proof -
  let ?f = "retry_hash node_id i"
  define m where "m = (LEAST k. P ((?f ^^ k) h))"
  have m: "P ((?f ^^ m) h)" unfolding m_def using assms by (rule LeastI)
  have "m \<le> 1000"
  proof (rule ccontr)
    assume "\<not> m \<le> 1000"
    have "\<not> inj_on (\<lambda>a. unat ((?f ^^ a) h mod 1000)) {..1000}"
    proof (rule pigeonhole)
      have "(\<lambda>a. unat ((?f ^^ a) h mod 1000)) ` {..1000} \<subseteq> {..<1000}"
        by (auto simp: unat_mod)
      then have "card ((\<lambda>a. unat ((?f ^^ a) h mod 1000)) ` {..1000}) \<le> card {..<1000 :: nat}"
        by (intro card_mono) auto
      then show "card ((\<lambda>a. unat ((?f ^^ a) h mod 1000)) ` {..1000}) < card {..1000 :: nat}" by simp
    qed
    then obtain a b where ab: "a < b" "b \<le> 1000" "(?f ^^ a) h mod 1000 = (?f ^^ b) h mod 1000"
      unfolding inj_on_def by (metis atMost_iff nat_neq_iff word_unat_eq_iff)
    have "(?f ^^ Suc a) h = (?f ^^ Suc b) h" using retry_hash_mod [OF ab(3)] by simp
    then have "(?f ^^ m) h = (?f ^^ (m - (b - a))) h"
      using funpow_period [of "Suc a" ?f h "Suc b" m] ab \<open>\<not> m \<le> 1000\<close> by simp
    then have "P ((?f ^^ (m - (b - a))) h)" using m by simp
    then have "m \<le> m - (b - a)" unfolding m_def by (rule Least_le)
    then show False using ab \<open>\<not> m \<le> 1000\<close> by linarith
  qed
  with m show ?thesis by blast
qed

text \<open>C25: adding one virtual node returns exactly when its own position or one of the next thousand positions
  of the collision loop is free; otherwise the loop runs forever.\<close>

theorem virtual_node_terminates:
  "add_virtual_node node i vr \<noteq> None \<longleftrightarrow>
   (\<exists>k \<le> 1000. virtualNodes vr ((retry_hash (tn_ID node) i ^^ k) (vr_hash (virtual_id (tn_ID node) i))) = None)"
proof -
  let ?h = "vr_hash (virtual_id (tn_ID node) i)"
  have "add_virtual_node node i vr \<noteq> None \<longleftrightarrow>
      resolve (virtualNodes vr) (tn_ID node) i (virtual_id (tn_ID node) i) ?h \<noteq> None"
    by (auto simp: add_virtual_node_def Let_def bind_Some_iff)
  also have "\<dots> \<longleftrightarrow> (\<exists>k. virtualNodes vr ((retry_hash (tn_ID node) i ^^ k) ?h) = None)"
    by (metis option.exhaust prod.exhaust resolve_result resolve_returns)
  also have "\<dots> \<longleftrightarrow> (\<exists>k \<le> 1000. virtualNodes vr ((retry_hash (tn_ID node) i ^^ k) ?h) = None)"
    using retry_bounded [where P = "\<lambda>h. virtualNodes vr h = None"] by blast
  finally show ?thesis .
qed

definition colliding :: "string list" where
  "colliding = [''n6fAaAa'', ''n6fAaBB'', ''n6fBBBB'']"

definition plain_node :: "string \<Rightarrow> tnode" where
  "plain_node i = \<lparr> tn_ID = i, tn_Address = [], tn_Weight = 0 \<rparr>"

lemma colliding_hashes:
  "\<forall>n \<in> set colliding. vr_hash (virtual_id n 0) = 654551627 \<and> retry_hash n 0 654551627 = 1297106627 \<and>
     retry_hash n 0 1297106627 = 1297106627"
  by code_simp


lemma colliding_orbit:
  assumes "n \<in> set colliding"
  shows "(retry_hash n 0 ^^ k) (vr_hash (virtual_id n 0)) \<in> {654551627, 1297106627}"
  using assms colliding_hashes by (induction k) auto

lemma one_virtual:
  assumes "virtualCount vr = 1" "physicalNodes vr n = None"
  shows "vr_AddNode (plain_node n) vr = do {
      vr2 \<leftarrow> add_virtual_node (plain_node n) 0 (vr\<lparr> physicalNodes := (physicalNodes vr)(n \<mapsto> plain_node n) \<rparr>);
      Some (vr2\<lparr> sortedHashes := sort (sortedHashes vr2) \<rparr>)
    }"
  using assms by (simp add: vr_AddNode_def plain_node_def virtual_count_def Let_def upt_rec bind_eq_Some_conv)

text \<open>Three nodes whose identifiers collide under the string hash make \<open>AddNode\<close> of the third run forever, already
  with a single virtual node each.\<close>

theorem virtual_ring_diverges:
  "\<exists>vr. foldM vr_AddNode [plain_node ''n6fAaAa'', plain_node ''n6fAaBB''] (NewVirtualHashRing 1) = Some vr \<and>
    vr_AddNode (plain_node ''n6fBBBB'') vr = None"
proof -
  let ?a = "654551627 :: uint32" let ?b = "1297106627 :: uint32"
  let ?n1 = "''n6fAaAa''" let ?n2 = "''n6fAaBB''" let ?n3 = "''n6fBBBB''"
  have c: "?n1 \<in> set colliding" "?n2 \<in> set colliding" "?n3 \<in> set colliding" by (simp_all add: colliding_def)
  have h: "vr_hash (virtual_id n 0) = ?a" "vr_hash (retry_id n 0 ?a) = ?b" if "n \<in> set colliding" for n
    using that colliding_hashes by (simp_all add: retry_hash_def)
  let ?v1 = "\<lparr> tv_Hash = ?a, tv_PhysicalNode = plain_node ?n1, tv_VirtualID = virtual_id ?n1 0 \<rparr>"
  let ?v2 = "\<lparr> tv_Hash = ?b, tv_PhysicalNode = plain_node ?n2, tv_VirtualID = retry_id ?n2 0 ?a \<rparr>"
  let ?vr1 = "\<lparr> virtualNodes = [?a \<mapsto> ?v1], sortedHashes = [?a], physicalNodes = [?n1 \<mapsto> plain_node ?n1], virtualCount = 1 \<rparr>"
  let ?vr2 = "\<lparr> virtualNodes = [?a \<mapsto> ?v1, ?b \<mapsto> ?v2], sortedHashes = [?a, ?b],
    physicalNodes = [?n1 \<mapsto> plain_node ?n1, ?n2 \<mapsto> plain_node ?n2], virtualCount = 1 \<rparr>"
  have id [simp]: "tn_ID (plain_node n) = n" for n by (simp add: plain_node_def)
  have 1: "vr_AddNode (plain_node ?n1) (NewVirtualHashRing 1) = Some ?vr1"
    by (simp add: one_virtual NewVirtualHashRing_def add_virtual_node_def h [OF c(1)] resolve.simps)
  have 2: "vr_AddNode (plain_node ?n2) ?vr1 = Some ?vr2"
    by (simp add: one_virtual add_virtual_node_def h [OF c(2)] resolve.simps)
  have "resolve (virtualNodes ?vr2) ?n3 0 v (vr_hash (virtual_id ?n3 0)) = None" for v
  proof (rule ccontr)
    assume "\<not> ?thesis"
    then obtain v' h' where "resolve (virtualNodes ?vr2) ?n3 0 v (vr_hash (virtual_id ?n3 0)) = Some (v', h')" by auto
    from resolve_result [OF this] obtain k where
      k: "virtualNodes ?vr2 ((retry_hash ?n3 0 ^^ k) (vr_hash (virtual_id ?n3 0))) = None" by blast
    show False using k colliding_orbit [OF c(3), of k] by (auto split: if_splits)
  qed
  then have 3: "vr_AddNode (plain_node ?n3) ?vr2 = None"
    by (simp add: one_virtual add_virtual_node_def)
  show ?thesis using 1 2 3 by simp
qed

section \<open>Reachable virtual rings\<close>

inductive vring_reach :: "vring \<Rightarrow> bool" where
  new: "vring_reach (NewVirtualHashRing n)"
| add: "vring_reach vr \<Longrightarrow> vr_AddNode node vr = Some vr' \<Longrightarrow> vring_reach vr'"
| remove: "vring_reach vr \<Longrightarrow> is_order (virtualNodes vr) order \<Longrightarrow> vring_reach (vr_RemoveNode order i vr)"

lemma vring_reach_inv: "vring_reach vr \<Longrightarrow> vr_inv vr"
  by (induction rule: vring_reach.induct) (simp_all add: vr_inv_new vr_AddNode_spec(1) vr_RemoveNode_spec(1))

lemma vr_GetNode_locate:
  assumes "vr_inv vr"
  shows "vr_GetNode key vr = (if dom (physical_at vr) = {} then Some None
    else map_option Some (Option.bind (search_hash (sortedHashes vr) (vr_hash key)) (physical_at vr)))"
proof -
  have "sortedHashes vr = [] \<longleftrightarrow> dom (physical_at vr) = {}"
    using assms by (metis dom_physical_at set_empty vr_inv_def)
  then show ?thesis by (auto simp: vr_GetNode_def split: bind_splits)
qed

text \<open>What adding and removing a node do to the node of a key.\<close>

lemma vr_AddNode_moves:
  assumes inv: "vr_inv vr" and m: "vr_GetNode key vr = Some (Some m)" and added: "vr_AddNode node vr = Some vr'"
  shows "vr_GetNode key vr' \<in> {Some (Some m), Some (Some node)}"
proof -
  let ?loc = "\<lambda>vr. Option.bind (search_hash (sortedHashes vr) (vr_hash key)) (physical_at vr)"
  have m: "dom (physical_at vr) \<noteq> {}" "?loc vr = Some m"
    using m by (auto simp: vr_GetNode_locate [OF inv] split: if_splits)
  obtain N where N: "finite N" "physical_at vr' = physical_at vr ++ (\<lambda>x. if x \<in> N then Some node else None)"
    using vr_AddNode_spec(2) [OF inv added] by blast
  have "dom (physical_at vr') \<noteq> {}" using m(1) unfolding N(2) by auto
  moreover have "?loc vr' \<in> {Some m, Some node}"
    using virtual_ring.add_node_monotone [OF inv vr_AddNode_spec(1) [OF inv added] m(1) N, of "vr_hash key"] m(2) by auto
  ultimately show ?thesis by (auto simp: vr_GetNode_locate [OF vr_AddNode_spec(1) [OF inv added]])
qed

lemma vr_RemoveNode_moves:
  assumes inv: "vr_inv vr" and m: "vr_GetNode key vr = Some (Some m)"
    and ord: "is_order (virtualNodes vr) order" and i: "i \<noteq> tn_ID m"
  shows "vr_GetNode key (vr_RemoveNode order i vr) = Some (Some m)"
proof (cases "physicalNodes vr i")
  case None
  then show ?thesis using m by (simp add: vr_RemoveNode_def)
next
  case (Some n)
  let ?loc = "\<lambda>vr. Option.bind (search_hash (sortedHashes vr) (vr_hash key)) (physical_at vr)"
  have m: "dom (physical_at vr) \<noteq> {}" "?loc vr = Some m"
    using m by (auto simp: vr_GetNode_locate [OF inv] split: if_splits)
  let ?vr = "vr_RemoveNode order i vr"
  have "tn_ID n = i" using inv Some by (simp add: vr_inv_def)
  then have "?loc vr \<noteq> Some n" using i m(2) by auto
  then have "?loc ?vr = Some m"
    using virtual_ring.remove_node_monotone [OF inv vr_RemoveNode_spec(1) [OF inv ord] m(1)
        vr_RemoveNode_spec(2) [OF inv ord Some], of "vr_hash key"] m(2) by simp
  moreover from this have "dom (physical_at ?vr) \<noteq> {}" by (auto simp: bind_Some_iff)
  ultimately show ?thesis by (simp add: vr_GetNode_locate [OF vr_RemoveNode_spec(1) [OF inv ord]])
qed

lemma vr_GetNode_total:
  assumes "vr_inv vr" "sortedHashes vr \<noteq> []"
  obtains n where "vr_GetNode key vr = Some (Some n)" "physicalNodes vr (tn_ID n) = Some n"
proof -
  have dom: "dom (physical_at vr) = set (sortedHashes vr)" using assms(1) by (simp add: dom_physical_at vr_inv_def)
  let ?h = "ring_succ (set (sortedHashes vr)) (vr_hash key)"
  have "?h \<in> set (sortedHashes vr)" using assms(2) by (intro ring_succ_in) simp_all
  then obtain n where n: "physical_at vr ?h = Some n" using dom by blast
  have "sorted (sortedHashes vr)" using assms(1) by (simp add: vr_inv_def)
  then have "vr_GetNode key vr = Some (Some n)"
    using search_hash_succ [OF _ assms(2)] assms(2) n by (simp add: vr_GetNode_def)
  moreover have "physicalNodes vr (tn_ID n) = Some n" using n assms(1) by (auto simp: physical_at_def vr_inv_def)
  ultimately show thesis by (rule that)
qed

text \<open>C26: on every ring that additions and removals can build a look-up never panics, finds no node only when the ring has
  no position, and otherwise a member; an addition moves a key to the new node only, and a removal moves no key but those of
  the removed node.\<close>

theorem virtual_ring_moves_little:
  assumes "vring_reach vr"
  shows "if sortedHashes vr = [] then vr_GetNode key vr = Some None
    else \<exists>m. vr_GetNode key vr = Some (Some m) \<and> physicalNodes vr (tn_ID m) = Some m \<and>
      (vr_AddNode node vr = Some vr' \<longrightarrow> vr_GetNode key vr' \<in> {Some (Some m), Some (Some node)}) \<and>
      (is_order (virtualNodes vr) order \<and> i \<noteq> tn_ID m \<longrightarrow> vr_GetNode key (vr_RemoveNode order i vr) = Some (Some m))"
proof (cases "sortedHashes vr = []")
  case True
  then show ?thesis by (simp add: vr_GetNode_def)
next
  case False
  have inv: "vr_inv vr" using assms by (rule vring_reach_inv)
  obtain m where m: "vr_GetNode key vr = Some (Some m)" "physicalNodes vr (tn_ID m) = Some m"
    by (rule vr_GetNode_total [OF inv False])
  have "vr_GetNode key vr' \<in> {Some (Some m), Some (Some node)}" if "vr_AddNode node vr = Some vr'"
    by (rule vr_AddNode_moves [OF inv m(1) that])
  moreover have "vr_GetNode key (vr_RemoveNode order i vr) = Some (Some m)" if "is_order (virtualNodes vr) order" "i \<noteq> tn_ID m"
    using that by (intro vr_RemoveNode_moves [OF inv m(1)]) simp_all
  ultimately show ?thesis using False m by auto
qed

theorem virtual_ring_moves_little_witness:
  "\<exists>vr vr'. vring_reach vr \<and> vr_AddNode (plain_node ''b'') vr = Some vr' \<and>
    vr_GetNode ''k'' vr' \<in> {Some (Some (plain_node ''a'')), Some (Some (plain_node ''b''))} \<and>
    vr_GetNode ''k'' (vr_RemoveNode (sortedHashes vr) ''c'' vr) = Some (Some (plain_node ''a''))"
proof -
  have id [simp]: "tn_ID (plain_node n) = n" for n by (simp add: plain_node_def)
  let ?h = "vr_hash (virtual_id ''a'' 0)"
  let ?vr = "\<lparr> virtualNodes = [?h \<mapsto> \<lparr> tv_Hash = ?h, tv_PhysicalNode = plain_node ''a'', tv_VirtualID = virtual_id ''a'' 0 \<rparr>],
    sortedHashes = [?h], physicalNodes = [''a'' \<mapsto> plain_node ''a''], virtualCount = 1 \<rparr>"
  have "vr_AddNode (plain_node ''a'') (NewVirtualHashRing 1) = Some ?vr"
    by (simp add: one_virtual NewVirtualHashRing_def add_virtual_node_def resolve.simps Let_def)
  then have r: "vring_reach ?vr" using vring_reach.new vring_reach.add by blast
  have get: "vr_GetNode ''k'' ?vr = Some (Some (plain_node ''a''))"
    by (simp add: vr_GetNode_def search_hash_succ ring_succ_single physical_at_def)
  have ord: "is_order (virtualNodes ?vr) [?h]" by (simp add: is_order_def)
  have "vr_hash (virtual_id ''b'' 0) \<noteq> ?h" by code_simp
  then have "\<exists>vr'. vr_AddNode (plain_node ''b'') ?vr = Some vr'"
    by (simp add: one_virtual add_virtual_node_def resolve.simps Let_def)
  then obtain vr' where vr': "vr_AddNode (plain_node ''b'') ?vr = Some vr'" by blast
  have "''c'' \<noteq> tn_ID (plain_node ''a'')" by simp
  with vr' ord get virtual_ring_moves_little [OF r, of "''k''" "plain_node ''b''" vr' "[?h]" "''c''"]
  have "vr_GetNode ''k'' vr' \<in> {Some (Some (plain_node ''a'')), Some (Some (plain_node ''b''))} \<and>
    vr_GetNode ''k'' (vr_RemoveNode (sortedHashes ?vr) ''c'' ?vr) = Some (Some (plain_node ''a''))" by simp
  with r vr' show ?thesis by blast
qed

text \<open>The same for the plain ring, which has one position per node.\<close>

lemma hr_GetNode_locate:
  assumes "hr_inv hr"
  shows "hr_GetNode key hr = (if dom (hr_nodes hr) = {} then Some None
    else map_option Some (Option.bind (search_hash (sortedKeys hr) (hr_hash key)) (hr_nodes hr)))"
proof -
  have "sortedKeys hr = [] \<longleftrightarrow> dom (hr_nodes hr) = {}" using assms by (metis set_empty hr_inv_def)
  then show ?thesis by (auto simp: hr_GetNode_def split: bind_splits)
qed

lemma plain_ring_add:
  assumes "hr_inv hr" "hr_GetNode key hr = Some (Some m)"
  shows "hr_GetNode key (hr_AddNode node hr) \<in> {Some (Some m), Some (Some node)}"
proof -
  let ?hr = "hr_AddNode node hr" let ?h = "hr_hash (tn_ID node)"
  let ?loc = "\<lambda>hr. Option.bind (search_hash (sortedKeys hr) (hr_hash key)) (hr_nodes hr)"
  have m: "dom (hr_nodes hr) \<noteq> {}" "?loc hr = Some m"
    using assms(2) by (auto simp: hr_GetNode_locate [OF assms(1)] split: if_splits)
  define N where "N = (if hr_nodes hr ?h = None then {?h} else {})"
  have N: "finite N" "hr_nodes ?hr = hr_nodes hr ++ (\<lambda>x. if x \<in> N then Some node else None)"
    by (auto simp: N_def hr_AddNode_def Let_def map_add_def fun_eq_iff)
  then have "dom (hr_nodes ?hr) \<noteq> {}" using m(1) by auto
  moreover have "?loc ?hr \<in> {Some m, Some node}"
    using plain_ring.add_node_monotone [OF assms(1) hr_inv_add [OF assms(1)] m(1) N, of "hr_hash key"] m(2) by auto
  ultimately show ?thesis by (auto simp: hr_GetNode_locate [OF hr_inv_add [OF assms(1)]])
qed

section \<open>Replicas\<close>

lemma replica_loop_spec:
  assumes "replica_loop look hs start count is (nodes, visited) = Some ns"
    and "visited = (\<lambda>x. x \<in> tn_ID ` set nodes)" "distinct (map tn_ID nodes)"
    and "int (length nodes) \<le> max 0 count"
  shows "distinct (map tn_ID ns) \<and> (\<exists>ms. ns = nodes @ ms) \<and> int (length ns) \<le> max 0 count \<and>
    set ns \<subseteq> set nodes \<union> {n. \<exists>i \<in> set is. look (hs ! ((start + i) mod length hs)) = Some n} \<and>
    (int (length ns) < count \<longrightarrow> (\<forall>i \<in> set is. \<forall>n. look (hs ! ((start + i) mod length hs)) = Some n \<longrightarrow> tn_ID n \<in> tn_ID ` set ns))"
  using assms
proof (induction "is" arbitrary: nodes visited)
  case Nil
  then show ?case by auto
next
  case (Cons i "is")
  show ?case
  proof (cases "int (length nodes) < count")
    case False
    then show ?thesis using Cons.prems by auto
  next
    case True
    then obtain node where node: "look (hs ! ((start + i) mod length hs)) = Some node"
      using Cons.prems(1) by (auto split: bind_splits)
    show ?thesis
    proof (cases "tn_ID node \<in> tn_ID ` set nodes")
      case seen: True
      then have "replica_loop look hs start count is (nodes, visited) = Some ns"
        using Cons.prems(1,2) True node by simp
      from Cons.IH [OF this Cons.prems(2-4)] seen node show ?thesis by auto
    next
      case new: False
      then have call: "replica_loop look hs start count is (nodes @ [node], visited(tn_ID node := True)) = Some ns"
        using Cons.prems(1,2) True node by simp
      have vis: "visited(tn_ID node := True) = (\<lambda>x. x \<in> tn_ID ` set (nodes @ [node]))"
        by (rule ext) (auto simp: Cons.prems(2))
      have acc: "distinct (map tn_ID (nodes @ [node]))" "int (length (nodes @ [node])) \<le> max 0 count"
        using new Cons.prems(3) True by auto
      note ih = Cons.IH [OF call vis acc]
      then have "node \<in> set ns" by auto
      then show ?thesis using ih node by auto
    qed
  qed
qed

lemma replica_loop_total:
  "\<lbrakk> \<And>i. i \<in> set is \<Longrightarrow> look (hs ! ((start + i) mod length hs)) \<noteq> None \<rbrakk> \<Longrightarrow>
   replica_loop look hs start count is (nodes, visited) \<noteq> None"
proof (induction "is" arbitrary: nodes visited)
  case (Cons i "is")
  obtain node where "look (hs ! ((start + i) mod length hs)) = Some node" using Cons.prems [of i] by auto
  with Cons show ?case by simp
qed simp


lemma replicas_spec:
  assumes "sorted hs" "set hs = dom look" "hs \<noteq> []" "0 < count"
  shows "\<exists>ns. replicas look hs h count = Some ns \<and> distinct (map tn_ID ns) \<and>
    int (length ns) = min count (int (card (tn_ID ` ran look))) \<and> set ns \<subseteq> ran look \<and>
    Option.bind (search_hash hs h) look = Some (hd ns)"
proof -
  let ?s = "start_index hs h" let ?at = "\<lambda>i. look (hs ! ((?s + i) mod length hs))"
  have at: "?at i \<noteq> None" for i
    using assms(2,3) by (metis domD length_greater_0_conv mod_less_divisor nth_mem option.distinct(1))
  obtain j js where up: "[0..<length hs] = j # js" "j = 0"
    using assms(3) by (metis length_greater_0_conv upt_conv_Cons)
  obtain n0 where n0: "?at 0 = Some n0" using at by blast
  obtain ns where ns: "replica_loop look hs ?s count [0..<length hs] ([], \<lambda>_. False) = Some ns"
    using replica_loop_total [of "[0..<length hs]" look hs ?s count "[]" "\<lambda>_. False"] at by blast
  then have "replica_loop look hs ?s count js ([n0], (\<lambda>_. False)(tn_ID n0 := True)) = Some ns"
    using assms(4) n0 by (simp add: up)
  moreover have "(\<lambda>_. False)(tn_ID n0 := True) = (\<lambda>x. x \<in> tn_ID ` set [n0])" by (rule ext) auto
  ultimately have "\<exists>ms. ns = [n0] @ ms" using replica_loop_spec [of look hs ?s count js "[n0]"] assms(4) by auto
  then have hd: "ns \<noteq> []" "hd ns = n0" by auto
  have spec: "distinct (map tn_ID ns)" "int (length ns) \<le> count" "set ns \<subseteq> {n. \<exists>i \<in> set [0..<length hs]. ?at i = Some n}"
    "int (length ns) < count \<Longrightarrow> i < length hs \<Longrightarrow> ?at i = Some n \<Longrightarrow> tn_ID n \<in> tn_ID ` set ns" for i n
    using replica_loop_spec [OF ns] assms(4) by auto
  have sub: "set ns \<subseteq> ran look" using spec(3) by (auto simp: ran_def)
  have all: "\<exists>i < length hs. ?at i = Some n" if n: "n \<in> ran look" for n
  proof -
    obtain x where x: "look x = Some n" using n by (auto simp: ran_def)
    then have "x \<in> set hs" using assms(2) by auto
    then obtain k where k: "k < length hs" "hs ! k = x" by (auto simp: in_set_conv_nth)
    have "(?s + (k + length hs * ?s - ?s) mod length hs) mod length hs = (?s + (k + length hs * ?s - ?s)) mod length hs"
      by (rule mod_add_right_eq)
    also have "?s + (k + length hs * ?s - ?s) = k + length hs * ?s"
      using assms(3) by (cases "length hs") auto
    finally have "?at ((k + length hs * ?s - ?s) mod length hs) = Some n" using k x by simp
    then show ?thesis using k(1) by (intro exI [of _ "(k + length hs * ?s - ?s) mod length hs"]) (use assms(3) in auto)
  qed
  have fin: "finite (tn_ID ` ran look)" using assms(2) by (metis finite_imageI finite_ran List.finite_set)
  have card: "length ns = card (tn_ID ` set ns)" using spec(1) by (metis distinct_card length_map set_map)
  have le: "card (tn_ID ` set ns) \<le> card (tn_ID ` ran look)" using sub fin by (intro card_mono) auto
  have "card (tn_ID ` set ns) = card (tn_ID ` ran look)" if "int (length ns) < count"
  proof -
    have "tn_ID ` ran look \<subseteq> tn_ID ` set ns" using all spec(4) [OF that] by blast
    then show ?thesis using sub by (metis image_mono subset_antisym)
  qed
  then have len: "int (length ns) = min count (int (card (tn_ID ` ran look)))"
    using spec(2) card le by (cases "int (length ns) < count") auto
  have "search_hash hs h = Some (hs ! (?s mod length hs))"
    using search_hash_succ [OF assms(1,3), of h] ring_succ_sorted [OF assms(1,3), of h]
      length_takeWhile_le [of "\<lambda>y. y < h" hs]
    by (auto simp: start_index_def sort_Search_sorted [OF assms(1)] Let_def)
  then have first: "Option.bind (search_hash hs h) look = Some (hd ns)" using n0 hd by simp
  show ?thesis
    using ns spec(1) len sub first assms(3,4) by (simp add: replicas_def)
qed

text \<open>On every ring that additions and removals can build, the replicas of a key are distinct physical nodes of the
  ring, as many as asked for or as exist, and the first one is the node that serves the key.\<close>

theorem virtual_ring_replicas:
  assumes "vring_reach vr" "sortedHashes vr \<noteq> []" "0 < count"
  shows "\<exists>ns. vr_GetNodes key count vr = Some ns \<and> distinct (map tn_ID ns) \<and>
    int (length ns) = min count (int (card (tn_ID ` ran (physical_at vr)))) \<and>
    (\<forall>n \<in> set ns. physicalNodes vr (tn_ID n) = Some n) \<and> vr_GetNode key vr = Some (Some (hd ns))"
proof -
  have inv: "vr_inv vr" using assms(1) by (rule vring_reach_inv)
  then have hs: "sorted (sortedHashes vr)" "set (sortedHashes vr) = dom (physical_at vr)"
    by (simp_all add: vr_inv_def dom_physical_at)
  have phys: "physicalNodes vr (tn_ID n) = Some n" if "n \<in> ran (physical_at vr)" for n
    using that inv by (auto simp: ran_def physical_at_def vr_inv_def)
  obtain ns where ns: "replicas (physical_at vr) (sortedHashes vr) (vr_hash key) count = Some ns" "distinct (map tn_ID ns)"
    "int (length ns) = min count (int (card (tn_ID ` ran (physical_at vr))))" "set ns \<subseteq> ran (physical_at vr)"
    "Option.bind (search_hash (sortedHashes vr) (vr_hash key)) (physical_at vr) = Some (hd ns)"
    using replicas_spec [OF hs assms(2,3), of "vr_hash key"] by blast
  have "vr_GetNode key vr = Some (Some (hd ns))" using ns(5) assms(2) by (auto simp: vr_GetNode_def bind_Some_iff)
  then show ?thesis using ns phys by (auto simp: vr_GetNodes_def)
qed

theorem virtual_ring_replicas_witness:
  "\<exists>vr. vring_reach vr \<and> vr_GetNodes ''k'' 2 vr = Some [plain_node ''a'']"
proof -
  have id [simp]: "tn_ID (plain_node n) = n" for n by (simp add: plain_node_def)
  let ?h = "vr_hash (virtual_id ''a'' 0)"
  let ?vr = "\<lparr> virtualNodes = [?h \<mapsto> \<lparr> tv_Hash = ?h, tv_PhysicalNode = plain_node ''a'', tv_VirtualID = virtual_id ''a'' 0 \<rparr>],
    sortedHashes = [?h], physicalNodes = [''a'' \<mapsto> plain_node ''a''], virtualCount = 1 \<rparr>"
  have "vr_AddNode (plain_node ''a'') (NewVirtualHashRing 1) = Some ?vr"
    by (simp add: one_virtual NewVirtualHashRing_def add_virtual_node_def resolve.simps Let_def)
  then have r: "vring_reach ?vr" using vring_reach.new vring_reach.add by blast
  have "ran (physical_at ?vr) = {plain_node ''a''}" by (auto simp: ran_def physical_at_def)
  then obtain ns where ns: "vr_GetNodes ''k'' 2 ?vr = Some ns" "length ns = 1" "\<forall>n \<in> set ns. physicalNodes ?vr (tn_ID n) = Some n"
    using virtual_ring_replicas [OF r, of 2 "''k''"] by auto
  then have "ns = [plain_node ''a'']" by (auto simp: length_Suc_conv split: if_splits)
  then show ?thesis using r ns(1) by blast
qed

end
