(* ===== verification/Ring_Demos.thy ===== *)
theory Ring_Demos
  imports Tutorial_Ring_Props
begin

text \<open>
  The demonstrations of chapter 4 (\<open>demo.go\<close> and the second half of \<open>virtual_nodes.go\<close>): what they compute with the rings,
  as values; what they print is not modelled. \<open>None\<close> is a nil dereference or an endless loop of the ring. Quotients of
  \<open>float64\<close> are exact; a division of zero by zero is \<open>None\<close>.
\<close>

section \<open>Reports of the virtual ring\<close>

text \<open>The positions of each physical node; \<open>order\<close> is the order in which \<open>range vhr.virtualNodes\<close> yields them.\<close>

definition PrintVirtualRing :: "uint32 list \<Rightarrow> vring \<Rightarrow> (string \<rightharpoonup> int \<times> nat)" where
  "PrintVirtualRing order vr =
     (\<lambda>nodeID. map_option (\<lambda>node. (tn_Weight node, length (filter (owned_by nodeID vr) order))) (physicalNodes vr nodeID))"

record load_balance_report =
  lb_percentage :: "string \<rightharpoonup> rat"
  lb_deviation :: "string \<rightharpoonup> rat"
  lb_stdDev :: "rat option"

text \<open>\<open>nodes\<close> is the number of physical nodes, \<open>order\<close> the order in which the distribution is visited.\<close>

definition load_report :: "nat \<Rightarrow> int \<Rightarrow> string list \<Rightarrow> (string \<rightharpoonup> int) \<Rightarrow> load_balance_report" where
  "load_report totalKeys nodes order distribution =
     (let expectedPerNode = (of_nat totalKeys / of_int nodes :: rat);
          diff = (\<lambda>count. of_int count - expectedPerNode);
          counts = List.map_filter distribution order
      in \<lparr> lb_percentage = (\<lambda>n. map_option (\<lambda>count. of_int count / of_nat totalKeys * 100) (distribution n)),
           lb_deviation = (\<lambda>n. map_option (\<lambda>count. diff count / expectedPerNode * 100) (distribution n)),
           lb_stdDev = (if counts = [] then None
                        else Some (fold (\<lambda>count variance. variance + diff count * diff count) counts 0 / of_nat (length counts))) \<rparr>)"

definition CalculateLoadBalance :: "((string \<rightharpoonup> int) \<Rightarrow> string list) \<Rightarrow> string list \<Rightarrow> vring \<Rightarrow> load_balance_report option" where
  "CalculateLoadBalance visit keys vr = do {
     distribution \<leftarrow> vr_distribution keys vr;
     Some (load_report (length keys) (map_len (physicalNodes vr)) (visit distribution) distribution)
   }"

section \<open>Comparing placements\<close>

definition the_node :: "tnode option option \<Rightarrow> string option" where
  "the_node r = map_option tn_ID (Option.bind r id)"

text \<open>The identifiers of the nodes of all keys, and the keys that are elsewhere afterwards.\<close>

definition record_nodes :: "(string \<Rightarrow> tnode option option) \<Rightarrow> string list \<Rightarrow> (string \<rightharpoonup> string) option" where
  "record_nodes get keys = foldM (\<lambda>key m. do { n \<leftarrow> the_node (get key); Some (m(key \<mapsto> n)) }) keys Map.empty"

definition moved_from :: "(string \<Rightarrow> tnode option option) \<Rightarrow> (string \<rightharpoonup> string) \<Rightarrow> string list \<Rightarrow> string list option" where
  "moved_from get placed keys =
     foldM (\<lambda>key moved. do {
       n \<leftarrow> the_node (get key);
       Some (if (case placed key of None \<Rightarrow> [] | Some b \<Rightarrow> b) \<noteq> n then moved @ [key] else moved)
     }) keys []"

definition demo_node :: "string \<Rightarrow> string \<Rightarrow> int \<Rightarrow> tnode" where
  "demo_node i a weight = \<lparr> tn_ID = i, tn_Address = a, tn_Weight = weight \<rparr>"

definition numbered_nodes :: "nat list \<Rightarrow> tnode list" where
  "numbered_nodes is = map (\<lambda>i. demo_node (''node'' @ Itoa i) (''192.168.1.'' @ Itoa i @ '':6379'') 100) is"

definition numbered_keys :: "string \<Rightarrow> nat list \<Rightarrow> string list" where
  "numbered_keys prefix is = map (\<lambda>i. prefix @ Itoa i) is"

section \<open>The plain ring\<close>

definition DemoBasicHashRing :: "(string \<rightharpoonup> int) option" where
  "DemoBasicHashRing = do {
     let ring = fold hr_AddNode (numbered_nodes [1, 2, 3]) NewHashRing;
     let testKeys = numbered_keys ''user:'' [1..<6] @ numbered_keys ''product:'' [1..<4] @ numbered_keys ''order:'' [1..<3];
     _ \<leftarrow> those (map (\<lambda>key. hr_GetNode key ring) testKeys);
     CalculateDataDistribution testKeys ring
   }"

text \<open>The analysis asks, for every key, whether the first node that the distribution yields is the failed one.\<close>

definition failure_analysis :: "(string \<Rightarrow> tnode option option) \<Rightarrow> string \<Rightarrow> string list \<Rightarrow> (string \<rightharpoonup> int) \<Rightarrow> string list \<Rightarrow> int option" where
  "failure_analysis get failed order beforeDistribution keys =
     foldM (\<lambda>key migratedCount. do {
       r \<leftarrow> get key;
       let beforeNode = (case filter (\<lambda>n. case beforeDistribution n of None \<Rightarrow> False | Some count \<Rightarrow> count > 0) order of
                           [] \<Rightarrow> [] | n # _ \<Rightarrow> n);
       Some (if r \<noteq> None \<and> beforeNode = failed then migratedCount + 1 else migratedCount)
     }) keys 0"

definition DemoNodeFailure :: "((string \<rightharpoonup> int) \<Rightarrow> string list) \<Rightarrow> ((string \<rightharpoonup> int) \<times> (string \<rightharpoonup> int) \<times> int) option" where
  "DemoNodeFailure visit = do {
     let ring = fold hr_AddNode (numbered_nodes [1, 2, 3, 4]) NewHashRing;
     let testKeys = numbered_keys ''user:'' [1..<6];
     beforeDistribution \<leftarrow> CalculateDataDistribution testKeys ring;
     let ring' = hr_RemoveNode ''node2'' ring;
     afterDistribution \<leftarrow> CalculateDataDistribution testKeys ring';
     migratedCount \<leftarrow> failure_analysis (\<lambda>key. hr_GetNode key ring') ''node2'' (visit beforeDistribution) beforeDistribution testKeys;
     Some (beforeDistribution, afterDistribution, migratedCount)
   }"

definition DemoReplication :: "(string \<times> string list) list option" where
  "DemoReplication =
     (let ring = fold hr_AddNode (numbered_nodes [1, 2, 3, 4, 5]) NewHashRing
      in those (map (\<lambda>key. map_option (\<lambda>ns. (key, map tn_ID ns)) (hr_GetNodes key 3 ring)) [''user:1'', ''product:100'', ''order:999'']))"

section \<open>Hashing modulo the number of nodes\<close>

definition simpleHash :: "string \<Rightarrow> uint32" where
  "simpleHash key = foldl (\<lambda>hash c. hash * 31 + of_nat c) 0 (runes key)"

definition node_index :: "nat \<Rightarrow> string \<Rightarrow> nat" where
  "node_index n key = unat (simpleHash key) mod n"

text \<open>\<open>append(m[i], key)\<close> for every key.\<close>

definition traditional_distribution :: "nat \<Rightarrow> string list \<Rightarrow> nat \<Rightarrow> string list" where
  "traditional_distribution n keys = fold (\<lambda>key m. m(node_index n key := m (node_index n key) @ [key])) keys (\<lambda>_. [])"

definition traditional_migrations :: "nat \<Rightarrow> nat \<Rightarrow> string list \<Rightarrow> nat" where
  "traditional_migrations n n' keys = length (filter (\<lambda>key. node_index n key \<noteq> node_index n' key) keys)"

definition compare_keys :: "string list" where
  "compare_keys = numbered_keys ''user:'' [1..<6] @ numbered_keys ''product:'' [1..<6] @ numbered_keys ''order:'' [1..<6]"

text \<open>Both numbers of migrated keys when a fourth node joins.\<close>

definition compare_nodes :: "nat list \<Rightarrow> tnode list" where
  "compare_nodes is = map (\<lambda>i. demo_node (''node'' @ Itoa i) (''192.168.1.'' @ Itoa (i + 1) @ '':6379'') 100) is"

definition CompareWithTraditionalHash :: "(nat \<times> nat) option" where
  "CompareWithTraditionalHash = do {
     let ring = fold hr_AddNode (compare_nodes [0, 1, 2]) NewHashRing;
     placed \<leftarrow> record_nodes (\<lambda>key. hr_GetNode key ring) compare_keys;
     let ring' = hr_AddNode (demo_node ''node3'' ''192.168.1.4:6379'' 100) ring;
     moved \<leftarrow> moved_from (\<lambda>key. hr_GetNode key ring') placed compare_keys;
     Some (traditional_migrations 3 4 compare_keys, length moved)
   }"

section \<open>The ring with virtual nodes\<close>

definition DemoVirtualNodes :: "((string \<rightharpoonup> int) \<Rightarrow> string list) \<Rightarrow> load_balance_report option" where
  "DemoVirtualNodes visit = do {
     ring \<leftarrow> foldM vr_AddNode (numbered_nodes [1, 2, 3]) (NewVirtualHashRing 150);
     CalculateLoadBalance visit (numbered_keys ''key_'' [0..<1000]) ring
   }"

definition DemoWeightedNodes :: "((string \<rightharpoonup> int) \<Rightarrow> string list) \<Rightarrow> load_balance_report option" where
  "DemoWeightedNodes visit = do {
     ring \<leftarrow> foldM vr_AddNode [demo_node ''high_perf'' ''192.168.1.1:6379'' 200, demo_node ''medium_perf'' ''192.168.1.2:6379'' 100,
       demo_node ''low_perf'' ''192.168.1.3:6379'' 50] (NewVirtualHashRing 100);
     CalculateLoadBalance visit (numbered_keys ''weighted_key_'' [0..<1000]) ring
   }"

definition DemoDataMigration :: "(string list \<times> rat) option" where
  "DemoDataMigration = do {
     ring \<leftarrow> foldM vr_AddNode (numbered_nodes [1, 2, 3]) (NewVirtualHashRing 50);
     let testKeys = numbered_keys ''user:'' [1..<6] @ numbered_keys ''product:'' [1..<6];
     placed \<leftarrow> record_nodes (\<lambda>key. vr_GetNode key ring) testKeys;
     ring' \<leftarrow> vr_AddNode (demo_node ''node4'' ''192.168.1.4:6379'' 100) ring;
     moved \<leftarrow> moved_from (\<lambda>key. vr_GetNode key ring') placed testKeys;
     Some (moved, of_nat (length moved) / of_nat (length testKeys) * 100)
   }"

definition DemoPerformanceTest :: "((string \<rightharpoonup> int) \<Rightarrow> string list) \<Rightarrow> load_balance_report option" where
  "DemoPerformanceTest visit = do {
     ring \<leftarrow> foldM vr_AddNode (compare_nodes [0..<10]) (NewVirtualHashRing 200);
     let testKeys = numbered_keys ''key_'' [0..<100000];
     _ \<leftarrow> those (map (\<lambda>key. vr_GetNode key ring) testKeys);
     CalculateLoadBalance visit testKeys ring
   }"

definition redis_nodes :: "nat list \<Rightarrow> tnode list" where
  "redis_nodes is = map (\<lambda>i. demo_node (''redis-master-'' @ Itoa i) (''10.0.1.'' @ Itoa i @ '':6379'') 100) is"

text \<open>Scaling out and a failure on any ring: the keys that moved to other nodes, first when the new nodes joined and then, among
  the first ten keys, when a node failed.\<close>

definition scale_and_fail ::
  "(vring \<Rightarrow> uint32 list) \<Rightarrow> tnode list \<Rightarrow> string \<Rightarrow> string list \<Rightarrow> vring \<Rightarrow> (string list \<times> string list \<times> vring) option" where
  "scale_and_fail order newNodes failed userKeys ring = do {
     beforeExpansion \<leftarrow> record_nodes (\<lambda>key. vr_GetNode key ring) userKeys;
     ring1 \<leftarrow> foldM vr_AddNode newNodes ring;
     migrated \<leftarrow> moved_from (\<lambda>key. vr_GetNode key ring1) beforeExpansion userKeys;
     beforeFailure \<leftarrow> record_nodes (\<lambda>key. vr_GetNode key ring1) (take 10 userKeys);
     let ring2 = vr_RemoveNode (order ring1) failed ring1;
     failover \<leftarrow> moved_from (\<lambda>key. vr_GetNode key ring2) beforeFailure (take 10 userKeys);
     Some (migrated, failover, ring2)
   }"

definition DemoRealWorldScenario :: "(vring \<Rightarrow> uint32 list) \<Rightarrow> (nat \<times> rat \<times> nat) option" where
  "DemoRealWorldScenario order = do {
     ring \<leftarrow> foldM vr_AddNode (redis_nodes [1, 2, 3]) (NewVirtualHashRing 150);
     let userKeys = numbered_keys ''user:'' [0..<1000];
     (migrated, failover, _) \<leftarrow> scale_and_fail order (redis_nodes [4, 5]) ''redis-master-2'' userKeys ring;
     Some (length migrated, of_nat (length migrated) / of_nat (length userKeys) * 100, length failover)
   }"

section \<open>What the reports say\<close>

text \<open>The number printed as the standard deviation is the mean square deviation, over the nodes that hold a key: four keys that
  are all on one of two nodes deviate by two from the mean, the report says four.\<close>

lemma deviation_is_squared: "lb_stdDev (load_report 4 2 [''a''] [''a'' \<mapsto> 4]) = Some 4"
  by (simp add: load_report_def List.map_filter_simps)

text \<open>The migration analysis after a failure counts all keys or none, whatever keys the failed node held.\<close>

lemma failure_analysis_all_or_none:
  assumes "\<And>key. key \<in> set keys \<Longrightarrow> \<exists>node. get key = Some (Some node)"
  shows "failure_analysis get failed order m keys \<in> {Some 0, Some (int (length keys))}"
proof -
  let ?first = "case filter (\<lambda>n. case m n of None \<Rightarrow> False | Some count \<Rightarrow> count > 0) order of [] \<Rightarrow> [] | n # _ \<Rightarrow> n"
  have "foldM (\<lambda>key migratedCount. do {
       r \<leftarrow> get key;
       let beforeNode = ?first;
       Some (if r \<noteq> None \<and> beforeNode = failed then migratedCount + 1 else migratedCount)
     }) keys c = Some (if ?first = failed then c + int (length keys) else c)" for c
    using assms
  proof (induction keys arbitrary: c)
    case (Cons key keys)
    obtain node where "get key = Some (Some node)" using Cons.prems by force
    then show ?case using Cons.IH Cons.prems by (simp add: Let_def)
  qed simp
  from this [of 0] show ?thesis unfolding failure_analysis_def by simp
qed

lemma record_nodes_total:
  assumes "\<And>key. key \<in> set keys \<Longrightarrow> the_node (get key) = Some (f key)"
  shows "record_nodes get keys = Some (\<lambda>key. if key \<in> set keys then Some (f key) else None)"
proof -
  have "foldM (\<lambda>key m. do { n \<leftarrow> the_node (get key); Some (m(key \<mapsto> n)) }) keys m =
      Some (\<lambda>key. if key \<in> set keys then Some (f key) else m key)" for m
    using assms by (induction keys arbitrary: m) (auto simp: fun_eq_iff)
  then show ?thesis by (simp add: record_nodes_def)
qed

lemma moved_from_total:
  assumes "\<And>key. key \<in> set keys \<Longrightarrow> the_node (get key) = Some (f key) \<and> placed key = Some (b key)"
  shows "moved_from get placed keys = Some (filter (\<lambda>key. b key \<noteq> f key) keys)"
proof -
  have "foldM (\<lambda>key moved. do {
       n \<leftarrow> the_node (get key);
       Some (if (case placed key of None \<Rightarrow> [] | Some b \<Rightarrow> b) \<noteq> n then moved @ [key] else moved)
     }) keys ms = Some (ms @ filter (\<lambda>key. b key \<noteq> f key) keys)" for ms
    using assms by (induction keys arbitrary: ms) auto
  then show ?thesis by (simp add: moved_from_def)
qed

section \<open>Scaling out and failures\<close>

lemma vr_AddNodes_moves:
  assumes "vr_inv vr" "vr_GetNode key vr = Some (Some m)" "foldM vr_AddNode nodes vr = Some vr'"
  shows "vr_inv vr'" "\<exists>n. vr_GetNode key vr' = Some (Some n) \<and> (n = m \<or> n \<in> set nodes)"
proof -
  have "vr_inv vr' \<and> (\<exists>n. vr_GetNode key vr' = Some (Some n) \<and> (n = m \<or> n \<in> set nodes))"
    using assms
  proof (induction nodes arbitrary: vr m)
    case (Cons node nodes)
    then obtain vr1 where vr1: "vr_AddNode node vr = Some vr1" "foldM vr_AddNode nodes vr1 = Some vr'" by (auto simp: bind_Some_iff)
    obtain n where n: "vr_GetNode key vr1 = Some (Some n)" "n = m \<or> n = node"
      using vr_AddNode_moves [OF Cons.prems(1,2) vr1(1)] by blast
    from Cons.IH [OF vr_AddNode_spec(1) [OF Cons.prems(1) vr1(1)] n(1) vr1(2)] show ?case using n(2) by auto
  qed auto
  then show "vr_inv vr'" "\<exists>n. vr_GetNode key vr' = Some (Some n) \<and> (n = m \<or> n \<in> set nodes)" by blast+
qed

text \<open>The identifier of a key's node, on a ring that is not empty.\<close>

definition owner_id :: "vring \<Rightarrow> string \<Rightarrow> string" where
  "owner_id vr key = the (the_node (vr_GetNode key vr))"

lemma owner_total: "vr_inv vr \<Longrightarrow> sortedHashes vr \<noteq> [] \<Longrightarrow> the_node (vr_GetNode key vr) = Some (owner_id vr key)"
  by (rule vr_GetNode_total [of vr key]) (simp_all add: owner_id_def the_node_def)

lemma owner_after_removal:
  assumes "vr_inv vr" "sortedHashes vr \<noteq> []" "is_order (virtualNodes vr) order" "sortedHashes (vr_RemoveNode order i vr) \<noteq> []"
  shows "owner_id vr key \<noteq> owner_id (vr_RemoveNode order i vr) key \<longleftrightarrow> owner_id vr key = i"
proof -
  let ?vr = "vr_RemoveNode order i vr"
  obtain m where m: "vr_GetNode key vr = Some (Some m)" "physicalNodes vr (tn_ID m) = Some m"
    by (rule vr_GetNode_total [OF assms(1,2)])
  obtain n where n: "vr_GetNode key ?vr = Some (Some n)" "physicalNodes ?vr (tn_ID n) = Some n"
    by (rule vr_GetNode_total [OF vr_RemoveNode_spec(1) [OF assms(1,3)] assms(4)])
  have id: "owner_id vr key = tn_ID m" "owner_id ?vr key = tn_ID n" using m(1) n(1) by (simp_all add: owner_id_def the_node_def)
  show ?thesis
  proof (cases "tn_ID m = i")
    case True
    then have "physicalNodes ?vr i = None" using m(2) by (simp add: vr_RemoveNode_def)
    then show ?thesis using True n(2) unfolding id by auto
  next
    case False
    then have "n = m" using vr_RemoveNode_moves [OF assms(1) m(1) assms(3), of i] n(1) by simp
    then show ?thesis using False unfolding id by simp
  qed
qed

text \<open>The analysis of scaling out and of a failure on any ring that additions and removals can build: every key that is
  reported as migrated is on one of the new nodes, every key on a new node that was not there before is reported, and a failure
  moves exactly the keys of the failed node.\<close>

theorem scaling_moves_to_new_nodes:
  assumes "vring_reach ring" "sortedHashes ring \<noteq> []" "foldM vr_AddNode newNodes ring = Some ring1"
    and "is_order (virtualNodes ring1) (order ring1)" "sortedHashes (vr_RemoveNode (order ring1) failed ring1) \<noteq> []"
  shows "\<exists>migrated. scale_and_fail order newNodes failed keys ring =
      Some (migrated, filter (\<lambda>key. owner_id ring1 key = failed) (take 10 keys), vr_RemoveNode (order ring1) failed ring1) \<and>
    migrated = filter (\<lambda>key. owner_id ring key \<noteq> owner_id ring1 key) keys \<and>
    (\<forall>key \<in> set migrated. owner_id ring1 key \<in> tn_ID ` set newNodes)"
proof -
  let ?ring2 = "vr_RemoveNode (order ring1) failed ring1"
  have inv: "vr_inv ring" using assms(1) by (rule vring_reach_inv)
  have moves: "\<exists>n. vr_GetNode key ring1 = Some (Some n) \<and> (n = m \<or> n \<in> set newNodes)" "vr_inv ring1"
    if "vr_GetNode key ring = Some (Some m)" for key m
    using vr_AddNodes_moves [OF inv that assms(3)] by blast+
  obtain m0 where "vr_GetNode [] ring = Some (Some m0)" using vr_GetNode_total [OF inv assms(2)] by metis
  from moves [OF this] have inv1: "vr_inv ring1" "sortedHashes ring1 \<noteq> []" by (auto simp: vr_GetNode_def)
  note inv2 = vr_RemoveNode_spec(1) [OF inv1(1) assms(4), of failed]
  note own = owner_total [OF inv assms(2)] owner_total [OF inv1] owner_total [OF inv2 assms(5)]
  have new: "owner_id ring1 key \<in> tn_ID ` set newNodes" if "owner_id ring key \<noteq> owner_id ring1 key" for key
  proof -
    obtain m where m: "vr_GetNode key ring = Some (Some m)" using vr_GetNode_total [OF inv assms(2)] by metis
    then show ?thesis using moves(1) [OF m] that by (auto simp: owner_id_def the_node_def)
  qed
  let ?rec = "\<lambda>vr keys. \<lambda>key. if key \<in> set keys then Some (owner_id vr key) else None"
  have r: "record_nodes (\<lambda>key. vr_GetNode key ring) keys = Some (?rec ring keys)"
    "record_nodes (\<lambda>key. vr_GetNode key ring1) (take 10 keys) = Some (?rec ring1 (take 10 keys))"
    by (rule record_nodes_total, rule own)+
  have mv: "moved_from (\<lambda>key. vr_GetNode key ring1) (?rec ring keys) keys = Some (filter (\<lambda>key. owner_id ring key \<noteq> owner_id ring1 key) keys)"
    "moved_from (\<lambda>key. vr_GetNode key ?ring2) (?rec ring1 (take 10 keys)) (take 10 keys) =
      Some (filter (\<lambda>key. owner_id ring1 key \<noteq> owner_id ?ring2 key) (take 10 keys))"
    by (rule moved_from_total; simp add: own)+
  have fail: "filter (\<lambda>key. owner_id ring1 key \<noteq> owner_id ?ring2 key) (take 10 keys) = filter (\<lambda>key. owner_id ring1 key = failed) (take 10 keys)"
    using owner_after_removal [OF inv1 assms(4,5)] by simp
  show ?thesis
    using new unfolding scale_and_fail_def r mv fail assms(3) by (auto simp: Let_def r mv fail)
qed

text \<open>A second node joins a ring with one position, and a node that is no member fails.\<close>

theorem scaling_moves_to_new_nodes_witness:
  "\<exists>ring migrated ring2. vring_reach ring \<and>
    scale_and_fail sortedHashes [plain_node ''b''] ''c'' [''k'', ''l''] ring =
      Some (migrated, filter (\<lambda>key. owner_id ring2 key = ''c'') [''k'', ''l''], ring2) \<and>
    (\<forall>key \<in> set migrated. owner_id ring2 key = ''b'')"
proof -
  have id [simp]: "tn_ID (plain_node n) = n" for n by (simp add: plain_node_def)
  let ?at = "\<lambda>n. vr_hash (virtual_id n 0)"
  let ?v = "\<lambda>n. \<lparr> tv_Hash = ?at n, tv_PhysicalNode = plain_node n, tv_VirtualID = virtual_id n 0 \<rparr>"
  let ?vr = "\<lparr> virtualNodes = [?at ''a'' \<mapsto> ?v ''a''], sortedHashes = [?at ''a''], physicalNodes = [''a'' \<mapsto> plain_node ''a''], virtualCount = 1 \<rparr>"
  let ?vr1 = "\<lparr> virtualNodes = [?at ''a'' \<mapsto> ?v ''a'', ?at ''b'' \<mapsto> ?v ''b''], sortedHashes = sort [?at ''a'', ?at ''b''],
    physicalNodes = [''a'' \<mapsto> plain_node ''a'', ''b'' \<mapsto> plain_node ''b''], virtualCount = 1 \<rparr>"
  have "vr_AddNode (plain_node ''a'') (NewVirtualHashRing 1) = Some ?vr"
    by (simp add: one_virtual NewVirtualHashRing_def add_virtual_node_def resolve.simps Let_def)
  then have r: "vring_reach ?vr" using vring_reach.new vring_reach.add by blast
  have "?at ''b'' \<noteq> ?at ''a''" by code_simp
  then have add: "foldM vr_AddNode [plain_node ''b''] ?vr = Some ?vr1"
    by (simp add: one_virtual add_virtual_node_def resolve.simps Let_def)
  have "set (sortedHashes ?vr1) = dom (virtualNodes ?vr1)" by auto
  moreover have "distinct (sortedHashes ?vr1)" using \<open>?at ''b'' \<noteq> ?at ''a''\<close> by (simp only: vring.simps distinct_sort) simp
  ultimately have ord: "is_order (virtualNodes ?vr1) (sortedHashes ?vr1)" by (simp only: is_order_def)
  have gone: "vr_RemoveNode (sortedHashes ?vr1) ''c'' ?vr1 = ?vr1" by (simp add: vr_RemoveNode_def)
  have ne: "sortedHashes ?vr \<noteq> []" "sortedHashes (vr_RemoveNode (sortedHashes ?vr1) ''c'' ?vr1) \<noteq> []"
    unfolding gone by (simp_all add: insort_is_Cons)
  note main = scaling_moves_to_new_nodes [OF r ne(1) add, where order = sortedHashes and failed = "''c''" and keys = "[''k'', ''l'']", OF ord ne(2)]
  then obtain migrated where m: "scale_and_fail sortedHashes [plain_node ''b''] ''c'' [''k'', ''l''] ?vr =
      Some (migrated, filter (\<lambda>key. owner_id ?vr1 key = ''c'') (take 10 [''k'', ''l'']), ?vr1)"
    "\<forall>key \<in> set migrated. owner_id ?vr1 key \<in> tn_ID ` set [plain_node ''b'']" unfolding gone by blast
  have "\<forall>key \<in> set migrated. owner_id ?vr1 key = ''b''" using m(2) unfolding list.set image_insert image_empty id by blast
  moreover have "take 10 [''k'', ''l''] = [''k'', ''l'']" by simp
  ultimately show ?thesis using r m(1) by metis
qed

end
