(* ===== verification/Ttl_Store.thy ===== *)
theory Ttl_Store
  imports Prelude
begin

text \<open>
  The contract of a cache whose entries expire, shared by the caches of the tutorials: a write is seen until its time to
  live is over and does not touch other keys.
\<close>

record 'v ttl_item =
  ti_Value :: 'v
  ti_ExpiresAt :: go_time

definition live :: "go_time \<Rightarrow> 'v ttl_item option \<Rightarrow> 'v option" where
  "live now item =
     (case item of None \<Rightarrow> None | Some it \<Rightarrow> if now > ti_ExpiresAt it then None else Some (ti_Value it))"

definition put_item :: "go_time \<Rightarrow> string \<Rightarrow> 'v \<Rightarrow> duration \<Rightarrow> (string \<rightharpoonup> 'v ttl_item) \<Rightarrow> (string \<rightharpoonup> 'v ttl_item)" where
  "put_item now key v ttl m = m(key \<mapsto> \<lparr> ti_Value = v, ti_ExpiresAt = now + ttl \<rparr>)"

lemma live_put:
  "live now (put_item t k v ttl m k') = (if k' = k then (if now \<le> t + ttl then Some v else None) else live now (m k'))"
  by (simp add: live_def put_item_def)

type_synonym 'v ttl_write = "go_time \<times> string \<times> 'v \<times> duration"

text \<open>What a history of writes, newest last, leaves visible at a key.\<close>

fun visible :: "'v ttl_write list \<Rightarrow> go_time \<Rightarrow> string \<Rightarrow> 'v option \<Rightarrow> 'v option" where
  "visible [] now k r = r"
| "visible ((t, k', v, ttl) # ws) now k r =
     visible ws now k (if k = k' then (if now \<le> t + ttl then Some v else None) else r)"

locale ttl_store =
  fixes look :: "go_time \<Rightarrow> string \<Rightarrow> 's \<Rightarrow> 'v option"
    and put :: "go_time \<Rightarrow> string \<Rightarrow> 'v \<Rightarrow> duration \<Rightarrow> 's \<Rightarrow> 's"
  assumes look_put: "look now k' (put t k v ttl s) = (if k' = k then (if now \<le> t + ttl then Some v else None) else look now k' s)"
begin

lemma look_history:
  "look now k (fold (\<lambda>(t, k', v, ttl). put t k' v ttl) ws s) = visible ws now k (look now k s)"
proof (induction ws arbitrary: s)
  case (Cons w ws)
  then show ?case by (cases w) (simp add: look_put)
qed simp

text \<open>A write is seen exactly until its time to live is over, when nothing is written to the key after it.\<close>

lemma look_until:
  assumes "\<forall>w \<in> set ws. fst (snd w) \<noteq> k"
  shows "look now k (fold (\<lambda>(t, k', v, ttl). put t k' v ttl) ws (put t k v ttl s)) = (if now \<le> t + ttl then Some v else None)"
proof -
  have "visible ws now k r = r" for r :: "'v option"
    using assms by (induction ws arbitrary: r) (auto split: prod.splits)
  then show ?thesis by (simp add: look_history look_put)
qed

end

end
