(* ===== verification/Basics.thy ===== *)
theory Basics
  imports Ttl_Store
begin

text \<open>
  \<open>tutorial/01-basics/simple_cache.go\<close>: the plain cache, the cache with expiry and the cache that counts. Values
  (\<open>interface{}\<close>) are a type variable; the absent value is \<open>None\<close>. The goroutine that waits for the ticker is
  not modelled, its clean-up pass is. \<open>Get\<close> of the expiring cache is split at the point where it gives up its lock.
\<close>

section \<open>The plain cache\<close>

record 'v basic_cache =
  bc_data :: "string \<rightharpoonup> 'v"

definition bc_New :: "'v basic_cache" where
  "bc_New = \<lparr> bc_data = Map.empty \<rparr>"

definition bc_Get :: "string \<Rightarrow> 'v basic_cache \<Rightarrow> 'v option" where
  "bc_Get key c = bc_data c key"

definition bc_Set :: "string \<Rightarrow> 'v \<Rightarrow> 'v basic_cache \<Rightarrow> 'v basic_cache" where
  "bc_Set key v c = c\<lparr> bc_data := (bc_data c)(key \<mapsto> v) \<rparr>"

definition bc_Delete :: "string \<Rightarrow> 'v basic_cache \<Rightarrow> 'v basic_cache" where
  "bc_Delete key c = c\<lparr> bc_data := (bc_data c)(key := None) \<rparr>"

definition bc_Size :: "'v basic_cache \<Rightarrow> int" where
  "bc_Size c = map_len (bc_data c)"

definition bc_Clear :: "'v basic_cache \<Rightarrow> 'v basic_cache" where
  "bc_Clear c = c\<lparr> bc_data := Map.empty \<rparr>"

section \<open>The cache with expiry\<close>

definition IsExpired :: "go_time \<Rightarrow> 'v ttl_item \<Rightarrow> bool" where
  "IsExpired now item \<longleftrightarrow> now > ti_ExpiresAt item"

record 'v ttl_cache =
  tc_data :: "string \<rightharpoonup> 'v ttl_item"
  tc_closed :: bool
  tc_started :: bool

definition NewCacheWithTTL :: "'v ttl_cache" where
  "NewCacheWithTTL = \<lparr> tc_data = Map.empty, tc_closed = False, tc_started = True \<rparr>"

definition tc_Set :: "go_time \<Rightarrow> string \<Rightarrow> 'v \<Rightarrow> duration \<Rightarrow> 'v ttl_cache \<Rightarrow> 'v ttl_cache" where
  "tc_Set now key v ttl c = c\<lparr> tc_data := put_item now key v ttl (tc_data c) \<rparr>"

definition tc_Delete :: "string \<Rightarrow> 'v ttl_cache \<Rightarrow> 'v ttl_cache" where
  "tc_Delete key c = c\<lparr> tc_data := (tc_data c)(key := None) \<rparr>"

definition tc_fetch :: "string \<Rightarrow> 'v ttl_cache \<Rightarrow> 'v ttl_item option" where
  "tc_fetch key c = tc_data c key"

definition tc_finish :: "go_time \<Rightarrow> string \<Rightarrow> 'v ttl_item option \<Rightarrow> 'v ttl_cache \<Rightarrow> 'v option \<times> 'v ttl_cache" where
  "tc_finish now key item c =
     (case item of
        None \<Rightarrow> (None, c)
      | Some it \<Rightarrow> if IsExpired now it then (None, tc_Delete key c) else (Some (ti_Value it), c))"

definition tc_Get :: "go_time \<Rightarrow> string \<Rightarrow> 'v ttl_cache \<Rightarrow> 'v option \<times> 'v ttl_cache" where
  "tc_Get now key c = tc_finish now key (tc_fetch key c) c"

definition tc_Size :: "'v ttl_cache \<Rightarrow> int" where
  "tc_Size c = map_len (tc_data c)"

text \<open>Closing the stop channel a second time would panic.\<close>

definition tc_Close :: "'v ttl_cache \<Rightarrow> 'v ttl_cache option" where
  "tc_Close c =
     (if tc_started c then (if tc_closed c then None else Some (c\<lparr> tc_closed := True, tc_started := False \<rparr>)) else Some c)"

definition remove_if_expired :: "go_time \<Rightarrow> string \<Rightarrow> (string \<rightharpoonup> 'v ttl_item) \<Rightarrow> (string \<rightharpoonup> 'v ttl_item)" where
  "remove_if_expired now key m =
     (case m key of None \<Rightarrow> m | Some item \<Rightarrow> if now > ti_ExpiresAt item then m(key := None) else m)"

definition removeExpired :: "go_time \<Rightarrow> string list \<Rightarrow> 'v ttl_cache \<Rightarrow> 'v ttl_cache" where
  "removeExpired now order c = c\<lparr> tc_data := fold (remove_if_expired now) order (tc_data c) \<rparr>"

interpretation basic_ttl: ttl_store "\<lambda>now k c. fst (tc_Get now k c)" tc_Set
  by unfold_locales (auto simp: tc_Get_def tc_finish_def tc_fetch_def tc_Set_def IsExpired_def put_item_def split: option.splits)

text \<open>The clean-up pass removes exactly the expired entries, so no look-up at or after its time notices.\<close>

lemma removeExpired_data:
  assumes "is_order (tc_data c) order"
  shows "tc_data (removeExpired now order c) = (\<lambda>k. case tc_data c k of None \<Rightarrow> None | Some item \<Rightarrow> if now > ti_ExpiresAt item then None else Some item)"
proof -
  have *: "fold (remove_if_expired now) ks m =
      (\<lambda>k. if k \<in> set ks then (case m k of None \<Rightarrow> None | Some item \<Rightarrow> if now > ti_ExpiresAt item then None else Some item) else m k)" for ks m
  proof (induction ks arbitrary: m)
    case (Cons a ks)
    have step: "remove_if_expired now a m k =
        (if k = a then (case m k of None \<Rightarrow> None | Some item \<Rightarrow> if now > ti_ExpiresAt item then None else Some item) else m k)" for k
      by (auto simp: remove_if_expired_def split: option.splits)
    show ?case unfolding fold_simps Cons.IH by (rule ext) (auto simp: step split: option.splits)
  qed simp
  show ?thesis
    using assms by (auto simp: removeExpired_def * is_order_def fun_eq_iff split: option.splits)
qed

lemma removeExpired_look:
  assumes "is_order (tc_data c) order" "now \<le> now'"
  shows "fst (tc_Get now' k (removeExpired now order c)) = fst (tc_Get now' k c)"
  using assms(2)
  by (auto simp: tc_Get_def tc_finish_def tc_fetch_def IsExpired_def removeExpired_data [OF assms(1)] split: option.splits)

lemma tc_Close_twice: "tc_Close c = Some d \<Longrightarrow> tc_Close d = Some d"
  by (auto simp: tc_Close_def split: if_splits)

section \<open>The cache that counts\<close>

record basic_stats =
  bs_Hits :: int
  bs_Misses :: int

definition bs_HitRate :: "basic_stats \<Rightarrow> rat" where
  "bs_HitRate s =
     (let total = bs_Hits s + bs_Misses s in if total = 0 then 0 else of_int (bs_Hits s) / of_int total)"

record 'v stats_cache =
  st_SimpleCache :: "'v basic_cache"
  st_stats :: basic_stats

definition NewStatsCache :: "'v stats_cache" where
  "NewStatsCache = \<lparr> st_SimpleCache = bc_New, st_stats = \<lparr> bs_Hits = 0, bs_Misses = 0 \<rparr> \<rparr>"

definition st_Get :: "string \<Rightarrow> 'v stats_cache \<Rightarrow> 'v option \<times> 'v stats_cache" where
  "st_Get key c =
     (let r = bc_Get key (st_SimpleCache c)
      in (r, c\<lparr> st_stats := (if r \<noteq> None then (st_stats c)\<lparr> bs_Hits := bs_Hits (st_stats c) + 1 \<rparr>
                             else (st_stats c)\<lparr> bs_Misses := bs_Misses (st_stats c) + 1 \<rparr>) \<rparr>))"

definition st_GetStats :: "'v stats_cache \<Rightarrow> basic_stats" where
  "st_GetStats c = st_stats c"

definition ResetStats :: "'v stats_cache \<Rightarrow> 'v stats_cache" where
  "ResetStats c = c\<lparr> st_stats := \<lparr> bs_Hits = 0, bs_Misses = 0 \<rparr> \<rparr>"

section \<open>A reader can delete a fresh value\<close>

text \<open>Between the look-up and the deletion of an expired entry \<open>Get\<close> holds no lock: a value written in between is
  deleted, although the same calls one after the other keep it for its whole time to live.\<close>

theorem expired_get_deletes_fresh:
  assumes "tc_fetch k c = Some item" "IsExpired now item" "0 \<le> ttl"
  shows "fst (tc_Get (now + ttl) k (tc_Set now k v ttl (snd (tc_Get now k c)))) = Some v \<and>
    tc_finish now k (tc_fetch k c) (tc_Set now k v ttl c) = (None, tc_Delete k (tc_Set now k v ttl c)) \<and>
    fst (tc_Get now' k (snd (tc_finish now k (tc_fetch k c) (tc_Set now k v ttl c)))) = None"
  using assms basic_ttl.look_put [of "now + ttl" k now k v ttl "snd (tc_Get now k c)"]
  by (simp add: tc_finish_def) (simp add: tc_Get_def tc_finish_def tc_fetch_def tc_Delete_def)

theorem expired_get_deletes_fresh_witness:
  "fst (tc_Get 6 ''k'' (snd (tc_finish 5 ''k'' (tc_fetch ''k'' (tc_Set 0 ''k'' (1 :: nat) 3 NewCacheWithTTL))
     (tc_Set 5 ''k'' 2 10 (tc_Set 0 ''k'' 1 3 NewCacheWithTTL))))) = None"
proof -
  let ?c = "tc_Set 0 ''k'' (1 :: nat) 3 NewCacheWithTTL"
  have "tc_fetch ''k'' ?c = Some \<lparr> ti_Value = 1, ti_ExpiresAt = 3 \<rparr>" by (simp add: tc_fetch_def tc_Set_def put_item_def)
  moreover have "IsExpired 5 \<lparr> ti_Value = 1 :: nat, ti_ExpiresAt = 3 \<rparr>" by (simp add: IsExpired_def)
  ultimately show ?thesis
    by (rule conjunct2 [OF conjunct2 [OF expired_get_deletes_fresh [of "''k''" ?c _ 5 10]]]) simp
qed

end
