(* ===== verification/Basics_Demos.thy ===== *)
theory Basics_Demos
  imports Basics
begin

text \<open>
  The demonstrations of \<open>tutorial/01-basics/demo.go\<close> and the loop that cleans a cache with expiry up. Each demonstration returns
  what it prints of values, sizes and statistics; the Chinese texts are arguments. The goroutines of the last one
  take their steps (one call of the cache each) in the order of a schedule. Elapsed times are not modelled.
\<close>

section \<open>The clean-up loop\<close>

text \<open>What \<open>select\<close> receives, in order: ticks with their time and the order of the loop, or the stop.\<close>

datatype 'v sweep_event = SweepTick go_time "(string \<rightharpoonup> 'v ttl_item) \<Rightarrow> string list" | SweepStop

text \<open>The cache after the events, and whether the goroutine has returned.\<close>

fun tc_cleanup :: "'v sweep_event list \<Rightarrow> 'v ttl_cache \<Rightarrow> 'v ttl_cache \<times> bool" where
  "tc_cleanup [] c = (c, False)"
| "tc_cleanup (SweepTick now order # es) c = tc_cleanup es (removeExpired now (order (tc_data c)) c)"
| "tc_cleanup (SweepStop # es) c = (c, True)"

definition fair_ticks :: "go_time \<Rightarrow> 'v sweep_event list \<Rightarrow> bool" where
  "fair_ticks late es \<longleftrightarrow> (\<forall>now order. SweepTick now order \<in> set es \<longrightarrow> now \<le> late \<and> fair_order order)"

lemma finite_removeExpired: "finite (dom (tc_data c)) \<Longrightarrow> finite (dom (tc_data (removeExpired now ks c)))"
proof -
  assume fin: "finite (dom (tc_data c))"
  have "fold (remove_if_expired now) ks m \<subseteq>\<^sub>m m" for m :: "string \<rightharpoonup> 'a ttl_item"
  proof (induction ks arbitrary: m)
    case (Cons a ks)
    have "remove_if_expired now a m \<subseteq>\<^sub>m m" by (auto simp: remove_if_expired_def map_le_def split: option.splits)
    with Cons.IH show ?case by (auto intro: map_le_trans)
  qed simp
  from map_le_implies_dom_le [OF this [of "tc_data c"]] show ?thesis
    using fin by (simp add: removeExpired_def finite_subset)
qed

text \<open>No reader after the events notices them, and the loop ends exactly when it is stopped.\<close>

theorem cleanup_invisible:
  assumes "finite (dom (tc_data c))" "fair_ticks late es" "late \<le> now"
  shows "fst (tc_Get now k (fst (tc_cleanup es c))) = fst (tc_Get now k c)" "snd (tc_cleanup es c) \<longleftrightarrow> SweepStop \<in> set es"
proof -
  show "fst (tc_Get now k (fst (tc_cleanup es c))) = fst (tc_Get now k c)"
    using assms(1,2)
  proof (induction es c rule: tc_cleanup.induct)
    case (2 t order es c)
    then have t: "t \<le> late" "fair_order order" "fair_ticks late es" by (auto simp: fair_ticks_def)
    have "is_order (tc_data c) (order (tc_data c))" using t(2) 2(2) by (rule fair_orderD)
    from removeExpired_look [OF this, of t now] show ?case
      using 2 t assms(3) by (simp add: finite_removeExpired)
  qed simp_all
  show "snd (tc_cleanup es c) \<longleftrightarrow> SweepStop \<in> set es" by (induction es c rule: tc_cleanup.induct) simp_all
qed

section \<open>The demonstrations\<close>

definition demoBasicCache :: "'v \<Rightarrow> 'v \<Rightarrow> 'v \<Rightarrow> int \<times> 'v option \<times> 'v option \<times> int" where
  "demoBasicCache zhang li wang =
     (let cache = bc_Set ''user:3'' wang (bc_Set ''user:2'' li (bc_Set ''user:1'' zhang bc_New))
      in (bc_Size cache, bc_Get ''user:1'' cache, bc_Get ''user:999'' cache, bc_Size (bc_Delete ''user:2'' cache)))"

text \<open>The clean-up runs between the calls as \<open>es i\<close> says; \<open>clk i\<close> is the time of the \<open>i\<close>-th call.\<close>

definition demoTTLCache :: "(nat \<Rightarrow> go_time) \<Rightarrow> (nat \<Rightarrow> 'v sweep_event list) \<Rightarrow> 'v \<Rightarrow> 'v \<Rightarrow> 'v option list \<times> 'v ttl_cache option" where
  "demoTTLCache clk es temp1 temp2 =
     (let c1 = tc_Set (clk 0) ''temp:1'' temp1 (3 * 10 ^ 9) NewCacheWithTTL;
          c2 = tc_Set (clk 1) ''temp:2'' temp2 (5 * 10 ^ 9) (fst (tc_cleanup (es 0) c1));
          (v0, c3) = tc_Get (clk 2) ''temp:1'' (fst (tc_cleanup (es 1) c2));
          (v2, c4) = tc_Get (clk 3) ''temp:1'' (fst (tc_cleanup (es 2) c3));
          (v4, c5) = tc_Get (clk 4) ''temp:1'' (fst (tc_cleanup (es 3) c4));
          (w4, c6) = tc_Get (clk 5) ''temp:2'' (fst (tc_cleanup (es 4) c5))
      in ([v0, v2, v4, w4], tc_Close c6))"

definition st_Set :: "string \<Rightarrow> 'v \<Rightarrow> 'v stats_cache \<Rightarrow> 'v stats_cache" where
  "st_Set key v c = c\<lparr> st_SimpleCache := bc_Set key v (st_SimpleCache c) \<rparr>"

definition data_key :: "nat \<Rightarrow> string" where
  "data_key n = ''data:'' @ Itoa n"

definition demoStatsCache :: "(nat \<Rightarrow> nat \<Rightarrow> nat) \<Rightarrow> 'v \<Rightarrow> 'v \<Rightarrow> 'v \<Rightarrow> basic_stats \<times> rat" where
  "demoStatsCache intn d1 d2 d3 =
     (let c = st_Set ''data:3'' d3 (st_Set ''data:2'' d2 (st_Set ''data:1'' d1 NewStatsCache));
          c1 = fold (\<lambda>i c. snd (st_Get (data_key (intn i 5 + 1)) c)) [0..<20] c
      in (st_GetStats c1, bs_HitRate (st_GetStats c1)))"

definition queryDatabase :: "string \<Rightarrow> string \<Rightarrow> string" where
  "queryDatabase text uid = text @ uid"

definition first_visit :: "string \<Rightarrow> string \<Rightarrow> string list \<times> string basic_cache \<Rightarrow> string list \<times> string basic_cache" where
  "first_visit text uid = (\<lambda>(queried, cache).
     case bc_Get (''user:'' @ uid) cache of
       None \<Rightarrow> (queried @ [uid], bc_Set (''user:'' @ uid) (queryDatabase text uid) cache)
     | Some _ \<Rightarrow> (queried, cache))"

text \<open>The users whose data is queried at the first visit, and what the second visit finds.\<close>

definition demoPerformanceComparison :: "string \<Rightarrow> string list \<times> string option list" where
  "demoPerformanceComparison text =
     (let userIDs = [''1'', ''2'', ''3'', ''4'', ''5''];
          (queried, cache) = fold (first_visit text) userIDs ([], bc_New)
      in (queried, map (\<lambda>id. bc_Get (''user:'' @ id) cache) userIDs))"

text \<open>
  Ten goroutines, of which the first five write, each with the number of calls it has made. A turn of a goroutine is its next
  call. After the schedule every goroutine gets the turns it may still need.
\<close>

definition cell :: "string \<Rightarrow> nat \<Rightarrow> nat \<Rightarrow> string" where
  "cell text i j = text @ Itoa i @ ''_'' @ Itoa j"

definition safety_turn :: "nat \<Rightarrow> string basic_cache \<times> nat list \<Rightarrow> string basic_cache \<times> nat list" where
  "safety_turn g = (\<lambda>(cache, ns).
     if g < length ns \<and> ns ! g < 100
     then ((if g < 5 then bc_Set (cell ''key_'' g (ns ! g)) (cell ''value_'' g (ns ! g)) cache else cache), ns[g := ns ! g + 1])
     else (cache, ns))"

definition demoConcurrentSafety :: "nat list \<Rightarrow> int \<times> string basic_cache" where
  "demoConcurrentSafety turns =
     (let (cache, ns) = fold safety_turn (turns @ concat (map (replicate 100) [0..<10])) (bc_New, replicate 10 0)
      in (bc_Size cache, cache))"

section \<open>What they show\<close>

theorem basic_demo: "demoBasicCache zhang li wang = (3, Some zhang, None, 2)"
  by (simp add: demoBasicCache_def bc_New_def bc_Set_def bc_Get_def bc_Size_def bc_Delete_def map_len_def Let_def)

theorem performance_demo:
  "demoPerformanceComparison text = ([''1'', ''2'', ''3'', ''4'', ''5''], map (\<lambda>id. Some (text @ id)) [''1'', ''2'', ''3'', ''4'', ''5''])"
  by (simp add: demoPerformanceComparison_def first_visit_def bc_New_def bc_Set_def bc_Get_def queryDatabase_def Let_def)

text \<open>The hits are the draws of a stored key.\<close>

theorem stats_demo:
  assumes "\<And>i. intn i 5 < 5" and "hits = length (filter (\<lambda>i. intn i 5 < 3) [0..<20])"
  shows "demoStatsCache intn d1 d2 d3 = (\<lparr> bs_Hits = int hits, bs_Misses = 20 - int hits \<rparr>, of_nat hits / 20)"
proof -
  let ?c = "st_Set ''data:3'' d3 (st_Set ''data:2'' d2 (st_Set ''data:1'' d1 NewStatsCache))"
  let ?run = "\<lambda>n. fold (\<lambda>i c. snd (st_Get (data_key (intn i 5 + 1)) c)) [0..<n] ?c"
  have one: "Itoa 1 = ''1''" "Itoa 2 = ''2''" "Itoa 3 = ''3''" by code_simp+
  have keys: "data_key (n + 1) \<in> {''data:1'', ''data:2'', ''data:3''} \<longleftrightarrow> n < 3" for n
    by (auto simp: data_key_def simp flip: one)
  have "st_SimpleCache (?run n) = st_SimpleCache ?c \<and> bs_Hits (st_stats (?run n)) = int (length (filter (\<lambda>i. intn i 5 < 3) [0..<n])) \<and>
    bs_Misses (st_stats (?run n)) = int n - int (length (filter (\<lambda>i. intn i 5 < 3) [0..<n]))" for n
  proof (induction n)
    case 0
    then show ?case by (simp add: st_Set_def NewStatsCache_def)
  next
    case (Suc n)
    have "bc_Get (data_key (intn n 5 + 1)) (st_SimpleCache ?c) \<noteq> None \<longleftrightarrow> intn n 5 < 3"
      using keys [of "intn n 5"] by (auto simp: st_Set_def NewStatsCache_def bc_Get_def bc_Set_def bc_New_def)
    with Suc show ?case by (auto simp: st_Get_def Let_def)
  qed
  from this [of 20] have "st_GetStats (?run 20) = \<lparr> bs_Hits = int hits, bs_Misses = 20 - int hits \<rparr>"
    by (simp only: st_GetStats_def assms(2)) (rule basic_stats.equality; simp)
  then show ?thesis by (simp add: demoStatsCache_def Let_def bs_HitRate_def del: upt_rec_numeral)
qed


text \<open>The second of the two entries outlives the first.\<close>

lemma finite_ops:
  "finite (dom (tc_data c)) \<Longrightarrow> finite (dom (tc_data (tc_Set now k v ttl c)))"
  "finite (dom (tc_data c)) \<Longrightarrow> finite (dom (tc_data (snd (tc_Get now k c))))"
  "finite (dom (tc_data c)) \<Longrightarrow> finite (dom (tc_data (fst (tc_cleanup es c))))"
proof -
  show "finite (dom (tc_data c)) \<Longrightarrow> finite (dom (tc_data (tc_Set now k v ttl c)))"
    by (simp add: tc_Set_def put_item_def)
  show "finite (dom (tc_data c)) \<Longrightarrow> finite (dom (tc_data (snd (tc_Get now k c))))"
    by (auto simp: tc_Get_def tc_finish_def tc_Delete_def split: option.splits)
  show "finite (dom (tc_data c)) \<Longrightarrow> finite (dom (tc_data (fst (tc_cleanup es c))))"
    by (induction es c rule: tc_cleanup.induct) (simp_all add: finite_removeExpired)
qed

lemma get_after_get: "now \<le> now' \<Longrightarrow> fst (tc_Get now' k' (snd (tc_Get now k c))) = fst (tc_Get now' k' c)"
  by (auto simp: tc_Get_def tc_finish_def tc_fetch_def tc_Delete_def IsExpired_def split: option.splits)

lemma get_after_set:
  "fst (tc_Get now' k' (tc_Set now k v ttl c)) = (if k' = k then (if now' \<le> now + ttl then Some v else None) else fst (tc_Get now' k' c))"
  by (rule basic_ttl.look_put)

theorem ttl_demo:
  assumes late: "\<And>i. i < 5 \<Longrightarrow> fair_ticks (clk (i + 1)) (es i)" and mono: "\<And>i j. i \<le> j \<Longrightarrow> clk i \<le> clk j"
    and t: "clk 3 \<le> clk 0 + 3 * 10 ^ 9" "clk 0 + 3 * 10 ^ 9 < clk 4" "clk 5 \<le> clk 1 + 5 * 10 ^ 9"
  shows "fst (demoTTLCache clk es temp1 temp2) = [Some temp1, Some temp1, None, Some temp2]"
proof -
  have clean: "fst (tc_Get now k (fst (tc_cleanup (es i) c))) = fst (tc_Get now k c)"
    if "finite (dom (tc_data c))" "i < 5" "j = i + 1" "clk j \<le> now" for c now k i j
    using cleanup_invisible(1) [OF that(1) late [OF that(2)]] that(3,4) by simp
  have fin: "finite (dom (tc_data (NewCacheWithTTL :: 'a ttl_cache)))" by (simp add: NewCacheWithTTL_def)
  have le: "clk 1 \<le> clk 2" "clk 2 \<le> clk 3" "clk 3 \<le> clk 4" "clk 4 \<le> clk 5" by (intro mono; simp)+
  define c2 where "c2 = tc_Set (clk 1) ''temp:2'' temp2 (5 * 10 ^ 9) (fst (tc_cleanup (es 0) (tc_Set (clk 0) ''temp:1'' temp1 (3 * 10 ^ 9) NewCacheWithTTL)))"
  have c2: "finite (dom (tc_data c2))" unfolding c2_def by (intro finite_ops fin)
  have look: "fst (tc_Get now ''temp:1'' c2) = (if now \<le> clk 0 + 3 * 10 ^ 9 then Some temp1 else None)"
    "fst (tc_Get now ''temp:2'' c2) = (if now \<le> clk 1 + 5 * 10 ^ 9 then Some temp2 else None)" if "clk 1 \<le> now" for now
    using that clean [OF finite_ops(1) [OF fin], of 0 1 now] by (simp_all add: c2_def get_after_set)
  have last: "clk 2 \<le> clk 5" "clk 3 \<le> clk 5" "clk 4 \<le> clk 5" "clk 1 \<le> clk 5" by (intro mono; simp)+
  have five: "(4 :: nat) < 5" "(5 :: nat) = 4 + 1" by arith+
  define c3 where "c3 = snd (tc_Get (clk 2) ''temp:1'' (fst (tc_cleanup (es 1) c2)))"
  define c4 where "c4 = snd (tc_Get (clk 3) ''temp:1'' (fst (tc_cleanup (es 2) c3)))"
  define c5 where "c5 = snd (tc_Get (clk 4) ''temp:1'' (fst (tc_cleanup (es 3) c4)))"
  have c3: "finite (dom (tc_data c3))" unfolding c3_def by (intro finite_ops c2)
  have c3_look: "fst (tc_Get now k c3) = fst (tc_Get now k c2)" if "clk 2 \<le> now" for now k
    unfolding c3_def get_after_get [OF that] using clean [OF c2, of 1 2 now k] that by simp
  have c4: "finite (dom (tc_data c4))" unfolding c4_def by (intro finite_ops c3)
  have c4_look: "fst (tc_Get now k c4) = fst (tc_Get now k c3)" if "clk 3 \<le> now" for now k
    unfolding c4_def get_after_get [OF that] using clean [OF c3, of 2 3 now k] that by simp
  have c5: "finite (dom (tc_data c5))" unfolding c5_def by (intro finite_ops c4)
  have c5_look: "fst (tc_Get now k c5) = fst (tc_Get now k c4)" if "clk 4 \<le> now" for now k
    unfolding c5_def get_after_get [OF that] using clean [OF c4, of 3 4 now k] that by simp
  have "fst (tc_Get (clk 2) ''temp:1'' (fst (tc_cleanup (es 1) c2))) = Some temp1"
    using clean [OF c2, of 1 2 "clk 2"] look(1) [of "clk 2"] le t(1) by simp
  moreover have "fst (tc_Get (clk 3) ''temp:1'' (fst (tc_cleanup (es 2) c3))) = Some temp1"
    using clean [OF c3, of 2 3 "clk 3"] c3_look [of "clk 3"] look(1) [of "clk 3"] le t(1) by simp
  moreover have "fst (tc_Get (clk 4) ''temp:1'' (fst (tc_cleanup (es 3) c4))) = None"
    using clean [OF c4, of 3 4 "clk 4"] c4_look [of "clk 4"] c3_look [of "clk 4"] look(1) [of "clk 4"] le t(2) by simp
  moreover have "fst (tc_Get (clk 5) ''temp:2'' (fst (tc_cleanup (es 4) c5))) = Some temp2"
    unfolding clean [OF c5 five order_refl] c5_look [OF last(3)] c4_look [OF last(2)] c3_look [OF last(1)]
      look(2) [OF last(4)] by (simp only: t(3) if_True)
  ultimately show ?thesis
    unfolding demoTTLCache_def Let_def case_prod_beta c2_def [symmetric] c3_def [symmetric] c4_def [symmetric] c5_def [symmetric] by simp
qed

text \<open>Whatever the schedule, all writes are there in the end.\<close>

definition safe_cells :: "string basic_cache \<times> nat list \<Rightarrow> bool" where
  "safe_cells s \<longleftrightarrow> length (snd s) = 10 \<and> (\<forall>n \<in> set (snd s). n \<le> 100) \<and>
     dom (bc_data (fst s)) = (\<lambda>(i, j). cell ''key_'' i j) ` (SIGMA i : {..<5}. {..<snd s ! i})"


lemma Itoa_plain: "CHR ''_'' \<notin> set (Itoa n)"
proof -
  have "CHR ''_'' \<notin> set (digits n)"
  proof (induction n rule: digits.induct)
    case (1 n)
    have d: "CHR ''_'' \<noteq> char_of (48 + m)" if "m < 10" for m :: nat
      using that by (simp add: eq_commute [of "CHR ''_''"] char_of_eq_iff take_bit_eq_mod)
    show ?case
      using 1 d [of n] d [of "n mod 10"] by (subst digits.simps) auto
  qed
  then show ?thesis by (simp add: Itoa_def)
qed

lemma cell_inj: "cell text i j = cell text i' j' \<longleftrightarrow> i = i' \<and> j = j'"
proof
  assume eq: "cell text i j = cell text i' j'"
  have head: "takeWhile (\<lambda>c. c \<noteq> CHR ''_'') (Itoa a @ ''_'' @ s) = Itoa a" for a s
    using Itoa_plain [of a] by (subst takeWhile_append2) auto
  have "Itoa i @ ''_'' @ Itoa j = Itoa i' @ ''_'' @ Itoa j'" using eq by (simp add: cell_def)
  with head [of i "Itoa j"] head [of i' "Itoa j'"] have "Itoa i = Itoa i'" by simp
  with eq show "i = i' \<and> j = j'" by (simp add: cell_def)
qed simp

lemma safe_turn: "safe_cells s \<Longrightarrow> safe_cells (safety_turn g s)"
proof -
  assume s: "safe_cells s"
  obtain c ns where cn: "s = (c, ns)" by fastforce
  have len: "length ns = 10" and le: "\<forall>n \<in> set ns. n \<le> 100"
    and dom: "dom (bc_data c) = (\<lambda>(i, j). cell ''key_'' i j) ` (SIGMA i : {..<5}. {..<ns ! i})"
    using s by (simp_all add: safe_cells_def cn)
  show ?thesis
  proof (cases "g < 10 \<and> ns ! g < 100")
    case True
    let ?ns = "ns[g := ns ! g + 1]"
    have n: "length ?ns = 10" "\<forall>n \<in> set ?ns. n \<le> 100" using len le True by (auto dest: set_update_subset_insert [THEN subsetD])
    have "(SIGMA i : {..<5}. {..<?ns ! i}) = (if g < 5 then insert (g, ns ! g) (SIGMA i : {..<5}. {..<ns ! i}) else (SIGMA i : {..<5}. {..<ns ! i}))"
      using len by (auto simp: nth_list_update less_Suc_eq split: if_splits)
    then show ?thesis
      using True len n dom by (auto simp: cn safety_turn_def safe_cells_def bc_Set_def)
  qed (use s len in \<open>auto simp: cn safety_turn_def\<close>)
qed

lemma safe_turns: "safe_cells s \<Longrightarrow> safe_cells (fold safety_turn ts s)"
  by (induction ts arbitrary: s) (simp_all add: safe_turn)

lemma turns_progress:
  assumes "length (snd s) = 10" "g < 10"
  shows "length (snd (safety_turn g' s)) = 10" "snd s ! g \<le> snd (safety_turn g' s) ! g"
    "min 100 (snd s ! g + 1) \<le> snd (safety_turn g s) ! g"
  using assms by (auto simp: safety_turn_def nth_list_update split: prod.splits)

lemma turns_mono: "length (snd s) = 10 \<Longrightarrow> g < 10 \<Longrightarrow> length (snd (fold safety_turn ts s)) = 10 \<and> snd s ! g \<le> snd (fold safety_turn ts s) ! g"
proof (induction ts arbitrary: s)
  case (Cons t ts)
  show ?case using Cons.IH [of "safety_turn t s"] turns_progress(1,2) [OF Cons.prems, of t] Cons.prems(2) by force
qed simp

lemma turns_finish: "length (snd s) = 10 \<Longrightarrow> g < 10 \<Longrightarrow> min 100 (snd s ! g + n) \<le> snd (fold safety_turn (replicate n g) s) ! g"
proof (induction n arbitrary: s)
  case (Suc n)
  show ?case using Suc.IH [of "safety_turn g s"] turns_progress(1,3) [OF Suc.prems] Suc.prems(2) by force
qed simp

lemma all_finish:
  assumes "length (snd s) = 10" "g < 10"
  shows "100 \<le> snd (fold safety_turn (concat (map (replicate 100) [0..<10])) s) ! g"
proof -
  have "[0..<10] = [0..<g] @ g # [Suc g..<10]" using assms(2) upt_add_eq_append [of 0 g "10 - g"] upt_conv_Cons [of g 10] by simp
  then have "concat (map (replicate 100) [0..<10]) = concat (map (replicate 100) [0..<g]) @ replicate 100 g @ concat (map (replicate 100) [Suc g..<10])"
    by simp
  moreover define s1 where "s1 = fold safety_turn (concat (map (replicate 100) [0..<g])) s"
  moreover define s2 where "s2 = fold safety_turn (replicate 100 g) s1"
  ultimately have "fold safety_turn (concat (map (replicate 100) [0..<10])) s = fold safety_turn (concat (map (replicate 100) [Suc g..<10])) s2" by simp
  moreover have s1: "length (snd s1) = 10" using turns_mono [OF assms] by (simp add: s1_def)
  moreover have s2: "length (snd s2) = 10" unfolding s2_def using turns_mono [OF s1 assms(2)] by blast
  moreover have "100 \<le> snd s2 ! g" using turns_finish [OF s1 assms(2), of 100] by (simp add: s2_def)
  ultimately show ?thesis using conjunct2 [OF turns_mono [OF s2 assms(2)]] order_trans by metis
qed

theorem safety_demo: "fst (demoConcurrentSafety turns) = 500"
proof -
  let ?ts = "turns @ concat (map (replicate 100) [0..<10])" let ?s = "(bc_New, replicate 10 0) :: string basic_cache \<times> nat list"
  define s where "s = fold safety_turn ?ts ?s"
  have "safe_cells ?s" by (auto simp: safe_cells_def bc_New_def)
  then have safe: "safe_cells s" unfolding s_def by (rule safe_turns)
  have "snd s ! g = 100" if "g < 10" for g
  proof -
    have "length (snd (fold safety_turn turns ?s)) = 10" using turns_mono [of ?s 0 turns] by simp
    from all_finish [OF this that] have "100 \<le> snd s ! g" by (simp add: s_def del: upt_rec_numeral)
    moreover have "snd s ! g \<in> set (snd s)" using safe that by (intro nth_mem) (simp add: safe_cells_def)
    ultimately show ?thesis using safe by (auto simp: safe_cells_def intro: antisym)
  qed
  then have "dom (bc_data (fst s)) = (\<lambda>(i, j). cell ''key_'' i j) ` ({..<5} \<times> {..<100})"
    using safe by (auto simp: safe_cells_def)
  moreover have "inj_on (\<lambda>(i, j). cell ''key_'' i j) A" for A by (auto simp: inj_on_def cell_inj)
  ultimately have "card (dom (bc_data (fst s))) = 500" by (simp add: card_image card_cartesian_product)
  then show ?thesis
    unfolding demoConcurrentSafety_def Let_def case_prod_beta s_def [symmetric] by (simp add: bc_Size_def map_len_def)
qed

end
