(* ===== verification/Patterns.thy ===== *)
theory Patterns
  imports Prelude
begin

text \<open>
  The caching strategies of \<open>tutorial/02-patterns\<close>: cache-aside, write-through and write-back over a simulated
  database. A call returns the value or the error of the source together with the state. Every method of
  \<open>Cache\<close> and \<open>Database\<close> takes its own lock, so it is one atomic step; here the methods of the services run without
  interference, their interleavings are in \<open>Patterns_Conc\<close>. Printing and the simulated latency are not modelled.
\<close>

section \<open>The database and the cache\<close>

record database =
  db_data :: "string \<rightharpoonup> string"

definition NewDatabase :: database where
  "NewDatabase = \<lparr> db_data = Map.empty \<rparr>"

definition db_Get :: "string \<Rightarrow> database \<Rightarrow> string option" where
  "db_Get key db = db_data db key"

definition db_Set :: "string \<Rightarrow> string \<Rightarrow> database \<Rightarrow> database" where
  "db_Set key v db = db\<lparr> db_data := (db_data db)(key \<mapsto> v) \<rparr>"

definition db_Delete :: "string \<Rightarrow> database \<Rightarrow> database" where
  "db_Delete key db = db\<lparr> db_data := (db_data db)(key := None) \<rparr>"

record pcache =
  pc_data :: "string \<rightharpoonup> string"

definition NewCache :: pcache where
  "NewCache = \<lparr> pc_data = Map.empty \<rparr>"

definition pc_Get :: "string \<Rightarrow> pcache \<Rightarrow> string option" where
  "pc_Get key c = pc_data c key"

definition pc_Set :: "string \<Rightarrow> string \<Rightarrow> pcache \<Rightarrow> pcache" where
  "pc_Set key v c = c\<lparr> pc_data := (pc_data c)(key \<mapsto> v) \<rparr>"

definition pc_Delete :: "string \<Rightarrow> pcache \<Rightarrow> pcache" where
  "pc_Delete key c = c\<lparr> pc_data := (pc_data c)(key := None) \<rparr>"

lemmas store_defs [go_simps] = db_Get_def db_Set_def db_Delete_def pc_Get_def pc_Set_def pc_Delete_def

datatype pattern_error = NoData string | WriteFailed

section \<open>Cache-aside\<close>

record aside =
  as_cache :: pcache
  as_db :: database

definition NewCacheAsideService :: aside where
  "NewCacheAsideService = \<lparr> as_cache = NewCache, as_db = NewDatabase \<rparr>"

definition ca_Get :: "string \<Rightarrow> aside \<Rightarrow> (pattern_error + string) \<times> aside" where
  "ca_Get key s =
     (case pc_Get key (as_cache s) of
        Some v \<Rightarrow> (Inr v, s)
      | None \<Rightarrow>
          (case db_Get key (as_db s) of
             None \<Rightarrow> (Inl (NoData key), s)
           | Some v \<Rightarrow> (Inr v, s\<lparr> as_cache := pc_Set key v (as_cache s) \<rparr>)))"

definition ca_Set :: "string \<Rightarrow> string \<Rightarrow> aside \<Rightarrow> aside" where
  "ca_Set key v s = (let s1 = s\<lparr> as_db := db_Set key v (as_db s) \<rparr> in s1\<lparr> as_cache := pc_Delete key (as_cache s1) \<rparr>)"

definition ca_Delete :: "string \<Rightarrow> aside \<Rightarrow> aside" where
  "ca_Delete key s = (let s1 = s\<lparr> as_db := db_Delete key (as_db s) \<rparr> in s1\<lparr> as_cache := pc_Delete key (as_cache s1) \<rparr>)"

definition SetWithUpdate :: "string \<Rightarrow> string \<Rightarrow> aside \<Rightarrow> aside" where
  "SetWithUpdate key v s = (let s1 = s\<lparr> as_db := db_Set key v (as_db s) \<rparr> in s1\<lparr> as_cache := pc_Set key v (as_cache s1) \<rparr>)"

section \<open>Write-through\<close>

text \<open>\<open>wt_holder\<close> is the goroutine that holds \<open>wt.mu\<close>; it only matters when calls interleave.\<close>

record write_through =
  wt_cache :: pcache
  wt_db :: database
  wt_holder :: "nat option"

definition NewWriteThroughCache :: write_through where
  "NewWriteThroughCache = \<lparr> wt_cache = NewCache, wt_db = NewDatabase, wt_holder = None \<rparr>"

definition wt_Get :: "string \<Rightarrow> write_through \<Rightarrow> (pattern_error + string) \<times> write_through" where
  "wt_Get key s =
     (case pc_Get key (wt_cache s) of
        Some v \<Rightarrow> (Inr v, s)
      | None \<Rightarrow>
          (case db_Get key (wt_db s) of
             None \<Rightarrow> (Inl (NoData key), s)
           | Some v \<Rightarrow> (Inr v, s\<lparr> wt_cache := pc_Set key v (wt_cache s) \<rparr>)))"

definition wt_Set :: "string \<Rightarrow> string \<Rightarrow> write_through \<Rightarrow> write_through" where
  "wt_Set key v s = (let s1 = s\<lparr> wt_cache := pc_Set key v (wt_cache s) \<rparr> in s1\<lparr> wt_db := db_Set key v (wt_db s1) \<rparr>)"

definition restore :: "string \<Rightarrow> string option \<Rightarrow> pcache \<Rightarrow> pcache" where
  "restore key original c = (case original of Some v \<Rightarrow> pc_Set key v c | None \<Rightarrow> pc_Delete key c)"

definition SetWithRollback :: "string \<Rightarrow> string \<Rightarrow> write_through \<Rightarrow> pattern_error option \<times> write_through" where
  "SetWithRollback key v s =
     (let original = pc_Get key (wt_cache s);
          s1 = s\<lparr> wt_cache := pc_Set key v (wt_cache s) \<rparr>
      in if key = ''fail_key'' then (Some WriteFailed, s1\<lparr> wt_cache := restore key original (wt_cache s1) \<rparr>)
         else (None, s1\<lparr> wt_db := db_Set key v (wt_db s1) \<rparr>))"

definition wt_Delete :: "string \<Rightarrow> write_through \<Rightarrow> write_through" where
  "wt_Delete key s = (let s1 = s\<lparr> wt_cache := pc_Delete key (wt_cache s) \<rparr> in s1\<lparr> wt_db := db_Delete key (wt_db s1) \<rparr>)"

section \<open>Write-back\<close>

record dirty_item =
  di_Key :: string
  di_Value :: string
  di_Timestamp :: go_time
  IsDirty :: bool

record write_back =
  wb_cache :: pcache
  wb_db :: database
  dirtyData :: "string \<rightharpoonup> dirty_item"
  wb_stopped :: bool

definition NewWriteBackCache :: write_back where
  "NewWriteBackCache = \<lparr> wb_cache = NewCache, wb_db = NewDatabase, dirtyData = Map.empty, wb_stopped = False \<rparr>"

definition wb_Get :: "string \<Rightarrow> write_back \<Rightarrow> (pattern_error + string) \<times> write_back" where
  "wb_Get key s =
     (case pc_Get key (wb_cache s) of
        Some v \<Rightarrow> (Inr v, s)
      | None \<Rightarrow>
          (case db_Get key (wb_db s) of
             None \<Rightarrow> (Inl (NoData key), s)
           | Some v \<Rightarrow> (Inr v, s\<lparr> wb_cache := pc_Set key v (wb_cache s) \<rparr>)))"

definition wb_Set :: "go_time \<Rightarrow> string \<Rightarrow> string \<Rightarrow> write_back \<Rightarrow> write_back" where
  "wb_Set now key v s =
     s\<lparr> wb_cache := pc_Set key v (wb_cache s),
        dirtyData := (dirtyData s)(key \<mapsto> \<lparr> di_Key = key, di_Value = v, di_Timestamp = now, IsDirty = True \<rparr>) \<rparr>"

definition wb_Delete :: "string \<Rightarrow> write_back \<Rightarrow> write_back" where
  "wb_Delete key s =
     s\<lparr> wb_cache := pc_Delete key (wb_cache s), dirtyData := (dirtyData s)(key := None), wb_db := db_Delete key (wb_db s) \<rparr>"

definition flush_item :: "string \<Rightarrow> write_back \<Rightarrow> write_back" where
  "flush_item key s =
     (case dirtyData s key of
        None \<Rightarrow> s
      | Some item \<Rightarrow>
          if IsDirty item
          then s\<lparr> wb_db := db_Set key (di_Value item) (wb_db s), dirtyData := (dirtyData s)(key \<mapsto> item\<lparr> IsDirty := False \<rparr>) \<rparr>
          else s)"

definition Flush :: "((string \<rightharpoonup> dirty_item) \<Rightarrow> string list) \<Rightarrow> write_back \<Rightarrow> write_back" where
  "Flush order s =
     (if dirtyData s = Map.empty then s
      else (fold flush_item (order (dirtyData s)) s)\<lparr> dirtyData := Map.empty \<rparr>)"

definition autoFlush :: "((string \<rightharpoonup> dirty_item) \<Rightarrow> string list) \<Rightarrow> write_back \<Rightarrow> write_back" where
  "autoFlush order s =
     (if dirtyData s = Map.empty then s
      else (fold flush_item (order (dirtyData s)) s)\<lparr> dirtyData := Map.empty \<rparr>)"

definition GetDirtyCount :: "string list \<Rightarrow> write_back \<Rightarrow> int" where
  "GetDirtyCount order s = int (length (filter IsDirty (List.map_filter (dirtyData s) order)))"

text \<open>Closing a closed channel panics.\<close>

definition wb_Close :: "((string \<rightharpoonup> dirty_item) \<Rightarrow> string list) \<Rightarrow> write_back \<Rightarrow> write_back option" where
  "wb_Close order s = (let s1 = Flush order s in if wb_stopped s1 then None else Some (s1\<lparr> wb_stopped := True \<rparr>))"

section \<open>The contract of a caching strategy\<close>

text \<open>
  What a client relies on: behind every strategy there is one logical map, whatever of it is in the
  cache, in the database or in the list of dirty items. A call carries the clock readings it makes;
  \<open>tick\<close> is the background work.
\<close>

datatype 't kv_call = KGet 't string | KSet 't string string | KDelete 't string | KTick 't

fun answers ::
  "('t \<Rightarrow> string \<Rightarrow> 's \<Rightarrow> (pattern_error + string) \<times> 's) \<Rightarrow> ('t \<Rightarrow> string \<Rightarrow> string \<Rightarrow> 's \<Rightarrow> 's) \<Rightarrow>
   ('t \<Rightarrow> string \<Rightarrow> 's \<Rightarrow> 's) \<Rightarrow> ('t \<Rightarrow> 's \<Rightarrow> 's) \<Rightarrow> 't kv_call list \<Rightarrow> 's \<Rightarrow> (pattern_error + string) list \<times> 's" where
  "answers get put del tick [] s = ([], s)"
| "answers get put del tick (KGet t k # cs) s =
     (case get t k s of (r, s1) \<Rightarrow> case answers get put del tick cs s1 of (rs, s2) \<Rightarrow> (r # rs, s2))"
| "answers get put del tick (KSet t k v # cs) s = answers get put del tick cs (put t k v s)"
| "answers get put del tick (KDelete t k # cs) s = answers get put del tick cs (del t k s)"
| "answers get put del tick (KTick t # cs) s = answers get put del tick cs (tick t s)"

definition lookup_answer :: "string \<Rightarrow> (string \<rightharpoonup> string) \<Rightarrow> pattern_error + string" where
  "lookup_answer k m = (case m k of None \<Rightarrow> Inl (NoData k) | Some v \<Rightarrow> Inr v)"

abbreviation map_answers :: "'t kv_call list \<Rightarrow> (string \<rightharpoonup> string) \<Rightarrow> (pattern_error + string) list \<times> (string \<rightharpoonup> string)" where
  "map_answers \<equiv> answers (\<lambda>t k m. (lookup_answer k m, m)) (\<lambda>t k v m. m(k \<mapsto> v)) (\<lambda>t k m. m(k := None)) (\<lambda>t m. m)"

locale caching_store =
  fixes inv :: "'s \<Rightarrow> bool"
    and abs :: "'s \<Rightarrow> (string \<rightharpoonup> string)"
    and get :: "'t \<Rightarrow> string \<Rightarrow> 's \<Rightarrow> (pattern_error + string) \<times> 's"
    and put :: "'t \<Rightarrow> string \<Rightarrow> string \<Rightarrow> 's \<Rightarrow> 's"
    and tick :: "'t \<Rightarrow> 's \<Rightarrow> 's"
  assumes get_answer: "inv s \<Longrightarrow> fst (get t k s) = lookup_answer k (abs s)"
    and get_keeps: "inv s \<Longrightarrow> inv (snd (get t k s)) \<and> abs (snd (get t k s)) = abs s"
    and put_writes: "inv s \<Longrightarrow> inv (put t k v s) \<and> abs (put t k v s) = (abs s)(k \<mapsto> v)"
    and tick_keeps: "inv s \<Longrightarrow> inv (tick t s) \<and> abs (tick t s) = abs s"
begin

text \<open>A client cannot tell the store from the map, as long as its deletions, if any, delete.\<close>

lemma run_equiv_del:
  assumes "inv s"
    and "\<And>t k s. KDelete t k \<in> set cs \<Longrightarrow> inv s \<Longrightarrow> inv (del t k s) \<and> abs (del t k s) = (abs s)(k := None)"
  shows "fst (answers get put del tick cs s) = fst (map_answers cs (abs s)) \<and>
    inv (snd (answers get put del tick cs s)) \<and> abs (snd (answers get put del tick cs s)) = snd (map_answers cs (abs s))"
  using assms
proof (induction cs arbitrary: s)
  case (Cons c cs)
  note IH = Cons.IH [OF _ Cons.prems(2) [OF list.set_intros(2)]]
  show ?case
  proof (cases c)
    case (KGet t k)
    obtain r s1 where g: "get t k s = (r, s1)" by fastforce
    then have s1: "inv s1" "abs s1 = abs s" "r = lookup_answer k (abs s)"
      using get_answer [OF Cons.prems(1), of t k] get_keeps [OF Cons.prems(1), of t k] by auto
    show ?thesis using IH [OF s1(1)] s1 g KGet by (auto split: prod.splits)
  next
    case (KSet t k v)
    then show ?thesis using IH [of "put t k v s"] put_writes [OF Cons.prems(1)] by simp
  next
    case (KDelete t k)
    then show ?thesis using IH [of "del t k s"] Cons.prems(2) [of t k s] Cons.prems(1) by simp
  next
    case (KTick t)
    then show ?thesis using IH [of "tick t s"] tick_keeps [OF Cons.prems(1)] by simp
  qed
qed simp

end

locale transparent_cache = caching_store inv abs get put tick
  for inv :: "'s \<Rightarrow> bool" and abs and get and put :: "'t \<Rightarrow> string \<Rightarrow> string \<Rightarrow> 's \<Rightarrow> 's" and tick +
  fixes del :: "'t \<Rightarrow> string \<Rightarrow> 's \<Rightarrow> 's"
  assumes del_removes: "inv s \<Longrightarrow> inv (del t k s) \<and> abs (del t k s) = (abs s)(k := None)"
begin

lemma run_equiv:
  "inv s \<Longrightarrow> fst (answers get put del tick cs s) = fst (map_answers cs (abs s)) \<and>
    inv (snd (answers get put del tick cs s)) \<and> abs (snd (answers get put del tick cs s)) = snd (map_answers cs (abs s))"
  using del_removes by (intro run_equiv_del)

end

section \<open>The three strategies keep it\<close>

definition ca_inv :: "aside \<Rightarrow> bool" where
  "ca_inv s \<longleftrightarrow> pc_data (as_cache s) \<subseteq>\<^sub>m db_data (as_db s)"

definition wt_inv :: "write_through \<Rightarrow> bool" where
  "wt_inv s \<longleftrightarrow> pc_data (wt_cache s) \<subseteq>\<^sub>m db_data (wt_db s)"

definition wb_abs :: "write_back \<Rightarrow> (string \<rightharpoonup> string)" where
  "wb_abs s = db_data (wb_db s) ++ (\<lambda>k. map_option di_Value (dirtyData s k))"

definition wb_inv :: "write_back \<Rightarrow> bool" where
  "wb_inv s \<longleftrightarrow> pc_data (wb_cache s) \<subseteq>\<^sub>m wb_abs s \<and> finite (dom (dirtyData s)) \<and>
     (\<forall>k item. dirtyData s k = Some item \<longrightarrow> IsDirty item \<and> pc_data (wb_cache s) k = Some (di_Value item))"

lemma submap_iff: "m \<subseteq>\<^sub>m n \<longleftrightarrow> (\<forall>k v. m k = Some v \<longrightarrow> n k = Some v)"
  by (force simp: map_le_def)

lemmas strategy_defs = lookup_answer_def store_defs submap_iff Let_def

interpretation cache_aside: transparent_cache ca_inv "\<lambda>s. db_data (as_db s)" "\<lambda>_ :: go_time. ca_Get" "\<lambda>_. ca_Set" "\<lambda>_ s. s" "\<lambda>_. ca_Delete"
  by unfold_locales (auto simp: ca_inv_def ca_Get_def ca_Set_def ca_Delete_def strategy_defs split: option.splits)

interpretation through: transparent_cache wt_inv "\<lambda>s. db_data (wt_db s)" "\<lambda>_ :: go_time. wt_Get" "\<lambda>_. wt_Set" "\<lambda>_ s. s" "\<lambda>_. wt_Delete"
  by unfold_locales (auto simp: wt_inv_def wt_Get_def wt_Set_def wt_Delete_def strategy_defs split: option.splits)

text \<open>The flush loop, and what a flush leaves behind.\<close>

lemma fold_flush_item:
  assumes "distinct ks" "\<And>k item. dirtyData s k = Some item \<Longrightarrow> k \<in> set ks \<Longrightarrow> IsDirty item"
  shows "wb_db (fold flush_item ks s) =
      \<lparr> db_data = \<lambda>k. if k \<in> set ks then (case dirtyData s k of None \<Rightarrow> db_data (wb_db s) k | Some item \<Rightarrow> Some (di_Value item))
        else db_data (wb_db s) k \<rparr> \<and>
    wb_cache (fold flush_item ks s) = wb_cache s \<and> wb_stopped (fold flush_item ks s) = wb_stopped s"
  using assms
proof (induction ks arbitrary: s)
  case (Cons a ks)
  have "IsDirty item" if "dirtyData (flush_item a s) k = Some item" "k \<in> set ks" for k item
    using that Cons.prems by (auto simp: flush_item_def split: option.splits if_splits)
  from Cons.IH [OF _ this] Cons.prems show ?case
    by (auto simp: flush_item_def db_Set_def fun_eq_iff split: option.splits)
qed simp

lemma autoFlush_Flush: "autoFlush = Flush"
  by (simp add: fun_eq_iff autoFlush_def Flush_def)

lemma Flush_spec:
  assumes "wb_inv s" "fair_order order"
  shows "wb_db (Flush order s) = \<lparr> db_data = wb_abs s \<rparr>" "wb_cache (Flush order s) = wb_cache s"
    "dirtyData (Flush order s) = Map.empty" "wb_stopped (Flush order s) = wb_stopped s"
proof -
  have ord: "is_order (dirtyData s) (order (dirtyData s))"
    using assms by (simp add: fair_orderD wb_inv_def)
  have dirty: "\<And>k item. dirtyData s k = Some item \<Longrightarrow> IsDirty item" using assms(1) by (simp add: wb_inv_def)
  have "wb_abs s = (\<lambda>k. if k \<in> set (order (dirtyData s)) then (case dirtyData s k of None \<Rightarrow> db_data (wb_db s) k | Some item \<Rightarrow> Some (di_Value item))
      else db_data (wb_db s) k)"
    using ord by (auto simp: wb_abs_def map_add_def is_order_def fun_eq_iff split: option.splits)
  then have f: "wb_db (fold flush_item (order (dirtyData s)) s) = \<lparr> db_data = wb_abs s \<rparr>"
    "wb_cache (fold flush_item (order (dirtyData s)) s) = wb_cache s"
    "wb_stopped (fold flush_item (order (dirtyData s)) s) = wb_stopped s"
    using fold_flush_item [OF is_orderD(1) [OF ord], of s] dirty by simp_all
  show "wb_db (Flush order s) = \<lparr> db_data = wb_abs s \<rparr>" "wb_cache (Flush order s) = wb_cache s"
    "dirtyData (Flush order s) = Map.empty" "wb_stopped (Flush order s) = wb_stopped s"
    using f by (auto simp: Flush_def wb_abs_def map_add_def)
qed

lemma write_back_contract:
  assumes "fair_order order"
  shows "transparent_cache wb_inv wb_abs (\<lambda>_. wb_Get) wb_Set (\<lambda>_. autoFlush order) (\<lambda>_. wb_Delete)"
proof
  fix s now k v
  assume s: "wb_inv s"
  have miss: "wb_abs s k = db_data (wb_db s) k" if "pc_data (wb_cache s) k = None"
    using that s by (auto simp: wb_inv_def wb_abs_def map_add_def split: option.splits)
  have hit: "wb_abs s k = Some v" if "pc_data (wb_cache s) k = Some v" for v
    using that s by (simp add: wb_inv_def submap_iff)
  show "fst (wb_Get k s) = lookup_answer k (wb_abs s)"
    using miss hit by (auto simp: wb_Get_def strategy_defs split: option.splits)
  have "wb_abs (snd (wb_Get k s)) = wb_abs s"
    by (auto simp: wb_Get_def wb_abs_def strategy_defs split: option.splits)
  moreover from this have "wb_inv (snd (wb_Get k s))"
    using s miss unfolding wb_inv_def by (auto simp: wb_Get_def strategy_defs split: option.splits)
  ultimately show "wb_inv (snd (wb_Get k s)) \<and> wb_abs (snd (wb_Get k s)) = wb_abs s" by simp
  have abs: "wb_abs (wb_Set now k v s) = (wb_abs s)(k \<mapsto> v)" "wb_abs (wb_Delete k s) = (wb_abs s)(k := None)"
    by (auto simp: wb_Set_def wb_Delete_def wb_abs_def strategy_defs map_add_def fun_eq_iff split: option.splits)
  show "wb_inv (wb_Set now k v s) \<and> wb_abs (wb_Set now k v s) = (wb_abs s)(k \<mapsto> v)"
    using s abs unfolding wb_inv_def by (auto simp: wb_Set_def strategy_defs)
  show "wb_inv (wb_Delete k s) \<and> wb_abs (wb_Delete k s) = (wb_abs s)(k := None)"
    using s abs unfolding wb_inv_def by (auto simp: wb_Delete_def strategy_defs)
  have f: "wb_abs (Flush order s) = wb_abs s"
    by (simp add: wb_abs_def [of "Flush order s"] Flush_spec [OF s assms] map_add_def)
  then have "wb_inv (Flush order s)"
    using s unfolding wb_inv_def by (simp add: Flush_spec [OF s assms])
  with f show "wb_inv (autoFlush order s) \<and> wb_abs (autoFlush order s) = wb_abs s"
    by (simp add: autoFlush_Flush)
qed

interpretation writing_back: transparent_cache wb_inv wb_abs "\<lambda>_. wb_Get" wb_Set "\<lambda>_. autoFlush ascending" "\<lambda>_. wb_Delete"
  by (rule write_back_contract [OF fair_ascending])

end
