(* ===== verification/Patterns_Conc.thy ===== *)
theory Patterns_Conc
  imports Patterns
begin

text \<open>
  The services of \<open>tutorial/02-patterns\<close> called from several goroutines. A goroutine is the point of the method it
  has reached; one step is one call of a method of \<open>Cache\<close> or \<open>Database\<close> (each holds its own lock) or one lock
  operation on \<open>wt.mu\<close>. The steps of one goroutine alone are the methods of \<open>Patterns\<close>.
\<close>

section \<open>Cache-aside, step by step\<close>

datatype ca_pc =
    A_Get1 string | A_Get2 string | A_Get3 string string
  | A_Set1 string string | A_Set2 string
  | A_Delete1 string | A_Delete2 string
  | A_Update1 string string | A_Update2 string string
  | A_Return "pattern_error + string" | A_Done

fun ca_next :: "ca_pc \<Rightarrow> aside \<Rightarrow> (ca_pc \<times> aside) option" where
  "ca_next (A_Get1 k) s =
     (case pc_Get k (as_cache s) of Some v \<Rightarrow> Some (A_Return (Inr v), s) | None \<Rightarrow> Some (A_Get2 k, s))"
| "ca_next (A_Get2 k) s =
     (case db_Get k (as_db s) of None \<Rightarrow> Some (A_Return (Inl (NoData k)), s) | Some v \<Rightarrow> Some (A_Get3 k v, s))"
| "ca_next (A_Get3 k v) s = Some (A_Return (Inr v), s\<lparr> as_cache := pc_Set k v (as_cache s) \<rparr>)"
| "ca_next (A_Set1 k v) s = Some (A_Set2 k, s\<lparr> as_db := db_Set k v (as_db s) \<rparr>)"
| "ca_next (A_Set2 k) s = Some (A_Done, s\<lparr> as_cache := pc_Delete k (as_cache s) \<rparr>)"
| "ca_next (A_Delete1 k) s = Some (A_Delete2 k, s\<lparr> as_db := db_Delete k (as_db s) \<rparr>)"
| "ca_next (A_Delete2 k) s = Some (A_Done, s\<lparr> as_cache := pc_Delete k (as_cache s) \<rparr>)"
| "ca_next (A_Update1 k v) s = Some (A_Update2 k v, s\<lparr> as_db := db_Set k v (as_db s) \<rparr>)"
| "ca_next (A_Update2 k v) s = Some (A_Done, s\<lparr> as_cache := pc_Set k v (as_cache s) \<rparr>)"
| "ca_next (A_Return r) s = None"
| "ca_next A_Done s = None"

inductive ca_par :: "aside \<times> (nat \<Rightarrow> ca_pc) \<Rightarrow> aside \<times> (nat \<Rightarrow> ca_pc) \<Rightarrow> bool" where
  ca_move: "ca_next (pcs i) s = Some (p, s') \<Longrightarrow> ca_par (s, pcs) (s', pcs(i := p))"

text \<open>One goroutine alone.\<close>

fun ca_alone :: "nat \<Rightarrow> ca_pc \<times> aside \<Rightarrow> ca_pc \<times> aside" where
  "ca_alone 0 c = c"
| "ca_alone (Suc n) (p, s) = (case ca_next p s of None \<Rightarrow> (p, s) | Some c \<Rightarrow> ca_alone n c)"

lemma ca_alone_sequential:
  "ca_alone 3 (A_Get1 k, s) = (A_Return (fst (ca_Get k s)), snd (ca_Get k s))"
  "ca_alone 3 (A_Set1 k v, s) = (A_Done, ca_Set k v s)"
  "ca_alone 3 (A_Delete1 k, s) = (A_Done, ca_Delete k s)"
  "ca_alone 3 (A_Update1 k v, s) = (A_Done, SetWithUpdate k v s)"
  by (auto simp: numeral_3_eq_3 ca_Get_def ca_Set_def ca_Delete_def SetWithUpdate_def Let_def split: option.splits)

section \<open>Write-through, step by step\<close>

datatype wt_pc =
    W_Get1 string | W_Get2 string | W_Get3 string string
  | W_Set0 string string | W_Set1 string string | W_Set2 string string
  | W_Roll0 string string | W_Roll1 string string | W_Roll2 string string "string option" | W_Roll3 string string "string option"
  | W_Delete0 string | W_Delete1 string | W_Delete2 string
  | W_Unlock "pattern_error option" | W_Return "pattern_error + string" | W_Done "pattern_error option"

definition acquire :: "nat \<Rightarrow> wt_pc \<Rightarrow> write_through \<Rightarrow> (wt_pc \<times> write_through) option" where
  "acquire i p s = (if wt_holder s = None then Some (p, s\<lparr> wt_holder := Some i \<rparr>) else None)"

fun wt_next :: "nat \<Rightarrow> wt_pc \<Rightarrow> write_through \<Rightarrow> (wt_pc \<times> write_through) option" where
  "wt_next i (W_Get1 k) s =
     (case pc_Get k (wt_cache s) of Some v \<Rightarrow> Some (W_Return (Inr v), s) | None \<Rightarrow> Some (W_Get2 k, s))"
| "wt_next i (W_Get2 k) s =
     (case db_Get k (wt_db s) of None \<Rightarrow> Some (W_Return (Inl (NoData k)), s) | Some v \<Rightarrow> Some (W_Get3 k v, s))"
| "wt_next i (W_Get3 k v) s = Some (W_Return (Inr v), s\<lparr> wt_cache := pc_Set k v (wt_cache s) \<rparr>)"
| "wt_next i (W_Set0 k v) s = acquire i (W_Set1 k v) s"
| "wt_next i (W_Set1 k v) s = Some (W_Set2 k v, s\<lparr> wt_cache := pc_Set k v (wt_cache s) \<rparr>)"
| "wt_next i (W_Set2 k v) s = Some (W_Unlock None, s\<lparr> wt_db := db_Set k v (wt_db s) \<rparr>)"
| "wt_next i (W_Roll0 k v) s = acquire i (W_Roll1 k v) s"
| "wt_next i (W_Roll1 k v) s = Some (W_Roll2 k v (pc_Get k (wt_cache s)), s)"
| "wt_next i (W_Roll2 k v original) s = Some (W_Roll3 k v original, s\<lparr> wt_cache := pc_Set k v (wt_cache s) \<rparr>)"
| "wt_next i (W_Roll3 k v original) s =
     (if k = ''fail_key'' then Some (W_Unlock (Some WriteFailed), s\<lparr> wt_cache := restore k original (wt_cache s) \<rparr>)
      else Some (W_Unlock None, s\<lparr> wt_db := db_Set k v (wt_db s) \<rparr>))"
| "wt_next i (W_Delete0 k) s = acquire i (W_Delete1 k) s"
| "wt_next i (W_Delete1 k) s = Some (W_Delete2 k, s\<lparr> wt_cache := pc_Delete k (wt_cache s) \<rparr>)"
| "wt_next i (W_Delete2 k) s = Some (W_Unlock None, s\<lparr> wt_db := db_Delete k (wt_db s) \<rparr>)"
| "wt_next i (W_Unlock r) s = Some (W_Done r, s\<lparr> wt_holder := None \<rparr>)"
| "wt_next i (W_Return r) s = None"
| "wt_next i (W_Done r) s = None"

inductive wt_par :: "write_through \<times> (nat \<Rightarrow> wt_pc) \<Rightarrow> write_through \<times> (nat \<Rightarrow> wt_pc) \<Rightarrow> bool" where
  wt_move: "wt_next i (pcs i) s = Some (p, s') \<Longrightarrow> wt_par (s, pcs) (s', pcs(i := p))"

inductive_cases wt_parE: "wt_par (s, pcs) c"

fun wt_alone :: "nat \<Rightarrow> wt_pc \<times> write_through \<Rightarrow> wt_pc \<times> write_through" where
  "wt_alone 0 c = c"
| "wt_alone (Suc n) (p, s) = (case wt_next 0 p s of None \<Rightarrow> (p, s) | Some c \<Rightarrow> wt_alone n c)"

lemma wt_alone_sequential:
  assumes "wt_holder s = None"
  shows "wt_alone 5 (W_Get1 k, s) = (W_Return (fst (wt_Get k s)), snd (wt_Get k s))"
    "wt_alone 5 (W_Set0 k v, s) = (W_Done None, wt_Set k v s)"
    "wt_alone 5 (W_Roll0 k v, s) = (W_Done (fst (SetWithRollback k v s)), snd (SetWithRollback k v s))"
    "wt_alone 5 (W_Delete0 k, s) = (W_Done None, wt_Delete k s)"
  using assms
  by (auto simp: numeral_eq_Suc acquire_def wt_Get_def wt_Set_def SetWithRollback_def wt_Delete_def Let_def split: option.splits)

section \<open>Writers keep cache and database together\<close>

fun critical :: "wt_pc \<Rightarrow> bool" where
  "critical (W_Set1 k v) = True"
| "critical (W_Set2 k v) = True"
| "critical (W_Roll1 k v) = True"
| "critical (W_Roll2 k v original) = True"
| "critical (W_Roll3 k v original) = True"
| "critical (W_Delete1 k) = True"
| "critical (W_Delete2 k) = True"
| "critical (W_Unlock r) = True"
| "critical _ = False"

fun reader :: "wt_pc \<Rightarrow> bool" where
  "reader (W_Get1 k) = True"
| "reader (W_Get2 k) = True"
| "reader (W_Get3 k v) = True"
| "reader _ = False"

fun finished :: "wt_pc \<Rightarrow> bool" where
  "finished (W_Return r) = True"
| "finished (W_Done r) = True"
| "finished _ = False"

text \<open>What the goroutine inside the lock has already done to the two maps.\<close>

fun midway :: "wt_pc \<Rightarrow> (string \<rightharpoonup> string) \<Rightarrow> (string \<rightharpoonup> string) \<Rightarrow> bool" where
  "midway (W_Set2 k v) c d \<longleftrightarrow> c k = Some v \<and> c \<subseteq>\<^sub>m d(k \<mapsto> v)"
| "midway (W_Roll2 k v original) c d \<longleftrightarrow> c k = original \<and> c \<subseteq>\<^sub>m d"
| "midway (W_Roll3 k v original) c d \<longleftrightarrow> c k = Some v \<and> c(k := original) \<subseteq>\<^sub>m d"
| "midway (W_Delete2 k) c d \<longleftrightarrow> c k = None \<and> c \<subseteq>\<^sub>m d"
| "midway _ c d \<longleftrightarrow> c \<subseteq>\<^sub>m d"

definition lock_ok :: "write_through \<times> (nat \<Rightarrow> wt_pc) \<Rightarrow> bool" where
  "lock_ok = (\<lambda>(s, pcs). \<forall>i. critical (pcs i) \<longleftrightarrow> wt_holder s = Some i)"

definition writers_ok :: "write_through \<times> (nat \<Rightarrow> wt_pc) \<Rightarrow> bool" where
  "writers_ok = (\<lambda>(s, pcs). (\<forall>i. \<not> reader (pcs i)) \<and>
     (case wt_holder s of None \<Rightarrow> wt_inv s
      | Some i \<Rightarrow> midway (pcs i) (pc_data (wt_cache s)) (db_data (wt_db s))))"

lemma acquire_Some: "acquire i q s = Some (p', s') \<longleftrightarrow> wt_holder s = None \<and> p' = q \<and> s' = s\<lparr> wt_holder := Some i \<rparr>"
  by (auto simp: acquire_def)

text \<open>How a step moves the lock: it is taken, kept or given back by the goroutine that moves.\<close>

lemma next_reader:
  assumes "wt_next i p s = Some (p', s')" "reader p"
  shows "wt_holder s' = wt_holder s" "\<not> critical p'"
  using assms by (cases p; auto split: option.splits)+

lemma next_writer:
  assumes "wt_next i p s = Some (p', s')" "\<not> reader p" "critical p \<longleftrightarrow> wt_holder s = Some i"
  shows "\<not> reader p'" "wt_holder s' = (if critical p' then Some i else None)" "wt_holder s \<in> {None, Some i}"
proof -
  have "\<not> reader p' \<and> wt_holder s' = (if critical p' then Some i else None) \<and> wt_holder s \<in> {None, Some i}"
    using assms by (cases p) (auto simp: acquire_Some split: if_split_asm)
  then show "\<not> reader p'" "wt_holder s' = (if critical p' then Some i else None)" "wt_holder s \<in> {None, Some i}" by simp_all
qed

lemma next_critical:
  assumes "wt_next i p s = Some (p', s')" "critical p \<longleftrightarrow> wt_holder s = Some i"
  shows "critical p' \<longleftrightarrow> wt_holder s' = Some i" "j \<noteq> i \<Longrightarrow> wt_holder s' = Some j \<longleftrightarrow> wt_holder s = Some j"
proof -
  have "(critical p' \<longleftrightarrow> wt_holder s' = Some i) \<and> (j \<noteq> i \<longrightarrow> (wt_holder s' = Some j \<longleftrightarrow> wt_holder s = Some j))"
  proof (cases "reader p")
    case True
    then have "\<not> critical p" by (cases p) simp_all
    then show ?thesis using next_reader [OF assms(1) True] assms(2) by simp
  next
    case False
    show ?thesis
      using next_writer(2,3) [OF assms(1) False assms(2)] by (cases "critical p'") auto
  qed
  then show "critical p' \<longleftrightarrow> wt_holder s' = Some i" "j \<noteq> i \<Longrightarrow> wt_holder s' = Some j \<longleftrightarrow> wt_holder s = Some j"
    by blast+
qed

lemma lock_step:
  assumes "wt_par (s, pcs) (s', pcs')" "lock_ok (s, pcs)"
  shows "lock_ok (s', pcs')"
  using assms(1)
proof (cases rule: wt_par.cases)
  case (wt_move i p)
  have crit: "critical (pcs j) \<longleftrightarrow> wt_holder s = Some j" for j using assms(2) by (simp add: lock_ok_def)
  have "critical (pcs' j) \<longleftrightarrow> wt_holder s' = Some j" for j
    using next_critical(1,2) [OF wt_move(2) crit] crit wt_move(1) by (cases "j = i") simp_all
  then show ?thesis by (simp add: lock_ok_def)
qed

text \<open>A step outside the lock takes the lock or changes nothing that is shared.\<close>

lemma next_outside:
  assumes "wt_next i p s = Some (p', s')" "\<not> critical p" "\<not> reader p"
  shows "wt_cache s' = wt_cache s \<and> wt_db s' = wt_db s \<and> wt_holder s = None \<and> wt_holder s' = Some i \<and>
    (midway p' (pc_data (wt_cache s)) (db_data (wt_db s)) \<longleftrightarrow> wt_inv s)"
  using assms by (cases p) (auto simp: acquire_def wt_inv_def split: if_splits)

lemma next_inside:
  assumes "wt_next i p s = Some (p', s')" "critical p" "wt_holder s = Some i"
    and "midway p (pc_data (wt_cache s)) (db_data (wt_db s))"
  shows "(wt_holder s' = Some i \<and> midway p' (pc_data (wt_cache s')) (db_data (wt_db s'))) \<or> (wt_holder s' = None \<and> wt_inv s')"
proof (cases p)
  case (W_Set1 k v)
  then show ?thesis using assms by (auto simp: pc_Set_def intro: map_le_upd)
next
  case (W_Roll2 k v original)
  then show ?thesis using assms by (auto simp: pc_Set_def)
next
  case (W_Roll3 k v original)
  let ?c = "pc_data (wt_cache s)"
  have m: "?c(k := original) \<subseteq>\<^sub>m db_data (wt_db s)" "?c k = Some v" using assms(4) W_Roll3 by simp_all
  then have "?c \<subseteq>\<^sub>m (db_data (wt_db s))(k \<mapsto> v)"
    by (metis fun_upd_triv fun_upd_upd map_le_upd)
  moreover have "pc_data (restore k original (wt_cache s)) = ?c(k := original)"
    by (cases original) (simp_all add: restore_def pc_Set_def pc_Delete_def)
  ultimately show ?thesis
    using assms(1,3) m(1) W_Roll3 by (cases "k = ''fail_key''") (auto simp: wt_inv_def db_Set_def)
next
  case (W_Delete1 k)
  then show ?thesis using assms by (auto simp: pc_Delete_def intro: map_le_trans [OF upd_None_map_le])
next
  case (W_Delete2 k)
  let ?c = "pc_data (wt_cache s)"
  have "?c k = None" "?c \<subseteq>\<^sub>m db_data (wt_db s)" using assms(4) W_Delete2 by simp_all
  then have "?c \<subseteq>\<^sub>m (db_data (wt_db s))(k := None)" by (metis fun_upd_triv map_le_upd)
  then show ?thesis using assms(1,3) W_Delete2 by (auto simp: wt_inv_def db_Delete_def)
qed (use assms in \<open>auto simp: wt_inv_def db_Set_def pc_Get_def\<close>)

lemma writers_step:
  assumes "wt_par (s, pcs) (s', pcs')" "lock_ok (s, pcs)" "writers_ok (s, pcs)"
  shows "writers_ok (s', pcs')"
  using assms(1)
proof (cases rule: wt_par.cases)
  case (wt_move i p)
  have crit: "critical (pcs j) \<longleftrightarrow> wt_holder s = Some j" for j using assms(2) by (simp add: lock_ok_def)
  have read: "\<not> reader (pcs j)" for j using assms(3) by (simp add: writers_ok_def)
  have read': "\<not> reader (pcs' j)" for j
    using next_writer(1) [OF wt_move(2) read crit] read wt_move(1) by simp
  have inv: "case wt_holder s of None \<Rightarrow> wt_inv s
      | Some i \<Rightarrow> midway (pcs i) (pc_data (wt_cache s)) (db_data (wt_db s))"
    using assms(3) by (simp add: writers_ok_def)
  show ?thesis
  proof (cases "critical (pcs i)")
    case True
    then have h: "wt_holder s = Some i" using crit by simp
    then have "midway (pcs i) (pc_data (wt_cache s)) (db_data (wt_db s))" using inv by simp
    from next_inside [OF wt_move(2) True h this] show ?thesis
      using read' wt_move(1) by (auto simp: writers_ok_def)
  next
    case False
    from next_outside [OF wt_move(2) False read] inv show ?thesis
      using read' wt_move(1) by (auto simp: writers_ok_def)
  qed
qed

lemma unfinished_moves:
  "\<not> finished p \<Longrightarrow> critical p \<or> reader p \<or> wt_holder s = None \<Longrightarrow> \<exists>p' s'. wt_next i p s = Some (p', s')"
  by (cases p) (auto simp: acquire_def split: option.splits)

lemma critical_unfinished: "critical p \<Longrightarrow> \<not> finished p"
  by (cases p) auto

lemma lock_progress:
  assumes "lock_ok (s, pcs)" "\<not> finished (pcs i)"
  shows "\<exists>c. wt_par (s, pcs) c"
proof (cases "wt_holder s")
  case None
  then show ?thesis using unfinished_moves [OF assms(2), of s i] wt_move [of i pcs s] by blast
next
  case (Some j)
  then have "critical (pcs j)" using assms(1) by (simp add: lock_ok_def)
  then show ?thesis
    using unfinished_moves [of "pcs j" s j] critical_unfinished [of "pcs j"] wt_move [of j pcs s] by blast
qed

lemma writers_run:
  assumes "wt_par\<^sup>*\<^sup>* (s, pcs) (s', pcs')" "lock_ok (s, pcs)" "writers_ok (s, pcs)"
  shows "lock_ok (s', pcs') \<and> writers_ok (s', pcs')"
  using assms
proof (induction rule: rtranclp_induct2)
  case (step t q u r)
  then show ?case using lock_step writers_step by blast
qed simp

text \<open>C29: with any number of goroutines that write through the cache (set, set with roll-back, delete) the cache agrees with
  the database whenever the lock is free, in every interleaving, and the system never deadlocks.\<close>

theorem write_through_coherent:
  assumes "wt_par\<^sup>*\<^sup>* (s0, pcs0) (s, pcs)" "wt_inv s0" "wt_holder s0 = None"
    and "\<forall>i. \<not> critical (pcs0 i) \<and> \<not> reader (pcs0 i)"
  shows "(wt_holder s = None \<longrightarrow> wt_inv s) \<and> ((\<exists>i. \<not> finished (pcs i)) \<longrightarrow> (\<exists>c. wt_par (s, pcs) c))"
proof -
  have "lock_ok (s0, pcs0)" "writers_ok (s0, pcs0)"
    using assms(2-4) by (simp_all add: lock_ok_def writers_ok_def)
  with writers_run [OF assms(1)] have "lock_ok (s, pcs)" "writers_ok (s, pcs)" by auto
  then show ?thesis using lock_progress by (auto simp: writers_ok_def split: option.splits)
qed


text \<open>A set, a roll-back of \<open>fail_key\<close> and a delete started together; the first has just taken the lock.\<close>

theorem write_through_coherent_witness:
  "\<exists>s pcs. wt_par\<^sup>*\<^sup>* (NewWriteThroughCache, (\<lambda>_. W_Done None)(0 := W_Set0 ''k'' ''v'', 1 := W_Roll0 ''fail_key'' ''v'', 2 := W_Delete0 ''k'')) (s, pcs) \<and>
    wt_holder s = Some 0 \<and> (\<exists>c. wt_par (s, pcs) c)"
proof -
  let ?pcs = "(\<lambda>_ :: nat. W_Done None)(0 := W_Set0 ''k'' ''v'', 1 := W_Roll0 ''fail_key'' ''v'', 2 := W_Delete0 ''k'')"
  let ?s = "NewWriteThroughCache\<lparr> wt_holder := Some 0 \<rparr>"
  have "wt_next 0 (?pcs 0) NewWriteThroughCache = Some (W_Set1 ''k'' ''v'', ?s)"
    by (simp add: acquire_def NewWriteThroughCache_def)
  then have r: "wt_par\<^sup>*\<^sup>* (NewWriteThroughCache, ?pcs) (?s, ?pcs(0 := W_Set1 ''k'' ''v''))"
    using wt_move by blast
  have "wt_inv NewWriteThroughCache" by (simp add: wt_inv_def NewWriteThroughCache_def NewCache_def)
  moreover have "wt_holder NewWriteThroughCache = None" by (simp add: NewWriteThroughCache_def)
  moreover have "\<forall>i. \<not> critical (?pcs i) \<and> \<not> reader (?pcs i)" by simp
  moreover have "\<not> finished ((?pcs(0 := W_Set1 ''k'' ''v'')) 0)" by simp
  ultimately have "\<exists>c. wt_par (?s, ?pcs(0 := W_Set1 ''k'' ''v'')) c"
    using write_through_coherent [OF r] by blast
  moreover have "wt_holder ?s = Some 0" by simp
  ultimately show ?thesis using r by blast
qed

section \<open>A reader can leave an old value behind\<close>

lemma ca_moves:
  "ca_next (pcs i) s = Some (p, s') \<Longrightarrow> ca_par\<^sup>*\<^sup>* (s', pcs(i := p)) c \<Longrightarrow> ca_par\<^sup>*\<^sup>* (s, pcs) c"
  by (metis ca_move converse_rtranclp_into_rtranclp)

lemma wt_moves:
  "wt_next i (pcs i) s = Some (p, s') \<Longrightarrow> wt_par\<^sup>*\<^sup>* (s', pcs(i := p)) c \<Longrightarrow> wt_par\<^sup>*\<^sup>* (s, pcs) c"
  by (metis wt_move converse_rtranclp_into_rtranclp)

lemma same_reach: "s = s' \<Longrightarrow> (\<And>i. pcs i = pcs' i) \<Longrightarrow> R\<^sup>*\<^sup>* (s, pcs) (s', pcs')"
  by (metis ext rtranclp.rtrancl_refl)

definition aside_of :: "(string \<rightharpoonup> string) \<Rightarrow> aside" where
  "aside_of m = \<lparr> as_cache = NewCache, as_db = \<lparr> db_data = m \<rparr> \<rparr>"

definition through_of :: "(string \<rightharpoonup> string) \<Rightarrow> write_through" where
  "through_of m = \<lparr> wt_cache = NewCache, wt_db = \<lparr> db_data = m \<rparr>, wt_holder = None \<rparr>"

text \<open>A read that misses and a concurrent write of the same key can end, with both calls returned, in a state in which
  the database holds the new value and every later read returns the old one: with cache-aside and also with
  write-through, whose reads do not take the lock.\<close>

theorem concurrent_read_goes_stale:
  "(\<exists>s pcs. ca_par\<^sup>*\<^sup>* (aside_of [k \<mapsto> v], (\<lambda>_. A_Done)(0 := A_Get1 k, 1 := A_Set1 k w)) (s, pcs) \<and>
     pcs = (\<lambda>_. A_Done)(0 := A_Return (Inr v)) \<and> db_Get k (as_db s) = Some w \<and> ca_Get k s = (Inr v, s)) \<and>
   (\<exists>s pcs. wt_par\<^sup>*\<^sup>* (through_of [k \<mapsto> v], (\<lambda>_. W_Done None)(0 := W_Get1 k, 1 := W_Set0 k w)) (s, pcs) \<and>
     pcs = (\<lambda>_. W_Done None)(0 := W_Return (Inr v)) \<and> db_Get k (wt_db s) = Some w \<and> wt_Get k s = (Inr v, s))"
proof
  let ?pcs = "(\<lambda>_. A_Done)(0 := A_Get1 k, 1 := A_Set1 k w)"
  let ?s1 = "(aside_of [k \<mapsto> v])\<lparr> as_db := db_Set k w (as_db (aside_of [k \<mapsto> v])) \<rparr>"
  let ?s2 = "?s1\<lparr> as_cache := pc_Delete k (as_cache ?s1) \<rparr>"
  let ?s3 = "?s2\<lparr> as_cache := pc_Set k v (as_cache ?s2) \<rparr>"
  let ?final = "(\<lambda>_. A_Done)(0 := A_Return (Inr v))"
  have "ca_par\<^sup>*\<^sup>* (aside_of [k \<mapsto> v], ?pcs) (?s3, ?final)"
    apply (rule ca_moves [where i = 0 and p = "A_Get2 k" and s' = "aside_of [k \<mapsto> v]"])
     apply (simp add: aside_of_def NewCache_def pc_Get_def)
    apply (rule ca_moves [where i = 0 and p = "A_Get3 k v" and s' = "aside_of [k \<mapsto> v]"])
     apply (simp add: aside_of_def db_Get_def)
    apply (rule ca_moves [where i = 1 and p = "A_Set2 k" and s' = ?s1], simp)
    apply (rule ca_moves [where i = 1 and p = A_Done and s' = ?s2], simp)
    apply (rule ca_moves [where i = 0 and p = "A_Return (Inr v)" and s' = ?s3], simp)
    apply (rule same_reach [OF refl], simp)
    done
  moreover have "db_Get k (as_db ?s3) = Some w" "ca_Get k ?s3 = (Inr v, ?s3)"
    by (simp_all add: ca_Get_def store_defs)
  ultimately show "\<exists>s pcs. ca_par\<^sup>*\<^sup>* (aside_of [k \<mapsto> v], ?pcs) (s, pcs) \<and>
     pcs = ?final \<and> db_Get k (as_db s) = Some w \<and> ca_Get k s = (Inr v, s)" by blast
next
  let ?pcs = "(\<lambda>_. W_Done None)(0 := W_Get1 k, 1 := W_Set0 k w)"
  let ?s0 = "through_of [k \<mapsto> v]"
  let ?s1 = "?s0\<lparr> wt_holder := Some 1 \<rparr>"
  let ?s2 = "?s1\<lparr> wt_cache := pc_Set k w (wt_cache ?s1) \<rparr>"
  let ?s3 = "?s2\<lparr> wt_db := db_Set k w (wt_db ?s2) \<rparr>"
  let ?s4 = "?s3\<lparr> wt_holder := None \<rparr>"
  let ?s5 = "?s4\<lparr> wt_cache := pc_Set k v (wt_cache ?s4) \<rparr>"
  let ?final = "(\<lambda>_. W_Done None)(0 := W_Return (Inr v))"
  have "wt_par\<^sup>*\<^sup>* (?s0, ?pcs) (?s5, ?final)"
    apply (rule wt_moves [where i = 0 and p = "W_Get2 k" and s' = ?s0])
     apply (simp add: through_of_def NewCache_def pc_Get_def)
    apply (rule wt_moves [where i = 0 and p = "W_Get3 k v" and s' = ?s0])
     apply (simp add: through_of_def db_Get_def)
    apply (rule wt_moves [where i = 1 and p = "W_Set1 k w" and s' = ?s1])
     apply (simp add: acquire_def through_of_def)
    apply (rule wt_moves [where i = 1 and p = "W_Set2 k w" and s' = ?s2], simp)
    apply (rule wt_moves [where i = 1 and p = "W_Unlock None" and s' = ?s3], simp)
    apply (rule wt_moves [where i = 1 and p = "W_Done None" and s' = ?s4], simp)
    apply (rule wt_moves [where i = 0 and p = "W_Return (Inr v)" and s' = ?s5], simp)
    apply (rule same_reach [OF refl], simp)
    done
  moreover have "db_Get k (wt_db ?s5) = Some w" "wt_Get k ?s5 = (Inr v, ?s5)"
    by (simp_all add: wt_Get_def store_defs)
  ultimately show "\<exists>s pcs. wt_par\<^sup>*\<^sup>* (?s0, ?pcs) (s, pcs) \<and>
     pcs = ?final \<and> db_Get k (wt_db s) = Some w \<and> wt_Get k s = (Inr v, s)" by blast
qed

end
