(* ===== verification/Patterns_Props.thy ===== *)
theory Patterns_Props
  imports Patterns_Conc
begin

text \<open>
  What the caching strategies of \<open>tutorial/02-patterns\<close> promise to a single client: all three answer like the plain map
  behind them, and write-back makes its writes durable with a flush.
\<close>

definition back_of :: "(string \<rightharpoonup> string) \<Rightarrow> write_back" where
  "back_of m = \<lparr> wb_cache = NewCache, wb_db = \<lparr> db_data = m \<rparr>, dirtyData = Map.empty, wb_stopped = False \<rparr>"

lemma back_of_inv: "wb_inv (back_of m)" "wb_abs (back_of m) = m"
  by (simp_all add: back_of_def wb_inv_def wb_abs_def NewCache_def map_add_def)

text \<open>C27: for every history of reads, writes and deletes, cache-aside, write-through and write-back (with background flushes
  anywhere in between, in any visiting order) give exactly the answers of a plain map.\<close>

theorem strategies_transparent:
  assumes "fair_order order"
  shows "fst (answers (\<lambda>_. ca_Get) (\<lambda>_. ca_Set) (\<lambda>_. ca_Delete) (\<lambda>_ s. s) cs (aside_of m)) = fst (map_answers cs m) \<and>
    fst (answers (\<lambda>_. wt_Get) (\<lambda>_. wt_Set) (\<lambda>_. wt_Delete) (\<lambda>_ s. s) cs (through_of m)) = fst (map_answers cs m) \<and>
    fst (answers (\<lambda>_. wb_Get) wb_Set (\<lambda>_. wb_Delete) (\<lambda>_. autoFlush order) cs (back_of m)) = fst (map_answers cs m)"
proof (intro conjI)
  show "fst (answers (\<lambda>_. ca_Get) (\<lambda>_. ca_Set) (\<lambda>_. ca_Delete) (\<lambda>_ s. s) cs (aside_of m)) = fst (map_answers cs m)"
    using cache_aside.run_equiv [of "aside_of m" cs] by (simp add: ca_inv_def aside_of_def NewCache_def)
  show "fst (answers (\<lambda>_. wt_Get) (\<lambda>_. wt_Set) (\<lambda>_. wt_Delete) (\<lambda>_ s. s) cs (through_of m)) = fst (map_answers cs m)"
    using through.run_equiv [of "through_of m" cs] by (simp add: wt_inv_def through_of_def NewCache_def)
  show "fst (answers (\<lambda>_. wb_Get) wb_Set (\<lambda>_. wb_Delete) (\<lambda>_. autoFlush order) cs (back_of m)) = fst (map_answers cs m)"
    using transparent_cache.run_equiv [OF write_back_contract [OF assms] back_of_inv(1), of cs m] by (simp add: back_of_inv)
qed

theorem strategies_transparent_witness:
  "fst (answers (\<lambda>_. wb_Get) wb_Set (\<lambda>_. wb_Delete) (\<lambda>_. autoFlush ascending) [KSet 1 ''k'' ''v'', KGet 2 ''k'', KTick 3, KDelete 4 ''k'', KGet 5 ''k''] (back_of Map.empty)) =
    [Inr ''v'', Inl (NoData ''k'')]"
  using strategies_transparent [OF fair_ascending, of "[KSet 1 ''k'' ''v'', KGet 2 ''k'', KTick 3, KDelete 4 ''k'', KGet 5 ''k'']" Map.empty]
  by (simp add: lookup_answer_def)

lemma answers_stopped: "wb_stopped (snd (answers (\<lambda>_. wb_Get) wb_Set (\<lambda>_. wb_Delete) (\<lambda>_. autoFlush order) cs s)) = wb_stopped s"
proof (induction cs arbitrary: s)
  case (Cons c cs)
  have fold: "wb_stopped (fold flush_item ks t) = wb_stopped t" for ks t
    by (induction ks arbitrary: t) (auto simp: flush_item_def split: option.splits)
  have "wb_stopped (snd (wb_Get k s)) = wb_stopped s" "wb_stopped (wb_Set now k v s) = wb_stopped s"
    "wb_stopped (wb_Delete k s) = wb_stopped s" "wb_stopped (autoFlush order s) = wb_stopped s" for now k v
    by (auto simp: wb_Get_def wb_Set_def wb_Delete_def autoFlush_def fold split: option.splits)
  then show ?case by (cases c) (simp_all add: Cons case_prod_beta)
qed simp

lemma dirty_count:
  assumes "wb_inv t" "fair_order order"
  shows "GetDirtyCount (order (dirtyData t)) t = int (card (dom (dirtyData t)))"
proof -
  have "is_order (dirtyData t) (order (dirtyData t))" using assms by (simp add: fair_orderD wb_inv_def)
  moreover have "{k. \<exists>v. dirtyData t k = Some v \<and> IsDirty v} = dom (dirtyData t)" using assms(1) by (auto simp: wb_inv_def)
  ultimately show ?thesis by (simp add: GetDirtyCount_def map_filter_dom(2))
qed

text \<open>C28: after any history of a write-back cache the database differs from the logical map only at the keys of the dirty
  items, which \<open>GetDirtyCount\<close> counts; closing the cache makes the two equal.\<close>

theorem write_back_durable:
  assumes "fair_order order" "t = snd (answers (\<lambda>_. wb_Get) wb_Set (\<lambda>_. wb_Delete) (\<lambda>_. autoFlush order) cs (back_of m))"
    and "logical = snd (map_answers cs m)"
  shows "(\<forall>k. dirtyData t k = None \<longrightarrow> db_data (wb_db t) k = logical k) \<and>
    GetDirtyCount (order (dirtyData t)) t = int (card (dom (dirtyData t))) \<and>
    (\<exists>u. wb_Close order t = Some u \<and> db_data (wb_db u) = logical \<and> dirtyData u = Map.empty)"
proof (intro conjI)
  have t: "wb_inv t" "wb_abs t = logical"
    using transparent_cache.run_equiv [OF write_back_contract [OF assms(1)] back_of_inv(1), of cs m]
    by (simp_all add: assms(2,3) back_of_inv)
  show "\<forall>k. dirtyData t k = None \<longrightarrow> db_data (wb_db t) k = logical k"
    by (auto simp: wb_abs_def map_add_def simp flip: t(2))
  show "GetDirtyCount (order (dirtyData t)) t = int (card (dom (dirtyData t)))" by (rule dirty_count [OF t(1) assms(1)])
  have "wb_stopped t = False" by (simp add: assms(2) answers_stopped back_of_def)
  then show "\<exists>u. wb_Close order t = Some u \<and> db_data (wb_db u) = logical \<and> dirtyData u = Map.empty"
    by (simp add: wb_Close_def Let_def Flush_spec [OF t(1) assms(1)] t(2))
qed

theorem write_back_durable_witness:
  "\<exists>u. wb_Close ascending (snd (answers (\<lambda>_. wb_Get) wb_Set (\<lambda>_. wb_Delete) (\<lambda>_. autoFlush ascending) [KSet 1 ''k'' ''v''] (back_of Map.empty))) = Some u \<and>
    db_data (wb_db u) = [''k'' \<mapsto> ''v'']"
  using write_back_durable [OF fair_ascending refl refl, of "[KSet 1 ''k'' ''v'']" Map.empty] by auto

end
