(* ===== verification/Strategy_Demos.thy ===== *)
theory Strategy_Demos
  imports Patterns_Props
begin

text \<open>
  The sequential demonstrations of \<open>tutorial/02-patterns\<close> (\<open>cache_aside.go\<close>, \<open>write_through.go\<close>, \<open>write_back.go\<close>,
  \<open>comparison_demo.go\<close>): each returns what it prints of caches and databases. The Chinese texts it stores are arguments. The background
  flush of a write-back cache is a separate goroutine: \<open>ticks\<close> says before which calls its timer fires. Elapsed times are
  arguments, printing and sleeping are not modelled.
\<close>

section \<open>Cache-aside and write-through\<close>

text \<open>The two first reads, the read after the update, the read after the deletion.\<close>

definition DemoCacheAside :: "string \<Rightarrow> string \<Rightarrow> string \<Rightarrow> (pattern_error + string) list" where
  "DemoCacheAside zhang li updated =
     (let service = NewCacheAsideService;
          s0 = service\<lparr> as_db := db_Set ''user:2'' li (db_Set ''user:1'' zhang (as_db service)) \<rparr>;
          (value1, s1) = ca_Get ''user:1'' s0;
          (value2, s2) = ca_Get ''user:1'' s1;
          s3 = ca_Set ''user:1'' updated s2;
          (value3, s4) = ca_Get ''user:1'' s3;
          s5 = ca_Delete ''user:2'' s4;
          (err, s6) = ca_Get ''user:2'' s5
      in [value1, value2, value3, err])"

text \<open>The read after the write, and after the update the values in the cache and in the database and the verdict.\<close>

definition DemoWriteThrough :: "string \<Rightarrow> string \<Rightarrow> (pattern_error + string) \<times> string option \<times> string option \<times> bool" where
  "DemoWriteThrough zhang updated =
     (let s1 = wt_Set ''user:1'' zhang NewWriteThroughCache;
          (value1, s2) = wt_Get ''user:1'' s1;
          s3 = wt_Set ''user:1'' updated s2;
          cacheValue = pc_Get ''user:1'' (wt_cache s3);
          dbValue = db_Get ''user:1'' (wt_db s3)
      in (value1, cacheValue, dbValue, cacheValue = dbValue))"

text \<open>The error of the write that fails, and whether cache and database are without it.\<close>

definition DemoWriteThroughFailure :: "string \<Rightarrow> string \<Rightarrow> pattern_error option \<times> bool \<times> bool" where
  "DemoWriteThroughFailure original failing =
     (let s1 = wt_Set ''test_key'' original NewWriteThroughCache;
          (err, s2) = SetWithRollback ''fail_key'' failing s1
      in (err, pc_Get ''fail_key'' (wt_cache s2) = None, db_Get ''fail_key'' (wt_db s2) = None))"

definition numbered :: "string \<Rightarrow> string \<Rightarrow> nat \<Rightarrow> string \<times> string" where
  "numbered key text i = (key @ Itoa i, text @ Itoa i)"

definition CompareWritePerformance :: "string \<Rightarrow> aside \<times> write_through" where
  "CompareWritePerformance user =
     (fold (\<lambda>i. case numbered ''ca_user:'' user i of (k, v) \<Rightarrow> ca_Set k v) [0..<5] NewCacheAsideService,
      fold (\<lambda>i. case numbered ''wt_user:'' user i of (k, v) \<Rightarrow> wt_Set k v) [0..<5] NewWriteThroughCache)"

section \<open>Write-back\<close>

type_synonym dirty_order = "(string \<rightharpoonup> dirty_item) \<Rightarrow> string list"

definition tick_if :: "bool \<Rightarrow> dirty_order \<Rightarrow> write_back \<Rightarrow> write_back" where
  "tick_if b order s = (if b then autoFlush order s else s)"

text \<open>Dirty items after three writes; the read; the value in the cache and in the database before and after a flush.\<close>

definition DemoWriteBack ::
  "(nat \<Rightarrow> bool) \<Rightarrow> dirty_order \<Rightarrow> (nat \<Rightarrow> go_time) \<Rightarrow> string \<Rightarrow> string \<Rightarrow> string \<Rightarrow>
   int \<times> (pattern_error + string) \<times> string option \<times> string option \<times> string option" where
  "DemoWriteBack ticks order clk zhang li wang =
     (let s0 = NewWriteBackCache;
          s1 = wb_Set (clk 0) ''user:1'' zhang (tick_if (ticks 0) order s0);
          s2 = wb_Set (clk 1) ''user:2'' li (tick_if (ticks 1) order s1);
          s3 = wb_Set (clk 2) ''user:3'' wang (tick_if (ticks 2) order s2);
          s4 = tick_if (ticks 3) order s3;
          dirty = GetDirtyCount (order (dirtyData s4)) s4;
          (value1, s5) = wb_Get ''user:1'' (tick_if (ticks 4) order s4);
          s6 = tick_if (ticks 5) order s5;
          cacheValue = pc_Get ''user:1'' (wb_cache s6);
          s7 = tick_if (ticks 6) order s6;
          dbValue = db_Get ''user:1'' (wb_db s7);
          s8 = Flush order (tick_if (ticks 7) order s7)
      in (dirty, value1, cacheValue, dbValue, db_Get ''user:1'' (wb_db s8)))"

fun wb_sets :: "(nat \<Rightarrow> bool) \<Rightarrow> dirty_order \<Rightarrow> (nat \<Rightarrow> go_time) \<Rightarrow> nat \<Rightarrow> (string \<times> string) list \<Rightarrow> write_back \<Rightarrow> write_back" where
  "wb_sets ticks order clk i [] s = s"
| "wb_sets ticks order clk i ((k, v) # kvs) s = wb_sets ticks order clk (Suc i) kvs (wb_Set (clk i) k v (tick_if (ticks i) order s))"

text \<open>Dirty items after ten writes, and after a wait that is longer than the interval of the timer.\<close>

definition DemoWriteBackPerformance :: "(nat \<Rightarrow> bool) \<Rightarrow> dirty_order \<Rightarrow> (nat \<Rightarrow> go_time) \<Rightarrow> string \<Rightarrow> int \<times> int" where
  "DemoWriteBackPerformance ticks order clk user =
     (let s = tick_if (ticks 10) order (wb_sets ticks order clk 0 (map (numbered ''batch_user:'' user) [0..<10]) NewWriteBackCache);
          s1 = autoFlush order s
      in (GetDirtyCount (order (dirtyData s)) s, GetDirtyCount (order (dirtyData s1)) s1))"

text \<open>The cache is dropped without being closed; its successor has a database of its own.\<close>

definition DemoDataLossRisk :: "(nat \<Rightarrow> bool) \<Rightarrow> dirty_order \<Rightarrow> (nat \<Rightarrow> go_time) \<Rightarrow> string \<Rightarrow> int \<times> bool" where
  "DemoDataLossRisk ticks order clk important =
     (let s = tick_if (ticks 2) order (wb_sets ticks order clk 0 [(''important:1'', important @ ''1''), (''important:2'', important @ ''2'')] NewWriteBackCache);
          newCache = NewWriteBackCache;
          (r1, n1) = wb_Get ''important:1'' newCache;
          (r2, n2) = wb_Get ''important:2'' n1
      in (GetDirtyCount (order (dirtyData s)) s, isl r1 \<and> isl r2))"

section \<open>The comparison\<close>

text \<open>The two texts that describe consistency and safety of a strategy in words are left out.\<close>

record performance_result =
  pr_Pattern :: string
  pr_WriteTime :: duration
  pr_ReadTime :: duration

fun reads_of :: "(string \<Rightarrow> 's \<Rightarrow> (pattern_error + string) \<times> 's) \<Rightarrow> string list \<Rightarrow> 's \<Rightarrow> (pattern_error + string) list \<times> 's" where
  "reads_of get [] s = ([], s)"
| "reads_of get (k # ks) s = (case get k s of (r, s1) \<Rightarrow> case reads_of get ks s1 of (rs, s2) \<Rightarrow> (r # rs, s2))"

text \<open>The ranking of the write times: only a fastest write-back is ranked.\<close>

definition write_ranking :: "duration \<Rightarrow> duration \<Rightarrow> duration \<Rightarrow> string list" where
  "write_ranking caWriteTime wtWriteTime wbWriteTime =
     (if wbWriteTime < caWriteTime \<and> wbWriteTime < wtWriteTime
      then ''Write-Back'' # (if caWriteTime < wtWriteTime then [''Cache-Aside'', ''Write-Through''] else [''Write-Through'', ''Cache-Aside''])
      else [])"

definition runPerformanceComparison ::
  "(nat \<Rightarrow> duration) \<Rightarrow> (nat \<Rightarrow> bool) \<Rightarrow> dirty_order \<Rightarrow> (nat \<Rightarrow> go_time) \<Rightarrow> string \<Rightarrow>
   performance_result list \<times> (pattern_error + string) list list \<times> string list" where
  "runPerformanceComparison elapsed ticks order clk text =
     (let ca = fold (\<lambda>i. case numbered ''ca_test:'' text i of (k, v) \<Rightarrow> ca_Set k v) [0..<5] NewCacheAsideService;
          (ca_reads, ca1) = reads_of ca_Get (map (\<lambda>i. ''ca_test:'' @ Itoa i) [0..<5]) ca;
          wt = fold (\<lambda>i. case numbered ''wt_test:'' text i of (k, v) \<Rightarrow> wt_Set k v) [0..<5] NewWriteThroughCache;
          (wt_reads, wt1) = reads_of wt_Get (map (\<lambda>i. ''wt_test:'' @ Itoa i) [0..<5]) wt;
          wb = tick_if (ticks 5) order (wb_sets ticks order clk 0 (map (numbered ''wb_test:'' text) [0..<5]) NewWriteBackCache);
          (wb_reads, wb1) = reads_of wb_Get (map (\<lambda>i. ''wb_test:'' @ Itoa i) [0..<5]) wb
      in ([\<lparr> pr_Pattern = ''Cache-Aside'', pr_WriteTime = elapsed 0, pr_ReadTime = elapsed 1 \<rparr>,
           \<lparr> pr_Pattern = ''Write-Through'', pr_WriteTime = elapsed 2, pr_ReadTime = elapsed 3 \<rparr>,
           \<lparr> pr_Pattern = ''Write-Back'', pr_WriteTime = elapsed 4, pr_ReadTime = elapsed 5 \<rparr>],
          [ca_reads, wt_reads, wb_reads], write_ranking (elapsed 0) (elapsed 2) (elapsed 4)))"

text \<open>
  Whether write-through agrees; of write-back the cached value, the dirty items if the database has no value yet, and the value
  in the database after a wait longer than the interval of the timer.
\<close>

definition demonstrateConsistency ::
  "bool \<Rightarrow> dirty_order \<Rightarrow> go_time \<Rightarrow> string \<Rightarrow> string \<Rightarrow> string \<Rightarrow> bool \<times> string option \<times> int option \<times> string option" where
  "demonstrateConsistency ticked order now zhang li wang =
     (let ca = ca_Set ''user:1'' zhang NewCacheAsideService;
          wt = wt_Set ''user:2'' li NewWriteThroughCache;
          agree = (pc_Get ''user:2'' (wt_cache wt) = db_Get ''user:2'' (wt_db wt));
          wb = wb_Set now ''user:3'' wang NewWriteBackCache;
          cacheVal = pc_Get ''user:3'' (wb_cache wb);
          wb1 = tick_if ticked order wb;
          dirty = (case db_Get ''user:3'' (wb_db wb1) of Some _ \<Rightarrow> None | None \<Rightarrow> Some (GetDirtyCount (order (dirtyData wb1)) wb1));
          wb2 = autoFlush order wb1
      in (agree, cacheVal, dirty, db_Get ''user:3'' (wb_db wb2)))"


section \<open>What they show\<close>

theorem cache_aside_demo:
  "DemoCacheAside zhang li updated = [Inr zhang, Inr zhang, Inr updated, Inl (NoData ''user:2'')]"
  by (simp add: DemoCacheAside_def NewCacheAsideService_def ca_Get_def ca_Set_def ca_Delete_def store_defs Let_def NewCache_def NewDatabase_def)

theorem write_through_demo: "DemoWriteThrough zhang updated = (Inr zhang, Some updated, Some updated, True)"
  by (simp add: DemoWriteThrough_def NewWriteThroughCache_def wt_Get_def wt_Set_def store_defs Let_def)

theorem write_through_failure_demo: "DemoWriteThroughFailure original failing = (Some WriteFailed, True, True)"
  by (simp add: DemoWriteThroughFailure_def NewWriteThroughCache_def wt_Set_def SetWithRollback_def restore_def store_defs Let_def
      NewCache_def NewDatabase_def)

text \<open>Reads and writes behind the contract of a strategy.\<close>

context caching_store
begin

lemma reads_of_answers: "inv s \<Longrightarrow> fst (reads_of (get t) ks s) = map (\<lambda>k. lookup_answer k (abs s)) ks"
proof (induction ks arbitrary: s)
  case (Cons k ks)
  obtain r s1 where g: "get t k s = (r, s1)" by fastforce
  with get_answer [OF Cons.prems, of t k] get_keeps [OF Cons.prems, of t k]
  have "r = lookup_answer k (abs s)" "inv s1" "abs s1 = abs s" by auto
  with Cons.IH [of s1] g show ?case by (cases "reads_of (get t) ks s1") simp
qed simp

lemma puts_write:
  "inv s \<Longrightarrow> inv (fold (\<lambda>(k, v). put t k v) kvs s) \<and> abs (fold (\<lambda>(k, v). put t k v) kvs s) = abs s ++ map_of (rev kvs)"
proof (induction kvs arbitrary: s)
  case (Cons kv kvs)
  then show ?case using put_writes [OF Cons.prems, of t "fst kv" "snd kv"] Cons.IH [of "put t (fst kv) (snd kv) s"]
    by (auto simp: case_prod_unfold map_add_def fun_eq_iff split: option.splits)
qed simp

lemma write_then_read:
  assumes "inv s" "distinct (map fst kvs)"
  shows "fst (reads_of (get t) (map fst kvs) (fold (\<lambda>(k, v). put t k v) kvs s)) = map (Inr \<circ> snd) kvs"
proof -
  have "map_of (rev kvs) k = Some v" if "(k, v) \<in> set kvs" for k v
    using assms(2) that by (intro map_of_is_SomeI) (simp_all add: rev_map [symmetric])
  then show ?thesis
    using reads_of_answers puts_write [OF assms(1), of t kvs] by (auto simp: lookup_answer_def)
qed

end

lemma fold_numbered: "fold (\<lambda>i. case numbered key text i of (k, v) \<Rightarrow> f k v) is s = fold (\<lambda>(k, v). f k v) (map (numbered key text) is) s"
  by (simp add: fold_map comp_def)

lemma numbered_keys: "map (\<lambda>i. key @ Itoa i) is = map fst (map (numbered key text) is)"
  "distinct is \<Longrightarrow> distinct (map fst (map (numbered key text) is))" "map (Inr \<circ> snd) (map (numbered key text) is) = map (\<lambda>i. Inr (text @ Itoa i)) is"
  by (auto simp: numbered_def distinct_map inj_on_def)

lemma new_inv: "ca_inv NewCacheAsideService" "wt_inv NewWriteThroughCache" "wb_inv NewWriteBackCache" "wb_abs NewWriteBackCache = Map.empty"
  by (simp_all add: ca_inv_def wt_inv_def wb_inv_def wb_abs_def NewCacheAsideService_def NewWriteThroughCache_def NewWriteBackCache_def
      NewCache_def NewDatabase_def map_add_def)

text \<open>The write-back cache under its timer.\<close>

lemma tick_if_spec:
  assumes "wb_inv s" "fair_order order"
  shows "wb_inv (tick_if b order s)" "wb_abs (tick_if b order s) = wb_abs s" "wb_cache (tick_if b order s) = wb_cache s"
    "dirtyData (tick_if b order s) = (if b then Map.empty else dirtyData s)"
    "db_data (wb_db (tick_if b order s)) = (if b then wb_abs s else db_data (wb_db s))"
proof -
  note tick = caching_store.tick_keeps [OF transparent_cache.axioms(1) [OF write_back_contract [OF assms(2)]] assms(1)]
  show "wb_inv (tick_if b order s)" "wb_abs (tick_if b order s) = wb_abs s" using tick assms(1) by (simp_all add: tick_if_def)
  show "wb_cache (tick_if b order s) = wb_cache s"
    "dirtyData (tick_if b order s) = (if b then Map.empty else dirtyData s)"
    "db_data (wb_db (tick_if b order s)) = (if b then wb_abs s else db_data (wb_db s))"
    using Flush_spec [OF assms] by (simp_all add: tick_if_def autoFlush_Flush)
qed


text \<open>Whether the value of a key has reached the database; a step of the timer brings it there.\<close>

definition durable :: "string \<Rightarrow> string \<Rightarrow> bool \<Rightarrow> write_back \<Rightarrow> bool" where
  "durable k v b s \<longleftrightarrow> wb_inv s \<and> wb_abs s k = Some v \<and> pc_Get k (wb_cache s) = Some v \<and> db_Get k (wb_db s) = (if b then Some v else None)"

lemma durable_steps:
  assumes "durable k v b s" "fair_order order"
  shows "durable k v (b \<or> c) (tick_if c order s)" "k' \<noteq> k \<Longrightarrow> durable k v b (wb_Set now k' v' s)"
    "wb_Get k s = (Inr v, s)" "durable k v True (Flush order s)"
proof -
  note s = assms(1) [unfolded durable_def]
  note contract = write_back_contract [OF assms(2)]
  note put = caching_store.put_writes [OF transparent_cache.axioms(1) [OF contract], of s]
  have tick: "durable k v (b \<or> c) (tick_if c order s)" for c
    using s tick_if_spec [OF _ assms(2), of s c] by (auto simp: durable_def db_Get_def)
  then show "durable k v (b \<or> c) (tick_if c order s)" .
  show "durable k v True (Flush order s)" using tick [of True] by (simp add: tick_if_def autoFlush_Flush)
  show "wb_Get k s = (Inr v, s)" using s by (simp add: wb_Get_def)
  assume "k' \<noteq> k"
  then show "durable k v b (wb_Set now k' v' s)"
    using s put [of now k' v'] by (auto simp: durable_def) (auto simp: wb_Set_def store_defs)
qed

lemma durable_first:
  assumes "fair_order order"
  shows "durable k v False (wb_Set now k v (tick_if b order NewWriteBackCache))"
proof -
  note t = tick_if_spec [OF new_inv(3) assms, of b]
  note put = caching_store.put_writes [OF transparent_cache.axioms(1) [OF write_back_contract [OF assms]] t(1), of now k v]
  have "db_data (wb_db (tick_if b order NewWriteBackCache)) = Map.empty"
    using t(5) new_inv(4) by (simp add: NewWriteBackCache_def NewDatabase_def)
  then show ?thesis using put by (simp add: durable_def) (simp add: wb_Set_def store_defs)
qed


text \<open>Whenever the timer fires, the read and the cache show the written value, and after the flush the database has it.\<close>

theorem write_back_demo:
  assumes "fair_order order"
  shows "\<exists>dirty dbValue. DemoWriteBack ticks order clk zhang li wang = (dirty, Inr zhang, Some zhang, dbValue, Some zhang) \<and>
    dbValue = (if \<exists>i \<in> set [1..<7]. ticks i then Some zhang else None)"
proof -
  note step = durable_steps [OF _ assms]
  define s1 where "s1 = wb_Set (clk 0) ''user:1'' zhang (tick_if (ticks 0) order NewWriteBackCache)"
  define s4 where "s4 = tick_if (ticks 3) order (wb_Set (clk 2) ''user:3'' wang (tick_if (ticks 2) order
    (wb_Set (clk 1) ''user:2'' li (tick_if (ticks 1) order s1))))"
  define s5 where "s5 = tick_if (ticks 4) order s4"
  define s6 where "s6 = tick_if (ticks 5) order s5"
  define s7 where "s7 = tick_if (ticks 6) order s6"
  have "durable ''user:1'' zhang False s1" unfolding s1_def by (rule durable_first [OF assms])
  then have "durable ''user:1'' zhang (((False \<or> ticks 1) \<or> ticks 2) \<or> ticks 3) s4"
    unfolding s4_def by (intro step(1,2)) simp_all
  then have s5: "durable ''user:1'' zhang ((((False \<or> ticks 1) \<or> ticks 2) \<or> ticks 3) \<or> ticks 4) s5"
    unfolding s5_def by (rule step(1))
  then have s6: "durable ''user:1'' zhang (((((False \<or> ticks 1) \<or> ticks 2) \<or> ticks 3) \<or> ticks 4) \<or> ticks 5) s6"
    unfolding s6_def by (rule step(1))
  then have s7: "durable ''user:1'' zhang ((((((False \<or> ticks 1) \<or> ticks 2) \<or> ticks 3) \<or> ticks 4) \<or> ticks 5) \<or> ticks 6) s7"
    unfolding s7_def by (rule step(1))
  have s8: "durable ''user:1'' zhang True (Flush order (tick_if (ticks 7) order s7))" by (rule step(4) [OF step(1) [OF s7]])
  have "DemoWriteBack ticks order clk zhang li wang = (GetDirtyCount (order (dirtyData s4)) s4, Inr zhang, Some zhang,
      db_Get ''user:1'' (wb_db s7), Some zhang)"
    unfolding DemoWriteBack_def Let_def s1_def [symmetric] s4_def [symmetric] s5_def [symmetric]
    using step(3) [OF s5] s6 s8 by (simp add: durable_def s6_def s7_def)
  moreover have "db_Get ''user:1'' (wb_db s7) = (if \<exists>i \<in> set [1..<7]. ticks i then Some zhang else None)"
    using s7 by (simp add: durable_def upt_conv_Cons numeral_eq_Suc del: set_upt)
  ultimately show ?thesis by blast
qed

text \<open>A run of writes under the timer.\<close>

lemma wb_sets_spec:
  assumes "wb_inv s" "fair_order order"
  shows "wb_inv (wb_sets ticks order clk i kvs s) \<and> wb_abs (wb_sets ticks order clk i kvs s) = wb_abs s ++ map_of (rev kvs)"
  using assms(1)
proof (induction kvs arbitrary: i s)
  case (Cons kv kvs)
  obtain k v where kv: "kv = (k, v)" by fastforce
  note t = tick_if_spec [OF Cons.prems assms(2), of "ticks i"]
  note put = caching_store.put_writes [OF transparent_cache.axioms(1) [OF write_back_contract [OF assms(2)]] t(1), of "clk i" k v]
  have "wb_abs s ++ map_of (rev (kv # kvs)) = (wb_abs s)(k \<mapsto> v) ++ map_of (rev kvs)"
    by (auto simp: kv map_add_def fun_eq_iff split: option.splits)
  then show ?case
    using Cons.IH [of "wb_Set (clk i) k v (tick_if (ticks i) order s)" "Suc i"] put t(2) kv by (simp only: wb_sets.simps)
qed simp

lemma wb_sets_dirty:
  "(\<And>j. j < i + length kvs \<Longrightarrow> \<not> ticks j) \<Longrightarrow>
    dom (dirtyData (wb_sets ticks order clk i kvs s)) = dom (dirtyData s) \<union> fst ` set kvs"
proof (induction kvs arbitrary: i s)
  case (Cons kv kvs)
  have "\<not> ticks i" by (rule Cons.prems) simp
  moreover have "\<not> ticks j" if "j < Suc i + length kvs" for j using that by (intro Cons.prems) simp
  note Cons.IH [of "Suc i", OF this]
  ultimately show ?case by (cases kv) (simp add: tick_if_def wb_Set_def)
qed simp

theorem write_back_batch_demo:
  assumes "fair_order order"
  shows "snd (DemoWriteBackPerformance ticks order clk user) = 0 \<and>
    ((\<forall>i \<le> 10. \<not> ticks i) \<longrightarrow> fst (DemoWriteBackPerformance ticks order clk user) = 10)"
proof -
  define kvs where "kvs = map (numbered ''batch_user:'' user) [0..<10]"
  define s where "s = tick_if (ticks 10) order (wb_sets ticks order clk 0 kvs NewWriteBackCache)"
  note w = wb_sets_spec [OF new_inv(3) assms, of ticks clk 0 kvs]
  note s = tick_if_spec [OF conjunct1 [OF w] assms, of "ticks 10", folded s_def]
  note s1 = tick_if_spec [OF s(1) assms, of True]
  have "distinct (map fst kvs)" unfolding kvs_def by (rule numbered_keys(2)) simp
  moreover have len: "length kvs = 10" by (simp add: kvs_def)
  ultimately have "card (fst ` set kvs) = 10" using distinct_card [of "map fst kvs"] by simp
  moreover have "dirtyData NewWriteBackCache = Map.empty" by (simp add: NewWriteBackCache_def)
  ultimately have "card (dom (dirtyData s)) = 10" if "\<forall>i \<le> 10. \<not> ticks i"
    using wb_sets_dirty [of 0 kvs ticks] len s(4) that by simp
  moreover have "dirtyData (autoFlush order s) = Map.empty" using s1(4) by (simp add: tick_if_def)
  ultimately show ?thesis
    using dirty_count [OF s(1) assms] dirty_count [OF s1(1) assms]
    unfolding DemoWriteBackPerformance_def Let_def kvs_def [symmetric] s_def [symmetric] by (simp add: tick_if_def)
qed

text \<open>Nothing of a cache that is dropped is left for its successor.\<close>

theorem data_loss_demo: "snd (DemoDataLossRisk ticks order clk important)"
  by (simp add: DemoDataLossRisk_def NewWriteBackCache_def wb_Get_def store_defs NewCache_def NewDatabase_def Let_def)

text \<open>Every read of the comparison gives the value written, whenever the timer fires.\<close>

lemma aside_reads:
  "fst (reads_of ca_Get (map (\<lambda>i. key @ Itoa i) [0..<n])
    (fold (\<lambda>i. case numbered key text i of (k, v) \<Rightarrow> ca_Set k v) [0..<n] NewCacheAsideService)) = map (\<lambda>i. Inr (text @ Itoa i)) [0..<n]"
  unfolding fold_numbered numbered_keys(1) [of _ _ "text"]
  using cache_aside.write_then_read [OF new_inv(1) numbered_keys(2) [OF distinct_upt]] by (simp only: numbered_keys(3))

lemma through_reads:
  "fst (reads_of wt_Get (map (\<lambda>i. key @ Itoa i) [0..<n])
    (fold (\<lambda>i. case numbered key text i of (k, v) \<Rightarrow> wt_Set k v) [0..<n] NewWriteThroughCache)) = map (\<lambda>i. Inr (text @ Itoa i)) [0..<n]"
  unfolding fold_numbered numbered_keys(1) [of _ _ "text"]
  using through.write_then_read [OF new_inv(2) numbered_keys(2) [OF distinct_upt]] by (simp only: numbered_keys(3))

lemma back_reads:
  assumes "fair_order order"
  shows "fst (reads_of wb_Get (map (\<lambda>i. key @ Itoa i) [0..<n])
    (tick_if b order (wb_sets ticks order clk j (map (numbered key text) [0..<n]) NewWriteBackCache))) = map (\<lambda>i. Inr (text @ Itoa i)) [0..<n]"
proof -
  let ?kvs = "map (numbered key text) [0..<n]"
  have w: "wb_inv (wb_sets ticks order clk j ?kvs NewWriteBackCache)"
    "wb_abs (wb_sets ticks order clk j ?kvs NewWriteBackCache) = map_of (rev ?kvs)"
    using wb_sets_spec [OF new_inv(3) assms, of ticks clk j ?kvs] by (simp_all add: new_inv(4))
  note s = tick_if_spec(1,2) [OF w(1) assms, of b]
  have "map_of (rev ?kvs) (key @ Itoa i) = Some (text @ Itoa i)" if "i < n" for i
  proof (rule map_of_is_SomeI)
    show "distinct (map fst (rev ?kvs))" using numbered_keys(2) [OF distinct_upt] by (simp add: rev_map [symmetric])
    show "(key @ Itoa i, text @ Itoa i) \<in> set (rev ?kvs)" using that by (auto simp: numbered_def)
  qed
  then show ?thesis
    using caching_store.reads_of_answers [OF transparent_cache.axioms(1) [OF write_back_contract [OF assms]] s(1)]
    by (simp add: s(2) w(2) lookup_answer_def)
qed

theorem comparison_reads:
  assumes "fair_order order"
  shows "fst (snd (runPerformanceComparison elapsed ticks order clk text)) = replicate 3 (map (\<lambda>i. Inr (text @ Itoa i)) [0..<5])"
  unfolding runPerformanceComparison_def Let_def case_prod_beta fst_conv snd_conv back_reads [OF assms] aside_reads [unfolded case_prod_beta]
    through_reads [unfolded case_prod_beta] numeral_3_eq_3 replicate_Suc replicate_0 by (rule refl)

text \<open>Only a fastest write-back is ranked, and then all three are, in ascending order when their times differ.\<close>

theorem ranking_demo:
  "(write_ranking ca wt wb \<noteq> []) = (wb < ca \<and> wb < wt) \<and>
   (wb < ca \<and> ca < wt \<longrightarrow> write_ranking ca wt wb = [''Write-Back'', ''Cache-Aside'', ''Write-Through'']) \<and>
   (wb < wt \<and> wt < ca \<longrightarrow> write_ranking ca wt wb = [''Write-Back'', ''Write-Through'', ''Cache-Aside''])"
  by (auto simp: write_ranking_def)

theorem consistency_demo:
  assumes "fair_order order"
  shows "demonstrateConsistency ticked order now zhang li wang = (True, Some wang, if ticked then None else Some 1, Some wang)"
proof -
  define wb where "wb = wb_Set now ''user:3'' wang NewWriteBackCache"
  have s: "durable ''user:3'' wang False wb" using durable_first [OF assms, of _ _ _ False] by (simp add: wb_def tick_if_def)
  note s1 = durable_steps(1) [OF s assms, of ticked]
  note d = s1 durable_steps(1) [OF s1 assms, of True] s [unfolded durable_def, THEN conjunct1] s [unfolded durable_def]
  have "GetDirtyCount (order (dirtyData wb)) wb = 1"
    using dirty_count [OF d(3) assms] by (simp add: wb_def wb_Set_def NewWriteBackCache_def)
  then show ?thesis
    using d by (simp add: demonstrateConsistency_def Let_def wb_def [symmetric] durable_def tick_if_def)
      (auto simp: wt_Set_def store_defs Let_def split: option.splits)
qed

end
