(* ===== verification/Delayed_Delete.thy ===== *)
theory Delayed_Delete
  imports Patterns_Conc
begin

text \<open>
  The concurrent demonstrations of \<open>tutorial/02-patterns/cache_aside.go\<close>: three goroutines that update database and cache
  (\<open>DemoConcurrencyProblem\<close>), and the delayed double delete (\<open>DemoDelayedDoubleDelete\<close>), here with any number of readers running
  beside it. A schedule names the goroutine that takes the next step of \<open>Patterns_Conc\<close>.
\<close>

section \<open>Concurrent updates\<close>

definition ca_turn :: "nat \<Rightarrow> aside \<times> ca_pc list \<Rightarrow> aside \<times> ca_pc list" where
  "ca_turn i = (\<lambda>(s, gs).
     if i < length gs then (case ca_next (gs ! i) s of None \<Rightarrow> (s, gs) | Some (g, s1) \<Rightarrow> (s1, gs[i := g])) else (s, gs))"

definition counter_value :: "nat \<Rightarrow> string" where
  "counter_value i = ''100_updated_by_'' @ Itoa i"

text \<open>\<open>wg.Wait\<close> returns when all have ended: after the schedule they finish one after the other, two steps each.\<close>

definition DemoConcurrencyProblem :: "nat list \<Rightarrow> (pattern_error + string) \<times> aside" where
  "DemoConcurrencyProblem turns =
     (let service = NewCacheAsideService\<lparr> as_db := db_Set ''counter'' ''100'' NewDatabase \<rparr>;
          writers = map (\<lambda>i. A_Update1 ''counter'' (counter_value i)) [0..<3];
          (s, gs) = fold ca_turn (turns @ [0, 0, 1, 1, 2, 2]) (service, writers)
      in ca_Get ''counter'' s)"

section \<open>The delayed double delete\<close>

datatype dd_point = D_Delete1 | D_Write | D_Delete2 | D_Done

definition dd_main :: "string \<Rightarrow> string \<Rightarrow> dd_point \<Rightarrow> aside \<Rightarrow> dd_point \<times> aside" where
  "dd_main key v p s =
     (case p of
        D_Delete1 \<Rightarrow> (D_Write, s\<lparr> as_cache := pc_Delete key (as_cache s) \<rparr>)
      | D_Write \<Rightarrow> (D_Delete2, s\<lparr> as_db := db_Set key v (as_db s) \<rparr>)
      | D_Delete2 \<Rightarrow> (D_Done, s\<lparr> as_cache := pc_Delete key (as_cache s) \<rparr>)
      | D_Done \<Rightarrow> (D_Done, s))"

type_synonym dd_state = "aside \<times> dd_point \<times> ca_pc list"

definition dd_turn :: "string \<Rightarrow> string \<Rightarrow> nat option \<Rightarrow> dd_state \<Rightarrow> dd_state" where
  "dd_turn key v who = (\<lambda>(s, p, gs).
     (case who of
        None \<Rightarrow> (case dd_main key v p s of (p1, s1) \<Rightarrow> (s1, p1, gs))
      | Some i \<Rightarrow> (case ca_turn i (s, gs) of (s1, gs1) \<Rightarrow> (s1, p, gs1))))"

definition dd_run :: "string \<Rightarrow> string \<Rightarrow> nat option list \<Rightarrow> dd_state \<Rightarrow> dd_state" where
  "dd_run key v turns st = fold (dd_turn key v) turns st"

text \<open>The demonstration has no readers beside it; \<open>old\<close> and \<open>new\<close> are the two texts it stores.\<close>

definition DemoDelayedDoubleDelete :: "string \<Rightarrow> string \<Rightarrow> (pattern_error + string) \<times> aside" where
  "DemoDelayedDoubleDelete old new =
     (let key = ''product:1'';
          service = NewCacheAsideService\<lparr> as_db := db_Set key old NewDatabase \<rparr>;
          (_, s) = ca_Get key service;
          (s1, p, gs) = dd_run key new [None, None, None] (s, D_Delete1, [])
      in ca_Get key s1)"

section \<open>Updates of the cache can diverge from the database\<close>

text \<open>Every writer has its own value; database and cache hold the value of one writer each once both have been written.\<close>

fun cu_ok :: "ca_pc \<Rightarrow> aside \<Rightarrow> nat \<Rightarrow> bool" where
  "cu_ok (A_Update1 k v) s i \<longleftrightarrow> k = ''counter'' \<and> v = counter_value i"
| "cu_ok (A_Update2 k v) s i \<longleftrightarrow> k = ''counter'' \<and> v = counter_value i \<and> (\<exists>j<3. db_Get ''counter'' (as_db s) = Some (counter_value j))"
| "cu_ok A_Done s i \<longleftrightarrow> (\<exists>j<3. db_Get ''counter'' (as_db s) = Some (counter_value j)) \<and>
     (\<exists>j<3. pc_Get ''counter'' (as_cache s) = Some (counter_value j))"
| "cu_ok _ s i \<longleftrightarrow> False"

fun cu_left :: "ca_pc \<Rightarrow> nat" where
  "cu_left (A_Update1 k v) = 2"
| "cu_left (A_Update2 k v) = 1"
| "cu_left _ = 0"

definition writers_here :: "aside \<times> ca_pc list \<Rightarrow> bool" where
  "writers_here = (\<lambda>(s, gs). length gs = 3 \<and> (\<forall>i<3. cu_ok (gs ! i) s i))"

lemma cu_keep:
  assumes "cu_ok g s i" "db_Get ''counter'' (as_db s1) = db_Get ''counter'' (as_db s) \<or> (\<exists>j<3. db_Get ''counter'' (as_db s1) = Some (counter_value j))"
    and "pc_Get ''counter'' (as_cache s1) = pc_Get ''counter'' (as_cache s) \<or> (\<exists>j<3. pc_Get ''counter'' (as_cache s1) = Some (counter_value j))"
  shows "cu_ok g s1 i"
  using assms by (cases g) auto

lemma ca_turn_writers:
  assumes "writers_here (s, gs)" "ca_turn i (s, gs) = (s1, gs1)"
  shows "writers_here (s1, gs1)" "j < 3 \<Longrightarrow> cu_left (gs1 ! j) \<le> cu_left (gs ! j) - (if i = j then 1 else 0)"
proof -
  have "writers_here (s1, gs1) \<and> (\<forall>j<3. cu_left (gs1 ! j) \<le> cu_left (gs ! j) - (if i = j then 1 else 0))"
  proof (cases "i < 3")
    case True
    have len: "length gs = 3" and ok: "\<And>j. j < 3 \<Longrightarrow> cu_ok (gs ! j) s j" using assms(1) by (auto simp: writers_here_def)
    have oki: "cu_ok (gs ! i) s i" by (rule ok [OF True])
    show ?thesis
    proof (cases "gs ! i")
      case (A_Update1 k v)
      then have kv: "k = ''counter''" "v = counter_value i" using oki by simp_all
      then have r: "s1 = s\<lparr> as_db := db_Set k v (as_db s) \<rparr>" "gs1 = gs[i := A_Update2 k v]"
        using assms(2) True A_Update1 len by (simp_all add: ca_turn_def)
      have "cu_ok (gs1 ! j) s1 j" if "j < 3" for j
        using cu_keep [OF ok [OF that], of s1] that True len kv r by (cases "j = i") (auto simp: store_defs)
      then show ?thesis using len r A_Update1 by (auto simp: writers_here_def nth_list_update)
    next
      case (A_Update2 k v)
      then have kv: "k = ''counter''" "v = counter_value i" "\<exists>j<3. db_Get ''counter'' (as_db s) = Some (counter_value j)" using oki by simp_all
      then have r: "s1 = s\<lparr> as_cache := pc_Set k v (as_cache s) \<rparr>" "gs1 = gs[i := A_Done]"
        using assms(2) True A_Update2 len by (simp_all add: ca_turn_def)
      have "cu_ok (gs1 ! j) s1 j" if "j < 3" for j
        using cu_keep [OF ok [OF that], of s1] that True len kv r by (cases "j = i") (auto simp: store_defs)
      then show ?thesis using len r A_Update2 by (auto simp: writers_here_def nth_list_update)
    qed (use oki assms True len in \<open>auto simp: ca_turn_def\<close>)
  qed (use assms in \<open>auto simp: ca_turn_def writers_here_def\<close>)
  then show "writers_here (s1, gs1)" "j < 3 \<Longrightarrow> cu_left (gs1 ! j) \<le> cu_left (gs ! j) - (if i = j then 1 else 0)" by blast+
qed

lemma ca_turns_writers:
  assumes "writers_here (s, gs)" "fold ca_turn turns (s, gs) = (s1, gs1)"
  shows "writers_here (s1, gs1) \<and> (\<forall>j<3. cu_left (gs1 ! j) \<le> cu_left (gs ! j) - length (filter (\<lambda>i. i = j) turns))"
  using assms
proof (induction turns arbitrary: s gs)
  case (Cons i turns)
  obtain s2 gs2 where t: "ca_turn i (s, gs) = (s2, gs2)" by fastforce
  have IH: "writers_here (s1, gs1) \<and> (\<forall>j<3. cu_left (gs1 ! j) \<le> cu_left (gs2 ! j) - length (filter (\<lambda>i. i = j) turns))"
    using Cons.IH [OF ca_turn_writers(1) [OF Cons.prems(1) t]] Cons.prems(2) t by simp
  have "cu_left (gs1 ! j) \<le> cu_left (gs ! j) - length (filter (\<lambda>i. i = j) (i # turns))" if "j < 3" for j
  proof -
    have "cu_left (gs1 ! j) \<le> cu_left (gs2 ! j) - length (filter (\<lambda>i. i = j) turns)" using IH that by blast
    then show ?thesis using ca_turn_writers(2) [OF Cons.prems(1) t that] by auto
  qed
  then show ?case using IH by blast
qed simp

text \<open>When all writers have ended, a read gives the value of one of them and the database holds that of one of them; for some
  schedules the two differ.\<close>

theorem updates_diverge:
  "\<exists>i<3. \<exists>j<3. fst (DemoConcurrencyProblem turns) = Inr (counter_value i) \<and>
     db_Get ''counter'' (as_db (snd (DemoConcurrencyProblem turns))) = Some (counter_value j)"
  "fst (DemoConcurrencyProblem [2, 2, 0, 1, 1, 0]) = Inr (counter_value 0)"
  "db_Get ''counter'' (as_db (snd (DemoConcurrencyProblem [2, 2, 0, 1, 1, 0]))) = Some (counter_value 1)"
proof -
  let ?s = "NewCacheAsideService\<lparr> as_db := db_Set ''counter'' ''100'' NewDatabase \<rparr>"
    and ?gs = "map (\<lambda>i. A_Update1 ''counter'' (counter_value i)) [0..<3]"
  obtain s gs where r: "fold ca_turn (turns @ [0, 0, 1, 1, 2, 2]) (?s, ?gs) = (s, gs)" by fastforce
  have start: "writers_here (?s, ?gs)" by (simp add: writers_here_def del: upt_rec_numeral)
  have w: "writers_here (s, gs)" and left: "\<forall>j<3. cu_left (gs ! j) \<le> cu_left (?gs ! j) - length (filter (\<lambda>i. i = j) (turns @ [0, 0, 1, 1, 2, 2]))"
    using ca_turns_writers [OF start r] by blast+
  have "cu_left (gs ! 0) = 0" using left [rule_format, of 0] by (simp del: upt_rec_numeral)
  moreover have "cu_ok (gs ! 0) s 0" using w by (simp add: writers_here_def)
  ultimately have "gs ! 0 = A_Done" by (cases "gs ! 0") auto
  then obtain i j where "i < 3" "j < 3" "db_Get ''counter'' (as_db s) = Some (counter_value j)" "pc_Get ''counter'' (as_cache s) = Some (counter_value i)"
    using \<open>cu_ok (gs ! 0) s 0\<close> by auto
  moreover have "DemoConcurrencyProblem turns = ca_Get ''counter'' s"
    unfolding DemoConcurrencyProblem_def Let_def r by simp
  ultimately show "\<exists>i<3. \<exists>j<3. fst (DemoConcurrencyProblem turns) = Inr (counter_value i) \<and>
     db_Get ''counter'' (as_db (snd (DemoConcurrencyProblem turns))) = Some (counter_value j)"
    by (auto simp: ca_Get_def)
  show "fst (DemoConcurrencyProblem [2, 2, 0, 1, 1, 0]) = Inr (counter_value 0)"
    "db_Get ''counter'' (as_db (snd (DemoConcurrencyProblem [2, 2, 0, 1, 1, 0]))) = Some (counter_value 1)"
    by (simp_all add: DemoConcurrencyProblem_def ca_turn_def ca_Get_def store_defs Let_def upt_rec)
qed

section \<open>When the second deletion helps\<close>

fun reads :: "string \<Rightarrow> ca_pc \<Rightarrow> bool" where
  "reads key (A_Get1 k) \<longleftrightarrow> k = key"
| "reads key (A_Get2 k) \<longleftrightarrow> k = key"
| "reads key (A_Get3 k v) \<longleftrightarrow> k = key"
| "reads key (A_Return r) \<longleftrightarrow> True"
| "reads key _ \<longleftrightarrow> False"

lemma reader_next:
  assumes "ca_next g s = Some (g1, s1)" "reads key g"
  shows "reads key g1" "as_db s1 = as_db s" "\<forall>x. g1 = A_Get3 key x \<longrightarrow> db_Get key (as_db s) = Some x"
    "pc_Get key (as_cache s1) = (case g of A_Get3 k x \<Rightarrow> Some x | _ \<Rightarrow> pc_Get key (as_cache s))"
  using assms by (cases g; auto simp: store_defs split: option.splits)+

text \<open>The readers read, and once the main goroutine has written the database holds the new value.\<close>

definition dd_ok :: "string \<Rightarrow> string \<Rightarrow> dd_state \<Rightarrow> bool" where
  "dd_ok key v = (\<lambda>(s, p, gs).
     (\<forall>g \<in> set gs. reads key g) \<and> (p \<in> {D_Delete2, D_Done} \<longrightarrow> db_Get key (as_db s) = Some v))"

text \<open>Nothing old is left in the cache or on its way to it.\<close>

definition dd_clean :: "string \<Rightarrow> string \<Rightarrow> dd_state \<Rightarrow> bool" where
  "dd_clean key v = (\<lambda>(s, p, gs).
     p = D_Done \<and> pc_Get key (as_cache s) \<in> {None, Some v} \<and> (\<forall>x. A_Get3 key x \<in> set gs \<longrightarrow> x = v))"

lemma dd_turn_reader:
  assumes "ca_turn i (s, gs) = (s1, gs1)" "\<forall>g \<in> set gs. reads key g"
  shows "(\<forall>g \<in> set gs1. reads key g) \<and> as_db s1 = as_db s \<and>
    (\<forall>x. A_Get3 key x \<in> set gs1 \<longrightarrow> A_Get3 key x \<in> set gs \<or> db_Get key (as_db s) = Some x) \<and>
    (pc_Get key (as_cache s1) = pc_Get key (as_cache s) \<or> (\<exists>x. A_Get3 key x \<in> set gs \<and> pc_Get key (as_cache s1) = Some x))"
proof (cases "i < length gs")
  case True
  then have g: "gs ! i \<in> set gs" "reads key (gs ! i)" using assms(2) by auto
  show ?thesis
  proof (cases "ca_next (gs ! i) s")
    case (Some c)
    obtain h where h: "ca_next (gs ! i) s = Some (h, s1)" "gs1 = gs[i := h]"
      using assms(1) True Some by (cases c) (simp add: ca_turn_def)
    note n = reader_next [OF h(1) g(2)]
    have sub: "set gs1 \<subseteq> insert h (set gs)" unfolding h(2) by (rule set_update_subset_insert)
    have "pc_Get key (as_cache s1) = pc_Get key (as_cache s) \<or> (\<exists>x. A_Get3 key x \<in> set gs \<and> pc_Get key (as_cache s1) = Some x)"
      using n(4) g by (cases "gs ! i") auto
    then show ?thesis using n(1-3) sub assms(2) by auto
  qed (use assms True in \<open>simp add: ca_turn_def\<close>)
qed (use assms in \<open>simp add: ca_turn_def\<close>)

lemma dd_ok_turn: "dd_ok key v st \<Longrightarrow> dd_ok key v (dd_turn key v who st)"
proof -
  assume ok: "dd_ok key v st"
  obtain s p gs where st: "st = (s, p, gs)" by (metis prod_cases3)
  show ?thesis
  proof (cases who)
    case None
    then show ?thesis using ok by (cases p) (auto simp: st dd_turn_def dd_main_def dd_ok_def store_defs)
  next
    case (Some i)
    obtain s1 gs1 where t: "ca_turn i (s, gs) = (s1, gs1)" by fastforce
    then show ?thesis using dd_turn_reader [OF t, of key] ok by (simp add: Some st dd_turn_def dd_ok_def)
  qed
qed

lemma dd_ok_run: "dd_ok key v st \<Longrightarrow> dd_ok key v (dd_run key v turns st)"
  unfolding dd_run_def by (induction turns arbitrary: st) (simp_all add: dd_ok_turn)

lemma dd_clean_turn:
  assumes "dd_clean key v st" "dd_ok key v st"
  shows "dd_clean key v (dd_turn key v who st)"
proof -
  obtain s p gs where st: "st = (s, p, gs)" by (metis prod_cases3)
  show ?thesis
  proof (cases who)
    case None
    then show ?thesis using assms(1) by (simp add: st dd_turn_def dd_main_def dd_clean_def)
  next
    case (Some i)
    obtain s1 gs1 where t: "ca_turn i (s, gs) = (s1, gs1)" by fastforce
    then show ?thesis
      using dd_turn_reader [OF t, of key] assms by (auto simp: Some st dd_turn_def dd_clean_def dd_ok_def)
  qed
qed

lemma dd_clean_run: "dd_clean key v st \<Longrightarrow> dd_ok key v st \<Longrightarrow> dd_clean key v (dd_run key v turns st)"
  unfolding dd_run_def by (induction turns arbitrary: st) (simp_all add: dd_clean_turn dd_ok_turn)

text \<open>C37: after the second deletion every read gives the new value, in every schedule of the readers that are still running, if and
  only if no reader that has fetched an older value has still to write it into the cache.\<close>

theorem double_delete_effective:
  assumes "dd_run key v turns (s0, D_Delete1, replicate n (A_Get1 key)) = (s1, D_Delete2, gs1)"
  shows "(\<forall>turns2. fst (ca_Get key (fst (dd_run key v (None # turns2) (s1, D_Delete2, gs1)))) = Inr v) \<longleftrightarrow>
    (\<forall>x. A_Get3 key x \<in> set gs1 \<longrightarrow> x = v)"
proof -
  have "dd_ok key v (s0, D_Delete1, replicate n (A_Get1 key))" by (auto simp: dd_ok_def)
  from dd_ok_run [OF this, of turns] have ok: "dd_ok key v (s1, D_Delete2, gs1)" using assms by simp
  let ?s = "s1\<lparr> as_cache := pc_Delete key (as_cache s1) \<rparr>"
  have del: "dd_run key v (None # turns2) (s1, D_Delete2, gs1) = dd_run key v turns2 (?s, D_Done, gs1)" for turns2
    by (simp add: dd_run_def dd_turn_def dd_main_def)
  have ok2: "dd_ok key v (?s, D_Done, gs1)" using ok by (simp add: dd_ok_def)
  show ?thesis
  proof
    assume clean: "\<forall>x. A_Get3 key x \<in> set gs1 \<longrightarrow> x = v"
    show "\<forall>turns2. fst (ca_Get key (fst (dd_run key v (None # turns2) (s1, D_Delete2, gs1)))) = Inr v"
    proof
      fix turns2
      obtain s p gs where r: "dd_run key v turns2 (?s, D_Done, gs1) = (s, p, gs)" by (metis prod_cases3)
      have "dd_clean key v (?s, D_Done, gs1)" using clean by (simp add: dd_clean_def store_defs)
      from dd_clean_run [OF this ok2, of turns2] dd_ok_run [OF ok2, of turns2]
      have "pc_Get key (as_cache s) \<in> {None, Some v}" "db_Get key (as_db s) = Some v" by (auto simp: r dd_clean_def dd_ok_def)
      then show "fst (ca_Get key (fst (dd_run key v (None # turns2) (s1, D_Delete2, gs1)))) = Inr v"
        by (auto simp: del r ca_Get_def)
    qed
  next
    assume all: "\<forall>turns2. fst (ca_Get key (fst (dd_run key v (None # turns2) (s1, D_Delete2, gs1)))) = Inr v"
    show "\<forall>x. A_Get3 key x \<in> set gs1 \<longrightarrow> x = v"
    proof (intro allI impI)
      fix x
      assume "A_Get3 key x \<in> set gs1"
      then obtain i where i: "i < length gs1" "gs1 ! i = A_Get3 key x" by (auto simp: in_set_conv_nth)
      have "fst (ca_Get key (fst (dd_run key v [Some i] (?s, D_Done, gs1)))) = Inr x"
        using i by (simp add: dd_run_def dd_turn_def ca_turn_def ca_Get_def store_defs)
      then show "x = v" using all [rule_format, of "[Some i]"] del [of "[Some i]"] by simp
    qed
  qed
qed

text \<open>A reader that fetched the old value before the write and stores it after the second deletion.\<close>

theorem double_delete_effective_witness:
  "\<not> (\<forall>turns2. fst (ca_Get ''k'' (fst (dd_run ''k'' ''new'' (None # turns2)
     (dd_run ''k'' ''new'' [None, Some 0, Some 0, None] (aside_of [''k'' \<mapsto> ''old''], D_Delete1, [A_Get1 ''k'']))))) = Inr ''new'')"
proof -
  let ?s = "(aside_of [''k'' \<mapsto> ''old''])\<lparr> as_cache := pc_Delete ''k'' NewCache, as_db := db_Set ''k'' ''new'' \<lparr> db_data = [''k'' \<mapsto> ''old''] \<rparr> \<rparr>"
  have r: "dd_run ''k'' ''new'' [None, Some 0, Some 0, None] (aside_of [''k'' \<mapsto> ''old''], D_Delete1, replicate 1 (A_Get1 ''k'')) =
      (?s, D_Delete2, [A_Get3 ''k'' ''old''])"
    by (simp add: dd_run_def dd_turn_def dd_main_def ca_turn_def aside_of_def NewCache_def store_defs)
  then have "dd_run ''k'' ''new'' [None, Some 0, Some 0, None] (aside_of [''k'' \<mapsto> ''old''], D_Delete1, [A_Get1 ''k'']) =
      (?s, D_Delete2, [A_Get3 ''k'' ''old''])" by simp
  then show ?thesis using double_delete_effective [OF r] by simp
qed

text \<open>Without readers beside it the demonstration ends with the new value.\<close>

theorem double_delete_demo: "fst (DemoDelayedDoubleDelete old new) = Inr new"
  by (simp add: DemoDelayedDoubleDelete_def dd_run_def dd_turn_def dd_main_def ca_Get_def NewCacheAsideService_def NewCache_def
      NewDatabase_def store_defs Let_def)

end
