(* ===== verification/Problems.thy ===== *)
theory Problems
  imports Ttl_Store Hashes
begin

text \<open>
  \<open>tutorial/03-problems\<close>: avalanche (many entries expire together), penetration (queries for keys that do not exist)
  and breakdown (a hot key expires), with the remedies of the source. The random numbers, the clock and the outcome of
  a simulated query are arguments; counters are integers; printing and sleeping are not modelled.
\<close>

section \<open>Avalanche\<close>

record query_db =
  qd_data :: "string \<rightharpoonup> string"
  qd_queryCount :: int

definition user_key :: "nat \<Rightarrow> string" where
  "user_key i = ''user:'' @ Itoa i"

text \<open>The value \<open>fmt.Sprintf\<close> builds from a Chinese text: its UTF-8 bytes around the number.\<close>

definition user_value :: "nat \<Rightarrow> string" where
  "user_value i =
     map char_of [0xE7, 0x94, 0xA8, 0xE6, 0x88, 0xB7 :: nat] @ Itoa i @
     map char_of [0xE7, 0x9A, 0x84, 0xE6, 0x95, 0xB0, 0xE6, 0x8D, 0xAE :: nat]"

definition user_data :: "string \<rightharpoonup> string" where
  "user_data = map_of (map (\<lambda>i. (user_key i, user_value i)) [1..<101])"

definition qd_New :: query_db where
  "qd_New = \<lparr> qd_data = user_data, qd_queryCount = 0 \<rparr>"

definition qd_Query :: "string \<Rightarrow> query_db \<Rightarrow> string option \<times> query_db" where
  "qd_Query key db = (qd_data db key, db\<lparr> qd_queryCount := qd_queryCount db + 1 \<rparr>)"

definition qd_GetQueryCount :: "query_db \<Rightarrow> int" where
  "qd_GetQueryCount db = qd_queryCount db"

definition qd_ResetQueryCount :: "query_db \<Rightarrow> query_db" where
  "qd_ResetQueryCount db = db\<lparr> qd_queryCount := 0 \<rparr>"

record simple_cache =
  sc_data :: "string \<rightharpoonup> string ttl_item"

definition sc_New :: simple_cache where
  "sc_New = \<lparr> sc_data = Map.empty \<rparr>"

definition sc_Get :: "go_time \<Rightarrow> string \<Rightarrow> simple_cache \<Rightarrow> string option" where
  "sc_Get now key c = live now (sc_data c key)"

definition sc_Set :: "go_time \<Rightarrow> string \<Rightarrow> string \<Rightarrow> duration \<Rightarrow> simple_cache \<Rightarrow> simple_cache" where
  "sc_Set now key v ttl c = c\<lparr> sc_data := put_item now key v ttl (sc_data c) \<rparr>"

definition sc_Clear :: "simple_cache \<Rightarrow> simple_cache" where
  "sc_Clear c = c\<lparr> sc_data := Map.empty \<rparr>"

record anti_cache =
  aa_data :: "string \<rightharpoonup> string ttl_item"

definition aa_New :: anti_cache where
  "aa_New = \<lparr> aa_data = Map.empty \<rparr>"

definition aa_Get :: "go_time \<Rightarrow> string \<Rightarrow> anti_cache \<Rightarrow> string option" where
  "aa_Get now key c = live now (aa_data c key)"

abbreviation second :: duration where "second \<equiv> 10 ^ 9"

text \<open>\<open>rand.Intn(n)\<close> yields a number in \<open>[0, n)\<close> and panics when \<open>n\<close> is not positive; \<open>r\<close> is the raw random number.\<close>

definition rand_Intn :: "nat \<Rightarrow> int \<Rightarrow> int option" where
  "rand_Intn r n = (if n \<le> 0 then None else Some (int r mod n))"

text \<open>\<open>int(baseTTL.Seconds()/2)\<close>: the quotient of the duration by two seconds, truncated towards zero. (The source divides floating-point
  seconds; the two agree while the seconds of the duration are represented to the nanosecond, up to some 100 days.)\<close>

definition aa_Set :: "nat \<Rightarrow> go_time \<Rightarrow> string \<Rightarrow> string \<Rightarrow> duration \<Rightarrow> anti_cache \<Rightarrow> anti_cache option" where
  "aa_Set r now key v baseTTL c = do {
     n \<leftarrow> rand_Intn r (sgn baseTTL * (\<bar>baseTTL\<bar> div (2 * second)));
     let randomOffset = n * second;
     let actualTTL = baseTTL + randomOffset;
     Some (c\<lparr> aa_data := put_item now key v actualTTL (aa_data c) \<rparr>)
   }"

record two_level =
  tl_l1 :: simple_cache
  tl_l2 :: simple_cache
  tl_db :: query_db

definition tl_New :: "query_db \<Rightarrow> two_level" where
  "tl_New db = \<lparr> tl_l1 = sc_New, tl_l2 = sc_New, tl_db = db \<rparr>"

text \<open>The readings of the clock: of the two look-ups and of the two writes. \<open>None\<close> is the error of the source.\<close>

definition tl_Get :: "go_time \<times> go_time \<times> go_time \<times> go_time \<Rightarrow> string \<Rightarrow> two_level \<Rightarrow> string option \<times> two_level" where
  "tl_Get ts key m =
     (case ts of (n1, n2, w1, w2) \<Rightarrow>
      case sc_Get n1 key (tl_l1 m) of
        Some v \<Rightarrow> (Some v, m)
      | None \<Rightarrow>
          (case sc_Get n2 key (tl_l2 m) of
             Some v \<Rightarrow> (Some v, m\<lparr> tl_l1 := sc_Set w1 key v (30 * second) (tl_l1 m) \<rparr>)
           | None \<Rightarrow>
               (case qd_Query key (tl_db m) of
                  (None, db) \<Rightarrow> (None, m\<lparr> tl_db := db \<rparr>)
                | (Some v, db) \<Rightarrow>
                    (Some v, m\<lparr> tl_db := db, tl_l1 := sc_Set w1 key v (30 * second) (tl_l1 m),
                               tl_l2 := sc_Set w2 key v (300 * second) (tl_l2 m) \<rparr>))))"

text \<open>The circuit breaker of the demonstration; \<open>fails\<close> is the outcome of the simulated query.\<close>

datatype breaker_state = CLOSED | OPEN | HALF_OPEN

record breaker =
  failureCount :: int
  failureThreshold :: int
  cb_state :: breaker_state
  lastFailTime :: go_time
  cb_timeout :: duration

definition new_breaker :: breaker where
  "new_breaker = \<lparr> failureCount = 0, failureThreshold = 3, cb_state = CLOSED, lastFailTime = 0, cb_timeout = 5 * second \<rparr>"

datatype breaker_answer = DefaultData | QueryFailed | UserData string

definition attempt :: "go_time \<Rightarrow> bool \<Rightarrow> string \<Rightarrow> breaker \<Rightarrow> breaker_answer \<times> breaker" where
  "attempt now fails key cb =
     (if fails then
        let cb1 = cb\<lparr> failureCount := failureCount cb + 1, lastFailTime := now \<rparr>
        in (QueryFailed, if failureCount cb1 \<ge> failureThreshold cb1 then cb1\<lparr> cb_state := OPEN \<rparr> else cb1)
      else
        let cb1 = cb\<lparr> failureCount := 0 \<rparr>
        in (UserData key, if cb_state cb1 = HALF_OPEN then cb1\<lparr> cb_state := CLOSED \<rparr> else cb1))"

definition queryWithCircuitBreaker :: "go_time \<Rightarrow> go_time \<Rightarrow> bool \<Rightarrow> string \<Rightarrow> breaker \<Rightarrow> breaker_answer \<times> breaker" where
  "queryWithCircuitBreaker now now2 fails key cb =
     (if cb_state cb = OPEN then
        (if now - lastFailTime cb > cb_timeout cb then attempt now2 fails key (cb\<lparr> cb_state := HALF_OPEN \<rparr>)
         else (DefaultData, cb))
      else attempt now2 fails key cb)"

section \<open>Penetration\<close>

record bloom_filter =
  bitArray :: "bool list"
  bf_size :: nat
  hashFuncs :: int

definition NewBloomFilter :: "nat \<Rightarrow> int \<Rightarrow> bloom_filter" where
  "NewBloomFilter sz n = \<lparr> bitArray = replicate sz False, bf_size = sz, hashFuncs = n \<rparr>"

text \<open>A division by zero panics.\<close>

definition bf_hash :: "string \<Rightarrow> nat \<Rightarrow> bloom_filter \<Rightarrow> nat option" where
  "bf_hash item seed bf =
     (if bf_size bf = 0 then None else Some (unat (fnv32a (bytes (item @ Itoa seed))) mod bf_size bf))"

definition add_bit :: "string \<Rightarrow> nat \<Rightarrow> bloom_filter \<Rightarrow> bloom_filter option" where
  "add_bit item i bf = do {
     h \<leftarrow> bf_hash item i bf;
     (if h < length (bitArray bf) then Some (bf\<lparr> bitArray := (bitArray bf)[h := True] \<rparr>) else None)
   }"

definition bf_Add :: "string \<Rightarrow> bloom_filter \<Rightarrow> bloom_filter option" where
  "bf_Add item bf = foldM (add_bit item) [0..<nat (hashFuncs bf)] bf"

fun contain_loop :: "string \<Rightarrow> bloom_filter \<Rightarrow> nat list \<Rightarrow> bool option" where
  "contain_loop item bf [] = Some True"
| "contain_loop item bf (i # is) = do {
     h \<leftarrow> bf_hash item i bf;
     (if h < length (bitArray bf) then (if \<not> bitArray bf ! h then Some False else contain_loop item bf is) else None)
   }"

definition MightContain :: "string \<Rightarrow> bloom_filter \<Rightarrow> bool option" where
  "MightContain item bf = contain_loop item bf [0..<nat (hashFuncs bf)]"

record stats_db =
  sd_data :: "string \<rightharpoonup> string"
  sd_queryCount :: int
  invalidQueries :: int

definition sd_New :: stats_db where
  "sd_New = \<lparr> sd_data = user_data, sd_queryCount = 0, invalidQueries = 0 \<rparr>"

definition sd_Query :: "string \<Rightarrow> stats_db \<Rightarrow> string option \<times> stats_db" where
  "sd_Query key db =
     (let db1 = db\<lparr> sd_queryCount := sd_queryCount db + 1 \<rparr>
      in case sd_data db1 key of
           None \<Rightarrow> (None, db1\<lparr> invalidQueries := invalidQueries db1 + 1 \<rparr>)
         | Some v \<Rightarrow> (Some v, db1))"

definition sd_GetStats :: "stats_db \<Rightarrow> int \<times> int" where
  "sd_GetStats db = (sd_queryCount db, invalidQueries db)"

definition sd_ResetStats :: "stats_db \<Rightarrow> stats_db" where
  "sd_ResetStats db = db\<lparr> sd_queryCount := 0, invalidQueries := 0 \<rparr>"

record null_item =
  ni_Value :: string
  IsNull :: bool
  ni_ExpiresAt :: go_time

record null_cache =
  nc_data :: "string \<rightharpoonup> null_item"

definition nc_New :: null_cache where
  "nc_New = \<lparr> nc_data = Map.empty \<rparr>"

text \<open>The answer: the value, whether the key exists, whether it is a null value.\<close>

definition nc_Get :: "go_time \<Rightarrow> string \<Rightarrow> null_cache \<Rightarrow> string \<times> bool \<times> bool" where
  "nc_Get now key c =
     (case nc_data c key of
        None \<Rightarrow> ([], False, False)
      | Some item \<Rightarrow>
          if now > ni_ExpiresAt item then ([], False, False)
          else if IsNull item then ([], True, True)
          else (ni_Value item, True, False))"

definition nc_Set :: "go_time \<Rightarrow> string \<Rightarrow> string \<Rightarrow> duration \<Rightarrow> null_cache \<Rightarrow> null_cache" where
  "nc_Set now key v ttl c =
     c\<lparr> nc_data := (nc_data c)(key \<mapsto> \<lparr> ni_Value = v, IsNull = False, ni_ExpiresAt = now + ttl \<rparr>) \<rparr>"

definition SetNull :: "go_time \<Rightarrow> string \<Rightarrow> duration \<Rightarrow> null_cache \<Rightarrow> null_cache" where
  "SetNull now key ttl c =
     c\<lparr> nc_data := (nc_data c)(key \<mapsto> \<lparr> ni_Value = [], IsNull = True, ni_ExpiresAt = now + ttl \<rparr>) \<rparr>"

text \<open>The two query functions of the demonstrations; \<open>None\<close> as the answer is the error "no such data".\<close>

definition queryWithNullCache ::
  "go_time \<Rightarrow> go_time \<Rightarrow> string \<Rightarrow> null_cache \<times> stats_db \<Rightarrow> string option \<times> null_cache \<times> stats_db" where
  "queryWithNullCache now now2 key = (\<lambda>(cache, db).
     (case nc_Get now key cache of
        (v, True, isNull) \<Rightarrow> (if isNull then (None, cache, db) else (Some v, cache, db))
      | (_, False, _) \<Rightarrow>
            (case sd_Query key db of
               (Some v, db1) \<Rightarrow> (Some v, nc_Set now2 key v (60 * second) cache, db1)
             | (None, db1) \<Rightarrow> (None, SetNull now2 key (30 * second) cache, db1))))"

definition queryWithBloomFilter ::
  "bloom_filter \<Rightarrow> go_time \<Rightarrow> go_time \<Rightarrow> string \<Rightarrow> null_cache \<times> stats_db \<Rightarrow> (string option \<times> null_cache \<times> stats_db) option" where
  "queryWithBloomFilter bf now now2 key = (\<lambda>(cache, db). do {
     may \<leftarrow> MightContain key bf;
     Some (if \<not> may then (None, cache, db)
       else (case nc_Get now key cache of
          (v, True, isNull) \<Rightarrow> (if isNull then (None, cache, db) else (Some v, cache, db))
        | (_, False, _) \<Rightarrow>
              (case sd_Query key db of
                 (Some v, db1) \<Rightarrow> (Some v, nc_Set now2 key v (60 * second) cache, db1)
               | (None, db1) \<Rightarrow> (None, SetNull now2 key (10 * second) cache, db1))))
   })"

section \<open>Breakdown\<close>

record hot_stats =
  accessCount :: int
  hs_lastAccess :: go_time

definition Access :: "go_time \<Rightarrow> hot_stats \<Rightarrow> hot_stats" where
  "Access now h = h\<lparr> accessCount := accessCount h + 1, hs_lastAccess := now \<rparr>"

definition GetCount :: "hot_stats \<Rightarrow> int" where
  "GetCount h = accessCount h"

record slow_db =
  sl_data :: "string \<rightharpoonup> string"
  sl_queryCount :: int
  rebuildTime :: duration

text \<open>The two initial values are Chinese texts, given by their UTF-8 bytes.\<close>

definition hot_user :: string where
  "hot_user = map char_of [0xE8, 0xB6, 0x85, 0xE7, 0xBA, 0xA7, 0xE6, 0x98, 0x8E, 0xE6, 0x98, 0x9F, 0xE7, 0x94, 0xA8, 0xE6, 0x88, 0xB7, 0xE6, 0x95, 0xB0, 0xE6, 0x8D, 0xAE :: nat]"

definition hot_product :: string where
  "hot_product = map char_of [0xE7, 0x88, 0x86, 0xE6, 0xAC, 0xBE, 0xE5, 0x95, 0x86, 0xE5, 0x93, 0x81, 0xE6, 0x95, 0xB0, 0xE6, 0x8D, 0xAE :: nat]"

definition sl_New :: slow_db where
  "sl_New =
     \<lparr> sl_data = [''hot_user:1'' \<mapsto> hot_user, ''hot_product:1'' \<mapsto> hot_product], sl_queryCount = 0, rebuildTime = 200 * 10 ^ 6 \<rparr>"

definition sl_Query :: "string \<Rightarrow> slow_db \<Rightarrow> string option \<times> slow_db" where
  "sl_Query key db = (sl_data db key, db\<lparr> sl_queryCount := sl_queryCount db + 1 \<rparr>)"

definition sl_GetQueryCount :: "slow_db \<Rightarrow> int" where
  "sl_GetQueryCount db = sl_queryCount db"

definition sl_ResetQueryCount :: "slow_db \<Rightarrow> slow_db" where
  "sl_ResetQueryCount db = db\<lparr> sl_queryCount := 0 \<rparr>"

record vulnerable_cache =
  vc_data :: "string \<rightharpoonup> string ttl_item"

definition vc_New :: vulnerable_cache where
  "vc_New = \<lparr> vc_data = Map.empty \<rparr>"

definition vc_Get :: "go_time \<Rightarrow> string \<Rightarrow> vulnerable_cache \<Rightarrow> string option" where
  "vc_Get now key c = live now (vc_data c key)"

definition vc_Set :: "go_time \<Rightarrow> string \<Rightarrow> string \<Rightarrow> duration \<Rightarrow> vulnerable_cache \<Rightarrow> vulnerable_cache" where
  "vc_Set now key v ttl c = c\<lparr> vc_data := put_item now key v ttl (vc_data c) \<rparr>"

definition vc_Delete :: "string \<Rightarrow> vulnerable_cache \<Rightarrow> vulnerable_cache" where
  "vc_Delete key c = c\<lparr> vc_data := (vc_data c)(key := None) \<rparr>"

record logical_item =
  lg_Value :: string
  LogicalExp :: go_time
  Updating :: bool

record never_expire =
  ne_data :: "string \<rightharpoonup> logical_item"

definition ne_New :: never_expire where
  "ne_New = \<lparr> ne_data = Map.empty \<rparr>"

text \<open>The answer: the value, whether the key exists, whether it is logically expired.\<close>

definition ne_Get :: "go_time \<Rightarrow> string \<Rightarrow> never_expire \<Rightarrow> string \<times> bool \<times> bool" where
  "ne_Get now key c =
     (case ne_data c key of None \<Rightarrow> ([], False, False) | Some item \<Rightarrow> (lg_Value item, True, now > LogicalExp item))"

definition ne_Set :: "go_time \<Rightarrow> string \<Rightarrow> string \<Rightarrow> duration \<Rightarrow> never_expire \<Rightarrow> never_expire" where
  "ne_Set now key v logicalTTL c =
     c\<lparr> ne_data := (ne_data c)(key \<mapsto> \<lparr> lg_Value = v, LogicalExp = now + logicalTTL, Updating = False \<rparr>) \<rparr>"

definition SetUpdating :: "string \<Rightarrow> bool \<Rightarrow> never_expire \<Rightarrow> never_expire" where
  "SetUpdating key b c =
     (case ne_data c key of None \<Rightarrow> c | Some item \<Rightarrow> c\<lparr> ne_data := (ne_data c)(key \<mapsto> item\<lparr> Updating := b \<rparr>) \<rparr>)"

definition IsUpdating :: "string \<Rightarrow> never_expire \<Rightarrow> bool" where
  "IsUpdating key c = (case ne_data c key of None \<Rightarrow> False | Some item \<Rightarrow> Updating item)"

section \<open>The caches with expiry keep the contract\<close>

interpretation simple: ttl_store sc_Get sc_Set
  by unfold_locales (simp add: sc_Get_def sc_Set_def live_put)

interpretation vulnerable: ttl_store vc_Get vc_Set
  by unfold_locales (simp add: vc_Get_def vc_Set_def live_put)

text \<open>With a null value as \<open>None\<close>, the cache of null values is one as well.\<close>

definition nc_look :: "go_time \<Rightarrow> string \<Rightarrow> null_cache \<Rightarrow> string option option" where
  "nc_look now key c = (case nc_Get now key c of (v, present, isNull) \<Rightarrow> if present then Some (if isNull then None else Some v) else None)"

definition nc_put :: "go_time \<Rightarrow> string \<Rightarrow> string option \<Rightarrow> duration \<Rightarrow> null_cache \<Rightarrow> null_cache" where
  "nc_put now key v ttl c = (case v of None \<Rightarrow> SetNull now key ttl c | Some x \<Rightarrow> nc_Set now key x ttl c)"

interpretation null_values: ttl_store nc_look nc_put
  by unfold_locales (auto simp: nc_look_def nc_put_def nc_Get_def nc_Set_def SetNull_def split: option.splits)

end
