(* ===== verification/Problems_Props.thy ===== *)
theory Problems_Props
  imports Problems
begin

text \<open>
  What the remedies of \<open>tutorial/03-problems\<close> give: the Bloom filter answers exactly by the slots of the added items,
  the random time to live spreads the expiries, the circuit breaker implements a count of consecutive failures, and a
  cached null value keeps the queries for a missing key away from the database.
\<close>

section \<open>The Bloom filter\<close>

definition slot :: "nat \<Rightarrow> string \<Rightarrow> nat \<Rightarrow> nat" where
  "slot sz item i = unat (fnv32a (bytes (item @ Itoa i))) mod sz"

definition slots :: "nat \<Rightarrow> nat \<Rightarrow> string \<Rightarrow> nat set" where
  "slots sz n item = slot sz item ` {..<n}"

definition bloom_of :: "nat \<Rightarrow> int \<Rightarrow> nat set \<Rightarrow> bloom_filter \<Rightarrow> bool" where
  "bloom_of sz n B bf \<longleftrightarrow>
     bf_size bf = sz \<and> hashFuncs bf = n \<and> length (bitArray bf) = sz \<and> (\<forall>p < sz. bitArray bf ! p \<longleftrightarrow> p \<in> B)"

lemma bloom_new: "bloom_of sz n {} (NewBloomFilter sz n)"
  by (simp add: bloom_of_def NewBloomFilter_def)

lemma bloom_add_bit:
  assumes "bloom_of sz n B bf" "0 < sz"
  shows "\<exists>bf'. add_bit item i bf = Some bf' \<and> bloom_of sz n (insert (slot sz item i) B) bf'"
proof -
  have h: "bf_hash item i bf = Some (slot sz item i)" "slot sz item i < sz"
    using assms by (auto simp: bf_hash_def slot_def bloom_of_def)
  have "bloom_of sz n (insert (slot sz item i) B) (bf\<lparr> bitArray := (bitArray bf)[slot sz item i := True] \<rparr>)"
    using assms h(2) by (auto simp: bloom_of_def nth_list_update)
  then show ?thesis using h assms(1) by (simp add: add_bit_def bloom_of_def)
qed

lemma bloom_add_bits:
  assumes "bloom_of sz n B bf" "0 < sz"
  shows "\<exists>bf'. foldM (add_bit item) is bf = Some bf' \<and> bloom_of sz n (B \<union> slot sz item ` set is) bf'"
  using assms(1)
proof (induction "is" arbitrary: B bf)
  case (Cons i "is")
  obtain bf1 where bf1: "add_bit item i bf = Some bf1" "bloom_of sz n (insert (slot sz item i) B) bf1"
    using bloom_add_bit [OF Cons.prems assms(2)] by blast
  then show ?case using Cons.IH [OF bf1(2)] by (auto simp: Un_commute)
qed simp

lemma bloom_add:
  assumes "bloom_of sz n B bf" "0 < sz"
  shows "\<exists>bf'. bf_Add item bf = Some bf' \<and> bloom_of sz n (B \<union> slots sz (nat n) item) bf'"
proof -
  have "hashFuncs bf = n" using assms(1) by (simp add: bloom_of_def)
  then show ?thesis using bloom_add_bits [OF assms, of item "[0..<nat n]"] by (simp add: bf_Add_def slots_def lessThan_atLeast0)
qed

lemma bloom_adds:
  assumes "0 < sz" "bloom_of sz n B bf"
  shows "\<exists>bf'. foldM bf_Add items bf = Some bf' \<and> bloom_of sz n (B \<union> (\<Union>y \<in> set items. slots sz (nat n) y)) bf'"
  using assms(2)
proof (induction items arbitrary: B bf)
  case (Cons y items)
  obtain bf1 where bf1: "bf_Add y bf = Some bf1" "bloom_of sz n (B \<union> slots sz (nat n) y) bf1"
    using bloom_add [OF Cons.prems assms(1)] by blast
  then show ?case using Cons.IH [OF bf1(2)] by (auto simp: Un_assoc)
qed simp

lemma bloom_contains:
  assumes "bloom_of sz n B bf" "0 < sz"
  shows "contain_loop item bf is = Some (\<forall>i \<in> set is. slot sz item i \<in> B)"
proof (induction "is")
  case (Cons i "is")
  have "bf_hash item i bf = Some (slot sz item i)" "slot sz item i < sz"
    using assms by (auto simp: bf_hash_def slot_def bloom_of_def)
  then show ?case using Cons assms(1) by (auto simp: bloom_of_def)
qed simp

lemma bloom_might:
  assumes "bloom_of sz n B bf" "0 < sz"
  shows "MightContain item bf = Some (slots sz (nat n) item \<subseteq> B)"
proof -
  have "hashFuncs bf = n" using assms(1) by (simp add: bloom_of_def)
  then show ?thesis using bloom_contains [OF assms, of item "[0..<nat n]"] by (auto simp: MightContain_def slots_def)
qed

lemma bloom_answers:
  assumes "0 < sz"
  shows "\<exists>bf. foldM bf_Add items (NewBloomFilter sz n) = Some bf \<and>
    (\<forall>x. MightContain x bf = Some (slots sz (nat n) x \<subseteq> (\<Union>y \<in> set items. slots sz (nat n) y))) \<and>
    (\<forall>x \<in> set items. MightContain x bf = Some True)"
proof -
  obtain bf where bf: "foldM bf_Add items (NewBloomFilter sz n) = Some bf"
      "bloom_of sz n (\<Union>y \<in> set items. slots sz (nat n) y) bf"
    using bloom_adds [where n = n and items = items, OF assms bloom_new] by auto
  then show ?thesis using bloom_might [OF bf(2) assms] by auto
qed

text \<open>A Bloom filter of a positive size takes any items, answers yes exactly when every slot of the asked item is
  a slot of some added item, hence for every added item, and one of size zero panics on the first item.\<close>

theorem bloom_filter_answers:
  assumes "0 < sz"
  shows "\<exists>bf. foldM bf_Add items (NewBloomFilter sz n) = Some bf \<and>
    (\<forall>x. MightContain x bf = Some (slots sz (nat n) x \<subseteq> (\<Union>y \<in> set items. slots sz (nat n) y))) \<and>
    (\<forall>x \<in> set items. MightContain x bf = Some True) \<and>
    (0 < n \<longrightarrow> bf_Add x (NewBloomFilter 0 n) = None)"
proof -
  have "bf_Add x (NewBloomFilter 0 n) = None" if "0 < n"
    using that by (simp add: bf_Add_def NewBloomFilter_def upt_conv_Cons add_bit_def bf_hash_def)
  then show ?thesis using bloom_answers [OF assms, of items n] by auto
qed

theorem bloom_filter_answers_witness:
  "\<exists>bf. foldM bf_Add [''user:1'', ''user:2''] (NewBloomFilter 10 3) = Some bf \<and> MightContain ''user:2'' bf = Some True \<and>
    bf_Add ''user:1'' (NewBloomFilter 0 3) = None"
  using bloom_filter_answers [where sz = 10 and n = 3 and items = "[''user:1'', ''user:2'']" and x = "''user:1''"] by auto

section \<open>The random time to live\<close>

lemma aa_offset:
  assumes "rand_Intn r (sgn b * (\<bar>b\<bar> div (2 * second))) = Some n" "b = (base :: int)"
  shows "2 * second \<le> base \<and> 0 \<le> n \<and> 2 * (n * second) < base"
proof -
  let ?q = "sgn base * (\<bar>base\<bar> div (2 * second))"
  have q: "0 < ?q" "n = int r mod ?q" using assms by (auto simp: rand_Intn_def split: if_splits)
  then have pos: "0 < base" by (cases base "0 :: int" rule: linorder_cases) (auto simp: sgn_if mult_less_0_iff pos_imp_zdiv_neg_iff)
  then have "?q = base div (2 * second)" by (simp add: sgn_if)
  then have d: "0 < base div (2 * second)" "n = int r mod (base div (2 * second))" using q by simp_all
  have n: "0 \<le> n" "n + 1 \<le> base div (2 * second)"
    using pos_mod_bound [OF d(1), of "int r"] pos_mod_sign [OF d(1), of "int r"] unfolding d(2) by linarith+
  have le: "base div (2 * second) * (2 * second) \<le> base" using div_mult_mod_eq [of base "2 * second"] by simp
  have "m * (2 * second) \<le> base" if "m \<le> base div (2 * second)" for m
    using mult_right_mono [OF that, of "2 * second"] le by simp
  from this [of 1] this [OF n(2)] show ?thesis using n d(1) by (simp add: algebra_simps)
qed

text \<open>The random time to live: a write panics exactly when the base is shorter than two seconds; otherwise its value
  is seen for at least the base and for less than half as long again, and the other keys are untouched.\<close>

theorem random_ttl_spread:
  "(aa_Set r now key v base c = None \<longleftrightarrow> base < 2 * second) \<and>
   (\<forall>c'. aa_Set r now key v base c = Some c' \<longrightarrow>
      (\<forall>t \<le> now + base. aa_Get t key c' = Some v) \<and> (\<forall>t. 2 * (t - now) \<ge> 3 * base \<longrightarrow> aa_Get t key c' = None) \<and>
      (\<forall>k t. k \<noteq> key \<longrightarrow> aa_Get t k c' = aa_Get t k c))"
proof (intro conjI allI impI)
  let ?q = "sgn base * (\<bar>base\<bar> div (2 * second))"
  have "rand_Intn r ?q = None \<longleftrightarrow> ?q \<le> 0" by (simp add: rand_Intn_def)
  also have "\<dots> \<longleftrightarrow> base < 2 * second" by (cases base "0 :: int" rule: linorder_cases) (auto simp: sgn_if pos_imp_zdiv_nonneg_iff)
  finally show "aa_Set r now key v base c = None \<longleftrightarrow> base < 2 * second"
    by (auto simp: aa_Set_def Let_def split: bind_splits)
next
  fix c'
  assume "aa_Set r now key v base c = Some c'"
  then obtain n where n: "rand_Intn r (sgn base * (\<bar>base\<bar> div (2 * second))) = Some n"
      "c' = c\<lparr> aa_data := put_item now key v (base + n * second) (aa_data c) \<rparr>"
    by (auto simp: aa_Set_def Let_def split: bind_splits)
  have off: "0 \<le> n" "2 * (n * second) < base" using aa_offset [OF n(1)] by simp_all
  have get: "aa_Get t k c' = (if k = key then (if t \<le> now + (base + n * second) then Some v else None) else aa_Get t k c)" for t k
    by (simp add: aa_Get_def n(2) live_put)
  show "aa_Get t key c' = Some v" if "t \<le> now + base" for t using that off by (simp add: get)
  show "aa_Get t key c' = None" if "2 * (t - now) \<ge> 3 * base" for t using that off by (simp add: get)
  show "aa_Get t k c' = aa_Get t k c" if "k \<noteq> key" for k t using that by (simp add: get)
qed

theorem random_ttl_spread_witness:
  "\<exists>c'. aa_Set 1 0 ''k'' ''v'' (4 * second) aa_New = Some c' \<and> aa_Get (4 * second) ''k'' c' = Some ''v'' \<and>
    aa_Get (6 * second) ''k'' c' = None"
proof -
  note spread = random_ttl_spread [of 1 0 "''k''" "''v''" "4 * second" aa_New]
  have "aa_Set 1 0 ''k'' ''v'' (4 * second) aa_New \<noteq> None" using spread by simp
  then obtain c' where c': "aa_Set 1 0 ''k'' ''v'' (4 * second) aa_New = Some c'" by blast
  have "\<forall>t \<le> 0 + 4 * second. aa_Get t ''k'' c' = Some ''v''"
    "\<forall>t. 2 * (t - 0) \<ge> 3 * (4 * second) \<longrightarrow> aa_Get t ''k'' c' = None" using spread c' by blast+
  then show ?thesis using c' by simp
qed

section \<open>The circuit breaker\<close>

text \<open>A call: the two readings of the clock, whether the query fails, and the key.\<close>

type_synonym call = "go_time \<times> go_time \<times> bool \<times> string"

fun breaker_run :: "call list \<Rightarrow> breaker \<Rightarrow> breaker_answer list" where
  "breaker_run [] cb = []"
| "breaker_run ((now, now2, fails, key) # cs) cb =
     (case queryWithCircuitBreaker now now2 fails key cb of (a, cb') \<Rightarrow> a # breaker_run cs cb')"

text \<open>The abstract breaker counts the failures since the last success; from three on it rests five seconds after each.\<close>

fun breaker_spec :: "call list \<Rightarrow> nat \<Rightarrow> go_time \<Rightarrow> breaker_answer list" where
  "breaker_spec [] n t = []"
| "breaker_spec ((now, now2, fails, key) # cs) n t =
     (if 3 \<le> n \<and> now \<le> t + 5 * second then DefaultData # breaker_spec cs n t
      else if fails then QueryFailed # breaker_spec cs (n + 1) now2
      else UserData key # breaker_spec cs 0 t)"

definition breaker_rel :: "nat \<Rightarrow> go_time \<Rightarrow> breaker \<Rightarrow> bool" where
  "breaker_rel n t cb \<longleftrightarrow>
     failureCount cb = int n \<and> failureThreshold cb = 3 \<and> cb_timeout cb = 5 * second \<and> lastFailTime cb = t \<and>
     cb_state cb = (if 3 \<le> n then OPEN else CLOSED)"

lemma breaker_simulates:
  assumes "breaker_rel n t cb"
  shows "breaker_run cs cb = breaker_spec cs n t"
  using assms
proof (induction cs arbitrary: n t cb)
  case (Cons c cs)
  obtain now now2 fails key where c: "c = (now, now2, fails, key)" by (cases c)
  let ?q = "queryWithCircuitBreaker now now2 fails key cb"
  consider (rest) "3 \<le> n" "now \<le> t + 5 * second" | (fail) "\<not> (3 \<le> n \<and> now \<le> t + 5 * second)" fails
    | (good) "\<not> (3 \<le> n \<and> now \<le> t + 5 * second)" "\<not> fails" by blast
  then show ?case
  proof cases
    case rest
    then have "?q = (DefaultData, cb)" using Cons.prems by (simp add: queryWithCircuitBreaker_def breaker_rel_def)
    then show ?thesis using rest Cons.IH [OF Cons.prems] by (simp add: c)
  next
    case fail
    then have "\<exists>cb'. ?q = (QueryFailed, cb') \<and> breaker_rel (n + 1) now2 cb'"
      using Cons.prems by (auto simp: queryWithCircuitBreaker_def breaker_rel_def attempt_def Let_def)
    then show ?thesis using fail Cons.IH by (auto simp: c)
  next
    case good
    then have "\<exists>cb'. ?q = (UserData key, cb') \<and> breaker_rel 0 t cb'"
      using Cons.prems by (auto simp: queryWithCircuitBreaker_def breaker_rel_def attempt_def Let_def)
    then show ?thesis using good Cons.IH by (auto simp: c)
  qed
qed simp

text \<open>C39: the circuit breaker with its three states answers every sequence of calls like the abstract breaker that counts
  consecutive failures: default data within five seconds of the last failure once there are three, a real query otherwise.\<close>

theorem circuit_breaker_refines: "breaker_run cs new_breaker = breaker_spec cs 0 0"
  by (rule breaker_simulates) (simp add: breaker_rel_def new_breaker_def)

section \<open>Null values\<close>

fun null_run :: "string \<Rightarrow> (go_time \<times> go_time) list \<Rightarrow> null_cache \<times> stats_db \<Rightarrow> string option list \<times> null_cache \<times> stats_db" where
  "null_run key [] s = ([], s)"
| "null_run key ((now, now2) # ts) s =
     (case queryWithNullCache now now2 key s of (r, s1) \<Rightarrow> case null_run key ts s1 of (rs, s2) \<Rightarrow> (r # rs, s2))"

lemma null_run_hit:
  assumes "\<forall>now \<in> fst ` set ts. nc_look now key c = Some r"
  shows "null_run key ts (c, db) = (replicate (length ts) r, c, db)"
  using assms
proof (induction ts)
  case (Cons t ts)
  obtain now now2 where t: "t = (now, now2)" by (cases t)
  have "nc_look now key c = Some r" using Cons.prems t by simp
  then have "queryWithNullCache now now2 key (c, db) = (r, c, db)"
    by (auto simp: nc_look_def queryWithNullCache_def split: prod.splits if_splits)
  then show ?case using Cons t by simp
qed simp

text \<open>A query that misses the cache asks the database once, and for the next thirty seconds any number of queries for
  the same key, whether it exists or not, get the same answer without reaching the database.\<close>

theorem null_values_shield:
  assumes "nc_look now key c = None" "\<forall>t \<in> fst ` set ts. t \<le> now2 + 30 * second"
  shows "\<exists>c'. null_run key ((now, now2) # ts) (c, db) = (replicate (Suc (length ts)) (sd_data db key), c', snd (sd_Query key db)) \<and>
    sd_queryCount (snd (sd_Query key db)) = sd_queryCount db + 1"
proof -
  have miss: "nc_Get now key c = ([], False, False)"
    using assms(1) by (auto simp: nc_look_def nc_Get_def split: option.splits if_splits)
  define c' where "c' = (case sd_data db key of Some v \<Rightarrow> nc_Set now2 key v (60 * second) c | None \<Rightarrow> SetNull now2 key (30 * second) c)"
  have first: "queryWithNullCache now now2 key (c, db) = (sd_data db key, c', snd (sd_Query key db))"
    by (simp add: queryWithNullCache_def miss c'_def sd_Query_def Let_def split: option.splits)
  have "c' = nc_put now2 key (sd_data db key) (case sd_data db key of Some v \<Rightarrow> 60 * second | None \<Rightarrow> 30 * second) c"
    by (simp add: c'_def nc_put_def split: option.splits)
  then have "\<forall>t \<in> fst ` set ts. nc_look t key c' = Some (sd_data db key)"
    using assms(2) by (auto simp: null_values.look_put split: option.splits)
  then have "null_run key ts (c', snd (sd_Query key db)) = (replicate (length ts) (sd_data db key), c', snd (sd_Query key db))"
    by (rule null_run_hit)
  then show ?thesis by (simp add: first) (simp add: sd_Query_def Let_def split: option.splits)
qed

theorem null_values_shield_witness:
  "\<exists>c' db'. null_run ''ghost'' [(0, 1), (2, 3), (4, 5)] (nc_New, sd_New) = ([None, None, None], c', db') \<and> sd_queryCount db' = 1"
proof -
  have "user_data ''ghost'' = None"
    by (auto simp: user_data_def map_of_eq_None_iff user_key_def image_iff)
  then have db: "sd_data sd_New ''ghost'' = None" "sd_queryCount sd_New = 0" by (simp_all add: sd_New_def)
  show ?thesis
    using null_values_shield [of 0 "''ghost''" nc_New "[(2, 3), (4, 5)]" 1 sd_New] db
    by (auto simp: nc_look_def nc_Get_def nc_New_def)
qed

end
