(* ===== verification/Stampede.thy ===== *)
theory Stampede
  imports Problems
begin

text \<open>
  The goroutines of \<open>DemoAvalancheProblem\<close> (\<open>tutorial/03-problems/avalanche.go\<close>) and \<open>DemoBreakdownProblem\<close>
  (\<open>breakdown.go\<close>): each looks a key up in a cache and, when it misses, queries the database and writes the value back.
  A schedule is a list of turns, each with the number of the goroutine that takes its next step (one call of a method of
  the cache or of the database) and the reading of the clock in it. When the schedule ends the goroutines finish one after the
  other: \<open>wg.Wait\<close> returns when all are done. Printing, sleeping and the elapsed times are not modelled.
\<close>

section \<open>The goroutines\<close>

text \<open>How a goroutine ends: with a hit, with the entry rebuilt, or without data.\<close>

datatype race_end = Hit | Rebuilt | Absent

datatype racer = R_Get string | R_Query string | R_Set string string | R_End string race_end

fun race_move ::
  "(go_time \<Rightarrow> string \<Rightarrow> 'c \<Rightarrow> string option) \<Rightarrow> (go_time \<Rightarrow> string \<Rightarrow> string \<Rightarrow> duration \<Rightarrow> 'c \<Rightarrow> 'c) \<Rightarrow>
   (string \<Rightarrow> 'd \<Rightarrow> string option \<times> 'd) \<Rightarrow> duration \<Rightarrow> go_time \<Rightarrow> racer \<Rightarrow> 'c \<Rightarrow> 'd \<Rightarrow> racer \<times> 'c \<times> 'd" where
  "race_move look put query ttl now (R_Get key) cache db =
     (case look now key cache of Some v \<Rightarrow> (R_End key Hit, cache, db) | None \<Rightarrow> (R_Query key, cache, db))"
| "race_move look put query ttl now (R_Query key) cache db =
     (case query key db of
        (Some v, db1) \<Rightarrow> (R_Set key v, cache, db1)
      | (None, db1) \<Rightarrow> (R_End key Absent, cache, db1))"
| "race_move look put query ttl now (R_Set key v) cache db = (R_End key Rebuilt, put now key v ttl cache, db)"
| "race_move look put query ttl now (R_End key r) cache db = (R_End key r, cache, db)"

type_synonym ('c, 'd) race = "'c \<times> 'd \<times> racer list"

definition race_turn ::
  "(go_time \<Rightarrow> string \<Rightarrow> 'c \<Rightarrow> string option) \<Rightarrow> (go_time \<Rightarrow> string \<Rightarrow> string \<Rightarrow> duration \<Rightarrow> 'c \<Rightarrow> 'c) \<Rightarrow>
   (string \<Rightarrow> 'd \<Rightarrow> string option \<times> 'd) \<Rightarrow> duration \<Rightarrow> nat \<times> go_time \<Rightarrow> ('c, 'd) race \<Rightarrow> ('c, 'd) race" where
  "race_turn look put query ttl = (\<lambda>(i, now) (cache, db, gs).
     if i < length gs
     then (case race_move look put query ttl now (gs ! i) cache db of (g, cache1, db1) \<Rightarrow> (cache1, db1, gs[i := g]))
     else (cache, db, gs))"

text \<open>After the schedule every goroutine gets the turns it may still need, at the time \<open>late\<close>.\<close>

definition last_turns :: "go_time \<Rightarrow> nat \<Rightarrow> (nat \<times> go_time) list" where
  "last_turns late n = concat (map (\<lambda>i. replicate 3 (i, late)) [0..<n])"

definition race ::
  "(go_time \<Rightarrow> string \<Rightarrow> 'c \<Rightarrow> string option) \<Rightarrow> (go_time \<Rightarrow> string \<Rightarrow> string \<Rightarrow> duration \<Rightarrow> 'c \<Rightarrow> 'c) \<Rightarrow>
   (string \<Rightarrow> 'd \<Rightarrow> string option \<times> 'd) \<Rightarrow> duration \<Rightarrow> (nat \<times> go_time) list \<Rightarrow> go_time \<Rightarrow> string list \<Rightarrow> 'c \<Rightarrow> 'd \<Rightarrow>
   ('c, 'd) race" where
  "race look put query ttl turns late keys cache db =
     fold (race_turn look put query ttl) (turns @ last_turns late (length keys)) (cache, db, map R_Get keys)"

section \<open>The two demonstrations\<close>

text \<open>
  The avalanche: ten entries written with one time to live, five look-ups, and after the expiry fifty goroutines.
  The result: the hits of the five look-ups, the number of queries during them, the number of queries of the goroutines.
\<close>

definition base_ttl :: duration where
  "base_ttl = 3 * second"

definition warm_users :: "(nat \<Rightarrow> go_time) \<Rightarrow> simple_cache \<Rightarrow> simple_cache" where
  "warm_users warm cache = fold (\<lambda>i. sc_Set (warm i) (user_key i) (user_value i) base_ttl) [1..<11] cache"

definition avalanche_keys :: "string list" where
  "avalanche_keys = map (\<lambda>i. user_key (i mod 10 + 1)) [0..<50]"

definition DemoAvalancheProblem ::
  "(nat \<Rightarrow> go_time) \<Rightarrow> (nat \<Rightarrow> go_time) \<Rightarrow> (nat \<times> go_time) list \<Rightarrow> go_time \<Rightarrow> int \<times> int \<times> int \<times> (simple_cache, query_db) race" where
  "DemoAvalancheProblem warm clk turns late =
     (let cache = warm_users warm sc_New;
          db = qd_ResetQueryCount qd_New;
          hits = length (filter (\<lambda>i. sc_Get (clk i) (user_key i) cache \<noteq> None) [1..<6]);
          normal = qd_GetQueryCount db;
          result = race sc_Get sc_Set qd_Query base_ttl turns late avalanche_keys cache (qd_ResetQueryCount db)
      in (int hits, normal, qd_GetQueryCount (fst (snd result)), result))"

text \<open>
  The breakdown: one hot entry with a time to live of three seconds, five accesses, and after the expiry twenty goroutines that
  ask for it. The result: the accesses that hit, as \<open>HotDataStats\<close> counts them, and the number of queries of the goroutines.
\<close>

definition hot_key :: string where
  "hot_key = ''hot_user:1''"

definition warm_hot :: "go_time \<Rightarrow> slow_db \<Rightarrow> vulnerable_cache \<Rightarrow> vulnerable_cache \<times> slow_db" where
  "warm_hot t0 db cache =
     (case sl_Query hot_key db of
        (Some v, db1) \<Rightarrow> (vc_Set t0 hot_key v (3 * second) cache, db1)
      | (None, db1) \<Rightarrow> (cache, db1))"

definition hot_access :: "vulnerable_cache \<Rightarrow> go_time \<times> go_time \<Rightarrow> hot_stats \<Rightarrow> hot_stats" where
  "hot_access cache = (\<lambda>(t, t') stats. if vc_Get t hot_key cache \<noteq> None then Access t' stats else stats)"

definition DemoBreakdownProblem ::
  "go_time \<Rightarrow> (nat \<Rightarrow> go_time \<times> go_time) \<Rightarrow> (nat \<times> go_time) list \<Rightarrow> go_time \<Rightarrow> int \<times> int \<times> (vulnerable_cache, slow_db) race" where
  "DemoBreakdownProblem t0 clk turns late =
     (case warm_hot t0 sl_New vc_New of (cache, db) \<Rightarrow>
      let stats = fold (hot_access cache) (map clk [0..<5]) \<lparr> accessCount = 0, hs_lastAccess = 0 \<rparr>;
          result = race vc_Get vc_Set sl_Query (60 * second) turns late (replicate 20 hot_key) cache (sl_ResetQueryCount db)
      in (GetCount stats, sl_GetQueryCount (fst (snd result)), result))"


section \<open>How often the database is asked\<close>

text \<open>What the goroutines rely on: the contract of the cache, and a database that counts its queries.\<close>

locale stampede = ttl_store look put
  for look :: "go_time \<Rightarrow> string \<Rightarrow> 'c \<Rightarrow> string option" and put :: "go_time \<Rightarrow> string \<Rightarrow> string \<Rightarrow> duration \<Rightarrow> 'c \<Rightarrow> 'c" +
  fixes query :: "string \<Rightarrow> 'd \<Rightarrow> string option \<times> 'd" and queries :: "'d \<Rightarrow> int"
  assumes query_counts: "queries (snd (query k db)) = queries db + 1"
    and query_again: "fst (query k' (snd (query k db))) = fst (query k' db)"

fun racer_key :: "racer \<Rightarrow> string" where
  "racer_key (R_Get k) = k"
| "racer_key (R_Query k) = k"
| "racer_key (R_Set k v) = k"
| "racer_key (R_End k r) = k"

text \<open>A goroutine that has queried the database, and one that need not any more.\<close>

fun asked :: "racer \<Rightarrow> bool" where
  "asked (R_Set k v) \<longleftrightarrow> True"
| "asked (R_End k r) \<longleftrightarrow> r \<noteq> Hit"
| "asked _ \<longleftrightarrow> False"

fun missed :: "racer \<Rightarrow> bool" where
  "missed (R_Get k) \<longleftrightarrow> False"
| "missed (R_End k r) \<longleftrightarrow> r \<noteq> Hit"
| "missed _ \<longleftrightarrow> True"

fun steps_left :: "racer \<Rightarrow> nat" where
  "steps_left (R_Get k) = 3"
| "steps_left (R_Query k) = 2"
| "steps_left (R_Set k v) = 1"
| "steps_left (R_End k r) = 0"

context stampede
begin

abbreviation turn :: "duration \<Rightarrow> nat \<times> go_time \<Rightarrow> ('c, 'd) race \<Rightarrow> ('c, 'd) race" where
  "turn \<equiv> race_turn look put query"

lemma race_turn_at:
  "i < length gs \<Longrightarrow> turn ttl (i, now) (cache, db, gs) =
     (case race_move look put query ttl now (gs ! i) cache db of (g, cache1, db1) \<Rightarrow> (cache1, db1, gs[i := g]))"
  by (simp add: race_turn_def)

lemma race_turn_none: "\<not> i < length gs \<Longrightarrow> turn ttl (i, now) (cache, db, gs) = (cache, db, gs)"
  by (simp add: race_turn_def)

text \<open>What one step does to the key, to the remaining steps and to the number of queries.\<close>

lemma move_facts:
  assumes "race_move look put query ttl now g cache db = (g1, cache1, db1)"
  shows "racer_key g1 = racer_key g" "steps_left g1 \<le> steps_left g - 1"
    "queries db1 = queries db + (if asked g1 then 1 else 0) - (if asked g then 1 else 0)"
  using assms query_counts [of "racer_key g" db]
  by (cases g; auto split: option.splits prod.splits)+

lemma turn_steps: "steps_left (snd (snd (turn ttl x r)) ! j) \<le> steps_left (snd (snd r) ! j) - (if fst x = j then 1 else 0) \<or> length (snd (snd r)) \<le> j"
proof (cases x; cases r)
  fix i now cache db gs
  assume x: "x = (i, now)" and r: "r = (cache, db, gs)"
  obtain g1 cache1 db1 where m: "race_move look put query ttl now (gs ! i) cache db = (g1, cache1, db1)" by (metis prod_cases3)
  show ?thesis
  proof (cases "i < length gs")
    case True
    show ?thesis using move_facts(2) [OF m] race_turn_at [OF True] m True by (cases "i = j") (simp_all add: x r)
  next
    case False
    then show ?thesis by (auto simp: x r race_turn_none)
  qed
qed

lemma turn_length [simp]: "length (snd (snd (turn ttl x r))) = length (snd (snd r))"
  by (cases x; cases r) (auto simp: race_turn_def split: prod.splits)

lemma turns_length [simp]: "length (snd (snd (fold (turn ttl) turns r))) = length (snd (snd r))"
  by (induction turns arbitrary: r) simp_all

lemma turns_steps:
  "j < length (snd (snd r)) \<Longrightarrow>
   steps_left (snd (snd (fold (turn ttl) turns r)) ! j) \<le> steps_left (snd (snd r) ! j) - length (filter (\<lambda>x. fst x = j) turns)"
proof (induction turns arbitrary: r)
  case (Cons x turns)
  show ?case
    using Cons.IH [of "turn ttl x r"] turn_steps [of ttl x r j] Cons.prems by auto
qed simp

lemma last_turns_three: "j < n \<Longrightarrow> length (filter (\<lambda>x. fst x = j) (last_turns late n)) = 3"
proof (induction n)
  case (Suc n)
  have *: "last_turns late (Suc n) = last_turns late n @ replicate 3 (n, late)" by (simp add: last_turns_def)
  have "filter (\<lambda>x. fst x = n) (last_turns late n) = []" by (auto simp: last_turns_def filter_empty_conv)
  then show ?case using Suc by (cases "j = n") (simp_all add: * filter_replicate)
qed simp

text \<open>When \<open>wg.Wait\<close> returns, every goroutine has ended.\<close>

lemma race_ends:
  assumes "race look put query ttl turns late keys cache db = (cache1, db1, gs)"
  shows "length gs = length keys" "\<forall>g \<in> set gs. steps_left g = 0"
proof -
  let ?r = "fold (turn ttl) turns (cache, db, map R_Get keys)"
  have e: "fold (turn ttl) (last_turns late (length keys)) ?r = (cache1, db1, gs)"
    using assms by (simp add: race_def)
  have "length gs = length (snd (snd (fold (turn ttl) (last_turns late (length keys)) ?r)))" unfolding e by simp
  then show l: "length gs = length keys" by simp
  have three: "steps_left g \<le> 3" for g by (cases g) simp_all
  have "steps_left (gs ! j) = 0" if "j < length gs" for j
    using turns_steps [of j ?r ttl "last_turns late (length keys)"] that three [of "snd (snd ?r) ! j"] l e last_turns_three [of j]
    by simp
  then show "\<forall>g \<in> set gs. steps_left g = 0" by (auto simp: in_set_conv_nth)
qed

end

text \<open>
  What holds at every point of a race that starts when no entry for a key is live: the queries are those of the goroutines that
  have asked, and a key that is found again, or was, has been rebuilt by one of them.
\<close>

definition race_ok ::
  "(go_time \<Rightarrow> string \<Rightarrow> 'c \<Rightarrow> string option) \<Rightarrow> ('d \<Rightarrow> int) \<Rightarrow> int \<Rightarrow> go_time \<Rightarrow> string list \<Rightarrow> ('c, 'd) race \<Rightarrow> bool" where
  "race_ok look queries n0 t1 keys = (\<lambda>(cache, db, gs).
     map racer_key gs = keys \<and> queries db = n0 + int (length (filter asked gs)) \<and>
     (\<forall>k \<in> set keys. (\<exists>t \<ge> t1. look t k cache \<noteq> None) \<or> R_End k Hit \<in> set gs \<longrightarrow> R_End k Rebuilt \<in> set gs))"

lemma length_filter_update:
  "i < length xs \<Longrightarrow> int (length (filter P (xs[i := y]))) =
     int (length (filter P xs)) + (if P y then 1 else 0) - (if P (xs ! i) then 1 else 0)"
proof -
  assume i: "i < length xs"
  then have "xs = take i xs @ xs ! i # drop (Suc i) xs" by (simp add: id_take_nth_drop)
  then have "filter P xs = filter P (take i xs) @ filter P [xs ! i] @ filter P (drop (Suc i) xs)"
    by (metis append_Cons append_Nil filter_append)
  then show ?thesis using i by (simp add: upd_conv_take_nth_drop)
qed

context stampede
begin

lemma ok_turn:
  assumes "race_ok look queries n0 t1 keys (cache, db, gs)" "t1 \<le> now"
  shows "race_ok look queries n0 t1 keys (turn ttl (i, now) (cache, db, gs))"
proof (cases "i < length gs")
  case True
  have keys: "map racer_key gs = keys" and count: "queries db = n0 + int (length (filter asked gs))"
    and found: "\<And>k. k \<in> set keys \<Longrightarrow> (\<exists>t \<ge> t1. look t k cache \<noteq> None) \<or> R_End k Hit \<in> set gs \<Longrightarrow> R_End k Rebuilt \<in> set gs"
    using assms(1) by (auto simp: race_ok_def)
  obtain g cache1 db1 where m: "race_move look put query ttl now (gs ! i) cache db = (g, cache1, db1)" by (metis prod_cases3)
  have key: "racer_key (gs ! i) \<in> set keys" using keys True by auto
  have stay: "R_End k r \<in> set (gs[i := g])" if "R_End k r \<in> set gs" for k r
  proof -
    obtain j where j: "j < length gs" "gs ! j = R_End k r" using \<open>R_End k r \<in> set gs\<close> by (auto simp: in_set_conv_nth)
    then have "gs[i := g] ! j = R_End k r" using m True by (cases "j = i") auto
    then show ?thesis using j(1) by (metis length_list_update nth_mem)
  qed
  have "R_End k Rebuilt \<in> set (gs[i := g])"
    if "k \<in> set keys" "(\<exists>t \<ge> t1. look t k cache1 \<noteq> None) \<or> R_End k Hit \<in> set (gs[i := g])" for k
  proof (cases "R_End k Rebuilt \<in> set gs")
    case False
    then have old: "\<not> ((\<exists>t \<ge> t1. look t k cache \<noteq> None) \<or> R_End k Hit \<in> set gs)" using found that(1) by blast
    then have "g = R_End k Hit \<or> (\<exists>t \<ge> t1. look t k cache1 \<noteq> None)"
      using that(2) set_update_subset_insert [of gs i g] by auto
    then show ?thesis
      using old m assms(2) True nth_mem [OF True] set_update_memI [OF True, of g]
      by (cases "gs ! i") (auto simp: look_put split: option.splits prod.splits if_splits)
  qed (rule stay)
  moreover have "map racer_key (gs[i := g]) = keys"
    using keys move_facts(1) [OF m] True by (metis list_update_id map_update nth_map)
  ultimately show ?thesis
    using True m count move_facts(3) [OF m] length_filter_update [OF True, of asked g]
    by (simp add: race_turn_at race_ok_def)
qed (use assms(1) in \<open>simp add: race_turn_none\<close>)

lemma ok_turns:
  assumes "race_ok look queries n0 t1 keys r" "\<forall>x \<in> set turns. t1 \<le> snd x"
  shows "race_ok look queries n0 t1 keys (fold (turn ttl) turns r)"
  using assms
proof (induction turns arbitrary: r)
  case (Cons x turns)
  then show ?case using ok_turn by (cases x; cases r) auto
qed simp

text \<open>However the goroutines interleave, every key is queried at least once and no goroutine queries twice.\<close>

lemma race_queries:
  assumes "race look put query ttl turns late keys cache db = (cache1, db1, gs)"
    and "\<forall>k \<in> set keys. \<forall>t \<ge> t1. look t k cache = None" "\<forall>x \<in> set turns. t1 \<le> snd x" "t1 \<le> late"
  shows "queries db + int (card (set keys)) \<le> queries db1" "queries db1 \<le> queries db + int (length keys)"
proof -
  have start: "race_ok look queries (queries db) t1 keys (cache, db, map R_Get keys)"
    using assms(2) by (auto simp: race_ok_def comp_def)
  have "\<forall>x \<in> set (turns @ last_turns late (length keys)). t1 \<le> snd x"
    using assms(3,4) by (auto simp: last_turns_def)
  from ok_turns [OF start this, of ttl] have ok: "race_ok look queries (queries db) t1 keys (cache1, db1, gs)"
    unfolding assms(1) [unfolded race_def] .
  then have keys: "map racer_key gs = keys" and count: "queries db1 = queries db + int (length (filter asked gs))"
    and hit: "\<And>k. R_End k Hit \<in> set gs \<Longrightarrow> k \<in> set keys \<Longrightarrow> R_End k Rebuilt \<in> set gs"
    by (auto simp: race_ok_def)
  have "k \<in> racer_key ` set (filter asked gs)" if k: "k \<in> set keys" for k
  proof -
    obtain g where g: "g \<in> set gs" "racer_key g = k" using k keys by auto
    have "steps_left g = 0" using race_ends(2) [OF assms(1)] g(1) by blast
    then obtain r where "g = R_End k r" using g(2) by (cases g) auto
    then have r: "R_End k r \<in> set gs" using g(1) by simp
    show ?thesis
    proof (cases "r = Hit")
      case True
      then have "R_End k Rebuilt \<in> set (filter asked gs)" using r hit k by simp
      then show ?thesis by force
    next
      case False
      then have "R_End k r \<in> set (filter asked gs)" using r by simp
      then show ?thesis by force
    qed
  qed
  then have "card (set keys) \<le> card (racer_key ` set (filter asked gs))" by (intro card_mono) auto
  also have "\<dots> \<le> length (filter asked gs)" by (meson card_image_le card_length finite_set le_trans)
  finally show "queries db + int (card (set keys)) \<le> queries db1" using count by simp
  have "length (filter asked gs) \<le> length keys" using race_ends(1) [OF assms(1)] by (metis length_filter_le)
  then show "queries db1 \<le> queries db + int (length keys)" using count by simp
qed

text \<open>Both bounds are reached: when all look before the first one writes, and when they run one after the other.\<close>

lemma all_look_first:
  assumes "\<forall>k \<in> set keys. look now k cache = None" "n \<le> length keys"
  shows "fold (turn ttl) (map (\<lambda>i. (i, now)) [0..<n]) (cache, db, map R_Get keys) =
    (cache, db, map R_Query (take n keys) @ map R_Get (drop n keys))"
  using assms(2)
proof (induction n)
  case (Suc n)
  let ?gs = "map R_Query (take n keys) @ map R_Get (drop n keys)"
  have n: "n < length keys" "n < length ?gs" using Suc.prems by auto
  have "?gs ! n = R_Get (keys ! n)" using n(1) by (simp add: nth_append)
  then have "turn ttl (n, now) (cache, db, ?gs) = (cache, db, ?gs[n := R_Query (keys ! n)])"
    using assms(1) n by (simp add: race_turn_at [OF n(2)])
  also have "?gs[n := R_Query (keys ! n)] = map R_Query (take (Suc n) keys) @ map R_Get (drop (Suc n) keys)"
    using n(1) by (simp add: list_update_append take_Suc_conv_app_nth Cons_nth_drop_Suc [symmetric])
  finally show ?case using Suc by simp
qed simp

lemma move_missed: "race_move look put query ttl now g cache db = (g1, cache1, db1) \<Longrightarrow> missed g \<Longrightarrow> missed g1"
  by (cases g) (auto split: option.splits prod.splits)

lemma missed_turns:
  "\<forall>g \<in> set (snd (snd r)). missed g \<Longrightarrow> \<forall>g \<in> set (snd (snd (fold (turn ttl) turns r))). missed g"
proof (induction turns arbitrary: r)
  case (Cons x turns)
  obtain i now cache db gs where x: "x = (i, now)" "r = (cache, db, gs)" by (metis prod_cases3 surj_pair)
  have "\<forall>g \<in> set (snd (snd (turn ttl x r))). missed g"
  proof (cases "i < length gs")
    case True
    obtain g cache1 db1 where m: "race_move look put query ttl now (gs ! i) cache db = (g, cache1, db1)" by (metis prod_cases3)
    have "missed (gs ! i)" using Cons.prems True x by auto
    then have "missed g" by (rule move_missed [OF m])
    then show ?thesis using Cons.prems m x set_update_subset_insert [of gs i g] by (auto simp: race_turn_at [OF True])
  qed (use Cons.prems x in \<open>simp add: race_turn_none\<close>)
  then show ?case using Cons.IH by simp
qed simp

lemma race_worst:
  assumes "\<forall>k \<in> set keys. look late k cache = None"
    and "race look put query ttl (map (\<lambda>i. (i, late)) [0..<length keys]) late keys cache db = (cache1, db1, gs)"
    and "\<forall>k \<in> set keys. \<forall>t \<ge> late. look t k cache = None"
  shows "queries db1 = queries db + int (length keys)"
proof -
  let ?turns = "map (\<lambda>i. (i, late)) [0..<length keys] @ last_turns late (length keys)"
  have e: "fold (turn ttl) ?turns (cache, db, map R_Get keys) = (cache1, db1, gs)"
    using assms(2) by (simp add: race_def)
  have "fold (turn ttl) (map (\<lambda>i. (i, late)) [0..<length keys]) (cache, db, map R_Get keys) = (cache, db, map R_Query keys)"
    using all_look_first [OF assms(1), of "length keys"] by simp
  then have "fold (turn ttl) (last_turns late (length keys)) (cache, db, map R_Query keys) = (cache1, db1, gs)" using e by simp
  then have missed: "\<forall>g \<in> set gs. missed g"
    using missed_turns [of "(cache, db, map R_Query keys)" ttl "last_turns late (length keys)"] by simp
  have "race_ok look queries (queries db) late keys (cache, db, map R_Get keys)"
    using assms(3) by (auto simp: race_ok_def comp_def)
  moreover have "\<forall>x \<in> set ?turns. late \<le> snd x" by (auto simp: last_turns_def)
  ultimately have "race_ok look queries (queries db) late keys (cache1, db1, gs)" using ok_turns e by metis
  then have "queries db1 = queries db + int (length (filter asked gs))" by (simp add: race_ok_def)
  moreover have "asked g" if "g \<in> set gs" for g
  proof -
    have "missed g" "steps_left g = 0" using that missed race_ends(2) [OF assms(2)] by blast+
    then show ?thesis by (cases g) auto
  qed
  then have "filter asked gs = gs" by simp
  ultimately show ?thesis using race_ends(1) [OF assms(2)] by simp
qed

lemma three_turns:
  assumes "i < length gs" "gs ! i = R_Get k"
  shows "look late k cache \<noteq> None \<Longrightarrow> fold (turn ttl) (replicate 3 (i, late)) (cache, db, gs) = (cache, db, gs[i := R_End k Hit])"
    "look late k cache = None \<Longrightarrow> query k db = (Some v, db1) \<Longrightarrow>
      fold (turn ttl) (replicate 3 (i, late)) (cache, db, gs) = (put late k v ttl cache, db1, gs[i := R_End k Rebuilt])"
  using assms by (auto simp: numeral_3_eq_3 race_turn_at)

lemma race_sequential:
  assumes "\<forall>k \<in> set keys. look late k cache = None" "0 \<le> ttl" "\<forall>k \<in> set keys. fst (query k db) \<noteq> None"
    and "race look put query ttl [] late keys cache db = (cache1, db1, gs)"
  shows "queries db1 = queries db + int (card (set keys))"
proof -
  let ?I = "\<lambda>i (c, d, gs). length gs = length keys \<and> drop i gs = map R_Get (drop i keys) \<and>
      queries d = queries db + int (card (set (take i keys))) \<and>
      (\<forall>k \<in> set keys. (look late k c \<noteq> None \<longleftrightarrow> k \<in> set (take i keys)) \<and> fst (query k d) \<noteq> None)"
  have "?I i (fold (turn ttl) (last_turns late i) (cache, db, map R_Get keys))" if "i \<le> length keys" for i
    using that
  proof (induction i)
    case 0
    then show ?case using assms(1,3) by (simp add: last_turns_def)
  next
    case (Suc i)
    let ?k = "keys ! i"
    obtain c d gs where r: "fold (turn ttl) (last_turns late i) (cache, db, map R_Get keys) = (c, d, gs)" by (metis prod_cases3)
    have inv: "length gs = length keys" "drop i gs = map R_Get (drop i keys)" "queries d = queries db + int (card (set (take i keys)))"
      "\<And>k. k \<in> set keys \<Longrightarrow> (look late k c \<noteq> None \<longleftrightarrow> k \<in> set (take i keys)) \<and> fst (query k d) \<noteq> None"
      using Suc r by auto
    have i: "i < length keys" "i < length gs" "?k \<in> set keys" using Suc.prems inv(1) by auto
    have gi: "gs ! i = R_Get ?k" using inv(2) i by (metis Cons_nth_drop_Suc list.inject list.simps(9))
    have rest: "drop (Suc i) (gs[i := g]) = map R_Get (drop (Suc i) keys)" for g
      using inv(2) by (metis drop_Suc drop_map drop_update_cancel lessI tl_drop)
    have take: "set (take (Suc i) keys) = insert ?k (set (take i keys))" using i by (simp add: take_Suc_conv_app_nth)
    have step: "last_turns late (Suc i) = last_turns late i @ replicate 3 (i, late)" by (simp add: last_turns_def)
    show ?case
    proof (cases "look late ?k c")
      case (Some v)
      then have "?k \<in> set (take i keys)" using inv(4) i(3) by auto
      then show ?thesis
        using three_turns(1) [OF i(2) gi, of late c ttl d] Some inv rest by (simp add: step r take insert_absorb)
    next
      case None
      then have new: "?k \<notin> set (take i keys)" using inv(4) [OF i(3)] by simp
      obtain v d1 where q: "query ?k d = (Some v, d1)" using inv(4) [OF i(3)] by (cases "query ?k d") auto
      have "queries d1 = queries d + 1" "fst (query k d1) = fst (query k d)" for k
        using query_counts [of ?k d] query_again [of k ?k d] q by simp_all
      then show ?thesis
        using three_turns(2) [OF i(2) gi None q, of ttl] inv rest new assms(2) by (simp add: step r take look_put)
    qed
  qed
  from this [of "length keys"] show ?thesis using assms(4) by (simp add: race_def)
qed

end

interpretation avalanche: stampede sc_Get sc_Set qd_Query qd_GetQueryCount
  by unfold_locales (simp_all add: qd_Query_def qd_GetQueryCount_def)

interpretation breakdown: stampede vc_Get vc_Set sl_Query sl_GetQueryCount
  by unfold_locales (simp_all add: sl_Query_def sl_GetQueryCount_def)

section \<open>What the demonstrations report\<close>

lemma hot_data: "sl_data sl_New hot_key = Some hot_user"
  by (simp add: sl_New_def hot_key_def)

lemma warm_hot_new: "warm_hot t0 sl_New vc_New = (vc_Set t0 hot_key hot_user (3 * second) vc_New, snd (sl_Query hot_key sl_New))"
  using hot_data by (simp add: warm_hot_def sl_Query_def)

lemma hot_accesses:
  assumes "\<forall>i<n. fst (clk i) \<le> t0 + 3 * second"
  shows "accessCount (fold (hot_access (vc_Set t0 hot_key v (3 * second) vc_New)) (map clk [0..<n]) stats) = accessCount stats + int n"
  using assms
proof (induction n)
  case (Suc n)
  then have "vc_Get (fst (clk n)) hot_key (vc_Set t0 hot_key v (3 * second) vc_New) = Some v"
    by (simp add: vulnerable.look_put)
  then show ?case using Suc by (simp add: hot_access_def Access_def split_beta)
qed simp

lemma hot_expired: "t0 + 3 * second < t \<Longrightarrow> vc_Get t hot_key (vc_Set t0 hot_key v (3 * second) vc_New) = None"
  by (simp add: vulnerable.look_put)

text \<open>C35: when the hot entry has expired, twenty goroutines that ask for it at the same time query the database at least once and at
  most twenty times, whatever their interleaving; both happen.\<close>

theorem breakdown_queries:
  assumes "\<forall>i<5. fst (clk i) \<le> t0 + 3 * second" "\<forall>x \<in> set turns. t0 + 3 * second < snd x" "t0 + 3 * second < late"
  shows "fst (DemoBreakdownProblem t0 clk turns late) = 5 \<and>
    fst (snd (DemoBreakdownProblem t0 clk turns late)) \<in> {1..20} \<and>
    fst (snd (DemoBreakdownProblem t0 clk (map (\<lambda>i. (i, late)) [0..<20]) late)) = 20 \<and>
    fst (snd (DemoBreakdownProblem t0 clk [] late)) = 1"
proof -
  let ?cache = "vc_Set t0 hot_key hot_user (3 * second) vc_New" and ?db = "sl_ResetQueryCount (snd (sl_Query hot_key sl_New))"
  let ?race = "\<lambda>turns. race vc_Get vc_Set sl_Query (60 * second) turns late (replicate 20 hot_key) ?cache ?db"
  have demo: "DemoBreakdownProblem t0 clk turns late = (5, sl_GetQueryCount (fst (snd (?race turns))), ?race turns)" for turns
    using hot_accesses [OF assms(1), of hot_user] by (simp add: DemoBreakdownProblem_def warm_hot_new GetCount_def Let_def)
  have db: "sl_GetQueryCount ?db = 0" "fst (sl_Query hot_key ?db) \<noteq> None"
    using hot_data by (simp_all add: sl_GetQueryCount_def sl_ResetQueryCount_def sl_Query_def)
  have miss: "\<forall>k \<in> set (replicate 20 hot_key). \<forall>t \<ge> t1. vc_Get t k ?cache = None" if "t0 + 3 * second < t1" for t1
    using that hot_expired [of t0] by auto
  obtain c d gs where r: "?race turns = (c, d, gs)" by (metis prod_cases3)
  have turns: "\<forall>x \<in> set turns. t0 + 3 * second + 1 \<le> snd x" using assms(2) by auto
  have "t0 + 3 * second + 1 \<le> late" using assms(3) by simp
  note q = breakdown.race_queries [OF r miss turns this]
  have "sl_GetQueryCount d \<in> {1..20}" using q db(1) by simp
  moreover have "sl_GetQueryCount (fst (snd (?race (map (\<lambda>i. (i, late)) [0..<20])))) = 20"
    using breakdown.race_worst [of "replicate 20 hot_key" late ?cache "60 * second" ?db] miss [OF assms(3)] db(1)
    by (cases "?race (map (\<lambda>i. (i, late)) [0..<20])") simp
  moreover have "sl_GetQueryCount (fst (snd (?race []))) = 1"
    using breakdown.race_sequential [of "replicate 20 hot_key" late ?cache "60 * second" ?db] miss [OF assms(3)] db
    by (cases "?race []") simp
  ultimately show ?thesis unfolding demo r fst_conv snd_conv by blast
qed

theorem breakdown_queries_witness:
  "fst (snd (DemoBreakdownProblem 0 (\<lambda>i. (int i, int i)) [(3, 4 * second), (7, 4 * second), (3, 5 * second)] (5 * second))) \<in> {1..20}"
proof -
  let ?turns = "[(3 :: nat, 4 * second), (7, 4 * second), (3, 5 * second)]"
  have "\<forall>i<5. fst (int i, int i) \<le> 0 + 3 * second" "\<forall>x \<in> set ?turns. 0 + 3 * second < snd x" "0 + 3 * second < 5 * second"
    by auto
  from breakdown_queries [OF this] show ?thesis by blast
qed

text \<open>The avalanche: the entries of ten users expire together.\<close>

lemma user_key_inj [simp]: "user_key i = user_key j \<longleftrightarrow> i = j"
  by (simp add: user_key_def)

lemma warm_users_other:
  assumes "\<forall>i \<in> set is. k \<noteq> user_key i \<or> warm i + ttl < t"
  shows "sc_Get t k cache = None \<Longrightarrow> sc_Get t k (fold (\<lambda>i. sc_Set (warm i) (user_key i) (user_value i) ttl) is cache) = None"
  using assms by (induction "is" arbitrary: cache) (auto simp: simple.look_put)

lemma warm_users_hit:
  assumes "i \<in> set is" "distinct is" "t \<le> warm i + ttl"
  shows "sc_Get t (user_key i) (fold (\<lambda>i. sc_Set (warm i) (user_key i) (user_value i) ttl) is cache) = Some (user_value i)"
proof -
  have keep: "sc_Get t (user_key i) (fold (\<lambda>i. sc_Set (warm i) (user_key i) (user_value i) ttl) js c) = sc_Get t (user_key i) c"
    if "i \<notin> set js" for js c
    using that by (induction js arbitrary: c) (auto simp: simple.look_put)
  obtain as bs where s: "is = as @ i # bs" using split_list [OF assms(1)] by blast
  then show ?thesis using keep [of bs] assms(2,3) by (simp add: simple.look_put)
qed

lemma avalanche_key_set: "set avalanche_keys = user_key ` {1..10}"
proof -
  have "(\<lambda>i. i mod 10 + 1) ` {0..<50} = {1..10 :: nat}"
  proof
    show "{1..10 :: nat} \<subseteq> (\<lambda>i. i mod 10 + 1) ` {0..<50}"
    proof
      fix x :: nat
      assume "x \<in> {1..10}"
      then show "x \<in> (\<lambda>i. i mod 10 + 1) ` {0..<50}" by (intro image_eqI [of _ _ "x - 1"]) auto
    qed
  qed (auto simp: Suc_leI)
  then show ?thesis unfolding avalanche_keys_def by (metis image_image set_map set_upt)
qed

lemma avalanche_card: "card (set avalanche_keys) = 10" "length avalanche_keys = 50"
proof -
  have "inj_on user_key {1..10}" by (simp add: inj_on_def)
  then show "card (set avalanche_keys) = 10" by (simp add: avalanche_key_set card_image)
qed (simp add: avalanche_keys_def)

lemma user_data: "1 \<le> i \<Longrightarrow> i \<le> 100 \<Longrightarrow> user_data (user_key i) = Some (user_value i)"
proof -
  assume i: "1 \<le> i" "i \<le> 100"
  have "distinct (map fst (map (\<lambda>i. (user_key i, user_value i)) [1..<101]))"
    by (simp add: comp_def distinct_map inj_on_def)
  moreover have "(user_key i, user_value i) \<in> set (map (\<lambda>i. (user_key i, user_value i)) [1..<101])" using i by auto
  ultimately show ?thesis unfolding user_data_def by (rule map_of_is_SomeI)
qed

text \<open>When ten entries expire together, the fifty goroutines that ask for them send at least ten and at most fifty queries, where
  none were sent before; both happen.\<close>

theorem avalanche_queries:
  assumes "\<forall>i \<in> {1..10}. warm i + base_ttl < t1" "\<forall>i \<in> {1..5}. clk i \<le> warm i + base_ttl"
    and "\<forall>x \<in> set turns. t1 \<le> snd x" "t1 \<le> late"
  shows "\<exists>n result. DemoAvalancheProblem warm clk turns late = (5, 0, n, result) \<and> n \<in> {10..50} \<and>
    fst (snd (snd (DemoAvalancheProblem warm clk (map (\<lambda>i. (i, late)) [0..<50]) late))) = 50 \<and>
    fst (snd (snd (DemoAvalancheProblem warm clk [] late))) = 10"
proof -
  let ?cache = "warm_users warm sc_New" and ?db = "qd_ResetQueryCount (qd_ResetQueryCount qd_New)"
  let ?race = "\<lambda>turns. race sc_Get sc_Set qd_Query base_ttl turns late avalanche_keys ?cache ?db"
  have "sc_Get (clk i) (user_key i) ?cache \<noteq> None" if "i \<in> set [1..<6]" for i
  proof -
    have "i \<in> set [1..<11]" "i \<in> {1..5}" using that by auto
    then show ?thesis using assms(2) by (simp add: warm_users_def warm_users_hit del: set_upt upt_rec_numeral)
  qed
  then have "filter (\<lambda>i. sc_Get (clk i) (user_key i) ?cache \<noteq> None) [1..<6] = [1..<6]"
    by (intro filter_True) blast
  then have hits: "int (length (filter (\<lambda>i. sc_Get (clk i) (user_key i) ?cache \<noteq> None) [1..<6])) = 5"
    by (simp only: length_upt)
  have demo: "DemoAvalancheProblem warm clk turns late = (5, 0, qd_GetQueryCount (fst (snd (?race turns))), ?race turns)" for turns
    unfolding DemoAvalancheProblem_def Let_def hits by (simp add: qd_GetQueryCount_def qd_ResetQueryCount_def del: upt_rec_numeral)
  have miss: "\<forall>k \<in> set avalanche_keys. \<forall>t \<ge> t1'. sc_Get t k ?cache = None" if "t1 \<le> t1'" for t1'
  proof (intro ballI allI impI)
    fix k t
    assume "t1' \<le> t"
    have "warm i + base_ttl < t" if "i \<in> set [1..<11]" for i
    proof -
      have "i \<in> {1..10}" using that by auto
      then show ?thesis using assms(1) \<open>t1 \<le> t1'\<close> \<open>t1' \<le> t\<close> by (meson order_le_less_trans order_less_le_trans)
    qed
    then have "\<forall>i \<in> set [1..<11]. warm i + base_ttl < t" by blast
    then show "sc_Get t k ?cache = None"
      unfolding warm_users_def by (intro warm_users_other) (simp_all add: sc_Get_def sc_New_def live_def)
  qed
  have db: "qd_GetQueryCount ?db = 0" "\<forall>k \<in> set avalanche_keys. fst (qd_Query k ?db) \<noteq> None"
    using user_data by (auto simp: qd_GetQueryCount_def qd_ResetQueryCount_def qd_Query_def qd_New_def avalanche_key_set)
  obtain c d gs where r: "?race turns = (c, d, gs)" by (metis prod_cases3)
  have "qd_GetQueryCount d \<in> {10..50}"
    using avalanche.race_queries [OF r miss [OF order_refl] assms(3,4)] db(1) by (simp add: avalanche_card)
  moreover have "qd_GetQueryCount (fst (snd (?race (map (\<lambda>i. (i, late)) [0..<50])))) = 50"
    using avalanche.race_worst [of avalanche_keys late ?cache base_ttl ?db] miss [OF assms(4)] db(1)
    by (cases "?race (map (\<lambda>i. (i, late)) [0..<50])") (simp add: avalanche_card)
  moreover have "qd_GetQueryCount (fst (snd (?race []))) = 10"
    using avalanche.race_sequential [of avalanche_keys late ?cache base_ttl ?db] miss [OF assms(4)] db
    by (cases "?race []") (simp add: avalanche_card base_ttl_def)
  ultimately show ?thesis unfolding demo r fst_conv snd_conv by blast
qed

end
