(* ===== verification/Problem_Demos.thy ===== *)
theory Problem_Demos
  imports Problems_Props Stampede
begin

text \<open>
  The demonstrations of the remedies in \<open>tutorial/03-problems\<close>: random time to live, two levels, circuit breaker, Bloom filter,
  cached null values, and the detection of hot keys. Each is a function of the readings of the clock and of the random numbers, and
  returns what the program prints of the caches and databases. Printing, sleeping and elapsed times are not modelled.
\<close>

section \<open>Avalanche\<close>

text \<open>Ten entries with a random time to live, looked up once a second for eight seconds; the hits of each second.\<close>

definition warm_anti :: "(nat \<Rightarrow> nat) \<Rightarrow> (nat \<Rightarrow> go_time) \<Rightarrow> anti_cache option" where
  "warm_anti rs warm = foldM (\<lambda>i. aa_Set (rs i) (warm i) (user_key i) (user_value i) (5 * second)) [1..<11] aa_New"

definition anti_hits :: "(nat \<Rightarrow> go_time) \<Rightarrow> anti_cache \<Rightarrow> int" where
  "anti_hits clk c = int (length (filter (\<lambda>i. aa_Get (clk i) (user_key i) c \<noteq> None) [1..<11]))"

definition demo_random_ttl :: "(nat \<Rightarrow> nat) \<Rightarrow> (nat \<Rightarrow> go_time) \<Rightarrow> (nat \<Rightarrow> nat \<Rightarrow> go_time) \<Rightarrow> int list option" where
  "demo_random_ttl rs warm clk = do {
     c \<leftarrow> warm_anti rs warm;
     Some (map (\<lambda>t. anti_hits (clk t) c) [0..<8])
   }"

text \<open>Five keys fetched through two levels, then the first level cleared and three keys fetched again; their answers and queries.\<close>

type_synonym tl_clock = "nat \<Rightarrow> go_time \<times> go_time \<times> go_time \<times> go_time"

fun tl_gets :: "tl_clock \<Rightarrow> nat list \<Rightarrow> two_level \<Rightarrow> string option list \<times> two_level" where
  "tl_gets clk [] m = ([], m)"
| "tl_gets clk (i # is) m = (case tl_Get (clk i) (user_key i) m of (v, m1) \<Rightarrow> case tl_gets clk is m1 of (vs, m2) \<Rightarrow> (v # vs, m2))"

definition demo_two_levels :: "tl_clock \<Rightarrow> tl_clock \<Rightarrow> query_db \<Rightarrow> string option list \<times> int" where
  "demo_two_levels clk1 clk2 db =
     (case tl_gets clk1 [1..<6] (tl_New db) of (_, m) \<Rightarrow>
      let m1 = m\<lparr> tl_db := qd_ResetQueryCount (tl_db m) \<rparr>;
          m2 = m1\<lparr> tl_l1 := sc_Clear (tl_l1 m1) \<rparr>
      in case tl_gets clk2 [1..<4] m2 of (vs, m3) \<Rightarrow> (vs, qd_GetQueryCount (tl_db m3)))"

definition DemoAvalancheSolution ::
  "(nat \<Rightarrow> nat) \<Rightarrow> (nat \<Rightarrow> go_time) \<Rightarrow> (nat \<Rightarrow> nat \<Rightarrow> go_time) \<Rightarrow> tl_clock \<Rightarrow> tl_clock \<Rightarrow> (int list \<times> string option list \<times> int) option" where
  "DemoAvalancheSolution rs warm clk clk1 clk2 = do {
     let db = qd_New;
     hits \<leftarrow> demo_random_ttl rs warm clk;
     Some (hits, demo_two_levels clk1 clk2 db)
   }"

text \<open>Ten calls of the circuit breaker: the two readings of the clock and the outcome of each.\<close>

fun breaker_calls :: "(nat \<Rightarrow> go_time \<times> go_time \<times> bool) \<Rightarrow> nat list \<Rightarrow> breaker \<Rightarrow> breaker_answer list" where
  "breaker_calls calls [] cb = []"
| "breaker_calls calls (i # is) cb =
     (case calls i of (now, now2, fails) \<Rightarrow>
      case queryWithCircuitBreaker now now2 fails (user_key i) cb of (a, cb1) \<Rightarrow> a # breaker_calls calls is cb1)"

definition DemoCircuitBreaker :: "(nat \<Rightarrow> go_time \<times> go_time \<times> bool) \<Rightarrow> breaker_answer list" where
  "DemoCircuitBreaker calls = breaker_calls calls [1..<11] new_breaker"

section \<open>Penetration\<close>

text \<open>The query loop without a remedy: a missing key is not cached.\<close>

definition plain_query :: "go_time \<times> go_time \<Rightarrow> string \<Rightarrow> null_cache \<times> stats_db \<Rightarrow> null_cache \<times> stats_db" where
  "plain_query = (\<lambda>(now, now2) key (cache, db).
     (case nc_Get now key cache of
        (_, True, _) \<Rightarrow> (cache, db)
      | (_, False, _) \<Rightarrow>
          (case sd_Query key db of
             (Some v, db1) \<Rightarrow> (nc_Set now2 key v (60 * second) cache, db1)
           | (None, db1) \<Rightarrow> (cache, db1))))"

definition plain_queries :: "(nat \<Rightarrow> go_time \<times> go_time) \<Rightarrow> string list \<Rightarrow> null_cache \<times> stats_db \<Rightarrow> null_cache \<times> stats_db" where
  "plain_queries clk keys s = fold (\<lambda>i. plain_query (clk i) (keys ! i)) [0..<length keys] s"

definition normal_keys :: "string list" where
  "normal_keys = [''user:1'', ''user:2'', ''user:3'']"

definition malicious_keys :: "string list" where
  "malicious_keys = [''user:999999'', ''user:888888'', ''user:777777'', ''user:666666'', ''user:555555'', ''user:444444'',
     ''user:333333'', ''user:222222'', ''user:111111'', ''user:000000'']"

definition DemoPenetrationProblem ::
  "(nat \<Rightarrow> go_time \<times> go_time) \<Rightarrow> (nat \<Rightarrow> go_time \<times> go_time) \<Rightarrow> (int \<times> int) \<times> (int \<times> int)" where
  "DemoPenetrationProblem clk1 clk2 =
     (case plain_queries clk1 normal_keys (nc_New, sd_New) of (cache, db) \<Rightarrow>
      case plain_queries clk2 malicious_keys (cache, sd_ResetStats db) of (cache1, db1) \<Rightarrow>
        (sd_GetStats db, sd_GetStats db1))"

text \<open>The Bloom filter: its answers for three known and three unknown keys, the answers of five queries, the statistics.\<close>

fun bloom_queries ::
  "bloom_filter \<Rightarrow> (nat \<Rightarrow> go_time \<times> go_time) \<Rightarrow> nat \<Rightarrow> string list \<Rightarrow> null_cache \<times> stats_db \<Rightarrow>
   (string option list \<times> null_cache \<times> stats_db) option" where
  "bloom_queries bf clk i [] s = Some ([], s)"
| "bloom_queries bf clk i (key # keys) s = do {
     (r, s1) \<leftarrow> queryWithBloomFilter bf (fst (clk i)) (snd (clk i)) key s;
     (rs, s2) \<leftarrow> bloom_queries bf clk (Suc i) keys s1;
     Some (r # rs, s2)
   }"

definition DemoBloomFilterSolution ::
  "(nat \<Rightarrow> go_time \<times> go_time) \<Rightarrow> (bool option list \<times> bool option list \<times> string option list \<times> int \<times> int) option" where
  "DemoBloomFilterSolution clk = do {
     bf \<leftarrow> foldM (\<lambda>i. bf_Add (user_key i)) [1..<101] (NewBloomFilter 1000 3);
     let known = map (\<lambda>key. MightContain key bf) [''user:1'', ''user:50'', ''user:100''];
     let unknown = map (\<lambda>key. MightContain key bf) [''user:999'', ''user:888'', ''user:777''];
     (rs, cache, db) \<leftarrow> bloom_queries bf clk 0 [''user:1'', ''user:999'', ''user:2'', ''user:888'', ''user:3'']
       (nc_New, sd_ResetStats sd_New);
     Some (known, unknown, rs, sd_GetStats db)
   }"

text \<open>Null values: one missing key queried three times, with the number of queries each time.\<close>

definition DemoNullCacheSolution :: "(nat \<Rightarrow> go_time \<times> go_time) \<Rightarrow> int \<times> int \<times> int" where
  "DemoNullCacheSolution clk =
     (let key = ''user:999999'';
          (_, cache1, db1) = queryWithNullCache (fst (clk 0)) (snd (clk 0)) key (nc_New, sd_ResetStats sd_New);
          (_, cache2, db2) = queryWithNullCache (fst (clk 1)) (snd (clk 1)) key (cache1, sd_ResetStats db1);
          (_, cache3, db3) = queryWithNullCache (fst (clk 2)) (snd (clk 2)) key (cache2, sd_ResetStats db2)
      in (fst (sd_GetStats db1), fst (sd_GetStats db2), fst (sd_GetStats db3)))"

section \<open>Hot keys\<close>

definition accesses :: "(nat \<Rightarrow> go_time) \<Rightarrow> nat \<Rightarrow> hot_stats \<Rightarrow> hot_stats" where
  "accesses clk n h = fold (\<lambda>i. Access (clk i)) [0..<n] h"

definition hot_map :: "(nat \<Rightarrow> go_time) \<Rightarrow> string \<rightharpoonup> hot_stats" where
  "hot_map clk =
     (let new = \<lparr> accessCount = 0, hs_lastAccess = 0 \<rparr>
      in [''user:1'' \<mapsto> accesses clk 100 new, ''user:2'' \<mapsto> accesses clk 10 new, ''product:1'' \<mapsto> accesses clk 50 new])"

text \<open>The keys in the order Go visits them, each with its count and whether it is reported as hot.\<close>

definition DemoHotDataMonitoring :: "(nat \<Rightarrow> go_time) \<Rightarrow> string list \<Rightarrow> (string \<times> int \<times> bool) list" where
  "DemoHotDataMonitoring clk order =
     List.map_filter (\<lambda>key. map_option (\<lambda>h. (key, GetCount h, GetCount h > 80)) (hot_map clk key)) order"

section \<open>The random time to live makes two groups\<close>

text \<open>Half of five seconds is two whole seconds, so the random offset is zero or one second.\<close>

lemma aa_Set_five:
  "aa_Set r now key v (5 * second) c = Some (c\<lparr> aa_data := put_item now key v ((5 + int (r mod 2)) * second) (aa_data c) \<rparr>)"
  by (simp add: aa_Set_def rand_Intn_def zmod_int algebra_simps)

lemma warm_anti_get:
  assumes "distinct is"
  shows "\<exists>c'. foldM (\<lambda>i. aa_Set (rs i) (warm i) (user_key i) (user_value i) (5 * second)) is c = Some c' \<and>
    (\<forall>i t. aa_Get t (user_key i) c' =
       (if i \<in> set is then (if t \<le> warm i + ((5 + int (rs i mod 2)) * second) then Some (user_value i) else None)
        else aa_Get t (user_key i) c))"
  using assms
proof (induction "is" arbitrary: c)
  case (Cons j "is")
  let ?c = "c\<lparr> aa_data := put_item (warm j) (user_key j) (user_value j) ((5 + int (rs j mod 2)) * second) (aa_data c) \<rparr>"
  have "distinct is" using Cons.prems by simp
  from Cons.IH [OF this, of ?c] obtain c' where c': "foldM (\<lambda>i. aa_Set (rs i) (warm i) (user_key i) (user_value i) (5 * second)) is ?c = Some c'"
    and get: "\<And>i t. aa_Get t (user_key i) c' =
       (if i \<in> set is then (if t \<le> warm i + ((5 + int (rs i mod 2)) * second) then Some (user_value i) else None)
        else aa_Get t (user_key i) ?c)" by blast
  have "aa_Get t (user_key i) ?c = (if i = j then (if t \<le> warm j + ((5 + int (rs j mod 2)) * second) then Some (user_value j) else None)
      else aa_Get t (user_key i) c)" for i t
    by (simp add: aa_Get_def live_put)
  then have all: "\<forall>i t. aa_Get t (user_key i) c' =
       (if i \<in> set (j # is) then (if t \<le> warm i + ((5 + int (rs i mod 2)) * second) then Some (user_value i) else None)
        else aa_Get t (user_key i) c)"
    using get Cons.prems by (auto simp del: of_nat_mod)
  have "foldM (\<lambda>i. aa_Set (rs i) (warm i) (user_key i) (user_value i) (5 * second)) (j # is) c = Some c'"
    using c' by (simp only: foldM.simps aa_Set_five Option.bind.simps)
  then show ?case using all by blast
qed simp

text \<open>The demonstration never panics; an entry whose random number is even lives five seconds, the others six.\<close>

theorem random_ttl_two_groups:
  "demo_random_ttl rs warm clk =
     Some (map (\<lambda>t. int (card {i \<in> {1..10}. clk t i \<le> warm i + (5 + int (rs i mod 2)) * second})) [0..<8])"
proof -
  obtain c where c: "warm_anti rs warm = Some c"
    and get: "\<And>i t. aa_Get t (user_key i) c =
       (if i \<in> set [1..<11] then (if t \<le> warm i + ((5 + int (rs i mod 2)) * second) then Some (user_value i) else None)
        else aa_Get t (user_key i) aa_New)"
    using warm_anti_get [OF distinct_upt [of 1 11], of rs warm aa_New] unfolding warm_anti_def by blast
  have "anti_hits (clk t) c = int (card {i \<in> {1..10}. clk t i \<le> warm i + (5 + int (rs i mod 2)) * second})" for t
  proof -
    have "distinct (filter (\<lambda>i. aa_Get (clk t i) (user_key i) c \<noteq> None) [1..<11])" by simp
    then have "length (filter (\<lambda>i. aa_Get (clk t i) (user_key i) c \<noteq> None) [1..<11]) =
        card (set (filter (\<lambda>i. aa_Get (clk t i) (user_key i) c \<noteq> None) [1..<11]))"
      by (simp only: distinct_card)
    also have "set (filter (\<lambda>i. aa_Get (clk t i) (user_key i) c \<noteq> None) [1..<11]) =
        {i \<in> set [1..<11]. clk t i \<le> warm i + (5 + int (rs i mod 2)) * second}"
      unfolding set_filter get by (intro Collect_cong) (simp del: set_upt upt_rec_numeral)
    also have "set [1..<11] = {1..10 :: nat}" by (simp only: set_upt) auto
    finally show ?thesis by (simp only: anti_hits_def)
  qed
  then show ?thesis by (simp only: demo_random_ttl_def c Option.bind.simps)
qed

section \<open>The second level stands in\<close>

lemma tl_gets_fill:
  assumes "distinct is" "\<forall>i \<in> set is. qd_data (tl_db m) (user_key i) \<noteq> None"
    and "\<forall>i \<in> set is. \<forall>t. sc_Get t (user_key i) (tl_l1 m) = None \<and> sc_Get t (user_key i) (tl_l2 m) = None"
  shows "\<exists>vs m1. tl_gets clk is m = (vs, m1) \<and> qd_data (tl_db m1) = qd_data (tl_db m) \<and>
    (\<forall>k t. sc_Get t k (tl_l2 m1) =
       (case List.find (\<lambda>i. user_key i = k) is of
          Some i \<Rightarrow> if t \<le> snd (snd (snd (clk i))) + 300 * second then qd_data (tl_db m) k else None
        | None \<Rightarrow> sc_Get t k (tl_l2 m)))"
  using assms
proof (induction "is" arbitrary: m)
  case (Cons i "is")
  obtain n1 n2 w1 w2 where clk: "clk i = (n1, n2, w1, w2)" by (metis prod_cases4)
  obtain v where v: "qd_data (tl_db m) (user_key i) = Some v" using Cons.prems(2) by auto
  let ?m = "m\<lparr> tl_db := snd (qd_Query (user_key i) (tl_db m)), tl_l1 := sc_Set w1 (user_key i) v (30 * second) (tl_l1 m),
      tl_l2 := sc_Set w2 (user_key i) v (300 * second) (tl_l2 m) \<rparr>"
  have g: "tl_Get (clk i) (user_key i) m = (Some v, ?m)"
    using Cons.prems(3) v by (simp add: tl_Get_def clk qd_Query_def)
  have db: "qd_data (tl_db ?m) = qd_data (tl_db m)" by (simp add: qd_Query_def)
  have "\<forall>j \<in> set is. \<forall>t. sc_Get t (user_key j) (tl_l1 ?m) = None \<and> sc_Get t (user_key j) (tl_l2 ?m) = None"
    using Cons.prems(1,3) by (auto simp: simple.look_put)
  moreover have "\<forall>j \<in> set is. qd_data (tl_db ?m) (user_key j) \<noteq> None" using Cons.prems(2) db by simp
  moreover have "distinct is" using Cons.prems(1) by simp
  ultimately obtain vs m1 where m1: "tl_gets clk is ?m = (vs, m1)" "qd_data (tl_db m1) = qd_data (tl_db m)"
    and l2: "\<And>k t. sc_Get t k (tl_l2 m1) =
       (case List.find (\<lambda>i. user_key i = k) is of
          Some i \<Rightarrow> if t \<le> snd (snd (snd (clk i))) + 300 * second then qd_data (tl_db m) k else None
        | None \<Rightarrow> sc_Get t k (tl_l2 ?m))"
    using Cons.IH [of ?m] unfolding db by blast
  have none: "List.find (\<lambda>j. user_key j = user_key i) is = None" using Cons.prems(1) by (auto simp: find_None_iff)
  have "sc_Get t k (tl_l2 m1) =
       (case List.find (\<lambda>i. user_key i = k) (i # is) of
          Some i \<Rightarrow> if t \<le> snd (snd (snd (clk i))) + 300 * second then qd_data (tl_db m) k else None
        | None \<Rightarrow> sc_Get t k (tl_l2 m))" for k t
  proof (cases "k = user_key i")
    case True
    have "sc_Get t k (tl_l2 m1) = sc_Get t k (tl_l2 ?m)" unfolding l2 True none by simp
    then show ?thesis using True v by (simp add: simple.look_put clk)
  next
    case False
    then show ?thesis unfolding l2 by (simp add: simple.look_put split: option.split)
  qed
  then show ?case using g m1 by simp
qed simp

lemma find_user_key: "i \<in> set is \<Longrightarrow> List.find (\<lambda>j. user_key j = user_key i) is = Some i"
  by (induction "is") auto

lemma tl_gets_level2:
  assumes "\<forall>i \<in> set is. \<forall>t. sc_Get t (user_key i) (tl_l1 m) = None" "distinct is"
    and "\<forall>i \<in> set is. sc_Get (fst (snd (clk i))) (user_key i) (tl_l2 m) = Some (user_value i)"
  shows "\<exists>m1. tl_gets clk is m = (map (\<lambda>i. Some (user_value i)) is, m1) \<and> tl_db m1 = tl_db m"
  using assms
proof (induction "is" arbitrary: m)
  case (Cons i "is")
  obtain n1 n2 w1 w2 where clk: "clk i = (n1, n2, w1, w2)" by (metis prod_cases4)
  let ?m = "m\<lparr> tl_l1 := sc_Set w1 (user_key i) (user_value i) (30 * second) (tl_l1 m) \<rparr>"
  have g: "tl_Get (clk i) (user_key i) m = (Some (user_value i), ?m)"
    using Cons.prems(1,3) clk by (auto simp: tl_Get_def)
  have "\<forall>j \<in> set is. \<forall>t. sc_Get t (user_key j) (tl_l1 ?m) = None"
    using Cons.prems(1,2) by (auto simp: simple.look_put)
  then show ?case using Cons.IH [of ?m] Cons.prems(2,3) g by auto
qed simp

text \<open>When the first level is lost, the second one answers for five minutes and no query reaches the database.\<close>

theorem second_level_stands_in:
  assumes "\<forall>i \<in> {1..3}. fst (snd (clk2 i)) \<le> snd (snd (snd (clk1 i))) + 300 * second"
  shows "demo_two_levels clk1 clk2 qd_New = (map (\<lambda>i. Some (user_value i)) [1..<4], 0)"
proof -
  have data: "qd_data qd_New (user_key i) = Some (user_value i)" if "1 \<le> i" "i \<le> 100" for i
    using user_data that by (simp add: qd_New_def)
  have empty: "sc_Get t k sc_New = None" for t k by (simp add: sc_Get_def sc_New_def live_def)
  have "\<forall>i \<in> set [1..<6]. qd_data (tl_db (tl_New qd_New)) (user_key i) \<noteq> None" using data by (simp add: tl_New_def)
  moreover have "\<forall>i \<in> set [1..<6]. \<forall>t. sc_Get t (user_key i) (tl_l1 (tl_New qd_New)) = None \<and> sc_Get t (user_key i) (tl_l2 (tl_New qd_New)) = None"
    using empty by (simp add: tl_New_def)
  ultimately obtain vs m where m: "tl_gets clk1 [1..<6] (tl_New qd_New) = (vs, m)"
    and l2: "\<And>k t. sc_Get t k (tl_l2 m) =
       (case List.find (\<lambda>i. user_key i = k) [1..<6] of
          Some i \<Rightarrow> if t \<le> snd (snd (snd (clk1 i))) + 300 * second then qd_data (tl_db (tl_New qd_New)) k else None
        | None \<Rightarrow> sc_Get t k (tl_l2 (tl_New qd_New)))"
    using tl_gets_fill [OF distinct_upt [of 1 6]] by blast
  let ?m = "m\<lparr> tl_db := qd_ResetQueryCount (tl_db m), tl_l1 := sc_Clear (tl_l1 m) \<rparr>"
  have "sc_Get (fst (snd (clk2 i))) (user_key i) (tl_l2 ?m) = Some (user_value i)" if "i \<in> set [1..<4]" for i
  proof -
    have i: "i \<in> {1, 2, 3}" using that by auto
    have "i \<in> set [1..<6]" using that by auto
    then have "List.find (\<lambda>j. user_key j = user_key i) [1..<6] = Some i" by (rule find_user_key)
    then show ?thesis using i assms data [of i] by (auto simp: l2 tl_New_def)
  qed
  moreover have "\<forall>i \<in> set [1..<4]. \<forall>t. sc_Get t (user_key i) (tl_l1 ?m) = None"
    by (simp add: sc_Get_def sc_Clear_def live_def)
  ultimately obtain m1 where "tl_gets clk2 [1..<4] ?m = (map (\<lambda>i. Some (user_value i)) [1..<4], m1)" "tl_db m1 = tl_db ?m"
    using tl_gets_level2 [OF _ distinct_upt] by meson
  then show ?thesis
    unfolding demo_two_levels_def m prod.case Let_def by (simp add: qd_GetQueryCount_def qd_ResetQueryCount_def del: upt_rec_numeral)
qed

section \<open>The breaker opens and stays open\<close>

lemma breaker_calls_run:
  "breaker_calls calls is cb = breaker_run (map (\<lambda>i. case calls i of (now, now2, fails) \<Rightarrow> (now, now2, fails, user_key i)) is) cb"
  by (induction "is" arbitrary: cb) (auto split: prod.splits)

lemma breaker_run_spec: "breaker_run cs new_breaker = breaker_spec cs 0 0"
  by (rule breaker_simulates) (simp add: breaker_rel_def new_breaker_def)

lemma breaker_rests:
  "3 \<le> n \<Longrightarrow> \<forall>c \<in> set cs. fst c \<le> t + 5 * second \<Longrightarrow> breaker_spec cs n t = replicate (length cs) DefaultData"
  by (induction cs) auto

definition real_answer :: "call \<Rightarrow> breaker_answer" where
  "real_answer c = (case c of (now, now2, fails, key) \<Rightarrow> if fails then QueryFailed else UserData key)"

definition call_fails :: "call \<Rightarrow> bool" where
  "call_fails c = fst (snd (snd c))"

text \<open>Real answers up to the third failure in a row, counting the \<open>n\<close> before, then default data.\<close>

lemma breaker_trips:
  assumes "n < 3" "\<forall>c \<in> set cs. \<forall>d \<in> set cs. fst c \<le> fst (snd d) + 5 * second"
  shows "\<exists>k \<le> length cs. breaker_spec cs n t = map real_answer (take k cs) @ replicate (length cs - k) DefaultData \<and>
    (k < length cs \<longrightarrow> 3 \<le> n + k \<and> (\<forall>c \<in> set (drop (k - 3) (take k cs)). call_fails c))"
  using assms
proof (induction cs arbitrary: n t)
  case (Cons c cs)
  obtain now now2 fails key where c: "c = (now, now2, fails, key)" by (cases c)
  have rest: "\<forall>c \<in> set cs. \<forall>d \<in> set cs. fst c \<le> fst (snd d) + 5 * second" using Cons.prems(2) by simp
  show ?case
  proof (cases "fails \<and> n = 2")
    case True
    have "\<forall>d \<in> set cs. fst d \<le> now2 + 5 * second" using Cons.prems(2) c by auto
    then have "breaker_spec cs 3 now2 = replicate (length cs) DefaultData" by (intro breaker_rests) simp_all
    then show ?thesis using True
      by (intro exI [of _ 1]) (simp add: c real_answer_def call_fails_def numeral_3_eq_3)
  next
    case False
    define n' where "n' = (if fails then n + 1 else 0)"
    have n': "n' < 3" using False Cons.prems(1) by (auto simp: n'_def)
    let ?t = "if fails then now2 else t"
    from Cons.IH [OF n' rest, of ?t] obtain k where k: "k \<le> length cs"
      "breaker_spec cs n' ?t = map real_answer (take k cs) @ replicate (length cs - k) DefaultData"
      "k < length cs \<longrightarrow> 3 \<le> n' + k \<and> (\<forall>c \<in> set (drop (k - 3) (take k cs)). call_fails c)" by blast
    have "breaker_spec (c # cs) n t = real_answer c # breaker_spec cs n' ?t"
      using Cons.prems(1) by (simp add: c n'_def real_answer_def)
    moreover have "3 \<le> n + Suc k \<and> (\<forall>d \<in> set (drop (Suc k - 3) (take (Suc k) (c # cs))). call_fails d)" if "k < length cs"
    proof -
      have r: "3 \<le> n' + k" "\<forall>d \<in> set (drop (k - 3) (take k cs)). call_fails d" using k(3) that by auto
      show ?thesis
      proof (cases "3 \<le> k")
        case True
        then have "Suc k - 3 = Suc (k - 3)" by simp
        then show ?thesis using r(2) True by simp
      next
        case False
        then have "fails" using r(1) by (auto simp: n'_def split: if_splits)
        then show ?thesis using r False by (simp add: n'_def c call_fails_def)
      qed
    qed
    ultimately show ?thesis using k(1,2) by (intro exI [of _ "Suc k"]) auto
  qed
qed simp

text \<open>In the second the demonstration takes, an open breaker does not close: after three failures in a row every answer is the
  default.\<close>

theorem breaker_stays_open:
  assumes "\<forall>i \<in> {1..10}. \<forall>j \<in> {1..10}. fst (calls i) \<le> fst (snd (calls j)) + 5 * second"
  shows "\<exists>k \<le> 10. DemoCircuitBreaker calls =
      map (\<lambda>i. if snd (snd (calls i)) then QueryFailed else UserData (user_key i)) [1..<Suc k] @ replicate (10 - k) DefaultData \<and>
    (k < 10 \<longrightarrow> 3 \<le> k \<and> snd (snd (calls (k - 2))) \<and> snd (snd (calls (k - 1))) \<and> snd (snd (calls k)))"
proof -
  let ?call = "\<lambda>i. case calls i of (now, now2, fails) \<Rightarrow> (now, now2, fails, user_key i)"
  let ?cs = "map ?call [1..<11]"
  have len: "length ?cs = 10" by (simp only: length_map length_upt)
  have mem: "\<exists>i \<in> {1..10}. c = ?call i" if "c \<in> set ?cs" for c using that by auto
  have "fst c \<le> fst (snd d) + 5 * second" if cd: "c \<in> set ?cs" "d \<in> set ?cs" for c d
  proof -
    obtain i j where ij: "i \<in> {1..10}" "j \<in> {1..10}" "c = ?call i" "d = ?call j" using mem [OF cd(1)] mem [OF cd(2)] by blast
    have "fst (calls i) \<le> fst (snd (calls j)) + 5 * second" using assms ij(1,2) by blast
    then show ?thesis by (simp add: ij(3,4) split_beta)
  qed
  then obtain k where k: "k \<le> length ?cs"
    "breaker_spec ?cs 0 0 = map real_answer (take k ?cs) @ replicate (length ?cs - k) DefaultData"
    "k < length ?cs \<longrightarrow> 3 \<le> 0 + k \<and> (\<forall>c \<in> set (drop (k - 3) (take k ?cs)). call_fails c)"
    using breaker_trips [of 0 ?cs 0] by auto
  have run: "DemoCircuitBreaker calls = breaker_spec ?cs 0 0"
    unfolding DemoCircuitBreaker_def breaker_calls_run breaker_run_spec ..
  have k10: "k \<le> 10" using k(1) unfolding len .
  have take: "take k ?cs = map ?call [1..<Suc k]" using k10 by (simp add: take_map take_upt del: upt_Suc upt_rec_numeral)
  have real: "map real_answer (take k ?cs) = map (\<lambda>i. if snd (snd (calls i)) then QueryFailed else UserData (user_key i)) [1..<Suc k]"
    unfolding take by (simp add: real_answer_def split_beta comp_def del: upt_Suc)
  have "3 \<le> k \<and> snd (snd (calls (k - 2))) \<and> snd (snd (calls (k - 1))) \<and> snd (snd (calls k))" if "k < 10"
  proof -
    have r: "3 \<le> k" "\<forall>c \<in> set (drop (k - 3) (map ?call [1..<Suc k])). call_fails c" using k(3) that len take by auto
    have "drop (k - 3) (map ?call [1..<Suc k]) = map ?call [k - 2..<Suc k]"
    proof -
      have "1 + (k - 3) = k - 2" using r(1) by simp
      then show ?thesis unfolding drop_map drop_upt by (simp only:)
    qed
    then have "\<forall>i \<in> {k - 2..<Suc k}. snd (snd (calls i))" using r(2) by (simp add: call_fails_def split_beta del: upt_Suc)
    moreover have "k - 2 \<in> {k - 2..<Suc k}" "k - 1 \<in> {k - 2..<Suc k}" "k \<in> {k - 2..<Suc k}" by auto
    ultimately show ?thesis using r(1) by blast
  qed
  then show ?thesis using k(2) run real len k10 by (intro exI [of _ k]) simp
qed

section \<open>Missing keys and the database\<close>

lemma user_data_none:
  assumes "digits_val s = 0 \<or> 100 < digits_val s"
  shows "user_data (''user:'' @ s) = None"
proof -
  have "''user:'' @ s \<notin> set (map user_key [1..<101])"
  proof
    assume "''user:'' @ s \<in> set (map user_key [1..<101])"
    then obtain i where "1 \<le> i" "i \<le> 100" "s = Itoa i" by (auto simp: user_key_def)
    then show False using assms by (auto simp: Itoa_def digits_val_digits)
  qed
  moreover have "fst ` set (map (\<lambda>i. (user_key i, user_value i)) [1..<101]) = set (map user_key [1..<101])"
    by (simp only: set_map image_image fst_conv)
  ultimately show ?thesis unfolding user_data_def map_of_eq_None_iff by (simp only: not_False_eq_True)
qed

lemma malicious_missing: "k \<in> set malicious_keys \<Longrightarrow> user_data k = None"
  using user_data_none [of "''999999''"] user_data_none [of "''888888''"] user_data_none [of "''777777''"]
    user_data_none [of "''666666''"] user_data_none [of "''555555''"] user_data_none [of "''444444''"]
    user_data_none [of "''333333''"] user_data_none [of "''222222''"] user_data_none [of "''111111''"] user_data_none [of "''000000''"]
  by (auto simp: malicious_keys_def digits_val_def)

lemma sd_Query_cases:
  "sd_data db key = Some v \<Longrightarrow> sd_Query key db = (Some v, db\<lparr> sd_queryCount := sd_queryCount db + 1 \<rparr>)"
  "sd_data db key = None \<Longrightarrow> sd_Query key db =
     (None, db\<lparr> sd_queryCount := sd_queryCount db + 1, invalidQueries := invalidQueries db + 1 \<rparr>)"
  by (simp_all add: sd_Query_def Let_def)

lemma plain_missing:
  assumes "\<forall>k \<in> set keys. sd_data db k = None \<and> nc_data cache k = None"
  shows "plain_queries clk keys (cache, db) = (cache, db\<lparr> sd_queryCount := sd_queryCount db + int (length keys),
    invalidQueries := invalidQueries db + int (length keys) \<rparr>)"
proof -
  have "fold (\<lambda>i. plain_query (clk i) (keys ! i)) [0..<n] (cache, db) =
      (cache, db\<lparr> sd_queryCount := sd_queryCount db + int n, invalidQueries := invalidQueries db + int n \<rparr>)" if "n \<le> length keys" for n
    using that
  proof (induction n)
    case (Suc n)
    then have "sd_data db (keys ! n) = None" "nc_data cache (keys ! n) = None" using assms by auto
    then show ?case using Suc by (simp add: plain_query_def nc_Get_def sd_Query_cases split_beta)
  qed simp
  then show ?thesis by (simp add: plain_queries_def)
qed

lemma eq_char_of: "c = char_of (n :: nat) \<longleftrightarrow> take_bit 8 n = of_char c"
  by (subst eq_commute) (rule char_of_eq_iff)

lemma user_texts: "''user:1'' = user_key 1" "''user:2'' = user_key 2" "''user:3'' = user_key 3" "''user:50'' = user_key 50"
  "''user:100'' = user_key 100" "''user:999'' = user_key 999" "''user:888'' = user_key 888" "''user:777'' = user_key 777"
  "''user:999999'' = user_key 999999"
  by (simp_all add: user_key_def Itoa_def digits.simps eq_char_of)

lemma user_data_iff: "user_data (user_key i) = (if 1 \<le> i \<and> i \<le> 100 then Some (user_value i) else None)"
  using user_data user_data_none [of "Itoa i"] by (auto simp: user_key_def Itoa_def digits_val_digits)

text \<open>Without a remedy every query for a missing key reaches the database.\<close>

theorem penetration_statistics: "DemoPenetrationProblem clk1 clk2 = ((3, 0), (10, 10))"
proof -
  obtain cache db where n: "plain_queries clk1 normal_keys (nc_New, sd_New) = (cache, db)" by fastforce
  have m: "sd_data db = user_data \<and> sd_GetStats db = (3, 0) \<and>
      (\<exists>x y z. nc_data cache = [user_key 1 \<mapsto> x, user_key 2 \<mapsto> y, user_key 3 \<mapsto> z])"
    using n by (force simp: plain_queries_def normal_keys_def user_texts plain_query_def nc_Get_def nc_New_def nc_Set_def
        sd_New_def sd_Query_cases user_data_iff sd_GetStats_def split_beta)
  then obtain x y z where "nc_data cache = [user_key 1 \<mapsto> x, user_key 2 \<mapsto> y, user_key 3 \<mapsto> z]" by blast
  then have "dom (nc_data cache) = {user_key 3, user_key 2, user_key 1}" by simp
  with m have r: "sd_data db = user_data" "sd_GetStats db = (3, 0)" "dom (nc_data cache) = set normal_keys"
    by (auto simp: normal_keys_def user_texts)
  have "\<forall>k \<in> set malicious_keys. sd_data (sd_ResetStats db) k = None \<and> nc_data cache k = None"
  proof
    fix k assume k: "k \<in> set malicious_keys"
    then have "k \<notin> set normal_keys" by (auto simp: malicious_keys_def normal_keys_def)
    then have "k \<notin> dom (nc_data cache)" using r by simp
    then show "sd_data (sd_ResetStats db) k = None \<and> nc_data cache k = None"
      using r malicious_missing [OF k] by (auto simp: sd_ResetStats_def)
  qed
  from plain_missing [OF this, of clk2] show ?thesis
    using n r by (simp add: DemoPenetrationProblem_def sd_GetStats_def sd_ResetStats_def) (simp add: malicious_keys_def)
qed

text \<open>A cached null value answers the second query; once it has expired the database is asked again.\<close>

theorem null_cache_statistics:
  assumes "fst (clk 1) \<le> snd (clk 0) + 30 * second" "snd (clk 0) + 30 * second < fst (clk 2)"
  shows "DemoNullCacheSolution clk = (1, 0, 1)"
proof -
  let ?k = "''user:999999''"
  have data: "user_data ?k = None" by (simp add: user_texts user_data_iff)
  then have "queryWithNullCache (fst (clk 0)) (snd (clk 0)) ?k (nc_New, sd_ResetStats sd_New) =
      (None, SetNull (snd (clk 0)) ?k (30 * second) nc_New, snd (sd_Query ?k (sd_ResetStats sd_New)))"
    by (simp add: queryWithNullCache_def nc_Get_def nc_New_def sd_Query_cases sd_ResetStats_def sd_New_def)
  moreover have "queryWithNullCache (fst (clk 1)) (snd (clk 1)) ?k (SetNull (snd (clk 0)) ?k (30 * second) nc_New, db) =
      (None, SetNull (snd (clk 0)) ?k (30 * second) nc_New, db)" for db
    using assms(1) by (simp add: queryWithNullCache_def nc_Get_def SetNull_def)
  moreover have "queryWithNullCache (fst (clk 2)) (snd (clk 2)) ?k (SetNull (snd (clk 0)) ?k (30 * second) nc_New, db) =
      (fst (sd_Query ?k db), SetNull (snd (clk 2)) ?k (30 * second) (SetNull (snd (clk 0)) ?k (30 * second) nc_New), snd (sd_Query ?k db))"
    if "sd_data db ?k = None" for db
    using assms(2) that by (simp add: queryWithNullCache_def nc_Get_def SetNull_def sd_Query_cases)
  ultimately show ?thesis
    using data by (simp add: DemoNullCacheSolution_def sd_GetStats_def sd_ResetStats_def sd_New_def sd_Query_cases)
qed

text \<open>The Bloom filter lets every known key pass; of the queries for missing keys only its false positives reach the database.\<close>

lemma foldM_map: "foldM f (map g xs) s = foldM (\<lambda>x. f (g x)) xs s"
  by (induction xs arbitrary: s) (auto split: bind_splits)

lemma bloom_query_known:
  assumes "MightContain (user_key i) bf = Some True" "1 \<le> i" "i \<le> 100" "sd_data db = user_data" "nc_data cache (user_key i) = None"
  shows "queryWithBloomFilter bf now now2 (user_key i) (cache, db) =
    Some (Some (user_value i), nc_Set now2 (user_key i) (user_value i) (60 * second) cache, db\<lparr> sd_queryCount := sd_queryCount db + 1 \<rparr>)"
  using assms by (simp add: queryWithBloomFilter_def nc_Get_def sd_Query_cases user_data_iff)

lemma bloom_query_unknown:
  assumes "MightContain (user_key i) bf = Some b" "100 < i" "sd_data db = user_data" "nc_data cache (user_key i) = None"
  shows "queryWithBloomFilter bf now now2 (user_key i) (cache, db) =
    Some (None, if b then SetNull now2 (user_key i) (10 * second) cache else cache,
      if b then db\<lparr> sd_queryCount := sd_queryCount db + 1, invalidQueries := invalidQueries db + 1 \<rparr> else db)"
  using assms by (simp add: queryWithBloomFilter_def nc_Get_def sd_Query_cases user_data_iff)

theorem bloom_filter_statistics:
  "\<exists>known unknown n. DemoBloomFilterSolution clk =
     Some (map Some known, map Some unknown,
       [Some (user_value 1), None, Some (user_value 2), None, Some (user_value 3)], 3 + n, n) \<and>
     known = [True, True, True] \<and> length unknown = 3 \<and> n = int (length (filter id (take 2 unknown)))"
proof -
  let ?items = "map user_key [1..<101]"
  obtain bf where bf: "foldM bf_Add ?items (NewBloomFilter 1000 3) = Some bf"
    and yes: "\<And>x. x \<in> set ?items \<Longrightarrow> MightContain x bf = Some True"
    and total: "\<And>x. \<exists>b. MightContain x bf = Some b"
    using bloom_answers [of 1000 ?items 3] by auto
  have known: "MightContain (user_key i) bf = Some True" if "1 \<le> i" "i \<le> 100" for i using yes that by auto
  obtain b1 b2 b3 where u: "MightContain (user_key 999) bf = Some b1" "MightContain (user_key 888) bf = Some b2"
    "MightContain (user_key 777) bf = Some b3" using total by metis
  have add: "foldM (\<lambda>i. bf_Add (user_key i)) [1..<101] (NewBloomFilter 1000 3) = Some bf" using bf by (simp only: foldM_map)
  note upd = nc_Set_def SetNull_def nc_New_def sd_New_def sd_ResetStats_def
  have "\<exists>c. bloom_queries bf clk 0 [user_key 1, user_key 999, user_key 2, user_key 888, user_key 3] (nc_New, sd_ResetStats sd_New) =
      Some ([Some (user_value 1), None, Some (user_value 2), None, Some (user_value 3)], c,
        \<lparr> sd_data = user_data, sd_queryCount = 3 + (if b1 then 1 else 0) + (if b2 then 1 else 0),
          invalidQueries = (if b1 then 1 else 0) + (if b2 then 1 else 0) \<rparr>)"
    by (cases b1; cases b2) (simp_all add: bloom_query_known bloom_query_unknown known u upd)
  then obtain c where q: "bloom_queries bf clk 0 [user_key 1, user_key 999, user_key 2, user_key 888, user_key 3] (nc_New, sd_ResetStats sd_New) =
      Some ([Some (user_value 1), None, Some (user_value 2), None, Some (user_value 3)], c,
        \<lparr> sd_data = user_data, sd_queryCount = 3 + (if b1 then 1 else 0) + (if b2 then 1 else 0),
          invalidQueries = (if b1 then 1 else 0) + (if b2 then 1 else 0) \<rparr>)" by blast
  show ?thesis
    unfolding DemoBloomFilterSolution_def user_texts add Option.bind.simps q prod.case Let_def
    by (intro exI [of _ "[True, True, True]"] exI [of _ "[b1, b2, b3]"] exI [of _ "(if b1 then 1 else 0) + (if b2 then 1 else 0)"])
      (auto simp: known u sd_GetStats_def)
qed

text \<open>Exactly the key accessed more than eighty times is reported.\<close>

theorem hot_keys_reported:
  assumes "is_order (hot_map clk) order"
  shows "set (DemoHotDataMonitoring clk order) = {(''user:1'', 100, True), (''user:2'', 10, False), (''product:1'', 50, False)}"
proof -
  have count: "GetCount (accesses clk n \<lparr> accessCount = 0, hs_lastAccess = 0 \<rparr>) = int n" for n
    by (induction n) (simp_all add: accesses_def GetCount_def Access_def)
  have map: "hot_map clk ''user:1'' = Some (accesses clk 100 \<lparr> accessCount = 0, hs_lastAccess = 0 \<rparr>)"
    "hot_map clk ''user:2'' = Some (accesses clk 10 \<lparr> accessCount = 0, hs_lastAccess = 0 \<rparr>)"
    "hot_map clk ''product:1'' = Some (accesses clk 50 \<lparr> accessCount = 0, hs_lastAccess = 0 \<rparr>)"
    by (simp_all add: hot_map_def Let_def)
  have "dom (hot_map clk) = {''product:1'', ''user:2'', ''user:1''}" by (simp add: hot_map_def Let_def)
  then have dom: "set order = {''product:1'', ''user:2'', ''user:1''}" using is_orderD(2) [OF assms] by simp
  have "set (List.map_filter f ks) = {y. \<exists>x \<in> set ks. f x = Some y}" for f :: "string \<Rightarrow> (string \<times> int \<times> bool) option" and ks
    by (force simp: List.map_filter_def)
  then have "set (DemoHotDataMonitoring clk order) =
      {y. \<exists>x \<in> {''product:1'', ''user:2'', ''user:1''}. map_option (\<lambda>h. (x, GetCount h, GetCount h > 80)) (hot_map clk x) = Some y}"
    unfolding DemoHotDataMonitoring_def dom [symmetric] by simp
  also have "\<dots> = {(''user:1'', 100, True), (''user:2'', 10, False), (''product:1'', 50, False)}"
    unfolding bex_simps map option.map count by auto
  finally show ?thesis .
qed

end
