(* ===== verification/Mutex_Cache.thy ===== *)
theory Mutex_Cache
  imports Ttl_Store
begin

text \<open>
  \<open>MutexCache\<close> of \<open>tutorial/03-problems/breakdown.go\<close>: the cache that loads a missing key under a lock of that key.
  The locks are objects that the map of the source points to, so the model allocates identifiers for them. First the
  operations one after the other, then \<open>GetOrSet\<close> in any number of goroutines, one step per critical section.
\<close>

section \<open>The operations\<close>

record mutex_cache =
  mx_data :: "string \<rightharpoonup> string ttl_item"
  mx_locks :: "string \<rightharpoonup> nat"
  mx_next :: nat

definition NewMutexCache :: mutex_cache where
  "NewMutexCache = \<lparr> mx_data = Map.empty, mx_locks = Map.empty, mx_next = 0 \<rparr>"

definition mx_Get :: "go_time \<Rightarrow> string \<Rightarrow> mutex_cache \<Rightarrow> string option" where
  "mx_Get now key c = live now (mx_data c key)"

definition mx_Set :: "go_time \<Rightarrow> string \<Rightarrow> string \<Rightarrow> duration \<Rightarrow> mutex_cache \<Rightarrow> mutex_cache" where
  "mx_Set now key v ttl c = c\<lparr> mx_data := put_item now key v ttl (mx_data c) \<rparr>"

definition key_lock :: "string \<Rightarrow> mutex_cache \<Rightarrow> nat \<times> mutex_cache" where
  "key_lock key c =
     (case mx_locks c key of
        Some l \<Rightarrow> (l, c)
      | None \<Rightarrow> (mx_next c, c\<lparr> mx_locks := (mx_locks c)(key \<mapsto> mx_next c), mx_next := mx_next c + 1 \<rparr>))"

text \<open>The loader is the caller's function; it acts on a world of its own. The clock is read by the two look-ups and the write.\<close>

definition GetOrSet ::
  "('w \<Rightarrow> ('e + string) \<times> 'w) \<Rightarrow> go_time \<times> go_time \<times> go_time \<Rightarrow> string \<Rightarrow> duration \<Rightarrow> mutex_cache \<times> 'w \<Rightarrow>
   ('e + string) \<times> mutex_cache \<times> 'w" where
  "GetOrSet loader ts key ttl = (\<lambda>(c, w). case ts of (n1, n2, n3) \<Rightarrow>
     (case mx_Get n1 key c of
        Some v \<Rightarrow> (Inr v, c, w)
      | None \<Rightarrow>
          (case key_lock key c of (l, c1) \<Rightarrow>
           case mx_Get n2 key c1 of
             Some v \<Rightarrow> (Inr v, c1, w)
           | None \<Rightarrow>
               (case loader w of
                  (Inl e, w1) \<Rightarrow> (Inl e, c1, w1)
                | (Inr v, w1) \<Rightarrow> (Inr v, mx_Set n3 key v ttl c1, w1)))))"

interpretation mutex: ttl_store mx_Get mx_Set
  by unfold_locales (simp add: mx_Get_def mx_Set_def live_put)

section \<open>Many goroutines\<close>

text \<open>The point a goroutine has reached in \<open>GetOrSet\<close>: its key, the lock it found, the value it loaded.\<close>

datatype 'e mx_pc =
    M_Get string | M_Lookup string | M_Wait string nat | M_Check string nat | M_Load string nat
  | M_Store string nat string | M_Unlock nat "'e + string" | M_Return "'e + string"

text \<open>
  The shared state: the cache, the holder of each lock, the clock and the results of the loader calls so far. The clock
  may advance between steps; a loader call may give any result.
\<close>

record 'e mx_state =
  mx_cache :: mutex_cache
  mx_held :: "nat \<rightharpoonup> nat"
  mx_now :: go_time
  mx_loads :: "(string \<times> ('e + string)) list"

inductive mx_next_pc :: "duration \<Rightarrow> nat \<Rightarrow> 'e mx_pc \<times> 'e mx_state \<Rightarrow> 'e mx_pc \<times> 'e mx_state \<Rightarrow> bool" for ttl i where
  hit: "mx_Get (mx_now s) k (mx_cache s) = Some v \<Longrightarrow> mx_next_pc ttl i (M_Get k, s) (M_Return (Inr v), s)"
| miss: "mx_Get (mx_now s) k (mx_cache s) = None \<Longrightarrow> mx_next_pc ttl i (M_Get k, s) (M_Lookup k, s)"
| lookup: "key_lock k (mx_cache s) = (l, c) \<Longrightarrow> mx_next_pc ttl i (M_Lookup k, s) (M_Wait k l, s\<lparr> mx_cache := c \<rparr>)"
| lock: "mx_held s l = None \<Longrightarrow> mx_next_pc ttl i (M_Wait k l, s) (M_Check k l, s\<lparr> mx_held := (mx_held s)(l \<mapsto> i) \<rparr>)"
| check_hit: "mx_Get (mx_now s) k (mx_cache s) = Some v \<Longrightarrow> mx_next_pc ttl i (M_Check k l, s) (M_Unlock l (Inr v), s)"
| check_miss: "mx_Get (mx_now s) k (mx_cache s) = None \<Longrightarrow> mx_next_pc ttl i (M_Check k l, s) (M_Load k l, s)"
| loaded: "mx_next_pc ttl i (M_Load k l, s) (M_Store k l v, s\<lparr> mx_loads := (k, Inr v) # mx_loads s \<rparr>)"
| failed: "mx_next_pc ttl i (M_Load k l, s) (M_Unlock l (Inl e), s\<lparr> mx_loads := (k, Inl e) # mx_loads s \<rparr>)"
| store: "mx_next_pc ttl i (M_Store k l v, s) (M_Unlock l (Inr v), s\<lparr> mx_cache := mx_Set (mx_now s) k v ttl (mx_cache s) \<rparr>)"
| unlock: "mx_next_pc ttl i (M_Unlock l r, s) (M_Return r, s\<lparr> mx_held := (mx_held s)(l := None) \<rparr>)"

inductive mx_step :: "duration \<Rightarrow> 'e mx_state \<times> (nat \<Rightarrow> 'e mx_pc) \<Rightarrow> 'e mx_state \<times> (nat \<Rightarrow> 'e mx_pc) \<Rightarrow> bool" for ttl where
  move: "mx_next_pc ttl i (pcs i, s) (p, s') \<Longrightarrow> mx_step ttl (s, pcs) (s', pcs(i := p))"
| tick: "mx_now s \<le> t \<Longrightarrow> mx_step ttl (s, pcs) (s\<lparr> mx_now := t \<rparr>, pcs)"

text \<open>What a goroutine does next, at each point.\<close>

inductive_simps mx_next_simps:
  "mx_next_pc ttl i (M_Get k, s) r" "mx_next_pc ttl i (M_Lookup k, s) r" "mx_next_pc ttl i (M_Wait k l, s) r"
  "mx_next_pc ttl i (M_Check k l, s) r" "mx_next_pc ttl i (M_Load k l, s) r" "mx_next_pc ttl i (M_Store k l v, s) r"
  "mx_next_pc ttl i (M_Unlock l x, s) r" "mx_next_pc ttl i (M_Return x, s) r"

definition successes :: "string \<Rightarrow> 'e mx_state \<Rightarrow> string list" where
  "successes k s = List.map_filter (\<lambda>(k', r). case r of Inl e \<Rightarrow> None | Inr v \<Rightarrow> if k' = k then Some v else None) (mx_loads s)"

lemma successes_Cons [simp]:
  "successes k (s\<lparr> mx_loads := (k', Inr v) # mx_loads s \<rparr>) = (if k' = k then v # successes k s else successes k s)"
  "successes k (s\<lparr> mx_loads := (k', Inl e) # mx_loads s \<rparr>) = successes k s"
  "successes k (s\<lparr> mx_cache := c \<rparr>) = successes k s" "successes k (s\<lparr> mx_held := h \<rparr>) = successes k s"
  "successes k (s\<lparr> mx_now := t \<rparr>) = successes k s"
  by (simp_all add: successes_def List.map_filter_def)

text \<open>The lock a goroutine owns, and the key and lock it works with.\<close>

fun owns :: "'e mx_pc \<Rightarrow> nat option" where
  "owns (M_Check k l) = Some l"
| "owns (M_Load k l) = Some l"
| "owns (M_Store k l v) = Some l"
| "owns (M_Unlock l r) = Some l"
| "owns _ = None"

fun uses :: "'e mx_pc \<Rightarrow> (string \<times> nat) option" where
  "uses (M_Wait k l) = Some (k, l)"
| "uses (M_Check k l) = Some (k, l)"
| "uses (M_Load k l) = Some (k, l)"
| "uses (M_Store k l v) = Some (k, l)"
| "uses _ = None"

definition table_ok :: "mutex_cache \<Rightarrow> bool" where
  "table_ok c \<longleftrightarrow>
     (\<forall>k k' l. mx_locks c k = Some l \<and> mx_locks c k' = Some l \<longrightarrow> k = k') \<and>
     (\<forall>k l. mx_locks c k = Some l \<longrightarrow> l < mx_next c)"

definition locks_ok :: "'e mx_state \<Rightarrow> (nat \<Rightarrow> 'e mx_pc) \<Rightarrow> bool" where
  "locks_ok s pcs \<longleftrightarrow>
     (\<forall>i l. owns (pcs i) = Some l \<longleftrightarrow> mx_held s l = Some i) \<and>
     (\<forall>i k l. uses (pcs i) = Some (k, l) \<longrightarrow> mx_locks (mx_cache s) k = Some l) \<and> table_ok (mx_cache s)"

lemma locks_okI:
  assumes "\<And>i l. owns (pcs i) = Some l \<longleftrightarrow> mx_held s l = Some i"
    and "\<And>i k l. uses (pcs i) = Some (k, l) \<Longrightarrow> mx_locks (mx_cache s) k = Some l" and "table_ok (mx_cache s)"
  shows "locks_ok s pcs"
  using assms by (simp add: locks_ok_def)

lemma key_lock_spec:
  assumes "key_lock k c = (l, c1)" "table_ok c"
  shows "mx_locks c1 k = Some l" "mx_locks c k' = Some l' \<Longrightarrow> mx_locks c1 k' = Some l'" "mx_data c1 = mx_data c" "table_ok c1"
proof -
  have "mx_locks c1 k = Some l \<and> (\<forall>k' l'. mx_locks c k' = Some l' \<longrightarrow> mx_locks c1 k' = Some l') \<and> mx_data c1 = mx_data c \<and> table_ok c1"
  proof (cases "mx_locks c k")
    case None
    then have c1: "l = mx_next c" "c1 = c\<lparr> mx_locks := (mx_locks c)(k \<mapsto> mx_next c), mx_next := mx_next c + 1 \<rparr>"
      using assms(1) by (auto simp: key_lock_def)
    have new: "mx_locks c k' \<noteq> Some (mx_next c)" for k' using assms(2) by (fastforce simp: table_ok_def)
    have "table_ok c1"
      using assms(2) new by (auto simp: table_ok_def c1 less_Suc_eq)
    then show ?thesis using None by (simp add: c1)
  next
    case (Some l0)
    then show ?thesis using assms by (auto simp: key_lock_def)
  qed
  then show "mx_locks c1 k = Some l" "mx_locks c k' = Some l' \<Longrightarrow> mx_locks c1 k' = Some l'" "mx_data c1 = mx_data c" "table_ok c1"
    by blast+
qed

text \<open>A step that leaves the locks alone keeps them in order; so do the three that do not.\<close>

lemma locks_keep:
  assumes "locks_ok s pcs" "mx_held s' = mx_held s" "mx_locks (mx_cache s') = mx_locks (mx_cache s)"
    and "mx_next (mx_cache s') = mx_next (mx_cache s)" "owns p' = owns (pcs i)" "uses p' = uses (pcs i) \<or> uses p' = None"
  shows "locks_ok s' (pcs(i := p'))"
proof (rule locks_okI)
  show "owns ((pcs(i := p')) j) = Some l \<longleftrightarrow> mx_held s' l = Some j" for j l
    using assms(1,2,5) by (simp add: locks_ok_def)
  show "mx_locks (mx_cache s') k = Some l" if "uses ((pcs(i := p')) j) = Some (k, l)" for j k l
    using that assms(1,3,6) by (auto simp: locks_ok_def split: if_splits)
  show "table_ok (mx_cache s')" using assms(1,3,4) by (simp add: locks_ok_def table_ok_def)
qed

lemma locks_lookup:
  assumes "locks_ok s pcs" "pcs i = M_Lookup k" "key_lock k (mx_cache s) = (l, c)"
  shows "locks_ok (s\<lparr> mx_cache := c \<rparr>) (pcs(i := M_Wait k l))"
proof (rule locks_okI)
  have t: "table_ok (mx_cache s)" using assms(1) by (simp add: locks_ok_def)
  note kl = key_lock_spec [OF assms(3) t]
  show "owns ((pcs(i := M_Wait k l)) j) = Some l' \<longleftrightarrow> mx_held (s\<lparr> mx_cache := c \<rparr>) l' = Some j" for j l'
  proof -
    have "owns (pcs j) = Some l' \<longleftrightarrow> mx_held s l' = Some j" using assms(1) by (simp add: locks_ok_def)
    then show ?thesis using assms(2) by (cases "j = i") simp_all
  qed
  show "mx_locks (mx_cache (s\<lparr> mx_cache := c \<rparr>)) k' = Some l'" if "uses ((pcs(i := M_Wait k l)) j) = Some (k', l')" for j k' l'
    using that kl(1,2) assms(1) by (auto simp: locks_ok_def split: if_splits)
  show "table_ok (mx_cache (s\<lparr> mx_cache := c \<rparr>))" using kl(4) by simp
qed

lemma locks_lock:
  assumes "locks_ok s pcs" "pcs i = M_Wait k l" "mx_held s l = None"
  shows "locks_ok (s\<lparr> mx_held := (mx_held s)(l \<mapsto> i) \<rparr>) (pcs(i := M_Check k l))"
proof (rule locks_okI)
  have own: "owns (pcs j) = Some l' \<longleftrightarrow> mx_held s l' = Some j" for j l' using assms(1) by (simp add: locks_ok_def)
  have "owns (pcs i) = None" using assms(2) by simp
  then show "owns ((pcs(i := M_Check k l)) j) = Some l' \<longleftrightarrow> mx_held (s\<lparr> mx_held := (mx_held s)(l \<mapsto> i) \<rparr>) l' = Some j" for j l'
    using own [of j l'] own [of j l] own [of i l'] assms(3) by (cases "j = i"; cases "l' = l") auto
  show "mx_locks (mx_cache (s\<lparr> mx_held := (mx_held s)(l \<mapsto> i) \<rparr>)) k' = Some l'"
    if "uses ((pcs(i := M_Check k l)) j) = Some (k', l')" for j k' l'
  proof (cases "j = i")
    case True
    then have "uses (pcs i) = Some (k', l')" using that assms(2) by simp
    then show ?thesis using assms(1) unfolding locks_ok_def by simp
  next
    case False
    then have "uses (pcs j) = Some (k', l')" using that by simp
    then show ?thesis using assms(1) unfolding locks_ok_def by simp
  qed
  show "table_ok (mx_cache (s\<lparr> mx_held := (mx_held s)(l \<mapsto> i) \<rparr>))" using assms(1) by (simp add: locks_ok_def)
qed

lemma locks_unlock:
  assumes "locks_ok s pcs" "pcs i = M_Unlock l r"
  shows "locks_ok (s\<lparr> mx_held := (mx_held s)(l := None) \<rparr>) (pcs(i := M_Return r))"
proof (rule locks_okI)
  have own: "owns (pcs j) = Some l' \<longleftrightarrow> mx_held s l' = Some j" for j l' using assms(1) by (simp add: locks_ok_def)
  have "owns (pcs i) = Some l" using assms(2) by simp
  then show "owns ((pcs(i := M_Return r)) j) = Some l' \<longleftrightarrow> mx_held (s\<lparr> mx_held := (mx_held s)(l := None) \<rparr>) l' = Some j" for j l'
    using own [of j l'] own [of i l] own [of i l'] by (cases "j = i"; cases "l' = l") auto
  show "mx_locks (mx_cache (s\<lparr> mx_held := (mx_held s)(l := None) \<rparr>)) k' = Some l'"
    if "uses ((pcs(i := M_Return r)) j) = Some (k', l')" for j k' l'
    using that assms(1) by (auto simp: locks_ok_def split: if_splits)
  show "table_ok (mx_cache (s\<lparr> mx_held := (mx_held s)(l := None) \<rparr>))" using assms(1) by (simp add: locks_ok_def)
qed

lemma next_locks:
  assumes "mx_next_pc ttl i (p, s) (p', s')" "locks_ok s pcs" "pcs i = p"
  shows "locks_ok s' (pcs(i := p'))"
  using assms(1)
proof (cases rule: mx_next_pc.cases)
  case (lookup k l c)
  then show ?thesis using locks_lookup [OF assms(2), of i k l c] assms(3) by simp
next
  case (lock l k)
  then show ?thesis using locks_lock [OF assms(2), of i k l] assms(3) by simp
next
  case (unlock l r)
  then show ?thesis using locks_unlock [OF assms(2), of i l] assms(3) by simp
next
  case store
  then show ?thesis using assms(3) by (intro locks_keep [OF assms(2)]) (simp_all add: mx_Set_def)
qed (use assms(3) in \<open>intro locks_keep [OF assms(2)]; simp\<close>)+

section \<open>One successful load\<close>

text \<open>
  While no entry written since \<open>t0\<close> can have expired: a goroutine that stores has made the one successful load, one that is
  about to load follows none, and otherwise the loaded value is in the cache and is what everybody answers.
\<close>

fun pc_ok :: "string \<Rightarrow> string \<Rightarrow> string list \<Rightarrow> 'e mx_pc \<Rightarrow> bool" where
  "pc_ok k own vs (M_Store k' l v) \<longleftrightarrow> (k' = k \<longrightarrow> vs = [v])"
| "pc_ok k own vs (M_Load k' l) \<longleftrightarrow> (k' = k \<longrightarrow> vs = [])"
| "pc_ok k own vs (M_Unlock l (Inr v)) \<longleftrightarrow> (own = k \<longrightarrow> vs = [v])"
| "pc_ok k own vs (M_Return (Inr v)) \<longleftrightarrow> (own = k \<longrightarrow> vs = [v])"
| "pc_ok k own vs _ \<longleftrightarrow> True"

fun pc_key :: "'e mx_pc \<Rightarrow> string option" where
  "pc_key (M_Get k) = Some k"
| "pc_key (M_Lookup k) = Some k"
| "pc_key (M_Wait k l) = Some k"
| "pc_key (M_Check k l) = Some k"
| "pc_key (M_Load k l) = Some k"
| "pc_key (M_Store k l v) = Some k"
| "pc_key _ = None"

fun storing :: "string \<Rightarrow> 'e mx_pc \<Rightarrow> bool" where
  "storing k (M_Store k' l v) \<longleftrightarrow> k' = k"
| "storing k _ \<longleftrightarrow> False"

fun working :: "'e mx_pc \<Rightarrow> string option" where
  "working (M_Check k l) = Some k"
| "working (M_Load k l) = Some k"
| "working (M_Store k l v) = Some k"
| "working _ = None"

text \<open>No entry, or one that had expired before \<open>t0\<close>.\<close>

definition stale :: "go_time \<Rightarrow> 'v ttl_item option \<Rightarrow> bool" where
  "stale t0 item = (case item of None \<Rightarrow> True | Some it \<Rightarrow> ti_ExpiresAt it < t0)"

lemma stale_simps [simp]: "stale t0 None" "stale t0 (Some it) \<longleftrightarrow> ti_ExpiresAt it < t0"
  by (simp_all add: stale_def)

definition data_ok :: "string \<Rightarrow> go_time \<Rightarrow> go_time \<Rightarrow> 'e mx_state \<Rightarrow> (nat \<Rightarrow> 'e mx_pc) \<Rightarrow> bool" where
  "data_ok k t0 deadline s pcs \<longleftrightarrow>
     (if stale t0 (mx_data (mx_cache s) k) then successes k s = [] \<or> (\<exists>i. storing k (pcs i))
      else successes k s = [ti_Value (the (mx_data (mx_cache s) k))] \<and> deadline \<le> ti_ExpiresAt (the (mx_data (mx_cache s) k)))"

definition single_ok :: "(nat \<Rightarrow> string) \<Rightarrow> string \<Rightarrow> go_time \<Rightarrow> go_time \<Rightarrow> 'e mx_state \<Rightarrow> (nat \<Rightarrow> 'e mx_pc) \<Rightarrow> bool" where
  "single_ok keyof k t0 deadline s pcs \<longleftrightarrow>
     (\<forall>i. pc_key (pcs i) \<in> {None, Some (keyof i)}) \<and> (\<forall>i. pc_ok k (keyof i) (successes k s) (pcs i)) \<and> data_ok k t0 deadline s pcs"

text \<open>The lock of a key excludes: one goroutine at most is between its second look-up and its write.\<close>

lemma working_lock: "working p = Some k \<Longrightarrow> \<exists>l. owns p = Some l \<and> uses p = Some (k, l)"
  by (cases p) auto

lemma one_working:
  assumes "locks_ok s pcs" "working (pcs i) = Some k" "working (pcs j) = Some k"
  shows "i = j"
proof -
  obtain l where l: "owns (pcs i) = Some l" "uses (pcs i) = Some (k, l)" using working_lock [OF assms(2)] by blast
  obtain l' where l': "owns (pcs j) = Some l'" "uses (pcs j) = Some (k, l')" using working_lock [OF assms(3)] by blast
  have "mx_locks (mx_cache s) k = Some l" "mx_locks (mx_cache s) k = Some l'"
    using assms(1) l(2) l'(2) unfolding locks_ok_def by blast+
  then have "mx_held s l = Some i" "mx_held s l = Some j" using assms(1) l(1) l'(1) unfolding locks_ok_def by auto
  then show ?thesis by simp
qed

lemma storing_working: "storing k p \<Longrightarrow> working p = Some k"
  by (cases p) auto

lemma look_hit:
  assumes "data_ok k t0 d s pcs" "mx_Get (mx_now s) k (mx_cache s) = Some v" "t0 \<le> mx_now s"
  shows "successes k s = [v]"
  using assms by (auto simp: data_ok_def mx_Get_def live_def split: option.splits if_splits)

lemma look_miss:
  assumes "data_ok k t0 d s pcs" "mx_Get (mx_now s) k (mx_cache s) = None" "mx_now s \<le> d"
  shows "stale t0 (mx_data (mx_cache s) k)" "successes k s = [] \<or> (\<exists>i. storing k (pcs i))"
  using assms by (auto simp: data_ok_def mx_Get_def live_def split: option.splits if_splits)

lemma single_keep:
  assumes "single_ok keyof k t0 d s pcs" "successes k s' = successes k s" "mx_data (mx_cache s') k = mx_data (mx_cache s) k"
    and "pc_key p' \<in> {None, Some (keyof i)}" "pc_ok k (keyof i) (successes k s) p'" "storing k (pcs i) \<longrightarrow> storing k p'"
  shows "single_ok keyof k t0 d s' (pcs(i := p'))"
proof -
  have ex: "\<exists>j. storing k ((pcs(i := p')) j)" if "\<exists>j. storing k (pcs j)" using that assms(6) by (metis fun_upd_apply)
  have d: "data_ok k t0 d s pcs" using assms(1) by (simp add: single_ok_def)
  have "data_ok k t0 d s' (pcs(i := p'))"
  proof (cases "stale t0 (mx_data (mx_cache s) k)")
    case True
    then have "successes k s = [] \<or> (\<exists>j. storing k (pcs j))" using d by (simp add: data_ok_def)
    then have "successes k s = [] \<or> (\<exists>j. storing k ((pcs(i := p')) j))" using ex by blast
    then show ?thesis unfolding data_ok_def assms(2,3) using True by simp
  next
    case False
    then show ?thesis using d by (simp add: data_ok_def assms(2,3))
  qed
  then show ?thesis using assms(1,2,4,5) by (simp add: single_ok_def)
qed

lemma single_loaded:
  assumes ok: "single_ok keyof k t0 d s pcs" and locks: "locks_ok s pcs" and i: "pcs i = M_Load k l"
  shows "single_ok keyof k t0 d (s\<lparr> mx_loads := (k, Inr v) # mx_loads s \<rparr>) (pcs(i := M_Store k l v))"
proof -
  have none: "successes k s = []" using ok i unfolding single_ok_def by (metis pc_ok.simps(2))
  have other: "working (pcs j) \<noteq> Some k" if "j \<noteq> i" for j using one_working [OF locks, of i k j] i that by auto
  have old: "pc_ok k (keyof j) [] (pcs j)" for j using ok none by (simp add: single_ok_def)
  have "pc_ok k (keyof j) [v] ((pcs(i := M_Store k l v)) j)" for j
  proof (cases "j = i")
    case False
    then show ?thesis using old [of j] other [of j] by (cases "(k, keyof j, [] :: string list, pcs j)" rule: pc_ok.cases) auto
  qed simp
  moreover have "data_ok k t0 d (s\<lparr> mx_loads := (k, Inr v) # mx_loads s \<rparr>) (pcs(i := M_Store k l v))"
    using ok none by (auto simp: single_ok_def data_ok_def split: option.splits)
  moreover have "pc_key ((pcs(i := M_Store k l v)) j) \<in> {None, Some (keyof j)}" for j
  proof -
    have "pc_key (pcs j) \<in> {None, Some (keyof j)}" using ok by (simp add: single_ok_def)
    then show ?thesis using i by auto
  qed
  ultimately show ?thesis using none by (simp add: single_ok_def)
qed

lemma single_store:
  assumes ok: "single_ok keyof k t0 d s pcs" and i: "pcs i = M_Store k l v" and d: "d \<le> mx_now s + ttl" "t0 \<le> d"
  shows "single_ok keyof k t0 d (s\<lparr> mx_cache := mx_Set (mx_now s) k v ttl (mx_cache s) \<rparr>) (pcs(i := M_Unlock l (Inr v)))"
proof -
  have vs: "successes k s = [v]" using ok i unfolding single_ok_def by (metis pc_ok.simps(1))
  then have "data_ok k t0 d (s\<lparr> mx_cache := mx_Set (mx_now s) k v ttl (mx_cache s) \<rparr>) (pcs(i := M_Unlock l (Inr v)))"
    using d by (simp add: data_ok_def mx_Set_def put_item_def)
  then show ?thesis using ok vs by (simp add: single_ok_def)
qed

lemma single_step:
  assumes step: "mx_next_pc ttl i (pcs i, s) (p', s')" and locks: "locks_ok s pcs" and ok: "single_ok keyof k t0 d s pcs"
    and now: "mx_now s \<le> d" "d \<le> mx_now s + ttl" "t0 \<le> mx_now s"
  shows "single_ok keyof k t0 d s' (pcs(i := p'))"
proof -
  have data: "data_ok k t0 d s pcs" and key: "pc_key (pcs i) \<in> {None, Some (keyof i)}"
    and pc: "pc_ok k (keyof i) (successes k s) (pcs i)" using ok by (simp_all add: single_ok_def)
  show ?thesis
    using step
  proof (cases rule: mx_next_pc.cases)
    case (hit k' v)
    have "keyof i = k \<longrightarrow> successes k s = [v]" using look_hit [OF data] now(3) hit key by auto
    then show ?thesis using hit by (intro single_keep [OF ok]) auto
  next
    case (check_hit k' v l)
    have "keyof i = k \<longrightarrow> successes k s = [v]" using look_hit [OF data] now(3) check_hit key by auto
    then show ?thesis using check_hit by (intro single_keep [OF ok]) auto
  next
    case (check_miss k' l)
    have "k' = k \<longrightarrow> successes k s = []"
    proof
      assume k: "k' = k"
      have "\<not> storing k (pcs j)" for j
      proof
        assume j: "storing k (pcs j)"
        have "working (pcs i) = Some k" using check_miss(1) k by (metis working.simps(1))
        then have "j = i" using one_working [OF locks storing_working [OF j]] by blast
        then show False using j check_miss(1) by (metis storing.simps(5))
      qed
      then show "successes k s = []" using look_miss(2) [OF data _ now(1)] check_miss k by auto
    qed
    then show ?thesis using check_miss key by (intro single_keep [OF ok]) auto
  next
    case (lookup k' l c)
    have "mx_data c = mx_data (mx_cache s)"
      using key_lock_spec(3) [OF lookup(4)] locks by (simp add: locks_ok_def)
    then show ?thesis using lookup key by (intro single_keep [OF ok]) auto
  next
    case (loaded k' l v)
    show ?thesis
    proof (cases "k' = k")
      case True
      then show ?thesis using single_loaded [OF ok locks, of i l v] loaded by simp
    next
      case False
      then show ?thesis using loaded key by (intro single_keep [OF ok]) auto
    qed
  next
    case (store k' l v)
    show ?thesis
    proof (cases "k' = k")
      case True
      then show ?thesis using single_store [OF ok, of i l v ttl] store now by simp
    next
      case False
      have "keyof i \<noteq> k" using key store False by auto
      then show ?thesis using store False by (intro single_keep [OF ok]) (auto simp: mx_Set_def put_item_def)
    qed
  next
    case (unlock l r)
    have "pc_ok k (keyof i) (successes k s) (M_Return r)" using pc unlock by (cases r) auto
    then show ?thesis using unlock by (intro single_keep [OF ok]) auto
  next
    case (miss k')
    then show ?thesis using key by (intro single_keep [OF ok]) auto
  next
    case (lock l k')
    then show ?thesis using key by (intro single_keep [OF ok]) auto
  next
    case (failed k' l e)
    then show ?thesis by (intro single_keep [OF ok]) auto
  qed
qed


definition mx_start :: "mutex_cache \<Rightarrow> go_time \<Rightarrow> 'e mx_state" where
  "mx_start c t = \<lparr> mx_cache = c, mx_held = Map.empty, mx_now = t, mx_loads = [] \<rparr>"

lemma start_ok:
  assumes "table_ok c"
  shows "locks_ok (mx_start c t) (\<lambda>i. M_Get (keyof i))"
    "stale t0 (mx_data c k) \<Longrightarrow> single_ok keyof k t0 d (mx_start c t) (\<lambda>i. M_Get (keyof i))"
  using assms by (simp_all add: locks_ok_def mx_start_def single_ok_def data_ok_def successes_def List.map_filter_def)

lemma mx_start_simps [simp]: "mx_now (mx_start c t) = t" "mx_cache (mx_start c t) = c"
  by (simp_all add: mx_start_def)

lemma table_ok_New [simp]: "table_ok NewMutexCache" "table_ok (mx_Set now k v ttl c) \<longleftrightarrow> table_ok c"
  by (simp_all add: table_ok_def NewMutexCache_def mx_Set_def)

lemma run_ok:
  assumes "(mx_step ttl)\<^sup>*\<^sup>* (mx_start c t0, \<lambda>i. M_Get (keyof i)) (s, pcs)" "table_ok c" "stale t0 (mx_data c k)"
  shows "locks_ok s pcs \<and> t0 \<le> mx_now s \<and> (mx_now s \<le> t0 + ttl \<longrightarrow> single_ok keyof k t0 (t0 + ttl) s pcs)"
  using assms(1)
proof (induction rule: rtranclp_induct2)
  case refl
  show ?case by (simp add: start_ok [OF assms(2)] assms(3))
next
  case (step s pcs s' pcs')
  from step.hyps(2) show ?case
  proof (cases rule: mx_step.cases)
    case (move i p)
    have "mx_now s' = mx_now s" using move(2) by (cases rule: mx_next_pc.cases) simp_all
    moreover have "locks_ok s' pcs'" using next_locks [OF move(2), of pcs] step.IH move(1) by simp
    moreover have "single_ok keyof k t0 (t0 + ttl) s' pcs'" if "mx_now s \<le> t0 + ttl"
      using single_step [where pcs = pcs and keyof = keyof and k = k and d = "t0 + ttl", OF move(2)] step.IH that move(1) by simp
    ultimately show ?thesis using step.IH by simp
  next
    case (tick t)
    have "single_ok keyof k t0 (t0 + ttl) (s\<lparr> mx_now := t \<rparr>) pcs" if "single_ok keyof k t0 (t0 + ttl) s pcs"
      using that by (simp add: single_ok_def data_ok_def)
    then show ?thesis using step.IH tick by (simp add: locks_ok_def)
  qed
qed

text \<open>C33: when any number of goroutines ask for any keys at the same time, each key is loaded by one goroutine at a time; if
  the cache has no entry for a key, or one that has expired, then until a new entry can expire there is at most one successful
  load of the key and every answer is its value.\<close>

theorem one_load_per_key:
  assumes "(mx_step ttl)\<^sup>*\<^sup>* (mx_start c t0, \<lambda>i. M_Get (keyof i)) (s, pcs)" "table_ok c" "stale t0 (mx_data c k)"
  shows "(pcs i = M_Load k l \<and> pcs j = M_Load k l' \<longrightarrow> i = j) \<and>
    (mx_now s \<le> t0 + ttl \<longrightarrow> length (successes k s) \<le> 1 \<and>
      (\<forall>i v. keyof i = k \<and> pcs i = M_Return (Inr v) \<longrightarrow> successes k s = [v]))"
proof (intro conjI impI allI; (elim conjE)?)
  note ok = run_ok [OF assms]
  show "i = j" if "pcs i = M_Load k l" "pcs j = M_Load k l'"
    using one_working [OF conjunct1 [OF ok], of i k j] that by simp
  assume now: "mx_now s \<le> t0 + ttl"
  then have single: "single_ok keyof k t0 (t0 + ttl) s pcs" using ok by simp
  show "successes k s = [v]" if "keyof i = k" "pcs i = M_Return (Inr v)" for i v
    using single that unfolding single_ok_def by (metis pc_ok.simps(4))
  show "length (successes k s) \<le> 1"
  proof (cases "stale t0 (mx_data (mx_cache s) k)")
    case False
    then show ?thesis using single by (simp add: single_ok_def data_ok_def)
  next
    case True
    then have "successes k s = [] \<or> (\<exists>i. storing k (pcs i))" using single by (simp add: single_ok_def data_ok_def)
    then show ?thesis
    proof (elim disjE exE)
      fix i
      assume "storing k (pcs i)"
      then obtain l v where "pcs i = M_Store k l v" by (cases "pcs i") auto
      then have "successes k s = [v]" using single unfolding single_ok_def by (metis pc_ok.simps(1))
      then show ?thesis by simp
    qed simp
  qed
qed

lemma run_extend:
  assumes "(mx_step ttl)\<^sup>*\<^sup>* c (s, pcs)" "mx_next_pc ttl i (pcs i, s) (p, s')"
  shows "(mx_step ttl)\<^sup>*\<^sup>* c (s', pcs(i := p))"
  using assms(1) mx_step.move [where ttl = ttl and pcs = pcs and i = i, OF assms(2)] by (rule rtranclp.rtrancl_into_rtrancl)

text \<open>A run in which two goroutines ask for one key and both miss: the first loads it, the second waits and then finds it.\<close>

definition stale_cache :: mutex_cache where
  "stale_cache = mx_Set 0 ''k'' ''old'' 2 NewMutexCache"

definition demo_cache :: mutex_cache where
  "demo_cache = stale_cache\<lparr> mx_locks := [''k'' \<mapsto> 0], mx_next := 1 \<rparr>"

definition demo_state :: "mutex_cache \<Rightarrow> nat option \<Rightarrow> (string \<times> (nat + string)) list \<Rightarrow> nat mx_state" where
  "demo_state c h ls = \<lparr> mx_cache = c, mx_held = Map.empty(0 := h), mx_now = 5, mx_loads = ls \<rparr>"

definition demo_pcs :: "nat mx_pc \<Rightarrow> nat mx_pc \<Rightarrow> nat \<Rightarrow> nat mx_pc" where
  "demo_pcs p q = ((\<lambda>i. M_Get ''k'')(0 := p, 1 := q))"

lemma demo_pcs_upd [simp]:
  "(demo_pcs p q)(0 := p') = demo_pcs p' q" "(demo_pcs p q)(Suc 0 := q') = demo_pcs p q'"
  "demo_pcs p q 0 = p" "demo_pcs p q (Suc 0) = q"
  by (auto simp: demo_pcs_def)

abbreviation demo_run :: "nat mx_state \<Rightarrow> nat mx_pc \<Rightarrow> nat mx_pc \<Rightarrow> bool" where
  "demo_run s p q \<equiv> (mx_step 5)\<^sup>*\<^sup>* (mx_start stale_cache 5, \<lambda>i. M_Get ''k'') (s, demo_pcs p q)"

lemma demo_first:
  assumes "demo_run s p q" "mx_next_pc 5 0 (p, s) (p', s')"
  shows "demo_run s' p' q"
  using run_extend [where i = 0, OF assms(1)] assms(2) by simp

lemma demo_second:
  assumes "demo_run s p q" "mx_next_pc 5 1 (q, s) (q', s')"
  shows "demo_run s' p q'"
  using run_extend [where i = 1, OF assms(1)] assms(2) by simp

lemma demo_reached:
  "demo_run (demo_state (mx_Set 5 ''k'' ''v'' 5 demo_cache) None [(''k'', Inr ''v'')])
     (M_Return (Inr ''v'')) (M_Return (Inr ''v''))"
proof -
  note eval = mx_next_simps mx_start_def stale_cache_def NewMutexCache_def mx_Get_def mx_Set_def put_item_def live_def demo_cache_def demo_state_def
    key_lock_def
  let ?s = "\<lambda>h. demo_state demo_cache h []" and ?l = "\<lambda>h. demo_state demo_cache h [(''k'', Inr ''v'')]"
    and ?t = "\<lambda>h. demo_state (mx_Set 5 ''k'' ''v'' 5 demo_cache) h [(''k'', Inr ''v'')]"
  have "demo_pcs (M_Get ''k'') (M_Get ''k'') = (\<lambda>i. M_Get ''k'')" by (auto simp: demo_pcs_def)
  then have "demo_run (mx_start stale_cache 5) (M_Get ''k'') (M_Get ''k'')" by simp
  then have "demo_run (mx_start stale_cache 5) (M_Lookup ''k'') (M_Get ''k'')" by (rule demo_first) (simp add: eval)
  then have "demo_run (mx_start stale_cache 5) (M_Lookup ''k'') (M_Lookup ''k'')" by (rule demo_second) (simp add: eval)
  then have "demo_run (?s None) (M_Wait ''k'' 0) (M_Lookup ''k'')" by (rule demo_first) (simp add: eval)
  then have "demo_run (?s None) (M_Wait ''k'' 0) (M_Wait ''k'' 0)" by (rule demo_second) (simp add: eval)
  then have "demo_run (?s (Some 0)) (M_Check ''k'' 0) (M_Wait ''k'' 0)" by (rule demo_first) (simp add: eval)
  then have "demo_run (?s (Some 0)) (M_Load ''k'' 0) (M_Wait ''k'' 0)" by (rule demo_first) (simp add: eval)
  then have "demo_run (?l (Some 0)) (M_Store ''k'' 0 ''v'') (M_Wait ''k'' 0)" by (rule demo_first) (simp add: eval)
  then have "demo_run (?t (Some 0)) (M_Unlock 0 (Inr ''v'')) (M_Wait ''k'' 0)" by (rule demo_first) (simp add: eval)
  then have "demo_run (?t None) (M_Return (Inr ''v'')) (M_Wait ''k'' 0)" by (rule demo_first) (simp add: eval)
  then have "demo_run (?t (Some 1)) (M_Return (Inr ''v'')) (M_Check ''k'' 0)" by (rule demo_second) (simp add: eval)
  then have "demo_run (?t (Some 1)) (M_Return (Inr ''v'')) (M_Unlock 0 (Inr ''v''))" by (rule demo_second) (simp add: eval)
  then show ?thesis by (rule demo_second) (simp add: eval)
qed

theorem one_load_per_key_witness:
  "\<exists>(s :: nat mx_state) pcs. (mx_step 5)\<^sup>*\<^sup>* (mx_start stale_cache 5, \<lambda>i. M_Get ''k'') (s, pcs) \<and>
    pcs 0 = M_Return (Inr ''v'') \<and> pcs 1 = M_Return (Inr ''v'') \<and> successes ''k'' s = [''v'']"
proof (intro exI conjI)
  let ?s = "demo_state (mx_Set 5 ''k'' ''v'' 5 demo_cache) None [(''k'', Inr ''v'')]"
  let ?p = "demo_pcs (M_Return (Inr ''v'')) (M_Return (Inr ''v''))"
  show "(mx_step 5)\<^sup>*\<^sup>* (mx_start stale_cache 5, \<lambda>i. M_Get ''k'') (?s, ?p)" by (rule demo_reached)
  show p: "?p 0 = M_Return (Inr ''v'')" by simp
  show "?p 1 = M_Return (Inr ''v'')" by simp
  have "table_ok stale_cache" "stale 5 (mx_data stale_cache ''k'')"
    by (simp_all add: stale_cache_def) (simp add: mx_Set_def put_item_def)
  note load = one_load_per_key [OF demo_reached this]
  have "mx_now ?s \<le> 5 + 5" by (simp add: demo_state_def)
  then show "successes ''k'' ?s = [''v'']" using load [of 0] p by blast
qed

end
