(* ===== verification/Mutex_Demo.thy ===== *)
theory Mutex_Demo
  imports Mutex_Cache Stampede
begin

text \<open>
  \<open>DemoMutexSolution\<close> of \<open>tutorial/03-problems/breakdown.go\<close>: the same stampede as in \<open>DemoBreakdownProblem\<close>, with
  \<open>MutexCache.GetOrSet\<close>. The goroutines of \<open>Mutex_Cache\<close> run by a schedule: a turn lets one of them take its next step; a
  goroutine that waits for a lock somebody holds does not move. The clock does not go backwards.
\<close>

section \<open>Scheduled goroutines\<close>

fun mx_exec ::
  "('w \<Rightarrow> ('e + string) \<times> 'w) \<Rightarrow> duration \<Rightarrow> nat \<Rightarrow> 'e mx_pc \<Rightarrow> 'e mx_state \<Rightarrow> 'w \<Rightarrow> ('e mx_pc \<times> 'e mx_state \<times> 'w) option" where
  "mx_exec loader ttl i (M_Get k) s w =
     (case mx_Get (mx_now s) k (mx_cache s) of Some v \<Rightarrow> Some (M_Return (Inr v), s, w) | None \<Rightarrow> Some (M_Lookup k, s, w))"
| "mx_exec loader ttl i (M_Lookup k) s w =
     (case key_lock k (mx_cache s) of (l, c) \<Rightarrow> Some (M_Wait k l, s\<lparr> mx_cache := c \<rparr>, w))"
| "mx_exec loader ttl i (M_Wait k l) s w =
     (if mx_held s l = None then Some (M_Check k l, s\<lparr> mx_held := (mx_held s)(l \<mapsto> i) \<rparr>, w) else None)"
| "mx_exec loader ttl i (M_Check k l) s w =
     (case mx_Get (mx_now s) k (mx_cache s) of Some v \<Rightarrow> Some (M_Unlock l (Inr v), s, w) | None \<Rightarrow> Some (M_Load k l, s, w))"
| "mx_exec loader ttl i (M_Load k l) s w =
     (case loader w of
        (Inl e, w1) \<Rightarrow> Some (M_Unlock l (Inl e), s\<lparr> mx_loads := (k, Inl e) # mx_loads s \<rparr>, w1)
      | (Inr v, w1) \<Rightarrow> Some (M_Store k l v, s\<lparr> mx_loads := (k, Inr v) # mx_loads s \<rparr>, w1))"
| "mx_exec loader ttl i (M_Store k l v) s w =
     Some (M_Unlock l (Inr v), s\<lparr> mx_cache := mx_Set (mx_now s) k v ttl (mx_cache s) \<rparr>, w)"
| "mx_exec loader ttl i (M_Unlock l r) s w = Some (M_Return r, s\<lparr> mx_held := (mx_held s)(l := None) \<rparr>, w)"
| "mx_exec loader ttl i (M_Return r) s w = None"

type_synonym ('e, 'w) mx_race = "'e mx_state \<times> 'w \<times> 'e mx_pc list"

definition mx_turn ::
  "('w \<Rightarrow> ('e + string) \<times> 'w) \<Rightarrow> duration \<Rightarrow> nat \<times> go_time \<Rightarrow> ('e, 'w) mx_race \<Rightarrow> ('e, 'w) mx_race" where
  "mx_turn loader ttl = (\<lambda>(i, now) (s, w, gs).
     let s1 = s\<lparr> mx_now := max (mx_now s) now \<rparr> in
     if i < length gs
     then (case mx_exec loader ttl i (gs ! i) s1 w of None \<Rightarrow> (s1, w, gs) | Some (g, s2, w1) \<Rightarrow> (s2, w1, gs[i := g]))
     else (s1, w, gs))"

text \<open>After the schedule the goroutines move in turn until none is left: seven steps each.\<close>

definition mx_rounds :: "go_time \<Rightarrow> nat \<Rightarrow> (nat \<times> go_time) list" where
  "mx_rounds late n = concat (replicate (7 * n) (map (\<lambda>i. (i, late)) [0..<n]))"

definition mx_race ::
  "('w \<Rightarrow> ('e + string) \<times> 'w) \<Rightarrow> duration \<Rightarrow> (nat \<times> go_time) list \<Rightarrow> go_time \<Rightarrow> string list \<Rightarrow> 'e mx_state \<Rightarrow> 'w \<Rightarrow> ('e, 'w) mx_race" where
  "mx_race loader ttl turns late keys s w =
     fold (mx_turn loader ttl) (turns @ mx_rounds late (length keys)) (s, w, map M_Get keys)"

definition mx_answer :: "'e mx_pc \<Rightarrow> ('e + string) option" where
  "mx_answer p = (case p of M_Return r \<Rightarrow> Some r | _ \<Rightarrow> None)"

text \<open>The demonstration: the answers of the twenty goroutines and the number of queries.\<close>

datatype no_data = NoHotData

definition hot_loader :: "slow_db \<Rightarrow> (no_data + string) \<times> slow_db" where
  "hot_loader db = (case sl_Query hot_key db of (Some v, db1) \<Rightarrow> (Inr v, db1) | (None, db1) \<Rightarrow> (Inl NoHotData, db1))"

definition DemoMutexSolution ::
  "go_time \<Rightarrow> go_time \<Rightarrow> (nat \<times> go_time) list \<Rightarrow> go_time \<Rightarrow> (no_data + string) option list \<times> int" where
  "DemoMutexSolution t0 t1 turns late =
     (let cache = mx_Set t0 hot_key hot_user (2 * second) NewMutexCache;
          db = sl_ResetQueryCount sl_New
      in case mx_race hot_loader (60 * second) turns late (replicate 20 hot_key) (mx_start cache t1) db of
           (s, db1, gs) \<Rightarrow> (map mx_answer gs, sl_GetQueryCount db1))"

section \<open>The schedule follows the step relation\<close>

lemma mx_exec_step: "mx_exec loader ttl i p s w = Some (p', s', w') \<Longrightarrow> mx_next_pc ttl i (p, s) (p', s')"
  by (cases p) (auto simp: mx_next_simps split: option.splits sum.splits prod.splits if_splits)

text \<open>One goroutine alone does what \<open>GetOrSet\<close> does.\<close>

fun mx_alone :: "('w \<Rightarrow> ('e + string) \<times> 'w) \<Rightarrow> duration \<Rightarrow> nat \<Rightarrow> 'e mx_pc \<Rightarrow> 'e mx_state \<Rightarrow> 'w \<Rightarrow> 'e mx_pc \<times> 'e mx_state \<times> 'w" where
  "mx_alone loader ttl 0 p s w = (p, s, w)"
| "mx_alone loader ttl (Suc n) p s w =
     (case mx_exec loader ttl 0 p s w of None \<Rightarrow> (p, s, w) | Some (p1, s1, w1) \<Rightarrow> mx_alone loader ttl n p1 s1 w1)"

lemma mx_alone_sequential:
  assumes "mx_held s = Map.empty" "GetOrSet loader (mx_now s, mx_now s, mx_now s) key ttl (mx_cache s, w) = (r, c, w1)"
  shows "\<exists>s1. mx_alone loader ttl 7 (M_Get key) s w = (M_Return r, s1, w1) \<and> mx_cache s1 = c \<and> mx_held s1 = Map.empty"
proof -
  obtain l c1 where l: "key_lock key (mx_cache s) = (l, c1)" by fastforce
  show ?thesis
    using assms l by (auto simp: GetOrSet_def eval_nat_numeral split: option.splits sum.splits prod.splits)
qed

text \<open>The goroutines as a function of their number; numbers that do not run ask and never move.\<close>

definition mx_view :: "string \<Rightarrow> 'e mx_pc list \<Rightarrow> nat \<Rightarrow> 'e mx_pc" where
  "mx_view k gs i = (if i < length gs then gs ! i else M_Get k)"

lemma mx_view_update: "i < length gs \<Longrightarrow> mx_view k (gs[i := g]) = (mx_view k gs)(i := g)"
  by (auto simp: mx_view_def)

lemma mx_turn_steps:
  assumes "mx_turn loader ttl (i, now) (s, w, gs) = (s', w', gs')"
  shows "(mx_step ttl)\<^sup>*\<^sup>* (s, mx_view k gs) (s', mx_view k gs')"
proof -
  let ?s = "s\<lparr> mx_now := max (mx_now s) now \<rparr>"
  have tick: "mx_step ttl (s, mx_view k gs) (?s, mx_view k gs)" by (intro mx_step.tick) simp
  show ?thesis
  proof (cases "i < length gs \<and> mx_exec loader ttl i (gs ! i) ?s w \<noteq> None")
    case False
    then have "s' = ?s" "gs' = gs" using assms by (auto simp: mx_turn_def Let_def split: if_splits option.splits)
    then show ?thesis using tick by auto
  next
    case True
    then obtain g where g: "mx_exec loader ttl i (gs ! i) ?s w = Some (g, s', w')" "gs' = gs[i := g]" "i < length gs"
      using assms by (auto simp: mx_turn_def Let_def)
    have "mx_view k gs i = gs ! i" using g(3) by (simp add: mx_view_def)
    then have "mx_step ttl (?s, mx_view k gs) (s', (mx_view k gs)(i := g))"
      using mx_exec_step [OF g(1)] by (intro mx_step.move) simp
    then show ?thesis using tick g(2,3) by (simp add: mx_view_update)
  qed
qed

lemma mx_turns_steps:
  "fold (mx_turn loader ttl) turns (s, w, gs) = (s', w', gs') \<Longrightarrow> (mx_step ttl)\<^sup>*\<^sup>* (s, mx_view k gs) (s', mx_view k gs')"
proof (induction turns arbitrary: s w gs)
  case (Cons x turns)
  obtain i now s1 w1 gs1 where x: "x = (i, now)" "mx_turn loader ttl (i, now) (s, w, gs) = (s1, w1, gs1)" by (metis prod_cases3 surj_pair)
  then have "(mx_step ttl)\<^sup>*\<^sup>* (s1, mx_view k gs1) (s', mx_view k gs')" using Cons by simp
  then show ?case by (rule rtranclp_trans [OF mx_turn_steps [OF x(2)]])
qed simp

section \<open>Nobody waits for ever\<close>

lemma locks_run:
  assumes "(mx_step ttl)\<^sup>*\<^sup>* (s, pcs) (s', pcs')" "locks_ok s pcs"
  shows "locks_ok s' pcs'"
  using assms
proof (induction rule: rtranclp_induct2)
  case (step s1 pcs1 s2 pcs2)
  from step.hyps(2) show ?case
  proof (cases rule: mx_step.cases)
    case (move i p)
    then show ?thesis using next_locks [OF move(2) step.IH [OF step.prems] refl] by (simp only: move(1))
  next
    case (tick t)
    then show ?thesis using step by (simp add: locks_ok_def)
  qed
qed

fun mx_rank :: "'e mx_pc \<Rightarrow> nat" where
  "mx_rank (M_Get k) = 7"
| "mx_rank (M_Lookup k) = 6"
| "mx_rank (M_Wait k l) = 5"
| "mx_rank (M_Check k l) = 4"
| "mx_rank (M_Load k l) = 3"
| "mx_rank (M_Store k l v) = 2"
| "mx_rank (M_Unlock l r) = 1"
| "mx_rank (M_Return r) = 0"

fun blocked :: "'e mx_pc \<Rightarrow> 'e mx_state \<Rightarrow> bool" where
  "blocked (M_Wait k l) s \<longleftrightarrow> mx_held s l \<noteq> None"
| "blocked (M_Return r) s \<longleftrightarrow> True"
| "blocked _ s \<longleftrightarrow> False"

lemma blocked_now [simp]: "blocked p (s\<lparr> mx_now := t \<rparr>) \<longleftrightarrow> blocked p s"
  by (cases p) simp_all

lemma mx_exec_blocked: "mx_exec loader ttl i p s w = None \<longleftrightarrow> blocked p s"
  by (cases p) (auto split: option.splits sum.splits prod.splits)

lemma mx_exec_rank: "mx_exec loader ttl i p s w = Some (p', s', w') \<Longrightarrow> mx_rank p' < mx_rank p"
  by (cases p) (auto split: option.splits sum.splits prod.splits if_splits)

text \<open>The holder of a lock can move; when no lock is held, everybody can.\<close>

lemma somebody_moves:
  assumes "locks_ok s (mx_view k gs)" "g \<in> set gs" "mx_rank g \<noteq> 0"
  shows "\<exists>i<length gs. \<not> blocked (gs ! i) s"
proof (cases "\<exists>l j. mx_held s l = Some j")
  case True
  then obtain l j where "mx_held s l = Some j" by blast
  then have o: "owns (mx_view k gs j) = Some l" using assms(1) by (simp add: locks_ok_def)
  then have "j < length gs" by (auto simp: mx_view_def split: if_splits)
  moreover from this have "\<not> blocked (gs ! j) s" using o by (cases "gs ! j") (auto simp: mx_view_def)
  ultimately show ?thesis by blast
next
  case False
  then have "mx_held s l = None" for l by (cases "mx_held s l") auto
  then have "\<not> blocked g s" using assms(3) by (cases g) auto
  then show ?thesis using assms(2) by (auto simp: in_set_conv_nth)
qed

definition work_left :: "'e mx_pc list \<Rightarrow> nat" where
  "work_left gs = sum_list (map mx_rank gs)"

lemma work_left_update: "i < length gs \<Longrightarrow> mx_rank g < mx_rank (gs ! i) \<Longrightarrow> work_left (gs[i := g]) < work_left gs"
proof -
  assume i: "i < length gs" "mx_rank g < mx_rank (gs ! i)"
  have "gs = take i gs @ gs ! i # drop (Suc i) gs" using i(1) by (simp add: id_take_nth_drop)
  then have "work_left gs = work_left (take i gs) + mx_rank (gs ! i) + work_left (drop (Suc i) gs)"
    unfolding work_left_def by (metis ab_semigroup_add_class.add_ac(1) list.simps(9) map_append sum_list.Cons sum_list_append)
  moreover have "work_left (gs[i := g]) = work_left (take i gs) + mx_rank g + work_left (drop (Suc i) gs)"
    using i(1) by (simp add: work_left_def upd_conv_take_nth_drop)
  ultimately show ?thesis using i(2) by simp
qed

lemma mx_turn_work:
  assumes "mx_turn loader ttl (i, now) (s, w, gs) = (s', w', gs')"
  shows "length gs' = length gs"
    "work_left gs' < work_left gs \<or> gs' = gs \<and> w' = w \<and> s' = s\<lparr> mx_now := max (mx_now s) now \<rparr> \<and> (i < length gs \<longrightarrow> blocked (gs ! i) s)"
proof -
  let ?s = "s\<lparr> mx_now := max (mx_now s) now \<rparr>"
  have "length gs' = length gs \<and> (work_left gs' < work_left gs \<or>
    gs' = gs \<and> w' = w \<and> s' = ?s \<and> (i < length gs \<longrightarrow> blocked (gs ! i) s))"
  proof (cases "i < length gs \<and> mx_exec loader ttl i (gs ! i) ?s w \<noteq> None")
    case True
    then obtain g s1 w1 where g: "mx_exec loader ttl i (gs ! i) ?s w = Some (g, s1, w1)" by auto
    then show ?thesis
      using True assms mx_exec_rank [OF g] work_left_update [of i gs g] by (auto simp: mx_turn_def Let_def)
  next
    case False
    then have "i < length gs \<longrightarrow> blocked (gs ! i) s" using mx_exec_blocked [of loader ttl i "gs ! i" ?s w] by simp
    then show ?thesis using False assms by (auto simp: mx_turn_def Let_def split: if_splits option.splits)
  qed
  then show "length gs' = length gs"
    "work_left gs' < work_left gs \<or> gs' = gs \<and> w' = w \<and> s' = ?s \<and> (i < length gs \<longrightarrow> blocked (gs ! i) s)" by blast+
qed

lemma mx_turns_work:
  assumes "fold (mx_turn loader ttl) turns (s, w, gs) = (s', w', gs')"
  shows "length gs' = length gs \<and> (work_left gs' < work_left gs \<or>
    work_left gs' = work_left gs \<and> (\<forall>x \<in> set turns. fst x < length gs \<longrightarrow> blocked (gs ! fst x) s))"
  using assms
proof (induction turns arbitrary: s w gs)
  case (Cons x turns)
  obtain i now s1 w1 gs1 where x: "x = (i, now)" "mx_turn loader ttl (i, now) (s, w, gs) = (s1, w1, gs1)" by (metis prod_cases3 surj_pair)
  have f: "fold (mx_turn loader ttl) turns (s1, w1, gs1) = (s', w', gs')" using Cons.prems x by simp
  show ?case using mx_turn_work [OF x(2)] Cons.IH [OF f] x(1) by auto
qed simp

lemma mx_round_work:
  assumes "fold (mx_turn loader ttl) (map (\<lambda>i. (i, late)) [0..<length gs]) (s, w, gs) = (s', w', gs')" "locks_ok s (mx_view k gs)"
  shows "work_left gs' \<le> work_left gs - 1"
proof (cases "work_left gs = 0")
  case False
  then obtain g where "g \<in> set gs" "mx_rank g \<noteq> 0" by (auto simp: work_left_def)
  then obtain i where i: "i < length gs" "\<not> blocked (gs ! i) s" using somebody_moves [OF assms(2)] by blast
  then have "(i, late) \<in> set (map (\<lambda>i. (i, late)) [0..<length gs])" by auto
  then have "work_left gs' < work_left gs" using mx_turns_work [OF assms(1)] i by fastforce
  then show ?thesis by simp
qed (use mx_turns_work [OF assms(1)] in auto)

lemma mx_rounds_work:
  assumes "fold (mx_turn loader ttl) (concat (replicate m (map (\<lambda>i. (i, late)) [0..<length gs]))) (s, w, gs) = (s', w', gs')"
    and "locks_ok s (mx_view k gs)"
  shows "length gs' = length gs \<and> work_left gs' \<le> work_left gs - m"
  using assms
proof (induction m arbitrary: s w gs)
  case (Suc m)
  obtain s1 w1 gs1 where r: "fold (mx_turn loader ttl) (map (\<lambda>i. (i, late)) [0..<length gs]) (s, w, gs) = (s1, w1, gs1)"
    by (metis prod_cases3)
  have l: "length gs1 = length gs" using mx_turns_work [OF r] by blast
  have "locks_ok s1 (mx_view k gs1)" by (rule locks_run [OF mx_turns_steps [OF r] Suc.prems(2)])
  from Suc.IH [OF _ this, of w1] have "length gs' = length gs1 \<and> work_left gs' \<le> work_left gs1 - m"
    using Suc.prems(1) r l by simp
  then show ?case using mx_round_work [OF r Suc.prems(2)] l by linarith
qed simp

lemma mx_race_ends:
  fixes loader :: "'w \<Rightarrow> ('e + string) \<times> 'w"
  assumes "mx_race loader ttl turns late keys (mx_start c t) w = (s', w', gs')" "table_ok c" "\<forall>k' \<in> set keys. k' = k"
  shows "length gs' = length keys" "\<forall>g \<in> set gs'. \<exists>r. g = M_Return r"
    "(mx_step ttl)\<^sup>*\<^sup>* (mx_start c t, \<lambda>i. M_Get k) (s', mx_view k gs')"
proof -
  obtain s1 w1 gs1 where r: "fold (mx_turn loader ttl) turns (mx_start c t, w, map M_Get keys) = (s1, w1, gs1)" by (metis prod_cases3)
  have view: "mx_view k (map M_Get keys) = (\<lambda>i. M_Get k)" using assms(3) by (auto simp: mx_view_def fun_eq_iff)
  have start: "locks_ok (mx_start c t) (mx_view k (map M_Get keys))"
    unfolding view by (rule start_ok(1) [OF assms(2)])
  have l: "length gs1 = length keys" using mx_turns_work [OF r] by simp
  have ok: "locks_ok s1 (mx_view k gs1)" by (rule locks_run [OF mx_turns_steps [OF r] start])
  have f: "fold (mx_turn loader ttl) (mx_rounds late (length keys)) (s1, w1, gs1) = (s', w', gs')"
    using assms(1) r by (simp add: mx_race_def)
  then have e: "length gs' = length gs1 \<and> work_left gs' \<le> work_left gs1 - 7 * length keys"
    unfolding mx_rounds_def l [symmetric] by (rule mx_rounds_work [OF _ ok])
  have "mx_rank g \<le> 7" for g :: "'e mx_pc" by (cases g) simp_all
  then have "work_left gs1 \<le> sum_list (map (\<lambda>_. 7) gs1)" unfolding work_left_def by (intro sum_list_mono)
  then have "work_left gs' = 0" using e l by (simp add: sum_list_triv)
  then have "\<forall>g \<in> set gs'. mx_rank g = 0" by (simp add: work_left_def)
  moreover have "mx_rank g = 0 \<longleftrightarrow> (\<exists>r. g = M_Return r)" for g :: "'e mx_pc" by (cases g) simp_all
  ultimately show "\<forall>g \<in> set gs'. \<exists>r. g = M_Return r" by blast
  show "length gs' = length keys" using e l by simp
  show "(mx_step ttl)\<^sup>*\<^sup>* (mx_start c t, \<lambda>i. M_Get k) (s', mx_view k gs')"
    using rtranclp_trans [OF mx_turns_steps [OF r] mx_turns_steps [OF f], of k] unfolding view .
qed

section \<open>One query\<close>

lemma hot_loader_eq: "sl_data db hot_key = Some v \<Longrightarrow> hot_loader db = (Inr v, db\<lparr> sl_queryCount := sl_queryCount db + 1 \<rparr>)"
  by (simp add: hot_loader_def sl_Query_def)

text \<open>Every load is counted by the database and gives the hot value; no goroutine fails.\<close>

fun never_failed :: "'e mx_pc \<Rightarrow> bool" where
  "never_failed (M_Unlock l (Inl e)) \<longleftrightarrow> False"
| "never_failed (M_Return (Inl e)) \<longleftrightarrow> False"
| "never_failed _ \<longleftrightarrow> True"

definition loads_ok :: "(no_data, slow_db) mx_race \<Rightarrow> bool" where
  "loads_ok = (\<lambda>(s, db, gs). sl_data db = sl_data sl_New \<and> sl_queryCount db = int (length (mx_loads s)) \<and>
     (\<forall>x \<in> set (mx_loads s). x = (hot_key, Inr hot_user)) \<and>
     (\<forall>g \<in> set gs. never_failed g \<and> pc_key g \<in> {None, Some hot_key}))"

lemma exec_loads:
  assumes "mx_exec hot_loader ttl i p s db = Some (p', s', db')" "never_failed p \<and> pc_key p \<in> {None, Some hot_key}" "sl_data db = sl_data sl_New"
    and "sl_queryCount db = int (length (mx_loads s))" "\<forall>x \<in> set (mx_loads s). x = (hot_key, Inr hot_user)"
  shows "(never_failed p' \<and> pc_key p' \<in> {None, Some hot_key}) \<and> sl_data db' = sl_data sl_New \<and> sl_queryCount db' = int (length (mx_loads s')) \<and>
    (\<forall>x \<in> set (mx_loads s'). x = (hot_key, Inr hot_user))"
proof -
  have "hot_loader db = (Inr hot_user, db\<lparr> sl_queryCount := sl_queryCount db + 1 \<rparr>)"
    using hot_data assms(3) by (intro hot_loader_eq) simp
  then show ?thesis
    using assms by (cases p rule: never_failed.cases) (auto split: option.splits prod.splits if_splits)
qed

lemma loads_turns:
  "loads_ok r \<Longrightarrow> loads_ok (fold (mx_turn hot_loader ttl) turns r)"
proof (induction turns arbitrary: r)
  case (Cons x turns)
  obtain i now s db gs where x: "x = (i, now)" "r = (s, db, gs)" by (metis prod_cases3 surj_pair)
  let ?s = "s\<lparr> mx_now := max (mx_now s) now \<rparr>"
  have ok: "loads_ok (?s, db, gs)" using Cons.prems x by (simp add: loads_ok_def)
  have "loads_ok (mx_turn hot_loader ttl x r)"
  proof (cases "i < length gs")
    case True
    show ?thesis
    proof (cases "mx_exec hot_loader ttl i (gs ! i) ?s db")
      case (Some y)
      then obtain g s1 db1 where g: "mx_exec hot_loader ttl i (gs ! i) ?s db = Some (g, s1, db1)" by (metis prod_cases3)
      have "never_failed (gs ! i) \<and> pc_key (gs ! i) \<in> {None, Some hot_key}" using ok True by (simp add: loads_ok_def)
      from exec_loads [OF g this] ok show ?thesis
        using True g x set_update_subset_insert [of gs i g] by (auto simp: mx_turn_def Let_def loads_ok_def)
    qed (use True x ok in \<open>simp add: mx_turn_def Let_def\<close>)
  qed (use x ok in \<open>simp add: mx_turn_def Let_def\<close>)
  then show ?case using Cons.IH by simp
qed simp

lemma successes_hot: "\<forall>x \<in> set (mx_loads s). x = (k, Inr v) \<Longrightarrow> length (successes k s) = length (mx_loads s)"
proof -
  assume "\<forall>x \<in> set (mx_loads s). x = (k, Inr v)"
  then have "length (List.map_filter (\<lambda>(k', r). case r of Inl e \<Rightarrow> None | Inr v \<Rightarrow> if k' = k then Some v else None) xs) = length xs"
    if "set xs \<subseteq> set (mx_loads s)" for xs
    using that by (induction xs) (auto simp: List.map_filter_def)
  then show ?thesis by (simp add: successes_def)
qed

text \<open>The clock stays within the bounds of the schedule.\<close>

lemma turns_now:
  assumes "fold (mx_turn loader ttl) turns (s, w, gs) = (s', w', gs')" "mx_now s \<le> d" "\<forall>x \<in> set turns. snd x \<le> d"
  shows "mx_now s' \<le> d"
  using assms
proof (induction turns arbitrary: s w gs)
  case (Cons x turns)
  obtain i now s1 w1 gs1 where x: "x = (i, now)" "mx_turn loader ttl (i, now) (s, w, gs) = (s1, w1, gs1)" by (metis prod_cases3 surj_pair)
  have "mx_now s' = mx_now s" if "mx_exec loader ttl i p s w = Some (p', s', w')" for p p' s s' w'
    using that by (cases p) (auto split: option.splits sum.splits prod.splits if_splits)
  then have "mx_now s1 = max (mx_now s) now"
    using x(2) by (auto simp: mx_turn_def Let_def split: if_splits option.splits)
  then show ?case using Cons.IH [of s1 w1 gs1] Cons.prems x by simp
qed simp

text \<open>C34: with a lock per key the same twenty goroutines send exactly one query, whatever their interleaving, and each of them gets
  the value; none waits for ever.\<close>

theorem mutex_single_query:
  assumes "t0 + 2 * second < t1" "\<forall>x \<in> set turns. snd x \<le> t1 + 60 * second" "late \<le> t1 + 60 * second"
  shows "DemoMutexSolution t0 t1 turns late = (replicate 20 (Some (Inr hot_user)), 1)"
proof -
  let ?c = "mx_Set t0 hot_key hot_user (2 * second) NewMutexCache" and ?keys = "replicate 20 hot_key"
  let ?db = "sl_ResetQueryCount sl_New"
  obtain s db gs where r: "mx_race hot_loader (60 * second) turns late ?keys (mx_start ?c t1) ?db = (s, db, gs)" by (metis prod_cases3)
  have c: "table_ok ?c" "stale t1 (mx_data ?c hot_key)" using assms(1) by simp_all (simp add: mx_Set_def put_item_def)
  have "\<forall>k' \<in> set ?keys. k' = hot_key" by simp
  note ends = mx_race_ends [OF r c(1) this]
  have f: "fold (mx_turn hot_loader (60 * second)) (turns @ mx_rounds late 20) (mx_start ?c t1, ?db, map M_Get ?keys) = (s, db, gs)"
    using r by (simp add: mx_race_def)
  have "\<forall>x \<in> set (turns @ mx_rounds late 20). snd x \<le> t1 + 60 * second" using assms(2,3) by (auto simp: mx_rounds_def)
  then have now: "mx_now s \<le> t1 + 60 * second" by (intro turns_now [OF f]) simp_all
  have "loads_ok (mx_start ?c t1, ?db, map M_Get ?keys)"
    by (simp add: loads_ok_def mx_start_def sl_ResetQueryCount_def)
  from loads_turns [OF this, of "60 * second" "turns @ mx_rounds late 20"] f have ok: "loads_ok (s, db, gs)" by simp
  have len: "length gs = 20" using ends(1) by simp
  have load: "length (successes hot_key s) \<le> 1" "mx_view hot_key gs i = M_Return (Inr v) \<Longrightarrow> successes hot_key s = [v]" for i v
    using one_load_per_key [OF ends(3) c] now by blast+
  have count: "length (successes hot_key s) = length (mx_loads s)" using ok by (intro successes_hot [where v = hot_user]) (simp add: loads_ok_def)
  have all: "gs ! i = M_Return (Inr hot_user) \<and> length (mx_loads s) = 1" if i: "i < 20" for i
  proof -
    have g: "gs ! i \<in> set gs" using i len by simp
    obtain x where "gs ! i = M_Return x" using ends(2) g by blast
    moreover have "never_failed (gs ! i)" using ok g by (simp add: loads_ok_def)
    ultimately obtain v where v: "gs ! i = M_Return (Inr v)" by (cases x) auto
    then have s: "successes hot_key s = [v]" using load(2) [of i] i len by (simp add: mx_view_def)
    then have "length (mx_loads s) = 1" using count by simp
    then obtain y where y: "mx_loads s = [y]" by (auto simp: length_Suc_conv)
    then have "y = (hot_key, Inr hot_user)" using ok by (simp add: loads_ok_def)
    then have "successes hot_key s = [hot_user]" using y by (simp add: successes_def List.map_filter_def)
    then show ?thesis using s v y by simp
  qed
  have "gs = replicate 20 (M_Return (Inr hot_user))" using all len by (auto intro: nth_equalityI)
  moreover have "length (mx_loads s) = 1" using all [of 0] by simp
  moreover have "sl_GetQueryCount db = int (length (mx_loads s))" using ok by (simp add: loads_ok_def sl_GetQueryCount_def)
  ultimately show ?thesis using r by (simp add: DemoMutexSolution_def Let_def mx_answer_def)
qed

theorem mutex_single_query_witness:
  "DemoMutexSolution 0 (3 * second) [(4, 3 * second), (9, 3 * second), (4, 4 * second)] (5 * second) =
     (replicate 20 (Some (Inr hot_user)), 1)"
  by (rule mutex_single_query) auto

end
