(* ===== verification/Never_Expire.thy ===== *)
theory Never_Expire
  imports Stampede
begin

text \<open>
  \<open>DemoNeverExpireSolution\<close> of \<open>tutorial/03-problems/breakdown.go\<close>: the main goroutine reads a hot entry that never leaves the
  cache; when the entry is logically expired, \<open>asyncUpdate\<close> starts a goroutine that refreshes it, unless one is marked as
  running. The check of the mark and the setting of it are two calls, so they are two steps. A schedule is a list of turns of the
  main goroutine (\<open>None\<close>) or of an updater, with the reading of the clock, which does not go backwards. When the schedule ends the
  main goroutine finishes its loop; the program does not wait for the updaters.
\<close>

datatype updater = U_Query | U_Set string | U_Clear | U_Done

text \<open>Before an access; after an access that saw an expired entry; after \<open>IsUpdating\<close> said no.\<close>

datatype main_point = P_Access | P_Check | P_Mark

record ne_run =
  nr_cache :: never_expire
  nr_db :: slow_db
  nr_updaters :: "updater list"
  nr_main :: main_point
  nr_answers :: "(string \<times> bool \<times> bool) list"
  nr_now :: go_time

definition asyncUpdate_check :: "string \<Rightarrow> ne_run \<Rightarrow> ne_run" where
  "asyncUpdate_check key r =
     (if IsUpdating key (nr_cache r) then r\<lparr> nr_main := P_Access \<rparr> else r\<lparr> nr_main := P_Mark \<rparr>)"

definition asyncUpdate_start :: "string \<Rightarrow> ne_run \<Rightarrow> ne_run" where
  "asyncUpdate_start key r =
     r\<lparr> nr_cache := SetUpdating key True (nr_cache r), nr_updaters := nr_updaters r @ [U_Query], nr_main := P_Access \<rparr>"

text \<open>One step of the loop of ten accesses.\<close>

definition main_turn :: "string \<Rightarrow> ne_run \<Rightarrow> ne_run" where
  "main_turn key r =
     (case nr_main r of
        P_Access \<Rightarrow>
          if length (nr_answers r) < 10 then
            (case ne_Get (nr_now r) key (nr_cache r) of
               (v, present, isExpired) \<Rightarrow>
                 r\<lparr> nr_answers := nr_answers r @ [(v, present, isExpired)],
                    nr_main := (if present \<and> isExpired then P_Check else P_Access) \<rparr>)
          else r
      | P_Check \<Rightarrow> asyncUpdate_check key r
      | P_Mark \<Rightarrow> asyncUpdate_start key r)"

definition updater_turn :: "string \<Rightarrow> nat \<Rightarrow> ne_run \<Rightarrow> ne_run" where
  "updater_turn key i r =
     (case nr_updaters r ! i of
        U_Query \<Rightarrow>
          (case sl_Query key (nr_db r) of
             (Some v, db) \<Rightarrow> r\<lparr> nr_db := db, nr_updaters := (nr_updaters r)[i := U_Set v] \<rparr>
           | (None, db) \<Rightarrow> r\<lparr> nr_db := db, nr_updaters := (nr_updaters r)[i := U_Clear] \<rparr>)
      | U_Set v \<Rightarrow> r\<lparr> nr_cache := ne_Set (nr_now r) key v (60 * second) (nr_cache r), nr_updaters := (nr_updaters r)[i := U_Clear] \<rparr>
      | U_Clear \<Rightarrow> r\<lparr> nr_cache := SetUpdating key False (nr_cache r), nr_updaters := (nr_updaters r)[i := U_Done] \<rparr>
      | U_Done \<Rightarrow> r)"

definition ne_turn :: "string \<Rightarrow> nat option \<times> go_time \<Rightarrow> ne_run \<Rightarrow> ne_run" where
  "ne_turn key = (\<lambda>(who, now) r.
     let r1 = r\<lparr> nr_now := max (nr_now r) now \<rparr> in
     case who of None \<Rightarrow> main_turn key r1 | Some i \<Rightarrow> if i < length (nr_updaters r1) then updater_turn key i r1 else r1)"

text \<open>The hot entry is written at \<open>t0\<close>; an iteration of the main loop takes at most three turns.\<close>

definition ne_start :: "go_time \<Rightarrow> ne_run" where
  "ne_start t0 =
     (case sl_Query hot_key sl_New of (v, db) \<Rightarrow>
        \<lparr> nr_cache = (case v of Some x \<Rightarrow> ne_Set t0 hot_key x (3 * second) ne_New | None \<Rightarrow> ne_New),
          nr_db = db, nr_updaters = [], nr_main = P_Access, nr_answers = [], nr_now = t0 \<rparr>)"

definition DemoNeverExpireSolution :: "go_time \<Rightarrow> (nat option \<times> go_time) list \<Rightarrow> go_time \<Rightarrow> ne_run" where
  "DemoNeverExpireSolution t0 turns late = fold (ne_turn hot_key) (turns @ replicate 30 (None, late)) (ne_start t0)"

section \<open>Every access hits\<close>

text \<open>The entry is there with the hot value, and the updaters count the queries.\<close>

definition hot_entry :: "ne_run \<Rightarrow> logical_item" where
  "hot_entry r = the (ne_data (nr_cache r) hot_key)"

definition ne_ok :: "ne_run \<Rightarrow> bool" where
  "ne_ok r \<longleftrightarrow>
     (\<exists>it. ne_data (nr_cache r) hot_key = Some it \<and> lg_Value it = hot_user) \<and>
     sl_data (nr_db r) = sl_data sl_New \<and>
     (\<forall>u \<in> set (nr_updaters r). \<forall>v. u = U_Set v \<longrightarrow> v = hot_user) \<and>
     (\<forall>a \<in> set (nr_answers r). fst a = hot_user \<and> fst (snd a)) \<and>
     sl_queryCount (nr_db r) = 1 + int (length (filter (\<lambda>u. u \<noteq> U_Query) (nr_updaters r)))"

lemma ne_ok_start: "ne_ok (ne_start t0)"
  using hot_data by (auto simp: ne_start_def sl_Query_def ne_ok_def ne_Set_def) (simp_all add: sl_New_def)

lemma ne_ok_now [simp]: "ne_ok (r\<lparr> nr_now := t \<rparr>) \<longleftrightarrow> ne_ok r"
  by (simp add: ne_ok_def)

lemma ne_ok_main: "ne_ok r \<Longrightarrow> ne_ok (main_turn hot_key r)"
  by (auto simp: ne_ok_def main_turn_def asyncUpdate_check_def asyncUpdate_start_def ne_Get_def SetUpdating_def
      split: main_point.splits prod.splits)

lemma ne_ok_updater:
  assumes "ne_ok r" "i < length (nr_updaters r)"
  shows "ne_ok (updater_turn hot_key i r)"
proof -
  let ?us = "nr_updaters r"
  have sub: "u \<in> set ?us \<or> u = x" if "u \<in> set (?us[i := x])" for u x
    using that set_update_subset_insert [of ?us i x] by auto
  note len = length_filter_update [OF assms(2), of "\<lambda>u. u \<noteq> U_Query"]
  have hot: "sl_data (nr_db r) hot_key = Some hot_user" using assms(1) hot_data by (simp add: ne_ok_def)
  have ui: "?us ! i \<in> set ?us" using assms(2) by simp
  show ?thesis
    using assms ui hot
    by (cases "?us ! i")
      (auto simp: ne_ok_def updater_turn_def sl_Query_def ne_Set_def SetUpdating_def len dest!: sub)
qed

lemma ne_ok_turns: "ne_ok r \<Longrightarrow> ne_ok (fold (ne_turn hot_key) turns r)"
proof (induction turns arbitrary: r)
  case (Cons x turns)
  have "ne_ok (ne_turn hot_key x r)"
    using ne_ok_main [of "r\<lparr> nr_now := max (nr_now r) (snd x) \<rparr>"] ne_ok_updater [of "r\<lparr> nr_now := max (nr_now r) (snd x) \<rparr>"] Cons.prems
    by (auto simp: ne_turn_def Let_def split: option.splits prod.splits)
  then show ?case using Cons.IH by simp
qed simp

section \<open>The main goroutine finishes\<close>

definition main_left :: "ne_run \<Rightarrow> nat" where
  "main_left r = 3 * (10 - length (nr_answers r)) + (case nr_main r of P_Access \<Rightarrow> 0 | P_Check \<Rightarrow> 2 | P_Mark \<Rightarrow> 1)"

lemma main_left_now [simp]: "main_left (r\<lparr> nr_now := t \<rparr>) = main_left r"
  by (simp add: main_left_def)

lemma main_left_turn: "main_left (main_turn key r) \<le> main_left r - 1"
  by (auto simp: main_left_def main_turn_def asyncUpdate_check_def asyncUpdate_start_def split: main_point.splits prod.splits)

lemma main_left_updater: "main_left (updater_turn key i r) = main_left r"
  by (auto simp: main_left_def updater_turn_def split: updater.splits option.splits prod.splits)

lemma answers_bound: "length (nr_answers r) \<le> 10 \<Longrightarrow> length (nr_answers (ne_turn key x r)) \<le> 10"
  by (auto simp: ne_turn_def Let_def main_turn_def updater_turn_def asyncUpdate_check_def asyncUpdate_start_def
      split: option.splits main_point.splits updater.splits prod.splits)

lemma main_left_turns:
  "main_left (fold (ne_turn key) turns r) \<le> main_left r - length (filter (\<lambda>x. fst x = None) turns)"
proof (induction turns arbitrary: r)
  case (Cons x turns)
  let ?r = "r\<lparr> nr_now := max (nr_now r) (snd x) \<rparr>"
  have "main_left (ne_turn key x r) \<le> main_left r - (if fst x = None then 1 else 0)"
    using main_left_turn [of key ?r] main_left_updater [of key _ ?r]
    by (auto simp: ne_turn_def Let_def split: option.splits prod.splits)
  then show ?case using Cons.IH [of "ne_turn key x r"] by auto
qed simp

lemma demo_answers: "length (nr_answers (DemoNeverExpireSolution t0 turns late)) = 10"
proof -
  let ?r = "fold (ne_turn hot_key) turns (ne_start t0)"
  have start: "main_left (ne_start t0) = 30" "length (nr_answers (ne_start t0)) \<le> 10"
    by (simp_all add: main_left_def ne_start_def split: prod.splits)
  have "length (nr_answers (fold (ne_turn hot_key) xs r)) \<le> 10" if "length (nr_answers r) \<le> 10" for xs r
    using that by (induction xs arbitrary: r) (simp_all add: answers_bound)
  then have "length (nr_answers (DemoNeverExpireSolution t0 turns late)) \<le> 10"
    using start(2) unfolding DemoNeverExpireSolution_def by blast
  moreover have "main_left ?r \<le> 30" using main_left_turns [of hot_key turns "ne_start t0"] start(1) by simp
  then have "main_left (DemoNeverExpireSolution t0 turns late) = 0"
    using main_left_turns [of hot_key "replicate 30 (None, late)" ?r] by (simp add: DemoNeverExpireSolution_def filter_replicate)
  ultimately show ?thesis by (simp add: main_left_def)
qed

section \<open>How many updates are started\<close>

text \<open>
  Within the first 63 seconds: until a refreshed entry is stored there is one updater at most, and it is marked; afterwards at most
  one more starts, by an access that had seen the old entry.
\<close>

definition ne_window :: "go_time \<Rightarrow> ne_run \<Rightarrow> bool" where
  "ne_window t0 r \<longleftrightarrow>
     (\<exists>it. ne_data (nr_cache r) hot_key = Some it \<and>
       (nr_updaters r \<noteq> [] \<or> nr_main r \<noteq> P_Access \<longrightarrow> t0 + 3 * second < nr_now r) \<and>
       (if t0 + 63 * second \<le> LogicalExp it
        then length (nr_updaters r) + (if nr_main r = P_Access then 0 else 1) \<le> 2
        else length (nr_updaters r) + (if nr_main r = P_Mark then 1 else 0) \<le> 1 \<and> LogicalExp it = t0 + 3 * second \<and>
          (nr_updaters r \<noteq> [] \<longrightarrow> Updating it) \<and> (\<forall>u \<in> set (nr_updaters r). u \<noteq> U_Clear \<and> u \<noteq> U_Done)))"

lemma ne_window_start: "ne_window t0 (ne_start t0)"
  using hot_data by (simp add: ne_window_def ne_start_def sl_Query_def ne_Set_def)

lemma ne_window_now: "ne_window t0 r \<Longrightarrow> nr_now r \<le> t \<Longrightarrow> ne_window t0 (r\<lparr> nr_now := t \<rparr>)"
  unfolding ne_window_def by fastforce

lemma ne_window_access:
  assumes "ne_window t0 r" "nr_now r \<le> t0 + 63 * second" "nr_main r = P_Access"
  shows "ne_window t0 (main_turn hot_key r)"
proof (cases "length (nr_answers r) < 10")
  case True
  obtain it where it: "ne_data (nr_cache r) hot_key = Some it" using assms(1) by (auto simp: ne_window_def)
  let ?e = "LogicalExp it < nr_now r"
  have m: "main_turn hot_key r = r\<lparr> nr_answers := nr_answers r @ [(lg_Value it, True, ?e)], nr_main := (if ?e then P_Check else P_Access) \<rparr>"
    using True by (simp add: main_turn_def assms(3) ne_Get_def it)
  show ?thesis
  proof (cases ?e)
    case True
    then have "\<not> t0 + 63 * second \<le> LogicalExp it" using assms(2) by simp
    then show ?thesis using assms(1,3) it True unfolding ne_window_def m by simp
  next
    case False
    then show ?thesis using assms(1,3) it unfolding ne_window_def m by (cases "t0 + 63 * second \<le> LogicalExp it") simp_all
  qed
qed (use assms(1,3) in \<open>simp add: main_turn_def\<close>)

lemma ne_window_check:
  assumes "ne_window t0 r" "nr_main r = P_Check"
  shows "ne_window t0 (main_turn hot_key r)"
proof -
  obtain it where it: "ne_data (nr_cache r) hot_key = Some it" using assms(1) by (auto simp: ne_window_def)
  have m: "main_turn hot_key r = r\<lparr> nr_main := (if Updating it then P_Access else P_Mark) \<rparr>"
    by (simp add: main_turn_def assms(2) asyncUpdate_check_def IsUpdating_def it)
  show ?thesis
  proof (cases "Updating it")
    case True
    then show ?thesis using assms it unfolding ne_window_def m by (cases "t0 + 63 * second \<le> LogicalExp it") simp_all
  next
    case False
    then show ?thesis using assms it unfolding ne_window_def m by (cases "t0 + 63 * second \<le> LogicalExp it") simp_all
  qed
qed

lemma ne_window_main:
  assumes "ne_window t0 r" "nr_now r \<le> t0 + 63 * second"
  shows "ne_window t0 (main_turn hot_key r)"
proof (cases "nr_main r")
  case P_Access
  then show ?thesis by (rule ne_window_access [OF assms])
next
  case P_Check
  then show ?thesis by (rule ne_window_check [OF assms(1)])
next
  case P_Mark
  obtain it where it: "ne_data (nr_cache r) hot_key = Some it" "t0 + 3 * second < nr_now r"
    and win: "t0 + 63 * second \<le> LogicalExp it \<Longrightarrow> length (nr_updaters r) \<le> 1"
      "\<not> t0 + 63 * second \<le> LogicalExp it \<Longrightarrow> nr_updaters r = [] \<and> LogicalExp it = t0 + 3 * second"
    using assms(1) unfolding ne_window_def P_Mark by (auto split: if_splits)
  have m: "main_turn hot_key r = r\<lparr> nr_cache := (nr_cache r)\<lparr> ne_data := (ne_data (nr_cache r))(hot_key \<mapsto> it\<lparr> Updating := True \<rparr>) \<rparr>,
      nr_updaters := nr_updaters r @ [U_Query], nr_main := P_Access \<rparr>"
    by (simp add: main_turn_def P_Mark asyncUpdate_start_def SetUpdating_def it)
  show ?thesis unfolding ne_window_def m using it win by (cases "t0 + 63 * second \<le> LogicalExp it") simp_all
qed

lemma ne_window_updater:
  assumes "ne_window t0 r" "ne_ok r" "i < length (nr_updaters r)"
  shows "ne_window t0 (updater_turn hot_key i r)"
proof -
  let ?us = "nr_updaters r"
  obtain it where it: "ne_data (nr_cache r) hot_key = Some it" "t0 + 3 * second < nr_now r"
    and fresh: "t0 + 63 * second \<le> LogicalExp it \<Longrightarrow> length ?us + (if nr_main r = P_Access then 0 else 1) \<le> 2"
    and old: "\<not> t0 + 63 * second \<le> LogicalExp it \<Longrightarrow> length ?us + (if nr_main r = P_Mark then 1 else 0) \<le> 1 \<and>
      LogicalExp it = t0 + 3 * second \<and> Updating it \<and> (\<forall>u \<in> set ?us. u \<noteq> U_Clear \<and> u \<noteq> U_Done)"
    using assms(1,3) unfolding ne_window_def by (metis length_0_conv less_nat_zero_code)
  have ui: "?us ! i \<in> set ?us" using assms(3) by simp
  show ?thesis
  proof (cases "?us ! i")
    case U_Query
    have "sl_data (nr_db r) hot_key = Some hot_user" using assms(2) hot_data by (simp add: ne_ok_def)
    then have u: "updater_turn hot_key i r = r\<lparr> nr_db := snd (sl_Query hot_key (nr_db r)), nr_updaters := ?us[i := U_Set hot_user] \<rparr>"
      using U_Query by (simp add: updater_turn_def sl_Query_def)
    have "\<forall>u \<in> set (?us[i := U_Set hot_user]). u \<noteq> U_Clear \<and> u \<noteq> U_Done" if "\<not> t0 + 63 * second \<le> LogicalExp it"
      using old [OF that] set_update_subset_insert [of ?us i "U_Set hot_user"] by blast
    then show ?thesis using it fresh old unfolding ne_window_def u by simp
  next
    case (U_Set v)
    have "length ?us + (if nr_main r = P_Access then 0 else 1) \<le> 2"
      using fresh old by (cases "t0 + 63 * second \<le> LogicalExp it") (auto split: if_splits)
    then show ?thesis using it U_Set by (simp add: ne_window_def updater_turn_def ne_Set_def)
  next
    case U_Clear
    then have "t0 + 63 * second \<le> LogicalExp it" using old ui by metis
    then show ?thesis using it fresh U_Clear by (simp add: ne_window_def updater_turn_def SetUpdating_def)
  next
    case U_Done
    then show ?thesis using assms(1) by (simp add: updater_turn_def)
  qed
qed

lemma ne_window_turns:
  assumes "ne_window t0 r" "ne_ok r" "nr_now r \<le> t0 + 63 * second" "\<forall>x \<in> set turns. snd x \<le> t0 + 63 * second"
  shows "ne_window t0 (fold (ne_turn hot_key) turns r)"
  using assms
proof (induction turns arbitrary: r)
  case (Cons x turns)
  let ?r = "r\<lparr> nr_now := max (nr_now r) (snd x) \<rparr>"
  have w: "ne_window t0 ?r" by (rule ne_window_now [OF Cons.prems(1)]) simp
  have now: "nr_now ?r \<le> t0 + 63 * second" using Cons.prems(3,4) by simp
  have "ne_window t0 (ne_turn hot_key x r)"
    using w ne_window_main [OF w now] ne_window_updater [OF w] Cons.prems(2)
    by (auto simp: ne_turn_def Let_def split: option.splits prod.splits)
  moreover have "ne_ok (ne_turn hot_key x r)" using ne_ok_turns [OF Cons.prems(2), of "[x]"] by simp
  moreover have "nr_now (main_turn key r') = nr_now r'" "nr_now (updater_turn key i r') = nr_now r'" for key i r'
    by (simp_all add: main_turn_def updater_turn_def asyncUpdate_check_def asyncUpdate_start_def split: main_point.splits updater.splits option.splits prod.splits)
  then have "nr_now (ne_turn hot_key x r) = nr_now ?r" by (auto simp: ne_turn_def Let_def split: option.splits prod.splits)
  ultimately show ?case using Cons.IH now Cons.prems(4) by simp
qed simp

text \<open>C36: the entry that never leaves the cache hides the database from its readers: each of the ten accesses gets the value, whatever
  the updaters do; within the life of the first refreshed entry at most two updates start.\<close>

theorem never_expire_hits:
  assumes "\<forall>x \<in> set turns. snd x \<le> t0 + 63 * second" "late \<le> t0 + 63 * second"
  shows "\<exists>expired. nr_answers (DemoNeverExpireSolution t0 turns late) = map (\<lambda>e. (hot_user, True, e)) expired \<and> length expired = 10 \<and>
    length (nr_updaters (DemoNeverExpireSolution t0 turns late)) \<le> 2 \<and>
    sl_GetQueryCount (nr_db (DemoNeverExpireSolution t0 turns late)) \<in> {1..3}"
proof -
  let ?r = "DemoNeverExpireSolution t0 turns late"
  have ok: "ne_ok ?r" unfolding DemoNeverExpireSolution_def by (rule ne_ok_turns [OF ne_ok_start])
  have "ne_window t0 ?r"
    unfolding DemoNeverExpireSolution_def
    using assms by (intro ne_window_turns [OF ne_window_start ne_ok_start]) (auto simp: ne_start_def split: prod.splits)
  then have two: "length (nr_updaters ?r) \<le> 2" by (auto simp: ne_window_def split: if_splits)
  have "nr_answers ?r = map (\<lambda>e. (hot_user, True, e)) (map (\<lambda>a. snd (snd a)) (nr_answers ?r))"
    using ok by (auto simp: ne_ok_def comp_def intro!: map_idI [symmetric])
  moreover have "length (map (\<lambda>a. snd (snd a)) (nr_answers ?r)) = 10" by (simp add: demo_answers)
  moreover have "length (filter (\<lambda>u. u \<noteq> U_Query) (nr_updaters ?r)) \<le> 2" using two by (meson length_filter_le le_trans)
  then have "sl_GetQueryCount (nr_db ?r) \<in> {1..3}" using ok by (simp add: ne_ok_def sl_GetQueryCount_def)
  ultimately show ?thesis using two by blast
qed

text \<open>A schedule in which the second update starts: an access sees the old entry, the refreshed one is stored (which clears the
  mark), and only then the mark is checked.\<close>

definition two_updates :: "(nat option \<times> go_time) list" where
  "two_updates =
     (let t = 4 * second in [(None, t), (None, t), (None, t), (Some 0, t), (None, t), (Some 0, t), (None, t), (None, t)])"

lemma two_updates_start: "length (nr_updaters (fold (ne_turn hot_key) two_updates (ne_start 0))) = 2"
  by code_simp

theorem never_expire_hits_witness:
  "length (nr_answers (DemoNeverExpireSolution 0 two_updates (5 * second))) = 10 \<and>
   sl_GetQueryCount (nr_db (DemoNeverExpireSolution 0 two_updates (5 * second))) \<in> {1..3}"
proof -
  have "\<forall>x \<in> set two_updates. snd x \<le> 0 + 63 * second" "5 * second \<le> 0 + 63 * second" by (simp_all add: two_updates_def)
  from never_expire_hits [OF this] show ?thesis by auto
qed

end
