(* ===== verification/Multilevel.thy ===== *)
theory Multilevel
  imports Patterns
begin

text \<open>
  \<open>tutorial/05-multilevel\<close>: the local cache (L1), the simulated distributed cache (L2) and the multi-level cache on top
  of a database. Each reading of the clock a method makes is an argument of its model. The entries of the two caches are
  pointers that only the cache itself holds, so the maps hold records. Counters are integers, rates are rational
  numbers; printing, sleeping and the tickers that start the clean-up are not modelled (the clean-up is).
\<close>

section \<open>The local cache\<close>

record 'v local_item =
  li_Value :: 'v
  li_ExpiresAt :: go_time
  li_AccessCount :: int
  li_LastAccess :: go_time

record local_metrics =
  lm_Hits :: int
  lm_Misses :: int
  lm_Evictions :: int
  lm_TotalAccess :: int

record 'v local_cache =
  lc_data :: "string \<rightharpoonup> 'v local_item"
  lc_maxSize :: int
  lc_metrics :: local_metrics

definition NewLocalCache :: "int \<Rightarrow> 'v local_cache" where
  "NewLocalCache maxSize =
     \<lparr> lc_data = Map.empty, lc_maxSize = maxSize,
       lc_metrics = \<lparr> lm_Hits = 0, lm_Misses = 0, lm_Evictions = 0, lm_TotalAccess = 0 \<rparr> \<rparr>"

definition lc_recordHit :: "'v local_cache \<Rightarrow> 'v local_cache" where
  "lc_recordHit lc = lc\<lparr> lc_metrics := (lc_metrics lc)\<lparr> lm_Hits := lm_Hits (lc_metrics lc) + 1 \<rparr> \<rparr>"

definition lc_recordMiss :: "'v local_cache \<Rightarrow> 'v local_cache" where
  "lc_recordMiss lc = lc\<lparr> lc_metrics := (lc_metrics lc)\<lparr> lm_Misses := lm_Misses (lc_metrics lc) + 1 \<rparr> \<rparr>"

definition lc_Get :: "go_time \<Rightarrow> go_time \<Rightarrow> string \<Rightarrow> 'v local_cache \<Rightarrow> 'v option \<times> 'v local_cache" where
  "lc_Get now now2 key lc =
     (let lc1 = lc\<lparr> lc_metrics := (lc_metrics lc)\<lparr> lm_TotalAccess := lm_TotalAccess (lc_metrics lc) + 1 \<rparr> \<rparr>
      in case lc_data lc1 key of
           None \<Rightarrow> (None, lc_recordMiss lc1)
         | Some item \<Rightarrow>
             if now > li_ExpiresAt item then (None, lc_recordMiss lc1)
             else
               let item1 = item\<lparr> li_AccessCount := li_AccessCount item + 1, li_LastAccess := now2 \<rparr>
               in (Some (li_Value item), lc_recordHit (lc1\<lparr> lc_data := (lc_data lc1)(key \<mapsto> item1) \<rparr>)))"

text \<open>The search for the least recently accessed entry; the empty key stands for "none found".\<close>

definition older :: "'v local_cache \<Rightarrow> string \<Rightarrow> string \<times> go_time \<Rightarrow> string \<times> go_time" where
  "older lc key best =
     (case lc_data lc key of
        None \<Rightarrow> best
      | Some item \<Rightarrow> if li_LastAccess item < snd best then (key, li_LastAccess item) else best)"

definition evictLRU :: "go_time \<Rightarrow> ((string \<rightharpoonup> 'v local_item) \<Rightarrow> string list) \<Rightarrow> 'v local_cache \<Rightarrow> 'v local_cache" where
  "evictLRU now order lc =
     (let oldestKey = fst (fold (older lc) (order (lc_data lc)) ([], now))
      in if oldestKey \<noteq> []
         then lc\<lparr> lc_data := (lc_data lc)(oldestKey := None),
                  lc_metrics := (lc_metrics lc)\<lparr> lm_Evictions := lm_Evictions (lc_metrics lc) + 1 \<rparr> \<rparr>
         else lc)"

definition lc_Set ::
  "go_time \<Rightarrow> go_time \<Rightarrow> go_time \<Rightarrow> ((string \<rightharpoonup> 'v local_item) \<Rightarrow> string list) \<Rightarrow> string \<Rightarrow> 'v \<Rightarrow> duration \<Rightarrow> 'v local_cache \<Rightarrow> 'v local_cache" where
  "lc_Set now now2 now3 order key v ttl lc =
     (let lc1 = (if map_len (lc_data lc) \<ge> lc_maxSize lc then evictLRU now order lc else lc)
      in lc1\<lparr> lc_data := (lc_data lc1)(key \<mapsto>
           \<lparr> li_Value = v, li_ExpiresAt = now2 + ttl, li_AccessCount = 0, li_LastAccess = now3 \<rparr>) \<rparr>)"

definition lc_Delete :: "string \<Rightarrow> 'v local_cache \<Rightarrow> 'v local_cache" where
  "lc_Delete key lc = lc\<lparr> lc_data := (lc_data lc)(key := None) \<rparr>"

definition lc_Clear :: "'v local_cache \<Rightarrow> 'v local_cache" where
  "lc_Clear lc = lc\<lparr> lc_data := Map.empty \<rparr>"

definition lc_Size :: "'v local_cache \<Rightarrow> int" where
  "lc_Size lc = map_len (lc_data lc)"

definition lc_GetMetrics :: "'v local_cache \<Rightarrow> local_metrics" where
  "lc_GetMetrics lc = lc_metrics lc"

definition lc_GetHitRate :: "'v local_cache \<Rightarrow> rat" where
  "lc_GetHitRate lc =
     (if lm_TotalAccess (lc_metrics lc) = 0 then 0
      else of_int (lm_Hits (lc_metrics lc)) / of_int (lm_TotalAccess (lc_metrics lc)))"

definition drop_expired :: "('i \<Rightarrow> go_time) \<Rightarrow> go_time \<Rightarrow> string \<Rightarrow> (string \<rightharpoonup> 'i) \<Rightarrow> (string \<rightharpoonup> 'i)" where
  "drop_expired expires now key m =
     (case m key of None \<Rightarrow> m | Some item \<Rightarrow> if now > expires item then m(key := None) else m)"

definition lc_cleanupExpired :: "go_time \<Rightarrow> ((string \<rightharpoonup> 'v local_item) \<Rightarrow> string list) \<Rightarrow> 'v local_cache \<Rightarrow> 'v local_cache" where
  "lc_cleanupExpired now order lc =
     lc\<lparr> lc_data := fold (drop_expired li_ExpiresAt now) (order (lc_data lc)) (lc_data lc) \<rparr>"

text \<open>The exchange sort of \<open>GetTopKeys\<close> on pairs of a key and its access count, largest count first.\<close>

definition exchange :: "nat \<Rightarrow> nat \<Rightarrow> (string \<times> int) list \<Rightarrow> (string \<times> int) list" where
  "exchange i j ks = (if snd (ks ! i) < snd (ks ! j) then ks[i := ks ! j, j := ks ! i] else ks)"

definition exchange_sort :: "(string \<times> int) list \<Rightarrow> (string \<times> int) list" where
  "exchange_sort ks =
     fold (\<lambda>i ks. fold (exchange i) [i + 1..<length ks] ks) [0..<length ks - 1] ks"

text \<open>\<open>make\<close> with a negative capacity panics.\<close>

definition GetTopKeys :: "string list \<Rightarrow> int \<Rightarrow> 'v local_cache \<Rightarrow> (string \<times> int) list option" where
  "GetTopKeys order limit lc =
     (if limit < 0 then None
      else Some (take (nat limit)
        (exchange_sort (List.map_filter (\<lambda>k. map_option (\<lambda>item. (k, li_AccessCount item)) (lc_data lc k)) order))))"

section \<open>The simulated distributed cache\<close>

record 'v remote_item =
  ri_Value :: 'v
  ri_ExpiresAt :: go_time
  ri_CreatedAt :: go_time

record remote_metrics =
  rm_Hits :: int
  rm_Misses :: int
  rm_Sets :: int
  rm_Deletes :: int
  NetworkCalls :: int
  TotalLatency :: duration

record 'v remote_cache =
  rc_data :: "string \<rightharpoonup> 'v remote_item"
  rc_metrics :: remote_metrics
  rc_latency :: duration

definition rc_New :: "duration \<Rightarrow> 'v remote_cache" where
  "rc_New networkLatency =
     \<lparr> rc_data = Map.empty, rc_metrics = \<lparr> rm_Hits = 0, rm_Misses = 0, rm_Sets = 0, rm_Deletes = 0, NetworkCalls = 0, TotalLatency = 0 \<rparr>,
       rc_latency = networkLatency \<rparr>"

definition rc_count :: "(remote_metrics \<Rightarrow> remote_metrics) \<Rightarrow> 'v remote_cache \<Rightarrow> 'v remote_cache" where
  "rc_count f rc = rc\<lparr> rc_metrics := f (rc_metrics rc) \<rparr>"

definition simulateNetworkLatency :: "'v remote_cache \<Rightarrow> 'v remote_cache" where
  "simulateNetworkLatency rc = rc_count (\<lambda>m. m\<lparr> TotalLatency := TotalLatency m + rc_latency rc \<rparr>) rc"

definition recordNetworkCall :: "'v remote_cache \<Rightarrow> 'v remote_cache" where
  "recordNetworkCall = rc_count (\<lambda>m. m\<lparr> NetworkCalls := NetworkCalls m + 1 \<rparr>)"

definition rc_recordHit :: "'v remote_cache \<Rightarrow> 'v remote_cache" where
  "rc_recordHit = rc_count (\<lambda>m. m\<lparr> rm_Hits := rm_Hits m + 1 \<rparr>)"

definition rc_recordMiss :: "'v remote_cache \<Rightarrow> 'v remote_cache" where
  "rc_recordMiss = rc_count (\<lambda>m. m\<lparr> rm_Misses := rm_Misses m + 1 \<rparr>)"

definition recordSet :: "'v remote_cache \<Rightarrow> 'v remote_cache" where
  "recordSet = rc_count (\<lambda>m. m\<lparr> rm_Sets := rm_Sets m + 1 \<rparr>)"

definition recordDelete :: "'v remote_cache \<Rightarrow> 'v remote_cache" where
  "recordDelete = rc_count (\<lambda>m. m\<lparr> rm_Deletes := rm_Deletes m + 1 \<rparr>)"

definition rc_Get :: "go_time \<Rightarrow> string \<Rightarrow> 'v remote_cache \<Rightarrow> 'v option \<times> 'v remote_cache" where
  "rc_Get now key rc =
     (let rc1 = recordNetworkCall (simulateNetworkLatency rc)
      in case rc_data rc1 key of
           None \<Rightarrow> (None, rc_recordMiss rc1)
         | Some item \<Rightarrow> if now > ri_ExpiresAt item then (None, rc_recordMiss rc1) else (Some (ri_Value item), rc_recordHit rc1))"

definition rc_Set :: "go_time \<Rightarrow> go_time \<Rightarrow> string \<Rightarrow> 'v \<Rightarrow> duration \<Rightarrow> 'v remote_cache \<Rightarrow> 'v remote_cache" where
  "rc_Set now now2 key v ttl rc =
     (let rc1 = recordSet (recordNetworkCall (simulateNetworkLatency rc))
      in rc1\<lparr> rc_data := (rc_data rc1)(key \<mapsto> \<lparr> ri_Value = v, ri_ExpiresAt = now + ttl, ri_CreatedAt = now2 \<rparr>) \<rparr>)"

definition rc_Delete :: "string \<Rightarrow> 'v remote_cache \<Rightarrow> 'v remote_cache" where
  "rc_Delete key rc =
     (let rc1 = recordDelete (recordNetworkCall (simulateNetworkLatency rc)) in rc1\<lparr> rc_data := (rc_data rc1)(key := None) \<rparr>)"

definition mget_step :: "go_time \<Rightarrow> string \<Rightarrow> (string \<rightharpoonup> 'v) \<times> 'v remote_cache \<Rightarrow> (string \<rightharpoonup> 'v) \<times> 'v remote_cache" where
  "mget_step now key acc =
     (case acc of (result, rc) \<Rightarrow>
        (case rc_data rc key of
           Some item \<Rightarrow>
             if now < ri_ExpiresAt item then (result(key \<mapsto> ri_Value item), rc_recordHit rc) else (result, rc_recordMiss rc)
         | None \<Rightarrow> (result, rc_recordMiss rc)))"

definition MGet :: "go_time \<Rightarrow> string list \<Rightarrow> 'v remote_cache \<Rightarrow> (string \<rightharpoonup> 'v) \<times> 'v remote_cache" where
  "MGet now keys rc = fold (mget_step now) keys (Map.empty, recordNetworkCall (simulateNetworkLatency rc))"

definition mset_step :: "go_time \<Rightarrow> duration \<Rightarrow> (string \<rightharpoonup> 'v) \<Rightarrow> string \<Rightarrow> 'v remote_cache \<Rightarrow> 'v remote_cache" where
  "mset_step now ttl items key rc =
     (case items key of
        None \<Rightarrow> rc
      | Some v \<Rightarrow> recordSet (rc\<lparr> rc_data := (rc_data rc)(key \<mapsto> \<lparr> ri_Value = v, ri_ExpiresAt = now + ttl, ri_CreatedAt = now \<rparr>) \<rparr>))"

definition MSet :: "go_time \<Rightarrow> string list \<Rightarrow> (string \<rightharpoonup> 'v) \<Rightarrow> duration \<Rightarrow> 'v remote_cache \<Rightarrow> 'v remote_cache" where
  "MSet now order items ttl rc = fold (mset_step now ttl items) order (recordNetworkCall (simulateNetworkLatency rc))"

definition rc_Exists :: "go_time \<Rightarrow> string \<Rightarrow> 'v remote_cache \<Rightarrow> bool \<times> 'v remote_cache" where
  "rc_Exists now key rc =
     (let rc1 = recordNetworkCall (simulateNetworkLatency rc)
      in case rc_data rc1 key of None \<Rightarrow> (False, rc1) | Some item \<Rightarrow> (now < ri_ExpiresAt item, rc1))"

definition rc_TTL :: "go_time \<Rightarrow> string \<Rightarrow> 'v remote_cache \<Rightarrow> duration \<times> 'v remote_cache" where
  "rc_TTL now key rc =
     (let rc1 = recordNetworkCall (simulateNetworkLatency rc)
      in case rc_data rc1 key of
           None \<Rightarrow> (- 2, rc1)
         | Some item \<Rightarrow> let remaining = ri_ExpiresAt item - now in if remaining < 0 then (- 1, rc1) else (remaining, rc1))"

definition rc_Size :: "'v remote_cache \<Rightarrow> int" where
  "rc_Size rc = map_len (rc_data rc)"

definition rc_Clear :: "'v remote_cache \<Rightarrow> 'v remote_cache" where
  "rc_Clear rc = rc\<lparr> rc_data := Map.empty \<rparr>"

definition rc_GetMetrics :: "'v remote_cache \<Rightarrow> remote_metrics" where
  "rc_GetMetrics rc = rc_metrics rc"

definition rc_GetHitRate :: "'v remote_cache \<Rightarrow> rat" where
  "rc_GetHitRate rc =
     (let total = rm_Hits (rc_metrics rc) + rm_Misses (rc_metrics rc)
      in if total = 0 then 0 else of_int (rm_Hits (rc_metrics rc)) / of_int total)"

text \<open>A duration divided by the number of calls, truncated; neither is negative.\<close>

definition GetAverageLatency :: "'v remote_cache \<Rightarrow> duration" where
  "GetAverageLatency rc =
     (if NetworkCalls (rc_metrics rc) = 0 then 0 else TotalLatency (rc_metrics rc) div NetworkCalls (rc_metrics rc))"

definition rc_cleanupExpired :: "go_time \<Rightarrow> ((string \<rightharpoonup> 'v remote_item) \<Rightarrow> string list) \<Rightarrow> 'v remote_cache \<Rightarrow> 'v remote_cache" where
  "rc_cleanupExpired now order rc =
     rc\<lparr> rc_data := fold (drop_expired ri_ExpiresAt now) (order (rc_data rc)) (rc_data rc) \<rparr>"

section \<open>The multi-level cache\<close>

record level_config =
  L1TTL :: duration
  L2TTL :: duration
  L1MaxSize :: int
  EnableL1 :: bool
  EnableL2 :: bool
  WriteThrough :: bool

record level_metrics =
  L1Hits :: int
  L2Hits :: int
  DatabaseHits :: int
  mm_TotalRequests :: int
  L1HitRate :: rat
  L2HitRate :: rat
  OverallHitRate :: rat

record multilevel =
  l1Cache :: "string local_cache option"
  l2Cache :: "string remote_cache option"
  mc_config :: level_config
  mc_metrics :: level_metrics

definition default_config :: level_config where
  "default_config =
     \<lparr> L1TTL = 5 * 60 * 10 ^ 9, L2TTL = 30 * 60 * 10 ^ 9, L1MaxSize = 1000, EnableL1 = True, EnableL2 = True, WriteThrough = True \<rparr>"

definition NewMultilevelCache :: "level_config option \<Rightarrow> multilevel" where
  "NewMultilevelCache cfg =
     (let config = (case cfg of None \<Rightarrow> default_config | Some c \<Rightarrow> c)
      in \<lparr> l1Cache = (if EnableL1 config then Some (NewLocalCache (L1MaxSize config)) else None),
           l2Cache = (if EnableL2 config then Some (rc_New (2 * 10 ^ 6)) else None),
           mc_config = config,
           mc_metrics = \<lparr> L1Hits = 0, L2Hits = 0, DatabaseHits = 0, mm_TotalRequests = 0,
             L1HitRate = 0, L2HitRate = 0, OverallHitRate = 0 \<rparr> \<rparr>)"

definition mc_count :: "(level_metrics \<Rightarrow> level_metrics) \<Rightarrow> multilevel \<Rightarrow> multilevel" where
  "mc_count f mc = mc\<lparr> mc_metrics := f (mc_metrics mc) \<rparr>"

definition recordRequest :: "multilevel \<Rightarrow> multilevel" where
  "recordRequest = mc_count (\<lambda>m. m\<lparr> mm_TotalRequests := mm_TotalRequests m + 1 \<rparr>)"

definition recordL1Hit :: "multilevel \<Rightarrow> multilevel" where
  "recordL1Hit = mc_count (\<lambda>m. m\<lparr> L1Hits := L1Hits m + 1 \<rparr>)"

definition recordL2Hit :: "multilevel \<Rightarrow> multilevel" where
  "recordL2Hit = mc_count (\<lambda>m. m\<lparr> L2Hits := L2Hits m + 1 \<rparr>)"

definition recordDatabaseHit :: "multilevel \<Rightarrow> multilevel" where
  "recordDatabaseHit = mc_count (\<lambda>m. m\<lparr> DatabaseHits := DatabaseHits m + 1 \<rparr>)"

text \<open>The clock readings of one call: of the look-ups and of the writes into L1 and L2, with the eviction order.\<close>

record readings =
  t_l1 :: go_time
  t_l1_touch :: go_time
  t_l2 :: go_time
  t_set1 :: "go_time \<times> go_time \<times> go_time"
  t_set2 :: "go_time \<times> go_time"
  t_order :: "(string \<rightharpoonup> string local_item) \<Rightarrow> string list"

text \<open>A level that is switched off or nil is skipped.\<close>

definition use_l1 :: "multilevel \<Rightarrow> string local_cache option" where
  "use_l1 mc = (if EnableL1 (mc_config mc) then l1Cache mc else None)"

definition use_l2 :: "multilevel \<Rightarrow> string remote_cache option" where
  "use_l2 mc = (if EnableL2 (mc_config mc) then l2Cache mc else None)"

definition set_l1 :: "readings \<Rightarrow> string \<Rightarrow> string \<Rightarrow> multilevel \<Rightarrow> multilevel" where
  "set_l1 r key v mc =
     (case use_l1 mc of
        None \<Rightarrow> mc
      | Some c \<Rightarrow> (case t_set1 r of (n1, n2, n3) \<Rightarrow> mc\<lparr> l1Cache := Some (lc_Set n1 n2 n3 (t_order r) key v (L1TTL (mc_config mc)) c) \<rparr>))"

definition set_l2 :: "readings \<Rightarrow> string \<Rightarrow> string \<Rightarrow> multilevel \<Rightarrow> multilevel" where
  "set_l2 r key v mc =
     (case use_l2 mc of
        None \<Rightarrow> mc
      | Some c \<Rightarrow> (case t_set2 r of (n1, n2) \<Rightarrow> mc\<lparr> l2Cache := Some (rc_Set n1 n2 key v (L2TTL (mc_config mc)) c) \<rparr>))"

definition get_l1 :: "readings \<Rightarrow> string \<Rightarrow> multilevel \<Rightarrow> string option \<times> multilevel" where
  "get_l1 r key mc =
     (case use_l1 mc of
        None \<Rightarrow> (None, mc)
      | Some c \<Rightarrow> (case lc_Get (t_l1 r) (t_l1_touch r) key c of (v, c1) \<Rightarrow> (v, mc\<lparr> l1Cache := Some c1 \<rparr>)))"

definition get_l2 :: "readings \<Rightarrow> string \<Rightarrow> multilevel \<Rightarrow> string option \<times> multilevel" where
  "get_l2 r key mc =
     (case use_l2 mc of
        None \<Rightarrow> (None, mc)
      | Some c \<Rightarrow> (case rc_Get (t_l2 r) key c of (v, c1) \<Rightarrow> (v, mc\<lparr> l2Cache := Some c1 \<rparr>)))"

definition mc_Get :: "readings \<Rightarrow> string \<Rightarrow> database \<Rightarrow> multilevel \<Rightarrow> (pattern_error + string) \<times> multilevel" where
  "mc_Get r key db mc =
     (case get_l1 r key (recordRequest mc) of
        (Some v, mc1) \<Rightarrow> (Inr v, recordL1Hit mc1)
      | (None, mc1) \<Rightarrow>
          (case get_l2 r key mc1 of
             (Some v, mc2) \<Rightarrow> (Inr v, set_l1 r key v (recordL2Hit mc2))
           | (None, mc2) \<Rightarrow>
               (case db_Get key db of
                  None \<Rightarrow> (Inl (NoData key), mc2)
                | Some v \<Rightarrow> (Inr v, set_l1 r key v (set_l2 r key v (recordDatabaseHit mc2))))))"

definition mc_Delete :: "string \<Rightarrow> multilevel \<Rightarrow> multilevel" where
  "mc_Delete key mc =
     (let mc1 = (case use_l1 mc of None \<Rightarrow> mc | Some c \<Rightarrow> mc\<lparr> l1Cache := Some (lc_Delete key c) \<rparr>)
      in case use_l2 mc1 of None \<Rightarrow> mc1 | Some c \<Rightarrow> mc1\<lparr> l2Cache := Some (rc_Delete key c) \<rparr>)"

definition mc_Set :: "readings \<Rightarrow> string \<Rightarrow> string \<Rightarrow> database \<Rightarrow> multilevel \<Rightarrow> database \<times> multilevel" where
  "mc_Set r key v db mc =
     (let db1 = db_Set key v db
      in if WriteThrough (mc_config mc) then (db1, set_l1 r key v (set_l2 r key v mc))
         else (db1, mc_Delete key mc))"

definition mc_GetMetrics :: "multilevel \<Rightarrow> level_metrics \<times> multilevel" where
  "mc_GetMetrics mc =
     (let m = mc_metrics mc; n = of_int (mm_TotalRequests m);
          m1 = (if mm_TotalRequests m > 0
                then m\<lparr> L1HitRate := of_int (L1Hits m) / n, L2HitRate := of_int (L2Hits m) / n,
                        OverallHitRate := of_int (L1Hits m + L2Hits m) / n \<rparr>
                else m)
      in (m1, mc\<lparr> mc_metrics := m1 \<rparr>))"

end
