(* ===== verification/Multilevel_Reads.thy ===== *)
theory Multilevel_Reads
  imports Multilevel
begin

text \<open>
  What the multi-level cache of \<open>tutorial/05-multilevel\<close> shows of its database. The entries of a level satisfy a
  predicate of the key, the value and the expiry time; one lemma says how \<open>mc_Get\<close> and \<open>mc_Set\<close> pass such
  predicates on. With "the database holds the value" it gives that a cache that sees all writes is invisible, with
  "the database held the value not long before" it bounds how stale a read can be when others write to the database.
\<close>

section \<open>Predicates on the entries of the levels\<close>

type_synonym entry_pred = "string \<Rightarrow> string \<Rightarrow> go_time \<Rightarrow> bool"

definition holds1 :: "entry_pred \<Rightarrow> string local_cache \<Rightarrow> bool" where
  "holds1 P c \<longleftrightarrow> (\<forall>k item. lc_data c k = Some item \<longrightarrow> P k (li_Value item) (li_ExpiresAt item))"

definition holds2 :: "entry_pred \<Rightarrow> string remote_cache \<Rightarrow> bool" where
  "holds2 P c \<longleftrightarrow> (\<forall>k item. rc_data c k = Some item \<longrightarrow> P k (ri_Value item) (ri_ExpiresAt item))"

definition levels :: "entry_pred \<Rightarrow> entry_pred \<Rightarrow> multilevel \<Rightarrow> bool" where
  "levels P1 P2 mc \<longleftrightarrow> (\<forall>c. use_l1 mc = Some c \<longrightarrow> holds1 P1 c) \<and> (\<forall>c. use_l2 mc = Some c \<longrightarrow> holds2 P2 c)"

lemma drop_expired_sub:
  "fold (drop_expired expires now) ks m k = Some item \<Longrightarrow> m k = Some item"
proof (induction ks arbitrary: m)
  case (Cons a ks)
  then have "drop_expired expires now a m k = Some item" by simp
  then show ?case by (auto simp: drop_expired_def split: option.splits if_splits)
qed simp

lemma evict_sub: "lc_data (evictLRU now order c) k = Some item \<Longrightarrow> lc_data c k = Some item"
  by (auto simp: evictLRU_def Let_def split: if_splits)

lemma holds1_ops:
  assumes "holds1 P c"
  shows "lc_Get now now2 k c = (r, c1) \<Longrightarrow> holds1 P c1"
    "lc_Get now now2 k c = (Some v, c1) \<Longrightarrow> \<exists>e. P k v e \<and> now \<le> e"
    "P k v (n2 + ttl) \<Longrightarrow> holds1 P (lc_Set n1 n2 n3 order k v ttl c)"
    "(\<And>e. P' k v e) \<Longrightarrow> (\<And>k' v' e. k' \<noteq> k \<Longrightarrow> P k' v' e \<Longrightarrow> P' k' v' e) \<Longrightarrow> holds1 P' (lc_Set n1 n2 n3 order k v ttl c)"
    "(\<And>k' v' e. k' \<noteq> k \<Longrightarrow> P k' v' e \<Longrightarrow> P' k' v' e) \<Longrightarrow> holds1 P' (lc_Delete k c)"
    "holds1 P (lc_cleanupExpired now order c)"
proof -
  show "holds1 P c1" if "lc_Get now now2 k c = (r, c1)"
    using that assms by (auto simp: holds1_def lc_Get_def lc_recordHit_def lc_recordMiss_def Let_def split: option.splits if_splits)
  show "\<exists>e. P k v e \<and> now \<le> e" if "lc_Get now now2 k c = (Some v, c1)"
    using that assms by (force simp: holds1_def lc_Get_def Let_def split: option.splits if_splits)
  show "holds1 P (lc_Set n1 n2 n3 order k v ttl c)" if "P k v (n2 + ttl)"
    using that assms by (auto simp: holds1_def lc_Set_def Let_def dest: evict_sub)
  show "holds1 P' (lc_Set n1 n2 n3 order k v ttl c)"
    if "\<And>e. P' k v e" "\<And>k' v' e. k' \<noteq> k \<Longrightarrow> P k' v' e \<Longrightarrow> P' k' v' e"
    using that assms by (auto simp: holds1_def lc_Set_def Let_def dest: evict_sub)
  show "holds1 P' (lc_Delete k c)" if "\<And>k' v' e. k' \<noteq> k \<Longrightarrow> P k' v' e \<Longrightarrow> P' k' v' e"
    using that assms by (auto simp: holds1_def lc_Delete_def)
  show "holds1 P (lc_cleanupExpired now order c)"
    using assms by (auto simp: holds1_def lc_cleanupExpired_def dest: drop_expired_sub)
qed

lemmas rc_counters = rc_count_def simulateNetworkLatency_def recordNetworkCall_def rc_recordHit_def rc_recordMiss_def
  recordSet_def recordDelete_def

lemma holds2_ops:
  assumes "holds2 P c"
  shows "rc_Get now k c = (r, c1) \<Longrightarrow> holds2 P c1"
    "rc_Get now k c = (Some v, c1) \<Longrightarrow> \<exists>e. P k v e \<and> now \<le> e"
    "P k v (n1 + ttl) \<Longrightarrow> holds2 P (rc_Set n1 n2 k v ttl c)"
    "(\<And>e. P' k v e) \<Longrightarrow> (\<And>k' v' e. k' \<noteq> k \<Longrightarrow> P k' v' e \<Longrightarrow> P' k' v' e) \<Longrightarrow> holds2 P' (rc_Set n1 n2 k v ttl c)"
    "(\<And>k' v' e. k' \<noteq> k \<Longrightarrow> P k' v' e \<Longrightarrow> P' k' v' e) \<Longrightarrow> holds2 P' (rc_Delete k c)"
    "holds2 P (rc_cleanupExpired now order c)"
proof -
  show "holds2 P c1" if "rc_Get now k c = (r, c1)"
    using that assms by (auto simp: holds2_def rc_Get_def rc_counters Let_def split: option.splits if_splits)
  show "\<exists>e. P k v e \<and> now \<le> e" if "rc_Get now k c = (Some v, c1)"
    using that assms by (force simp: holds2_def rc_Get_def rc_counters Let_def split: option.splits if_splits)
  show "holds2 P (rc_Set n1 n2 k v ttl c)" if "P k v (n1 + ttl)"
    using that assms by (auto simp: holds2_def rc_Set_def rc_counters Let_def)
  show "holds2 P' (rc_Set n1 n2 k v ttl c)"
    if "\<And>e. P' k v e" "\<And>k' v' e. k' \<noteq> k \<Longrightarrow> P k' v' e \<Longrightarrow> P' k' v' e"
    using that assms by (auto simp: holds2_def rc_Set_def rc_counters Let_def)
  show "holds2 P' (rc_Delete k c)" if "\<And>k' v' e. k' \<noteq> k \<Longrightarrow> P k' v' e \<Longrightarrow> P' k' v' e"
    using that assms by (auto simp: holds2_def rc_Delete_def rc_counters Let_def)
  show "holds2 P (rc_cleanupExpired now order c)"
    using assms by (auto simp: holds2_def rc_cleanupExpired_def dest: drop_expired_sub)
qed

lemmas mc_counters = mc_count_def recordRequest_def recordL1Hit_def recordL2Hit_def recordDatabaseHit_def

lemma counters_use [simp]:
  "use_l1 (mc_count f mc) = use_l1 mc" "use_l2 (mc_count f mc) = use_l2 mc" "mc_config (mc_count f mc) = mc_config mc"
  "levels P1 P2 (mc_count f mc) = levels P1 P2 mc"
  by (simp_all add: mc_count_def use_l1_def use_l2_def levels_def)

text \<open>The levels after the operations.\<close>

lemma use_set [simp]:
  "use_l1 (set_l1 r k v mc) = map_option (lc_Set (fst (t_set1 r)) (fst (snd (t_set1 r))) (snd (snd (t_set1 r))) (t_order r) k v
     (L1TTL (mc_config mc))) (use_l1 mc)"
  "use_l2 (set_l1 r k v mc) = use_l2 mc" "mc_config (set_l1 r k v mc) = mc_config mc"
  "use_l2 (set_l2 r k v mc) = map_option (rc_Set (fst (t_set2 r)) (snd (t_set2 r)) k v (L2TTL (mc_config mc))) (use_l2 mc)"
  "use_l1 (set_l2 r k v mc) = use_l1 mc" "mc_config (set_l2 r k v mc) = mc_config mc"
  by (auto simp: set_l1_def set_l2_def use_l1_def use_l2_def split: option.splits prod.splits)

lemma use_get [simp]:
  "use_l1 (snd (get_l1 r k mc)) = map_option (\<lambda>c. snd (lc_Get (t_l1 r) (t_l1_touch r) k c)) (use_l1 mc)"
  "use_l2 (snd (get_l1 r k mc)) = use_l2 mc" "mc_config (snd (get_l1 r k mc)) = mc_config mc"
  "use_l2 (snd (get_l2 r k mc)) = map_option (\<lambda>c. snd (rc_Get (t_l2 r) k c)) (use_l2 mc)"
  "use_l1 (snd (get_l2 r k mc)) = use_l1 mc" "mc_config (snd (get_l2 r k mc)) = mc_config mc"
  by (auto simp: get_l1_def get_l2_def use_l1_def use_l2_def split: option.splits prod.splits)

lemma fst_get:
  "fst (get_l1 r k mc) = Option.bind (use_l1 mc) (\<lambda>c. fst (lc_Get (t_l1 r) (t_l1_touch r) k c))"
  "fst (get_l2 r k mc) = Option.bind (use_l2 mc) (\<lambda>c. fst (rc_Get (t_l2 r) k c))"
  by (auto simp: get_l1_def get_l2_def use_l1_def use_l2_def split: option.splits prod.splits)

lemma use_delete [simp]:
  "use_l1 (mc_Delete k mc) = map_option (lc_Delete k) (use_l1 mc)"
  "use_l2 (mc_Delete k mc) = map_option (rc_Delete k) (use_l2 mc)" "mc_config (mc_Delete k mc) = mc_config mc"
  by (auto simp: mc_Delete_def use_l1_def use_l2_def Let_def split: option.splits)

lemma levelsI:
  assumes "\<And>c. use_l1 mc = Some c \<Longrightarrow> holds1 P1 c" "\<And>c. use_l2 mc = Some c \<Longrightarrow> holds2 P2 c"
  shows "levels P1 P2 mc"
  using assms by (simp add: levels_def)

lemma levelsD:
  assumes "levels P1 P2 mc"
  shows "use_l1 mc = Some c \<Longrightarrow> holds1 P1 c" "use_l2 mc = Some d \<Longrightarrow> holds2 P2 d"
  using assms by (simp_all add: levels_def)

lemma set_l1_levels:
  assumes "levels P1 P2 mc" "P1 k v (fst (snd (t_set1 r)) + L1TTL (mc_config mc))"
  shows "levels P1 P2 (set_l1 r k v mc)"
  using assms(2) by (intro levelsI) (auto intro: holds1_ops(3) levelsD [OF assms(1)])

lemma set_l2_levels:
  assumes "levels P1 P2 mc" "P2 k v (fst (t_set2 r) + L2TTL (mc_config mc))"
  shows "levels P1 P2 (set_l2 r k v mc)"
  using assms(2) by (intro levelsI) (auto intro: holds2_ops(3) levelsD [OF assms(1)])

lemma get_l1_levels:
  assumes "levels P1 P2 mc"
  shows "levels P1 P2 (snd (get_l1 r k mc))"
    "fst (get_l1 r k mc) = Some v \<Longrightarrow> \<exists>e. P1 k v e \<and> t_l1 r \<le> e"
proof -
  show "levels P1 P2 (snd (get_l1 r k mc))"
    using holds1_ops(1) [OF levelsD(1) [OF assms] surjective_pairing]
    by (intro levelsI) (auto dest: levelsD(2) [OF assms])
  assume "fst (get_l1 r k mc) = Some v"
  then obtain c where "use_l1 mc = Some c" "fst (lc_Get (t_l1 r) (t_l1_touch r) k c) = Some v" by (auto simp: fst_get bind_Some_iff)
  then show "\<exists>e. P1 k v e \<and> t_l1 r \<le> e" using holds1_ops(2) [OF levelsD(1) [OF assms]] by (metis prod.collapse)
qed

lemma get_l2_levels:
  assumes "levels P1 P2 mc"
  shows "levels P1 P2 (snd (get_l2 r k mc))"
    "fst (get_l2 r k mc) = Some v \<Longrightarrow> \<exists>e. P2 k v e \<and> t_l2 r \<le> e"
proof -
  show "levels P1 P2 (snd (get_l2 r k mc))"
    using holds2_ops(1) [OF levelsD(2) [OF assms] surjective_pairing]
    by (intro levelsI) (auto dest: levelsD(1) [OF assms])
  assume "fst (get_l2 r k mc) = Some v"
  then obtain c where "use_l2 mc = Some c" "fst (rc_Get (t_l2 r) k c) = Some v" by (auto simp: fst_get bind_Some_iff)
  then show "\<exists>e. P2 k v e \<and> t_l2 r \<le> e" using holds2_ops(2) [OF levelsD(2) [OF assms]] by (metis prod.collapse)
qed

text \<open>\<open>mc_Get\<close> in terms of the two look-ups.\<close>

lemma mc_Get_eq:
  "mc_Get r k db mc =
    (case fst (get_l1 r k (recordRequest mc)) of
      Some v \<Rightarrow> (Inr v, recordL1Hit (snd (get_l1 r k (recordRequest mc))))
    | None \<Rightarrow> (case fst (get_l2 r k (snd (get_l1 r k (recordRequest mc)))) of
        Some v \<Rightarrow> (Inr v, set_l1 r k v (recordL2Hit (snd (get_l2 r k (snd (get_l1 r k (recordRequest mc)))))))
      | None \<Rightarrow> (case db_data db k of
          None \<Rightarrow> (Inl (NoData k), snd (get_l2 r k (snd (get_l1 r k (recordRequest mc)))))
        | Some v \<Rightarrow> (Inr v, set_l1 r k v (set_l2 r k v (recordDatabaseHit (snd (get_l2 r k (snd (get_l1 r k (recordRequest mc)))))))))))"
  by (simp add: mc_Get_def db_Get_def case_prod_beta split: option.splits)

lemma mc_Get_levels:
  assumes "levels P1 P2 mc" "mc_Get r k db mc = (x, mc1)"
    and l2: "\<And>v e. P2 k v e \<Longrightarrow> t_l2 r \<le> e \<Longrightarrow> P1 k v (fst (snd (t_set1 r)) + L1TTL (mc_config mc))"
    and new: "\<And>v. db_data db k = Some v \<Longrightarrow>
      P1 k v (fst (snd (t_set1 r)) + L1TTL (mc_config mc)) \<and> P2 k v (fst (t_set2 r) + L2TTL (mc_config mc))"
  shows "levels P1 P2 mc1" "mc_config mc1 = mc_config mc"
    "x = Inr v \<Longrightarrow> (\<exists>e. P1 k v e \<and> t_l1 r \<le> e) \<or> (\<exists>e. P2 k v e \<and> t_l2 r \<le> e) \<or> db_data db k = Some v"
    "x = Inl err \<Longrightarrow> err = NoData k \<and> db_data db k = None"
proof -
  let ?m0 = "recordRequest mc" let ?m1 = "snd (get_l1 r k ?m0)" let ?m2 = "snd (get_l2 r k ?m1)"
  have l0: "levels P1 P2 ?m0" using assms(1) by (simp add: recordRequest_def)
  have l1: "levels P1 P2 ?m1" by (rule get_l1_levels(1) [OF l0])
  have l2': "levels P1 P2 ?m2" by (rule get_l2_levels(1) [OF l1])
  have c: "mc_config ?m1 = mc_config mc" "mc_config ?m2 = mc_config mc" by (simp_all add: recordRequest_def)
  note get = mc_Get_eq [of r k db mc]
  have "levels P1 P2 mc1 \<and> mc_config mc1 = mc_config mc \<and>
    (\<forall>v. x = Inr v \<longrightarrow> (\<exists>e. P1 k v e \<and> t_l1 r \<le> e) \<or> (\<exists>e. P2 k v e \<and> t_l2 r \<le> e) \<or> db_data db k = Some v) \<and>
    (\<forall>err. x = Inl err \<longrightarrow> err = NoData k \<and> db_data db k = None)"
  proof (cases "fst (get_l1 r k ?m0)")
    case (Some v)
    then have "x = Inr v" "mc1 = recordL1Hit ?m1" using assms(2) get by simp_all
    then show ?thesis using get_l1_levels(2) [OF l0 Some] l1 c by (simp add: recordL1Hit_def)
  next
    case miss1: None
    show ?thesis
    proof (cases "fst (get_l2 r k ?m1)")
      case (Some v)
      then have x: "x = Inr v" "mc1 = set_l1 r k v (recordL2Hit ?m2)" using assms(2) get miss1 by simp_all
      obtain e where e: "P2 k v e" "t_l2 r \<le> e" using get_l2_levels(2) [OF l1 Some] by blast
      have "levels P1 P2 (set_l1 r k v (recordL2Hit ?m2))"
        using l2' l2 [OF e] c by (intro set_l1_levels) (simp_all add: recordL2Hit_def)
      then show ?thesis using e x c by (auto simp: recordL2Hit_def)
    next
      case miss2: None
      show ?thesis
      proof (cases "db_data db k")
        case None
        then have "x = Inl (NoData k)" "mc1 = ?m2" using assms(2) get miss1 miss2 by simp_all
        then show ?thesis using None l2' c by simp
      next
        case (Some v)
        let ?m3 = "set_l2 r k v (recordDatabaseHit ?m2)"
        have x: "x = Inr v" "mc1 = set_l1 r k v ?m3" using assms(2) get miss1 miss2 Some by simp_all
        have "levels P1 P2 ?m3"
          using l2' new [OF Some] c by (intro set_l2_levels) (simp_all add: recordDatabaseHit_def)
        then have "levels P1 P2 (set_l1 r k v ?m3)"
          using new [OF Some] c by (intro set_l1_levels) (simp_all add: recordDatabaseHit_def)
        then show ?thesis using x Some c by (simp add: recordDatabaseHit_def)
      qed
    qed
  qed
  then show "levels P1 P2 mc1" "mc_config mc1 = mc_config mc"
    "x = Inr v \<Longrightarrow> (\<exists>e. P1 k v e \<and> t_l1 r \<le> e) \<or> (\<exists>e. P2 k v e \<and> t_l2 r \<le> e) \<or> db_data db k = Some v"
    "x = Inl err \<Longrightarrow> err = NoData k \<and> db_data db k = None" by blast+
qed

text \<open>Writes and deletions: what held of the other keys may get weaker, of the written key anything is known.\<close>

lemma set_levels_any:
  assumes "levels P1 P2 mc" "\<And>e. Q1 k v e \<and> Q2 k v e"
    and "\<And>k' v' e. k' \<noteq> k \<Longrightarrow> P1 k' v' e \<Longrightarrow> Q1 k' v' e" "\<And>k' v' e. k' \<noteq> k \<Longrightarrow> P2 k' v' e \<Longrightarrow> Q2 k' v' e"
  shows "levels Q1 Q2 (set_l1 r k v (set_l2 r k v mc))"
proof (rule levelsI)
  fix c
  assume "use_l1 (set_l1 r k v (set_l2 r k v mc)) = Some c"
  then show "holds1 Q1 c"
    using holds1_ops(4) [OF levelsD(1) [OF assms(1)], of _ Q1 k v] assms(2,3) by auto
next
  fix c
  assume "use_l2 (set_l1 r k v (set_l2 r k v mc)) = Some c"
  then show "holds2 Q2 c"
    using holds2_ops(4) [OF levelsD(2) [OF assms(1)], of _ Q2 k v] assms(2,4) by auto
qed

lemma delete_levels:
  assumes "levels P1 P2 mc"
    and "\<And>k' v' e. k' \<noteq> k \<Longrightarrow> P1 k' v' e \<Longrightarrow> Q1 k' v' e" "\<And>k' v' e. k' \<noteq> k \<Longrightarrow> P2 k' v' e \<Longrightarrow> Q2 k' v' e"
  shows "levels Q1 Q2 (mc_Delete k mc)"
proof (rule levelsI)
  fix c
  assume "use_l1 (mc_Delete k mc) = Some c"
  then show "holds1 Q1 c" using holds1_ops(5) [OF levelsD(1) [OF assms(1)], of _ k Q1] assms(2) by auto
next
  fix c
  assume "use_l2 (mc_Delete k mc) = Some c"
  then show "holds2 Q2 c" using holds2_ops(5) [OF levelsD(2) [OF assms(1)], of _ k Q2] assms(3) by auto
qed

text \<open>Background work on the caches: the two clean-ups, and dropping a key from both levels.\<close>

datatype upkeep = CleanL1 go_time | CleanL2 go_time "(string \<rightharpoonup> string remote_item) \<Rightarrow> string list" | DropKey string

fun maintain :: "readings \<Rightarrow> upkeep \<Rightarrow> multilevel \<Rightarrow> multilevel" where
  "maintain r (CleanL1 now) mc =
     (case l1Cache mc of None \<Rightarrow> mc | Some c \<Rightarrow> mc\<lparr> l1Cache := Some (lc_cleanupExpired now (t_order r) c) \<rparr>)"
| "maintain r (CleanL2 now order) mc =
     (case l2Cache mc of None \<Rightarrow> mc | Some c \<Rightarrow> mc\<lparr> l2Cache := Some (rc_cleanupExpired now order c) \<rparr>)"
| "maintain r (DropKey k) mc = mc_Delete k mc"

lemma maintain_levels:
  assumes "levels P1 P2 mc"
  shows "levels P1 P2 (maintain r u mc)" "mc_config (maintain r u mc) = mc_config mc"
proof -
  show "levels P1 P2 (maintain r u mc)"
  proof (cases u)
    case (DropKey k)
    then show ?thesis using delete_levels [OF assms] by simp
  qed (use assms in \<open>auto simp: levels_def use_l1_def use_l2_def intro: holds1_ops(6) holds2_ops(6) split: option.splits if_splits\<close>)
  show "mc_config (maintain r u mc) = mc_config mc"
    by (cases u) (auto split: option.splits)
qed

lemma levels_new: "levels P1 P2 (NewMultilevelCache cfg)"
  by (auto simp: levels_def NewMultilevelCache_def use_l1_def use_l2_def holds1_def holds2_def NewLocalCache_def rc_New_def Let_def
      split: option.splits if_splits)


section \<open>A cache that sees all writes is invisible\<close>

definition sees_all :: "database \<times> multilevel \<Rightarrow> bool" where
  "sees_all s \<longleftrightarrow> levels (\<lambda>k v e. db_data (fst s) k = Some v) (\<lambda>k v e. db_data (fst s) k = Some v) (snd s)"

definition front_Get :: "readings \<times> upkeep \<Rightarrow> string \<Rightarrow> database \<times> multilevel \<Rightarrow> (pattern_error + string) \<times> database \<times> multilevel" where
  "front_Get t k s = (case mc_Get (fst t) k (fst s) (snd s) of (x, mc) \<Rightarrow> (x, fst s, mc))"

definition front_Set :: "readings \<times> upkeep \<Rightarrow> string \<Rightarrow> string \<Rightarrow> database \<times> multilevel \<Rightarrow> database \<times> multilevel" where
  "front_Set t k v s = mc_Set (fst t) k v (fst s) (snd s)"

definition front_tick :: "readings \<times> upkeep \<Rightarrow> database \<times> multilevel \<Rightarrow> database \<times> multilevel" where
  "front_tick t s = (fst s, maintain (fst t) (snd t) (snd s))"

lemma mc_Set_levels:
  assumes "levels P1 P2 mc" "mc_Set r k v db mc = (db1, mc1)" "\<And>e. Q1 k v e \<and> Q2 k v e"
    and "\<And>k' v' e. k' \<noteq> k \<Longrightarrow> P1 k' v' e \<Longrightarrow> Q1 k' v' e" "\<And>k' v' e. k' \<noteq> k \<Longrightarrow> P2 k' v' e \<Longrightarrow> Q2 k' v' e"
  shows "levels Q1 Q2 mc1" "db_data db1 = (db_data db)(k \<mapsto> v)" "mc_config mc1 = mc_config mc"
proof -
  have "mc1 = (if WriteThrough (mc_config mc) then set_l1 r k v (set_l2 r k v mc) else mc_Delete k mc)" "db1 = db_Set k v db"
    using assms(2) by (simp_all add: mc_Set_def Let_def split: if_splits)
  moreover have "levels Q1 Q2 (set_l1 r k v (set_l2 r k v mc))" by (rule set_levels_any [of P1 P2]) (use assms in auto)
  moreover have "levels Q1 Q2 (mc_Delete k mc)" by (rule delete_levels [of P1 P2]) (use assms in auto)
  ultimately show "levels Q1 Q2 mc1" "db_data db1 = (db_data db)(k \<mapsto> v)" "mc_config mc1 = mc_config mc"
    by (simp_all add: db_Set_def)
qed

interpretation front: caching_store sees_all "\<lambda>s. db_data (fst s)" front_Get front_Set front_tick
proof
  fix s :: "database \<times> multilevel" and t :: "readings \<times> upkeep" and k v
  assume s: "sees_all s"
  obtain db mc where dm: "s = (db, mc)" by (cases s)
  let ?P = "\<lambda>db k v e. db_data db k = Some v"
  have l: "levels (?P db) (?P db) mc" using s by (simp add: sees_all_def dm)
  obtain x mc1 where g: "mc_Get (fst t) k db mc = (x, mc1)" by fastforce
  have G: "levels (?P db) (?P db) mc1"
    "\<And>v. x = Inr v \<Longrightarrow> (\<exists>e. ?P db k v e \<and> t_l1 (fst t) \<le> e) \<or> (\<exists>e. ?P db k v e \<and> t_l2 (fst t) \<le> e) \<or> db_data db k = Some v"
    "\<And>err. x = Inl err \<Longrightarrow> err = NoData k \<and> db_data db k = None"
    by (rule mc_Get_levels [OF l g]; simp)+
  show "fst (front_Get t k s) = lookup_answer k (db_data (fst s))"
    using G(2,3) by (cases x) (auto simp: front_Get_def dm g lookup_answer_def)
  show "sees_all (snd (front_Get t k s)) \<and> db_data (fst (snd (front_Get t k s))) = db_data (fst s)"
    using G(1) by (simp add: front_Get_def dm g sees_all_def)
  obtain db2 mc2 where w: "mc_Set (fst t) k v db mc = (db2, mc2)" by fastforce
  let ?Q = "\<lambda>k' v' e. ((db_data db)(k \<mapsto> v)) k' = Some v'"
  have "levels ?Q ?Q mc2" "db_data db2 = (db_data db)(k \<mapsto> v)"
    by (rule mc_Set_levels [OF l w, of ?Q ?Q]; simp)+
  then show "sees_all (front_Set t k v s) \<and> db_data (fst (front_Set t k v s)) = (db_data (fst s))(k \<mapsto> v)"
    by (simp add: front_Set_def dm w sees_all_def)
  show "sees_all (front_tick t s) \<and> db_data (fst (front_tick t s)) = db_data (fst s)"
    using maintain_levels(1) [OF l] by (simp add: front_tick_def dm sees_all_def)
qed

text \<open>C31: as long as all writes to the database go through the multi-level cache, every read answers as the database alone
  would, for every configuration, every clock behaviour and any eviction, expiry and clean-up in between.\<close>

theorem multilevel_transparent:
  assumes "\<forall>t k. KDelete t k \<notin> set cs"
  shows "fst (answers front_Get front_Set del front_tick cs (db, NewMultilevelCache cfg)) = fst (map_answers cs (db_data db))"
  using front.run_equiv_del [of "(db, NewMultilevelCache cfg)" cs del] assms by (simp add: sees_all_def levels_new)

definition demo_readings :: "go_time \<Rightarrow> readings" where
  "demo_readings t = \<lparr> t_l1 = t, t_l1_touch = t, t_l2 = t, t_set1 = (t, t, t), t_set2 = (t, t), t_order = ascending \<rparr>"

theorem multilevel_transparent_witness:
  "fst (answers front_Get front_Set (\<lambda>_ _ s. s) front_tick
      [KSet (demo_readings 1, DropKey []) ''k'' ''v'', KTick (demo_readings 2, DropKey ''k''), KGet (demo_readings 3, DropKey []) ''k'',
       KGet (demo_readings 4, DropKey []) ''x'']
      (NewDatabase, NewMultilevelCache None)) = [Inr ''v'', Inl (NoData ''x'')]"
  using multilevel_transparent [of "[KSet (demo_readings 1, DropKey []) ''k'' ''v'', KTick (demo_readings 2, DropKey ''k''),
      KGet (demo_readings 3, DropKey []) ''k'', KGet (demo_readings 4, DropKey []) ''x'']" "\<lambda>_ _ s. s" NewDatabase None]
  by (simp add: lookup_answer_def NewDatabase_def)

section \<open>How stale a read can be\<close>

text \<open>
  Timed runs in which others write to the same database. A call that begins at \<open>t\<close> reads its clocks between \<open>t\<close> and
  \<open>t + late\<close>: the source sleeps within a call, in the database and in L2, before it stamps the entries it writes. The next
  event begins when or after the previous one began, possibly before that has ended. The history records the database
  after every event with the time at which the event began.
\<close>

definition in_call :: "go_time \<Rightarrow> duration \<Rightarrow> readings \<Rightarrow> bool" where
  "in_call t late r \<longleftrightarrow> (\<forall>x \<in> {t_l1 r, t_l2 r, fst (snd (t_set1 r)), fst (t_set2 r)}. t \<le> x \<and> x \<le> t + late)"

inductive ml_trace :: "level_config \<Rightarrow> duration \<Rightarrow> go_time \<Rightarrow> (go_time \<times> (string \<rightharpoonup> string)) list \<Rightarrow> database \<Rightarrow> multilevel \<Rightarrow> bool"
  for cfg late where
  start: "ml_trace cfg late t [(t, db_data db)] db (NewMultilevelCache (Some cfg))"
| get: "ml_trace cfg late t h db mc \<Longrightarrow> t \<le> t' \<Longrightarrow> in_call t' late r \<Longrightarrow>
     ml_trace cfg late t' ((t', db_data db) # h) db (snd (mc_Get r k db mc))"
| set: "ml_trace cfg late t h db mc \<Longrightarrow> t \<le> t' \<Longrightarrow> in_call t' late r \<Longrightarrow> mc_Set r k v db mc = (db', mc') \<Longrightarrow>
     ml_trace cfg late t' ((t', db_data db') # h) db' mc'"
| foreign: "ml_trace cfg late t h db mc \<Longrightarrow> t \<le> t' \<Longrightarrow>
     ml_trace cfg late t' ((t', db_data (db_Set k v db)) # h) (db_Set k v db) mc"
| upkeep: "ml_trace cfg late t h db mc \<Longrightarrow> t \<le> t' \<Longrightarrow> ml_trace cfg late t' ((t', db_data db) # h) db (maintain r u mc)"

definition held :: "(go_time \<times> (string \<rightharpoonup> string)) list \<Rightarrow> go_time \<Rightarrow> string \<Rightarrow> string \<Rightarrow> go_time \<Rightarrow> bool" where
  "held h d k v e \<longleftrightarrow> (\<exists>\<tau> m. (\<tau>, m) \<in> set h \<and> m k = Some v \<and> e \<le> \<tau> + d)"

text \<open>How long after an event an entry of a level can still be served.\<close>

abbreviation (input) age1 :: "level_config \<Rightarrow> duration \<Rightarrow> duration" where
  "age1 cfg late \<equiv> L1TTL cfg + L2TTL cfg + 2 * late"

abbreviation (input) age2 :: "level_config \<Rightarrow> duration \<Rightarrow> duration" where
  "age2 cfg late \<equiv> L2TTL cfg + late"

abbreviation fresh_levels :: "level_config \<Rightarrow> duration \<Rightarrow> (go_time \<times> (string \<rightharpoonup> string)) list \<Rightarrow> multilevel \<Rightarrow> bool" where
  "fresh_levels cfg late h \<equiv> levels (held h (age1 cfg late)) (held h (age2 cfg late))"

lemma in_callD:
  assumes "in_call t late r"
  shows "t \<le> t_l1 r" "t \<le> t_l2 r" "0 \<le> late" "fst (snd (t_set1 r)) \<le> t_l2 r + late"
    "fst (snd (t_set1 r)) \<le> t + late" "fst (t_set2 r) \<le> t + late"
  using assms by (simp_all add: in_call_def)

lemma held_more: "held h d k v e \<Longrightarrow> held (x # h) d k v e"
  by (auto simp: held_def)

lemma held_now: "m k = Some v \<Longrightarrow> e \<le> t + d \<Longrightarrow> held ((t, m) # h) d k v e"
  by (auto simp: held_def)

lemma levels_mono:
  "levels P1 P2 mc \<Longrightarrow> (\<And>k v e. P1 k v e \<Longrightarrow> Q1 k v e) \<Longrightarrow> (\<And>k v e. P2 k v e \<Longrightarrow> Q2 k v e) \<Longrightarrow> levels Q1 Q2 mc"
  by (auto simp: levels_def holds1_def holds2_def)

lemma fresh_more: "fresh_levels cfg late h mc \<Longrightarrow> fresh_levels cfg late (x # h) mc"
  by (erule levels_mono) (auto intro: held_more)

lemma get_fresh:
  assumes "fresh_levels cfg late h mc" "mc_config mc = cfg" "0 \<le> L1TTL cfg" "0 \<le> L2TTL cfg" "in_call t late r"
    and "mc_Get r k db mc = (x, mc1)"
  shows "fresh_levels cfg late ((t, db_data db) # h) mc1" "mc_config mc1 = cfg"
    "x = Inr v \<Longrightarrow> held ((t, db_data db) # h) (age1 cfg late) k v t"
    "x = Inl err \<Longrightarrow> err = NoData k \<and> db_data db k = None"
proof -
  let ?h = "(t, db_data db) # h"
  note W = in_callD [OF assms(5)]
  have l: "fresh_levels cfg late ?h mc" using assms(1) by (rule fresh_more)
  have a: "held ?h (age1 cfg late) k v (fst (snd (t_set1 r)) + L1TTL (mc_config mc))"
    if old: "held ?h (age2 cfg late) k v e" "t_l2 r \<le> e" for v e
  proof -
    obtain \<tau> m where "(\<tau>, m) \<in> set ?h" "m k = Some v" "e \<le> \<tau> + age2 cfg late" using old(1) unfolding held_def by blast
    moreover from this(3) have "fst (snd (t_set1 r)) + L1TTL (mc_config mc) \<le> \<tau> + age1 cfg late"
      using old(2) assms(2) W(4) by simp
    ultimately show ?thesis unfolding held_def by blast
  qed
  have b: "held ?h (age1 cfg late) k v (fst (snd (t_set1 r)) + L1TTL (mc_config mc)) \<and>
      held ?h (age2 cfg late) k v (fst (t_set2 r) + L2TTL (mc_config mc))" if "db_data db k = Some v" for v
    using that assms(2-4) W(3,5,6) by (auto intro!: held_now)
  show "fresh_levels cfg late ?h mc1" by (rule mc_Get_levels(1) [OF l assms(6)]) (use a b in blast)+
  have "mc_config mc1 = mc_config mc" by (rule mc_Get_levels(2) [OF l assms(6)]) (use a b in blast)+
  then show "mc_config mc1 = cfg" using assms(2) by simp
  show "err = NoData k \<and> db_data db k = None" if "x = Inl err"
    by (rule mc_Get_levels(4) [OF l assms(6) _ _ that]) (use a b in blast)+
  have g: "(\<exists>e. held ?h (age1 cfg late) k v e \<and> t_l1 r \<le> e) \<or> (\<exists>e. held ?h (age2 cfg late) k v e \<and> t_l2 r \<le> e) \<or>
      db_data db k = Some v" if "x = Inr v"
    by (rule mc_Get_levels(3) [OF l assms(6) _ _ that]) (use a b in blast)+
  show "held ?h (age1 cfg late) k v t" if "x = Inr v"
    using g [OF that]
  proof (elim disjE exE conjE)
    fix e
    assume "held ?h (age1 cfg late) k v e" "t_l1 r \<le> e"
    then show ?thesis using W(1) by (force simp: held_def)
  next
    fix e
    assume "held ?h (age2 cfg late) k v e" "t_l2 r \<le> e"
    then show ?thesis using assms(3) W(2,3) by (force simp: held_def)
  next
    assume "db_data db k = Some v"
    then show ?thesis using assms(3,4) W(3) by (intro held_now) auto
  qed
qed

lemma set_fresh:
  assumes "fresh_levels cfg late h mc" "mc_config mc = cfg" "0 \<le> L1TTL cfg" "0 \<le> L2TTL cfg" "in_call t late r"
    and "mc_Set r k v db mc = (db1, mc1)"
  shows "fresh_levels cfg late ((t, db_data db1) # h) mc1" "mc_config mc1 = cfg"
proof -
  let ?h = "(t, db_data db1) # h"
  have l: "fresh_levels cfg late ?h mc" using assms(1) by (rule fresh_more)
  have mc1: "mc1 = (if WriteThrough (mc_config mc) then set_l1 r k v (set_l2 r k v mc) else mc_Delete k mc)" "db1 = db_Set k v db"
    using assms(6) by (simp_all add: mc_Set_def Let_def split: if_splits)
  have "held ?h (age1 cfg late) k v (fst (snd (t_set1 r)) + L1TTL cfg)" "held ?h (age2 cfg late) k v (fst (t_set2 r) + L2TTL cfg)"
    using assms(3,4) in_callD [OF assms(5)] by (auto simp: mc1(2) db_Set_def intro!: held_now)
  then have "fresh_levels cfg late ?h (set_l1 r k v (set_l2 r k v mc))"
    using l assms(2) by (intro set_l1_levels set_l2_levels) simp_all
  moreover have "fresh_levels cfg late ?h (mc_Delete k mc)" by (rule delete_levels [OF l])
  ultimately show "fresh_levels cfg late ?h mc1" "mc_config mc1 = cfg" using assms(2) by (simp_all add: mc1(1))
qed

lemma ml_trace_fresh:
  assumes "ml_trace cfg late t h db mc" "0 \<le> L1TTL cfg" "0 \<le> L2TTL cfg"
  shows "fresh_levels cfg late h mc \<and> mc_config mc = cfg"
  using assms(1)
proof (induction rule: ml_trace.induct)
  case (start t db)
  have "mc_config (NewMultilevelCache (Some cfg)) = cfg" by (simp add: NewMultilevelCache_def)
  then show ?case using levels_new by blast
next
  case (get t h db mc t' r k)
  obtain x mc1 where g: "mc_Get r k db mc = (x, mc1)" by fastforce
  have IH: "fresh_levels cfg late h mc" "mc_config mc = cfg" using get.IH by simp_all
  show ?case using get_fresh(1,2) [OF IH assms(2,3) get.hyps(3) g] by (simp add: g)
next
  case (set t h db mc t' r k v db' mc')
  then have IH: "fresh_levels cfg late h mc" "mc_config mc = cfg" by simp_all
  show ?case using set_fresh [OF IH assms(2,3) set.hyps(3,4)] by simp
next
  case (foreign t h db mc t' k v)
  then have "fresh_levels cfg late h mc" by blast
  then have "fresh_levels cfg late ((t', db_data (db_Set k v db)) # h) mc" by (rule fresh_more)
  then show ?case using foreign.IH by simp
next
  case (upkeep t h db mc t' r u)
  then have "fresh_levels cfg late h mc" by blast
  then have "fresh_levels cfg late ((t', db_data db) # h) mc" by (rule fresh_more)
  then show ?case using upkeep.IH maintain_levels [of "held ((t', db_data db) # h) (age1 cfg late)" "held ((t', db_data db) # h) (age2 cfg late)" mc r u] by simp
qed

text \<open>C32: others write to the database directly, and \<open>late\<close> bounds how long after its beginning a call still reads the clock (in the
  source the sleeps of the database and of L2). A read that begins at \<open>t\<close> never returns a value the database stopped holding more
  than the two times to live and twice \<open>late\<close> before \<open>t\<close>: the value is the one that the database had after an event of that
  window. A read reports a missing key only when the database has no value.\<close>

theorem multilevel_staleness:
  assumes "ml_trace cfg late t0 h db mc" "0 \<le> L1TTL cfg" "0 \<le> L2TTL cfg" "t0 \<le> t" "in_call t late r"
  shows "case fst (mc_Get r k db mc) of
      Inr v \<Rightarrow> \<exists>\<tau> m. (\<tau>, m) \<in> set ((t, db_data db) # h) \<and> m k = Some v \<and> t - (L1TTL cfg + L2TTL cfg + 2 * late) \<le> \<tau>
    | Inl err \<Rightarrow> err = NoData k \<and> db_data db k = None"
proof -
  obtain x mc1 where g: "mc_Get r k db mc = (x, mc1)" by fastforce
  have f: "fresh_levels cfg late h mc" "mc_config mc = cfg" using ml_trace_fresh [OF assms(1-3)] by simp_all
  note G = get_fresh(3,4) [OF f assms(2,3,5) g]
  show ?thesis
  proof (cases x)
    case (Inl err)
    then show ?thesis using G(2) [OF Inl] by (simp add: g)
  next
    case (Inr v)
    obtain \<tau> m where "(\<tau>, m) \<in> set ((t, db_data db) # h)" "m k = Some v" "t \<le> \<tau> + age1 cfg late"
      using G(1) [OF Inr] unfolding held_def by blast
    then have "\<exists>\<tau> m. (\<tau>, m) \<in> set ((t, db_data db) # h) \<and> m k = Some v \<and> t - age1 cfg late \<le> \<tau>"
      by (intro exI [of _ \<tau>] exI [of _ m]) simp
    then show ?thesis by (simp only: g Inr fst_conv sum.case)
  qed
qed

text \<open>The bound matters: five units after the write of another client the old value is still read.\<close>

definition demo_cfg :: level_config where
  "demo_cfg = \<lparr> L1TTL = 10, L2TTL = 20, L1MaxSize = 2, EnableL1 = True, EnableL2 = True, WriteThrough = True \<rparr>"

text \<open>The readings of a call that begins at \<open>t\<close> and stamps its entries three units later.\<close>

definition slow_readings :: "go_time \<Rightarrow> readings" where
  "slow_readings t = \<lparr> t_l1 = t, t_l1_touch = t, t_l2 = t + 1, t_set1 = (t + 3, t + 3, t + 3), t_set2 = (t + 3, t + 3), t_order = ascending \<rparr>"

lemma slow_in_call: "in_call t 3 (slow_readings t)"
  by (simp add: in_call_def slow_readings_def)

theorem multilevel_staleness_witness:
  "\<exists>h db mc. ml_trace demo_cfg 3 2 h db mc \<and> db_Get ''k'' db = Some ''new'' \<and>
    fst (mc_Get (slow_readings 7) ''k'' db mc) = Inr ''old'' \<and>
    (\<exists>\<tau> m. (\<tau>, m) \<in> set ((7, db_data db) # h) \<and> m ''k'' = Some ''old'' \<and> 7 - (10 + 20 + 2 * 3) \<le> \<tau>)"
proof -
  let ?mc0 = "NewMultilevelCache (Some demo_cfg)" let ?r = "slow_readings 1"
  obtain db1 mc1 where w: "mc_Set ?r ''k'' ''old'' NewDatabase ?mc0 = (db1, mc1)" by fastforce
  let ?db = "db_Set ''k'' ''new'' db1"
  have "ml_trace demo_cfg 3 0 [(0, db_data NewDatabase)] NewDatabase ?mc0" by (rule ml_trace.start)
  from ml_trace.set [OF this _ slow_in_call w]
  have t1: "ml_trace demo_cfg 3 1 [(1, db_data db1), (0, db_data NewDatabase)] db1 mc1" by simp
  let ?h = "[(2, db_data ?db), (1, db_data db1), (0, db_data NewDatabase)]"
  from ml_trace.foreign [OF t1, of 2 "''k''" "''new''"] have t2: "ml_trace demo_cfg 3 2 ?h ?db mc1" by simp
  have "mc1 = set_l1 ?r ''k'' ''old'' (set_l2 ?r ''k'' ''old'' ?mc0)"
    using w by (simp add: mc_Set_def NewMultilevelCache_def demo_cfg_def)
  then have "fst (get_l1 (slow_readings 7) ''k'' (recordRequest mc1)) = Some ''old''"
    by (simp add: fst_get recordRequest_def)
      (simp add: use_l1_def NewMultilevelCache_def demo_cfg_def slow_readings_def lc_Get_def lc_Set_def NewLocalCache_def map_len_def Let_def)
  then have g: "fst (mc_Get (slow_readings 7) ''k'' ?db mc1) = Inr ''old''"
    by (simp add: mc_Get_def case_prod_beta)
  from multilevel_staleness [OF t2 _ _ _ slow_in_call [of 7], of "''k''"] g
  have "\<exists>\<tau> :: go_time. \<exists>m. (\<tau>, m) \<in> set ((7, db_data ?db) # ?h) \<and> m ''k'' = Some ''old'' \<and> 7 - (10 + 20 + 2 * 3) \<le> \<tau>"
    by (simp add: demo_cfg_def)
  moreover have "db_Get ''k'' ?db = Some ''new''" by (simp add: db_Get_def db_Set_def)
  ultimately show ?thesis using t2 g by blast
qed

end
