(* ===== verification/Multilevel_Tiers.thy ===== *)
theory Multilevel_Tiers
  imports Multilevel_Reads
begin

text \<open>
  The multi-level cache of \<open>tutorial/05-multilevel\<close> as two sets of keys and four counters: as long as no entry expires and the
  local cache is not full, which level answers a request depends only on which levels have the key. The detailed model of
  \<open>Get\<close>, \<open>Set\<close> and \<open>Delete\<close> refines this one.
\<close>

section \<open>Sets of keys and counters\<close>

record tiers =
  in_l1 :: "string set"
  in_l2 :: "string set"
  n_l1 :: int
  n_l2 :: int
  n_db :: int
  n_requests :: int

definition no_tiers :: tiers where
  "no_tiers = \<lparr> in_l1 = {}, in_l2 = {}, n_l1 = 0, n_l2 = 0, n_db = 0, n_requests = 0 \<rparr>"

definition tier_set :: "string \<Rightarrow> tiers \<Rightarrow> tiers" where
  "tier_set k t = t\<lparr> in_l1 := insert k (in_l1 t), in_l2 := insert k (in_l2 t) \<rparr>"

definition tier_delete :: "string \<Rightarrow> tiers \<Rightarrow> tiers" where
  "tier_delete k t = t\<lparr> in_l1 := in_l1 t - {k}, in_l2 := in_l2 t - {k} \<rparr>"

definition tier_get :: "level_config \<Rightarrow> string \<Rightarrow> tiers \<Rightarrow> tiers" where
  "tier_get cfg k t =
     (let t1 = t\<lparr> n_requests := n_requests t + 1 \<rparr>
      in if EnableL1 cfg \<and> k \<in> in_l1 t then t1\<lparr> n_l1 := n_l1 t + 1 \<rparr>
         else if EnableL2 cfg \<and> k \<in> in_l2 t then t1\<lparr> n_l2 := n_l2 t + 1, in_l1 := insert k (in_l1 t) \<rparr>
         else tier_set k (t1\<lparr> n_db := n_db t + 1 \<rparr>))"

section \<open>When a cache has these sets\<close>

text \<open>Every entry of a level has the value of the table \<open>m\<close> and lives until \<open>late\<close> at least.\<close>

definition kept :: "(string \<rightharpoonup> string) \<Rightarrow> go_time \<Rightarrow> entry_pred" where
  "kept m late k v e \<longleftrightarrow> m k = Some v \<and> late \<le> e"

definition tier1 :: "level_config \<Rightarrow> (string \<rightharpoonup> string) \<Rightarrow> go_time \<Rightarrow> string set \<Rightarrow> string local_cache \<Rightarrow> bool" where
  "tier1 cfg m late K c \<longleftrightarrow> lc_maxSize c = L1MaxSize cfg \<and> finite K \<and> dom (lc_data c) = K \<and> holds1 (kept m late) c"

definition tier2 :: "(string \<rightharpoonup> string) \<Rightarrow> go_time \<Rightarrow> string set \<Rightarrow> string remote_cache \<Rightarrow> bool" where
  "tier2 m late K c \<longleftrightarrow> dom (rc_data c) = K \<and> holds2 (kept m late) c"

definition counters :: "multilevel \<Rightarrow> int \<times> int \<times> int \<times> int" where
  "counters mc = (L1Hits (mc_metrics mc), L2Hits (mc_metrics mc), DatabaseHits (mc_metrics mc), mm_TotalRequests (mc_metrics mc))"

definition tiered :: "level_config \<Rightarrow> (string \<rightharpoonup> string) \<Rightarrow> go_time \<Rightarrow> tiers \<Rightarrow> multilevel \<Rightarrow> bool" where
  "tiered cfg m late t mc \<longleftrightarrow> mc_config mc = cfg \<and>
     (case use_l1 mc of None \<Rightarrow> \<not> EnableL1 cfg | Some c \<Rightarrow> EnableL1 cfg \<and> tier1 cfg m late (in_l1 t) c) \<and>
     (case use_l2 mc of None \<Rightarrow> \<not> EnableL2 cfg | Some c \<Rightarrow> EnableL2 cfg \<and> tier2 m late (in_l2 t) c) \<and>
     counters mc = (n_l1 t, n_l2 t, n_db t, n_requests t)"

text \<open>The readings of a call in which nothing that it looks up or writes expires before \<open>late\<close>.\<close>

definition timely :: "level_config \<Rightarrow> go_time \<Rightarrow> readings \<Rightarrow> bool" where
  "timely cfg late r \<longleftrightarrow> t_l1 r \<le> late \<and> t_l2 r \<le> late \<and>
     (EnableL1 cfg \<longrightarrow> late \<le> fst (snd (t_set1 r)) + L1TTL cfg) \<and> (EnableL2 cfg \<longrightarrow> late \<le> fst (t_set2 r) + L2TTL cfg)"

text \<open>The local cache has room for the key.\<close>

definition room :: "level_config \<Rightarrow> string set \<Rightarrow> bool" where
  "room cfg K \<longleftrightarrow> (EnableL1 cfg \<longrightarrow> int (card K) < L1MaxSize cfg)"

section \<open>One level\<close>

lemma tier1_Get:
  assumes "tier1 cfg m late K c" "now \<le> late"
  shows "fst (lc_Get now now2 k c) = (if k \<in> K then m k else None)" "tier1 cfg m late K (snd (lc_Get now now2 k c))"
  using assms
  by (auto simp: tier1_def holds1_def kept_def lc_Get_def lc_recordHit_def lc_recordMiss_def Let_def dom_def split: option.splits)
    force+

lemma tier1_Set:
  assumes "tier1 cfg m late K c" "int (card K) < L1MaxSize cfg" "late \<le> n2 + ttl" "m' k = Some v" "\<And>k'. k' \<noteq> k \<Longrightarrow> m' k' = m k'"
  shows "tier1 cfg m' late (insert k K) (lc_Set n1 n2 n3 order k v ttl c)"
  using assms by (auto simp: tier1_def holds1_def kept_def lc_Set_def map_len_def)

lemma tier1_Delete:
  assumes "tier1 cfg m late K c" "\<And>k'. k' \<noteq> k \<Longrightarrow> m' k' = m k'"
  shows "tier1 cfg m' late (K - {k}) (lc_Delete k c)"
  using assms by (auto simp: tier1_def holds1_def kept_def lc_Delete_def)

lemma tier2_Get:
  assumes "tier2 m late K c" "now \<le> late"
  shows "fst (rc_Get now k c) = (if k \<in> K then m k else None)" "tier2 m late K (snd (rc_Get now k c))"
  using assms by (auto simp: tier2_def holds2_def kept_def rc_Get_def rc_counters Let_def dom_def split: option.splits) force+

lemma tier2_Set:
  assumes "tier2 m late K c" "late \<le> n1 + ttl" "m' k = Some v" "\<And>k'. k' \<noteq> k \<Longrightarrow> m' k' = m k'"
  shows "tier2 m' late (insert k K) (rc_Set n1 n2 k v ttl c)"
  using assms by (auto simp: tier2_def holds2_def kept_def rc_Set_def rc_counters Let_def)

lemma tier2_Delete:
  assumes "tier2 m late K c" "\<And>k'. k' \<noteq> k \<Longrightarrow> m' k' = m k'"
  shows "tier2 m' late (K - {k}) (rc_Delete k c)"
  using assms by (auto simp: tier2_def holds2_def kept_def rc_Delete_def rc_counters Let_def)

section \<open>Both levels\<close>

lemma counters_ops [simp]:
  "counters (set_l1 r k v mc) = counters mc" "counters (set_l2 r k v mc) = counters mc"
  "counters (snd (get_l1 r k mc)) = counters mc" "counters (snd (get_l2 r k mc)) = counters mc"
  "counters (mc_Delete k mc) = counters mc"
  by (auto simp: counters_def set_l1_def set_l2_def get_l1_def get_l2_def mc_Delete_def Let_def split: option.splits prod.splits)

lemma tiered_new:
  "tiered (case c of None \<Rightarrow> default_config | Some cfg \<Rightarrow> cfg) m late no_tiers (NewMultilevelCache c)"
  by (auto simp: tiered_def NewMultilevelCache_def no_tiers_def use_l1_def use_l2_def tier1_def tier2_def holds1_def holds2_def
      NewLocalCache_def rc_New_def counters_def Let_def)

lemma tiered_set:
  assumes "tiered cfg m late t mc" "timely cfg late r" "room cfg (in_l1 t)" "m' k = Some v" "\<And>k'. k' \<noteq> k \<Longrightarrow> m' k' = m k'"
  shows "tiered cfg m' late (tier_set k t) (set_l1 r k v (set_l2 r k v mc))"
  using assms(1-3) tier1_Set [of cfg m late "in_l1 t", OF _ _ _ assms(4,5)] tier2_Set [of m late "in_l2 t", OF _ _ assms(4,5)]
  by (auto simp: tiered_def tier_set_def timely_def room_def split: option.splits)

lemma tiered_delete:
  assumes "tiered cfg m late t mc" "\<And>k'. k' \<noteq> k \<Longrightarrow> m' k' = m k'"
  shows "tiered cfg m' late (tier_delete k t) (mc_Delete k mc)"
  using assms(1) tier1_Delete [of cfg m late "in_l1 t", OF _ assms(2)] tier2_Delete [of m late "in_l2 t", OF _ assms(2)]
  by (auto simp: tiered_def tier_delete_def split: option.splits)

lemma tiered_get1:
  assumes "tiered cfg m late t mc" "timely cfg late r"
  shows "fst (get_l1 r k mc) = (if EnableL1 cfg \<and> k \<in> in_l1 t then m k else None)" "tiered cfg m late t (snd (get_l1 r k mc))"
  using assms tier1_Get [of cfg m late "in_l1 t" _ "t_l1 r"] by (auto simp: tiered_def timely_def fst_get split: option.splits)

lemma tiered_get2:
  assumes "tiered cfg m late t mc" "timely cfg late r"
  shows "fst (get_l2 r k mc) = (if EnableL2 cfg \<and> k \<in> in_l2 t then m k else None)" "tiered cfg m late t (snd (get_l2 r k mc))"
  using assms tier2_Get [of m late "in_l2 t" _ "t_l2 r"] by (auto simp: tiered_def timely_def fst_get split: option.splits)

lemma counters_record [simp]:
  "counters (recordRequest mc) = (case counters mc of (a, b, c, d) \<Rightarrow> (a, b, c, d + 1))"
  "counters (recordL1Hit mc) = (case counters mc of (a, b, c, d) \<Rightarrow> (a + 1, b, c, d))"
  "counters (recordL2Hit mc) = (case counters mc of (a, b, c, d) \<Rightarrow> (a, b + 1, c, d))"
  "counters (recordDatabaseHit mc) = (case counters mc of (a, b, c, d) \<Rightarrow> (a, b, c + 1, d))"
  by (simp_all add: counters_def mc_counters)

lemma tiered_counts:
  assumes "tiered cfg m late t mc"
  shows "tiered cfg m late (t\<lparr> n_requests := n_requests t + 1 \<rparr>) (recordRequest mc)" "tiered cfg m late (t\<lparr> n_l1 := n_l1 t + 1 \<rparr>) (recordL1Hit mc)"
    "tiered cfg m late (t\<lparr> n_l2 := n_l2 t + 1 \<rparr>) (recordL2Hit mc)" "tiered cfg m late (t\<lparr> n_db := n_db t + 1 \<rparr>) (recordDatabaseHit mc)"
  using assms
  by (simp_all add: tiered_def recordRequest_def recordL1Hit_def recordL2Hit_def recordDatabaseHit_def)
    (simp_all add: counters_def mc_count_def split: option.splits)

lemma tiered_set1:
  assumes "tiered cfg m late t mc" "timely cfg late r" "room cfg (in_l1 t)" "m k = Some v"
  shows "tiered cfg m late (t\<lparr> in_l1 := insert k (in_l1 t) \<rparr>) (set_l1 r k v mc)"
  using assms(1-3) tier1_Set [where m' = m, OF _ _ _ assms(4) refl]
  by (auto simp: tiered_def timely_def room_def split: option.splits)

text \<open>A request whose key a level has, or whose value the database still gives, moves the sets and the counters as \<open>tier_get\<close> does.\<close>

lemma tiered_Get:
  assumes "tiered cfg m late t mc" "timely cfg late r" "k \<notin> in_l1 t \<Longrightarrow> room cfg (in_l1 t)" "m k = Some v"
    and "EnableL1 cfg \<and> k \<in> in_l1 t \<or> EnableL2 cfg \<and> k \<in> in_l2 t \<or> db_data db k = Some v"
  shows "fst (mc_Get r k db mc) = Inr v" "tiered cfg m late (tier_get cfg k t) (snd (mc_Get r k db mc))"
proof -
  let ?t0 = "t\<lparr> n_requests := n_requests t + 1 \<rparr>"
  let ?m0 = "recordRequest mc" let ?m1 = "snd (get_l1 r k ?m0)" let ?m2 = "snd (get_l2 r k ?m1)"
  note m0 = tiered_counts(1) [OF assms(1)]
  note g1 = tiered_get1 [OF m0 assms(2), of k]
  note g2 = tiered_get2 [OF g1(2) assms(2), of k]
  have "fst (mc_Get r k db mc) = Inr v \<and> tiered cfg m late (tier_get cfg k t) (snd (mc_Get r k db mc))"
  proof (cases "EnableL1 cfg \<and> k \<in> in_l1 t")
    case True
    then show ?thesis using g1(1) tiered_counts(2) [OF g1(2)] by (simp add: mc_Get_eq tier_get_def Let_def assms(4))
  next
    case miss1: False
    show ?thesis
    proof (cases "EnableL2 cfg \<and> k \<in> in_l2 t")
      case True
      have "room cfg (in_l1 t)" using miss1 assms(3) by (auto simp: room_def)
      then have "tiered cfg m late (?t0\<lparr> n_l2 := n_l2 t + 1, in_l1 := insert k (in_l1 t) \<rparr>) (set_l1 r k v (recordL2Hit ?m2))"
        using tiered_set1 [OF tiered_counts(3) [OF g2(2)] assms(2) _ assms(4)] by simp
      then show ?thesis using g1(1) g2(1) miss1 True by (auto simp: mc_Get_eq tier_get_def Let_def assms(4))
    next
      case False
      have "room cfg (in_l1 t)" using miss1 assms(3) by (auto simp: room_def)
      then have "tiered cfg m late (tier_set k (?t0\<lparr> n_db := n_db t + 1 \<rparr>)) (set_l1 r k v (set_l2 r k v (recordDatabaseHit ?m2)))"
        using tiered_set [where m' = m, OF tiered_counts(4) [OF g2(2)] assms(2) _ assms(4)] by simp
      then show ?thesis using g1(1) g2(1) miss1 False assms(4,5) by (auto simp: mc_Get_eq tier_get_def Let_def)
    qed
  qed
  then show "fst (mc_Get r k db mc) = Inr v" "tiered cfg m late (tier_get cfg k t) (snd (mc_Get r k db mc))" by simp_all
qed

section \<open>Runs of requests\<close>

fun ml_reads :: "(nat \<Rightarrow> readings) \<Rightarrow> nat \<Rightarrow> string list \<Rightarrow> database \<Rightarrow> multilevel \<Rightarrow> (pattern_error + string) list \<times> multilevel" where
  "ml_reads rs i [] db mc = ([], mc)"
| "ml_reads rs i (k # ks) db mc =
     (case mc_Get (rs i) k db mc of (r, mc1) \<Rightarrow> case ml_reads rs (Suc i) ks db mc1 of (vs, mc2) \<Rightarrow> (r # vs, mc2))"

lemma in_l1_get: "in_l1 (tier_get cfg k t) = insert k (in_l1 t)" "in_l2 (tier_get cfg k t) \<subseteq> insert k (in_l2 t)"
  by (auto simp: tier_get_def tier_set_def Let_def)

lemma tiered_reads:
  assumes "tiered cfg (db_data db) late t mc" "\<forall>i. timely cfg late (rs i)" "set ks \<subseteq> dom (db_data db)"
    and "EnableL1 cfg \<Longrightarrow> finite (in_l1 t) \<and> int (card (in_l1 t \<union> set ks)) \<le> L1MaxSize cfg"
  shows "fst (ml_reads rs i ks db mc) = map (\<lambda>k. Inr (the (db_data db k))) ks \<and>
    tiered cfg (db_data db) late (fold (tier_get cfg) ks t) (snd (ml_reads rs i ks db mc))"
  using assms(1,3,4)
proof (induction ks arbitrary: i t mc)
  case (Cons k ks)
  obtain v where v: "db_data db k = Some v" using Cons.prems(2) by auto
  have "room cfg (in_l1 t)" if "k \<notin> in_l1 t"
  proof (unfold room_def, intro impI)
    assume on: "EnableL1 cfg"
    have "card (insert k (in_l1 t)) \<le> card (in_l1 t \<union> set (k # ks))" using Cons.prems(3) [OF on] by (intro card_mono) auto
    then show "int (card (in_l1 t)) < L1MaxSize cfg" using that Cons.prems(3) [OF on] by simp
  qed
  note g = tiered_Get [OF Cons.prems(1) spec [OF assms(2)] this v disjI2 [OF disjI2 [OF v]], of i]
  have "EnableL1 cfg \<Longrightarrow> finite (in_l1 (tier_get cfg k t)) \<and> int (card (in_l1 (tier_get cfg k t) \<union> set ks)) \<le> L1MaxSize cfg"
    using Cons.prems(3) by (simp add: in_l1_get)
  then show ?case
    using Cons.IH [OF g(2), of "Suc i"] Cons.prems(2) g(1) v by (simp split: prod.splits) (auto simp: prod_eq_iff)
qed simp

text \<open>Requests to a cold cache: one query per key, the first level that is switched on answers the rest.\<close>

lemma cold_levels: "in_l1 (fold (tier_get cfg) ks no_tiers) = set ks" "in_l2 (fold (tier_get cfg) ks no_tiers) = set ks"
proof -
  have "in_l1 (fold (tier_get cfg) ks no_tiers) = set ks \<and> in_l2 (fold (tier_get cfg) ks no_tiers) = set ks"
    by (induction ks rule: rev_induct) (auto simp: no_tiers_def tier_get_def tier_set_def Let_def)
  then show "in_l1 (fold (tier_get cfg) ks no_tiers) = set ks" "in_l2 (fold (tier_get cfg) ks no_tiers) = set ks" by simp_all
qed

lemma cold_requests:
  assumes "t = fold (tier_get cfg) ks no_tiers" "EnableL1 cfg \<or> EnableL2 cfg"
  shows "n_requests t = int (length ks)" "n_db t = int (card (set ks))"
    "n_l1 t = (if EnableL1 cfg then int (length ks) - int (card (set ks)) else 0)"
    "n_l2 t = (if EnableL1 cfg then 0 else int (length ks) - int (card (set ks)))"
proof -
  have "n_requests t = int (length ks) \<and> n_db t = int (card (set ks)) \<and>
    n_l1 t = (if EnableL1 cfg then int (length ks) - int (card (set ks)) else 0) \<and>
    n_l2 t = (if EnableL1 cfg then 0 else int (length ks) - int (card (set ks)))"
    unfolding assms(1)
  proof (induction ks rule: rev_induct)
    case Nil
    show ?case by (simp add: no_tiers_def)
  next
    case (snoc k ks)
    define u where "u = fold (tier_get cfg) ks no_tiers"
    have "in_l1 u = set ks" "in_l2 u = set ks" by (simp_all add: u_def cold_levels)
    moreover note snoc [folded u_def]
    ultimately show ?case using assms(2)
      unfolding fold_append comp_apply fold.simps id_apply u_def [symmetric]
      by (cases "k \<in> set ks"; cases "EnableL1 cfg") (simp_all add: tier_get_def tier_set_def Let_def card_insert_if insert_absorb)
  qed
  then show "n_requests t = int (length ks)" "n_db t = int (card (set ks))"
    "n_l1 t = (if EnableL1 cfg then int (length ks) - int (card (set ks)) else 0)"
    "n_l2 t = (if EnableL1 cfg then 0 else int (length ks) - int (card (set ks)))" by simp_all
qed

end
