(* ===== verification/Multilevel_Demos.thy ===== *)
theory Multilevel_Demos
  imports Multilevel_Tiers
begin

text \<open>
  The demonstrations of the multi-level cache (\<open>tutorial/05-multilevel\<close>: \<open>multilevel_cache.go\<close>, \<open>demo.go\<close>): each returns what
  it prints of values and metrics. The Chinese texts are arguments, and so are the readings of the clock, the
  \<open>i\<close>-th request of a cache having the readings \<open>rs i\<close>. Printing and elapsed times are not modelled.
\<close>

section \<open>The demonstrations\<close>

definition demo_data :: "string \<Rightarrow> string \<Rightarrow> string \<Rightarrow> string \<Rightarrow> string \<Rightarrow> (string \<times> string) list" where
  "demo_data zhang li wang order1 order2 =
     [(''user:1'', zhang), (''user:2'', li), (''user:3'', wang), (''product:1'', ''iPhone 15''), (''product:2'', ''MacBook Pro''),
      (''order:1'', order1), (''order:2'', order2)]"

definition ml_NewDatabase :: "string \<Rightarrow> string \<Rightarrow> string \<Rightarrow> string \<Rightarrow> string \<Rightarrow> database" where
  "ml_NewDatabase zhang li wang order1 order2 = \<lparr> db_data = map_of (demo_data zhang li wang order1 order2) \<rparr>"

definition minute :: duration where
  "minute = 60 * 10 ^ 9"

text \<open>Two reads of each key; the second is left out when the first fails.\<close>

fun pair_reads :: "(nat \<Rightarrow> readings) \<Rightarrow> nat \<Rightarrow> string list \<Rightarrow> database \<Rightarrow> multilevel \<Rightarrow> (string \<times> (pattern_error + string)) list \<times> multilevel" where
  "pair_reads rs i [] db mc = ([], mc)"
| "pair_reads rs i (k # ks) db mc =
     (case mc_Get (rs i) k db mc of
        (Inl err, mc1) \<Rightarrow> pair_reads rs (Suc i) ks db mc1
      | (Inr value1, mc1) \<Rightarrow>
          (case mc_Get (rs (Suc i)) k db mc1 of (value2, mc2) \<Rightarrow>
           case pair_reads rs (Suc (Suc i)) ks db mc2 of (vs, mc3) \<Rightarrow> ((value1, value2) # vs, mc3)))"

definition multilevel_config :: level_config where
  "multilevel_config =
     \<lparr> L1TTL = 2 * minute, L2TTL = 10 * minute, L1MaxSize = 100, EnableL1 = True, EnableL2 = True, WriteThrough = True \<rparr>"

definition DemoMultilevelCache ::
  "(nat \<Rightarrow> readings) \<Rightarrow> string \<Rightarrow> database \<Rightarrow>
   (string \<times> (pattern_error + string)) list \<times> level_metrics \<times> (pattern_error + string) \<times> (pattern_error + string)" where
  "DemoMultilevelCache rs newValue database =
     (let cache = NewMultilevelCache (Some multilevel_config);
          (reads, cache1) = pair_reads rs 0 [''user:1'', ''product:1'', ''order:1''] database cache;
          (metrics, cache2) = mc_GetMetrics cache1;
          (database1, cache3) = mc_Set (rs 6) ''user:999'' newValue database cache2;
          (readValue, cache4) = mc_Get (rs 7) ''user:999'' database1 cache3;
          cache5 = mc_Delete ''user:1'' cache4;
          (value, cache6) = mc_Get (rs 8) ''user:1'' database1 cache5
      in (reads, metrics, readValue, value))"

definition twice :: "string list \<Rightarrow> string list" where
  "twice ks = concat (map (\<lambda>k. [k, k]) ks)"

definition test_keys :: "string list" where
  "test_keys = [''user:1'', ''user:2'', ''product:1'', ''product:2'', ''order:1'']"

definition l2_config :: level_config where
  "l2_config = \<lparr> L1TTL = 0, L2TTL = 10 * minute, L1MaxSize = 0, EnableL1 = False, EnableL2 = True, WriteThrough = False \<rparr>"

definition both_config :: level_config where
  "both_config = \<lparr> L1TTL = 2 * minute, L2TTL = 10 * minute, L1MaxSize = 100, EnableL1 = True, EnableL2 = True, WriteThrough = False \<rparr>"

definition DemoConfigComparison :: "(nat \<Rightarrow> readings) \<Rightarrow> (nat \<Rightarrow> readings) \<Rightarrow> database \<Rightarrow> level_metrics \<times> level_metrics" where
  "DemoConfigComparison rs1 rs2 database =
     (fst (mc_GetMetrics (snd (ml_reads rs1 0 (twice test_keys) database (NewMultilevelCache (Some l2_config))))),
      fst (mc_GetMetrics (snd (ml_reads rs2 0 (twice test_keys) database (NewMultilevelCache (Some both_config))))))"

definition consistency_config :: level_config where
  "consistency_config =
     \<lparr> L1TTL = 1 * minute, L2TTL = 5 * minute, L1MaxSize = 100, EnableL1 = True, EnableL2 = True, WriteThrough = False \<rparr>"

text \<open>The first value, the cached value after the update of the database, the value of the database, the value after the deletion.\<close>

definition DemoConsistencyIssues ::
  "(nat \<Rightarrow> readings) \<Rightarrow> string \<Rightarrow> database \<Rightarrow> (pattern_error + string) \<times> (pattern_error + string) \<times> string option \<times> (pattern_error + string)" where
  "DemoConsistencyIssues rs updated database =
     (let cache = NewMultilevelCache (Some consistency_config);
          (value, cache1) = mc_Get (rs 0) ''user:1'' database cache;
          database1 = db_Set ''user:1'' updated database;
          (cachedValue, cache2) = mc_Get (rs 1) ''user:1'' database1 cache1;
          dbValue = db_Get ''user:1'' database1;
          cache3 = mc_Delete ''user:1'' cache2;
          (freshValue, cache4) = mc_Get (rs 2) ''user:1'' database1 cache3
      in (value, cachedValue, dbValue, freshValue))"

text \<open>Requests for hot and normal data; \<open>float i\<close> and \<open>intn i\<close> are the random numbers of the \<open>i\<close>-th request.\<close>

definition hot_config :: level_config where
  "hot_config =
     \<lparr> L1TTL = 30 * 10 ^ 9, L2TTL = 5 * minute, L1MaxSize = 50, EnableL1 = True, EnableL2 = True, WriteThrough = True \<rparr>"

definition hotKeys :: "string list" where
  "hotKeys = [''hot:1'', ''hot:2'', ''hot:3'']"

definition normalKeys :: "string list" where
  "normalKeys = [''normal:1'', ''normal:2'', ''normal:3'', ''normal:4'', ''normal:5'']"

definition drawn_key :: "(nat \<Rightarrow> rat) \<Rightarrow> (nat \<Rightarrow> nat \<Rightarrow> nat) \<Rightarrow> nat \<Rightarrow> string" where
  "drawn_key float intn i =
     (if float i < 8 / 10 then hotKeys ! intn i (length hotKeys) else normalKeys ! intn i (length normalKeys))"

definition put_texts :: "string \<Rightarrow> string list \<Rightarrow> database \<Rightarrow> database" where
  "put_texts text = fold (\<lambda>key. db_Set key (text @ key))"

definition DemoHotDataHandling ::
  "(nat \<Rightarrow> readings) \<Rightarrow> (nat \<Rightarrow> rat) \<Rightarrow> (nat \<Rightarrow> nat \<Rightarrow> nat) \<Rightarrow> string \<Rightarrow> string \<Rightarrow> database \<Rightarrow> level_metrics" where
  "DemoHotDataHandling rs float intn hot normal database =
     (let database1 = put_texts normal normalKeys (put_texts hot hotKeys database)
      in fst (mc_GetMetrics (snd (ml_reads rs 0 (map (drawn_key float intn) [0..<100]) database1 (NewMultilevelCache (Some hot_config))))))"

text \<open>The warm-up writes into the levels that are not nil, L1 first.\<close>

definition warm_entry :: "readings \<Rightarrow> database \<Rightarrow> string \<Rightarrow> multilevel \<Rightarrow> multilevel" where
  "warm_entry r database key mc =
     (case db_Get key database of
        None \<Rightarrow> mc
      | Some v \<Rightarrow>
          let mc1 = (case l1Cache mc of
                       None \<Rightarrow> mc
                     | Some c \<Rightarrow> (case t_set1 r of (n1, n2, n3) \<Rightarrow>
                         mc\<lparr> l1Cache := Some (lc_Set n1 n2 n3 (t_order r) key v (L1TTL (mc_config mc)) c) \<rparr>))
          in (case l2Cache mc1 of
                None \<Rightarrow> mc1
              | Some c \<Rightarrow> (case t_set2 r of (n1, n2) \<Rightarrow> mc1\<lparr> l2Cache := Some (rc_Set n1 n2 key v (L2TTL (mc_config mc1)) c) \<rparr>)))"

fun warm_entries :: "(nat \<Rightarrow> readings) \<Rightarrow> nat \<Rightarrow> database \<Rightarrow> string list \<Rightarrow> multilevel \<Rightarrow> multilevel" where
  "warm_entries rs i database [] mc = mc"
| "warm_entries rs i database (k # ks) mc = warm_entries rs (Suc i) database ks (warm_entry (rs i) database k mc)"

text \<open>The answers of the cold reads and of the warm reads, and the cache at the end.\<close>

definition DemoCacheWarmup ::
  "(nat \<Rightarrow> readings) \<Rightarrow> database \<Rightarrow> (pattern_error + string) list \<times> (pattern_error + string) list \<times> multilevel" where
  "DemoCacheWarmup rs database =
     (let cache = NewMultilevelCache None;
          (cold, cache1) = ml_reads rs 0 test_keys database cache;
          cache2 = fold mc_Delete test_keys cache1;
          cache3 = warm_entries rs 5 database test_keys cache2;
          (warm, cache4) = ml_reads rs 10 test_keys database cache3
      in (cold, warm, cache4))"

definition l1_config :: level_config where
  "l1_config = \<lparr> L1TTL = 2 * minute, L2TTL = 0, L1MaxSize = 100, EnableL1 = True, EnableL2 = False, WriteThrough = False \<rparr>"

text \<open>One request with both levels, without L1, without L2, and without a cache.\<close>

definition DemoFailoverAndDegradation :: "(nat \<Rightarrow> readings) \<Rightarrow> database \<Rightarrow> (pattern_error + string) list \<times> string option" where
  "DemoFailoverAndDegradation rs database =
     (map (\<lambda>(i, cfg). fst (mc_Get (rs i) ''user:1'' database (NewMultilevelCache (Some cfg))))
        [(0, both_config), (1, l2_config), (2, l1_config)],
      db_Get ''user:1'' database)"

section \<open>What they show\<close>

lemma cold_Get: "db_data db k = Some v \<Longrightarrow> fst (mc_Get r k db (NewMultilevelCache (Some cfg))) = Inr v"
  by (auto simp: mc_Get_def get_l1_def get_l2_def use_l1_def use_l2_def NewMultilevelCache_def recordRequest_def mc_count_def
      NewLocalCache_def rc_New_def lc_Get_def rc_Get_def rc_counters Let_def db_Get_def split: option.splits prod.splits)

theorem failover_demo:
  "DemoFailoverAndDegradation rs (ml_NewDatabase zhang li wang order1 order2) = ([Inr zhang, Inr zhang, Inr zhang], Some zhang)"
  by (simp add: DemoFailoverAndDegradation_def cold_Get [where v = zhang] ml_NewDatabase_def demo_data_def db_Get_def)

text \<open>The metrics of a cold cache after requests that all find data.\<close>

lemma tiered_metrics:
  assumes "tiered cfg m late t mc" "0 < n_requests t"
  shows "L1Hits (fst (mc_GetMetrics mc)) = n_l1 t" "L2Hits (fst (mc_GetMetrics mc)) = n_l2 t"
    "DatabaseHits (fst (mc_GetMetrics mc)) = n_db t" "mm_TotalRequests (fst (mc_GetMetrics mc)) = n_requests t"
    "L1HitRate (fst (mc_GetMetrics mc)) = of_int (n_l1 t) / of_int (n_requests t)"
    "L2HitRate (fst (mc_GetMetrics mc)) = of_int (n_l2 t) / of_int (n_requests t)"
    "OverallHitRate (fst (mc_GetMetrics mc)) = of_int (n_l1 t + n_l2 t) / of_int (n_requests t)"
  using assms by (auto simp: tiered_def counters_def mc_GetMetrics_def Let_def)

lemma cold_run:
  assumes "\<forall>i. timely cfg late (rs i)" "set ks \<subseteq> dom (db_data db)" "EnableL1 cfg \<Longrightarrow> int (card (set ks)) \<le> L1MaxSize cfg"
  shows "fst (ml_reads rs i ks db (NewMultilevelCache (Some cfg))) = map (\<lambda>k. Inr (the (db_data db k))) ks"
    "tiered cfg (db_data db) late (fold (tier_get cfg) ks no_tiers) (snd (ml_reads rs i ks db (NewMultilevelCache (Some cfg))))"
  using tiered_reads [OF tiered_new [of "Some cfg", simplified] assms(1,2), where i = i] assms(3) by (simp_all add: no_tiers_def)


text \<open>Each key is read from the database once; what is left is answered by L1, or by L2 when there is no L1.\<close>

lemma cold_metrics:
  assumes "\<forall>i. timely cfg late (rs i)" "set ks \<subseteq> dom (db_data db)" "EnableL1 cfg \<Longrightarrow> int (card (set ks)) \<le> L1MaxSize cfg"
    and "EnableL1 cfg \<or> EnableL2 cfg" "ks \<noteq> []" "M = fst (mc_GetMetrics (snd (ml_reads rs i ks db (NewMultilevelCache (Some cfg)))))"
  shows "DatabaseHits M = int (card (set ks))" "mm_TotalRequests M = int (length ks)"
    "L1Hits M = (if EnableL1 cfg then int (length ks) - int (card (set ks)) else 0)"
    "L2Hits M = (if EnableL1 cfg then 0 else int (length ks) - int (card (set ks)))"
    "L1HitRate M = of_int (L1Hits M) / of_int (int (length ks))" "OverallHitRate M = 1 - of_int (DatabaseHits M) / of_int (int (length ks))"
proof -
  let ?t = "fold (tier_get cfg) ks no_tiers"
  note t = cold_requests [OF refl assms(4), of ks]
  have req: "0 < n_requests ?t" using t(1) assms(5) by simp
  note M = tiered_metrics [OF cold_run(2) [OF assms(1-3), where i = i] req, folded assms(6)]
  show "DatabaseHits M = int (card (set ks))" "mm_TotalRequests M = int (length ks)"
    "L1Hits M = (if EnableL1 cfg then int (length ks) - int (card (set ks)) else 0)"
    "L2Hits M = (if EnableL1 cfg then 0 else int (length ks) - int (card (set ks)))"
    "L1HitRate M = of_int (L1Hits M) / of_int (int (length ks))"
    using M t by simp_all
  show "OverallHitRate M = 1 - of_int (DatabaseHits M) / of_int (int (length ks))"
    using M(3,7) t assms(5) by (simp add: field_simps)
qed

theorem hot_data_demo:
  assumes "\<forall>i. timely hot_config late (rs i)" "\<And>i n. 0 < n \<Longrightarrow> intn i n < n"
    and "M = DemoHotDataHandling rs float intn hot normal db"
  shows "DatabaseHits M = int (card (drawn_key float intn ` {0..<100}))" "DatabaseHits M \<le> 8" "mm_TotalRequests M = 100"
    "L2Hits M = 0" "L1Hits M = 100 - DatabaseHits M" "92 / 100 \<le> OverallHitRate M"
proof -
  let ?ks = "map (drawn_key float intn) [0..<100]"
  have "intn i (length hotKeys) < length hotKeys" "intn i (length normalKeys) < length normalKeys" for i
    by (intro assms(2); simp add: hotKeys_def normalKeys_def)+
  then have "drawn_key float intn i \<in> set (hotKeys @ normalKeys)" for i by (simp add: drawn_key_def)
  then have few: "set ?ks \<subseteq> set (hotKeys @ normalKeys)" by auto
  have "card (set ?ks) \<le> card (set (hotKeys @ normalKeys))" by (rule card_mono [OF _ few]) simp
  also have "\<dots> = 8" by (simp add: hotKeys_def normalKeys_def)
  finally have card: "card (set ?ks) \<le> 8" .
  have "set (hotKeys @ normalKeys) \<subseteq> dom (db_data (put_texts normal normalKeys (put_texts hot hotKeys db)))"
    by (simp add: put_texts_def hotKeys_def normalKeys_def db_Set_def)
  with few have dom: "set ?ks \<subseteq> dom (db_data (put_texts normal normalKeys (put_texts hot hotKeys db)))" by (rule subset_trans)
  have size: "int (card (set ?ks)) \<le> L1MaxSize hot_config" using card by (simp add: hot_config_def)
  note M = cold_metrics [OF assms(1) dom size _ _ assms(3) [unfolded DemoHotDataHandling_def Let_def]]
  have on: "EnableL1 hot_config" "EnableL1 hot_config \<or> EnableL2 hot_config" "?ks \<noteq> []" by (simp_all add: hot_config_def)
  show "DatabaseHits M = int (card (drawn_key float intn ` {0..<100}))" using M(1) [OF on(2,3)] by simp
  show "DatabaseHits M \<le> 8" using M(1) [OF on(2,3)] card by linarith
  show "mm_TotalRequests M = 100" using M(2) [OF on(2,3)] by simp
  show "L2Hits M = 0" using M(4) [OF on(2,3)] on(1) by simp
  show "L1Hits M = 100 - DatabaseHits M" using M(1,3) [OF on(2,3)] on(1) by simp
  have "of_int (DatabaseHits M) \<le> (8 :: rat)" using \<open>DatabaseHits M \<le> 8\<close> by linarith
  then show "92 / 100 \<le> OverallHitRate M" using M(6) [OF on(2,3)] by simp
qed


lemma test_keys_dom: "set test_keys \<subseteq> dom (db_data (ml_NewDatabase zhang li wang order1 order2))"
  by (simp add: test_keys_def ml_NewDatabase_def demo_data_def)

lemma twice_simps: "set (twice ks) = set ks" "length (twice ks) = 2 * length ks"
  by (induction ks) (auto simp: twice_def)

theorem config_comparison_demo:
  assumes "\<forall>i. timely l2_config late1 (rs1 i)" "\<forall>i. timely both_config late2 (rs2 i)"
    and "DemoConfigComparison rs1 rs2 (ml_NewDatabase zhang li wang order1 order2) = (M1, M2)"
  shows "DatabaseHits M1 = 5 \<and> L1Hits M1 = 0 \<and> L2Hits M1 = 5 \<and> OverallHitRate M1 = 1 / 2"
    "DatabaseHits M2 = 5 \<and> L1Hits M2 = 5 \<and> L2Hits M2 = 0 \<and> L1HitRate M2 = 1 / 2 \<and> OverallHitRate M2 = 1 / 2"
proof -
  have M: "M1 = fst (mc_GetMetrics (snd (ml_reads rs1 0 (twice test_keys) (ml_NewDatabase zhang li wang order1 order2) (NewMultilevelCache (Some l2_config)))))"
    "M2 = fst (mc_GetMetrics (snd (ml_reads rs2 0 (twice test_keys) (ml_NewDatabase zhang li wang order1 order2) (NewMultilevelCache (Some both_config)))))"
    using assms(3) by (simp_all add: DemoConfigComparison_def)
  have ks: "card (set (twice test_keys)) = 5" "length (twice test_keys) = 10" "twice test_keys \<noteq> []"
    by (simp_all add: twice_simps(1), simp_all add: twice_def test_keys_def)
  have dom: "set (twice test_keys) \<subseteq> dom (db_data (ml_NewDatabase zhang li wang order1 order2))"
    unfolding twice_simps(1) by (rule test_keys_dom)
  have "EnableL1 l2_config \<Longrightarrow> int (card (set (twice test_keys))) \<le> L1MaxSize l2_config"
    "EnableL1 both_config \<Longrightarrow> int (card (set (twice test_keys))) \<le> L1MaxSize both_config"
    "EnableL1 l2_config \<or> EnableL2 l2_config" "EnableL1 both_config \<or> EnableL2 both_config"
    by (simp_all add: ks(1), simp_all add: l2_config_def both_config_def)
  note m1 = cold_metrics [OF assms(1) dom this(1,3) ks(3) M(1)] and m2 = cold_metrics [OF assms(2) dom this(2,4) ks(3) M(2)]
  show "DatabaseHits M1 = 5 \<and> L1Hits M1 = 0 \<and> L2Hits M1 = 5 \<and> OverallHitRate M1 = 1 / 2"
    using m1 ks by (simp add: l2_config_def)
  show "DatabaseHits M2 = 5 \<and> L1Hits M2 = 5 \<and> L2Hits M2 = 0 \<and> L1HitRate M2 = 1 / 2 \<and> OverallHitRate M2 = 1 / 2"
    using m2 ks by (simp add: both_config_def)
qed

text \<open>Until its entries expire the cache hides an update of the database behind its back; a deletion shows it.\<close>

theorem consistency_issues_demo:
  assumes "\<forall>i. timely consistency_config late (rs i)"
  shows "DemoConsistencyIssues rs updated (ml_NewDatabase zhang li wang order1 order2) =
    (Inr zhang, Inr zhang, Some updated, Inr updated)"
proof -
  let ?db = "ml_NewDatabase zhang li wang order1 order2" let ?db1 = "db_Set ''user:1'' updated ?db"
  let ?c = "consistency_config" let ?k = "''user:1''"
  define mc1 where "mc1 = snd (mc_Get (rs 0) ?k ?db (NewMultilevelCache (Some ?c)))"
  define mc2 where "mc2 = snd (mc_Get (rs 1) ?k ?db1 mc1)"
  have db: "db_data ?db ?k = Some zhang" "db_data ?db1 ?k = Some updated" "\<And>k. k \<noteq> ?k \<Longrightarrow> db_data ?db1 k = db_data ?db k"
    by (simp_all add: ml_NewDatabase_def demo_data_def db_Set_def)
  have room: "room ?c {}" by (simp add: room_def consistency_config_def)
  have t0: "tiered ?c (db_data ?db) late no_tiers (NewMultilevelCache (Some ?c))" using tiered_new [of "Some ?c"] by simp
  note g0 = tiered_Get [OF t0 spec [OF assms] _ db(1) disjI2 [OF disjI2 [OF db(1)]], of 0, folded mc1_def]
  have l0: "in_l1 no_tiers = {}" by (simp add: no_tiers_def)
  then have t1: "tiered ?c (db_data ?db) late (tier_get ?c ?k no_tiers) mc1" using g0(2) room by simp
  have in1: "in_l1 (tier_get ?c ?k no_tiers) = {?k}" by (simp add: in_l1_get l0)
  have "fst (mc_Get (rs 1) ?k ?db1 mc1) = Inr zhang" "tiered ?c (db_data ?db) late (tier_get ?c ?k (tier_get ?c ?k no_tiers)) mc2"
    unfolding mc2_def
    by (rule tiered_Get [OF t1 spec [OF assms] _ db(1)]; simp add: in1; simp add: consistency_config_def)+
  note g1 = this
  let ?t = "tier_delete ?k (tier_get ?c ?k (tier_get ?c ?k no_tiers))"
  have t3: "tiered ?c (db_data ?db1) late ?t (mc_Delete ?k mc2)" by (rule tiered_delete [OF g1(2) db(3)])
  have "in_l1 ?t = {}" by (simp add: tier_delete_def in_l1_get l0)
  then have "fst (mc_Get (rs 2) ?k ?db1 (mc_Delete ?k mc2)) = Inr updated"
    using tiered_Get(1) [OF t3 spec [OF assms] _ db(2) disjI2 [OF disjI2 [OF db(2)]], of 2] room by simp
  moreover have "fst (mc_Get (rs 0) ?k ?db (NewMultilevelCache (Some ?c))) = Inr zhang" by (rule cold_Get [OF db(1)])
  moreover have "db_Get ?k ?db1 = Some updated" by (simp add: db_Get_def db(2))
  ultimately show ?thesis
    using g1(1) unfolding DemoConsistencyIssues_def Let_def case_prod_beta mc1_def mc2_def by simp
qed

text \<open>Two reads of each key.\<close>

lemma pair_reads_twice:
  assumes "\<forall>r \<in> set (fst (ml_reads rs i (twice ks) db mc)). \<exists>v. r = Inr v"
  shows "snd (pair_reads rs i ks db mc) = snd (ml_reads rs i (twice ks) db mc) \<and>
    concat (map (\<lambda>(v, r). [Inr v, r]) (fst (pair_reads rs i ks db mc))) = fst (ml_reads rs i (twice ks) db mc)"
  using assms
proof (induction ks arbitrary: i mc)
  case (Cons k ks)
  obtain r1 mc1 where g1: "mc_Get (rs i) k db mc = (r1, mc1)" by fastforce
  obtain r2 mc2 where g2: "mc_Get (rs (Suc i)) k db mc1 = (r2, mc2)" by fastforce
  have tw: "twice (k # ks) = k # k # twice ks" by (simp add: twice_def)
  obtain v where "r1 = Inr v" using Cons.prems g1 g2 unfolding tw by (auto split: prod.splits)
  with Cons.IH [of "Suc (Suc i)" mc2] Cons.prems g1 g2 show ?case unfolding tw by (auto split: prod.splits)
qed (simp add: twice_def)

lemma tiered_GetMetrics: "tiered cfg m late t mc \<Longrightarrow> tiered cfg m late t (snd (mc_GetMetrics mc))"
  by (auto simp: tiered_def mc_GetMetrics_def counters_def Let_def use_l1_def use_l2_def split: option.splits)


lemma pairs_parts:
  "concat (map (\<lambda>(v, r). [Inr v, r]) ps) = Inr v # r # rest \<longleftrightarrow> (\<exists>qs. ps = (v, r) # qs \<and> concat (map (\<lambda>(v, r). [Inr v, r]) qs) = rest)"
  "concat (map (\<lambda>(v, r). [Inr v, r]) ps) = [] \<longleftrightarrow> ps = []"
  by (cases ps; auto)+

theorem multilevel_demo:
  assumes "\<forall>i. timely multilevel_config late (rs i)"
    and "DemoMultilevelCache rs newValue (ml_NewDatabase zhang li wang order1 order2) = (reads, M, readValue, value)"
  shows "reads = [(zhang, Inr zhang), (''iPhone 15'', Inr ''iPhone 15''), (order1, Inr order1)]"
    "mm_TotalRequests M = 6 \<and> L1Hits M = 3 \<and> L2Hits M = 0 \<and> DatabaseHits M = 3 \<and> OverallHitRate M = 1 / 2"
    "readValue = Inr newValue \<and> value = Inr zhang"
proof -
  let ?c = "multilevel_config" let ?db = "ml_NewDatabase zhang li wang order1 order2"
  let ?ks = "[''user:1'', ''product:1'', ''order:1'']" let ?k = "''user:999''" let ?db1 = "db_Set ?k newValue ?db"
  define mc1 where "mc1 = snd (pair_reads rs 0 ?ks ?db (NewMultilevelCache (Some ?c)))"
  define mc2 where "mc2 = snd (mc_GetMetrics mc1)"
  define mc3 where "mc3 = set_l1 (rs 6) ?k newValue (set_l2 (rs 6) ?k newValue mc2)"
  define mc4 where "mc4 = snd (mc_Get (rs 7) ?k ?db1 mc3)"
  define t1 where "t1 = fold (tier_get ?c) (twice ?ks) no_tiers"
  have dom: "set (twice ?ks) \<subseteq> dom (db_data ?db)" unfolding twice_simps(1) by (simp add: ml_NewDatabase_def demo_data_def)
  have few: "int (card (set (twice ?ks))) \<le> L1MaxSize ?c" unfolding twice_simps(1) by (simp add: multilevel_config_def)
  note run = cold_run [OF assms(1) dom few, of 0]
  have "\<forall>r \<in> set (fst (ml_reads rs 0 (twice ?ks) ?db (NewMultilevelCache (Some ?c)))). \<exists>v. r = Inr v" unfolding run(1) by auto
  note pairs = pair_reads_twice [OF this, folded mc1_def]
  have i1: "tiered ?c (db_data ?db) late t1 mc1" using run(2) pairs by (simp add: t1_def)
  have l1: "in_l1 t1 = {''user:1'', ''product:1'', ''order:1''}" unfolding t1_def cold_levels twice_simps(1) by simp
  have i2: "tiered ?c (db_data ?db) late t1 mc2" unfolding mc2_def by (rule tiered_GetMetrics [OF i1])
  have new: "db_data ?db1 ?k = Some newValue" "\<And>k. k \<noteq> ?k \<Longrightarrow> db_data ?db1 k = db_data ?db k" "db_data ?db1 ''user:1'' = Some zhang"
    by (simp_all add: db_Set_def ml_NewDatabase_def demo_data_def)
  have i3: "tiered ?c (db_data ?db1) late (tier_set ?k t1) mc3"
    unfolding mc3_def by (rule tiered_set [OF i2 spec [OF assms(1)] _ new(1,2)]) (simp_all add: room_def l1 multilevel_config_def)
  have set: "mc_Set (rs 6) ?k newValue ?db mc2 = (?db1, mc3)"
    using i2 by (simp add: mc_Set_def mc3_def tiered_def multilevel_config_def)
  have "fst (mc_Get (rs 7) ?k ?db1 mc3) = Inr newValue" "tiered ?c (db_data ?db1) late (tier_get ?c ?k (tier_set ?k t1)) mc4"
    unfolding mc4_def by (rule tiered_Get [OF i3 spec [OF assms(1)] _ new(1) disjI2 [OF disjI2 [OF new(1)]]]; simp add: tier_set_def)+
  note i4 = this
  let ?t5 = "tier_delete ''user:1'' (tier_get ?c ?k (tier_set ?k t1))"
  have i5: "tiered ?c (db_data ?db1) late ?t5 (mc_Delete ''user:1'' mc4)" by (rule tiered_delete [OF i4(2) refl])
  have "in_l1 ?t5 = {''user:999'', ''product:1'', ''order:1''}" by (auto simp: tier_delete_def in_l1_get tier_set_def l1)
  then have "room ?c (in_l1 ?t5)" by (simp add: room_def multilevel_config_def)
  then have "fst (mc_Get (rs 8) ''user:1'' ?db1 (mc_Delete ''user:1'' mc4)) = Inr zhang"
    by (rule tiered_Get(1) [OF i5 spec [OF assms(1)] _ new(3) disjI2 [OF disjI2 [OF new(3)]]])
  moreover have res: "reads = fst (pair_reads rs 0 ?ks ?db (NewMultilevelCache (Some ?c)))" "M = fst (mc_GetMetrics mc1)"
    "readValue = fst (mc_Get (rs 7) ?k ?db1 mc3)" "value = fst (mc_Get (rs 8) ''user:1'' ?db1 (mc_Delete ''user:1'' mc4))"
    using assms(2) unfolding DemoMultilevelCache_def Let_def case_prod_beta mc1_def [symmetric] mc2_def [symmetric] set fst_conv snd_conv
      mc4_def [symmetric] by simp_all
  ultimately show "readValue = Inr newValue \<and> value = Inr zhang" using i4(1) by simp
  show "reads = [(zhang, Inr zhang), (''iPhone 15'', Inr ''iPhone 15''), (order1, Inr order1)]"
    using conjunct2 [OF pairs] unfolding res(1) [symmetric] run(1)
    by (simp add: twice_def ml_NewDatabase_def demo_data_def pairs_parts del: concat_eq_Nil_conv)
  have n: "n_requests t1 = 6" "n_db t1 = 3" "n_l1 t1 = 3" "n_l2 t1 = 0"
    using cold_requests [OF t1_def] by (simp_all add: twice_simps, simp_all add: multilevel_config_def)
  then show "mm_TotalRequests M = 6 \<and> L1Hits M = 3 \<and> L2Hits M = 0 \<and> DatabaseHits M = 3 \<and> OverallHitRate M = 1 / 2"
    using tiered_metrics [OF i1] by (simp add: res(2))
qed


text \<open>The warm-up: every key is written into both levels, so the warm reads do not reach the database.\<close>

lemma set_levels_commute: "set_l2 r k v (set_l1 r k v mc) = set_l1 r k v (set_l2 r k v mc)"
  by (auto simp: set_l1_def set_l2_def use_l1_def use_l2_def split: option.splits prod.splits)

lemma warm_entry_set:
  assumes "db_data db k = Some v" "EnableL1 (mc_config mc)" "EnableL2 (mc_config mc)"
  shows "warm_entry r db k mc = set_l1 r k v (set_l2 r k v mc)"
  unfolding set_levels_commute [symmetric]
  using assms by (auto simp: warm_entry_def db_Get_def set_l1_def set_l2_def use_l1_def use_l2_def Let_def split: option.splits prod.splits)

lemma tiered_warm:
  assumes "tiered cfg (db_data db) late t mc" "\<forall>i. timely cfg late (rs i)" "set ks \<subseteq> dom (db_data db)" "EnableL1 cfg" "EnableL2 cfg"
    and "finite (in_l1 t)" "int (card (in_l1 t) + length ks) \<le> L1MaxSize cfg"
  shows "tiered cfg (db_data db) late (fold tier_set ks t) (warm_entries rs i db ks mc)"
  using assms(1,3,6,7)
proof (induction ks arbitrary: i t mc)
  case (Cons k ks)
  obtain v where v: "db_data db k = Some v" using Cons.prems(2) by auto
  have "room cfg (in_l1 t)" using Cons.prems(4) by (simp add: room_def)
  note step = tiered_set [OF Cons.prems(1) spec [OF assms(2)] this v refl, of i]
  have "mc_config mc = cfg" using Cons.prems(1) by (simp add: tiered_def)
  with v assms(4,5) have "warm_entry (rs i) db k mc = set_l1 (rs i) k v (set_l2 (rs i) k v mc)" by (simp add: warm_entry_set)
  moreover have "int (card (in_l1 (tier_set k t)) + length ks) \<le> L1MaxSize cfg"
    using Cons.prems(3,4) by (simp add: tier_set_def card_insert_if)
  ultimately show ?case
    using Cons.IH [OF step, of "Suc i"] Cons.prems(2,3) by (simp add: tier_set_def)
qed simp

lemma tiered_deletes: "tiered cfg m late t mc \<Longrightarrow> tiered cfg m late (fold tier_delete ks t) (fold mc_Delete ks mc)"
  by (induction ks arbitrary: t mc) (simp_all add: tiered_delete)

text \<open>What a pass over the keys does to the sets and the counters.\<close>

lemma tier_sets: "fold tier_set ks t = t\<lparr> in_l1 := in_l1 t \<union> set ks, in_l2 := in_l2 t \<union> set ks \<rparr>"
  by (induction ks arbitrary: t) (simp_all add: tier_set_def Un_insert_left Un_insert_right)

lemma tier_deletes: "fold tier_delete ks t = t\<lparr> in_l1 := in_l1 t - set ks, in_l2 := in_l2 t - set ks \<rparr>"
  by (induction ks arbitrary: t) (simp_all add: tier_delete_def Diff_insert2 [symmetric])

lemma tier_hits:
  "EnableL1 cfg \<Longrightarrow> set ks \<subseteq> in_l1 t \<Longrightarrow>
   fold (tier_get cfg) ks t = t\<lparr> n_l1 := n_l1 t + int (length ks), n_requests := n_requests t + int (length ks) \<rparr>"
  by (induction ks arbitrary: t) (simp_all add: tier_get_def)

lemma tier_misses:
  "distinct ks \<Longrightarrow> set ks \<inter> (in_l1 t \<union> in_l2 t) = {} \<Longrightarrow>
   fold (tier_get cfg) ks t = t\<lparr> in_l1 := in_l1 t \<union> set ks, in_l2 := in_l2 t \<union> set ks,
     n_db := n_db t + int (length ks), n_requests := n_requests t + int (length ks) \<rparr>"
proof (induction ks arbitrary: t)
  case (Cons k ks)
  have "tier_get cfg k t = t\<lparr> in_l1 := insert k (in_l1 t), in_l2 := insert k (in_l2 t), n_db := n_db t + 1, n_requests := n_requests t + 1 \<rparr>"
    using Cons.prems(2) by (simp add: tier_get_def tier_set_def)
  then show ?case using Cons.IH [of "tier_get cfg k t"] Cons.prems by simp
qed simp

theorem warmup_demo:
  assumes "\<forall>i. timely default_config late (rs i)"
    and "DemoCacheWarmup rs (ml_NewDatabase zhang li wang order1 order2) = (cold, warm, cache)"
  shows "cold = map Inr [zhang, li, ''iPhone 15'', ''MacBook Pro'', order1] \<and> warm = cold"
    "L1Hits (mc_metrics cache) = 5 \<and> L2Hits (mc_metrics cache) = 0 \<and> DatabaseHits (mc_metrics cache) = 5"
proof -
  let ?c = "default_config" let ?db = "ml_NewDatabase zhang li wang order1 order2" let ?D = "db_data ?db"
  define mc1 where "mc1 = snd (ml_reads rs 0 test_keys ?db (NewMultilevelCache None))"
  define mc2 where "mc2 = fold mc_Delete test_keys mc1"
  define mc3 where "mc3 = warm_entries rs 5 ?db test_keys mc2"
  let ?t1 = "fold (tier_get ?c) test_keys no_tiers" let ?t2 = "fold tier_delete test_keys ?t1" let ?t3 = "fold tier_set test_keys ?t2"
  let ?t4 = "fold (tier_get ?c) test_keys ?t3"
  note dom = test_keys_dom [of zhang li wang order1 order2]
  have vals: "map (\<lambda>k. Inr (the (?D k))) test_keys = map Inr [zhang, li, ''iPhone 15'', ''MacBook Pro'', order1]"
    by (simp add: test_keys_def ml_NewDatabase_def demo_data_def)
  have new: "NewMultilevelCache None = NewMultilevelCache (Some ?c)" by (simp add: NewMultilevelCache_def)
  have few: "int (card (set test_keys)) \<le> L1MaxSize ?c" by (simp add: test_keys_def default_config_def)
  have cold: "fst (ml_reads rs 0 test_keys ?db (NewMultilevelCache None)) = map (\<lambda>k. Inr (the (?D k))) test_keys" "tiered ?c ?D late ?t1 mc1"
    unfolding mc1_def new by (rule cold_run [OF assms(1) dom few])+
  have i2: "tiered ?c ?D late ?t2 mc2" unfolding mc2_def by (rule tiered_deletes [OF cold(2)])
  have keys: "distinct test_keys" "length test_keys = 5" by (simp_all add: test_keys_def)
  have t: "in_l1 ?t2 = {}" "in_l1 ?t3 = set test_keys" "n_l1 ?t4 = 5" "n_l2 ?t4 = 0" "n_db ?t4 = 5"
    by (simp_all add: keys tier_misses tier_deletes tier_sets tier_hits no_tiers_def default_config_def)
  have i3: "tiered ?c ?D late ?t3 mc3"
    unfolding mc3_def by (rule tiered_warm [OF i2 assms(1) dom]) (simp_all add: t(1), simp_all add: test_keys_def default_config_def)
  have "EnableL1 ?c \<Longrightarrow> finite (in_l1 ?t3) \<and> int (card (in_l1 ?t3 \<union> set test_keys)) \<le> L1MaxSize ?c"
    unfolding t(2) using few by simp
  note warm = tiered_reads [OF i3 assms(1) dom this, of 10]
  have "cold = fst (ml_reads rs 0 test_keys ?db (NewMultilevelCache None))" "warm = fst (ml_reads rs 10 test_keys ?db mc3)"
    "cache = snd (ml_reads rs 10 test_keys ?db mc3)"
    using assms(2) unfolding DemoCacheWarmup_def Let_def case_prod_beta mc1_def [symmetric] mc2_def [symmetric] mc3_def [symmetric]
    by simp_all
  then show "cold = map Inr [zhang, li, ''iPhone 15'', ''MacBook Pro'', order1] \<and> warm = cold"
    "L1Hits (mc_metrics cache) = 5 \<and> L2Hits (mc_metrics cache) = 0 \<and> DatabaseHits (mc_metrics cache) = 5"
    using cold(1) warm vals t(3-5) by (simp_all add: tiered_def counters_def)
qed

section \<open>What a cold cache asks the database\<close>

text \<open>C38: a new multi-level cache whose entries outlive a run of requests answers each request with the value of the database,
  asks the database once per key, and answers the rest in L1, or in L2 when L1 is switched off.\<close>

theorem cold_cache_counts:
  assumes "\<forall>i. timely cfg late (rs i)" "set ks \<subseteq> dom (db_data db)" "EnableL1 cfg \<longrightarrow> int (card (set ks)) \<le> L1MaxSize cfg"
    and "EnableL1 cfg \<or> EnableL2 cfg" "ks \<noteq> []"
    and "ml_reads rs 0 ks db (NewMultilevelCache (Some cfg)) = (results, mc)" "M = fst (mc_GetMetrics mc)"
  shows "results = map (\<lambda>k. Inr (the (db_data db k))) ks \<and> mm_TotalRequests M = int (length ks) \<and> DatabaseHits M = int (card (set ks)) \<and>
    L1Hits M = (if EnableL1 cfg then int (length ks) - int (card (set ks)) else 0) \<and>
    L2Hits M = (if EnableL1 cfg then 0 else int (length ks) - int (card (set ks))) \<and>
    OverallHitRate M = 1 - of_nat (card (set ks)) / of_nat (length ks)"
proof -
  have M: "M = fst (mc_GetMetrics (snd (ml_reads rs 0 ks db (NewMultilevelCache (Some cfg)))))" by (simp add: assms(6,7))
  note size = mp [OF assms(3)]
  note m = cold_metrics [OF assms(1,2) size assms(4,5) M]
  show ?thesis using cold_run(1) [OF assms(1,2) size, of 0] m by (simp add: assms(6))
qed

theorem cold_cache_counts_witness:
  "\<exists>mc. ml_reads (\<lambda>_. \<lparr> t_l1 = 0, t_l1_touch = 0, t_l2 = 0, t_set1 = (0, 0, 0), t_set2 = (0, 0), t_order = ascending \<rparr>) 0 [''a'', ''a'', ''b'']
      \<lparr> db_data = [''a'' \<mapsto> ''x'', ''b'' \<mapsto> ''y''] \<rparr> (NewMultilevelCache (Some both_config)) = ([Inr ''x'', Inr ''x'', Inr ''y''], mc) \<and>
    DatabaseHits (fst (mc_GetMetrics mc)) = 2 \<and> L1Hits (fst (mc_GetMetrics mc)) = 1"
proof -
  let ?rs = "\<lambda>_ :: nat. \<lparr> t_l1 = 0, t_l1_touch = 0, t_l2 = 0, t_set1 = (0, 0, 0), t_set2 = (0, 0), t_order = ascending \<rparr> :: readings"
  let ?db = "\<lparr> db_data = [''a'' \<mapsto> ''x'', ''b'' \<mapsto> ''y''] \<rparr>" let ?ks = "[''a'', ''a'', ''b'']"
  obtain results mc where run: "ml_reads ?rs 0 ?ks ?db (NewMultilevelCache (Some both_config)) = (results, mc)" by fastforce
  have "\<forall>i. timely both_config 0 (?rs i)" "set ?ks \<subseteq> dom (db_data ?db)" "EnableL1 both_config \<longrightarrow> int (card (set ?ks)) \<le> L1MaxSize both_config"
    "EnableL1 both_config \<or> EnableL2 both_config" "?ks \<noteq> []"
    by (simp_all add: timely_def both_config_def minute_def)
  from cold_cache_counts [OF this run refl] run show ?thesis by (simp add: both_config_def)
qed

end
