(* ===== verification/Multilevel_Props.thy ===== *)
theory Multilevel_Props
  imports Multilevel "HOL-Library.Multiset"
begin

text \<open>
  Properties of \<open>tutorial/05-multilevel\<close>: size and eviction of the local cache and the most
  accessed keys. What the multi-level cache shows of its database is in \<open>Multilevel_Reads\<close>.
\<close>

section \<open>The local cache evicts the least recently used entry\<close>

lemma fold_older:
  assumes "fold (older lc) ks (b0, t0) = (b, t)"
  shows "t \<le> t0 \<and> (\<forall>k \<in> set ks. \<forall>item. lc_data lc k = Some item \<longrightarrow> t \<le> li_LastAccess item) \<and>
    ((b, t) = (b0, t0) \<or> (b \<in> set ks \<and> (\<exists>item. lc_data lc b = Some item \<and> li_LastAccess item = t)))"
  using assms
proof (induction ks arbitrary: b0 t0)
  case (Cons k ks)
  obtain b1 t1 where o: "older lc k (b0, t0) = (b1, t1)" by fastforce
  then have "fold (older lc) ks (b1, t1) = (b, t)" using Cons.prems by simp
  from Cons.IH [OF this] o show ?case by (auto simp: older_def split: option.splits if_splits)
qed simp

lemma evictLRU_spec:
  assumes "finite (dom (lc_data lc))" "fair_order order" "lc_data lc \<noteq> Map.empty" "lc_data lc [] = None"
    and "\<forall>k item. lc_data lc k = Some item \<longrightarrow> li_LastAccess item < now"
  shows "\<exists>k item. lc_data lc k = Some item \<and> (\<forall>k' item'. lc_data lc k' = Some item' \<longrightarrow> li_LastAccess item \<le> li_LastAccess item') \<and>
    evictLRU now order lc = lc\<lparr> lc_data := (lc_data lc)(k := None),
       lc_metrics := (lc_metrics lc)\<lparr> lm_Evictions := lm_Evictions (lc_metrics lc) + 1 \<rparr> \<rparr>"
proof -
  have ord: "set (order (lc_data lc)) = dom (lc_data lc)" using assms(1,2) by (metis fair_orderD is_orderD(2))
  obtain b t where f: "fold (older lc) (order (lc_data lc)) ([], now) = (b, t)" by fastforce
  note spec = fold_older [OF f]
  obtain k0 item0 where k0: "lc_data lc k0 = Some item0" using assms(3) by fastforce
  then have "t < now" using spec assms(5) ord by fastforce
  then obtain item where item: "lc_data lc b = Some item" "li_LastAccess item = t" using spec by auto
  moreover from this have "b \<noteq> []" using assms(4) by auto
  moreover have "\<forall>k' item'. lc_data lc k' = Some item' \<longrightarrow> t \<le> li_LastAccess item'" using spec ord by blast
  ultimately show ?thesis using f by (intro exI [of _ b] exI [of _ item]) (simp add: evictLRU_def)
qed

lemma card_le_upd: "finite (dom m) \<Longrightarrow> card (dom (m(k \<mapsto> v))) \<le> card (dom m) + 1"
  by (simp add: card_insert_if)

text \<open>Runs of a local cache under a clock that moves between calls; keys are not empty.\<close>

inductive lc_run :: "int \<Rightarrow> go_time \<Rightarrow> 'v local_cache \<Rightarrow> bool" for cap where
  new: "lc_run cap t (NewLocalCache cap)"
| get: "lc_run cap t lc \<Longrightarrow> t < now \<Longrightarrow> now \<le> now2 \<Longrightarrow> lc_run cap now2 (snd (lc_Get now now2 k lc))"
| set: "lc_run cap t lc \<Longrightarrow> t < now \<Longrightarrow> now \<le> now3 \<Longrightarrow> fair_order order \<Longrightarrow> k \<noteq> [] \<Longrightarrow>
     lc_run cap now3 (lc_Set now now2 now3 order k v ttl lc)"
| delete: "lc_run cap t lc \<Longrightarrow> lc_run cap t (lc_Delete k lc)"
| clear: "lc_run cap t lc \<Longrightarrow> lc_run cap t (lc_Clear lc)"
| cleanup: "lc_run cap t lc \<Longrightarrow> lc_run cap t (lc_cleanupExpired now order lc)"

lemma drop_expired_fold:
  "fold (drop_expired expires now) ks m k = m k \<or> fold (drop_expired expires now) ks m k = None"
proof (induction ks arbitrary: m)
  case (Cons a ks)
  have "drop_expired expires now a m k = m k \<or> drop_expired expires now a m k = None"
    by (auto simp: drop_expired_def split: option.splits)
  then show ?case using Cons.IH [of "drop_expired expires now a m"] by (metis fold_simps(2))
qed simp

definition lc_ok :: "int \<Rightarrow> go_time \<Rightarrow> 'v local_cache \<Rightarrow> bool" where
  "lc_ok cap t lc \<longleftrightarrow> finite (dom (lc_data lc)) \<and> lc_data lc [] = None \<and> lc_maxSize lc = cap \<and>
     (\<forall>k item. lc_data lc k = Some item \<longrightarrow> li_LastAccess item \<le> t) \<and> map_len (lc_data lc) \<le> max 1 cap \<and>
     lm_Hits (lc_metrics lc) + lm_Misses (lc_metrics lc) = lm_TotalAccess (lc_metrics lc) \<and>
     0 \<le> lm_Hits (lc_metrics lc) \<and> 0 \<le> lm_Misses (lc_metrics lc)"

lemma lc_ok_Set:
  assumes ok: "lc_ok cap t lc" and t: "t < now" "now \<le> now3" and ord: "fair_order order" and k: "k \<noteq> []"
  shows "lc_ok cap now3 (lc_Set now now2 now3 order k v ttl lc)"
proof -
  have fin: "finite (dom (lc_data lc))" and la: "\<forall>k item. lc_data lc k = Some item \<longrightarrow> li_LastAccess item < now"
    and la': "\<And>k item. lc_data lc k = Some item \<Longrightarrow> li_LastAccess item \<le> now3"
    using ok t by (fastforce simp: lc_ok_def)+
  show ?thesis
  proof (cases "map_len (lc_data lc) \<ge> lc_maxSize lc \<and> lc_data lc \<noteq> Map.empty")
    case True
    have ne: "lc_data lc [] = None" using ok by (simp add: lc_ok_def)
    obtain b item where b: "lc_data lc b = Some item" and
      e: "evictLRU now order lc = lc\<lparr> lc_data := (lc_data lc)(b := None),
       lc_metrics := (lc_metrics lc)\<lparr> lm_Evictions := lm_Evictions (lc_metrics lc) + 1 \<rparr> \<rparr>"
      using evictLRU_spec [OF fin ord conjunct2 [OF True] ne la] by blast
    have "card (dom ((lc_data lc)(b := None))) = card (dom (lc_data lc)) - 1" using b fin by (intro card_dom_del) auto
    moreover have "card (dom (lc_data lc)) > 0" using b fin by (metis card_gt_0_iff domI empty_iff)
    ultimately have "card (dom ((lc_data lc)(b := None, k \<mapsto> x))) \<le> card (dom (lc_data lc))" for x
      using card_le_upd [of "(lc_data lc)(b := None)" k x] fin by simp
    then have "map_len ((lc_data lc)(b := None, k \<mapsto> x)) \<le> map_len (lc_data lc)" for x
      unfolding map_len_def by (intro of_nat_mono)
    moreover have "map_len (lc_data lc) \<le> max 1 cap" using ok by (simp add: lc_ok_def)
    ultimately have "map_len ((lc_data lc)(b := None, k \<mapsto> x)) \<le> max 1 cap" for x by (meson order_trans)
    then show ?thesis
      using True ok k fin la' t by (auto simp: lc_ok_def lc_Set_def Let_def e)
  next
    case False
    have e: "(if map_len (lc_data lc) \<ge> lc_maxSize lc then evictLRU now order lc else lc) = lc"
    proof (cases "map_len (lc_data lc) \<ge> lc_maxSize lc")
      case full: True
      then have "lc_data lc = Map.empty" using False by blast
      then have "order (lc_data lc) = []" using fair_orderD [OF ord, of Map.empty] by (simp add: is_order_def)
      then show ?thesis by (simp add: evictLRU_def)
    qed simp
    have "map_len ((lc_data lc)(k \<mapsto> x)) \<le> max 1 cap" for x
    proof (cases "lc_data lc = Map.empty")
      case empty: True
      then show ?thesis by (simp add: map_len_def)
    next
      case ne: False
      then have "map_len (lc_data lc) < cap" using False ok by (auto simp: lc_ok_def)
      then show ?thesis using card_le_upd [OF fin, of k x] by (simp add: map_len_def)
    qed
    then show ?thesis
      using ok k fin la' t unfolding lc_Set_def e Let_def by (auto simp: lc_ok_def)
  qed
qed

lemma lc_ok_cleanup:
  assumes "lc_ok cap t lc"
  shows "lc_ok cap t (lc_cleanupExpired now order lc)"
proof -
  let ?m = "fold (drop_expired li_ExpiresAt now) (order (lc_data lc)) (lc_data lc)"
  have sub: "?m k = lc_data lc k \<or> ?m k = None" for k by (rule drop_expired_fold)
  then have "dom ?m \<subseteq> dom (lc_data lc)" by (metis domIff subsetI)
  moreover have fin: "finite (dom (lc_data lc))" using assms by (simp add: lc_ok_def)
  ultimately have "finite (dom ?m)" "map_len ?m \<le> map_len (lc_data lc)"
    by (auto simp: map_len_def intro: finite_subset card_mono)
  moreover have "?m k = Some item \<Longrightarrow> lc_data lc k = Some item" for k item using sub [of k] by auto
  moreover have "?m [] = None" using sub [of "[]"] assms by (auto simp: lc_ok_def)
  ultimately show ?thesis
    using assms by (auto simp: lc_ok_def lc_cleanupExpired_def)
qed

lemma lc_run_ok: "lc_run cap t lc \<Longrightarrow> lc_ok cap t lc"
proof (induction rule: lc_run.induct)
  case (new t)
  then show ?case by (simp add: lc_ok_def NewLocalCache_def map_len_def)
next
  case (get t lc now now2 k)
  then have "card (dom ((lc_data lc)(k \<mapsto> x))) = card (dom (lc_data lc))" if "lc_data lc k \<noteq> None" for x
    using that by (simp add: insert_absorb domIff)
  then show ?case
    using get by (fastforce simp: lc_ok_def lc_Get_def Let_def lc_recordHit_def lc_recordMiss_def map_len_def split: option.splits)
next
  case (set t lc now now3 order k now2 v ttl)
  then show ?case by (intro lc_ok_Set)
next
  case (delete t lc k)
  then have "card (dom ((lc_data lc)(k := None))) \<le> card (dom (lc_data lc))"
    by (auto simp: lc_ok_def intro!: card_mono)
  then show ?case using delete by (auto simp: lc_ok_def lc_Delete_def map_len_def)
next
  case (clear t lc)
  then show ?case by (simp add: lc_ok_def lc_Clear_def map_len_def)
next
  case (cleanup t lc now order)
  then show ?case by (intro lc_ok_cleanup)
qed


text \<open>C30: a local cache whose keys are not empty and whose clock moves between calls never holds more entries than its maximal
  size, or one entry when that size is not positive; its counters add up, and a \<open>Set\<close> on a full cache first evicts an entry
  that was least recently accessed and nothing else.\<close>

theorem local_cache_bounded:
  assumes "lc_run cap t lc" "t < now" "fair_order order"
  shows "lc_Size lc \<le> max 1 cap \<and> 0 \<le> lc_GetHitRate lc \<and> lc_GetHitRate lc \<le> 1 \<and>
    (cap \<le> lc_Size lc \<and> 0 < lc_Size lc \<longrightarrow>
      (\<exists>k0 item. lc_data lc k0 = Some item \<and>
        (\<forall>k' item'. lc_data lc k' = Some item' \<longrightarrow> li_LastAccess item \<le> li_LastAccess item') \<and>
        lc_data (lc_Set now now now order k v ttl lc) = (lc_data lc)(k0 := None,
          k \<mapsto> \<lparr> li_Value = v, li_ExpiresAt = now + ttl, li_AccessCount = 0, li_LastAccess = now \<rparr>)))"
proof (intro conjI impI)
  have ok: "lc_ok cap t lc" using assms(1) by (rule lc_run_ok)
  then show "lc_Size lc \<le> max 1 cap" by (simp add: lc_ok_def lc_Size_def)
  show "0 \<le> lc_GetHitRate lc" "lc_GetHitRate lc \<le> 1"
    using ok by (auto simp: lc_ok_def lc_GetHitRate_def divide_le_eq_1)
  assume full: "cap \<le> lc_Size lc \<and> 0 < lc_Size lc"
  then have "lc_data lc \<noteq> Map.empty" by (auto simp: lc_Size_def map_len_def)
  moreover have ok': "finite (dom (lc_data lc))" "lc_data lc [] = None" "lc_maxSize lc \<le> map_len (lc_data lc)"
    "\<forall>k item. lc_data lc k = Some item \<longrightarrow> li_LastAccess item < now"
    using ok full assms(2) by (fastforce simp: lc_ok_def lc_Size_def)+
  ultimately obtain k0 item where k0: "lc_data lc k0 = Some item"
    "\<forall>k' item'. lc_data lc k' = Some item' \<longrightarrow> li_LastAccess item \<le> li_LastAccess item'"
    "evictLRU now order lc = lc\<lparr> lc_data := (lc_data lc)(k0 := None),
       lc_metrics := (lc_metrics lc)\<lparr> lm_Evictions := lm_Evictions (lc_metrics lc) + 1 \<rparr> \<rparr>"
    using evictLRU_spec [of lc order now] assms(3) by blast
  show "\<exists>k0 item. lc_data lc k0 = Some item \<and>
        (\<forall>k' item'. lc_data lc k' = Some item' \<longrightarrow> li_LastAccess item \<le> li_LastAccess item') \<and>
        lc_data (lc_Set now now now order k v ttl lc) = (lc_data lc)(k0 := None,
          k \<mapsto> \<lparr> li_Value = v, li_ExpiresAt = now + ttl, li_AccessCount = 0, li_LastAccess = now \<rparr>)"
    using k0 ok'(3) by (intro exI [of _ k0] exI [of _ item]) (simp add: lc_Set_def Let_def)
qed

text \<open>Two sets and a read at capacity two: the third key pushes out the one that was not read.\<close>

theorem local_cache_bounded_witness:
  "\<exists>lc :: nat local_cache. lc_run 1 2 lc \<and> lc_Size lc \<le> 1 \<and>
    lc_data (lc_Set 3 3 3 ascending ''b'' 7 10 lc) = [''b'' \<mapsto> \<lparr> li_Value = 7, li_ExpiresAt = 13, li_AccessCount = 0, li_LastAccess = 3 \<rparr>]"
proof -
  let ?lc = "lc_Set 2 2 2 ascending ''a'' 5 10 (NewLocalCache 1) :: nat local_cache"
  have "lc_run 1 0 (NewLocalCache 1 :: nat local_cache)" by (rule lc_run.new)
  then have r: "lc_run 1 2 ?lc" by (rule lc_run.set) (simp_all add: fair_ascending)
  have d: "lc_data ?lc = [''a'' \<mapsto> \<lparr> li_Value = 5, li_ExpiresAt = 12, li_AccessCount = 0, li_LastAccess = 2 \<rparr>]"
    by (simp add: lc_Set_def NewLocalCache_def map_len_def)
  then have "lc_Size ?lc = 1" by (simp add: lc_Size_def map_len_def)
  then obtain k0 item where "lc_data ?lc k0 = Some item"
    "lc_data (lc_Set 3 3 3 ascending ''b'' 7 10 ?lc) = (lc_data ?lc)(k0 := None,
      ''b'' \<mapsto> \<lparr> li_Value = 7, li_ExpiresAt = 3 + 10, li_AccessCount = 0, li_LastAccess = 3 \<rparr>)" "lc_Size ?lc \<le> 1"
    using local_cache_bounded [OF r, of 3 ascending "''b''" 7 10] fair_ascending by auto
  moreover from this(1) have "k0 = ''a''" by (simp add: d split: if_splits)
  ultimately show ?thesis using r by (intro exI [of _ ?lc]) (auto simp: d)
qed

text \<open>
  The empty key is the exception, because it also stands for "none found" in the search: while it is the least recently accessed
  key nothing is evicted, and every new key makes the cache larger, however large it is.
\<close>

theorem empty_key_stops_eviction:
  assumes "finite (dom (lc_data lc))" "fair_order order" "lc_data lc [] = Some oldest"
    and "\<forall>k' item. k' \<noteq> [] \<and> lc_data lc k' = Some item \<longrightarrow> li_LastAccess oldest < li_LastAccess item"
    and "lc_data lc k = None"
  shows "lc_Size (lc_Set now now2 now3 order k v ttl lc) = lc_Size lc + 1"
proof -
  have ord: "set (order (lc_data lc)) = dom (lc_data lc)" using assms(1,2) by (metis fair_orderD is_orderD(2))
  obtain b t where f: "fold (older lc) (order (lc_data lc)) ([], now) = (b, t)" by fastforce
  note spec = fold_older [OF f]
  have "t \<le> li_LastAccess oldest" using spec ord assms(3) by blast
  then have "b = []" using spec assms(4) by fastforce
  then have "evictLRU now order lc = lc" using f by (simp add: evictLRU_def)
  then have "lc_data (lc_Set now now2 now3 order k v ttl lc) = (lc_data lc)(k \<mapsto>
      \<lparr> li_Value = v, li_ExpiresAt = now2 + ttl, li_AccessCount = 0, li_LastAccess = now3 \<rparr>)"
    by (simp add: lc_Set_def)
  then show ?thesis using assms(1,5) by (simp add: lc_Size_def map_len_def card_insert_if domIff)
qed

section \<open>The most accessed keys\<close>

lemma exchange_mset:
  assumes "i < length ks" "j < length ks"
  shows "mset (exchange i j ks) = mset ks" "length (exchange i j ks) = length ks"
  using assms by (auto simp: exchange_def mset_swap)

text \<open>After the inner loop position \<open>i\<close> holds the largest count of the rest, and the positions before are untouched.\<close>

lemma inner_loop:
  assumes "i < m" "m \<le> n" "n = length ks"
  shows "let ks' = fold (exchange i) [m..<n] ks in
    mset ks' = mset ks \<and> length ks' = n \<and> (\<forall>a < m. a \<noteq> i \<longrightarrow> ks' ! a = ks ! a) \<and> snd (ks ! i) \<le> snd (ks' ! i) \<and>
    (\<forall>j. m \<le> j \<and> j < n \<longrightarrow> snd (ks' ! j) \<le> snd (ks' ! i))"
  using assms
proof (induction "n - m" arbitrary: m ks)
  case 0
  then show ?case by simp
next
  case (Suc d)
  then have mn: "m < n" by linarith
  let ?ks = "exchange i m ks"
  have step: "fold (exchange i) [m..<n] ks = fold (exchange i) [Suc m..<n] ?ks" using mn by (simp add: upt_conv_Cons)
  have e: "mset ?ks = mset ks" "length ?ks = length ks" using exchange_mset [of i ks m] Suc.prems mn by auto
  have v: "?ks ! a = ks ! a" if "a \<noteq> i" "a \<noteq> m" for a using that by (simp add: exchange_def)
  have im: "snd (ks ! i) \<le> snd (?ks ! i)" "snd (?ks ! m) \<le> snd (?ks ! i)"
    using Suc.prems mn by (auto simp: exchange_def nth_list_update)
  have IH: "let ks' = fold (exchange i) [Suc m..<n] ?ks in
    mset ks' = mset ?ks \<and> length ks' = n \<and> (\<forall>a < Suc m. a \<noteq> i \<longrightarrow> ks' ! a = ?ks ! a) \<and> snd (?ks ! i) \<le> snd (ks' ! i) \<and>
    (\<forall>j. Suc m \<le> j \<and> j < n \<longrightarrow> snd (ks' ! j) \<le> snd (ks' ! i))"
    using Suc.hyps(2) Suc.prems mn e by (intro Suc.hyps(1)) auto
  let ?r = "fold (exchange i) [Suc m..<n] ?ks"
  have r: "mset ?r = mset ?ks" "length ?r = n" "\<And>a. a < Suc m \<Longrightarrow> a \<noteq> i \<Longrightarrow> ?r ! a = ?ks ! a"
    "snd (?ks ! i) \<le> snd (?r ! i)" "\<And>j. Suc m \<le> j \<Longrightarrow> j < n \<Longrightarrow> snd (?r ! j) \<le> snd (?r ! i)"
    using IH by (simp_all add: Let_def)
  have at_m: "snd (?r ! m) \<le> snd (?r ! i)" using r(3) [of m] r(4) im Suc.prems by simp
  have "snd (?r ! j) \<le> snd (?r ! i)" if "m \<le> j" "j < n" for j
    using that at_m r(5) [of j] by (cases "j = m") auto
  moreover have "?r ! a = ks ! a" if "a < m" "a \<noteq> i" for a using r(3) [of a] v [of a] that by simp
  ultimately show ?case using r(1,2,4) e im by (simp add: Let_def step)
qed

lemma exchange_sort_loop:
  assumes "m \<le> length ks - 1" "ks' = fold (\<lambda>i ks. fold (exchange i) [i + 1..<length ks] ks) [0..<m] ks"
  shows "mset ks' = mset ks \<and> length ks' = length ks \<and> (\<forall>a b. a < m \<and> a \<le> b \<and> b < length ks \<longrightarrow> snd (ks' ! b) \<le> snd (ks' ! a))"
  using assms
proof (induction m arbitrary: ks')
  case (Suc m)
  define p where "p = fold (\<lambda>i ks. fold (exchange i) [i + 1..<length ks] ks) [0..<m] ks"
  define n where "n = length ks"
  have p: "mset p = mset ks" "length p = n" "\<And>a b. a < m \<Longrightarrow> a \<le> b \<Longrightarrow> b < n \<Longrightarrow> snd (p ! b) \<le> snd (p ! a)"
    using Suc.IH [OF _ p_def] Suc.prems(1) by (auto simp: n_def)
  define q where "q = fold (exchange m) [m + 1..<n] p"
  have ks': "ks' = q" using Suc.prems(2) p(2) by (simp add: p_def q_def)
  have "m < m + 1" "m + 1 \<le> n" "n = length p" using Suc.prems(1) p(2) by (auto simp: n_def)
  from inner_loop [OF this] have q: "mset q = mset p" "length q = n" "\<And>a. a < m \<Longrightarrow> q ! a = p ! a"
    "\<And>j. m + 1 \<le> j \<Longrightarrow> j < n \<Longrightarrow> snd (q ! j) \<le> snd (q ! m)"
    unfolding q_def [symmetric] Let_def by auto
  have "snd (q ! b) \<le> snd (q ! a)" if ab: "a < Suc m" "a \<le> b" "b < n" for a b
  proof (cases "a = m")
    case True
    then show ?thesis using q(4) [of b] ab by (cases "b = m") auto
  next
    case False
    have all: "snd x \<le> snd (p ! a)" if x: "x \<in> set (drop m p)" for x
    proof -
      obtain c where "c < length (drop m p)" "x = drop m p ! c" using x unfolding in_set_conv_nth by blast
      then show ?thesis using p(3) [of a "m + c"] p(2) False ab by simp
    qed
    show ?thesis
    proof (cases "b < m")
      case bm: True
      then show ?thesis using p(3) [of a b] q(3) False ab by simp
    next
      case bm: False
      have "take m q = take m p" using q(2,3) p(2) by (intro nth_equalityI) auto
      then have "mset (drop m q) = mset (drop m p)"
        using q(1) by (metis add_left_cancel append_take_drop_id mset_append)
      moreover have "q ! b \<in> set (drop m q)"
        using bm ab q(2) nth_mem [of "b - m" "drop m q"] by simp
      ultimately have "q ! b \<in> set (drop m p)" using mset_eq_setD by blast
      then show ?thesis using all q(3) [of a] False ab by simp
    qed
  qed
  then show ?case using p q by (simp add: ks' n_def)
qed simp

lemma exchange_sort_sorts:
  "mset (exchange_sort ks) = mset ks \<and> sorted_wrt (\<lambda>x y. snd x \<ge> snd y) (exchange_sort ks)"
proof (cases "ks = []")
  case False
  have "mset (exchange_sort ks) = mset ks" "length (exchange_sort ks) = length ks"
    "\<And>a b. a < length ks - 1 \<Longrightarrow> a \<le> b \<Longrightarrow> b < length ks \<Longrightarrow> snd (exchange_sort ks ! b) \<le> snd (exchange_sort ks ! a)"
    using exchange_sort_loop [OF le_refl, of "exchange_sort ks" ks] by (auto simp: exchange_sort_def)
  then show ?thesis by (simp add: sorted_wrt_iff_nth_less)
qed (simp add: exchange_sort_def)


text \<open>\<open>GetTopKeys\<close> lists the most accessed keys whatever order the map is visited in: there is a list of all keys with
  their access counts, largest first and each key once, of which it returns the first \<open>limit\<close>; a negative limit panics.\<close>

theorem top_keys_sorted:
  assumes "is_order (lc_data lc) order"
  shows "\<exists>ks. GetTopKeys order limit lc = (if limit < 0 then None else Some (take (nat limit) ks)) \<and>
    sorted_wrt (\<lambda>x y. snd x \<ge> snd y) ks \<and> distinct (map fst ks) \<and>
    set ks = {(k, li_AccessCount item) | k item. lc_data lc k = Some item}"
proof -
  let ?f = "\<lambda>k. map_option (\<lambda>item. (k, li_AccessCount item)) (lc_data lc k)"
  let ?ks = "List.map_filter ?f order" let ?r = "exchange_sort ?ks"
  have ord: "distinct order" "set order = dom (lc_data lc)" using assms by (simp_all add: is_order_def)
  have mf: "?ks = map (\<lambda>k. (k, li_AccessCount (the (lc_data lc k)))) order"
    using ord(2) by (auto simp: List.map_filter_def filter_id_conv intro!: map_cong)
  have m: "mset ?r = mset ?ks" "sorted_wrt (\<lambda>x y. snd x \<ge> snd y) ?r" using exchange_sort_sorts [of ?ks] by auto
  have fst: "map fst ?ks = order" by (simp add: mf comp_def)
  have "mset (map fst ?r) = mset (map fst ?ks)" by (simp only: mset_map m(1))
  then have "mset (map fst ?r) = mset order" by (simp only: fst)
  from mset_eq_imp_distinct_iff [OF this] have "distinct (map fst ?r)" using ord(1) by blast
  moreover have "set ?r = {(k, li_AccessCount item) | k item. lc_data lc k = Some item}"
    using mset_eq_setD [OF m(1)] ord(2) by (force simp: mf)
  ultimately show ?thesis using m(2) by (intro exI [of _ ?r]) (simp add: GetTopKeys_def)
qed

theorem top_keys_sorted_witness:
  "\<exists>ks. GetTopKeys [''a''] 3 (lc_Set 1 1 1 ascending ''a'' (0 :: nat) 5 (NewLocalCache 2)) = Some (take 3 ks) \<and> set ks = {(''a'', 0)}"
proof -
  let ?lc = "lc_Set 1 1 1 ascending ''a'' (0 :: nat) 5 (NewLocalCache 2)"
  have d: "lc_data ?lc = [''a'' \<mapsto> \<lparr> li_Value = 0, li_ExpiresAt = 6, li_AccessCount = 0, li_LastAccess = 1 \<rparr>]"
    by (simp add: lc_Set_def NewLocalCache_def map_len_def)
  have "is_order (lc_data ?lc) [''a'']" by (simp add: is_order_def d)
  from top_keys_sorted [OF this, of 3] show ?thesis by (auto simp: d split: if_splits)
qed

end
