(* ===== verification/Level_Demos.thy ===== *)
theory Level_Demos
  imports Multilevel_Props Multilevel_Reads
begin

text \<open>
  The demonstrations of the two levels on their own (\<open>tutorial/05-multilevel\<close>: \<open>DemoLocalCache\<close>, \<open>DemoDistributedCache\<close>).
  \<open>clk i j\<close> is the \<open>j\<close>-th reading of the clock in the \<open>i\<close>-th call; the Chinese texts and the order of loops over maps are
  arguments. Each demonstration returns what it prints of values, sizes and metrics; elapsed times are not modelled.
\<close>

section \<open>The demonstrations\<close>

type_synonym readings_of = "nat \<Rightarrow> nat \<Rightarrow> go_time"

fun lc_puts ::
  "readings_of \<Rightarrow> ((string \<rightharpoonup> 'v local_item) \<Rightarrow> string list) \<Rightarrow> nat \<Rightarrow> (string \<times> 'v \<times> duration) list \<Rightarrow> 'v local_cache \<Rightarrow> 'v local_cache" where
  "lc_puts clk order i [] c = c"
| "lc_puts clk order i ((k, v, ttl) # kvs) c = lc_puts clk order (Suc i) kvs (lc_Set (clk i 0) (clk i 1) (clk i 2) order k v ttl c)"

fun lc_gets :: "readings_of \<Rightarrow> nat \<Rightarrow> string list \<Rightarrow> 'v local_cache \<Rightarrow> 'v option list \<times> 'v local_cache" where
  "lc_gets clk i [] c = ([], c)"
| "lc_gets clk i (k # ks) c =
     (case lc_Get (clk i 0) (clk i 1) k c of (r, c1) \<Rightarrow> case lc_gets clk (Suc i) ks c1 of (rs, c2) \<Rightarrow> (r # rs, c2))"

definition minutes :: "int \<Rightarrow> duration" where
  "minutes n = n * (60 * 10 ^ 9)"

definition local_data :: "string \<Rightarrow> string \<Rightarrow> string \<Rightarrow> (string \<times> string \<times> duration) list" where
  "local_data zhang li wang =
     [(''user:1'', zhang, minutes 5), (''user:2'', li, minutes 5), (''user:3'', wang, minutes 5),
      (''product:1'', ''iPhone 15'', minutes 10), (''product:2'', ''MacBook Pro'', minutes 10)]"

definition small_data :: "(string \<times> string \<times> duration) list" where
  "small_data = [(''a'', ''value_a'', minutes 5), (''b'', ''value_b'', minutes 5), (''c'', ''value_c'', minutes 5)]"

text \<open>
  The size, the answers of four reads, the metrics and the hit rate after them, and the three most accessed keys after fifteen
  more reads; of a cache with three places the size when it is full, the size after one more key, and the answers
  of four reads.
\<close>

definition DemoLocalCache ::
  "readings_of \<Rightarrow> ((string \<rightharpoonup> string local_item) \<Rightarrow> string list) \<Rightarrow> string \<Rightarrow> string \<Rightarrow> string \<Rightarrow>
   (int \<times> string option list \<times> local_metrics \<times> rat \<times> (string \<times> int) list option) \<times> int \<times> int \<times> string option list" where
  "DemoLocalCache clk order zhang li wang =
     (let cache = lc_puts clk order 0 (local_data zhang li wang) (NewLocalCache 100);
          (found, cache1) = lc_gets clk 5 [''user:1'', ''user:2'', ''user:999'', ''product:1''] cache;
          cache2 = snd (lc_gets clk 9 (replicate 10 ''user:1'') cache1);
          cache3 = snd (lc_gets clk 19 (replicate 5 ''product:1'') cache2);
          smallCache = lc_puts clk order 24 small_data (NewLocalCache 3);
          smallCache1 = lc_puts clk order 27 [(''d'', ''value_d'', minutes 5)] smallCache;
          (left, smallCache2) = lc_gets clk 28 [''a'', ''b'', ''c'', ''d''] smallCache1
      in ((lc_Size cache, found, lc_GetMetrics cache1, lc_GetHitRate cache1, GetTopKeys (order (lc_data cache3)) 3 cache3),
          lc_Size smallCache, lc_Size smallCache1, left))"

fun rc_puts :: "readings_of \<Rightarrow> nat \<Rightarrow> duration \<Rightarrow> (string \<times> 'v) list \<Rightarrow> 'v remote_cache \<Rightarrow> 'v remote_cache" where
  "rc_puts clk i ttl [] c = c"
| "rc_puts clk i ttl ((k, v) # kvs) c = rc_puts clk (Suc i) ttl kvs (rc_Set (clk i 0) (clk i 1) k v ttl c)"

definition batch_data :: "string \<rightharpoonup> string" where
  "batch_data = [''product:1'' \<mapsto> ''iPhone 15'', ''product:2'' \<mapsto> ''MacBook Pro'', ''product:3'' \<mapsto> ''iPad Air'',
     ''product:4'' \<mapsto> ''Apple Watch'', ''product:5'' \<mapsto> ''AirPods Pro'']"

definition numbered_data :: "string \<Rightarrow> (string \<times> string) list" where
  "numbered_data key = map (\<lambda>i. (key @ Itoa i, ''value'' @ Itoa i)) [1..<6]"

text \<open>The value read, how many of four keys the batch read finds, the remaining lives of an entry, and the metrics.\<close>

definition DemoDistributedCache ::
  "readings_of \<Rightarrow> ((string \<rightharpoonup> string) \<Rightarrow> string list) \<Rightarrow> string \<Rightarrow> string \<Rightarrow>
   string option \<times> int \<times> duration \<times> duration \<times> remote_metrics \<times> rat \<times> duration" where
  "DemoDistributedCache clk order zhang temporary =
     (let c1 = rc_Set (clk 0 0) (clk 0 1) ''user:1'' zhang (minutes 10) (rc_New (2 * 10 ^ 6));
          (value, c2) = rc_Get (clk 1 0) ''user:1'' c1;
          c3 = MSet (clk 2 0) (order batch_data) batch_data (minutes 15) c2;
          (results, c4) = MGet (clk 3 0) [''product:1'', ''product:2'', ''product:3'', ''product:999''] c3;
          c5 = rc_Set (clk 4 0) (clk 4 1) ''temp:1'' temporary (3 * 10 ^ 9) c4;
          (ttl1, c6) = rc_TTL (clk 5 0) ''temp:1'' c5;
          (ttl2, c7) = rc_TTL (clk 6 0) ''temp:1'' c6;
          c8 = rc_puts clk 7 (minutes 10) (numbered_data ''single:'') c7;
          batchData2 = map_of (numbered_data ''batch:'');
          c9 = MSet (clk 12 0) (order batchData2) batchData2 (minutes 10) c8
      in (value, map_len results, ttl1, ttl2, rc_GetMetrics c9, rc_GetHitRate c9, GetAverageLatency c9))"

section \<open>The local cache, entry by entry\<close>

text \<open>Value, access count and last access of the entries; all of them live until \<open>late\<close> at least.\<close>

definition tallies :: "go_time \<Rightarrow> (string \<rightharpoonup> 'v \<times> int \<times> go_time) \<Rightarrow> 'v local_cache \<Rightarrow> bool" where
  "tallies late A c \<longleftrightarrow> (\<forall>k. map_option (\<lambda>item. (li_Value item, li_AccessCount item, li_LastAccess item)) (lc_data c k) = A k) \<and>
     (\<forall>k item. lc_data c k = Some item \<longrightarrow> late \<le> li_ExpiresAt item)"

lemma tallies_dom: "tallies late A c \<Longrightarrow> dom (lc_data c) = dom A"
proof -
  assume "tallies late A c"
  then have "A = (\<lambda>k. map_option (\<lambda>item. (li_Value item, li_AccessCount item, li_LastAccess item)) (lc_data c k))"
    by (simp add: tallies_def fun_eq_iff)
  then show ?thesis by auto
qed

lemma tallies_New: "tallies late Map.empty (NewLocalCache n)"
  by (simp add: tallies_def NewLocalCache_def)

definition tally_get :: "go_time \<Rightarrow> string \<Rightarrow> (string \<rightharpoonup> 'v \<times> int \<times> go_time) \<Rightarrow> (string \<rightharpoonup> 'v \<times> int \<times> go_time)" where
  "tally_get now k A = (case A k of None \<Rightarrow> A | Some (v, n, t) \<Rightarrow> A(k \<mapsto> (v, n + 1, now)))"

lemma tallies_Get:
  assumes "tallies late A c" "now \<le> late"
  shows "fst (lc_Get now now2 k c) = map_option fst (A k)"
    "tallies late (tally_get now2 k A) (snd (lc_Get now now2 k c))"
    "lc_metrics (snd (lc_Get now now2 k c)) = (lc_metrics c)
       \<lparr> lm_TotalAccess := lm_TotalAccess (lc_metrics c) + 1,
         lm_Hits := lm_Hits (lc_metrics c) + (if A k = None then 0 else 1), lm_Misses := lm_Misses (lc_metrics c) + (if A k = None then 1 else 0) \<rparr>"
    "lc_maxSize (snd (lc_Get now now2 k c)) = lc_maxSize c"
proof -
  have "fst (lc_Get now now2 k c) = map_option fst (A k) \<and>
    tallies late (tally_get now2 k A) (snd (lc_Get now now2 k c)) \<and>
    lc_metrics (snd (lc_Get now now2 k c)) = (lc_metrics c)
      \<lparr> lm_TotalAccess := lm_TotalAccess (lc_metrics c) + 1,
        lm_Hits := lm_Hits (lc_metrics c) + (if A k = None then 0 else 1), lm_Misses := lm_Misses (lc_metrics c) + (if A k = None then 1 else 0) \<rparr> \<and>
    lc_maxSize (snd (lc_Get now now2 k c)) = lc_maxSize c"
  proof (cases "lc_data c k")
    case None
    then have "A k = None" using assms(1) unfolding tallies_def by (metis option.map_disc_iff)
    with None assms(1) show ?thesis by (simp add: lc_Get_def lc_recordMiss_def Let_def tally_get_def) (simp add: tallies_def)
  next
    case (Some item)
    then have "A k = Some (li_Value item, li_AccessCount item, li_LastAccess item)" "\<not> li_ExpiresAt item < now"
      using assms unfolding tallies_def by (metis option.map(2), fastforce)
    with Some assms(1) show ?thesis by (simp add: lc_Get_def lc_recordHit_def Let_def tally_get_def) (simp add: tallies_def)
  qed
  then show "fst (lc_Get now now2 k c) = map_option fst (A k)"
    "tallies late (tally_get now2 k A) (snd (lc_Get now now2 k c))"
    "lc_metrics (snd (lc_Get now now2 k c)) = (lc_metrics c)
       \<lparr> lm_TotalAccess := lm_TotalAccess (lc_metrics c) + 1,
         lm_Hits := lm_Hits (lc_metrics c) + (if A k = None then 0 else 1), lm_Misses := lm_Misses (lc_metrics c) + (if A k = None then 1 else 0) \<rparr>"
    "lc_maxSize (snd (lc_Get now now2 k c)) = lc_maxSize c" by blast+
qed

lemma tallies_Set:
  assumes "tallies late A c" "map_len A < lc_maxSize c" "late \<le> n2 + ttl"
  shows "tallies late (A(k \<mapsto> (v, 0, n3))) (lc_Set n1 n2 n3 order k v ttl c)" "lc_metrics (lc_Set n1 n2 n3 order k v ttl c) = lc_metrics c"
    "lc_maxSize (lc_Set n1 n2 n3 order k v ttl c) = lc_maxSize c"
proof -
  have "map_len (lc_data c) = map_len A" using tallies_dom [OF assms(1)] by (simp add: map_len_def)
  then show "tallies late (A(k \<mapsto> (v, 0, n3))) (lc_Set n1 n2 n3 order k v ttl c)" "lc_metrics (lc_Set n1 n2 n3 order k v ttl c) = lc_metrics c"
    "lc_maxSize (lc_Set n1 n2 n3 order k v ttl c) = lc_maxSize c"
    using assms by (auto simp: lc_Set_def tallies_def)
qed


lemma tallies_evict:
  assumes t: "tallies late A c" and full: "lc_maxSize c \<le> map_len A" and ord: "fair_order order" and ttl: "late \<le> n2 + ttl"
    and A: "finite (dom A)" "A [] = None" "A k0 = Some (v0, a0, t0)" "\<And>k v a t. A k = Some (v, a, t) \<Longrightarrow> k \<noteq> k0 \<Longrightarrow> t0 < t"
      "\<And>k v a t. A k = Some (v, a, t) \<Longrightarrow> t < n1"
  shows "tallies late (A(k0 := None, k \<mapsto> (v, 0, n3))) (lc_Set n1 n2 n3 order k v ttl c)"
proof -
  have dom: "dom (lc_data c) = dom A" by (rule tallies_dom [OF t])
  have at: "A k = Some (li_Value item, li_AccessCount item, li_LastAccess item)" if "lc_data c k = Some item" for k item
    using t that unfolding tallies_def by (metis option.map(2))
  have ne: "lc_data c \<noteq> Map.empty" "lc_data c [] = None" using dom A(2,3) by (auto simp: domIff)
  have la: "\<forall>k item. lc_data c k = Some item \<longrightarrow> li_LastAccess item < n1" using at A(5) by blast
  have fin: "finite (dom (lc_data c))" using A(1) dom by simp
  obtain k1 item1 where k1: "lc_data c k1 = Some item1" "\<And>k' item'. lc_data c k' = Some item' \<Longrightarrow> li_LastAccess item1 \<le> li_LastAccess item'"
    and ev: "evictLRU n1 order c = c\<lparr> lc_data := (lc_data c)(k1 := None),
       lc_metrics := (lc_metrics c)\<lparr> lm_Evictions := lm_Evictions (lc_metrics c) + 1 \<rparr> \<rparr>"
    using evictLRU_spec [OF fin ord ne la] by blast
  obtain item0 where i0: "lc_data c k0 = Some item0" using dom A(3) by (metis domD domI)
  have "k1 = k0"
    using at [OF i0] A(3) A(4) [OF at [OF k1(1)]] k1(2) [OF i0] by force
  moreover have "map_len (lc_data c) = map_len A" using dom by (simp add: map_len_def)
  ultimately show ?thesis
    using t full ttl by (simp add: lc_Set_def ev) (auto simp: tallies_def)
qed

fun tally_gets :: "readings_of \<Rightarrow> nat \<Rightarrow> string list \<Rightarrow> (string \<rightharpoonup> 'v \<times> int \<times> go_time) \<Rightarrow> (string \<rightharpoonup> 'v \<times> int \<times> go_time)" where
  "tally_gets clk i [] A = A"
| "tally_gets clk i (k # ks) A = tally_gets clk (Suc i) ks (tally_get (clk i 1) k A)"

fun tally_puts :: "readings_of \<Rightarrow> nat \<Rightarrow> (string \<times> 'v \<times> duration) list \<Rightarrow> (string \<rightharpoonup> 'v \<times> int \<times> go_time) \<Rightarrow> (string \<rightharpoonup> 'v \<times> int \<times> go_time)" where
  "tally_puts clk i [] A = A"
| "tally_puts clk i ((k, v, ttl) # kvs) A = tally_puts clk (Suc i) kvs (A(k \<mapsto> (v, 0, clk i 2)))"

lemma tally_get_values: "map_option fst (tally_get now k A k') = map_option fst (A k')" "tally_get now k A k' = None \<longleftrightarrow> A k' = None"
  by (auto simp: tally_get_def split: option.splits)

lemma tallies_gets:
  assumes "tallies late A c" "\<forall>i j. clk i j \<le> late"
  shows "fst (lc_gets clk i ks c) = map (\<lambda>k. map_option fst (A k)) ks \<and> tallies late (tally_gets clk i ks A) (snd (lc_gets clk i ks c)) \<and>
    lc_metrics (snd (lc_gets clk i ks c)) = (lc_metrics c)
      \<lparr> lm_TotalAccess := lm_TotalAccess (lc_metrics c) + int (length ks),
        lm_Hits := lm_Hits (lc_metrics c) + int (length (filter (\<lambda>k. A k \<noteq> None) ks)),
        lm_Misses := lm_Misses (lc_metrics c) + int (length (filter (\<lambda>k. A k = None) ks)) \<rparr>"
  using assms(1)
proof (induction ks arbitrary: i A c)
  case (Cons k ks)
  note g = tallies_Get [OF Cons.prems, where now = "clk i 0" and ?now2.0 = "clk i 1" and k = k]
  have "clk i 0 \<le> late" using assms(2) by blast
  with g Cons.IH [of "tally_get (clk i 1) k A" "snd (lc_Get (clk i 0) (clk i 1) k c)" "Suc i"] show ?case
    by (simp add: case_prod_beta tally_get_values)
qed simp

lemma tallies_puts:
  assumes "tallies late A c" "\<forall>(k, v, ttl) \<in> set kvs. \<forall>i. late \<le> clk i 1 + ttl" "finite (dom A)" "map_len A + int (length kvs) \<le> lc_maxSize c"
  shows "tallies late (tally_puts clk i kvs A) (lc_puts clk order i kvs c) \<and> lc_metrics (lc_puts clk order i kvs c) = lc_metrics c \<and>
    lc_maxSize (lc_puts clk order i kvs c) = lc_maxSize c"
  using assms
proof (induction kvs arbitrary: i A c)
  case (Cons kv kvs)
  obtain k v ttl where kv: "kv = (k, v, ttl)" by (cases kv) auto
  have "map_len A < lc_maxSize c" "late \<le> clk i 1 + ttl" using Cons.prems(2,4) by (auto simp: kv)
  note s = tallies_Set [OF Cons.prems(1) this, where k = k and v = v and ?n3.0 = "clk i 2" and ?n1.0 = "clk i 0" and order = order]
  define A1 where "A1 = A(k \<mapsto> (v, 0, clk i 2))"
  have A1: "finite (dom A1)" "map_len A1 \<le> map_len A + 1" using Cons.prems(3) by (simp_all add: A1_def map_len_def card_insert_if)
  have tail: "\<forall>(k, v, ttl) \<in> set kvs. \<forall>i. late \<le> clk i 1 + ttl" using Cons.prems(2) by simp
  have "map_len A1 + int (length kvs) \<le> lc_maxSize (lc_Set (clk i 0) (clk i 1) (clk i 2) order k v ttl c)" using A1(2) Cons.prems(4) s(3) by simp
  from Cons.IH [OF s(1) [folded A1_def] tail A1(1) this, of "Suc i"] s(2,3) show ?case
    unfolding kv lc_puts.simps tally_puts.simps A1_def [symmetric] by simp
qed simp

text \<open>A sorted list begins with the entries that are strictly largest.\<close>

lemma take_largest:
  assumes "sorted_wrt (\<lambda>x y. snd x \<ge> snd y) xs" "mset xs = mset (ys @ zs)" "sorted_wrt (\<lambda>x y. snd x > snd y) ys"
    and "\<forall>y \<in> set ys. \<forall>z \<in> set zs. snd z < (snd y :: int)"
  shows "take (length ys) xs = ys"
  using assms
proof (induction ys arbitrary: xs)
  case (Cons y ys)
  obtain x xs' where xs: "xs = x # xs'" using Cons.prems(2) by (cases xs) auto
  have "y \<in> set xs" using Cons.prems(2) by (metis append_Cons list.set_intros(1) set_mset_mset)
  then have "snd y \<le> snd x" using Cons.prems(1) by (auto simp: xs)
  moreover have "x \<in> set ((y # ys) @ zs)" using Cons.prems(2) xs by (metis list.set_intros(1) set_mset_mset)
  ultimately have "x = y" using Cons.prems(3,4) by auto
  moreover have "take (length ys) xs' = ys" using Cons.prems \<open>x = y\<close> by (intro Cons.IH) (auto simp: xs)
  ultimately show ?case by (simp add: xs)
qed simp

lemma top_tallies:
  assumes "tallies late A c" "is_order (lc_data c) ks" "distinct keys" "set keys = dom A"
    and "map (\<lambda>k. (k, fst (snd (the (A k))))) keys = ys @ zs" "sorted_wrt (\<lambda>x y. snd x > snd y) ys"
    "\<forall>y \<in> set ys. \<forall>z \<in> set zs. snd z < snd y" "limit = int (length ys)"
  shows "GetTopKeys ks limit c = Some ys"
proof -
  let ?f = "\<lambda>k. (k, fst (snd (the (A k))))" let ?l = "List.map_filter (\<lambda>k. map_option (\<lambda>item. (k, li_AccessCount item)) (lc_data c k)) ks"
  have dom: "set ks = dom A" "distinct ks" using assms(2) tallies_dom [OF assms(1)] by (simp_all add: is_order_def)
  have at: "A k = Some (li_Value item, li_AccessCount item, li_LastAccess item)" if "lc_data c k = Some item" for k item
    using assms(1) that unfolding tallies_def by (metis option.map(2))
  have l: "?l = map ?f ks"
  proof -
    have "lc_data c k \<noteq> None" if "k \<in> set ks" for k using that dom tallies_dom [OF assms(1)] by auto
    then show ?thesis using at by (induction ks) (auto simp: map_filter_simps split: option.splits)
  qed
  have "mset ks = mset keys" using dom assms(3,4) set_eq_iff_mset_eq_distinct [of ks keys] by simp
  then have "mset ?l = mset (ys @ zs)" unfolding l assms(5) [symmetric] by simp
  then have "mset (exchange_sort ?l) = mset (ys @ zs)" using exchange_sort_sorts [of ?l] by simp
  from take_largest [OF conjunct2 [OF exchange_sort_sorts] this assms(6,7)] show ?thesis
    by (simp add: GetTopKeys_def assms(8))
qed

theorem local_demo:
  assumes order: "fair_order order" and window: "\<forall>i j. start \<le> clk i j \<and> clk i j \<le> start + minutes 5"
    and later: "\<And>i j i' j'. i < i' \<Longrightarrow> clk i j < clk i' j'"
  shows "DemoLocalCache clk order zhang li wang =
    ((5, [Some zhang, Some li, None, Some ''iPhone 15''],
      \<lparr> lm_Hits = 3, lm_Misses = 1, lm_Evictions = 0, lm_TotalAccess = 4 \<rparr>, 3 / 4, Some [(''user:1'', 11), (''product:1'', 6), (''user:2'', 1)]),
     3, 3, [None, Some ''value_b'', Some ''value_c'', Some ''value_d''])"
proof -
  let ?late = "start + minutes 5"
  have le: "\<forall>i j. clk i j \<le> ?late" using window by blast
  have live: "start \<le> clk i (Suc 0)" "?late \<le> clk i (Suc 0) + minutes 10" for i
    using spec [OF spec [OF window], of i 1] by (simp_all add: minutes_def)
  have ttl: "\<forall>(k, v, ttl) \<in> set (local_data zhang li wang). \<forall>i. ?late \<le> clk i 1 + ttl"
    "\<forall>(k, v, ttl) \<in> set small_data. \<forall>i. ?late \<le> clk i 1 + ttl"
    by (simp_all add: local_data_def small_data_def live)
  have empty: "finite (dom Map.empty)" by simp
  define c where "c = lc_puts clk order 0 (local_data zhang li wang) (NewLocalCache 100)"
  define c1 where "c1 = snd (lc_gets clk 5 [''user:1'', ''user:2'', ''user:999'', ''product:1''] c)"
  define c2 where "c2 = snd (lc_gets clk 9 (replicate 10 ''user:1'') c1)"
  define c3 where "c3 = snd (lc_gets clk 19 (replicate 5 ''product:1'') c2)"
  have c: "tallies ?late (tally_puts clk 0 (local_data zhang li wang) Map.empty) c" "lc_metrics c = lc_metrics (NewLocalCache 100 :: string local_cache)"
    unfolding c_def
    using tallies_puts [where A = Map.empty and clk = clk, OF tallies_New ttl(1) empty, of 100 0 order] by (simp_all add: NewLocalCache_def local_data_def map_len_def)
  note g1 = tallies_gets [OF c(1) le, of 5 "[''user:1'', ''user:2'', ''user:999'', ''product:1'']", folded c1_def]
  note g2 = tallies_gets [OF conjunct1 [OF conjunct2 [OF g1]] le, of 9 "replicate 10 ''user:1''", folded c2_def]
  note g3 = tallies_gets [OF conjunct1 [OF conjunct2 [OF g2]] le, of 19 "replicate 5 ''product:1''", folded c3_def]
  let ?A3 = "tally_gets clk 19 (replicate 5 ''product:1'') (tally_gets clk 9 (replicate 10 ''user:1'')
    (tally_gets clk 5 [''user:1'', ''user:2'', ''user:999'', ''product:1''] (tally_puts clk 0 (local_data zhang li wang) Map.empty)))"
  have A3: "?A3 = [''user:1'' \<mapsto> (zhang, 11, clk 18 1), ''user:2'' \<mapsto> (li, 1, clk 6 1), ''user:3'' \<mapsto> (wang, 0, clk 2 2),
      ''product:1'' \<mapsto> (''iPhone 15'', 6, clk 23 1), ''product:2'' \<mapsto> (''MacBook Pro'', 0, clk 4 2)]"
    by (simp add: local_data_def tally_get_def numeral_eq_Suc fun_eq_iff)
  have "tallies ?late ?A3 c3" using g3 by blast
  note c3 = this [unfolded A3]
  have "finite (dom (lc_data c3))" unfolding tallies_dom [OF c3] by simp
  then have "is_order (lc_data c3) (order (lc_data c3))" using order by (rule fair_orderD [rotated])
  have "GetTopKeys (order (lc_data c3)) 3 c3 = Some [(''user:1'', 11), (''product:1'', 6), (''user:2'', 1)]"
    by (rule top_tallies [OF c3 \<open>is_order _ _\<close>, of "[''user:1'', ''product:1'', ''user:2'', ''user:3'', ''product:2'']" _ "[(''user:3'', 0), (''product:2'', 0)]"])
      auto
  moreover have "lc_Size c = 5"
    unfolding lc_Size_def map_len_def tallies_dom [OF c(1)] by (simp add: local_data_def)
  moreover have "fst (lc_gets clk 5 [''user:1'', ''user:2'', ''user:999'', ''product:1''] c) = [Some zhang, Some li, None, Some ''iPhone 15'']"
    using g1 by (simp add: local_data_def)
  moreover have m1: "lc_metrics c1 = \<lparr> lm_Hits = 3, lm_Misses = 1, lm_Evictions = 0, lm_TotalAccess = 4 \<rparr>"
    using g1 c(2) by (simp add: local_data_def NewLocalCache_def)
  moreover have "lc_GetHitRate c1 = 3 / 4" by (simp add: lc_GetHitRate_def m1)
  moreover define d where "d = lc_puts clk order 24 small_data (NewLocalCache 3)"
  moreover define d1 where "d1 = lc_puts clk order 27 [(''d'', ''value_d'', minutes 5)] d"
  have d: "tallies ?late (tally_puts clk 24 small_data Map.empty) d" "lc_maxSize d = 3"
    unfolding d_def using tallies_puts [where A = Map.empty and clk = clk, OF tallies_New ttl(2) empty, of 3 24 order]
    by (simp_all add: NewLocalCache_def small_data_def map_len_def)
  let ?B = "[''a'' \<mapsto> (''value_a'', 0, clk 24 2), ''b'' \<mapsto> (''value_b'', 0, clk 25 2), ''c'' \<mapsto> (''value_c'', 0, clk 26 2)] :: string \<rightharpoonup> string \<times> int \<times> go_time"
  have B: "tally_puts clk 24 small_data Map.empty = ?B" by (simp add: small_data_def)
  have d1: "tallies ?late (?B(''a'' := None, ''d'' \<mapsto> (''value_d'', 0, clk 27 2))) d1"
    unfolding d1_def lc_puts.simps
  proof (rule tallies_evict [OF d(1) [unfolded B] _ order])
    show "lc_maxSize d \<le> map_len ?B" by (simp add: d(2) map_len_def)
    show "?late \<le> clk 27 1 + minutes 5" using live(1) by simp
    show "t < clk 27 0" if "?B k = Some (v, a, t)" for k v a t
      using that later [of 24 27 2 0] later [of 25 27 2 0] later [of 26 27 2 0] by (auto split: if_splits)
    show "clk 24 2 < t" if "?B k = Some (v, a, t)" "k \<noteq> ''a''" for k v a t
      using that later [of 24 25 2 2] later [of 24 26 2 2] by (auto split: if_splits)
  qed simp_all
  moreover have "lc_Size d = 3" unfolding lc_Size_def map_len_def tallies_dom [OF d(1)] B by simp
  moreover have "lc_Size d1 = 3" unfolding lc_Size_def map_len_def tallies_dom [OF d1] by simp
  moreover have "fst (lc_gets clk 28 [''a'', ''b'', ''c'', ''d''] d1) = [None, Some ''value_b'', Some ''value_c'', Some ''value_d'']"
    using tallies_gets [OF d1 le, of 28 "[''a'', ''b'', ''c'', ''d'']"] by simp
  ultimately show ?thesis
    unfolding DemoLocalCache_def Let_def case_prod_beta c_def [symmetric] c1_def [symmetric] c2_def [symmetric] c3_def [symmetric]
      lc_GetMetrics_def d_def [symmetric] d1_def [symmetric] by simp
qed


section \<open>The distributed cache\<close>

text \<open>One network call, whatever the number of items; each item is counted.\<close>

lemma MSet_spec:
  assumes "is_order items ks"
  shows "MSet now ks items ttl rc = rc
    \<lparr> rc_data := rc_data rc ++ (\<lambda>k. map_option (\<lambda>v. \<lparr> ri_Value = v, ri_ExpiresAt = now + ttl, ri_CreatedAt = now \<rparr>) (items k)),
      rc_metrics := (rc_metrics rc)\<lparr> rm_Sets := rm_Sets (rc_metrics rc) + map_len items,
        NetworkCalls := NetworkCalls (rc_metrics rc) + 1, TotalLatency := TotalLatency (rc_metrics rc) + rc_latency rc \<rparr> \<rparr>"
proof -
  have loop: "fold (mset_step now ttl items) ks rc = rc
    \<lparr> rc_data := rc_data rc ++ (\<lambda>k. if k \<in> set ks then map_option (\<lambda>v. \<lparr> ri_Value = v, ri_ExpiresAt = now + ttl, ri_CreatedAt = now \<rparr>) (items k) else None),
      rc_metrics := (rc_metrics rc)\<lparr> rm_Sets := rm_Sets (rc_metrics rc) + int (length ks) \<rparr> \<rparr>"
    if "distinct ks" "set ks \<subseteq> dom items" for ks rc
    using that
  proof (induction ks arbitrary: rc)
    case Nil
    show ?case by (simp add: map_add_def)
  next
    case (Cons k ks)
    obtain v where v: "items k = Some v" using Cons.prems by auto
    show ?case
      using Cons by (simp add: mset_step_def v recordSet_def rc_count_def) (auto simp: map_add_def fun_eq_iff v split: option.splits)
  qed
  have "(\<lambda>k. if k \<in> set ks then map_option (\<lambda>v. \<lparr> ri_Value = v, ri_ExpiresAt = now + ttl, ri_CreatedAt = now \<rparr>) (items k) else None) =
      (\<lambda>k. map_option (\<lambda>v. \<lparr> ri_Value = v, ri_ExpiresAt = now + ttl, ri_CreatedAt = now \<rparr>) (items k))"
    using assms by (auto simp: is_order_def fun_eq_iff domIff)
  with loop [of ks] assms show ?thesis
    by (simp add: MSet_def is_order_def rc_counters map_len_def distinct_card [symmetric])
qed

lemma rc_puts_spec:
  "rc_puts clk i ttl kvs rc = rc
    \<lparr> rc_data := rc_data (rc_puts clk i ttl kvs rc),
      rc_metrics := (rc_metrics rc)\<lparr> rm_Sets := rm_Sets (rc_metrics rc) + int (length kvs),
        NetworkCalls := NetworkCalls (rc_metrics rc) + int (length kvs),
        TotalLatency := TotalLatency (rc_metrics rc) + int (length kvs) * rc_latency rc \<rparr> \<rparr>"
proof (induction kvs arbitrary: i rc)
  case (Cons kv kvs)
  show ?case
    by (cases kv; simp; subst Cons.IH) (simp add: rc_Set_def rc_counters Let_def algebra_simps)
qed simp

theorem distributed_demo:
  assumes order: "fair_order order" and window: "\<forall>i j. start \<le> clk i j \<and> clk i j < start + minutes 5"
    and pause: "clk 5 0 \<le> clk 6 0" "clk 6 0 \<le> clk 4 0 + 3 * 10 ^ 9"
  shows "DemoDistributedCache clk order zhang temporary =
    (Some zhang, 3, clk 4 0 + 3 * 10 ^ 9 - clk 5 0, clk 4 0 + 3 * 10 ^ 9 - clk 6 0,
     \<lparr> rm_Hits = 4, rm_Misses = 1, rm_Sets = 17, rm_Deletes = 0, NetworkCalls = 13, TotalLatency = 26 * 10 ^ 6 \<rparr>, 4 / 5, 2 * 10 ^ 6)"
proof -
  have "finite (dom batch_data)" "finite (dom (map_of (numbered_data ''batch:'')))" by (simp_all add: batch_data_def finite_dom_map_of)
  note ord = fair_orderD [OF order this(1)] fair_orderD [OF order this(2)]
  have batch: "map_len batch_data = 5" "map_len (map_of (numbered_data ''batch:'')) = 5"
    by (simp add: map_len_def batch_data_def) (simp add: map_len_def dom_map_of_conv_image_fst numbered_data_def upt_rec card_insert_if)
  have t: "clk 1 0 \<le> clk 0 0 + minutes 10" "clk 3 0 < clk 2 0 + minutes 15"
    using window [rule_format, of 0 0] window [rule_format, of 1 0] window [rule_format, of 2 0] window [rule_format, of 3 0]
    by (simp_all add: minutes_def)
  define c2 where "c2 = snd (rc_Get (clk 1 0) ''user:1'' (rc_Set (clk 0 0) (clk 0 1) ''user:1'' zhang (minutes 10) (rc_New (2 * 10 ^ 6))))"
  define c3 where "c3 = MSet (clk 2 0) (order batch_data) batch_data (minutes 15) c2"
  define c4 where "c4 = snd (MGet (clk 3 0) [''product:1'', ''product:2'', ''product:3'', ''product:999''] c3)"
  define c5 where "c5 = rc_Set (clk 4 0) (clk 4 1) ''temp:1'' temporary (3 * 10 ^ 9) c4"
  define c6 where "c6 = snd (rc_TTL (clk 5 0) ''temp:1'' c5)"
  define c7 where "c7 = snd (rc_TTL (clk 6 0) ''temp:1'' c6)"
  define c8 where "c8 = rc_puts clk 7 (minutes 10) (numbered_data ''single:'') c7"
  define c9 where "c9 = MSet (clk 12 0) (order (map_of (numbered_data ''batch:''))) (map_of (numbered_data ''batch:'')) (minutes 10) c8"
  have first: "fst (rc_Get (clk 1 0) ''user:1'' (rc_Set (clk 0 0) (clk 0 1) ''user:1'' zhang (minutes 10) (rc_New (2 * 10 ^ 6)))) = Some zhang"
    using t(1) by (simp add: rc_Get_def rc_Set_def rc_New_def rc_counters Let_def)
  have c2: "rc_metrics c2 = \<lparr> rm_Hits = 1, rm_Misses = 0, rm_Sets = 1, rm_Deletes = 0, NetworkCalls = 2, TotalLatency = 4 * 10 ^ 6 \<rparr>"
    "rc_latency c2 = 2 * 10 ^ 6" "\<And>k. k \<noteq> ''user:1'' \<Longrightarrow> rc_data c2 k = None"
    using t(1) by (simp_all add: c2_def rc_Get_def rc_Set_def rc_New_def rc_counters Let_def)
  have c3: "rc_metrics c3 = \<lparr> rm_Hits = 1, rm_Misses = 0, rm_Sets = 6, rm_Deletes = 0, NetworkCalls = 3, TotalLatency = 6 * 10 ^ 6 \<rparr>"
    "rc_latency c3 = 2 * 10 ^ 6" "\<And>k v. batch_data k = Some v \<Longrightarrow> rc_data c3 k = Some \<lparr> ri_Value = v, ri_ExpiresAt = clk 2 0 + minutes 15, ri_CreatedAt = clk 2 0 \<rparr>"
    "rc_data c3 ''product:999'' = None"
    by (simp_all add: c3_def MSet_spec [OF ord(1)] batch(1) c2(1,2) map_add_def) (simp add: batch_data_def c2(3))
  have d3: "rc_data c3 ''product:1'' = Some \<lparr> ri_Value = ''iPhone 15'', ri_ExpiresAt = clk 2 0 + minutes 15, ri_CreatedAt = clk 2 0 \<rparr>"
    "rc_data c3 ''product:2'' = Some \<lparr> ri_Value = ''MacBook Pro'', ri_ExpiresAt = clk 2 0 + minutes 15, ri_CreatedAt = clk 2 0 \<rparr>"
    "rc_data c3 ''product:3'' = Some \<lparr> ri_Value = ''iPad Air'', ri_ExpiresAt = clk 2 0 + minutes 15, ri_CreatedAt = clk 2 0 \<rparr>"
    by (rule c3(3); simp add: batch_data_def)+
  have found: "map_len (fst (MGet (clk 3 0) [''product:1'', ''product:2'', ''product:3'', ''product:999''] c3)) = 3"
    using t(2) by (simp add: MGet_def mget_step_def rc_counters d3 c3(4) map_len_def)
  have c4: "rc_metrics c4 = \<lparr> rm_Hits = 4, rm_Misses = 1, rm_Sets = 6, rm_Deletes = 0, NetworkCalls = 4, TotalLatency = 8 * 10 ^ 6 \<rparr>"
    "rc_latency c4 = 2 * 10 ^ 6"
    using t(2) by (simp_all add: c4_def MGet_def mget_step_def rc_counters d3 c3)
  have c5: "rc_metrics c5 = \<lparr> rm_Hits = 4, rm_Misses = 1, rm_Sets = 7, rm_Deletes = 0, NetworkCalls = 5, TotalLatency = 10 * 10 ^ 6 \<rparr>"
    "rc_latency c5 = 2 * 10 ^ 6" "rc_data c5 ''temp:1'' = Some \<lparr> ri_Value = temporary, ri_ExpiresAt = clk 4 0 + 3 * 10 ^ 9, ri_CreatedAt = clk 4 1 \<rparr>"
    by (simp_all add: c5_def rc_Set_def rc_counters c4 Let_def)
  have c6: "rc_metrics c6 = \<lparr> rm_Hits = 4, rm_Misses = 1, rm_Sets = 7, rm_Deletes = 0, NetworkCalls = 6, TotalLatency = 12 * 10 ^ 6 \<rparr>"
    "rc_latency c6 = 2 * 10 ^ 6" "rc_data c6 = rc_data c5" "fst (rc_TTL (clk 5 0) ''temp:1'' c5) = clk 4 0 + 3 * 10 ^ 9 - clk 5 0"
    using pause by (simp_all add: c6_def rc_TTL_def rc_counters c5 Let_def)
  have c7: "rc_metrics c7 = \<lparr> rm_Hits = 4, rm_Misses = 1, rm_Sets = 7, rm_Deletes = 0, NetworkCalls = 7, TotalLatency = 14 * 10 ^ 6 \<rparr>"
    "rc_latency c7 = 2 * 10 ^ 6" "fst (rc_TTL (clk 6 0) ''temp:1'' c6) = clk 4 0 + 3 * 10 ^ 9 - clk 6 0"
    using pause by (simp_all add: c7_def rc_TTL_def rc_counters c6 c5 Let_def)
  have "length (numbered_data ''single:'') = 5" by (simp add: numbered_data_def)
  note puts = rc_puts_spec [of clk 7 "minutes 10" "numbered_data ''single:''" c7, unfolded this, folded c8_def]
  have c8: "rc_metrics c8 = \<lparr> rm_Hits = 4, rm_Misses = 1, rm_Sets = 12, rm_Deletes = 0, NetworkCalls = 12, TotalLatency = 24 * 10 ^ 6 \<rparr>"
    "rc_latency c8 = 2 * 10 ^ 6"
    by (subst puts, simp add: c7)+
  have c9: "rc_metrics c9 = \<lparr> rm_Hits = 4, rm_Misses = 1, rm_Sets = 17, rm_Deletes = 0, NetworkCalls = 13, TotalLatency = 26 * 10 ^ 6 \<rparr>"
    by (simp add: c9_def MSet_spec [OF ord(2)] batch(2) c8)
  show ?thesis
    unfolding DemoDistributedCache_def Let_def case_prod_beta c2_def [symmetric] first c3_def [symmetric] c4_def [symmetric] found c5_def [symmetric]
      c6_def [symmetric] c6(4) c7_def [symmetric] c7(3) c8_def [symmetric] c9_def [symmetric]
    by (simp add: rc_GetMetrics_def rc_GetHitRate_def GetAverageLatency_def c9)
qed

end
