(* ===== verification/Interview.thy ===== *)
theory Interview
  imports Http "HOL-Library.Sublist"
begin

text \<open>
  \<open>tutorial/06-interview/simulator.go\<close>: the interview simulator, a state machine over the lines that are typed. The bank of
  questions is an argument. After the last line \<open>ReadString\<close> returns the empty string over and over, because its error is
  ignored; the loops are partial functions whose \<open>None\<close> means that they run forever. White space and letters outside ASCII are
  neither trimmed nor folded.
\<close>

record question =
  q_ID :: int
  q_Question :: string
  q_Difficulty :: string
  q_Category :: string
  q_Keywords :: "string list"
  q_Answer :: string
  q_Tips :: "string list"

record simulator =
  questions :: "question list"
  score :: int
  is_total :: int

definition NewInterviewSimulator :: "question list \<Rightarrow> simulator" where
  "NewInterviewSimulator bank = \<lparr> questions = bank, score = 0, is_total = 0 \<rparr>"

section \<open>Strings\<close>

definition white :: "char \<Rightarrow> bool" where
  "white c \<longleftrightarrow> byte_in c 9 13 \<or> byte_in c 32 32"

definition TrimSpace :: "string \<Rightarrow> string" where
  "TrimSpace s = rev (dropWhile white (rev (dropWhile white s)))"

definition ToLower :: "string \<Rightarrow> string" where
  "ToLower s = map lower_char s"

section \<open>Evaluation\<close>

datatype rating = Outstanding | Satisfying | NeedsImprovement | KeepGoing

definition final_rating :: "int \<Rightarrow> int \<Rightarrow> rating" where
  "final_rating right all =
     (let percentage = (of_int right / of_int all * 100 :: rat) in
      if percentage \<ge> 80 then Outstanding else if percentage \<ge> 60 then Satisfying
      else if percentage \<ge> 40 then NeedsImprovement else KeepGoing)"

datatype shown = Asked question | Hints question | StandardAnswer question | SkippedIt | Graded bool nat question | FinalScore int int rating

text \<open>Keywords that occur in the answer; with at least sixty per cent of them the answer counts as right. The share of an empty
  list of keywords is not a number.\<close>

definition keyword_hits :: "question \<Rightarrow> string \<Rightarrow> nat" where
  "keyword_hits q userAnswer = length (filter (\<lambda>k. sublist (ToLower k) (ToLower userAnswer)) (q_Keywords q))"

definition passes :: "question \<Rightarrow> string \<Rightarrow> bool" where
  "passes q userAnswer \<longleftrightarrow>
     q_Keywords q \<noteq> [] \<and> (of_nat (keyword_hits q userAnswer) / of_nat (length (q_Keywords q)) * 100 :: rat) \<ge> 60"

definition evaluateAnswer :: "question \<Rightarrow> string \<Rightarrow> simulator \<Rightarrow> shown list \<times> simulator" where
  "evaluateAnswer q userAnswer s =
     (if userAnswer = [] then ([SkippedIt], s)
      else if passes q userAnswer then ([Graded True (keyword_hits q userAnswer) q], s\<lparr> score := score s + 1 \<rparr>)
      else ([Graded False (keyword_hits q userAnswer) q], s))"

text \<open>Ratings from the worst to the best; more right answers never give a worse one.\<close>

instantiation rating :: linorder
begin

fun rating_rank :: "rating \<Rightarrow> nat" where
  "rating_rank KeepGoing = 0"
| "rating_rank NeedsImprovement = 1"
| "rating_rank Satisfying = 2"
| "rating_rank Outstanding = 3"

definition less_eq_rating :: "rating \<Rightarrow> rating \<Rightarrow> bool" where
  "less_eq_rating r r' \<longleftrightarrow> rating_rank r \<le> rating_rank r'"

definition less_rating :: "rating \<Rightarrow> rating \<Rightarrow> bool" where
  "less_rating r r' \<longleftrightarrow> rating_rank r < rating_rank r'"

instance
proof
  fix x y :: rating
  show "x = y" if "x \<le> y" "y \<le> x" using that by (cases x; cases y) (simp_all add: less_eq_rating_def)
qed (auto simp: less_eq_rating_def less_rating_def)

end

lemma final_rating_mono:
  assumes "right \<le> right'" "0 < all"
  shows "final_rating right all \<le> final_rating right' all"
proof -
  have "(of_int right / of_int all * 100 :: rat) \<le> of_int right' / of_int all * 100"
    using assms by (intro mult_right_mono divide_right_mono) simp_all
  then show ?thesis by (auto simp: final_rating_def Let_def less_eq_rating_def)
qed

definition showFinalScore :: "simulator \<Rightarrow> shown" where
  "showFinalScore s = FinalScore (is_total s) (score s) (final_rating (score s) (is_total s))"

text \<open>\<open>rand.Intn(n)\<close> is a number below \<open>n\<close>, and a panic when \<open>n\<close> is not positive.\<close>

definition getRandomQuestion :: "nat \<Rightarrow> simulator \<Rightarrow> question option" where
  "getRandomQuestion r s = (if questions s = [] then None else Some (questions s ! (r mod length (questions s))))"

section \<open>The dialogue\<close>

definition ReadString :: "string list \<Rightarrow> string \<times> string list" where
  "ReadString ls = (case ls of [] \<Rightarrow> ([], []) | l # ls' \<Rightarrow> (l, ls'))"

datatype outcome = Next | Quit

text \<open>The inner loop: the lines for one question.\<close>

partial_function (option) answer_loop ::
  "question \<Rightarrow> string list \<Rightarrow> simulator \<Rightarrow> shown list \<Rightarrow> (outcome \<times> string list \<times> simulator \<times> shown list) option" where
  "answer_loop q ls s out =
     (case ReadString ls of (line, ls1) \<Rightarrow>
      let input = TrimSpace line in
      if ToLower input = ''hint'' then answer_loop q ls1 s (out @ [Hints q])
      else if ToLower input = ''answer'' then answer_loop q ls1 s (out @ [StandardAnswer q])
      else if ToLower input = ''next'' then
        (case evaluateAnswer q [] s of (o1, s1) \<Rightarrow> Some (Next, ls1, s1, out @ o1))
      else if ToLower input = ''quit'' then Some (Quit, ls1, s, out @ [showFinalScore s])
      else if length input > 10 then
        (case evaluateAnswer q input s of (o1, s1) \<Rightarrow> Some (Next, ls1, s1, out @ o1))
      else answer_loop q ls1 s out)"

text \<open>The outer loop: at most five questions. \<open>rs\<close> yields the random numbers.\<close>

partial_function (option) StartInterview ::
  "(nat \<Rightarrow> nat) \<Rightarrow> string list \<Rightarrow> simulator \<Rightarrow> shown list \<Rightarrow> (simulator \<times> shown list) option" where
  "StartInterview rs ls s out = do {
     q \<leftarrow> getRandomQuestion (rs 0) s;
     let s1 = s\<lparr> is_total := is_total s + 1 \<rparr>;
     (what, ls1, s2, out1) \<leftarrow> answer_loop q ls s1 (out @ [Asked q]);
     case what of
       Quit \<Rightarrow> Some (s2, out1)
     | Next \<Rightarrow>
         if is_total s2 \<ge> 5 then Some (s2, out1 @ [showFinalScore s2])
         else StartInterview (\<lambda>i. rs (Suc i)) ls1 s2 out1
   }"

section \<open>The question bank on display\<close>

definition count_by :: "(question \<Rightarrow> string) \<Rightarrow> question list \<Rightarrow> (string \<rightharpoonup> int)" where
  "count_by f qs = fold (\<lambda>q m. m(f q \<mapsto> (case m (f q) of None \<Rightarrow> 0 | Some c \<Rightarrow> c) + 1)) qs Map.empty"

text \<open>The counts by difficulty and by category, and three examples; slicing a shorter bank panics.\<close>

definition DemoInterviewQuestions :: "question list \<Rightarrow> ((string \<rightharpoonup> int) \<times> (string \<rightharpoonup> int) \<times> question list) option" where
  "DemoInterviewQuestions bank =
     (let simulator = NewInterviewSimulator bank in
      if length (questions simulator) < 3 then None
      else Some (count_by q_Difficulty (questions simulator), count_by q_Category (questions simulator), take 3 (questions simulator)))"

text \<open>
  \<open>main\<close> and \<open>StartInterview\<close> make a reader of their own on the standard input: what the first has buffered beyond its line is
  lost to the second. \<open>unread\<close> gives what is left of the input after the first buffer has been filled; at a terminal, which
  delivers a line at a time, it is the identity.
\<close>

definition simulator_main ::
  "(string list \<Rightarrow> string list) \<Rightarrow> question list \<Rightarrow> (nat \<Rightarrow> nat) \<Rightarrow> string list \<Rightarrow> (simulator \<times> shown list) option option" where
  "simulator_main unread bank rs ls =
     (case ReadString ls of (line, ls1) \<Rightarrow>
      let input = TrimSpace (ToLower line) in
      if input = ''y'' \<or> input = ''yes'' then map_option Some (StartInterview rs (unread ls1) (NewInterviewSimulator bank) [])
      else Some None)"

section \<open>When it ends, and with which score\<close>

text \<open>The lines that end a question.\<close>

definition decisive :: "string \<Rightarrow> bool" where
  "decisive line \<longleftrightarrow> (let input = TrimSpace line in ToLower input \<notin> {''hint'', ''answer''} \<and>
     (ToLower input \<in> {''next'', ''quit''} \<or> length input > 10))"

definition quits :: "string \<Rightarrow> bool" where
  "quits line \<longleftrightarrow> ToLower (TrimSpace line) = ''quit''"

lemma answer_loop_eof: "answer_loop q [] s out = None"
proof -
  let ?P = "\<lambda>(q :: question) (ls :: string list) (s :: simulator) (out :: shown list) (r :: outcome \<times> string list \<times> simulator \<times> shown list). ls \<noteq> []"
  have "False" if r: "answer_loop q [] s out = Some r" for r
  proof -
    have "?P q [] s out r"
    proof (rule answer_loop.raw_induct [where P = ?P, OF _ r])
      fix f and q :: question and ls :: "string list" and s :: simulator and out :: "shown list"
        and r :: "outcome \<times> string list \<times> simulator \<times> shown list"
      assume ih: "\<And>q ls s out r. f q ls s out = Some r \<Longrightarrow> ls \<noteq> []"
        and eq: "(case ReadString ls of (line, ls1) \<Rightarrow>
        let input = TrimSpace line in
        if ToLower input = ''hint'' then f q ls1 s (out @ [Hints q])
        else if ToLower input = ''answer'' then f q ls1 s (out @ [StandardAnswer q])
        else if ToLower input = ''next'' then
          (case evaluateAnswer q [] s of (o1, s1) \<Rightarrow> Some (Next, ls1, s1, out @ o1))
        else if ToLower input = ''quit'' then Some (Quit, ls1, s, out @ [showFinalScore s])
        else if length input > 10 then
          (case evaluateAnswer q input s of (o1, s1) \<Rightarrow> Some (Next, ls1, s1, out @ o1))
        else f q ls1 s out) = Some r"
      show "ls \<noteq> []"
      proof
        assume "ls = []"
        then have "f q [] s out = Some r" using eq by (simp add: ReadString_def TrimSpace_def ToLower_def)
        from ih [OF this] show False by simp
      qed
    qed
    then show False by simp
  qed
  then show ?thesis by (cases "answer_loop q [] s out") auto
qed

text \<open>One question takes the lines up to the first decisive one.\<close>

lemma answer_loop_lines:
  "case dropWhile (\<lambda>l. \<not> decisive l) ls of
     [] \<Rightarrow> answer_loop q ls s out = None
   | l # ls1 \<Rightarrow> \<exists>out1 s1. answer_loop q ls s out = Some (if quits l then Quit else Next, ls1, s1, out1) \<and>
       is_total s1 = is_total s \<and> questions s1 = questions s \<and>
       score s1 = score s + (if \<not> quits l \<and> ToLower (TrimSpace l) \<noteq> ''next'' \<and> passes q (TrimSpace l) then 1 else 0)"
proof (induction ls arbitrary: out)
  case Nil
  then show ?case by (simp add: answer_loop_eof)
next
  case (Cons l ls)
  show ?case
  proof (cases "decisive l")
    case True
    then show ?thesis
      by (subst answer_loop.simps) (auto simp: decisive_def quits_def Let_def ReadString_def evaluateAnswer_def)
  next
    case False
    have "\<exists>o1. answer_loop q (l # ls) s out = answer_loop q ls s o1"
      using False by (subst answer_loop.simps) (auto simp: decisive_def Let_def ReadString_def)
    then obtain o1 where o1: "answer_loop q (l # ls) s out = answer_loop q ls s o1" by blast
    show ?thesis unfolding o1 using Cons.IH [of o1] False by simp
  qed
qed

text \<open>The lines that decide an interview: at most five decisive lines, the last of them possibly a \<open>quit\<close>.\<close>

definition verdicts :: "nat \<Rightarrow> string list \<Rightarrow> string list" where
  "verdicts n ls = (let ds = take n (filter decisive ls) in
     takeWhile (\<lambda>l. \<not> quits l) ds @ take 1 (dropWhile (\<lambda>l. \<not> quits l) ds))"

definition interview_ends :: "nat \<Rightarrow> string list \<Rightarrow> bool" where
  "interview_ends n ls \<longleftrightarrow> n \<le> length (filter decisive ls) \<or> (\<exists>l \<in> set (filter decisive ls). quits l)"

lemma first_decisive:
  "interview_ends 0 ls" "verdicts 0 ls = []"
  "filter decisive ls = [] \<Longrightarrow> \<not> interview_ends (Suc n) ls"
  "filter decisive ls = l # filter decisive ls1 \<Longrightarrow> interview_ends (Suc n) ls \<longleftrightarrow> quits l \<or> interview_ends n ls1"
  "filter decisive ls = l # filter decisive ls1 \<Longrightarrow> verdicts (Suc n) ls = (if quits l then [l] else l # verdicts n ls1)"
  by (auto simp: interview_ends_def verdicts_def Let_def)

lemma dropWhile_filter: "dropWhile (\<lambda>x. \<not> P x) xs = x # ys \<Longrightarrow> filter P xs = x # filter P ys"
  by (induction xs) (auto split: if_splits)

lemma interview_run:
  assumes "questions s \<noteq> []" "is_total s + int (Suc n) = 5"
  shows "if interview_ends (Suc n) ls then
      \<exists>s1 out1. StartInterview rs ls s out = Some (s1, out1) \<and>
        is_total s1 = is_total s + int (length (verdicts (Suc n) ls)) \<and> verdicts (Suc n) ls \<noteq> [] \<and> length (verdicts (Suc n) ls) \<le> Suc n \<and>
        score s \<le> score s1 \<and> score s1 \<le> score s + int (length (filter (\<lambda>l. \<not> quits l) (verdicts (Suc n) ls)))
    else StartInterview rs ls s out = None"
  using assms
proof (induction n arbitrary: rs ls s out)
  case (0 rs ls s out)
  obtain q where q: "getRandomQuestion (rs 0) s = Some q" using 0(1) by (simp add: getRandomQuestion_def)
  let ?s = "s\<lparr> is_total := is_total s + 1 \<rparr>"
  note loop = answer_loop_lines [where ls = ls and q = q and s = ?s and out = "out @ [Asked q]"]
  show ?case
  proof (cases "dropWhile (\<lambda>l. \<not> decisive l) ls")
    case Nil
    then have "filter decisive ls = []" by (simp add: filter_empty_conv)
    then show ?thesis using loop Nil q by (subst StartInterview.simps) (simp add: first_decisive)
  next
    case (Cons l ls1)
    note f = dropWhile_filter [OF Cons]
    obtain out1 s1 where "answer_loop q ls ?s (out @ [Asked q]) = Some (if quits l then Quit else Next, ls1, s1, out1)"
      "is_total s1 = is_total s + 1" "score s \<le> score s1" "score s1 \<le> score s + (if quits l then 0 else 1)"
      using loop Cons by (auto split: if_splits)
    then show ?thesis using q 0(2) by (subst StartInterview.simps) (auto simp: first_decisive(4,5) [OF f] first_decisive(1,2))
  qed
next
  case (Suc n rs ls s out)
  obtain q where q: "getRandomQuestion (rs 0) s = Some q" using Suc.prems(1) by (simp add: getRandomQuestion_def)
  let ?s = "s\<lparr> is_total := is_total s + 1 \<rparr>"
  note loop = answer_loop_lines [where ls = ls and q = q and s = ?s and out = "out @ [Asked q]"]
  show ?case
  proof (cases "dropWhile (\<lambda>l. \<not> decisive l) ls")
    case Nil
    then have "filter decisive ls = []" by (simp add: filter_empty_conv)
    then show ?thesis using loop Nil q by (subst StartInterview.simps) (simp add: first_decisive)
  next
    case (Cons l ls1)
    note f = dropWhile_filter [OF Cons]
    obtain out1 s1 where s1: "answer_loop q ls ?s (out @ [Asked q]) = Some (if quits l then Quit else Next, ls1, s1, out1)"
      "is_total s1 = is_total s + 1" "questions s1 = questions s" "score s \<le> score s1" "score s1 \<le> score s + (if quits l then 0 else 1)"
      using loop Cons by (auto split: if_splits)
    have s1': "questions s1 \<noteq> []" "is_total s1 + int (Suc n) = 5" using s1(2,3) Suc.prems by simp_all
    show ?thesis
    proof (cases "quits l")
      case True
      then show ?thesis using q s1 by (subst StartInterview.simps) (auto simp: first_decisive(4,5) [OF f])
    next
      case False
      have "StartInterview rs ls s out = StartInterview (\<lambda>i. rs (Suc i)) ls1 s1 out1"
        using q s1(1,2) s1'(2) False by (subst StartInterview.simps) simp
      then show ?thesis
        using Suc.IH [OF s1', of ls1 "\<lambda>i. rs (Suc i)" out1] s1(2,4,5) False by (auto simp: first_decisive(4,5) [OF f])
    qed
  qed
qed

text \<open>C40: an interview about a bank of questions that is not empty returns exactly when five lines decide a question or one of
  them quits; otherwise, at the end of the input, it asks for an answer forever. When it returns, it has asked one question per
  deciding line, also for the one at which the candidate quits, and the score counts at most the answers among them.\<close>

theorem interview_outcome:
  assumes "bank \<noteq> []"
  shows "if interview_ends 5 ls then
      \<exists>s out. StartInterview rs ls (NewInterviewSimulator bank) [] = Some (s, out) \<and>
        is_total s = int (length (verdicts 5 ls)) \<and> 1 \<le> is_total s \<and> is_total s \<le> 5 \<and>
        0 \<le> score s \<and> score s \<le> int (length (filter (\<lambda>l. \<not> quits l) (verdicts 5 ls)))
    else StartInterview rs ls (NewInterviewSimulator bank) [] = None"
proof -
  have "Suc 4 = (5 :: nat)" by simp
  moreover have "0 < length (verdicts 5 ls) \<longleftrightarrow> verdicts 5 ls \<noteq> []" by simp
  ultimately show ?thesis
    using interview_run [of "NewInterviewSimulator bank" 4 ls rs "[]"] assms by (auto simp: NewInterviewSimulator_def Suc_le_eq)
qed

text \<open>A hint, a skipped question and a quit; and the same without the quit, which waits forever.\<close>

definition demo_question :: question where
  "demo_question = \<lparr> q_ID = 1, q_Question = [], q_Difficulty = [], q_Category = [], q_Keywords = [''ttl''], q_Answer = [], q_Tips = [] \<rparr>"

theorem interview_outcome_witness:
  "(\<exists>s out. StartInterview (\<lambda>_. 0) [''hint'', ''next'', ''quit''] (NewInterviewSimulator [demo_question]) [] = Some (s, out) \<and>
     is_total s = 2 \<and> score s \<le> 1) \<and>
   StartInterview (\<lambda>_. 0) [''hint'', ''next''] (NewInterviewSimulator [demo_question]) [] = None"
proof -
  have ne: "[demo_question] \<noteq> []" by simp
  have v: "interview_ends 5 [''hint'', ''next'', ''quit''] \<and> verdicts 5 [''hint'', ''next'', ''quit''] = [''next'', ''quit''] \<and>
    filter (\<lambda>l. \<not> quits l) [''next'', ''quit''] = [''next''] \<and> \<not> interview_ends 5 [''hint'', ''next'']" by code_simp
  show ?thesis
    using interview_outcome [OF ne, of "[''hint'', ''next'', ''quit'']" "\<lambda>_. 0"] interview_outcome [OF ne, of "[''hint'', ''next'']" "\<lambda>_. 0"] v
    by auto
qed

end
