(* ===== verification/Spec2Isabelle.thy ===== *)
theory Spec2Isabelle
  imports Dist_Props Health Client_Goroutines Client_Phases Tracker_Props Monitoring_Api Cache_Server
    Ring_Demos Basics_Demos Strategy_Demos Delayed_Delete Problem_Demos Mutex_Demo Never_Expire Multilevel_Demos Level_Demos
    Interview
begin

text \<open>
  Verification library of a distributed cache written in Go and of the tutorial programs that come with it.

  \<^bold>\<open>The program.\<close> A process of the cluster (\<open>cmd/node\<close>) holds a node-local LRU cache (\<open>core/lrucache.go\<close>) and its own copy
  of a consistent hash ring (\<open>core/distributed_cache.go\<close>). A request that reaches a process through its HTTP interface
  (\<open>distributed/api_handlers.go\<close>, \<open>distributed/node_server.go\<close>) is served from the local cache when the ring names this
  process for the key, and is forwarded to the process the address book has for the responsible node otherwise
  (\<open>distributed/distributed_node.go\<close>). The cluster manager (\<open>distributed/cluster_manager.go\<close>) keeps the membership table with
  the health of each member; the coordinator (\<open>distributed/cluster_coordinator.go\<close>) changes ring and membership together and
  sends the keys of a new node over the network. Clients use \<open>distributed/client.go\<close>; \<open>cmd/client\<close> is a program that exercises a
  cluster through it. \<open>monitoring\<close> observes a cache, records migrations, draws what it has seen and shows it over HTTP;
  \<open>core/server.go\<close> is a single-node HTTP server. The six tutorials are programs of their own.

  \<^bold>\<open>Conventions\<close> (\<open>Prelude\<close>). A Go string is the list of its bytes, a map a partial function, a struct a record, a pointer a
  location in a store where objects are shared and mutated (the LRU list, the migration records, the locks of
  \<open>MutexCache\<close>) and the value itself where nothing else holds or changes it. Times and durations are integers in
  nanoseconds. A run-time panic, and a loop that never ends, is \<open>None\<close>; an error of the source is a value. The order in which Go visits a map,
  every reading of the clock, random numbers and the network are arguments. 32-bit hashes are words; 64-bit counters are
  integers and do not reach \<open>2 ^ 63\<close> in practice. A method that holds its lock from beginning to end is one step; where
  the source gives a lock up in between and it matters, the steps are separate (\<open>Patterns_Conc\<close>, \<open>Mutex_Cache\<close>, \<open>tc_Get\<close>
  in \<open>Basics\<close>).

  \<^bold>\<open>Theories and code.\<close>

  \<^item> \<open>core/lrucache.go\<close>: \<open>Lru_Cache\<close> has every method on the pointer structure, \<open>Lru_List\<close> the list it represents,
    \<open>Lru_Spec\<close> and \<open>Lru_Ops\<close> the abstract cache, \<open>Lru_Refine\<close> the refinement, \<open>Lru_Props\<close> what follows for sequences of
    calls on a cache of any constructor: exactly when they panic, what each answers, the bounds of size and memory, the entries kept are the most recently used, expiry. \<open>Cache_Contract\<close>
    states what the layers above use of a cache (locales \<open>lossy_cache\<close>, \<open>roomy_cache\<close>) and interprets it on the pointer program.
  \<^item> \<open>core/distributed_cache.go\<close>: \<open>Dist_Cache\<close> has the operations, over \<open>Sha1\<close>; \<open>Ring_Arcs\<close> the contract of a ring (locale
    \<open>consistent_ring\<close>), \<open>Dist_Ring\<close> its interpretation, \<open>Dist_Inv\<close> the invariant, \<open>Dist_Migrate\<close> the migration, \<open>Dist_Props\<close> the
    properties of routing, reads, writes and membership changes, and the keys that a join on taken positions misplaces.
  \<^item> \<open>distributed\<close>: \<open>Http\<close> models JSON, URLs and requests; \<open>Dist_Node\<close>, \<open>Cluster_Manager\<close>, \<open>Coordinator\<close>, \<open>Node_Server\<close> and
    \<open>Client\<close> follow the files of the same name. \<open>Cluster_Net\<close> puts processes together: \<open>deliver\<close> runs the handler of the
    addressed process, with a bound on the nesting of requests (a client request and one forwarding are two levels, and a
    process that answers a forwarded request sends none). \<open>Cluster_Props\<close>, \<open>Membership\<close>, \<open>Health\<close> and \<open>Client_Props\<close> show: reads see
    writes whichever process is asked, deletes, the consistency of a freshly started cluster, that a migrated key has been
    acknowledged, what a joining process leaves undone, the verdict of the health check, the behaviour of retries.
  \<^item> The whole stack: \<open>Cluster_Refine\<close> shows that a consistent cluster with room for the keys answers every sequence of requests,
    each sent to any process, as one map does, \<open>Client_Refine\<close> the same of the client library in front of it, for plain
    keys (\<open>plain_key\<close>: what a URL carries unchanged) and with the empty value refused; \<open>query_key_stored_elsewhere\<close> in
    \<open>Cluster_Props\<close> shows what happens to another key. Ring, routing,
    forwarding, HTTP encoding and the pointer structure of the caches are behind that map.
  \<^item> \<open>cmd/client/main.go\<close>: \<open>Client_Program\<close> has the phases of the program as client operations with counts and verdicts, its
    goroutines as scripts that a schedule interleaves; \<open>Client_Session\<close> runs them on a consistent cluster, \<open>Client_Phases\<close> and
    \<open>Client_Goroutines\<close> show what the program then reports.
  \<^item> \<open>monitoring\<close>: \<open>Migration_Tracker\<close>, \<open>Ring_Monitor\<close>, \<open>Monitoring\<close>; \<open>Tracker_Props\<close> relates the counters to the records.
    \<open>Visualizer\<close> has the views (a canvas of runes, and lines that carry what is printed in them), \<open>Monitoring_Api\<close> the HTTP
    interface; they show that drawing stays on the canvas and that requests to look never change the monitor.
  \<^item> \<open>core/server.go\<close>, \<open>cmd/node/main.go\<close>: \<open>Cache_Server\<close>, with the round trip of a POST and a GET.
  \<^item> \<open>tutorial/01-basics\<close>: \<open>Basics\<close>. The contract of every cache whose entries expire is the locale \<open>ttl_store\<close> of \<open>Ttl_Store\<close>.
    \<open>Basics_Demos\<close> has the goroutine that cleans a cache up, which no reader can notice, and what the demonstrations print,
    the concurrent one under any schedule.
  \<^item> \<open>tutorial/02-patterns\<close>: \<open>Patterns\<close> states the contract of a caching strategy (locales \<open>caching_store\<close>,
    \<open>transparent_cache\<close>: reads, writes and deletes answer like a map) and interprets it on cache-aside, write-through and
    write-back; \<open>Patterns_Conc\<close> has the methods of the first two as interleaved goroutines, \<open>Patterns_Props\<close> the properties.
    \<open>Strategy_Demos\<close> has the sequential demonstrations, \<open>Delayed_Delete\<close> the concurrent ones: after a delayed double delete
    every read gives the new value exactly when no reader beside it still has to store an older one.
  \<^item> \<open>tutorial/03-problems\<close>: \<open>Problems\<close> and \<open>Problems_Props\<close> (random time to live, two levels, circuit breaker, Bloom filter, null
    values), \<open>Mutex_Cache\<close> (\<open>GetOrSet\<close> in any number of goroutines, as a step relation). \<open>Stampede\<close> has the goroutines that
    find an entry missing (locale \<open>stampede\<close> over a cache and a database, interpreted on the caches of both problems) and
    the number of queries they cause, \<open>Mutex_Demo\<close> the same race with \<open>GetOrSet\<close>, which ends under every schedule with one
    query, \<open>Never_Expire\<close> the asynchronous update, \<open>Problem_Demos\<close> the demonstrations of the other remedies.
  \<^item> \<open>tutorial/04-consistent-hash\<close>: \<open>Tutorial_Ring\<close> and \<open>Tutorial_Ring_Props\<close>, over \<open>Hashes\<close>. Both rings interpret
    \<open>consistent_ring\<close>; the collision loop of the virtual nodes is a partial function, and the theory shows when it ends.
    \<open>Ring_Demos\<close> has the demonstrations and what their migration analyses count.
  \<^item> \<open>tutorial/05-multilevel\<close>: \<open>Multilevel\<close>, \<open>Multilevel_Props\<close>, \<open>Multilevel_Reads\<close>; the multi-level cache is a \<open>caching_store\<close>. The
    clock of a call may advance between its readings (\<open>in_call\<close>), which is where its simulated latencies enter the bound on stale reads.
    \<open>Multilevel_Tiers\<close> abstracts it to the sets of keys each level has and four counters and shows the refinement;
    \<open>Multilevel_Demos\<close> and \<open>Level_Demos\<close> have the demonstrations, whose metrics follow from it.
  \<^item> \<open>tutorial/06-interview\<close>: \<open>Interview\<close>, the dialogue as partial functions over the lines typed, and when it ends. The menu and the
    interview read through buffers of their own, so what the first leaves to the second is a parameter of \<open>simulator_main\<close>.

  \<^bold>\<open>Libraries as parameters.\<close> Gin (\<open>gin_ok\<close> in \<open>Node_Server\<close>: decoding with validation, matching of routes) and the network are
  arguments. SHA-1, MD5, FNV, JSON, URL escaping, path cleaning, binary search and UTF-8 decoding are the standard
  library's and are written out.

  \<^bold>\<open>Not modelled.\<close> Data races and the memory model; the tickers and goroutines that only start a modelled step periodically (their ticks are arguments
  where a demonstration depends on them);
  listening on sockets, waiting for signals, reading flags and YAML files; transport tuning of the HTTP client; logging and
  printing: where the output is what the code computes (views, reports, counts) it is a value, without fixed texts, line
  breaks and number formats. The \<open>main\<close> functions, \<open>tutorial/03-problems/solutions_demo.go\<close> and
  \<open>tutorial/04-consistent-hash/test.go\<close> call modelled functions in a fixed order and print. The simulated latencies
  of the tutorials have no effect on the modelled state, except for the latency counter of \<open>Multilevel\<close>. Floating-point
  rates are rational numbers.
\<close>

end
